(* ===== verification/Tunnel_Prelude.thy ===== *)
theory Tunnel_Prelude
  imports Main "HOL-Library.Word"
begin

text \<open>
  Shared material of the development: the machine integer types, the byte orders used on the
  wire, writes into a block of memory, and the collections of simplification rules of the
  components.

  Conventions used by every theory.
  \<^item> A C array or a block of memory is a list of fixed length; an address inside it is an index.
  \<^item> \<open>None\<close> as the result of an operation that the C code declares \<open>void\<close> or total stands for a
    fatal exit: a failed \<open>ASSERT\<close> of OpenVPN (which is compiled in and aborts the process), an
    out of range \<open>index_verify\<close>, or a NULL dereference.
  \<^item> \<open>int\<close> fields that hold sizes and offsets are bounded far below \<open>INT_MAX\<close> by the code's own
    checks and are modelled as \<^typ>\<open>int\<close>; packet ids, flags and counters that the code lets wrap
    are words of their width.
\<close>

unbundle bit_operations_syntax

type_synonym u8 = "8 word"
type_synonym u16 = "16 word"
type_synonym u32 = "32 word"
type_synonym u64 = "64 word"
type_synonym bytes = "u8 list"

named_theorems buf_simps \<open>rewriting of buffer operations on well-formed buffers\<close>
named_theorems cl_simps \<open>circular lists seen as lists\<close>
named_theorems wire_simps \<open>byte order conversions\<close>

section \<open>Byte orders\<close>

definition be16 :: "u16 \<Rightarrow> bytes" where
  "be16 w = [ucast (drop_bit 8 w), ucast w]"

definition be32 :: "u32 \<Rightarrow> bytes" where
  "be32 w = [ucast (drop_bit 24 w), ucast (drop_bit 16 w), ucast (drop_bit 8 w), ucast w]"

definition le16 :: "u16 \<Rightarrow> bytes" where
  "le16 w = [ucast w, ucast (drop_bit 8 w)]"

definition le32 :: "u32 \<Rightarrow> bytes" where
  "le32 w = [ucast w, ucast (drop_bit 8 w), ucast (drop_bit 16 w), ucast (drop_bit 24 w)]"

fun of_be16 :: "bytes \<Rightarrow> u16" where
  "of_be16 [a, b] = push_bit 8 (ucast a) OR ucast b"
| "of_be16 _ = 0"

fun of_be32 :: "bytes \<Rightarrow> u32" where
  "of_be32 [a, b, c, d] =
     push_bit 24 (ucast a) OR push_bit 16 (ucast b) OR push_bit 8 (ucast c) OR ucast d"
| "of_be32 _ = 0"

fun of_le16 :: "bytes \<Rightarrow> u16" where
  "of_le16 [a, b] = push_bit 8 (ucast b) OR ucast a"
| "of_le16 _ = 0"

fun of_le32 :: "bytes \<Rightarrow> u32" where
  "of_le32 [a, b, c, d] =
     push_bit 24 (ucast d) OR push_bit 16 (ucast c) OR push_bit 8 (ucast b) OR ucast a"
| "of_le32 _ = 0"

lemma length_le32 [simp]: "length (le32 w) = 4"
  by (simp add: le32_def)

lemma length_be16 [simp]: "length (be16 w) = 2"
  by (simp add: be16_def)

lemma length_be32 [simp]: "length (be32 w) = 4"
  by (simp add: be32_def)

lemma length_le16 [simp]: "length (le16 w) = 2"
  by (simp add: le16_def)

lemma of_be16_be16 [simp, wire_simps]: "of_be16 (be16 w) = w"
  by (rule bit_word_eqI) (auto simp: be16_def bit_simps)

lemma of_be32_be32 [simp, wire_simps]: "of_be32 (be32 w) = w"
proof (rule bit_word_eqI)
  fix n :: nat
  assume "n < LENGTH(32)"
  then consider "n < 8" | "8 \<le> n" "n < 16" | "16 \<le> n" "n < 24" | "24 \<le> n" "n < 32"
    by fastforce
  then show "bit (of_be32 (be32 w)) n \<longleftrightarrow> bit w n"
    by cases (auto simp: be32_def bit_simps)
qed

lemma of_le16_le16 [simp, wire_simps]: "of_le16 (le16 w) = w"
  by (rule bit_word_eqI) (auto simp: le16_def bit_simps)

lemma of_le32_le32 [simp, wire_simps]: "of_le32 (le32 w) = w"
proof -
  have "of_le32 (le32 w) = of_be32 (be32 w)" by (simp add: le32_def be32_def)
  then show ?thesis by simp
qed

section \<open>Words\<close>

lemma uint_pos: "uint (w :: 'a::len word) \<noteq> 0 \<Longrightarrow> 0 < uint w"
  using uint_ge_0 [of w] by linarith

lemma unat_inc:
  assumes "i < (t :: 'a::len word)"
  shows "unat (i + 1) = Suc (unat i)"
proof -
  have "unat i + 1 < 2 ^ LENGTH('a)"
    using assms unsigned_less [of t, where 'a = nat] unfolding word_less_nat_alt by linarith
  then show ?thesis
    by (simp add: unat_word_ariths)
qed

lemma unat_inc_nz:
  assumes "i + 1 \<noteq> (0 :: 'a::len word)"
  shows "unat (i + 1) = Suc (unat i)"
proof -
  have "unat (i + 1) \<noteq> 0" using assms by (simp add: unat_eq_zero)
  then show ?thesis by (simp add: unat_word_ariths mod_Suc split: if_splits)
qed

lemma sint_small:
  assumes "unat w < 2 ^ (LENGTH('a) - 1)"
  shows "sint (w :: 'a::len word) = int (unat w)"
proof -
  have u: "uint w = int (unat w)" by (rule uint_nat)
  have "int (unat w) < int (2 ^ (LENGTH('a) - 1))"
    using assms by (simp only: of_nat_less_iff)
  then have "uint w < 2 ^ (LENGTH('a) - 1)" by simp
  moreover have "- (2 ^ (LENGTH('a) - 1)) \<le> uint w"
    using uint_ge_0 [of w] by (rule order_trans [rotated]) simp
  ultimately have "signed_take_bit (LENGTH('a) - Suc 0) (uint w) = uint w"
    by (intro signed_take_bit_int_eq_self) auto
  then show ?thesis by (simp only: sint_uint u)
qed

section \<open>Writing into memory\<close>

lemma nth_update_neq: "j < length xs \<Longrightarrow> xs ! j \<noteq> c \<Longrightarrow> v \<noteq> c \<Longrightarrow> xs[i := v] ! j \<noteq> c"
  by (cases "i = j") simp_all

definition mem_write :: "'a list \<Rightarrow> nat \<Rightarrow> 'a list \<Rightarrow> 'a list" where
  "mem_write m i xs = take i m @ xs @ drop (i + length xs) m"

definition mem_read :: "'a list \<Rightarrow> nat \<Rightarrow> nat \<Rightarrow> 'a list" where
  "mem_read m i n = take n (drop i m)"

lemma length_mem_write [simp]: "i + length xs \<le> length m \<Longrightarrow> length (mem_write m i xs) = length m"
  by (simp add: mem_write_def)

lemma length_mem_read [simp]: "i + n \<le> length m \<Longrightarrow> length (mem_read m i n) = n"
  by (simp add: mem_read_def)

lemma mem_write_Nil [simp]: "mem_write m i [] = m"
  by (simp add: mem_write_def)

lemma mem_read_0 [simp]: "mem_read m i 0 = []"
  by (simp add: mem_read_def)

lemma mem_read_write_same:
  "i + length xs \<le> length m \<Longrightarrow> mem_read (mem_write m i xs) i (length xs) = xs"
  by (simp add: mem_read_def mem_write_def)

lemma mem_read_write_before:
  "j + n \<le> i \<Longrightarrow> i + length xs \<le> length m \<Longrightarrow> mem_read (mem_write m i xs) j n = mem_read m j n"
  by (simp add: mem_read_def mem_write_def drop_take)

lemma mem_read_write_after:
  "i + length xs \<le> j \<Longrightarrow> i + length xs \<le> length m \<Longrightarrow>
   mem_read (mem_write m i xs) j n = mem_read m j n"
  by (simp add: mem_read_def mem_write_def)

lemma mem_read_write_disjoint:
  "a + length xs \<le> length m \<Longrightarrow> j + n \<le> a \<or> a + length xs \<le> j \<Longrightarrow> mem_read (mem_write m a xs) j n = mem_read m j n"
  using mem_read_write_before mem_read_write_after by metis

lemma mem_write_read_same: "i + n \<le> length m \<Longrightarrow> mem_write m i (mem_read m i n) = m"
  by (simp add: mem_read_def mem_write_def append_assoc [symmetric] take_add [symmetric] del: append_assoc)

lemma mem_read_split: "mem_read m i (a + b) = mem_read m i a @ mem_read m (i + a) b"
  by (simp add: mem_read_def take_add add.commute)

lemma mem_read_append_write:
  assumes "i + n + length xs \<le> length m"
  shows "mem_read (mem_write m (i + n) xs) i (n + length xs) = mem_read m i n @ xs"
  using assms by (simp add: mem_read_split mem_read_write_same mem_read_write_before)

lemma be16_of_be16: "length xs = 2 \<Longrightarrow> be16 (of_be16 xs) = xs"
proof -
  assume "length xs = 2"
  then obtain a b where "xs = [a, b]" by (auto simp: numeral_2_eq_2 length_Suc_conv)
  moreover have "ucast (drop_bit 8 (push_bit 8 (ucast a) OR ucast b :: u16)) = a" "ucast (push_bit 8 (ucast a) OR ucast b :: u16) = b"
    by (rule bit_word_eqI; auto simp: bit_simps dest: bit_imp_le_length)+
  ultimately show ?thesis by (simp add: be16_def)
qed

end
