(* ===== verification/Ovpn_Buffer.thy ===== *)
theory Ovpn_Buffer
  imports Tunnel_Prelude
begin

text \<open>
  OpenVPN's \<open>struct buffer\<close> (\<open>openvpn/src/openvpn/buffer.h\<close>, \<open>buffer.c\<close>) and the integer helpers of
  \<open>integer.h\<close>.

  A buffer is a window of \<open>len\<close> bytes at \<open>offset\<close> inside a block of \<open>capacity\<close> bytes. The block is a
  list of bytes, and \<open>data == NULL\<close> is \<^term>\<open>None\<close>. A pointer that a function returns into the
  block is an index of it. Functions of the source that return NULL or \<open>false\<close> and leave the buffer
  as it was give \<^term>\<open>None\<close>; the reading functions, which may move the window before they fail,
  return the buffer as well.

  The locale \<open>byte_buffer\<close> at the end is what the wire formats of the other components rely on:
  appending appends to the content, reading takes a prefix of it.
\<close>

section \<open>Integer helpers (integer.h)\<close>

definition min_int :: "int \<Rightarrow> int \<Rightarrow> int" where
  "min_int x y = (if x < y then x else y)"

definition max_int :: "int \<Rightarrow> int \<Rightarrow> int" where
  "max_int x y = (if x > y then x else y)"

definition constrain_int :: "int \<Rightarrow> int \<Rightarrow> int \<Rightarrow> int" where
  "constrain_int x mn mx =
     (if mn > mx then mn else if x < mn then mn else if x > mx then mx else x)"

definition modulo_subtract :: "int \<Rightarrow> int \<Rightarrow> int \<Rightarrow> int option" where
  "modulo_subtract x y m =
     (let d1 = x - y; d2 = (if x > y then - m else m) + d1
      in if 0 \<le> x \<and> x < m \<and> 0 \<le> y \<and> y < m
         then Some (if \<bar>d1\<bar> > \<bar>d2\<bar> then d2 else d1) else None)"

definition modulo_add :: "int \<Rightarrow> int \<Rightarrow> int \<Rightarrow> int option" where
  "modulo_add x y m =
     (let s = x + y
      in if 0 \<le> x \<and> x < m \<and> - m \<le> y \<and> y \<le> m
         then let s1 = (if s \<ge> m then s - m else s)
              in Some (if s1 < 0 then s1 + m else s1)
         else None)"

definition index_verify :: "int \<Rightarrow> int \<Rightarrow> int option" where
  "index_verify i n = (if i < 0 \<or> i \<ge> n then None else Some i)"

definition round_down_uint :: "u32 \<Rightarrow> u32 \<Rightarrow> u32" where
  "round_down_uint num multiple = (num div multiple) * multiple"

lemma modulo_add_mod:
  assumes "0 \<le> x" "x < m" "- m \<le> y" "y \<le> m"
  shows "modulo_add x y m = Some ((x + y) mod m)"
proof -
  consider "x + y < 0" | "0 \<le> x + y" "x + y < m" | "m \<le> x + y" "x + y < 2 * m"
    using assms by linarith
  then show ?thesis
  proof cases
    case 1
    have "(x + y) mod m = (x + y + m) mod m" by simp
    also have "\<dots> = x + y + m"
      using 1 assms by (intro mod_pos_pos_trivial) auto
    finally have "(x + y) mod m = x + y + m" .
    with 1 assms show ?thesis by (simp add: modulo_add_def Let_def)
  next
    case 2
    with assms show ?thesis by (simp add: modulo_add_def Let_def)
  next
    case 3
    have "(x + y) mod m = (x + y - m) mod m" by simp
    also have "\<dots> = x + y - m"
      using 3 assms by (intro mod_pos_pos_trivial) auto
    finally have "(x + y) mod m = x + y - m" .
    with 3 assms show ?thesis by (simp add: modulo_add_def Let_def)
  qed
qed

lemma modulo_subtract_cong:
  assumes "modulo_subtract x y m = Some d"
  shows "(y + d) mod m = x" and "2 * \<bar>d\<bar> \<le> m"
proof -
  have xy: "0 \<le> x" "x < m" "0 \<le> y" "y < m"
    using assms by (auto simp: modulo_subtract_def Let_def split: if_splits)
  have "d = x - y \<or> d = x - y + m \<or> d = x - y - m"
    using assms by (auto simp: modulo_subtract_def Let_def split: if_splits)
  then have "y + d = x \<or> y + d = x + m \<or> y + d = x - m" by linarith
  then have "(y + d) mod m = x mod m"
    by (metis mod_add_self2 minus_mod_self2)
  with xy show "(y + d) mod m = x" by simp
  show "2 * \<bar>d\<bar> \<le> m"
    using assms xy by (auto simp: modulo_subtract_def Let_def abs_if split: if_splits)
qed

section \<open>The buffer and its operations\<close>

definition BUF_SIZE_MAX :: nat where
  "BUF_SIZE_MAX = 1000000"

record buffer =
  b_capacity :: int
  b_offset :: int
  b_len :: int
  b_data :: "bytes option"

definition clear_buf :: buffer where
  "clear_buf = \<lparr>b_capacity = 0, b_offset = 0, b_len = 0, b_data = None\<rparr>"

definition buf_size_valid :: "nat \<Rightarrow> bool" where
  "buf_size_valid n \<longleftrightarrow> n < BUF_SIZE_MAX"

definition alloc_buf :: "nat \<Rightarrow> buffer option" where
  "alloc_buf n =
     (if \<not> buf_size_valid n then None
      else Some \<lparr>b_capacity = int n, b_offset = 0, b_len = 0, b_data = Some (replicate n 0)\<rparr>)"

definition buf_valid :: "buffer \<Rightarrow> bool" where
  "buf_valid b \<longleftrightarrow> b_data b \<noteq> None \<and> b_len b \<ge> 0"

definition buf_bptr :: "buffer \<Rightarrow> int option" where
  "buf_bptr b = (if buf_valid b then Some (b_offset b) else None)"

definition BLEN :: "buffer \<Rightarrow> int" where
  "BLEN b = (if buf_valid b then b_len b else 0)"

definition buf_reset_len :: "buffer \<Rightarrow> buffer" where
  "buf_reset_len b = b\<lparr>b_len := 0, b_offset := 0\<rparr>"

definition buf_init :: "buffer \<Rightarrow> int \<Rightarrow> buffer option" where
  "buf_init b off =
     (if off < 0 \<or> off > b_capacity b \<or> b_data b = None then None
      else Some (b\<lparr>b_len := 0, b_offset := off\<rparr>))"

definition buf_safe :: "buffer \<Rightarrow> nat \<Rightarrow> bool" where
  "buf_safe b n \<longleftrightarrow>
     buf_valid b \<and> buf_size_valid n \<and> b_offset b + b_len b + int n \<le> b_capacity b"

definition buf_forward_capacity :: "buffer \<Rightarrow> int" where
  "buf_forward_capacity b =
     (if buf_valid b
      then let r = b_capacity b - (b_offset b + b_len b) in if r < 0 then 0 else r
      else 0)"

definition buf_prepend :: "buffer \<Rightarrow> int \<Rightarrow> (int \<times> buffer) option" where
  "buf_prepend b n =
     (if \<not> buf_valid b \<or> n < 0 \<or> n > b_offset b then None
      else Some (b_offset b - n, b\<lparr>b_offset := b_offset b - n, b_len := b_len b + n\<rparr>))"

definition buf_advance :: "buffer \<Rightarrow> int \<Rightarrow> buffer option" where
  "buf_advance b n =
     (if \<not> buf_valid b \<or> n < 0 \<or> b_len b < n then None
      else Some (b\<lparr>b_offset := b_offset b + n, b_len := b_len b - n\<rparr>))"

definition buf_write_alloc :: "buffer \<Rightarrow> nat \<Rightarrow> (int \<times> buffer) option" where
  "buf_write_alloc b n =
     (if \<not> buf_safe b n then None
      else Some (b_offset b + b_len b, b\<lparr>b_len := b_len b + int n\<rparr>))"

definition buf_read_alloc :: "buffer \<Rightarrow> int \<Rightarrow> int option \<times> buffer" where
  "buf_read_alloc b n =
     (if n < 0 \<or> b_len b < n then (None, b)
      else (buf_bptr b, b\<lparr>b_offset := b_offset b + n, b_len := b_len b - n\<rparr>))"

definition buf_bend :: "buffer \<Rightarrow> int" where
  "buf_bend b = (case buf_bptr b of None \<Rightarrow> 0 | Some p \<Rightarrow> p) + BLEN b"

definition buf_size_valid_signed :: "int \<Rightarrow> bool" where
  "buf_size_valid_signed n \<longleftrightarrow> - int BUF_SIZE_MAX \<le> n \<and> n < int BUF_SIZE_MAX"

definition buf_safe_bidir :: "buffer \<Rightarrow> int \<Rightarrow> bool" where
  "buf_safe_bidir b n \<longleftrightarrow>
     buf_valid b \<and> buf_size_valid_signed n \<and> 0 \<le> b_len b + n \<and> b_offset b + (b_len b + n) \<le> b_capacity b"

definition buf_inc_len :: "buffer \<Rightarrow> int \<Rightarrow> buffer option" where
  "buf_inc_len b n = (if buf_safe_bidir b n then Some (b\<lparr>b_len := b_len b + n\<rparr>) else None)"

text \<open>
  A buffer over an array of the caller. Of the array the buffer reaches the first \<open>size\<close> bytes, and these are its block.
\<close>

definition buf_set_write :: "bytes \<Rightarrow> nat \<Rightarrow> buffer option" where
  "buf_set_write d n =
     (if \<not> buf_size_valid n then None
      else Some \<lparr>b_capacity = int n, b_offset = 0, b_len = 0, b_data = Some ((take n d)[0 := 0])\<rparr>)"

definition buf_set_read :: "bytes \<Rightarrow> nat \<Rightarrow> buffer option" where
  "buf_set_read d n =
     (if \<not> buf_size_valid n then None
      else Some \<lparr>b_capacity = int n, b_offset = 0, b_len = int n, b_data = Some (take n d)\<rparr>)"

text \<open>\<open>memcpy\<close> to and from an address inside the block.\<close>

definition buf_store :: "buffer \<Rightarrow> int \<Rightarrow> bytes \<Rightarrow> buffer" where
  "buf_store b p xs = b\<lparr>b_data := map_option (\<lambda>m. mem_write m (nat p) xs) (b_data b)\<rparr>"

definition buf_load :: "buffer \<Rightarrow> int \<Rightarrow> nat \<Rightarrow> bytes" where
  "buf_load b p n = (case b_data b of None \<Rightarrow> [] | Some m \<Rightarrow> mem_read m (nat p) n)"

definition buf_write :: "buffer \<Rightarrow> bytes \<Rightarrow> buffer option" where
  "buf_write b xs =
     (case buf_write_alloc b (length xs) of
        None \<Rightarrow> None | Some (p, b') \<Rightarrow> Some (buf_store b' p xs))"

definition buf_write_prepend :: "buffer \<Rightarrow> bytes \<Rightarrow> buffer option" where
  "buf_write_prepend b xs =
     (case buf_prepend b (int (length xs)) of
        None \<Rightarrow> None | Some (p, b') \<Rightarrow> Some (buf_store b' p xs))"

definition buf_write_u8 :: "buffer \<Rightarrow> u8 \<Rightarrow> buffer option" where
  "buf_write_u8 b x = buf_write b [x]"

definition buf_write_u16 :: "buffer \<Rightarrow> u16 \<Rightarrow> buffer option" where
  "buf_write_u16 b x = buf_write b (be16 x)"

definition buf_write_u32 :: "buffer \<Rightarrow> u32 \<Rightarrow> buffer option" where
  "buf_write_u32 b x = buf_write b (be32 x)"

definition buf_read :: "buffer \<Rightarrow> nat \<Rightarrow> bytes option \<times> buffer" where
  "buf_read b n =
     (case buf_read_alloc b (int n) of
        (None, b') \<Rightarrow> (None, b') | (Some p, b') \<Rightarrow> (Some (buf_load b p n), b'))"

definition buf_read_u8 :: "buffer \<Rightarrow> int \<times> buffer" where
  "buf_read_u8 b =
     (if BLEN b < 1 then (- 1, b)
      else (uint (hd (buf_load b (b_offset b) 1)),
            case buf_advance b 1 of None \<Rightarrow> b | Some b' \<Rightarrow> b'))"

definition buf_read_u16 :: "buffer \<Rightarrow> int \<times> buffer" where
  "buf_read_u16 b =
     (case buf_read b 2 of (None, b') \<Rightarrow> (- 1, b') | (Some xs, b') \<Rightarrow> (uint (of_be16 xs), b'))"

definition buf_read_u32 :: "buffer \<Rightarrow> u32 option \<times> buffer" where
  "buf_read_u32 b =
     (case buf_read b 4 of (None, b') \<Rightarrow> (None, b') | (Some xs, b') \<Rightarrow> (Some (of_be32 xs), b'))"

definition buf_copy :: "buffer \<Rightarrow> buffer \<Rightarrow> buffer option" where
  "buf_copy dst src = buf_write dst (buf_load src (b_offset src) (nat (BLEN src)))"

definition buf_copy_n :: "buffer \<Rightarrow> buffer \<Rightarrow> int \<Rightarrow> bool \<times> buffer \<times> buffer" where
  "buf_copy_n dst src n =
     (case buf_read_alloc src n of
        (None, src') \<Rightarrow> (False, dst, src')
      | (Some p, src') \<Rightarrow>
          (case buf_write dst (buf_load src p (nat n)) of
             None \<Rightarrow> (False, dst, src') | Some dst' \<Rightarrow> (True, dst', src')))"

definition buf_copy_range :: "buffer \<Rightarrow> int \<Rightarrow> buffer \<Rightarrow> int \<Rightarrow> int \<Rightarrow> buffer option" where
  "buf_copy_range dst di src si n =
     (if si < 0 \<or> n < 0 \<or> si + n > b_len src \<or> di < 0 \<or> b_offset dst + di + n > b_capacity dst
      then None
      else let dst' = buf_store dst (b_offset dst + di) (buf_load src (b_offset src + si) (nat n))
           in Some (if di + n > b_len dst then dst'\<lparr>b_len := di + n\<rparr> else dst'))"

text \<open>
  \<open>buf_sub\<close> returns a buffer that aliases part of its argument. The model returns the address of the
  part together with the sub-buffer; \<open>buf_sub_commit\<close> writes the sub-buffer's memory back at that
  address, which is what the shared memory does in the source.
\<close>

definition buf_sub :: "buffer \<Rightarrow> int \<Rightarrow> bool \<Rightarrow> (int \<times> buffer \<times> buffer) option" where
  "buf_sub b n prepend =
     (case (if prepend then buf_prepend b n
            else if n < 0 then None else buf_write_alloc b (nat n)) of
        None \<Rightarrow> None
      | Some (p, b') \<Rightarrow>
          Some (p, \<lparr>b_capacity = n, b_offset = 0, b_len = 0, b_data = Some (buf_load b p (nat n))\<rparr>, b'))"

definition buf_sub_commit :: "buffer \<Rightarrow> int \<Rightarrow> buffer \<Rightarrow> buffer" where
  "buf_sub_commit b p sub = buf_store b p (case b_data sub of None \<Rightarrow> [] | Some m \<Rightarrow> m)"

section \<open>Well-formed buffers and their content\<close>

definition buf_ok :: "buffer \<Rightarrow> bool" where
  "buf_ok b \<longleftrightarrow> (\<exists>m. b_data b = Some m \<and> int (length m) = b_capacity b) \<and>
     0 \<le> b_offset b \<and> 0 \<le> b_len b \<and> b_offset b + b_len b \<le> b_capacity b"

definition buf_content :: "buffer \<Rightarrow> bytes" where
  "buf_content b = buf_load b (b_offset b) (nat (b_len b))"

lemma buf_ok_valid: "buf_ok b \<Longrightarrow> buf_valid b"
  by (auto simp: buf_ok_def buf_valid_def)

lemma buf_load_all: "buf_ok buf \<Longrightarrow> buf_load buf (b_offset buf) (nat (BLEN buf)) = buf_content buf"
  by (simp add: buf_content_def BLEN_def buf_ok_valid)

lemma length_buf_content: "buf_ok b \<Longrightarrow> int (length (buf_content b)) = b_len b"
  by (auto simp: buf_ok_def buf_content_def buf_load_def)

lemma alloc_buf_ok: "alloc_buf n = Some b \<Longrightarrow> buf_ok b \<and> buf_content b = []"
  by (auto simp: alloc_buf_def buf_ok_def buf_content_def buf_load_def split: if_splits)

lemma buf_init_ok:
  "buf_ok b \<Longrightarrow> 0 \<le> off \<Longrightarrow> off \<le> b_capacity b \<Longrightarrow>
   \<exists>b'. buf_init b off = Some b' \<and> buf_ok b' \<and> buf_content b' = [] \<and> b_offset b' = off \<and>
        b_capacity b' = b_capacity b"
  by (auto simp: buf_init_def buf_ok_def buf_content_def buf_load_def)

lemma buf_write_content:
  assumes "buf_ok b" "buf_write b xs = Some b'"
  shows "buf_ok b' \<and> buf_content b' = buf_content b @ xs \<and> b_capacity b' = b_capacity b \<and>
         b_offset b' = b_offset b"
proof -
  obtain m where m: "b_data b = Some m" "int (length m) = b_capacity b"
    and b: "0 \<le> b_offset b" "0 \<le> b_len b" "b_offset b + b_len b \<le> b_capacity b"
    using assms(1) by (auto simp: buf_ok_def)
  define i n where "i = nat (b_offset b)" and "n = nat (b_len b)"
  have in_eq: "nat (b_offset b + b_len b) = i + n" "nat (b_len b + int (length xs)) = n + length xs"
    using b by (auto simp: i_def n_def)
  have fit: "b_offset b + b_len b + int (length xs) \<le> b_capacity b"
    and b': "b' = b\<lparr>b_len := b_len b + int (length xs), b_data := Some (mem_write m (i + n) xs)\<rparr>"
    using assms(2) m in_eq
    by (auto simp: buf_write_def buf_write_alloc_def buf_safe_def buf_store_def split: if_splits)
  have "i + n + length xs \<le> length m"
    using fit m b by (simp add: i_def n_def)
  then show ?thesis
    using m b fit b' in_eq mem_read_append_write [of i n xs m]
    by (auto simp: buf_ok_def buf_content_def buf_load_def i_def [symmetric] n_def [symmetric])
qed

lemma buf_write_succeeds:
  assumes "buf_ok b" "length xs < BUF_SIZE_MAX"
    "b_offset b + b_len b + int (length xs) \<le> b_capacity b"
  shows "\<exists>b'. buf_write b xs = Some b'"
  using assms buf_ok_valid [OF assms(1)]
  by (auto simp: buf_write_def buf_write_alloc_def buf_safe_def buf_size_valid_def)

lemma buf_write_fits:
  assumes "buf_ok b" "length xs < BUF_SIZE_MAX"
    "b_offset b + int (length (buf_content b)) + int (length xs) \<le> b_capacity b"
  shows "\<exists>b'. buf_write b xs = Some b' \<and> buf_ok b' \<and> buf_content b' = buf_content b @ xs \<and>
    b_capacity b' = b_capacity b \<and> b_offset b' = b_offset b"
  using buf_write_succeeds [OF assms(1,2)] assms(3) length_buf_content [OF assms(1)]
    buf_write_content [OF assms(1)] by fastforce

lemma buf_prepend_content:
  assumes "buf_ok b" "buf_write_prepend b xs = Some b'"
  shows "buf_ok b' \<and> buf_content b' = xs @ buf_content b \<and> b_capacity b' = b_capacity b \<and>
         b_offset b' = b_offset b - int (length xs)"
proof -
  obtain m where m: "b_data b = Some m" "int (length m) = b_capacity b"
    and b: "0 \<le> b_offset b" "0 \<le> b_len b" "b_offset b + b_len b \<le> b_capacity b"
    using assms(1) by (auto simp: buf_ok_def)
  define i n where "i = nat (b_offset b - int (length xs))" and "n = nat (b_len b)"
  have fit: "int (length xs) \<le> b_offset b"
    and b': "b' = b\<lparr>b_offset := b_offset b - int (length xs), b_len := b_len b + int (length xs),
                    b_data := Some (mem_write m i xs)\<rparr>"
    using assms(2) m by (auto simp: buf_write_prepend_def buf_prepend_def buf_store_def i_def
        split: if_splits)
  have eqs: "nat (b_offset b) = i + length xs" "nat (b_len b + int (length xs)) = length xs + n"
    using b fit by (auto simp: i_def n_def)
  have "i + length xs \<le> length m"
    using fit m b by (simp add: i_def)
  then have "mem_read (mem_write m i xs) i (length xs + n) = xs @ mem_read m (i + length xs) n"
    by (simp add: mem_read_split mem_read_write_same mem_read_write_after)
  with \<open>i + length xs \<le> length m\<close> show ?thesis
    using m b fit b' eqs by (auto simp: buf_ok_def buf_content_def buf_load_def i_def n_def)
qed

lemma buf_prepend_succeeds:
  assumes "buf_ok b" "int (length xs) \<le> b_offset b"
  shows "\<exists>b'. buf_write_prepend b xs = Some b'"
  using assms buf_ok_valid [OF assms(1)] by (auto simp: buf_write_prepend_def buf_prepend_def)

lemma buf_prepend_space:
  assumes "buf_ok b" "int n \<le> b_offset b"
  shows "\<exists>b' zs. buf_prepend b (int n) = Some (b_offset b - int n, b') \<and> buf_ok b' \<and> buf_content b' = zs @ buf_content b \<and>
    length zs = n \<and> b_capacity b' = b_capacity b \<and> b_offset b' = b_offset b - int n"
proof -
  obtain m where m: "b_data b = Some m" "int (length m) = b_capacity b"
    and b: "0 \<le> b_offset b" "0 \<le> b_len b" "b_offset b + b_len b \<le> b_capacity b"
    using assms(1) by (auto simp: buf_ok_def)
  have e: "nat (b_len b + int n) = n + nat (b_len b)" "nat (b_offset b - int n) + n = nat (b_offset b)" using b assms(2) by auto
  have "length (mem_read m (nat (b_offset b - int n)) n) = n" using m b assms(2) by simp
  then show ?thesis
    using m b assms buf_ok_valid [OF assms(1)] e
    by (auto simp: buf_prepend_def buf_ok_def buf_content_def buf_load_def mem_read_split)
qed

lemma buf_load_take:
  assumes "buf_ok b" "n \<le> length (buf_content b)"
  shows "buf_load b (b_offset b) n = take n (buf_content b)"
proof -
  have "n \<le> nat (b_len b)" using assms length_buf_content [OF assms(1)] by linarith
  then show ?thesis by (simp add: buf_content_def buf_load_def mem_read_def min_def split: option.splits)
qed

lemma buf_read_content:
  assumes "buf_ok b" "n \<le> length (buf_content b)"
  shows "\<exists>b'. buf_read b n = (Some (take n (buf_content b)), b') \<and> buf_ok b' \<and>
              buf_content b' = drop n (buf_content b)"
proof -
  obtain m where m: "b_data b = Some m" "int (length m) = b_capacity b"
    and b: "0 \<le> b_offset b" "0 \<le> b_len b" "b_offset b + b_len b \<le> b_capacity b"
    using assms(1) by (auto simp: buf_ok_def)
  have n: "int n \<le> b_len b"
    using assms length_buf_content [OF assms(1)] by linarith
  have eqs: "nat (b_offset b + int n) = nat (b_offset b) + n" "nat (b_len b - int n) = nat (b_len b) - n"
    using b n by auto
  have rd: "buf_read b n = (Some (buf_load b (b_offset b) n),
      b\<lparr>b_offset := b_offset b + int n, b_len := b_len b - int n\<rparr>)"
    using n buf_ok_valid [OF assms(1)]
    by (simp add: buf_read_def buf_read_alloc_def buf_bptr_def)
  have "buf_load b (b_offset b) n = take n (buf_content b)"
    using n m by (auto simp: buf_load_def buf_content_def mem_read_def min_def)
  moreover have "buf_content (b\<lparr>b_offset := b_offset b + int n, b_len := b_len b - int n\<rparr>) =
      drop n (buf_content b)"
    using m eqs by (simp add: buf_content_def buf_load_def mem_read_def drop_take add.commute)
  moreover have "buf_ok (b\<lparr>b_offset := b_offset b + int n, b_len := b_len b - int n\<rparr>)"
    using m b n by (auto simp: buf_ok_def)
  ultimately show ?thesis using rd by auto
qed

lemma buf_read_fields:
  "buf_read b n = (Some xs, b') \<Longrightarrow> b_offset b' = b_offset b + int n \<and> b_data b' = b_data b \<and> b_capacity b' = b_capacity b"
  by (auto simp: buf_read_def buf_read_alloc_def split: if_splits option.splits)

lemma buf_read_short:
  assumes "buf_ok b" "length (buf_content b) < n"
  shows "buf_read b n = (None, b)"
  using assms length_buf_content [OF assms(1)] by (simp add: buf_read_def buf_read_alloc_def)

lemma buf_copy_n_content:
  assumes "buf_ok dst" "buf_ok src" "n \<le> length (buf_content src)" "n < BUF_SIZE_MAX"
    "b_offset dst + int (length (buf_content dst)) + int n \<le> b_capacity dst"
  shows "\<exists>dst' src'. buf_copy_n dst src (int n) = (True, dst', src') \<and> buf_ok dst' \<and>
    buf_content dst' = buf_content dst @ take n (buf_content src) \<and> b_capacity dst' = b_capacity dst \<and> b_offset dst' = b_offset dst \<and>
    buf_ok src' \<and> buf_content src' = drop n (buf_content src) \<and> b_capacity src' = b_capacity src"
proof -
  obtain src' where r: "buf_read src n = (Some (take n (buf_content src)), src')" "buf_ok src'" "buf_content src' = drop n (buf_content src)"
    using buf_read_content [OF assms(2,3)] by blast
  then obtain p where p: "buf_read_alloc src (int n) = (Some p, src')" "buf_load src p n = take n (buf_content src)"
    by (auto simp: buf_read_def split: prod.splits option.splits)
  then have c: "b_capacity src' = b_capacity src" by (auto simp: buf_read_alloc_def split: if_splits)
  obtain dst' where "buf_write dst (take n (buf_content src)) = Some dst'" "buf_ok dst'"
    "buf_content dst' = buf_content dst @ take n (buf_content src)" "b_capacity dst' = b_capacity dst" "b_offset dst' = b_offset dst"
    using buf_write_fits [OF assms(1), of "take n (buf_content src)"] assms(3-5) by auto
  then show ?thesis using p r c by (simp add: buf_copy_n_def)
qed

lemma buf_copy_range_store:
  assumes "buf_ok dst" "b_data dst = Some m" "buf_ok src" "0 \<le> di"
  shows "buf_copy_range dst di src 0 (b_len src) =
    (if b_offset dst + di + b_len src \<le> b_capacity dst
     then Some (dst\<lparr>b_data := Some (mem_write m (nat (b_offset dst + di)) (buf_content src)), b_len := max (b_len dst) (di + b_len src)\<rparr>)
     else None)"
  using assms by (auto simp: buf_copy_range_def Let_def buf_store_def buf_content_def buf_ok_def max_def)

text \<open>Space that is reserved first and filled in later.\<close>

lemma buf_store_inc_len:
  assumes "buf_ok b" "length xs < BUF_SIZE_MAX" "b_offset b + b_len b + int (length xs) \<le> b_capacity b"
  shows "buf_inc_len (buf_store b (buf_bend b) xs) (int (length xs)) = buf_write b xs"
  using assms buf_ok_valid [OF assms(1)]
  by (auto simp: buf_inc_len_def buf_safe_bidir_def buf_write_def buf_write_alloc_def buf_safe_def buf_size_valid_def
      buf_size_valid_signed_def buf_store_def buf_valid_def buf_bend_def buf_bptr_def BLEN_def)

lemma buf_store_inside:
  assumes "buf_ok b" "buf_content b = xs @ ys @ zs" "length ys' = length ys"
  shows "buf_ok (buf_store b (b_offset b + int (length xs)) ys')"
    and "buf_content (buf_store b (b_offset b + int (length xs)) ys') = xs @ ys' @ zs"
proof -
  obtain m where m: "b_data b = Some m" "int (length m) = b_capacity b"
    and b: "0 \<le> b_offset b" "0 \<le> b_len b" "b_offset b + b_len b \<le> b_capacity b"
    using assms(1) by (auto simp: buf_ok_def)
  have n: "nat (b_len b) = length xs + (length ys + length zs)"
    using length_buf_content [OF assms(1)] assms(2) by simp
  define i where "i = nat (b_offset b)"
  have i: "nat (b_offset b + int (length xs)) = i + length xs" "i + length xs + length ys' \<le> length m"
    using b m n assms(3) by (auto simp: i_def)
  have le: "i + (length xs + (length ys + length zs)) \<le> length m" using b m n by (simp add: i_def)
  have "mem_read m i (length xs) @ mem_read m (i + length xs) (length ys) @ mem_read m (i + length xs + length ys) (length zs) = xs @ ys @ zs"
    using assms(2) m n by (simp add: buf_content_def buf_load_def i_def [symmetric] mem_read_split)
  then have c: "mem_read m i (length xs) = xs" "mem_read m (i + length xs + length ys) (length zs) = zs"
    using le by (simp_all add: append_eq_append_conv add.assoc)
  show "buf_ok (buf_store b (b_offset b + int (length xs)) ys')"
    using m b i by (auto simp: buf_ok_def buf_store_def)
  show "buf_content (buf_store b (b_offset b + int (length xs)) ys') = xs @ ys' @ zs"
    using m n i c assms(3) mem_read_write_same [of "i + length xs" ys' m]
    by (simp add: buf_content_def buf_store_def buf_load_def i_def [symmetric] mem_read_split mem_read_write_same
        mem_read_write_before mem_read_write_after add.assoc [symmetric])
qed

lemma buf_write_alloc_content:
  assumes "buf_ok b" "n < BUF_SIZE_MAX" "b_offset b + b_len b + int n \<le> b_capacity b"
  shows "\<exists>b' zs. buf_write_alloc b n = Some (b_offset b + int (length (buf_content b)), b') \<and> buf_ok b' \<and>
    buf_content b' = buf_content b @ zs \<and> length zs = n \<and> b_capacity b' = b_capacity b \<and> b_offset b' = b_offset b"
proof -
  obtain m where m: "b_data b = Some m" "int (length m) = b_capacity b"
    and b: "0 \<le> b_offset b" "0 \<le> b_len b" "b_offset b + b_len b \<le> b_capacity b"
    using assms(1) by (auto simp: buf_ok_def)
  have e: "nat (b_len b + int n) = nat (b_len b) + n" "b_len b = int (length (buf_content b))"
    using b length_buf_content [OF assms(1)] by auto
  show ?thesis
    using assms m b e(1) e(2) [symmetric] buf_ok_valid [OF assms(1)]
    by (auto simp: buf_write_alloc_def buf_safe_def buf_size_valid_def buf_ok_def buf_content_def buf_load_def mem_read_split)
qed

lemma buf_advance_content:
  assumes "buf_ok b" "n \<le> length (buf_content b)"
  shows "\<exists>b'. buf_advance b (int n) = Some b' \<and> buf_ok b' \<and> buf_content b' = drop n (buf_content b) \<and>
    b_capacity b' = b_capacity b \<and> b_offset b' = b_offset b + int n \<and> b_data b' = b_data b"
proof -
  have n: "nat (b_len b - int n) = nat (b_len b) - n" "int n \<le> b_len b" "nat (b_offset b + int n) = n + nat (b_offset b)"
    using assms length_buf_content [OF assms(1)] by (auto simp: buf_ok_def)
  then show ?thesis
    using assms buf_ok_valid [OF assms(1)]
    by (auto simp: buf_advance_def buf_ok_def buf_content_def buf_load_def mem_read_def drop_take)
qed

lemma buf_set_write_content:
  "n < BUF_SIZE_MAX \<Longrightarrow> n \<le> length d \<Longrightarrow>
   \<exists>b. buf_set_write d n = Some b \<and> buf_ok b \<and> buf_content b = [] \<and> b_offset b = 0 \<and> b_capacity b = int n"
  by (auto simp: buf_set_write_def buf_size_valid_def buf_ok_def buf_content_def buf_load_def)

lemma buf_set_read_content:
  "n < BUF_SIZE_MAX \<Longrightarrow> n \<le> length d \<Longrightarrow> \<exists>b. buf_set_read d n = Some b \<and> buf_ok b \<and> buf_content b = take n d"
  by (auto simp: buf_set_read_def buf_size_valid_def buf_ok_def buf_content_def buf_load_def mem_read_def)

text \<open>A sub-buffer that has been filled completely writes what a direct write would have written.\<close>

lemma buf_full_data:
  assumes "buf_ok b" "b_offset b = 0" "int (length (buf_content b)) = b_capacity b"
  shows "b_data b = Some (buf_content b)"
  using assms length_buf_content [OF assms(1)]
  by (auto simp: buf_ok_def buf_content_def buf_load_def mem_read_def)

lemma buf_sub_fill:
  assumes "buf_ok b" "buf_sub b (int n) pre = Some (p, sub, b')"
  shows "buf_ok sub" "buf_content sub = []" "b_offset sub = 0" "b_capacity sub = int n"
    and "\<lbrakk>buf_ok s; b_offset s = 0; b_capacity s = int n; buf_content s = xs; length xs = n\<rbrakk> \<Longrightarrow>
      (if pre then buf_write_prepend b xs else buf_write b xs) = Some (buf_sub_commit b' p s)"
proof -
  obtain m where m: "b_data b = Some m" "int (length m) = b_capacity b"
    and b: "0 \<le> b_offset b" "0 \<le> b_len b" "b_offset b + b_len b \<le> b_capacity b"
    using assms(1) by (auto simp: buf_ok_def)
  have sub: "sub = \<lparr>b_capacity = int n, b_offset = 0, b_len = 0, b_data = Some (buf_load b p n)\<rparr>"
    using assms(2) by (auto simp: buf_sub_def split: if_splits option.splits)
  have "nat p + n \<le> length m"
    using assms(2) m b
    by (auto simp: buf_sub_def buf_prepend_def buf_write_alloc_def buf_safe_def split: if_splits option.splits)
  then have len: "length (buf_load b p n) = n" using m by (simp add: buf_load_def)
  show "buf_ok sub" "buf_content sub = []" "b_offset sub = 0" "b_capacity sub = int n"
    using len by (simp_all add: sub buf_ok_def buf_content_def buf_load_def)
  assume s: "buf_ok s" "b_offset s = 0" "b_capacity s = int n" "buf_content s = xs" "length xs = n"
  then have "b_data s = Some xs" using buf_full_data [of s] by simp
  then show "(if pre then buf_write_prepend b xs else buf_write b xs) = Some (buf_sub_commit b' p s)"
    using assms(2) s(5)
    by (auto simp: buf_sub_def buf_sub_commit_def buf_write_prepend_def buf_write_def split: if_splits option.splits)
qed

section \<open>The contract the wire formats rely on\<close>

locale byte_buffer =
  fixes ok :: "'b \<Rightarrow> bool"
    and content :: "'b \<Rightarrow> bytes"
    and wr :: "'b \<Rightarrow> bytes \<Rightarrow> 'b option"
    and prepend :: "'b \<Rightarrow> bytes \<Rightarrow> 'b option"
    and rd :: "'b \<Rightarrow> nat \<Rightarrow> bytes option \<times> 'b"
  assumes write_appends: "ok b \<Longrightarrow> wr b xs = Some b' \<Longrightarrow> ok b' \<and> content b' = content b @ xs"
    and prepend_prepends:
      "ok b \<Longrightarrow> prepend b xs = Some b' \<Longrightarrow> ok b' \<and> content b' = xs @ content b"
    and rd_takes: "ok b \<Longrightarrow> n \<le> length (content b) \<Longrightarrow>
      \<exists>b'. rd b n = (Some (take n (content b)), b') \<and> ok b' \<and> content b' = drop n (content b)"
    and rd_short: "ok b \<Longrightarrow> length (content b) < n \<Longrightarrow> rd b n = (None, b)"
begin

lemma rd_field:
  assumes "ok b" "content b = xs @ ys"
  shows "\<exists>b'. rd b (length xs) = (Some xs, b') \<and> ok b' \<and> content b' = ys"
  using rd_takes [of b "length xs"] assms by auto

lemma write_then_read:
  assumes "ok b" "content b = []" "wr b xs = Some b'"
  shows "\<exists>b''. rd b' (length xs) = (Some xs, b'') \<and> content b'' = []"
  using rd_field [of b' xs "[]"] write_appends [OF assms(1,3)] assms(2) by auto

lemma prepend_then_read:
  assumes "ok b" "prepend b xs = Some b'"
  shows "\<exists>b''. rd b' (length xs) = (Some xs, b'') \<and> ok b'' \<and> content b'' = content b"
  using rd_field [of b' xs "content b"] prepend_prepends [OF assms] by auto

lemma rd_cases:
  assumes "ok b" "rd b n = (r, b')"
  obtains "n \<le> length (content b)" "r = Some (take n (content b))" "ok b'" "content b' = drop n (content b)"
  | "length (content b) < n" "r = None" "b' = b"
  using rd_takes [of b n] rd_short [of b n] assms by (cases "n \<le> length (content b)") auto

end

interpretation ob: byte_buffer buf_ok buf_content buf_write buf_write_prepend buf_read
  by unfold_locales
    (blast dest: buf_write_content buf_prepend_content intro: buf_read_content buf_read_short)+

end
