(* ===== verification/Circ_List.thy ===== *)
theory Circ_List
  imports Ovpn_Buffer
begin

text \<open>
  OpenVPN's circular lists (\<open>openvpn/src/openvpn/circ_list.h\<close>): an array of \<open>x_cap\<close> slots, a head that
  moves backwards on a push and a number of valid items. The macros become functions; \<^term>\<open>None\<close>
  is the fatal exit of \<open>modulo_add\<close> or \<open>index_verify\<close>. \<open>x_sizeof\<close>, the size passed to \<open>malloc\<close>,
  is not modelled.

  The locale \<open>window_list\<close> is the contract used by the replay window: seen as a list, newest item
  first, a push puts an item in front and drops what exceeds the capacity.
\<close>

record 'a circ_list =
  x_head :: int
  x_size :: int
  x_cap :: int
  x_list :: "'a list"

definition CIRC_LIST_ALLOC :: "'a \<Rightarrow> int \<Rightarrow> 'a circ_list" where
  "CIRC_LIST_ALLOC z n = \<lparr>x_head = 0, x_size = 0, x_cap = n, x_list = replicate (nat n) z\<rparr>"

definition CIRC_LIST_PUSH :: "'a circ_list \<Rightarrow> 'a \<Rightarrow> 'a circ_list option" where
  "CIRC_LIST_PUSH c v =
     (case modulo_add (x_head c) (- 1) (x_cap c) of
        None \<Rightarrow> None
      | Some h \<Rightarrow> Some (c\<lparr>x_head := h, x_list := (x_list c)[nat h := v],
                           x_size := min_int (x_size c + 1) (x_cap c)\<rparr>))"

definition CIRC_LIST_SIZE :: "'a circ_list \<Rightarrow> int" where
  "CIRC_LIST_SIZE c = x_size c"

definition CIRC_LIST_INDEX :: "'a circ_list \<Rightarrow> int \<Rightarrow> int option" where
  "CIRC_LIST_INDEX c i =
     (case index_verify i (x_size c) of None \<Rightarrow> None | Some j \<Rightarrow> modulo_add (x_head c) j (x_cap c))"

definition CIRC_LIST_ITEM :: "'a circ_list \<Rightarrow> int \<Rightarrow> 'a option" where
  "CIRC_LIST_ITEM c i =
     (case CIRC_LIST_INDEX c i of None \<Rightarrow> None | Some j \<Rightarrow> Some (x_list c ! nat j))"

text \<open>The assignment \<open>CIRC_LIST_ITEM(obj, index) = v\<close>.\<close>

definition CIRC_LIST_ITEM_SET :: "'a circ_list \<Rightarrow> int \<Rightarrow> 'a \<Rightarrow> 'a circ_list option" where
  "CIRC_LIST_ITEM_SET c i v =
     (case CIRC_LIST_INDEX c i of None \<Rightarrow> None | Some j \<Rightarrow> Some (c\<lparr>x_list := (x_list c)[nat j := v]\<rparr>))"

definition CIRC_LIST_RESET :: "'a circ_list \<Rightarrow> 'a circ_list" where
  "CIRC_LIST_RESET c = c\<lparr>x_head := 0, x_size := 0\<rparr>"

section \<open>Circular lists seen as lists\<close>

definition cl_ok :: "'a circ_list \<Rightarrow> bool" where
  "cl_ok c \<longleftrightarrow> 0 < x_cap c \<and> int (length (x_list c)) = x_cap c \<and> 0 \<le> x_head c \<and> x_head c < x_cap c \<and>
     0 \<le> x_size c \<and> x_size c \<le> x_cap c"

definition cl_items :: "'a circ_list \<Rightarrow> 'a list" where
  "cl_items c = map (\<lambda>i. x_list c ! nat ((x_head c + int i) mod x_cap c)) [0..<nat (x_size c)]"

lemma length_cl_items [cl_simps]: "length (cl_items c) = nat (x_size c)"
  by (simp add: cl_items_def)

lemma nth_cl_items:
  "i < nat (x_size c) \<Longrightarrow> cl_items c ! i = x_list c ! nat ((x_head c + int i) mod x_cap c)"
  by (simp add: cl_items_def)

lemma cl_slot_less: "cl_ok c \<Longrightarrow> nat (k mod x_cap c) < length (x_list c)"
  by (auto simp: cl_ok_def nat_less_iff)

lemma cl_slot_inj:
  assumes "cl_ok c" "(x_head c + int i) mod x_cap c = (x_head c + int j) mod x_cap c"
    "int i < x_cap c" "int j < x_cap c"
  shows "i = j"
proof -
  have "int i mod x_cap c = int j mod x_cap c"
    using assms(2) by (metis mod_add_cong add_diff_cancel_left' mod_diff_left_eq)
  then show ?thesis using assms by (simp add: cl_ok_def)
qed

lemma cl_alloc:
  "0 < n \<Longrightarrow> cl_ok (CIRC_LIST_ALLOC z n) \<and> cl_items (CIRC_LIST_ALLOC z n) = [] \<and>
     x_cap (CIRC_LIST_ALLOC z n) = n"
  by (simp add: CIRC_LIST_ALLOC_def cl_ok_def cl_items_def)

lemma cl_reset: "cl_ok c \<Longrightarrow> cl_ok (CIRC_LIST_RESET c) \<and> cl_items (CIRC_LIST_RESET c) = [] \<and>
    x_cap (CIRC_LIST_RESET c) = x_cap c"
  by (simp add: CIRC_LIST_RESET_def cl_ok_def cl_items_def)

lemma cl_size: "cl_ok c \<Longrightarrow> CIRC_LIST_SIZE c = int (length (cl_items c))"
  by (simp add: CIRC_LIST_SIZE_def cl_items_def cl_ok_def)

lemma cl_bound: "cl_ok c \<Longrightarrow> int (length (cl_items c)) \<le> x_cap c"
  by (simp add: cl_items_def cl_ok_def)

lemma cl_index:
  assumes "cl_ok c" "i < length (cl_items c)"
  shows "CIRC_LIST_INDEX c (int i) = Some ((x_head c + int i) mod x_cap c)"
proof -
  have "int i < x_size c" using assms by (simp add: cl_items_def)
  then show ?thesis using assms(1)
    by (simp add: CIRC_LIST_INDEX_def index_verify_def cl_ok_def modulo_add_mod)
qed

lemma cl_item: "cl_ok c \<Longrightarrow> i < length (cl_items c) \<Longrightarrow> CIRC_LIST_ITEM c (int i) = Some (cl_items c ! i)"
  by (simp add: CIRC_LIST_ITEM_def cl_index nth_cl_items length_cl_items)

lemma cl_item_set:
  assumes "cl_ok c" "i < length (cl_items c)"
  shows "\<exists>c'. CIRC_LIST_ITEM_SET c (int i) v = Some c' \<and> cl_ok c' \<and> x_cap c' = x_cap c \<and>
              cl_items c' = (cl_items c)[i := v]"
proof -
  let ?c' = "c\<lparr>x_list := (x_list c)[nat ((x_head c + int i) mod x_cap c) := v]\<rparr>"
  have "cl_items ?c' = (cl_items c)[i := v]"
  proof (rule nth_equalityI)
    show "length (cl_items ?c') = length ((cl_items c)[i := v])"
      by (simp add: cl_items_def)
    fix j assume "j < length (cl_items ?c')"
    then have j: "j < nat (x_size c)" by (simp add: cl_items_def)
    have i: "i < nat (x_size c)" using assms by (simp add: cl_items_def)
    have lt: "int i < x_cap c" "int j < x_cap c" using i j assms(1) by (auto simp: cl_ok_def)
    have neq: "i \<noteq> j \<Longrightarrow>
        nat ((x_head c + int i) mod x_cap c) \<noteq> nat ((x_head c + int j) mod x_cap c)"
      using cl_slot_inj [OF assms(1) _ lt] assms(1) by (auto simp: cl_ok_def nat_eq_iff2)
    show "cl_items ?c' ! j = (cl_items c)[i := v] ! j"
      using i j neq cl_slot_less [OF assms(1)]
      by (cases "i = j") (simp_all add: nth_cl_items length_cl_items)
  qed
  then show ?thesis
    using assms by (simp add: CIRC_LIST_ITEM_SET_def cl_index) (simp add: cl_ok_def)
qed

lemma cl_push_slot:
  assumes "0 < m" "0 \<le> h" "h < m" "0 < j"
  shows "((h - 1) mod m + int j) mod m = (h + int (j - 1)) mod (m :: int)"
  using assms by (simp add: mod_simps algebra_simps of_nat_diff)

lemma cl_push:
  assumes "cl_ok c"
  shows "\<exists>c'. CIRC_LIST_PUSH c v = Some c' \<and> cl_ok c' \<and> x_cap c' = x_cap c \<and>
              cl_items c' = take (nat (x_cap c)) (v # cl_items c)"
proof -
  define m h where "m = x_cap c" and "h = x_head c"
  have c: "0 < m" "int (length (x_list c)) = m" "0 \<le> h" "h < m" "0 \<le> x_size c" "x_size c \<le> m"
    using assms by (auto simp: cl_ok_def m_def h_def)
  define h' where "h' = (h - 1) mod m"
  have h': "0 \<le> h'" "h' < m" using c by (auto simp: h'_def)
  define c' where "c' = c\<lparr>x_head := h', x_list := (x_list c)[nat h' := v], x_size := min_int (x_size c + 1) m\<rparr>"
  have push: "CIRC_LIST_PUSH c v = Some c'"
    using c modulo_add_mod [of h m "-1"]
    by (simp add: CIRC_LIST_PUSH_def c'_def m_def h_def h'_def)
  have ok: "cl_ok c'" using c h' by (auto simp: cl_ok_def c'_def m_def min_int_def)
  have "cl_items c' = take (nat m) (v # cl_items c)"
  proof (rule nth_equalityI)
    show len: "length (cl_items c') = length (take (nat m) (v # cl_items c))"
      using c by (auto simp: cl_items_def c'_def min_int_def min_def)
    fix j assume j: "j < length (cl_items c')"
    then have js: "j < nat (x_size c')" and jm: "int j < m"
      using c by (auto simp: cl_items_def c'_def min_int_def split: if_splits)
    have "cl_items c' ! j = (x_list c)[nat h' := v] ! nat ((h' + int j) mod m)"
      using nth_cl_items [OF js] by (simp add: c'_def m_def)
    also have "\<dots> = (v # cl_items c) ! j"
    proof (cases j)
      case 0
      then show ?thesis using h' c by (simp add: nat_less_iff)
    next
      case (Suc k)
      have k: "k < nat (x_size c)" using j len Suc by (simp add: cl_items_def)
      have slot: "(h' + int j) mod m = (h + int k) mod m"
        using cl_push_slot [of m h j] c Suc by (simp add: h'_def)
      have "(h' + int j) mod m \<noteq> h'"
      proof
        assume "(h' + int j) mod m = h'"
        then have "(h' + int j) mod m = (h' + int 0) mod m" using h' by simp
        then have "int j mod m = int 0 mod m"
          by (metis mod_add_cong add_diff_cancel_left' mod_diff_left_eq)
        then show False using Suc jm by simp
      qed
      then have "nat h' \<noteq> nat ((h' + int j) mod m)"
        using h' c by (simp add: nat_eq_iff2)
      then show ?thesis using slot Suc k by (simp add: nth_cl_items m_def h_def)
    qed
    also have "\<dots> = take (nat m) (v # cl_items c) ! j" using jm by (simp add: nat_less_iff)
    finally show "cl_items c' ! j = take (nat m) (v # cl_items c) ! j" .
  qed
  with push ok show ?thesis by (auto simp: m_def c'_def)
qed

section \<open>The contract of a bounded window\<close>

locale window_list =
  fixes ok :: "'w \<Rightarrow> bool"
    and items :: "'w \<Rightarrow> 'a list"
    and cap :: "'w \<Rightarrow> int"
    and size :: "'w \<Rightarrow> int"
    and push :: "'w \<Rightarrow> 'a \<Rightarrow> 'w option"
    and item :: "'w \<Rightarrow> int \<Rightarrow> 'a option"
    and put :: "'w \<Rightarrow> int \<Rightarrow> 'a \<Rightarrow> 'w option"
    and reset :: "'w \<Rightarrow> 'w"
  assumes push_items: "ok w \<Longrightarrow>
      \<exists>w'. push w v = Some w' \<and> ok w' \<and> cap w' = cap w \<and> items w' = take (nat (cap w)) (v # items w)"
    and size_items: "ok w \<Longrightarrow> size w = int (length (items w))"
    and item_items: "ok w \<Longrightarrow> i < length (items w) \<Longrightarrow> item w (int i) = Some (items w ! i)"
    and put_items: "ok w \<Longrightarrow> i < length (items w) \<Longrightarrow>
      \<exists>w'. put w (int i) v = Some w' \<and> ok w' \<and> cap w' = cap w \<and> items w' = (items w)[i := v]"
    and reset_items: "ok w \<Longrightarrow> ok (reset w) \<and> items (reset w) = [] \<and> cap (reset w) = cap w"
    and items_bound: "ok w \<Longrightarrow> int (length (items w)) \<le> cap w"
begin

primrec push_n :: "nat \<Rightarrow> 'a \<Rightarrow> 'w \<Rightarrow> 'w option" where
  "push_n 0 v w = Some w"
| "push_n (Suc n) v w = (case push w v of None \<Rightarrow> None | Some w' \<Rightarrow> push_n n v w')"

lemma push_n_items:
  "ok w \<Longrightarrow> \<exists>w'. push_n n v w = Some w' \<and> ok w' \<and> cap w' = cap w \<and>
     items w' = take (nat (cap w)) (replicate n v @ items w)"
proof (induction n arbitrary: w)
  case 0
  then show ?case using items_bound [of w] by simp
next
  case (Suc n)
  obtain w1 where w1: "push w v = Some w1" "ok w1" "cap w1 = cap w"
    "items w1 = take (nat (cap w)) (v # items w)"
    using push_items [OF Suc.prems, of v] by blast
  obtain w2 where w2: "push_n n v w1 = Some w2" "ok w2" "cap w2 = cap w1"
    "items w2 = take (nat (cap w1)) (replicate n v @ items w1)"
    using Suc.IH [OF w1(2)] by blast
  have "items w2 = take (nat (cap w)) (replicate (Suc n) v @ items w)"
    using w1 w2 by (simp add: replicate_append_same [symmetric] min_def)
  then show ?case using w1 w2 by auto
qed

end

interpretation cw: window_list cl_ok cl_items x_cap CIRC_LIST_SIZE CIRC_LIST_PUSH CIRC_LIST_ITEM
  CIRC_LIST_ITEM_SET CIRC_LIST_RESET
  by unfold_locales (rule cl_push cl_size cl_item cl_item_set cl_reset cl_bound, assumption+)+

end
