(* ===== verification/Replay_Filter.thy ===== *)
theory Replay_Filter
  imports Tunnel_Prelude "HOL-Library.Sublist"
begin

text \<open>
  The contract of a replay filter: a stateful check that accepts or rejects packets. The laws talk
  about a set of keys already accepted; the client's lemma is that a run accepts no key twice and
  never stops with a fatal exit. The replay window of the data channel interprets it.
\<close>

fun run_checks :: "('s \<Rightarrow> 'e \<Rightarrow> (bool \<times> 's) option) \<Rightarrow> 's \<Rightarrow> 'e list \<Rightarrow> (bool list \<times> 's) option" where
  "run_checks chk s [] = Some ([], s)"
| "run_checks chk s (e # es) =
     (case chk s e of
        None \<Rightarrow> None
      | Some (b, s') \<Rightarrow>
          (case run_checks chk s' es of None \<Rightarrow> None | Some (bs, s'') \<Rightarrow> Some (b # bs, s'')))"

definition accepted :: "('e \<Rightarrow> 'k) \<Rightarrow> 'e list \<Rightarrow> bool list \<Rightarrow> 'k list" where
  "accepted key es bs = map (key \<circ> fst) (filter snd (zip es bs))"

lemma accepted_simps [simp]:
  "accepted key [] bs = []"
  "accepted key (e # es) (True # bs) = key e # accepted key es bs"
  "accepted key (e # es) (False # bs) = accepted key es bs"
  by (simp_all add: accepted_def)

locale replay_filter =
  fixes check :: "'s \<Rightarrow> 'e \<Rightarrow> (bool \<times> 's) option"
    and key :: "'e \<Rightarrow> 'k"
    and good :: "'e \<Rightarrow> bool"
    and seen :: "'s \<Rightarrow> 'k set \<Rightarrow> bool"
  assumes check_step: "seen s A \<Longrightarrow> good e \<Longrightarrow> \<exists>b s'. check s e = Some (b, s') \<and>
      (b \<longrightarrow> key e \<notin> A \<and> seen s' (insert (key e) A)) \<and> (\<not> b \<longrightarrow> seen s' A)"
begin

lemma run_distinct:
  "seen s A \<Longrightarrow> list_all good es \<Longrightarrow>
   \<exists>bs s'. run_checks check s es = Some (bs, s') \<and> length bs = length es \<and>
     distinct (accepted key es bs) \<and> set (accepted key es bs) \<inter> A = {} \<and>
     seen s' (A \<union> set (accepted key es bs))"
proof (induction es arbitrary: s A)
  case Nil
  then show ?case by simp
next
  case (Cons e es)
  obtain b s1 where st: "check s e = Some (b, s1)"
    "b \<longrightarrow> key e \<notin> A \<and> seen s1 (insert (key e) A)" "\<not> b \<longrightarrow> seen s1 A"
    using check_step [of s A e] Cons.prems by auto
  define A1 where "A1 = (if b then insert (key e) A else A)"
  have "seen s1 A1" using st by (simp add: A1_def)
  then obtain bs s2 where r: "run_checks check s1 es = Some (bs, s2)" "length bs = length es"
    "distinct (accepted key es bs)" "set (accepted key es bs) \<inter> A1 = {}"
    "seen s2 (A1 \<union> set (accepted key es bs))"
    using Cons.IH [of s1 A1] Cons.prems by auto
  have "seen s2 (A \<union> set (accepted key (e # es) (b # bs)))"
    using r(5) by (cases b) (simp_all add: A1_def)
  then show ?case
    using st r by (cases b) (auto simp: A1_def)
qed

end

text \<open>
  A filter that also opens the packets it accepts: what it passes on is the text that the packet has, and so a run
  passes on the texts of a subsequence of the packets, in which no key occurs twice. It is a replay filter.
\<close>

fun run_packets :: "('s \<Rightarrow> 'e \<Rightarrow> (bool \<times> 'o \<times> 's) option) \<Rightarrow> ('o \<Rightarrow> 'p) \<Rightarrow> 's \<Rightarrow> 'e list \<Rightarrow> ('p list \<times> 's) option" where
  "run_packets step out s [] = Some ([], s)"
| "run_packets step out s (e # es) =
     (case step s e of
        None \<Rightarrow> None
      | Some (ok, x, s') \<Rightarrow>
          (case run_packets step out s' es of
             None \<Rightarrow> None | Some (ps, s'') \<Rightarrow> Some (if ok then out x # ps else ps, s'')))"

locale packet_filter =
  fixes step :: "'s \<Rightarrow> 'e \<Rightarrow> (bool \<times> 'o \<times> 's) option"
    and out :: "'o \<Rightarrow> 'p"
    and key :: "'e \<Rightarrow> 'k"
    and good :: "'e \<Rightarrow> bool"
    and seen :: "'s \<Rightarrow> 'k set \<Rightarrow> bool"
    and content :: "'e \<Rightarrow> 'p option"
  assumes step_law: "seen s A \<Longrightarrow> good e \<Longrightarrow> \<exists>ok x s'. step s e = Some (ok, x, s') \<and>
      (ok \<longrightarrow> key e \<notin> A \<and> seen s' (insert (key e) A) \<and> content e = Some (out x)) \<and> (\<not> ok \<longrightarrow> seen s' A)"
begin

lemma run_passes:
  "seen s A \<Longrightarrow> list_all good es \<Longrightarrow>
   \<exists>ps s' acc. run_packets step out s es = Some (ps, s') \<and> subseq acc es \<and> distinct (map key acc) \<and>
     key ` set acc \<inter> A = {} \<and> map content acc = map Some ps \<and> seen s' (A \<union> key ` set acc)"
proof (induction es arbitrary: s A)
  case Nil
  then show ?case by auto
next
  case (Cons e es)
  obtain ok x s1 where st: "step s e = Some (ok, x, s1)"
    "ok \<longrightarrow> key e \<notin> A \<and> seen s1 (insert (key e) A) \<and> content e = Some (out x)" "\<not> ok \<longrightarrow> seen s1 A"
    using step_law [of s A e] Cons.prems by auto
  define A1 where "A1 = (if ok then insert (key e) A else A)"
  have "seen s1 A1" using st by (simp add: A1_def)
  then obtain ps s2 acc where r: "run_packets step out s1 es = Some (ps, s2)" "subseq acc es" "distinct (map key acc)"
    "key ` set acc \<inter> A1 = {}" "map content acc = map Some ps" "seen s2 (A1 \<union> key ` set acc)"
    using Cons.IH [of s1 A1] Cons.prems by auto
  show ?case
  proof (cases ok)
    case True
    then have "subseq (e # acc) (e # es)" "distinct (map key (e # acc))" "key ` set (e # acc) \<inter> A = {}"
      "map content (e # acc) = map Some (out x # ps)" "seen s2 (A \<union> key ` set (e # acc))"
      using r st by (auto simp: A1_def)
    then show ?thesis using True st(1) r(1) by (intro exI [of _ "out x # ps"] exI [of _ s2] exI [of _ "e # acc"]) simp
  next
    case False
    then show ?thesis using r st(1) by (auto simp: A1_def intro: list_emb_Cons)
  qed
qed

end

sublocale packet_filter \<subseteq> accepting: replay_filter "\<lambda>s e. map_option (\<lambda>(ok, x, s'). (ok, s')) (step s e)"
  by unfold_locales (use step_law in fastforce)

end
