(* ===== verification/Packet_Id.thy ===== *)
theory Packet_Id
  imports Circ_List Replay_Filter
begin

text \<open>
  Replay protection of the data channel (\<open>openvpn/src/openvpn/packet_id.c\<close>, \<open>packet_id.h\<close>) and its use by
  \<open>crypto_check_replay\<close> (\<open>crypto.c\<close>).

  The global clock \<open>now\<close> is an argument. \<open>time_t\<close> is \<^typ>\<open>int\<close>, a packet id is a 32-bit word and
  every comparison and subtraction on ids is the 32-bit one. Debug output is not modelled.
  System calls of the persistence file are arguments that carry their results.
\<close>

definition SEQ_UNSEEN :: int where "SEQ_UNSEEN = 0"
definition SEQ_EXPIRED :: int where "SEQ_EXPIRED = 1"
definition PACKET_ID_MAX :: u32 where "PACKET_ID_MAX = 0xFFFFFFFF"
definition PACKET_ID_WRAP_TRIGGER :: u32 where "PACKET_ID_WRAP_TRIGGER = 0xFF000000"
definition MIN_SEQ_BACKTRACK :: int where "MIN_SEQ_BACKTRACK = 0"
definition MAX_SEQ_BACKTRACK :: int where "MAX_SEQ_BACKTRACK = 65536"
definition MIN_TIME_BACKTRACK :: int where "MIN_TIME_BACKTRACK = 0"
definition MAX_TIME_BACKTRACK :: int where "MAX_TIME_BACKTRACK = 600"
definition SEQ_REAP_INTERVAL :: int where "SEQ_REAP_INTERVAL = 5"

lemmas pid_consts = SEQ_UNSEEN_def SEQ_EXPIRED_def PACKET_ID_MAX_def MIN_SEQ_BACKTRACK_def
  MAX_SEQ_BACKTRACK_def MIN_TIME_BACKTRACK_def MAX_TIME_BACKTRACK_def SEQ_REAP_INTERVAL_def

record packet_id_net =
  pin_id :: u32
  pin_time :: int

record packet_id_send =
  send_id :: u32
  send_time :: int

record packet_id_rec =
  last_reap :: int
  rec_time :: int
  rec_id :: u32
  seq_backtrack :: int
  time_backtrack :: int
  max_backtrack_stat :: int
  initialized :: bool
  seq_list :: "int circ_list option"
  rec_name :: string
  rec_unit :: int

record packet_id =
  pid_send :: packet_id_send
  pid_rec :: packet_id_rec

record packet_id_persist =
  filename :: "string option"
  fd :: int
  per_time :: int
  per_id :: u32
  time_last_written :: int
  id_last_written :: u32

section \<open>Initialisation\<close>

definition packet_id_clear :: packet_id where
  "packet_id_clear =
     \<lparr>pid_send = \<lparr>send_id = 0, send_time = 0\<rparr>,
      pid_rec = \<lparr>last_reap = 0, rec_time = 0, rec_id = 0, seq_backtrack = 0, time_backtrack = 0,
                 max_backtrack_stat = 0, initialized = False, seq_list = None, rec_name = [],
                 rec_unit = 0\<rparr>\<rparr>"

definition packet_id_init :: "int \<Rightarrow> int \<Rightarrow> string \<Rightarrow> int \<Rightarrow> packet_id option" where
  "packet_id_init seqb timeb nm un =
     (let r0 = (pid_rec packet_id_clear)\<lparr>rec_name := nm, rec_unit := un\<rparr>
      in if seqb \<noteq> 0
         then if MIN_SEQ_BACKTRACK \<le> seqb \<and> seqb \<le> MAX_SEQ_BACKTRACK \<and>
                 MIN_TIME_BACKTRACK \<le> timeb \<and> timeb \<le> MAX_TIME_BACKTRACK
              then Some (packet_id_clear\<lparr>pid_rec :=
                     r0\<lparr>seq_list := Some (CIRC_LIST_ALLOC 0 seqb), seq_backtrack := seqb,
                        time_backtrack := timeb, initialized := True\<rparr>\<rparr>)
              else None
         else Some (packet_id_clear\<lparr>pid_rec := r0\<lparr>initialized := True\<rparr>\<rparr>))"

definition packet_id_free :: "packet_id option \<Rightarrow> packet_id option" where
  "packet_id_free p = (case p of None \<Rightarrow> None | Some _ \<Rightarrow> Some packet_id_clear)"

section \<open>The receiving side\<close>

text \<open>The loop of \<open>packet_id_add\<close> that pushes one unseen slot per id up to the new one.\<close>

function packet_id_add_fill :: "u32 \<Rightarrow> u32 \<Rightarrow> int circ_list \<Rightarrow> (u32 \<times> int circ_list) option" where
  "packet_id_add_fill i target sl =
     (if i < target
      then (case CIRC_LIST_PUSH sl SEQ_UNSEEN of
              None \<Rightarrow> None | Some sl' \<Rightarrow> packet_id_add_fill (i + 1) target sl')
      else Some (i, sl))"
  by pat_completeness auto
termination
proof (relation "measure (\<lambda>(i, target, sl). unat target - unat i)")
  fix i target :: u32 and sl sl' :: "int circ_list"
  assume "i < target"
  then have "unat (i + 1) = Suc (unat i)" and "unat i < unat target"
    by (auto simp: unat_inc word_less_nat_alt)
  then show "((i + 1, target, sl'), (i, target, sl)) \<in> measure (\<lambda>(i, target, sl). unat target - unat i)"
    by simp
qed simp

declare packet_id_add_fill.simps [simp del]

definition packet_id_add :: "int \<Rightarrow> packet_id_rec \<Rightarrow> packet_id_net \<Rightarrow> packet_id_rec option" where
  "packet_id_add now p pin =
     (case seq_list p of
        None \<Rightarrow> Some (p\<lparr>rec_time := pin_time pin, rec_id := pin_id pin\<rparr>)
      | Some sl \<Rightarrow>
          (let sb = word_of_int (seq_backtrack p) :: u32;
               (t, i, sl1) =
                 (if CIRC_LIST_SIZE sl = 0 \<or> pin_time pin > rec_time p \<or>
                     (pin_id pin \<ge> sb \<and> pin_id pin - sb > rec_id p)
                  then (pin_time pin, if pin_id pin > sb then pin_id pin - sb else 0, CIRC_LIST_RESET sl)
                  else (rec_time p, rec_id p, sl))
           in case packet_id_add_fill i (pin_id pin) sl1 of
                None \<Rightarrow> None
              | Some (i', sl2) \<Rightarrow>
                  (let diff = i' - pin_id pin;
                       p' = p\<lparr>rec_time := t, rec_id := i'\<rparr>
                   in if diff < word_of_int (CIRC_LIST_SIZE sl2) \<and> now > SEQ_EXPIRED
                      then (case CIRC_LIST_ITEM_SET sl2 (sint diff) now of
                              None \<Rightarrow> None | Some sl3 \<Rightarrow> Some (p'\<lparr>seq_list := Some sl3\<rparr>))
                      else Some (p'\<lparr>seq_list := Some sl2\<rparr>))))"

text \<open>The loop of \<open>packet_id_reap\<close>, from index \<open>i\<close>, with the flag \<open>expire\<close>.\<close>

lemma CIRC_LIST_ITEM_SET_size: "CIRC_LIST_ITEM_SET c i v = Some c' \<Longrightarrow> x_size c' = x_size c"
  by (auto simp: CIRC_LIST_ITEM_SET_def split: option.splits)

function packet_id_reap_loop :: "int \<Rightarrow> int \<Rightarrow> int \<Rightarrow> bool \<Rightarrow> int circ_list \<Rightarrow> int circ_list option" where
  "packet_id_reap_loop now tb i expire sl =
     (if i < CIRC_LIST_SIZE sl
      then (case CIRC_LIST_ITEM sl i of
              None \<Rightarrow> None
            | Some t \<Rightarrow>
                if t = SEQ_EXPIRED then Some sl
                else (let expire' = (expire \<or> (t \<noteq> 0 \<and> t + tb < now))
                      in if expire'
                         then (case CIRC_LIST_ITEM_SET sl i SEQ_EXPIRED of
                                 None \<Rightarrow> None
                               | Some sl' \<Rightarrow> packet_id_reap_loop now tb (i + 1) expire' sl')
                         else packet_id_reap_loop now tb (i + 1) expire' sl))
      else Some sl)"
  by pat_completeness auto
termination
  by (relation "measure (\<lambda>(now, tb, i, expire, sl). nat (x_size sl - i))")
    (auto simp: CIRC_LIST_SIZE_def dest: CIRC_LIST_ITEM_SET_size)

declare packet_id_reap_loop.simps [simp del]

definition packet_id_reap :: "int \<Rightarrow> packet_id_rec \<Rightarrow> packet_id_rec option" where
  "packet_id_reap now p =
     (if time_backtrack p \<noteq> 0
      then (case seq_list p of
              None \<Rightarrow> None
            | Some sl \<Rightarrow>
                (case packet_id_reap_loop now (time_backtrack p) 0 False sl of
                   None \<Rightarrow> None
                 | Some sl' \<Rightarrow> Some (p\<lparr>seq_list := Some sl', last_reap := now\<rparr>)))
      else Some (p\<lparr>last_reap := now\<rparr>))"

definition packet_id_reap_test :: "int \<Rightarrow> packet_id_rec \<Rightarrow> packet_id_rec option" where
  "packet_id_reap_test now p =
     (if last_reap p + SEQ_REAP_INTERVAL \<le> now then packet_id_reap now p else Some p)"

definition packet_id_test :: "packet_id_rec \<Rightarrow> packet_id_net \<Rightarrow> (bool \<times> packet_id_rec) option" where
  "packet_id_test p pin =
     (if \<not> initialized p then None
      else if pin_id pin = 0 then Some (False, p)
      else if seq_backtrack p \<noteq> 0
      then if pin_time pin = rec_time p
           then if pin_id pin > rec_id p then Some (True, p)
                else (let diff = rec_id p - pin_id pin;
                          p' = (if sint diff > max_backtrack_stat p
                                then p\<lparr>max_backtrack_stat := sint diff\<rparr> else p)
                      in case seq_list p of
                           None \<Rightarrow> None
                         | Some sl \<Rightarrow>
                             if diff \<ge> word_of_int (CIRC_LIST_SIZE sl) then Some (False, p')
                             else (case CIRC_LIST_ITEM sl (sint diff) of
                                     None \<Rightarrow> None
                                   | Some v \<Rightarrow> Some (v = 0, p')))
           else if pin_time pin < rec_time p then Some (False, p)
           else Some (True, p)
      else if pin_time pin = rec_time p
           then Some (rec_id p = 0 \<or> pin_id pin = rec_id p + 1, p)
           else if pin_time pin < rec_time p then Some (False, p)
           else Some (pin_id pin = 1, p))"

section \<open>The sending side and the wire format\<close>

definition packet_id_send_update :: "int \<Rightarrow> packet_id_send \<Rightarrow> bool \<Rightarrow> bool \<times> packet_id_send" where
  "packet_id_send_update now p long_form =
     (let p1 = (if send_time p = 0 then p\<lparr>send_time := now\<rparr> else p)
      in if send_id p1 = PACKET_ID_MAX
         then if \<not> long_form \<or> now \<le> send_time p1 then (False, p1)
              else (True, p1\<lparr>send_time := now, send_id := 0 + 1\<rparr>)
         else (True, p1\<lparr>send_id := send_id p1 + 1\<rparr>))"

definition htontime :: "int \<Rightarrow> bytes" where
  "htontime t = be32 (word_of_int t)"

definition ntohtime :: "bytes \<Rightarrow> int" where
  "ntohtime xs = uint (of_be32 xs)"

definition packet_id_write ::
  "int \<Rightarrow> packet_id_send \<Rightarrow> buffer \<Rightarrow> bool \<Rightarrow> bool \<Rightarrow> bool \<times> packet_id_send \<times> buffer" where
  "packet_id_write now p buf long_form prepend =
     (case packet_id_send_update now p long_form of
        (False, p') \<Rightarrow> (False, p', buf)
      | (True, p') \<Rightarrow>
          (let net_id = be32 (send_id p'); net_time = htontime (send_time p')
           in if prepend
              then (case (if long_form then buf_write_prepend buf net_time else Some buf) of
                      None \<Rightarrow> (False, p', buf)
                    | Some b1 \<Rightarrow>
                        (case buf_write_prepend b1 net_id of
                           None \<Rightarrow> (False, p', b1) | Some b2 \<Rightarrow> (True, p', b2)))
              else (case buf_write buf net_id of
                      None \<Rightarrow> (False, p', buf)
                    | Some b1 \<Rightarrow>
                        if long_form
                        then (case buf_write b1 net_time of
                                None \<Rightarrow> (False, p', b1) | Some b2 \<Rightarrow> (True, p', b2))
                        else (True, p', b1))))"

definition packet_id_read :: "buffer \<Rightarrow> bool \<Rightarrow> bool \<times> packet_id_net \<times> buffer" where
  "packet_id_read buf long_form =
     (case buf_read buf 4 of
        (None, b1) \<Rightarrow> (False, \<lparr>pin_id = 0, pin_time = 0\<rparr>, b1)
      | (Some net_id, b1) \<Rightarrow>
          if long_form
          then (case buf_read b1 4 of
                  (None, b2) \<Rightarrow> (False, \<lparr>pin_id = of_be32 net_id, pin_time = 0\<rparr>, b2)
                | (Some net_time, b2) \<Rightarrow>
                    (True, \<lparr>pin_id = of_be32 net_id, pin_time = ntohtime net_time\<rparr>, b2))
          else (True, \<lparr>pin_id = of_be32 net_id, pin_time = 0\<rparr>, b1))"

definition packet_id_size :: "bool \<Rightarrow> nat" where
  "packet_id_size long_form = 4 + (if long_form then 4 else 0)"

definition packet_id_close_to_wrapping :: "packet_id_send \<Rightarrow> bool" where
  "packet_id_close_to_wrapping p \<longleftrightarrow> send_id p \<ge> PACKET_ID_WRAP_TRIGGER"

definition reset_packet_id_send :: "packet_id_send \<Rightarrow> packet_id_send" where
  "reset_packet_id_send p = p\<lparr>send_time := 0, send_id := 0\<rparr>"

section \<open>Persistence across sessions\<close>

definition packet_id_persist_init :: packet_id_persist where
  "packet_id_persist_init =
     \<lparr>filename = None, fd = - 1, per_time = 0, per_id = 0, time_last_written = 0, id_last_written = 0\<rparr>"

definition packet_id_persist_enabled :: "packet_id_persist \<Rightarrow> bool" where
  "packet_id_persist_enabled p \<longleftrightarrow> fd p \<ge> 0"

definition packet_id_persist_close :: "packet_id_persist \<Rightarrow> packet_id_persist" where
  "packet_id_persist_close p = (if packet_id_persist_enabled p then packet_id_persist_init else p)"

text \<open>
  \<open>open_fd\<close> is the result of \<open>platform_open\<close>, \<open>locked\<close> whether \<open>flock\<close> succeeded (a failure is fatal)
  and \<open>img\<close> what \<open>read\<close> delivered, \<^term>\<open>None\<close> when it was short or failed.
\<close>

definition packet_id_persist_load ::
  "packet_id_persist \<Rightarrow> string \<Rightarrow> int \<Rightarrow> bool \<Rightarrow> (int \<times> u32) option \<Rightarrow> packet_id_persist option" where
  "packet_id_persist_load p fname open_fd locked img =
     (if packet_id_persist_enabled p then Some p
      else if open_fd = - 1 then Some (p\<lparr>fd := open_fd\<rparr>)
      else if \<not> locked then None
      else let p1 = p\<lparr>fd := open_fd, filename := Some fname\<rparr>
           in Some (case img of
                      None \<Rightarrow> p1
                    | Some (t, i) \<Rightarrow> p1\<lparr>per_time := t, time_last_written := t,
                                        per_id := i, id_last_written := i\<rparr>))"

text \<open>
  \<open>seek_ok\<close> and \<open>write_ok\<close> are the results of \<open>lseek\<close> and \<open>write\<close>. The second component is what
  reaches the file.
\<close>

definition packet_id_persist_save ::
  "packet_id_persist \<Rightarrow> bool \<Rightarrow> bool \<Rightarrow> packet_id_persist \<times> (int \<times> u32) option" where
  "packet_id_persist_save p seek_ok write_ok =
     (if packet_id_persist_enabled p \<and> per_time p \<noteq> 0 \<and>
         (per_time p \<noteq> time_last_written p \<or> per_id p \<noteq> id_last_written p)
      then if seek_ok \<and> write_ok
           then (p\<lparr>time_last_written := per_time p, id_last_written := per_id p\<rparr>,
                 Some (per_time p, per_id p))
           else (p, None)
      else (p, None))"

definition packet_id_persist_load_obj :: "packet_id_persist \<Rightarrow> packet_id \<Rightarrow> packet_id" where
  "packet_id_persist_load_obj p pid =
     (if packet_id_persist_enabled p \<and> per_time p \<noteq> 0
      then pid\<lparr>pid_rec := (pid_rec pid)\<lparr>rec_time := per_time p, rec_id := per_id p\<rparr>\<rparr>
      else pid)"

definition packet_id_persist_save_obj :: "packet_id_persist \<Rightarrow> packet_id \<Rightarrow> packet_id_persist" where
  "packet_id_persist_save_obj p pid =
     (if packet_id_persist_enabled p \<and> rec_time (pid_rec pid) \<noteq> 0
      then p\<lparr>per_time := rec_time (pid_rec pid), per_id := rec_id (pid_rec pid)\<rparr>
      else p)"

section \<open>The check made on every decrypted packet (crypto.c)\<close>

definition CO_PACKET_ID_LONG_FORM :: u32 where "CO_PACKET_ID_LONG_FORM = 1"

record crypto_options =
  co_packet_id :: packet_id
  co_pid_persist :: "packet_id_persist option"
  co_flags :: u32

definition crypto_check_replay ::
  "'a crypto_options_scheme \<Rightarrow> int \<times> packet_id_net \<Rightarrow> (bool \<times> 'a crypto_options_scheme) option" where
  "crypto_check_replay opt e =
     (case e of (now, pin) \<Rightarrow>
        (case packet_id_reap_test now (pid_rec (co_packet_id opt)) of
           None \<Rightarrow> None
         | Some r1 \<Rightarrow>
             (case packet_id_test r1 pin of
                None \<Rightarrow> None
              | Some (False, r2) \<Rightarrow>
                  Some (False, opt\<lparr>co_packet_id := (co_packet_id opt)\<lparr>pid_rec := r2\<rparr>\<rparr>)
              | Some (True, r2) \<Rightarrow>
                  (case packet_id_add now r2 pin of
                     None \<Rightarrow> None
                   | Some r3 \<Rightarrow>
                       (let pid = (co_packet_id opt)\<lparr>pid_rec := r3\<rparr>
                        in Some (True, opt\<lparr>co_packet_id := pid,
                             co_pid_persist :=
                               (case co_pid_persist opt of
                                  None \<Rightarrow> None
                                | Some pp \<Rightarrow>
                                    if co_flags opt AND CO_PACKET_ID_LONG_FORM \<noteq> 0
                                    then Some (packet_id_persist_save_obj pp pid)
                                    else Some pp)\<rparr>))))))"

section \<open>The window as a list\<close>

definition rec_items :: "packet_id_rec \<Rightarrow> int list" where
  "rec_items p = (case seq_list p of None \<Rightarrow> [] | Some sl \<Rightarrow> cl_items sl)"

definition rec_ok :: "packet_id_rec \<Rightarrow> bool" where
  "rec_ok p \<longleftrightarrow> initialized p \<and>
     (case seq_list p of
        None \<Rightarrow> seq_backtrack p = 0 \<and> time_backtrack p = 0
      | Some sl \<Rightarrow> cl_ok sl \<and> x_cap sl = seq_backtrack p \<and> 0 < seq_backtrack p \<and> seq_backtrack p \<le> 65536)"

lemma rec_ok_cases:
  assumes "rec_ok p"
  obtains "seq_list p = None" "seq_backtrack p = 0" "time_backtrack p = 0" "rec_items p = []"
  | sl where "seq_list p = Some sl" "cl_ok sl" "x_cap sl = seq_backtrack p" "0 < seq_backtrack p"
      "seq_backtrack p \<le> 65536" "rec_items p = cl_items sl"
  using assms by (cases "seq_list p") (auto simp: rec_ok_def rec_items_def)

lemma rec_items_bound: "rec_ok p \<Longrightarrow> length (rec_items p) \<le> 65536"
  by (erule rec_ok_cases) (use cl_bound in fastforce)+

lemma rec_stat [simp]:
  "rec_ok (p\<lparr>max_backtrack_stat := m\<rparr>) = rec_ok p"
  "rec_items (p\<lparr>max_backtrack_stat := m\<rparr>) = rec_items p"
  by (cases "seq_list p"; simp add: rec_ok_def rec_items_def)+

text \<open>The specification of the test: which packet ids are fresh.\<close>

definition pin_fresh :: "packet_id_rec \<Rightarrow> packet_id_net \<Rightarrow> bool" where
  "pin_fresh p pin \<longleftrightarrow> pin_id pin \<noteq> 0 \<and>
     (if seq_list p = None
      then pin_time pin = rec_time p \<and> (rec_id p = 0 \<or> pin_id pin = rec_id p + 1) \<or>
           pin_time pin > rec_time p \<and> pin_id pin = 1
      else pin_time pin > rec_time p \<or>
           pin_time pin = rec_time p \<and>
             (pin_id pin > rec_id p \<or>
              unat (rec_id p) - unat (pin_id pin) < length (rec_items p) \<and>
              rec_items p ! (unat (rec_id p) - unat (pin_id pin)) = 0))"

lemma id_diff_size:
  assumes "pin \<le> (hi :: u32)" "n \<le> 65536"
  shows "(hi - pin < word_of_int (int n)) = (unat hi - unat pin < n)"
    and "unat hi - unat pin < n \<Longrightarrow> sint (hi - pin) = int (unat hi - unat pin)"
proof -
  have d: "unat (hi - pin) = unat hi - unat pin"
    using assms(1) by (simp add: unat_sub)
  have n: "unat (word_of_int (int n) :: u32) = n"
    using assms(2) by (simp add: unsigned_of_nat take_bit_nat_eq_self)
  show "(hi - pin < word_of_int (int n)) = (unat hi - unat pin < n)"
    using d n by (simp add: word_less_nat_alt)
  show "sint (hi - pin) = int (unat hi - unat pin)" if "unat hi - unat pin < n"
    using that assms(2) d by (subst sint_small) auto
qed

lemma packet_id_test_fresh:
  assumes "rec_ok p"
  shows "\<exists>m. packet_id_test p pin = Some (pin_fresh p pin, p\<lparr>max_backtrack_stat := m\<rparr>)"
  using assms
proof (cases rule: rec_ok_cases)
  case 1
  then show ?thesis using assms
    by (auto simp: packet_id_test_def pin_fresh_def rec_ok_def intro!: exI [of _ "max_backtrack_stat p"])
next
  case (2 sl)
  have size: "CIRC_LIST_SIZE sl = int (length (rec_items p))"
    using 2 by (simp add: cl_size)
  note bound = rec_items_bound [OF assms]
  consider "pin_id pin = 0 \<or> pin_time pin \<noteq> rec_time p \<or> pin_id pin > rec_id p"
    | "pin_id pin \<noteq> 0" "pin_time pin = rec_time p" "pin_id pin \<le> rec_id p" by fastforce
  then show ?thesis
  proof cases
    case 1
    with 2 assms show ?thesis
      by (auto simp: packet_id_test_def pin_fresh_def rec_ok_def
          intro!: exI [of _ "max_backtrack_stat p"])
  next
    case 3: 2
    let ?d = "unat (rec_id p) - unat (pin_id pin)"
    have item: "?d < length (rec_items p) \<Longrightarrow>
        CIRC_LIST_ITEM sl (sint (rec_id p - pin_id pin)) = Some (rec_items p ! ?d)"
      using 2 id_diff_size(2) [OF 3(3) bound] by (simp add: cl_item)
    define m where "m = (if sint (rec_id p - pin_id pin) > max_backtrack_stat p
        then sint (rec_id p - pin_id pin) else max_backtrack_stat p)"
    have m: "(if sint (rec_id p - pin_id pin) > max_backtrack_stat p
        then p\<lparr>max_backtrack_stat := sint (rec_id p - pin_id pin)\<rparr> else p) = p\<lparr>max_backtrack_stat := m\<rparr>"
      by (simp add: m_def)
    have test: "packet_id_test p pin =
        (if rec_id p - pin_id pin \<ge> word_of_int (CIRC_LIST_SIZE sl)
         then Some (False, p\<lparr>max_backtrack_stat := m\<rparr>)
         else (case CIRC_LIST_ITEM sl (sint (rec_id p - pin_id pin)) of
                 None \<Rightarrow> None | Some v \<Rightarrow> Some (v = 0, p\<lparr>max_backtrack_stat := m\<rparr>)))"
      using 2 3 leD [OF 3(3)] assms
      unfolding packet_id_test_def Let_def m by (simp add: rec_ok_def)
    have "packet_id_test p pin =
        Some (?d < length (rec_items p) \<and> rec_items p ! ?d = 0, p\<lparr>max_backtrack_stat := m\<rparr>)"
      using item id_diff_size(1) [OF 3(3) bound]
      by (simp add: test size) (auto simp: not_less [symmetric])
    then show ?thesis using 2 3 by (auto simp: pin_fresh_def)
  qed
qed

section \<open>Reaping and adding on the list\<close>

lemma packet_id_reap_loop_items:
  assumes "cl_ok sl"
  shows "\<exists>sl'. packet_id_reap_loop now tb (int i) expire sl = Some sl' \<and> cl_ok sl' \<and> x_cap sl' = x_cap sl \<and>
    length (cl_items sl') = length (cl_items sl) \<and>
    (\<forall>j < length (cl_items sl). cl_items sl' ! j = cl_items sl ! j \<or> cl_items sl' ! j = SEQ_EXPIRED)"
  using assms
proof (induction "length (cl_items sl) - i" arbitrary: i expire sl)
  case 0
  then show ?case by (simp add: packet_id_reap_loop.simps cl_size)
next
  case (Suc n)
  then have i: "i < length (cl_items sl)" by simp
  let ?t = "cl_items sl ! i"
  let ?e = "expire \<or> (?t \<noteq> 0 \<and> ?t + tb < now)"
  have unfold: "packet_id_reap_loop now tb (int i) expire sl =
      (if ?t = SEQ_EXPIRED then Some sl
       else if ?e then (case CIRC_LIST_ITEM_SET sl (int i) SEQ_EXPIRED of
                 None \<Rightarrow> None | Some sl' \<Rightarrow> packet_id_reap_loop now tb (int i + 1) ?e sl')
       else packet_id_reap_loop now tb (int i + 1) ?e sl)"
    using i Suc.prems by (subst packet_id_reap_loop.simps) (simp add: cl_size cl_item Let_def)
  have sc: "int (Suc i) = int i + 1" by simp
  obtain sl1 where sl1: "CIRC_LIST_ITEM_SET sl (int i) SEQ_EXPIRED = Some sl1" "cl_ok sl1"
    "x_cap sl1 = x_cap sl" "cl_items sl1 = (cl_items sl)[i := SEQ_EXPIRED]"
    using cl_item_set [OF Suc.prems i] by blast
  consider "?t = SEQ_EXPIRED" | "?t \<noteq> SEQ_EXPIRED" "?e" | "?t \<noteq> SEQ_EXPIRED" "\<not> ?e" by blast
  then show ?case
  proof cases
    case 1
    then show ?thesis using Suc.prems by (simp add: unfold)
  next
    case 2
    have "n = length (cl_items sl1) - Suc i" using Suc.hyps(2) sl1 by simp
    then obtain sl2 where "packet_id_reap_loop now tb (int i + 1) ?e sl1 = Some sl2" "cl_ok sl2"
      "x_cap sl2 = x_cap sl1" "length (cl_items sl2) = length (cl_items sl1)"
      "\<forall>j < length (cl_items sl1). cl_items sl2 ! j = cl_items sl1 ! j \<or> cl_items sl2 ! j = SEQ_EXPIRED"
      using Suc.hyps(1) [of sl1 "Suc i" ?e, unfolded sc] sl1(2) by blast
    note sl2 = this
    have "\<forall>j < length (cl_items sl). cl_items sl2 ! j = cl_items sl ! j \<or> cl_items sl2 ! j = SEQ_EXPIRED"
      using sl2(5) i unfolding sl1(4) by (metis length_list_update nth_list_update)
    with 2 sl1 sl2 show ?thesis
      unfolding unfold by simp
  next
    case 3
    have "n = length (cl_items sl) - Suc i" using Suc.hyps(2) by simp
    note ih = Suc.hyps(1) [OF this Suc.prems, of ?e, unfolded sc]
    show ?thesis
      unfolding unfold if_not_P [OF 3(1)] if_not_P [OF 3(2)] by (rule ih)
  qed
qed

lemma packet_id_reap_items:
  assumes "rec_ok p"
  shows "\<exists>p'. packet_id_reap now p = Some p' \<and> rec_ok p' \<and> rec_time p' = rec_time p \<and> rec_id p' = rec_id p \<and>
    (seq_list p' = None \<longleftrightarrow> seq_list p = None) \<and> length (rec_items p') = length (rec_items p) \<and>
    (\<forall>j < length (rec_items p). rec_items p' ! j = rec_items p ! j \<or> rec_items p' ! j = SEQ_EXPIRED)"
  using assms
proof (cases rule: rec_ok_cases)
  case 1
  then show ?thesis using assms by (simp add: packet_id_reap_def rec_ok_def rec_items_def)
next
  case (2 sl)
  obtain sl' where "packet_id_reap_loop now (time_backtrack p) 0 False sl = Some sl'" "cl_ok sl'"
    "x_cap sl' = x_cap sl" "length (cl_items sl') = length (cl_items sl)"
    "\<forall>j < length (cl_items sl). cl_items sl' ! j = cl_items sl ! j \<or> cl_items sl' ! j = SEQ_EXPIRED"
    using packet_id_reap_loop_items [OF 2(2), of now "time_backtrack p" 0 False] by auto
  with 2 assms show ?thesis by (auto simp: packet_id_reap_def rec_ok_def rec_items_def)
qed

lemma packet_id_add_fill_items:
  assumes "cl_ok sl"
  shows "\<exists>sl'. packet_id_add_fill i target sl = Some (max i target, sl') \<and> cl_ok sl' \<and> x_cap sl' = x_cap sl \<and>
    cl_items sl' = take (nat (x_cap sl)) (replicate (unat target - unat i) 0 @ cl_items sl)"
proof -
  have "packet_id_add_fill i target sl =
      map_option (Pair (max i target)) (cw.push_n (unat target - unat i) SEQ_UNSEEN sl)"
    using assms
  proof (induction i target sl rule: packet_id_add_fill.induct)
    case (1 i target sl)
    show ?case
    proof (cases "i < target")
      case True
      then have n: "unat target - unat i = Suc (unat target - unat (i + 1))"
        by (simp add: unat_inc word_less_nat_alt Suc_diff_Suc)
      obtain sl' where sl': "CIRC_LIST_PUSH sl SEQ_UNSEEN = Some sl'" "cl_ok sl'"
        using cl_push [OF "1.prems"] by blast
      have "max (i + 1) target = max i target"
        using True inc_le [OF True] by (auto simp: max_def)
      then show ?thesis
        using "1.IH" [OF True sl'] sl' True n by (subst packet_id_add_fill.simps) simp
    next
      case False
      then have "unat target - unat i = 0" "max i target = i"
        by (auto simp: max_def not_less word_le_nat_alt [symmetric])
      with False show ?thesis
        by (subst packet_id_add_fill.simps) simp
    qed
  qed
  then show ?thesis
    using cw.push_n_items [OF assms, of "unat target - unat i" SEQ_UNSEEN]
    by (auto simp: SEQ_UNSEEN_def)
qed

text \<open>What \<open>packet_id_add\<close> does to the window, on natural numbers.\<close>

definition add_resets :: "packet_id_rec \<Rightarrow> packet_id_net \<Rightarrow> bool" where
  "add_resets p pin \<longleftrightarrow> rec_items p = [] \<or> pin_time pin > rec_time p \<or>
     unat (pin_id pin) > nat (seq_backtrack p) + unat (rec_id p)"

lemma add_reset_word:
  assumes "0 \<le> sb" "sb \<le> 65536"
  shows "(pid \<ge> word_of_int sb \<and> pid - word_of_int sb > (i :: u32)) = (unat pid > nat sb + unat i)"
    and "unat (if pid > word_of_int sb then pid - word_of_int sb else (0 :: u32)) = unat pid - nat sb"
proof -
  have sb: "unat (word_of_int sb :: u32) = nat sb"
    using assms by (simp add: unsigned_of_int take_bit_int_eq_self)
  have d: "pid \<ge> word_of_int sb \<Longrightarrow> unat (pid - word_of_int sb) = unat pid - nat sb"
    using sb by (simp add: unat_sub)
  show "(pid \<ge> word_of_int sb \<and> pid - word_of_int sb > i) = (unat pid > nat sb + unat i)"
    using d sb by (auto simp: word_less_nat_alt word_le_nat_alt)
  show "unat (if pid > word_of_int sb then pid - word_of_int sb else (0 :: u32)) = unat pid - nat sb"
    using d sb by (auto simp: word_less_nat_alt word_le_nat_alt)
qed

lemma packet_id_add_items:
  fixes p :: packet_id_rec and pin :: packet_id_net
  assumes ok: "rec_ok p" and sl: "seq_list p = Some sl" and now: "now > 1"
  defines "sb \<equiv> nat (seq_backtrack p)"
  defines "hi \<equiv> (if add_resets p pin then unat (pin_id pin) - sb else unat (rec_id p))"
  defines "hi' \<equiv> max hi (unat (pin_id pin))"
  shows "\<exists>p'. packet_id_add now p pin = Some p' \<and> rec_ok p' \<and> seq_list p' \<noteq> None \<and>
    unat (rec_id p') = hi' \<and> rec_time p' = (if add_resets p pin then pin_time pin else rec_time p) \<and>
    rec_items p' = (take sb (replicate (unat (pin_id pin) - hi) 0 @
                      (if add_resets p pin then [] else rec_items p)))[hi' - unat (pin_id pin) := now]"
proof -
  let ?sb = "word_of_int (seq_backtrack p) :: u32"
  have p: "cl_ok sl" "x_cap sl = seq_backtrack p" "0 < seq_backtrack p" "seq_backtrack p \<le> 65536"
    "rec_items p = cl_items sl" "initialized p"
    using ok sl by (auto simp: rec_ok_def rec_items_def)
  define i where "i = (if add_resets p pin then if pin_id pin > ?sb then pin_id pin - ?sb else 0 else rec_id p)"
  define sl1 where "sl1 = (if add_resets p pin then CIRC_LIST_RESET sl else sl)"
  have sl1: "cl_ok sl1" "x_cap sl1 = seq_backtrack p"
    "cl_items sl1 = (if add_resets p pin then [] else rec_items p)"
    using p cl_reset [OF p(1)] by (auto simp: sl1_def)
  have hi: "unat i = hi"
    using add_reset_word(2) [of "seq_backtrack p" "pin_id pin"] p by (simp add: i_def hi_def sb_def)
  obtain sl2 where sl2: "packet_id_add_fill i (pin_id pin) sl1 = Some (max i (pin_id pin), sl2)" "cl_ok sl2"
    "x_cap sl2 = seq_backtrack p"
    "cl_items sl2 = take sb (replicate (unat (pin_id pin) - hi) 0 @ cl_items sl1)"
    using packet_id_add_fill_items [OF sl1(1), of i "pin_id pin"] sl1(2) hi by (auto simp: sb_def)
  define i' where "i' = max i (pin_id pin)"
  have i': "unat i' = hi'" "pin_id pin \<le> i'"
    using hi by (auto simp: i'_def hi'_def max_def word_le_nat_alt)
  have cond: "(CIRC_LIST_SIZE sl = 0 \<or> pin_time pin > rec_time p \<or>
      (pin_id pin \<ge> ?sb \<and> pin_id pin - ?sb > rec_id p)) = add_resets p pin"
    using add_reset_word(1) [of "seq_backtrack p" "pin_id pin" "rec_id p"] p
    by (simp add: add_resets_def cl_size)
  let ?t = "if add_resets p pin then pin_time pin else rec_time p"
  let ?p' = "p\<lparr>rec_time := ?t, rec_id := i'\<rparr>"
  have sel: "(if add_resets p pin
        then (pin_time pin, if pin_id pin > ?sb then pin_id pin - ?sb else 0, CIRC_LIST_RESET sl)
        else (rec_time p, rec_id p, sl)) = (?t, i, sl1)"
    by (simp add: i_def sl1_def)
  have add: "packet_id_add now p pin =
      (if i' - pin_id pin < word_of_int (CIRC_LIST_SIZE sl2)
       then (case CIRC_LIST_ITEM_SET sl2 (sint (i' - pin_id pin)) now of
               None \<Rightarrow> None | Some sl3 \<Rightarrow> Some (?p'\<lparr>seq_list := Some sl3\<rparr>))
       else Some (?p'\<lparr>seq_list := Some sl2\<rparr>))"
    using now by (simp add: packet_id_add_def sl Let_def cond sel sl2(1) SEQ_EXPIRED_def flip: i'_def)
  have size: "CIRC_LIST_SIZE sl2 = int (length (cl_items sl2))" using sl2(2) by (rule cl_size)
  have bound: "length (cl_items sl2) \<le> 65536" using cl_bound [OF sl2(2)] sl2(3) p(4) by simp
  note d = id_diff_size [OF i'(2) bound, folded size, unfolded i'(1)]
  define W where "W = take sb (replicate (unat (pin_id pin) - hi) 0 @
    (if add_resets p pin then [] else rec_items p))"
  have W: "cl_items sl2 = W" using sl2(4) by (simp only: W_def sl1(3))
  show ?thesis
  proof (cases "hi' - unat (pin_id pin) < length (cl_items sl2)")
    case True
    obtain sl3 where "CIRC_LIST_ITEM_SET sl2 (sint (i' - pin_id pin)) now = Some sl3" "cl_ok sl3"
      "x_cap sl3 = seq_backtrack p" "cl_items sl3 = (cl_items sl2)[hi' - unat (pin_id pin) := now]"
      using cl_item_set [OF sl2(2) True, of now] d(2) [OF True] sl2(3) by auto
    with True d(1) p i'(1) W show ?thesis
      unfolding W_def [symmetric] by (simp add: add rec_ok_def rec_items_def)
  next
    case False
    then have "W[hi' - unat (pin_id pin) := now] = W" using W by (simp add: list_update_beyond)
    with False d(1) p i'(1) sl2(2,3) W show ?thesis
      unfolding W_def [symmetric] by (simp add: add rec_ok_def rec_items_def)
  qed
qed

section \<open>The replay filter\<close>

text \<open>\<open>A\<close> is a set of keys (time, id) accepted so far.\<close>

definition key_seen :: "packet_id_rec \<Rightarrow> int \<times> u32 \<Rightarrow> bool" where
  "key_seen p k \<longleftrightarrow> (case k of (t, i) \<Rightarrow> i \<noteq> 0 \<and>
     (t < rec_time p \<or> t = rec_time p \<and> i \<le> rec_id p \<and>
        (seq_list p \<noteq> None \<longrightarrow> unat (rec_id p) - unat i < length (rec_items p) \<longrightarrow>
           rec_items p ! (unat (rec_id p) - unat i) \<noteq> 0)))"

definition rec_seen :: "packet_id_rec \<Rightarrow> (int \<times> u32) set \<Rightarrow> bool" where
  "rec_seen p A \<longleftrightarrow> rec_ok p \<and> (\<forall>k \<in> A. key_seen p k) \<and>
     (seq_list p \<noteq> None \<and> rec_items p = [] \<longrightarrow> A = {})"

lemma fresh_not_seen: "rec_seen p A \<Longrightarrow> pin_fresh p pin \<Longrightarrow> (pin_time pin, pin_id pin) \<notin> A"
proof -
  assume "rec_seen p A" "pin_fresh p pin"
  moreover from this have "\<not> key_seen p (pin_time pin, pin_id pin)"
    using unat_inc_nz [of "rec_id p"]
    by (auto simp: key_seen_def pin_fresh_def word_le_nat_alt word_less_nat_alt unat_eq_zero [symmetric]
        simp del: unat_0_iff split: if_splits)
  ultimately show "(pin_time pin, pin_id pin) \<notin> A" by (auto simp: rec_seen_def)
qed

lemma reap_seen:
  assumes "rec_seen p A"
  shows "\<exists>p'. packet_id_reap_test now p = Some p' \<and> rec_seen p' A"
proof (cases "last_reap p + SEQ_REAP_INTERVAL \<le> now")
  case True
  obtain p' where p': "packet_id_reap now p = Some p'" "rec_ok p'" "rec_time p' = rec_time p"
    "rec_id p' = rec_id p" "seq_list p' = None \<longleftrightarrow> seq_list p = None"
    "length (rec_items p') = length (rec_items p)"
    "\<forall>j < length (rec_items p). rec_items p' ! j = rec_items p ! j \<or> rec_items p' ! j = SEQ_EXPIRED"
    using packet_id_reap_items [of p now] assms by (auto simp: rec_seen_def)
  have "key_seen p' k" if "key_seen p k" for k
    using that p' by (fastforce simp: key_seen_def SEQ_EXPIRED_def)
  moreover have "rec_items p' = [] \<longleftrightarrow> rec_items p = []" using p'(6) by (metis length_0_conv)
  ultimately show ?thesis
    using p' assms True by (auto simp: packet_id_reap_test_def rec_seen_def)
next
  case False
  then show ?thesis using assms by (simp add: packet_id_reap_test_def)
qed

lemma add_seen_short:
  assumes "rec_seen p A" "pin_fresh p pin" "seq_list p = None"
  shows "\<exists>p'. packet_id_add now p pin = Some p' \<and> rec_seen p' (insert (pin_time pin, pin_id pin) A)"
proof -
  let ?p = "p\<lparr>rec_time := pin_time pin, rec_id := pin_id pin\<rparr>"
  have "key_seen ?p k" if "key_seen p k" for k
  proof -
    obtain t i where [simp]: "k = (t, i)" by (cases k)
    have "rec_id p + 1 \<noteq> 0 \<Longrightarrow> rec_id p \<le> rec_id p + 1"
      using unat_inc_nz [of "rec_id p"] by (simp add: word_le_nat_alt)
    then show ?thesis using that assms(2,3)
      by (auto simp: key_seen_def pin_fresh_def intro: order_trans)
  qed
  then show ?thesis using assms
    by (auto simp: packet_id_add_def rec_seen_def rec_ok_def key_seen_def pin_fresh_def)
qed

lemma add_seen_window:
  assumes seen: "rec_seen p A" and fresh: "pin_fresh p pin" and sl: "seq_list p = Some sl" and now: "now > 1"
  shows "\<exists>p'. packet_id_add now p pin = Some p' \<and> rec_seen p' (insert (pin_time pin, pin_id pin) A)"
proof -
  define sb where "sb = nat (seq_backtrack p)"
  define hi where "hi = (if add_resets p pin then unat (pin_id pin) - sb else unat (rec_id p))"
  define hi' where "hi' = max hi (unat (pin_id pin))"
  have ok: "rec_ok p" using seen by (simp add: rec_seen_def)
  obtain p' where p': "packet_id_add now p pin = Some p'" "rec_ok p'" "seq_list p' \<noteq> None"
    "unat (rec_id p') = hi'" "rec_time p' = (if add_resets p pin then pin_time pin else rec_time p)"
    "rec_items p' = (take sb (replicate (unat (pin_id pin) - hi) 0 @
                      (if add_resets p pin then [] else rec_items p)))[hi' - unat (pin_id pin) := now]"
    using packet_id_add_items [OF ok sl now, of pin] unfolding sb_def hi_def hi'_def by blast
  have sb: "0 < sb" "length (rec_items p) \<le> sb"
    using ok sl cl_bound [of sl] by (auto simp: rec_ok_def sb_def rec_items_def)
  have pid: "0 < unat (pin_id pin)" "pin_time pin \<ge> rec_time p"
    using fresh sl by (auto simp: pin_fresh_def unat_gt_0)
  have time: "rec_time p' = pin_time pin"
    using pid(2) p'(5) by (auto simp: add_resets_def split: if_splits)
  have le: "unat (pin_id pin) \<le> hi'" by (simp add: hi'_def)
  have new: "key_seen p' (pin_time pin, pin_id pin)"
    using pid le now time by (auto simp: key_seen_def p'(3,4,6) word_le_nat_alt)
  have ne: "rec_items p' \<noteq> []"
    using sb pid by (auto simp: p'(6) hi_def add_resets_def)
  have old: "key_seen p' (t, i)" if k: "(t, i) \<in> A" for t i
  proof (cases "add_resets p pin")
    case True
    have "key_seen p (t, i)" "rec_items p \<noteq> []"
      using seen k sl by (auto simp: rec_seen_def)
    then show ?thesis
      using True time p'(4) sb pid
      by (auto simp: key_seen_def add_resets_def word_le_nat_alt p'(6) hi'_def hi_def simp flip: sb_def)
  next
    case False
    have ks: "key_seen p (t, i)" using seen k by (auto simp: rec_seen_def)
    show ?thesis
    proof (cases "unat (pin_id pin) \<le> unat (rec_id p)")
      case True
      then have "rec_items p' = (rec_items p)[unat (rec_id p) - unat (pin_id pin) := now]"
        "unat (rec_id p') = unat (rec_id p)"
        using False sb by (simp_all add: p'(4,6) hi_def hi'_def)
      with ks show ?thesis
        using False time p'(5) now nth_update_neq [of _ "rec_items p" 0 now]
        by (auto simp: key_seen_def word_le_nat_alt sl)
    next
      case gt: False
      define n where "n = unat (pin_id pin) - unat (rec_id p)"
      have "rec_items p' = (take sb (replicate n 0 @ rec_items p))[0 := now]"
        "unat (rec_id p') = unat (rec_id p) + n" "0 < n"
        using False gt by (simp_all add: p'(4,6) hi_def hi'_def n_def)
      with ks show ?thesis
        using False time p'(5) now
        by (auto simp: key_seen_def word_le_nat_alt nth_append nth_list_update sl simp del: take_append)
    qed
  qed
  show ?thesis
    using p'(1,2) new ne old by (auto simp: rec_seen_def)
qed

lemma packet_id_test_seen:
  assumes "rec_seen p A"
  shows "\<exists>p'. packet_id_test p pin = Some (pin_fresh p pin, p') \<and> rec_seen p' A \<and> pin_fresh p' pin = pin_fresh p pin"
proof -
  obtain m where "packet_id_test p pin = Some (pin_fresh p pin, p\<lparr>max_backtrack_stat := m\<rparr>)"
    using packet_id_test_fresh [of p pin] assms by (auto simp: rec_seen_def)
  then show ?thesis
    using assms by (simp add: rec_seen_def key_seen_def pin_fresh_def)
qed

definition check_seen :: "'a crypto_options_scheme \<Rightarrow> (int \<times> u32) set \<Rightarrow> bool" where
  "check_seen opt = rec_seen (pid_rec (co_packet_id opt))"

definition check_key :: "int \<times> packet_id_net \<Rightarrow> int \<times> u32" where
  "check_key e = (pin_time (snd e), pin_id (snd e))"

definition check_good :: "int \<times> packet_id_net \<Rightarrow> bool" where
  "check_good e \<longleftrightarrow> fst e > 1"

lemma crypto_check_replay_step:
  assumes "check_seen opt A" "check_good e"
  shows "\<exists>b opt'. crypto_check_replay opt e = Some (b, opt') \<and>
    (b \<longrightarrow> check_key e \<notin> A \<and> check_seen opt' (insert (check_key e) A)) \<and> (\<not> b \<longrightarrow> check_seen opt' A)"
proof -
  obtain now pin where e: "e = (now, pin)" by (cases e)
  obtain r1 where r1: "packet_id_reap_test now (pid_rec (co_packet_id opt)) = Some r1" "rec_seen r1 A"
    using reap_seen assms(1) unfolding check_seen_def by blast
  obtain r2 where r2: "packet_id_test r1 pin = Some (pin_fresh r1 pin, r2)" "rec_seen r2 A"
    "pin_fresh r2 pin = pin_fresh r1 pin"
    using packet_id_test_seen [OF r1(2)] by blast
  show ?thesis
  proof (cases "pin_fresh r1 pin")
    case True
    have "\<exists>r3. packet_id_add now r2 pin = Some r3 \<and> rec_seen r3 (insert (pin_time pin, pin_id pin) A)"
      using add_seen_short [OF r2(2)] add_seen_window [OF r2(2)] True r2(3) assms(2)
      by (cases "seq_list r2") (auto simp: e check_good_def)
    then show ?thesis
      using r1 r2 True fresh_not_seen [OF r2(2), of pin]
      by (auto simp: crypto_check_replay_def e check_key_def check_seen_def Let_def)
  next
    case False
    then show ?thesis
      using r1 r2 by (auto simp: crypto_check_replay_def e check_key_def check_seen_def)
  qed
qed

interpretation rf: replay_filter crypto_check_replay check_key check_good check_seen
  by unfold_locales (rule crypto_check_replay_step)

lemma packet_id_init_seen: "packet_id_init sb tb nm un = Some p \<Longrightarrow> rec_seen (pid_rec p) {}"
  using cl_alloc [of sb 0]
  by (auto simp: packet_id_init_def packet_id_clear_def rec_seen_def rec_ok_def pid_consts Let_def
      split: if_splits)


lemma check_newer:
  assumes "check_seen opt A" "now > 1" "seq_list (pid_rec (co_packet_id opt)) \<noteq> None" "pin_id pin \<noteq> 0"
    "pin_time pin > rec_time (pid_rec (co_packet_id opt)) \<or>
     pin_time pin = rec_time (pid_rec (co_packet_id opt)) \<and> pin_id pin > rec_id (pid_rec (co_packet_id opt))"
  shows "\<exists>opt'. crypto_check_replay opt (now, pin) = Some (True, opt') \<and>
    check_seen opt' (insert (pin_time pin, pin_id pin) A)"
proof -
  let ?r = "pid_rec (co_packet_id opt)"
  obtain r1 where r1: "packet_id_reap_test now ?r = Some r1" "rec_time r1 = rec_time ?r" "rec_id r1 = rec_id ?r"
    "seq_list r1 \<noteq> None" "rec_ok r1"
    using packet_id_reap_items [of ?r now] assms(1,3)
    by (cases "last_reap ?r + SEQ_REAP_INTERVAL \<le> now")
      (auto simp: packet_id_reap_test_def check_seen_def rec_seen_def)
  have "pin_fresh r1 pin" using r1 assms by (auto simp: pin_fresh_def)
  then obtain r2 where "packet_id_test r1 pin = Some (True, r2)"
    using packet_id_test_fresh [OF r1(5), of pin] by auto
  then show ?thesis
    using crypto_check_replay_step [OF assms(1), of "(now, pin)"] assms(2) r1(1)
    by (auto simp: check_good_def check_key_def crypto_check_replay_def Let_def split: option.splits bool.splits)
qed

section \<open>The sender\<close>

text \<open>The keys a sequence of sends puts on the wire, at the given clock readings.\<close>

fun send_run :: "bool \<Rightarrow> packet_id_send \<Rightarrow> int list \<Rightarrow> (int \<times> u32) list" where
  "send_run lf p [] = []"
| "send_run lf p (now # ns) =
     (case packet_id_send_update now p lf of
        (True, p') \<Rightarrow> (send_time p', send_id p') # send_run lf p' ns
      | (False, p') \<Rightarrow> send_run lf p' ns)"

definition key_less :: "int \<times> u32 \<Rightarrow> int \<times> u32 \<Rightarrow> bool" where
  "key_less a b \<longleftrightarrow> fst a < fst b \<or> fst a = fst b \<and> snd a < snd b"

lemma key_less_trans: "key_less a b \<Longrightarrow> key_less b c \<Longrightarrow> key_less a c"
  by (auto simp: key_less_def)

lemma send_update_step:
  assumes "now > 0" "send_time p \<ge> 0"
  shows "packet_id_send_update now p lf = (b, p') \<Longrightarrow> send_time p' > 0 \<and>
    (if b then send_id p' \<noteq> 0 \<and> key_less (send_time p, send_id p) (send_time p', send_id p')
     else send_id p' = send_id p \<and> send_time p \<le> send_time p')"
proof -
  have "send_id p \<noteq> PACKET_ID_MAX \<Longrightarrow> send_id p + 1 \<noteq> 0 \<and> send_id p < send_id p + 1"
  proof -
    assume a: "send_id p \<noteq> PACKET_ID_MAX"
    have "send_id p + 1 \<noteq> 0"
    proof
      assume "send_id p + 1 = 0"
      then have "send_id p = - 1" by (simp add: add_eq_0_iff2)
      with a show False by (simp add: PACKET_ID_MAX_def)
    qed
    then show ?thesis using unat_inc_nz [of "send_id p"] by (simp add: word_less_nat_alt)
  qed
  then show "packet_id_send_update now p lf = (b, p') \<Longrightarrow> send_time p' > 0 \<and>
    (if b then send_id p' \<noteq> 0 \<and> key_less (send_time p, send_id p) (send_time p', send_id p')
     else send_id p' = send_id p \<and> send_time p \<le> send_time p')"
    using assms by (auto simp: packet_id_send_update_def Let_def key_less_def split: if_splits)
qed

lemma send_run_above:
  assumes "send_time p \<ge> 0" "list_all (\<lambda>n. n > 0) ns"
  shows "sorted_wrt key_less ((send_time p, send_id p) # send_run lf p ns) \<and>
    list_all (\<lambda>k. snd k \<noteq> 0) (send_run lf p ns)"
  using assms
proof (induction ns arbitrary: p)
  case Nil
  then show ?case by simp
next
  case (Cons now ns)
  obtain b p' where u: "packet_id_send_update now p lf = (b, p')" by fastforce
  note st = send_update_step [OF _ Cons.prems(1) u]
  have ih: "sorted_wrt key_less ((send_time p', send_id p') # send_run lf p' ns)"
    "list_all (\<lambda>k. snd k \<noteq> 0) (send_run lf p' ns)"
    using Cons.IH [of p'] Cons.prems st by auto
  have "key_less (send_time p, send_id p) k" if "key_less (send_time p', send_id p') k" for k
    using that st Cons.prems by (cases b) (auto simp: key_less_def)
  with ih u st Cons.prems show ?case by (cases b) auto
qed

lemma packet_id_write_content:
  assumes "buf_ok buf" "packet_id_write now p buf lf pre = (True, p', buf')"
  defines "hdr \<equiv> be32 (send_id p') @ (if lf then htontime (send_time p') else [])"
  shows "buf_ok buf' \<and> buf_content buf' = (if pre then hdr @ buf_content buf else buf_content buf @ hdr) \<and>
    packet_id_send_update now p lf = (True, p')"
proof -
  have u: "packet_id_send_update now p lf = (True, p')"
    using assms(2) by (auto simp: packet_id_write_def Let_def split: prod.splits bool.splits if_splits option.splits)
  consider b1 where "pre" "(if lf then buf_write_prepend buf (htontime (send_time p')) else Some buf) = Some b1"
      "buf_write_prepend b1 (be32 (send_id p')) = Some buf'"
    | b1 where "\<not> pre" "buf_write buf (be32 (send_id p')) = Some b1"
      "(if lf then buf_write b1 (htontime (send_time p')) else Some b1) = Some buf'"
    using assms(2) u by (cases pre; cases lf) (auto simp: packet_id_write_def Let_def split: option.splits)
  then show ?thesis
  proof cases
    case 1
    then have "buf_ok b1" "buf_content b1 = (if lf then htontime (send_time p') else []) @ buf_content buf"
      using ob.prepend_prepends [OF assms(1)] assms(1) by (auto split: if_splits)
    then show ?thesis using 1 u ob.prepend_prepends [of b1] by (simp add: hdr_def)
  next
    case 2
    then have "buf_ok b1" "buf_content b1 = buf_content buf @ be32 (send_id p')"
      using ob.write_appends [OF assms(1)] by auto
    then show ?thesis using 2 u ob.write_appends [of b1] by (simp add: hdr_def split: if_splits)
  qed
qed

lemma length_htontime [simp]: "length (htontime t) = 4"
  by (simp add: htontime_def)

lemma ntohtime_htontime: "0 \<le> t \<Longrightarrow> t < 2 ^ 32 \<Longrightarrow> ntohtime (htontime t) = t"
  by (simp add: ntohtime_def htontime_def unsigned_of_int take_bit_int_eq_self)

lemma packet_id_read_content:
  assumes "buf_ok buf" "buf_content buf = be32 i @ (if lf then htontime t else []) @ rest"
    "0 \<le> t" "t < 2 ^ 32"
  shows "\<exists>buf'. packet_id_read buf lf = (True, \<lparr>pin_id = i, pin_time = (if lf then t else 0)\<rparr>, buf') \<and>
    buf_ok buf' \<and> buf_content buf' = rest"
proof -
  obtain b1 where b1: "buf_read buf 4 = (Some (be32 i), b1)" "buf_ok b1"
    "buf_content b1 = (if lf then htontime t else []) @ rest"
    using ob.rd_field [OF assms(1,2)] by auto
  show ?thesis
  proof (cases lf)
    case True
    then obtain b2 where "buf_read b1 4 = (Some (htontime t), b2)" "buf_ok b2" "buf_content b2 = rest"
      using ob.rd_field [of b1 "htontime t" rest] b1 by auto
    then show ?thesis using b1 True assms(3,4) by (simp add: packet_id_read_def ntohtime_htontime)
  next
    case False
    then show ?thesis using b1 by (simp add: packet_id_read_def)
  qed
qed

section \<open>Properties\<close>

text \<open>
  C1. No replay. A receiver is initialised with any window the code allows (or none) and then checks
  any sequence of authenticated packets, in any order, with repetitions, ids that jump or wrap and
  a clock that moves arbitrarily (but is past 1, the value that marks an expired slot). Then no call
  ends in a fatal exit and no pair (time, id) is accepted twice.
\<close>

theorem no_replay:
  assumes "packet_id_init sb tb nm un = Some pid" "list_all (\<lambda>e. fst e > 1) es"
  shows "\<exists>bs opt'. run_checks crypto_check_replay
      \<lparr>co_packet_id = pid, co_pid_persist = pp, co_flags = fl\<rparr> es = Some (bs, opt') \<and>
    length bs = length es \<and> distinct (accepted check_key es bs)"
proof -
  have "check_seen \<lparr>co_packet_id = pid, co_pid_persist = pp, co_flags = fl\<rparr> {}"
    using packet_id_init_seen [OF assms(1)] by (simp add: check_seen_def)
  moreover have "list_all check_good es" using assms(2) by (simp add: check_good_def list_all_iff)
  ultimately show ?thesis using rf.run_distinct by blast
qed

theorem no_replay_witness:
  "\<exists>pid bs opt'. packet_id_init 4 15 ''tun'' 0 = Some pid \<and>
     run_checks crypto_check_replay \<lparr>co_packet_id = pid, co_pid_persist = None, co_flags = 0\<rparr>
       [(100, \<lparr>pin_id = 1, pin_time = 9\<rparr>), (100, \<lparr>pin_id = 3, pin_time = 9\<rparr>),
        (101, \<lparr>pin_id = 3, pin_time = 9\<rparr>), (101, \<lparr>pin_id = 2, pin_time = 9\<rparr>)] = Some (bs, opt') \<and>
     distinct (accepted check_key
       [(100, \<lparr>pin_id = 1, pin_time = 9\<rparr>), (100, \<lparr>pin_id = 3, pin_time = 9\<rparr>),
        (101, \<lparr>pin_id = 3, pin_time = 9\<rparr>), (101, \<lparr>pin_id = 2, pin_time = 9\<rparr>)] bs)"
proof -
  obtain pid where pid: "packet_id_init 4 15 ''tun'' 0 = Some pid"
    by (simp add: packet_id_init_def pid_consts Let_def)
  show ?thesis
    using no_replay [OF pid, of
        "[(100, \<lparr>pin_id = 1, pin_time = 9\<rparr>), (100, \<lparr>pin_id = 3, pin_time = 9\<rparr>),
          (101, \<lparr>pin_id = 3, pin_time = 9\<rparr>), (101, \<lparr>pin_id = 2, pin_time = 9\<rparr>)]" None 0] pid
    by auto
qed

text \<open>
  C19. Exactness of the test. On a well-formed receiver \<open>packet_id_test\<close> never fails and its answer is
  the specification \<open>pin_fresh\<close>: a non-zero id that is newer than the window, or inside the window
  with an unseen slot; without a window, the successor of the last id or id 1 of a later time.
\<close>

theorem packet_id_test_exact:
  assumes "rec_ok p"
  shows "map_option fst (packet_id_test p pin) = Some (pin_fresh p pin)"
  using packet_id_test_fresh [OF assms, of pin] by auto

theorem packet_id_test_exact_witness:
  "map_option fst (packet_id_test (pid_rec (the (packet_id_init 4 15 [] 0))) \<lparr>pin_id = 7, pin_time = 0\<rparr>) =
     Some (pin_fresh (pid_rec (the (packet_id_init 4 15 [] 0))) \<lparr>pin_id = 7, pin_time = 0\<rparr>)"
  by (rule packet_id_test_exact)
    (simp add: packet_id_init_def pid_consts Let_def rec_ok_def packet_id_clear_def CIRC_LIST_ALLOC_def cl_ok_def)

text \<open>
  Progress of the receiver. In window mode, from any state that \<open>check_seen\<close> describes (so from
  every state a run reaches), a packet that is newer than everything received is accepted.
\<close>

theorem newer_accepted:
  assumes "check_seen opt A" "now > 1" "seq_list (pid_rec (co_packet_id opt)) \<noteq> None" "pin_id pin \<noteq> 0"
    "pin_time pin > rec_time (pid_rec (co_packet_id opt)) \<or>
     pin_time pin = rec_time (pid_rec (co_packet_id opt)) \<and> pin_id pin > rec_id (pid_rec (co_packet_id opt))"
  shows "\<exists>opt'. crypto_check_replay opt (now, pin) = Some (True, opt') \<and>
    check_seen opt' (insert (pin_time pin, pin_id pin) A)"
  using assms by (rule check_newer)

theorem newer_accepted_witness:
  "\<exists>opt'. crypto_check_replay \<lparr>co_packet_id = the (packet_id_init 4 15 [] 0), co_pid_persist = None, co_flags = 0\<rparr>
      (100, \<lparr>pin_id = 7, pin_time = 0\<rparr>) = Some (True, opt') \<and> check_seen opt' {(0, 7)}"
  using newer_accepted [of "\<lparr>co_packet_id = the (packet_id_init 4 15 [] 0), co_pid_persist = None, co_flags = 0\<rparr>"
      "{}" 100 "\<lparr>pin_id = 7, pin_time = 0\<rparr>"]
  by (simp add: packet_id_init_def pid_consts Let_def rec_ok_def packet_id_clear_def CIRC_LIST_ALLOC_def
      cl_ok_def check_seen_def rec_seen_def)


text \<open>
  C20. The sender never repeats an id. From any sender state, for any clock readings after 1970, the
  keys (time, id) that successive sends put on the wire increase strictly (by time, then id), and no
  id is zero. At the end of the id space a send fails unless the long form can move to a later time.
\<close>

theorem send_keys_increase:
  assumes "send_time p \<ge> 0" "list_all (\<lambda>n. n > 0) ns"
  shows "sorted_wrt key_less (send_run lf p ns) \<and> list_all (\<lambda>k. snd k \<noteq> 0) (send_run lf p ns)"
  using send_run_above [OF assms, of lf] by simp

theorem send_keys_increase_witness:
  "sorted_wrt key_less (send_run True \<lparr>send_id = 0xFFFFFFFE, send_time = 5\<rparr> [5, 5, 6]) \<and>
   list_all (\<lambda>k. snd k \<noteq> 0) (send_run True \<lparr>send_id = 0xFFFFFFFE, send_time = 5\<rparr> [5, 5, 6])"
  by (rule send_keys_increase) simp_all

text \<open>
  Round trip of the packet id on the wire. What \<open>packet_id_write\<close> prepends to a packet, in short or
  long form, \<open>packet_id_read\<close> reads back: the id of the sender, its time in long form, and the packet
  that follows is left as it was.
\<close>

theorem packet_id_wire_roundtrip:
  assumes "buf_ok buf" "packet_id_write now p buf lf True = (True, p', buf')"
    "0 \<le> send_time p'" "send_time p' < 2 ^ 32"
  shows "\<exists>buf''. packet_id_read buf' lf =
      (True, \<lparr>pin_id = send_id p', pin_time = (if lf then send_time p' else 0)\<rparr>, buf'') \<and>
    buf_content buf'' = buf_content buf"
  using packet_id_write_content [OF assms(1,2)] packet_id_read_content [of buf' "send_id p'" lf "send_time p'"]
    assms(3,4) by fastforce

theorem packet_id_wire_roundtrip_witness:
  "\<exists>buf' buf''. packet_id_write 7 \<lparr>send_id = 258, send_time = 0\<rparr>
       \<lparr>b_capacity = 10, b_offset = 8, b_len = 1, b_data = Some (replicate 10 9)\<rparr> True True =
       (True, \<lparr>send_id = 259, send_time = 7\<rparr>, buf') \<and>
     packet_id_read buf' True = (True, \<lparr>pin_id = 259, pin_time = 7\<rparr>, buf'') \<and> buf_content buf'' = [9]"
proof -
  let ?b = "\<lparr>b_capacity = 10, b_offset = 8, b_len = 1, b_data = Some (replicate 10 9)\<rparr> :: buffer"
  have ok: "buf_ok ?b" by (simp add: buf_ok_def)
  have c: "buf_content ?b = [9]" by code_simp
  have w: "\<exists>buf'. packet_id_write 7 \<lparr>send_id = 258, send_time = 0\<rparr> ?b True True =
      (True, \<lparr>send_id = 259, send_time = 7\<rparr>, buf')"
    by (simp add: packet_id_write_def packet_id_send_update_def PACKET_ID_MAX_def Let_def buf_write_prepend_def
        buf_prepend_def buf_valid_def buf_store_def)
  then obtain buf' where "packet_id_write 7 \<lparr>send_id = 258, send_time = 0\<rparr> ?b True True =
      (True, \<lparr>send_id = 259, send_time = 7\<rparr>, buf')" by blast
  then show ?thesis using packet_id_wire_roundtrip [OF ok, of 7 _ True] c by fastforce
qed

text \<open>
  Round trip of the persisted state. Saving the receiver's position to an enabled persistence
  object, writing it to the file, reading that file in a later session and loading the object into a
  freshly initialised receiver restores the last time and id.
\<close>

theorem persist_roundtrip:
  assumes "packet_id_persist_enabled pp" "rec_time (pid_rec pid) \<noteq> 0"
    "(per_time pp, per_id pp) = (time_last_written pp, id_last_written pp)"
    "(rec_time (pid_rec pid), rec_id (pid_rec pid)) \<noteq> (time_last_written pp, id_last_written pp)"
    "fdn \<ge> 0"
    "packet_id_persist_load packet_id_persist_init fname fdn True
       (snd (packet_id_persist_save (packet_id_persist_save_obj pp pid) True True)) = Some pp'"
  shows "rec_time (pid_rec (packet_id_persist_load_obj pp' pid')) = rec_time (pid_rec pid) \<and>
    rec_id (pid_rec (packet_id_persist_load_obj pp' pid')) = rec_id (pid_rec pid) \<and>
    seq_list (pid_rec (packet_id_persist_load_obj pp' pid')) = seq_list (pid_rec pid')"
  using assms
  by (auto simp: packet_id_persist_enabled_def packet_id_persist_save_obj_def packet_id_persist_save_def
      packet_id_persist_load_def packet_id_persist_init_def packet_id_persist_load_obj_def Let_def)

theorem persist_roundtrip_witness:
  "\<exists>pp'. packet_id_persist_load packet_id_persist_init ''f'' 3 True
       (snd (packet_id_persist_save (packet_id_persist_save_obj (packet_id_persist_init\<lparr>fd := 4\<rparr>)
          (packet_id_clear\<lparr>pid_rec := (pid_rec packet_id_clear)\<lparr>rec_time := 9, rec_id := 12\<rparr>\<rparr>)) True True)) = Some pp' \<and>
     rec_id (pid_rec (packet_id_persist_load_obj pp' packet_id_clear)) = 12"
  using persist_roundtrip [of "packet_id_persist_init\<lparr>fd := 4\<rparr>"
      "packet_id_clear\<lparr>pid_rec := (pid_rec packet_id_clear)\<lparr>rec_time := 9, rec_id := 12\<rparr>\<rparr>" 3 "''f''" _ packet_id_clear]
  by (simp add: packet_id_persist_enabled_def packet_id_persist_init_def packet_id_persist_load_def Let_def)

lemma persist_load_rec:
  assumes "packet_id_init sb tb nm un = Some pid" "sb > 0"
    "packet_id_persist_enabled pp" "per_time pp \<noteq> 0"
  defines "r \<equiv> pid_rec (packet_id_persist_load_obj pp pid)"
  shows "rec_ok r" "rec_items r = []" "seq_list r \<noteq> None" "rec_time r = per_time pp" "rec_id r = per_id pp"
    "seq_backtrack r = sb" "last_reap r = 0"
  using assms(1-4) cl_alloc [of sb 0]
  by (auto simp: r_def packet_id_init_def packet_id_clear_def packet_id_persist_load_obj_def rec_ok_def
      rec_items_def pid_consts Let_def split: if_splits)

lemma check_known:
  assumes "packet_id_reap_test now (pid_rec (co_packet_id opt)) = Some r1" "rec_ok r1" "pin_fresh r1 pin"
    "now > 1" "seq_list r1 \<noteq> None"
  shows "\<exists>opt' r2 m. crypto_check_replay opt (now, pin) = Some (True, opt') \<and>
    pid_rec (co_packet_id opt') = r2 \<and> packet_id_add now (r1\<lparr>max_backtrack_stat := m\<rparr>) pin = Some r2"
proof -
  obtain m where m: "packet_id_test r1 pin = Some (True, r1\<lparr>max_backtrack_stat := m\<rparr>)"
    using packet_id_test_fresh [OF assms(2), of pin] assms(3) by auto
  have "rec_ok (r1\<lparr>max_backtrack_stat := m\<rparr>)" using assms(2) by simp
  moreover obtain sl where "seq_list (r1\<lparr>max_backtrack_stat := m\<rparr>) = Some sl" using assms(5) by auto
  ultimately obtain r2 where "packet_id_add now (r1\<lparr>max_backtrack_stat := m\<rparr>) pin = Some r2"
    using packet_id_add_items [of _ sl now pin] assms(4) by blast
  then show ?thesis using assms(1) m by (auto simp: crypto_check_replay_def Let_def)
qed

lemma packet_id_add_keeps: "packet_id_add now p pin = Some p' \<Longrightarrow> last_reap p' = last_reap p"
  by (auto simp: packet_id_add_def Let_def split: option.splits if_splits)

lemma packet_id_reap_keeps:
  "packet_id_reap now p = Some p' \<Longrightarrow> last_reap p' = now \<and> seq_backtrack p' = seq_backtrack p"
  by (auto simp: packet_id_reap_def split: option.splits if_splits)

text \<open>
  The persisted position does not reject the packets of the prior session. After a receiver has
  loaded a persisted position (time, id) into its empty window, the next packet (time, id + 1) opens
  the window with unseen slots below it, so the packet (time, id), which the prior session had
  received, is accepted again.
\<close>

theorem persist_replay_accepted:
  assumes "packet_id_init sb tb nm un = Some pid" "sb \<ge> 2"
    "packet_id_persist_enabled pp" "per_time pp \<noteq> 0" "per_id pp \<noteq> 0" "per_id pp + 1 \<noteq> 0" "now \<ge> 5"
  shows "\<exists>opt'. run_checks crypto_check_replay
      \<lparr>co_packet_id = packet_id_persist_load_obj pp pid, co_pid_persist = q, co_flags = fl\<rparr>
      [(now, \<lparr>pin_id = per_id pp + 1, pin_time = per_time pp\<rparr>),
       (now, \<lparr>pin_id = per_id pp, pin_time = per_time pp\<rparr>)] = Some ([True, True], opt')"
proof -
  define r where "r = pid_rec (packet_id_persist_load_obj pp pid)"
  have "sb > 0" using assms(2) by simp
  note r = persist_load_rec [OF assms(1) this assms(3,4), folded r_def]
  let ?opt = "\<lparr>co_packet_id = packet_id_persist_load_obj pp pid, co_pid_persist = q, co_flags = fl\<rparr>"
  let ?pin = "\<lparr>pin_id = per_id pp + 1, pin_time = per_time pp\<rparr>"
  let ?old = "\<lparr>pin_id = per_id pp, pin_time = per_time pp\<rparr>"
  have up: "unat (per_id pp + 1) = Suc (unat (per_id pp))" by (rule unat_inc_nz [OF assms(6)])
  obtain r1 where reap: "packet_id_reap now r = Some r1" and r1: "rec_ok r1" "rec_time r1 = per_time pp"
    "rec_id r1 = per_id pp" "seq_list r1 \<noteq> None" "rec_items r1 = []"
    using packet_id_reap_items [OF r(1), of now] r by auto
  have keep: "last_reap r1 = now" "seq_backtrack r1 = sb"
    using packet_id_reap_keeps [OF reap] r(6) by auto
  have reap1: "packet_id_reap_test now (pid_rec (co_packet_id ?opt)) = Some r1"
    using reap r(7) assms(7) by (simp add: packet_id_reap_test_def SEQ_REAP_INTERVAL_def flip: r_def)
  have "pin_fresh r1 ?pin"
    using r1 assms(6) up by (simp add: pin_fresh_def word_less_nat_alt)
  then obtain opt1 r2 m where s1: "crypto_check_replay ?opt (now, ?pin) = Some (True, opt1)"
    "pid_rec (co_packet_id opt1) = r2" "packet_id_add now (r1\<lparr>max_backtrack_stat := m\<rparr>) ?pin = Some r2"
    using check_known [OF reap1 r1(1)] assms(7) r1(4) by force
  let ?r = "r1\<lparr>max_backtrack_stat := m\<rparr>"
  have rr: "rec_ok ?r" "add_resets ?r ?pin" "rec_items ?r = []"
    using r1 by (simp_all add: add_resets_def)
  obtain sl where "seq_list ?r = Some sl" using r1(4) by auto
  from packet_id_add_items [OF rr(1) this, of now ?pin] s1(3) rr assms(2,7) keep
  have r2: "rec_ok r2" "seq_list r2 \<noteq> None" "rec_time r2 = per_time pp" "rec_id r2 = per_id pp + 1"
    "rec_items r2 = (replicate (min (nat sb) (Suc (unat (per_id pp)) - (Suc (unat (per_id pp)) - nat sb))) 0)[0 := now]"
    by (auto simp: up word_unat_eq_iff)
  have "0 < unat (per_id pp)" using assms(5) by (simp add: unat_gt_0)
  then have "pin_fresh r2 ?old"
    using r2 assms(2,5) by (auto simp: pin_fresh_def up)
  moreover have "packet_id_reap_test now (pid_rec (co_packet_id opt1)) = Some r2"
    using packet_id_add_keeps [OF s1(3)] keep s1(2) by (simp add: packet_id_reap_test_def SEQ_REAP_INTERVAL_def)
  ultimately obtain opt2 where "crypto_check_replay opt1 (now, ?old) = Some (True, opt2)"
    using check_known [of now opt1 r2 ?old] r2(1,2) assms(7) by force
  with s1(1) show ?thesis by simp
qed

theorem persist_replay_accepted_witness:
  "\<exists>opt'. run_checks crypto_check_replay
      \<lparr>co_packet_id = packet_id_persist_load_obj
         (packet_id_persist_init\<lparr>fd := 3, per_time := 50, per_id := 9\<rparr>) (the (packet_id_init 64 15 [] 0)),
       co_pid_persist = None, co_flags = 1\<rparr>
      [(100, \<lparr>pin_id = 10, pin_time = 50\<rparr>), (100, \<lparr>pin_id = 9, pin_time = 50\<rparr>)] = Some ([True, True], opt')"
  using persist_replay_accepted [of 64 15 "[]" 0 "the (packet_id_init 64 15 [] 0)"
      "packet_id_persist_init\<lparr>fd := 3, per_time := 50, per_id := 9\<rparr>" 100 None 1]
  by (simp add: packet_id_init_def pid_consts Let_def packet_id_persist_enabled_def)

end
