(* ===== verification/Mtu.thy ===== *)
theory Mtu
  imports Ovpn_Buffer
begin

text \<open>
  OpenVPN's packet geometry (\<open>mtu.h\<close>, \<open>mtu.c\<close>): the sizes that buffers are allocated with and the limits that
  fragmentation and the correction of the TCP segment size work with. The nested \<open>struct\<close> of buffer sizes is
  flattened.
\<close>

section \<open>Buffer geometry\<close>

record frame =
  payload_size :: int
  headroom :: int
  tailroom :: int
  mss_fix :: u32
  max_fragment_size :: int
  tun_mtu :: int
  tun_max_mtu :: int
  extra_tun :: int

definition BUF_SIZE :: "frame \<Rightarrow> int" where
  "BUF_SIZE fr = headroom fr + payload_size fr + tailroom fr"

text \<open>The argument of \<open>alloc_buf\<close> is a \<open>size_t\<close>: a negative sum is a size beyond every limit.\<close>

definition alloc_buf_sock_tun :: "frame \<Rightarrow> buffer option" where
  "alloc_buf_sock_tun fr =
     (if BUF_SIZE fr < 0 then None
      else case alloc_buf (nat (BUF_SIZE fr)) of
        None \<Rightarrow> None
      | Some b \<Rightarrow>
          (case buf_init b (headroom fr) of
             None \<Rightarrow> None
           | Some b1 \<Rightarrow> (let b2 = b1\<lparr>b_len := payload_size fr\<rparr> in if buf_safe b2 0 then Some b2 else None)))"

lemma alloc_buf_sock_tun_ok:
  assumes "0 \<le> headroom fr" "0 \<le> payload_size fr" "0 \<le> tailroom fr" "BUF_SIZE fr < int BUF_SIZE_MAX"
  shows "\<exists>b. alloc_buf_sock_tun fr = Some b \<and> buf_ok b \<and> b_offset b = headroom fr \<and> b_len b = payload_size fr \<and>
    b_capacity b = BUF_SIZE fr"
  using assms
  by (auto simp: alloc_buf_sock_tun_def alloc_buf_def buf_size_valid_def buf_init_def buf_safe_def buf_valid_def buf_ok_def
      BUF_SIZE_def BUF_SIZE_MAX_def Let_def)

end
