(* ===== verification/Data_Crypto.thy ===== *)
theory Data_Crypto
  imports Packet_Id Mtu "HOL-Library.Monad_Syntax"
begin

text \<open>
  OpenVPN's data channel (\<open>crypto.c\<close>): a packet is
  encrypted and authenticated with the current key, and a received packet is authenticated, decrypted and
  checked against the replay window.

  The cryptographic library behind \<open>crypto_backend.h\<close> is a parameter: a cipher context is a record of the functions that
  the code calls on it, over a state that a reset with an IV creates, and an HMAC context is the size of its tag and the
  function of the bytes that it authenticates. What the properties require of them is stated as predicates. The
  bytes of \<open>prng_bytes\<close> are an argument of encryption.

  A failed \<open>ASSERT\<close> is \<^term>\<open>None\<close>. Pointers into a packet (\<open>mac_out\<close>, \<open>hmac_start\<close>, \<open>ad_start\<close>) are offsets in
  the block of their buffer.
\<close>

section \<open>Key contexts\<close>

definition OPENVPN_MAX_IV_LENGTH :: int where "OPENVPN_MAX_IV_LENGTH = 16"
definition OPENVPN_AEAD_TAG_LENGTH :: nat where "OPENVPN_AEAD_TAG_LENGTH = 16"
definition OPENVPN_AEAD_MIN_IV_LEN :: int where "OPENVPN_AEAD_MIN_IV_LEN = 4 + 8"
definition CO_IGNORE_PACKET_ID :: u32 where "CO_IGNORE_PACKET_ID = 2"

lemmas crypto_consts = OPENVPN_MAX_IV_LENGTH_def OPENVPN_AEAD_TAG_LENGTH_def OPENVPN_AEAD_MIN_IV_LEN_def

definition ASSERT :: "bool \<Rightarrow> unit option" where
  "ASSERT c = (if c then Some () else None)"

datatype cipher_mode = MODE_CBC | MODE_OFB_CFB | MODE_AEAD | MODE_OTHER

record 's cipher_ctx =
  cipher_ctx_mode :: cipher_mode
  cipher_ctx_iv_length :: int
  cipher_ctx_block_size :: int
  cipher_ctx_reset :: "bytes \<Rightarrow> 's option"
  cipher_ctx_update_ad :: "'s \<Rightarrow> bytes \<Rightarrow> 's option"
  cipher_ctx_update :: "'s \<Rightarrow> bytes \<Rightarrow> (bytes \<times> 's) option"
  cipher_ctx_final :: "'s \<Rightarrow> (bytes \<times> 's) option"
  cipher_ctx_get_tag :: "'s \<Rightarrow> nat \<Rightarrow> bytes option"
  cipher_ctx_final_check_tag :: "'s \<Rightarrow> bytes \<Rightarrow> (bytes \<times> 's) option"

record hmac_ctx =
  hmac_ctx_size :: nat
  hmac_ctx_digest :: "bytes \<Rightarrow> bytes"

record 's key_ctx =
  kc_cipher :: "'s cipher_ctx option"
  kc_hmac :: "hmac_ctx option"
  implicit_iv :: bytes
  implicit_iv_len :: nat

record 's key_ctx_bi =
  ctx_encrypt :: "'s key_ctx"
  ctx_decrypt :: "'s key_ctx"
  bi_initialized :: bool

record 's data_options = crypto_options +
  key_ctx_bi :: "'s key_ctx_bi"

definition packet_id_initialized :: "packet_id \<Rightarrow> bool" where
  "packet_id_initialized pid = initialized (pid_rec pid)"

definition cipher_mode_aead :: "'s cipher_ctx option \<Rightarrow> bool" where
  "cipher_mode_aead c = (case c of None \<Rightarrow> False | Some cc \<Rightarrow> cipher_ctx_mode cc = MODE_AEAD)"

definition long_form :: "'a crypto_options_scheme \<Rightarrow> bool" where
  "long_form opt \<longleftrightarrow> co_flags opt AND CO_PACKET_ID_LONG_FORM \<noteq> 0"

definition set_send :: "packet_id_send \<Rightarrow> 'a crypto_options_scheme \<Rightarrow> 'a crypto_options_scheme" where
  "set_send p opt = opt\<lparr>co_packet_id := (co_packet_id opt)\<lparr>pid_send := p\<rparr>\<rparr>"

definition key_ctx_update_implicit_iv :: "'s key_ctx \<Rightarrow> bytes \<Rightarrow> 's key_ctx option" where
  "key_ctx_update_implicit_iv ctx key =
     (case kc_cipher ctx of
        None \<Rightarrow> Some ctx
      | Some cc \<Rightarrow>
          if cipher_ctx_mode cc = MODE_AEAD
          then do {
            ASSERT (cipher_ctx_iv_length cc \<ge> OPENVPN_AEAD_MIN_IV_LEN);
            let impl_iv_len = nat (cipher_ctx_iv_length cc - 4);
            ASSERT (int impl_iv_len \<le> OPENVPN_MAX_IV_LENGTH);
            ASSERT (impl_iv_len \<le> length key);
            Some (ctx\<lparr>implicit_iv := mem_write (implicit_iv ctx) 0 (take impl_iv_len key), implicit_iv_len := impl_iv_len\<rparr>) }
          else Some ctx)"

section \<open>Encryption\<close>

definition buf_bytes :: "buffer \<Rightarrow> bytes" where
  "buf_bytes b = buf_load b (b_offset b) (nat (BLEN b))"

text \<open>The output of the cipher is written behind the content of the work buffer.\<close>

definition put_output :: "buffer \<Rightarrow> bytes \<Rightarrow> buffer option" where
  "put_output work xs = buf_inc_len (buf_store work (buf_bend work) xs) (int (length xs))"

definition crypt_failed :: "buffer \<Rightarrow> buffer" where
  "crypt_failed buf = buf\<lparr>b_len := 0\<rparr>"

definition openvpn_encrypt_aead ::
    "int \<Rightarrow> buffer \<Rightarrow> buffer \<Rightarrow> 's data_options \<Rightarrow> (buffer \<times> 's data_options) option" where
  "openvpn_encrypt_aead now buf work opt = do {
     let ctx = ctx_encrypt (key_ctx_bi opt);
     cc \<leftarrow> kc_cipher ctx;
     ASSERT (packet_id_initialized (co_packet_id opt));
     let iv_len = cipher_ctx_iv_length cc;
     ASSERT (OPENVPN_AEAD_MIN_IV_LEN \<le> iv_len \<and> iv_len \<le> OPENVPN_MAX_IV_LENGTH);
     iv_buffer \<leftarrow> buf_set_write (replicate (nat OPENVPN_MAX_IV_LENGTH) 0) (nat iv_len);
     (case packet_id_write now (pid_send (co_packet_id opt)) iv_buffer False False of
        (False, ps, _) \<Rightarrow> Some (crypt_failed buf, set_send ps opt)
      | (True, ps, iv1) \<Rightarrow> do {
          iv2 \<leftarrow> buf_write iv1 (take (implicit_iv_len ctx) (implicit_iv ctx));
          ASSERT (b_len iv2 = iv_len);
          iv \<leftarrow> b_data iv2;
          work1 \<leftarrow> buf_write work (take (nat iv_len - implicit_iv_len ctx) iv);
          s0 \<leftarrow> cipher_ctx_reset cc iv;
          (mac_out, work2) \<leftarrow> buf_write_alloc work1 OPENVPN_AEAD_TAG_LENGTH;
          if \<not> buf_safe work2 (nat (b_len buf + cipher_ctx_block_size cc)) then Some (crypt_failed buf, set_send ps opt)
          else do {
            s1 \<leftarrow> cipher_ctx_update_ad cc s0 (buf_load work2 (b_offset work2) (nat (BLEN work2) - OPENVPN_AEAD_TAG_LENGTH));
            (c1, s2) \<leftarrow> cipher_ctx_update cc s1 (buf_bytes buf);
            work3 \<leftarrow> put_output work2 c1;
            (c2, s3) \<leftarrow> cipher_ctx_final cc s2;
            work4 \<leftarrow> put_output work3 c2;
            tag \<leftarrow> cipher_ctx_get_tag cc s3 OPENVPN_AEAD_TAG_LENGTH;
            Some (buf_store work4 mac_out tag, set_send ps opt) } }) }"

text \<open>
  The older format. The result of either branch is the failed packet, or the work buffer with the addresses of
  the HMAC and of the bytes it covers.
\<close>

definition reserve_hmac :: "hmac_ctx option \<Rightarrow> buffer \<Rightarrow> (int \<times> int \<times> buffer) option" where
  "reserve_hmac h work =
     (case h of
        None \<Rightarrow> Some (0, 0, work)
      | Some hm \<Rightarrow> do { (mac_out, work1) \<leftarrow> buf_write_alloc work (hmac_ctx_size hm); Some (mac_out, buf_bend work1, work1) })"

definition v1_packet_id ::
    "int \<Rightarrow> buffer \<Rightarrow> 's data_options \<Rightarrow> bool \<times> buffer \<times> 's data_options" where
  "v1_packet_id now buf opt =
     (if packet_id_initialized (co_packet_id opt)
      then case packet_id_write now (pid_send (co_packet_id opt)) buf (long_form opt) True of
             (ok, ps, buf') \<Rightarrow> (ok, buf', set_send ps opt)
      else (True, buf, opt))"

definition v1_iv ::
    "int \<Rightarrow> (nat \<Rightarrow> bytes) \<Rightarrow> 's cipher_ctx \<Rightarrow> buffer \<Rightarrow> 's data_options \<Rightarrow> (bool \<times> bytes \<times> buffer \<times> 's data_options) option" where
  "v1_iv now prng cc buf opt =
     (let iv_size = nat (cipher_ctx_iv_length cc)
      in case cipher_ctx_mode cc of
           MODE_CBC \<Rightarrow> (case v1_packet_id now buf opt of (ok, buf', opt') \<Rightarrow> Some (ok, prng iv_size, buf', opt'))
         | MODE_OFB_CFB \<Rightarrow> do {
             ASSERT (packet_id_initialized (co_packet_id opt));
             b \<leftarrow> buf_set_write (replicate (nat OPENVPN_MAX_IV_LENGTH) 0) iv_size;
             (case packet_id_write now (pid_send (co_packet_id opt)) b True False of
                (ok, ps, b1) \<Rightarrow> do { ASSERT ok; iv \<leftarrow> b_data b1; Some (True, iv, buf, set_send ps opt) }) }
         | _ \<Rightarrow> None)"

definition encrypt_v1_cipher ::
    "int \<Rightarrow> (nat \<Rightarrow> bytes) \<Rightarrow> 's cipher_ctx \<Rightarrow> hmac_ctx option \<Rightarrow> buffer \<Rightarrow> buffer \<Rightarrow> 's data_options \<Rightarrow>
     (bool \<times> int \<times> int \<times> buffer \<times> 's data_options) option" where
  "encrypt_v1_cipher now prng cc h buf work opt = do {
     (mac_out, hmac_start, work1) \<leftarrow> reserve_hmac h work;
     (ok, iv, buf1, opt1) \<leftarrow> v1_iv now prng cc buf opt;
     if \<not> ok then Some (False, 0, 0, crypt_failed buf1, opt1)
     else do {
       work2 \<leftarrow> buf_write work1 iv;
       s0 \<leftarrow> cipher_ctx_reset cc iv;
       if \<not> buf_safe work2 (nat (b_len buf1 + cipher_ctx_block_size cc)) then Some (False, 0, 0, crypt_failed buf1, opt1)
       else do {
         (c1, s1) \<leftarrow> cipher_ctx_update cc s0 (buf_bytes buf1);
         work3 \<leftarrow> put_output work2 c1;
         (c2, s2) \<leftarrow> cipher_ctx_final cc s1;
         work4 \<leftarrow> put_output work3 c2;
         ASSERT (cipher_ctx_mode cc \<noteq> MODE_CBC \<or> int (length c2) = cipher_ctx_iv_length cc);
         Some (True, mac_out, hmac_start, work4, opt1) } } }"

definition encrypt_v1_plain ::
    "int \<Rightarrow> hmac_ctx option \<Rightarrow> buffer \<Rightarrow> buffer \<Rightarrow> 's data_options \<Rightarrow> (bool \<times> int \<times> int \<times> buffer \<times> 's data_options) option" where
  "encrypt_v1_plain now h buf work opt =
     (case v1_packet_id now buf opt of
        (False, buf1, opt1) \<Rightarrow> Some (False, 0, 0, crypt_failed buf1, opt1)
      | (True, buf1, opt1) \<Rightarrow> do {
          (mac_out, hmac_start, buf2) \<leftarrow>
            (case h of
               None \<Rightarrow> Some (0, 0, buf1)
             | Some hm \<Rightarrow> do { hs \<leftarrow> buf_bptr buf1; (m, b) \<leftarrow> buf_prepend buf1 (int (hmac_ctx_size hm)); Some (m, hs, b) });
          let buf3 = (if BLEN work \<noteq> 0
                      then (case buf_write_prepend buf2 (buf_bytes work) of None \<Rightarrow> buf2 | Some b \<Rightarrow> b) else buf2);
          Some (True, mac_out, hmac_start, buf3, opt1) })"

definition openvpn_encrypt_v1 ::
    "int \<Rightarrow> (nat \<Rightarrow> bytes) \<Rightarrow> buffer \<Rightarrow> buffer \<Rightarrow> 's data_options \<Rightarrow> (buffer \<times> 's data_options) option" where
  "openvpn_encrypt_v1 now prng buf work opt =
     (if b_len buf > 0
      then do {
        let ctx = ctx_encrypt (key_ctx_bi opt);
        (ok, mac_out, hmac_start, work1, opt1) \<leftarrow>
          (case kc_cipher ctx of
             Some cc \<Rightarrow> encrypt_v1_cipher now prng cc (kc_hmac ctx) buf work opt
           | None \<Rightarrow> encrypt_v1_plain now (kc_hmac ctx) buf work opt);
        Some (if ok
              then (case kc_hmac ctx of
                      None \<Rightarrow> work1
                    | Some hm \<Rightarrow> buf_store work1 mac_out
                        (hmac_ctx_digest hm (buf_load work1 hmac_start (nat (buf_bend work1 - hmac_start)))), opt1)
              else (work1, opt1)) }
      else Some (buf, opt))"

definition openvpn_encrypt ::
    "int \<Rightarrow> (nat \<Rightarrow> bytes) \<Rightarrow> buffer \<Rightarrow> buffer \<Rightarrow> 's data_options option \<Rightarrow> (buffer \<times> 's data_options option) option" where
  "openvpn_encrypt now prng buf work o_opt =
     (case o_opt of
        Some opt \<Rightarrow>
          if b_len buf > 0
          then map_option (\<lambda>(b, opt'). (b, Some opt'))
                 (if cipher_mode_aead (kc_cipher (ctx_encrypt (key_ctx_bi opt)))
                  then openvpn_encrypt_aead now buf work opt else openvpn_encrypt_v1 now prng buf work opt)
          else Some (buf, o_opt)
      | None \<Rightarrow> Some (buf, o_opt))"

section \<open>Decryption\<close>

text \<open>
  The result is whether the packet was accepted, the packet, and the state of the key. An error leaves an empty packet.
\<close>

definition crypt_error :: "buffer \<Rightarrow> 's data_options \<Rightarrow> (bool \<times> buffer \<times> 's data_options) option" where
  "crypt_error buf opt = Some (False, crypt_failed buf, opt)"

definition check_and_pass ::
    "int \<Rightarrow> packet_id_net option \<Rightarrow> buffer \<Rightarrow> buffer \<Rightarrow> 's data_options \<Rightarrow> (bool \<times> buffer \<times> 's data_options) option" where
  "check_and_pass now pin buf work opt =
     (case pin of
        None \<Rightarrow> Some (True, work, opt)
      | Some p \<Rightarrow> do {
          (ok, opt1) \<leftarrow> crypto_check_replay opt (now, p);
          if ok then Some (True, work, opt1) else crypt_error buf opt1 })"

text \<open>The packet id has been read: what follows it is the tag and the ciphertext.\<close>

definition aead_decrypt_payload ::
    "int \<Rightarrow> 's cipher_ctx \<Rightarrow> 's \<Rightarrow> packet_id_net \<Rightarrow> buffer \<Rightarrow> buffer \<Rightarrow> 's data_options \<Rightarrow> int \<Rightarrow> (bool \<times> buffer \<times> 's data_options) option" where
  "aead_decrypt_payload now cc s0 pin buf work opt ad_start =
     (if b_len buf < int OPENVPN_AEAD_TAG_LENGTH then crypt_error buf opt
      else do {
        let tag = buf_load buf (b_offset buf) OPENVPN_AEAD_TAG_LENGTH;
        buf1 \<leftarrow> buf_advance buf (int OPENVPN_AEAD_TAG_LENGTH);
        if b_len buf1 < 1 then crypt_error buf1 opt
        else if \<not> buf_safe work (nat (b_len buf1 + cipher_ctx_block_size cc)) then crypt_error buf1 opt
        else do {
          let ad_size = b_offset buf1 - ad_start - int OPENVPN_AEAD_TAG_LENGTH;
          s1 \<leftarrow> cipher_ctx_update_ad cc s0 (buf_load buf1 ad_start (nat ad_size));
          case cipher_ctx_update cc s1 (buf_bytes buf1) of
            None \<Rightarrow> crypt_error buf1 opt
          | Some (p1, s2) \<Rightarrow> do {
              work1 \<leftarrow> put_output work p1;
              case cipher_ctx_final_check_tag cc s2 tag of
                None \<Rightarrow> crypt_error buf1 opt
              | Some (p2, _) \<Rightarrow> do {
                  work2 \<leftarrow> put_output work1 p2;
                  check_and_pass now (Some pin) buf1 work2 opt } } } })"

definition openvpn_decrypt_aead ::
    "int \<Rightarrow> buffer \<Rightarrow> buffer \<Rightarrow> 's data_options \<Rightarrow> frame \<Rightarrow> int \<Rightarrow> (bool \<times> buffer \<times> 's data_options) option" where
  "openvpn_decrypt_aead now buf work opt fr ad_start = do {
     let ctx = ctx_decrypt (key_ctx_bi opt);
     ASSERT (b_len buf > 0);
     cc \<leftarrow> kc_cipher ctx;
     ASSERT (0 \<le> ad_start \<and> ad_start \<le> b_offset buf);
     work1 \<leftarrow> buf_init work (headroom fr);
     ASSERT (packet_id_initialized (co_packet_id opt));
     let iv_len = cipher_ctx_iv_length cc;
     let packet_iv_len = nat iv_len - implicit_iv_len ctx;
     ASSERT (int (implicit_iv_len ctx) \<le> iv_len);
     if b_len buf + int (implicit_iv_len ctx) < iv_len then crypt_error buf opt
     else case cipher_ctx_reset cc (buf_load buf (b_offset buf) packet_iv_len @ take (implicit_iv_len ctx) (implicit_iv ctx)) of
            None \<Rightarrow> crypt_error buf opt
          | Some s0 \<Rightarrow>
              (case packet_id_read buf False of
                 (False, _, buf1) \<Rightarrow> crypt_error buf1 opt
               | (True, pin, buf1) \<Rightarrow> aead_decrypt_payload now cc s0 pin buf1 work1 opt ad_start) }"

text \<open>In the older format the steps give an error with the packet at that point, or their result.\<close>

definition v1_verify_hmac :: "hmac_ctx option \<Rightarrow> buffer \<Rightarrow> (buffer + buffer) option" where
  "v1_verify_hmac h buf =
     (case h of
        None \<Rightarrow> Some (Inr buf)
      | Some hm \<Rightarrow>
          (let hmac_len = hmac_ctx_size hm
           in if b_len buf < int hmac_len then Some (Inl buf)
              else if hmac_ctx_digest hm (buf_load buf (b_offset buf + int hmac_len) (nat (BLEN buf) - hmac_len)) \<noteq>
                      buf_load buf (b_offset buf) hmac_len then Some (Inl buf)
              else map_option Inr (buf_advance buf (int hmac_len))))"

definition v1_read_pin :: "'s cipher_ctx \<Rightarrow> bytes \<Rightarrow> buffer \<Rightarrow> 's data_options \<Rightarrow> (buffer + packet_id_net option \<times> buffer) option" where
  "v1_read_pin cc iv work opt =
     (case cipher_ctx_mode cc of
        MODE_CBC \<Rightarrow>
          if packet_id_initialized (co_packet_id opt)
          then (case packet_id_read work (long_form opt) of
                  (False, _, w) \<Rightarrow> Some (Inl w) | (True, pin, w) \<Rightarrow> Some (Inr (Some pin, w)))
          else Some (Inr (None, work))
      | MODE_OFB_CFB \<Rightarrow> do {
          ASSERT (packet_id_initialized (co_packet_id opt));
          b \<leftarrow> buf_set_read iv (length iv);
          (case packet_id_read b True of
             (False, _, _) \<Rightarrow> Some (Inl work) | (True, pin, _) \<Rightarrow> Some (Inr (Some pin, work))) }
      | _ \<Rightarrow> None)"

definition decrypt_v1_cipher ::
    "'s cipher_ctx \<Rightarrow> buffer \<Rightarrow> buffer \<Rightarrow> 's data_options \<Rightarrow> frame \<Rightarrow> (buffer + buffer \<times> packet_id_net option \<times> buffer) option" where
  "decrypt_v1_cipher cc buf work opt fr = do {
     let iv_size = nat (cipher_ctx_iv_length cc);
     work1 \<leftarrow> buf_init work (headroom fr);
     if b_len buf < int iv_size then Some (Inl buf)
     else do {
       let iv = buf_load buf (b_offset buf) iv_size;
       buf1 \<leftarrow> buf_advance buf (int iv_size);
       if b_len buf1 < 1 then Some (Inl buf1)
       else case cipher_ctx_reset cc iv of
              None \<Rightarrow> Some (Inl buf1)
            | Some s0 \<Rightarrow>
                if \<not> buf_safe work1 (nat (b_len buf1 + cipher_ctx_block_size cc)) then Some (Inl buf1)
                else case cipher_ctx_update cc s0 (buf_bytes buf1) of
                       None \<Rightarrow> Some (Inl buf1)
                     | Some (p1, s1) \<Rightarrow> do {
                         work2 \<leftarrow> put_output work1 p1;
                         case cipher_ctx_final cc s1 of
                           None \<Rightarrow> Some (Inl buf1)
                         | Some (p2, _) \<Rightarrow> do {
                             work3 \<leftarrow> put_output work2 p2;
                             r \<leftarrow> v1_read_pin cc iv work3 opt;
                             Some (case r of Inl _ \<Rightarrow> Inl buf1 | Inr (pin, w) \<Rightarrow> Inr (buf1, pin, w)) } } } }"

definition decrypt_v1_plain :: "buffer \<Rightarrow> 's data_options \<Rightarrow> (buffer + buffer \<times> packet_id_net option \<times> buffer) option" where
  "decrypt_v1_plain buf opt =
     Some (if packet_id_initialized (co_packet_id opt)
           then (case packet_id_read buf (long_form opt) of
                   (False, _, _) \<Rightarrow> Inl buf
                 | (True, pin, w) \<Rightarrow> Inr (buf, if co_flags opt AND CO_IGNORE_PACKET_ID \<noteq> 0 then None else Some pin, w))
           else Inr (buf, None, buf))"

definition openvpn_decrypt_v1 ::
    "int \<Rightarrow> buffer \<Rightarrow> buffer \<Rightarrow> 's data_options \<Rightarrow> frame \<Rightarrow> (bool \<times> buffer \<times> 's data_options) option" where
  "openvpn_decrypt_v1 now buf work opt fr =
     (if b_len buf > 0
      then do {
        let ctx = ctx_decrypt (key_ctx_bi opt);
        v \<leftarrow> v1_verify_hmac (kc_hmac ctx) buf;
        case v of
          Inl buf1 \<Rightarrow> crypt_error buf1 opt
        | Inr buf1 \<Rightarrow> do {
            d \<leftarrow> (case kc_cipher ctx of
                   Some cc \<Rightarrow> decrypt_v1_cipher cc buf1 work opt fr | None \<Rightarrow> decrypt_v1_plain buf1 opt);
            case d of
              Inl buf2 \<Rightarrow> crypt_error buf2 opt
            | Inr (buf2, pin, work1) \<Rightarrow> check_and_pass now pin buf2 work1 opt } }
      else Some (True, buf, opt))"

definition openvpn_decrypt ::
    "int \<Rightarrow> buffer \<Rightarrow> buffer \<Rightarrow> 's data_options option \<Rightarrow> frame \<Rightarrow> int \<Rightarrow> (bool \<times> buffer \<times> 's data_options option) option" where
  "openvpn_decrypt now buf work o_opt fr ad_start =
     (case o_opt of
        Some opt \<Rightarrow>
          if b_len buf > 0
          then map_option (\<lambda>(ok, b, opt'). (ok, b, Some opt'))
                 (if cipher_mode_aead (kc_cipher (ctx_decrypt (key_ctx_bi opt)))
                  then openvpn_decrypt_aead now buf work opt fr ad_start else openvpn_decrypt_v1 now buf work opt fr)
          else Some (True, buf, o_opt)
      | None \<Rightarrow> Some (True, buf, o_opt))"

definition OPENVPN_MAX_CIPHER_BLOCK_SIZE :: int where "OPENVPN_MAX_CIPHER_BLOCK_SIZE = 32"
definition OPENVPN_MAX_HMAC_SIZE :: int where "OPENVPN_MAX_HMAC_SIZE = 64"

definition crypto_max_overhead :: int where
  "crypto_max_overhead = int (packet_id_size True) + OPENVPN_MAX_IV_LENGTH + OPENVPN_MAX_CIPHER_BLOCK_SIZE +
     max_int OPENVPN_MAX_HMAC_SIZE (int OPENVPN_AEAD_TAG_LENGTH)"

section \<open>Rewriting\<close>

lemma ASSERT_simps [simp]: "ASSERT True = Some ()" "ASSERT False = None"
  by (simp_all add: ASSERT_def)

lemma ASSERT_Some [simp]: "ASSERT c = Some u \<longleftrightarrow> c"
  by (simp add: ASSERT_def)

lemma ASSERT_bind [simp]: "(ASSERT c \<bind> f) = (if c then f () else None)"
  by (simp add: ASSERT_def)

lemma buf_bytes_content: "buf_ok b \<Longrightarrow> buf_bytes b = buf_content b"
  by (simp add: buf_bytes_def buf_content_def BLEN_def buf_ok_valid)

lemma put_output_write:
  assumes "buf_ok b" "length xs < BUF_SIZE_MAX" "b_offset b + int (length (buf_content b)) + int (length xs) \<le> b_capacity b"
  shows "\<exists>b'. put_output b xs = Some b' \<and> buf_ok b' \<and> buf_content b' = buf_content b @ xs \<and>
    b_capacity b' = b_capacity b \<and> b_offset b' = b_offset b"
  using buf_write_fits [OF assms] buf_store_inc_len [OF assms(1,2)] length_buf_content [OF assms(1)] assms(3)
  by (simp add: put_output_def)

lemma check_and_pass_cases:
  assumes "crypto_check_replay opt (now, pin) = Some (ok, opt')"
  shows "check_and_pass now (Some pin) b w opt = (if ok then Some (True, w, opt') else crypt_error b opt')"
  using assms by (simp add: check_and_pass_def)

lemma check_replay_key: "crypto_check_replay opt e = Some (ok, opt') \<Longrightarrow> key_ctx_bi opt' = key_ctx_bi opt"
  by (auto simp: crypto_check_replay_def Let_def split: prod.splits option.splits bool.splits)

end
