(* ===== verification/Data_Channel.thy ===== *)
theory Data_Channel
  imports Data_Crypto
begin

text \<open>
  The data channel with an AEAD cipher: what the cipher is required to do, the bytes of a packet, the receiver as a
  filter that opens packets and accepts no packet id twice (an instance of \<open>packet_filter\<close>), and a sender and a receiver with a
  network between them.
\<close>

section \<open>What the cipher is required to do\<close>

text \<open>
  A packet sealed and opened through the calls of the library, in the order in which the data channel makes them.
\<close>

definition aead_seal :: "'s cipher_ctx \<Rightarrow> bytes \<Rightarrow> bytes \<Rightarrow> bytes \<Rightarrow> (bytes \<times> bytes) option" where
  "aead_seal cc iv ad pt = do {
     s0 \<leftarrow> cipher_ctx_reset cc iv;
     s1 \<leftarrow> cipher_ctx_update_ad cc s0 ad;
     (c1, s2) \<leftarrow> cipher_ctx_update cc s1 pt;
     (c2, s3) \<leftarrow> cipher_ctx_final cc s2;
     tag \<leftarrow> cipher_ctx_get_tag cc s3 OPENVPN_AEAD_TAG_LENGTH;
     Some (c1 @ c2, tag) }"

definition aead_open :: "'s cipher_ctx \<Rightarrow> bytes \<Rightarrow> bytes \<Rightarrow> bytes \<Rightarrow> bytes \<Rightarrow> bytes option" where
  "aead_open cc iv ad ct tag = do {
     s0 \<leftarrow> cipher_ctx_reset cc iv;
     s1 \<leftarrow> cipher_ctx_update_ad cc s0 ad;
     (p1, s2) \<leftarrow> cipher_ctx_update cc s1 ct;
     (p2, _) \<leftarrow> cipher_ctx_final_check_tag cc s2 tag;
     Some (p1 @ p2) }"

text \<open>
  The context of the peer opens what a context seals, a sealed packet is as long as the plain one, and its tag has 16
  bytes.
\<close>

definition aead_pair :: "'s cipher_ctx \<Rightarrow> 's cipher_ctx \<Rightarrow> bool" where
  "aead_pair e d \<longleftrightarrow> cipher_ctx_mode e = MODE_AEAD \<and> cipher_ctx_mode d = MODE_AEAD \<and>
     cipher_ctx_iv_length e = cipher_ctx_iv_length d \<and>
     OPENVPN_AEAD_MIN_IV_LEN \<le> cipher_ctx_iv_length e \<and> cipher_ctx_iv_length e \<le> OPENVPN_MAX_IV_LENGTH \<and>
     0 \<le> cipher_ctx_block_size e \<and> 0 \<le> cipher_ctx_block_size d \<and>
     (\<forall>iv ad pt. int (length iv) = cipher_ctx_iv_length e \<and> length pt < BUF_SIZE_MAX \<longrightarrow>
        (\<exists>ct tag. aead_seal e iv ad pt = Some (ct, tag) \<and> length ct = length pt \<and> length tag = OPENVPN_AEAD_TAG_LENGTH \<and>
           aead_open d iv ad ct tag = Some pt))"

text \<open>
  The output of a decryption fits its input and a block, and additional data is always taken, whatever bytes arrive.
\<close>

definition aead_bounded :: "'s cipher_ctx \<Rightarrow> bool" where
  "aead_bounded d \<longleftrightarrow> cipher_ctx_mode d = MODE_AEAD \<and>
     OPENVPN_AEAD_MIN_IV_LEN \<le> cipher_ctx_iv_length d \<and> cipher_ctx_iv_length d \<le> OPENVPN_MAX_IV_LENGTH \<and>
     0 \<le> cipher_ctx_block_size d \<and>
     (\<forall>iv s0 ad. cipher_ctx_reset d iv = Some s0 \<longrightarrow>
        (\<exists>s1. cipher_ctx_update_ad d s0 ad = Some s1 \<and>
           (\<forall>ct p1 s2. cipher_ctx_update d s1 ct = Some (p1, s2) \<longrightarrow>
              int (length p1) \<le> int (length ct) + cipher_ctx_block_size d \<and>
              (\<forall>tag p2 s3. cipher_ctx_final_check_tag d s2 tag = Some (p2, s3) \<longrightarrow>
                 int (length p1) + int (length p2) \<le> int (length ct) + cipher_ctx_block_size d))))"

section \<open>AEAD packets\<close>

text \<open>The IV starts with the packet id, and the implicit part fills the rest.\<close>

definition aead_ctx :: "'s key_ctx \<Rightarrow> 's cipher_ctx \<Rightarrow> bool" where
  "aead_ctx ctx cc \<longleftrightarrow> kc_cipher ctx = Some cc \<and> cipher_ctx_mode cc = MODE_AEAD \<and>
     OPENVPN_AEAD_MIN_IV_LEN \<le> cipher_ctx_iv_length cc \<and> cipher_ctx_iv_length cc \<le> OPENVPN_MAX_IV_LENGTH \<and>
     int (implicit_iv_len ctx) = cipher_ctx_iv_length cc - 4 \<and> implicit_iv_len ctx \<le> length (implicit_iv ctx)"

lemma update_implicit_iv_ctx:
  assumes "kc_cipher ctx = Some cc" "cipher_ctx_mode cc = MODE_AEAD"
    "OPENVPN_AEAD_MIN_IV_LEN \<le> cipher_ctx_iv_length cc" "cipher_ctx_iv_length cc \<le> OPENVPN_MAX_IV_LENGTH"
    "length (implicit_iv ctx) = nat OPENVPN_MAX_IV_LENGTH" "cipher_ctx_iv_length cc - 4 \<le> int (length key)"
  shows "\<exists>ctx'. key_ctx_update_implicit_iv ctx key = Some ctx' \<and> aead_ctx ctx' cc \<and>
    take (implicit_iv_len ctx') (implicit_iv ctx') = take (nat (cipher_ctx_iv_length cc - 4)) key"
  using assms by (auto simp: key_ctx_update_implicit_iv_def aead_ctx_def crypto_consts mem_write_def Let_def)

definition packet_iv :: "'s key_ctx \<Rightarrow> bytes \<Rightarrow> bytes" where
  "packet_iv ctx xs = xs @ take (implicit_iv_len ctx) (implicit_iv ctx)"

lemma length_packet_iv:
  "aead_ctx ctx cc \<Longrightarrow> length xs = 4 \<Longrightarrow> int (length (packet_iv ctx xs)) = cipher_ctx_iv_length cc"
  by (auto simp: aead_ctx_def packet_iv_def crypto_consts)

text \<open>What a sender puts on the wire: the bytes in front, the packet id, the tag and the ciphertext.\<close>

lemma packet_iv_buffer:
  assumes "aead_ctx ctx cc" "packet_id_send_update now p False = (True, p')"
  shows "\<exists>b iv1 iv2. buf_set_write (replicate (nat OPENVPN_MAX_IV_LENGTH) 0) (nat (cipher_ctx_iv_length cc)) = Some b \<and>
    packet_id_write now p b False False = (True, p', iv1) \<and>
    buf_write iv1 (take (implicit_iv_len ctx) (implicit_iv ctx)) = Some iv2 \<and> b_len iv2 = cipher_ctx_iv_length cc \<and>
    b_data iv2 = Some (packet_iv ctx (be32 (send_id p')))"
proof -
  have l: "12 \<le> cipher_ctx_iv_length cc" "nat (cipher_ctx_iv_length cc) \<le> 16"
    "int (length (take (implicit_iv_len ctx) (implicit_iv ctx))) = cipher_ctx_iv_length cc - 4"
    using assms(1) by (auto simp: aead_ctx_def crypto_consts)
  obtain b where b: "buf_set_write (replicate (nat OPENVPN_MAX_IV_LENGTH) 0) (nat (cipher_ctx_iv_length cc)) = Some b"
    "buf_ok b" "buf_content b = []" "b_offset b = 0" "b_capacity b = cipher_ctx_iv_length cc"
    using buf_set_write_content [of "nat (cipher_ctx_iv_length cc)" "replicate (nat OPENVPN_MAX_IV_LENGTH) 0"] l
    by (auto simp: BUF_SIZE_MAX_def crypto_consts)
  obtain iv1 where i1: "buf_write b (be32 (send_id p')) = Some iv1" "buf_ok iv1" "buf_content iv1 = be32 (send_id p')"
    "b_offset iv1 = 0" "b_capacity iv1 = cipher_ctx_iv_length cc"
    using buf_write_fits [OF b(2), of "be32 (send_id p')"] b l by (auto simp: BUF_SIZE_MAX_def)
  have lt: "length (take (implicit_iv_len ctx) (implicit_iv ctx)) < BUF_SIZE_MAX" using l unfolding BUF_SIZE_MAX_def by linarith
  obtain iv2 where i2: "buf_write iv1 (take (implicit_iv_len ctx) (implicit_iv ctx)) = Some iv2" "buf_ok iv2"
    "buf_content iv2 = packet_iv ctx (be32 (send_id p'))" "b_offset iv2 = 0" "b_capacity iv2 = cipher_ctx_iv_length cc"
    using buf_write_fits [OF i1(2) lt] i1 l by (auto simp: packet_iv_def)
  have len: "int (length (packet_iv ctx (be32 (send_id p')))) = cipher_ctx_iv_length cc"
    using length_packet_iv [OF assms(1)] by simp
  have "b_data iv2 = Some (packet_iv ctx (be32 (send_id p')))"
    using buf_full_data [OF i2(2,4)] i2(3,5) len by simp
  moreover have "b_len iv2 = cipher_ctx_iv_length cc" using length_buf_content [OF i2(2)] i2(3) len by simp
  ultimately show ?thesis using b(1) i1(1) i2(1) assms(2) by (simp add: packet_id_write_def Let_def)
qed

lemma encrypt_aead_seal:
  assumes ctx: "aead_ctx (ctx_encrypt (key_ctx_bi opt)) cc" and init: "packet_id_initialized (co_packet_id opt)"
    and up: "packet_id_send_update now (pid_send (co_packet_id opt)) False = (True, p')"
    and buf: "buf_ok buf" and work: "buf_ok work"
    and room: "b_offset work + b_len work + 20 + b_len buf + cipher_ctx_block_size cc \<le> b_capacity work"
      "b_len buf + cipher_ctx_block_size cc < int BUF_SIZE_MAX" "0 \<le> cipher_ctx_block_size cc"
    and seal: "aead_seal cc (packet_iv (ctx_encrypt (key_ctx_bi opt)) (be32 (send_id p'))) (buf_content work @ be32 (send_id p')) (buf_content buf) = Some (ct, tag)"
      "length ct = length (buf_content buf)" "length tag = OPENVPN_AEAD_TAG_LENGTH"
  shows "\<exists>out. openvpn_encrypt_aead now buf work opt = Some (out, set_send p' opt) \<and> buf_ok out \<and>
    buf_content out = buf_content work @ be32 (send_id p') @ tag @ ct \<and> b_offset out = b_offset work \<and> b_capacity out = b_capacity work"
proof -
  let ?ctx = "ctx_encrypt (key_ctx_bi opt)"
  let ?x = "be32 (send_id p')"
  let ?iv = "packet_iv ?ctx ?x"
  have c: "kc_cipher ?ctx = Some cc" "OPENVPN_AEAD_MIN_IV_LEN \<le> cipher_ctx_iv_length cc" "cipher_ctx_iv_length cc \<le> OPENVPN_MAX_IV_LENGTH"
    using ctx by (auto simp: aead_ctx_def)
  obtain b iv1 iv2 where iv: "buf_set_write (replicate (nat OPENVPN_MAX_IV_LENGTH) 0) (nat (cipher_ctx_iv_length cc)) = Some b"
    "packet_id_write now (pid_send (co_packet_id opt)) b False False = (True, p', iv1)"
    "buf_write iv1 (take (implicit_iv_len ?ctx) (implicit_iv ?ctx)) = Some iv2" "b_len iv2 = cipher_ctx_iv_length cc" "b_data iv2 = Some ?iv"
    using packet_iv_buffer [OF ctx up] by blast
  have n: "nat (cipher_ctx_iv_length cc) - implicit_iv_len ?ctx = 4" using ctx by (auto simp: aead_ctx_def crypto_consts)
  have tk: "take (nat (cipher_ctx_iv_length cc) - implicit_iv_len ?ctx) ?iv = ?x" by (simp add: n packet_iv_def)
  have bl: "b_len buf = int (length (buf_content buf))" "b_len work = int (length (buf_content work))"
    using length_buf_content buf work by metis+
  obtain work1 where w1: "buf_write work ?x = Some work1" "buf_ok work1" "buf_content work1 = buf_content work @ ?x"
    "b_offset work1 = b_offset work" "b_capacity work1 = b_capacity work"
    using buf_write_fits [OF work, of ?x] room bl by (auto simp: BUF_SIZE_MAX_def)
  have l1: "b_len work1 = int (length (buf_content work1))" using length_buf_content [OF w1(2)] by simp
  obtain work2 zs where w2: "buf_write_alloc work1 OPENVPN_AEAD_TAG_LENGTH = Some (b_offset work1 + int (length (buf_content work1)), work2)"
    "buf_ok work2" "buf_content work2 = buf_content work1 @ zs" "length zs = OPENVPN_AEAD_TAG_LENGTH"
    "b_offset work2 = b_offset work" "b_capacity work2 = b_capacity work"
    using buf_write_alloc_content [OF w1(2), of OPENVPN_AEAD_TAG_LENGTH] room w1 l1 bl
    by (auto simp: OPENVPN_AEAD_TAG_LENGTH_def BUF_SIZE_MAX_def)
  have l2: "b_len work2 = int (length (buf_content work2))" "BLEN work2 = b_len work2"
    using length_buf_content [OF w2(2)] buf_ok_valid [OF w2(2)] by (auto simp: BLEN_def)
  have len: "b_len work2 = b_len work + 20" using l2 w2 w1 bl by (simp add: OPENVPN_AEAD_TAG_LENGTH_def)
  have safe: "buf_safe work2 (nat (b_len buf + cipher_ctx_block_size cc))"
    using room w2 len buf_ok_valid [OF w2(2)] bl by (simp add: buf_safe_def buf_size_valid_def)
  have ad: "buf_load work2 (b_offset work2) (nat (BLEN work2) - OPENVPN_AEAD_TAG_LENGTH) = buf_content work @ ?x"
  proof -
    have "buf_load work2 (b_offset work2) (nat (BLEN work2) - OPENVPN_AEAD_TAG_LENGTH) =
        take (nat (b_len work2) - OPENVPN_AEAD_TAG_LENGTH) (buf_content work2)"
      by (simp add: l2(2) buf_content_def buf_load_def mem_read_def min_def split: option.splits)
    then show ?thesis using w2(3,4) w1(3) l2 by simp
  qed
  obtain s0 s1 c1 s2 c2 s3 where ci: "cipher_ctx_reset cc ?iv = Some s0" "cipher_ctx_update_ad cc s0 (buf_content work @ ?x) = Some s1"
    "cipher_ctx_update cc s1 (buf_content buf) = Some (c1, s2)" "cipher_ctx_final cc s2 = Some (c2, s3)"
    "cipher_ctx_get_tag cc s3 OPENVPN_AEAD_TAG_LENGTH = Some tag" "ct = c1 @ c2"
    using seal(1) by (auto simp: aead_seal_def bind_eq_Some_conv)
  have cl: "length c1 + length c2 = length (buf_content buf)" using ci(6) seal(2) by simp
  obtain work3 where w3: "put_output work2 c1 = Some work3" "buf_ok work3" "buf_content work3 = buf_content work2 @ c1"
    "b_capacity work3 = b_capacity work" "b_offset work3 = b_offset work"
    using put_output_write [OF w2(2), of c1] room bl l2 len w2 cl by fastforce
  obtain work4 where w4: "put_output work3 c2 = Some work4" "buf_ok work4" "buf_content work4 = buf_content work3 @ c2"
    "b_capacity work4 = b_capacity work" "b_offset work4 = b_offset work"
    using put_output_write [OF w3(2), of c2] room bl l2 len w2 w3 cl by fastforce
  let ?out = "buf_store work4 (b_offset work1 + int (length (buf_content work1))) tag"
  have c4: "buf_content work4 = buf_content work1 @ zs @ (c1 @ c2)" using w4 w3 w2 by simp
  have "buf_ok ?out" "buf_content ?out = buf_content work1 @ tag @ (c1 @ c2)"
    using buf_store_inside [OF w4(2) c4, of tag] seal(3) w2(4) w4(5) w1(4) by simp_all
  moreover have "openvpn_encrypt_aead now buf work opt = Some (?out, set_send p' opt)"
    using c iv init tk w1(1) w2(1) safe ad ci w3(1) w4(1) buf_bytes_content [OF buf]
    by (simp add: openvpn_encrypt_aead_def Let_def)
  ultimately show ?thesis using w4 w1(3) ci(6) by (auto simp: buf_store_def)
qed

text \<open>
  What a receiver does with any bytes: a packet that is too short or that the cipher does not open is dropped, and
  every other packet is checked for replay and passed on as its plain text.
\<close>

definition aead_ad :: "buffer \<Rightarrow> int \<Rightarrow> bytes" where
  "aead_ad buf ad_start = buf_load buf ad_start (nat (b_offset buf - ad_start)) @ take 4 (buf_content buf)"

definition packet_open :: "'s key_ctx \<Rightarrow> 's cipher_ctx \<Rightarrow> buffer \<Rightarrow> int \<Rightarrow> bytes option" where
  "packet_open ctx cc buf ad_start =
     (let c = buf_content buf
      in if length c \<le> 20 then None
         else aead_open cc (packet_iv ctx (take 4 c)) (aead_ad buf ad_start) (drop 20 c) (take 16 (drop 4 c)))"

definition packet_pin :: "buffer \<Rightarrow> packet_id_net" where
  "packet_pin buf = \<lparr>pin_id = of_be32 (take 4 (buf_content buf)), pin_time = 0\<rparr>"

lemma decrypt_aead_start:
  assumes "aead_ctx (ctx_decrypt (key_ctx_bi opt)) cc" "packet_id_initialized (co_packet_id opt)" "buf_ok buf" "buf_content buf \<noteq> []"
    "0 \<le> ad_start" "ad_start \<le> b_offset buf" "buf_init work (headroom fr) = Some w"
  shows "openvpn_decrypt_aead now buf work opt fr ad_start =
    (if length (buf_content buf) < 4 then crypt_error buf opt
     else case cipher_ctx_reset cc (packet_iv (ctx_decrypt (key_ctx_bi opt)) (take 4 (buf_content buf))) of
            None \<Rightarrow> crypt_error buf opt
          | Some s0 \<Rightarrow> aead_decrypt_payload now cc s0 (packet_pin buf) (snd (buf_read buf 4)) w opt ad_start)"
proof -
  let ?ctx = "ctx_decrypt (key_ctx_bi opt)"
  let ?c = "buf_content buf"
  have c: "kc_cipher ?ctx = Some cc" "nat (cipher_ctx_iv_length cc) - implicit_iv_len ?ctx = 4"
    "int (implicit_iv_len ?ctx) = cipher_ctx_iv_length cc - 4"
    using assms(1) by (auto simp: aead_ctx_def crypto_consts)
  have l: "b_len buf = int (length ?c)" using length_buf_content [OF assms(3)] by simp
  have d: "openvpn_decrypt_aead now buf work opt fr ad_start =
    (if b_len buf < 4 then crypt_error buf opt
     else case cipher_ctx_reset cc (buf_load buf (b_offset buf) 4 @ take (implicit_iv_len ?ctx) (implicit_iv ?ctx)) of
            None \<Rightarrow> crypt_error buf opt
          | Some s0 \<Rightarrow>
              (case packet_id_read buf False of
                 (False, _, buf1) \<Rightarrow> crypt_error buf1 opt
               | (True, pin, buf1) \<Rightarrow> aead_decrypt_payload now cc s0 pin buf1 w opt ad_start))"
    using assms(2,4-7) c l by (simp add: openvpn_decrypt_aead_def Let_def)
  show ?thesis
  proof (cases "4 \<le> length ?c")
    case True
    then have "buf_load buf (b_offset buf) 4 = take 4 ?c"
      using buf_load_take [OF assms(3)] by simp
    moreover obtain b1 where "buf_read buf 4 = (Some (take 4 ?c), b1)" using buf_read_content [OF assms(3) True] by blast
    ultimately show ?thesis using True d l by (simp add: packet_iv_def packet_id_read_def packet_pin_def split: option.splits)
  qed (use d l in simp)
qed

lemma decrypt_payload_open:
  fixes b w cc now pin opt ad s0 iv
  defines "c \<equiv> buf_content b" and "r \<equiv> aead_decrypt_payload now cc s0 pin b w opt ad"
    and "op \<equiv> aead_open cc iv (buf_load b ad (nat (b_offset b - ad))) (drop 16 (buf_content b)) (take 16 (buf_content b))"
  assumes b: "buf_ok b" and cc: "aead_bounded cc" "cipher_ctx_reset cc iv = Some s0" and w: "buf_ok w" "buf_content w = []"
    and room: "b_offset w + b_len b + cipher_ctx_block_size cc \<le> b_capacity w" "b_len b + cipher_ctx_block_size cc < int BUF_SIZE_MAX"
  shows "(length c \<le> 16 \<or> op = None) \<and> (\<exists>b'. r = crypt_error b' opt) \<or>
    length c > 16 \<and> (\<exists>pt b' w'. op = Some pt \<and> r = check_and_pass now (Some pin) b' w' opt \<and> buf_ok w' \<and> buf_content w' = pt)"
proof -
  have l: "b_len b = int (length c)" using length_buf_content [OF b] by (simp add: c_def)
  have blk: "0 \<le> cipher_ctx_block_size cc" using cc(1) by (simp add: aead_bounded_def)
  consider "length c < 16" | b1 where "16 \<le> length c" "buf_advance b 16 = Some b1" "buf_ok b1" "buf_content b1 = drop 16 c"
      "b_offset b1 = b_offset b + 16" "b_data b1 = b_data b"
    using buf_advance_content [OF b, of 16] by (fastforce simp: c_def)
  then show ?thesis
  proof cases
    case 1
    then have "r = crypt_error b opt" using l by (simp add: r_def aead_decrypt_payload_def OPENVPN_AEAD_TAG_LENGTH_def)
    then show ?thesis using 1 by auto
  next
    case 2
    have tag: "buf_load b (b_offset b) 16 = take 16 c"
      using buf_load_take [OF b] 2(1) by (simp add: c_def)
    have l1: "b_len b1 = int (length c) - 16" using length_buf_content [OF 2(3)] 2(1,4) by simp
    have safe: "buf_safe w (nat (b_len b1 + cipher_ctx_block_size cc))"
      using room l l1 blk 2(1) buf_ok_valid [OF w(1)] length_buf_content [OF w(1)] w(2) by (simp add: buf_safe_def buf_size_valid_def)
    obtain s1 where s1: "cipher_ctx_update_ad cc s0 (buf_load b ad (nat (b_offset b - ad))) = Some s1"
      "\<And>ct p1 s2. cipher_ctx_update cc s1 ct = Some (p1, s2) \<Longrightarrow> int (length p1) \<le> int (length ct) + cipher_ctx_block_size cc"
      "\<And>ct p1 s2 tag p2 s3. cipher_ctx_update cc s1 ct = Some (p1, s2) \<Longrightarrow> cipher_ctx_final_check_tag cc s2 tag = Some (p2, s3) \<Longrightarrow>
        int (length p1) + int (length p2) \<le> int (length ct) + cipher_ctx_block_size cc"
      using cc unfolding aead_bounded_def by meson
    have ad: "buf_load b1 ad (nat (b_offset b1 - ad - 16)) = buf_load b ad (nat (b_offset b - ad))"
      using 2 by (simp add: buf_load_def)
    have r: "r = (if b_len b1 < 1 then crypt_error b1 opt
        else case cipher_ctx_update cc s1 (drop 16 c) of
               None \<Rightarrow> crypt_error b1 opt
             | Some (p1, s2) \<Rightarrow> put_output w p1 \<bind> (\<lambda>w1.
                 case cipher_ctx_final_check_tag cc s2 (take 16 c) of
                   None \<Rightarrow> crypt_error b1 opt
                 | Some (p2, _) \<Rightarrow> put_output w1 p2 \<bind> (\<lambda>w2. check_and_pass now (Some pin) b1 w2 opt)))"
      using 2 tag safe ad s1(1) l buf_bytes_content [OF 2(3)]
      by (simp add: r_def aead_decrypt_payload_def OPENVPN_AEAD_TAG_LENGTH_def Let_def)
    have o: "op = cipher_ctx_update cc s1 (drop 16 c) \<bind> (\<lambda>(p1, s2). cipher_ctx_final_check_tag cc s2 (take 16 c) \<bind> (\<lambda>(p2, _). Some (p1 @ p2)))"
      using cc(2) s1(1) by (simp add: op_def aead_open_def c_def)
    consider "length c = 16" | "length c > 16" "cipher_ctx_update cc s1 (drop 16 c) = None"
      | p1 s2 where "length c > 16" "cipher_ctx_update cc s1 (drop 16 c) = Some (p1, s2)" "cipher_ctx_final_check_tag cc s2 (take 16 c) = None"
      | p1 s2 p2 s3 where "length c > 16" "cipher_ctx_update cc s1 (drop 16 c) = Some (p1, s2)" "cipher_ctx_final_check_tag cc s2 (take 16 c) = Some (p2, s3)"
      using 2(1) by (metis le_neq_implies_less old.prod.exhaust option.exhaust)
    then show ?thesis
    proof cases
      case 1 then show ?thesis using r l1 by auto
    next
      case 2 then show ?thesis using r o l1 by auto
    next
      case 3
      have "\<exists>w1. put_output w p1 = Some w1"
        using put_output_write [OF w(1), of p1] s1(2) [OF 3(2)] room l w(2) 3(1) by fastforce
      then show ?thesis using 3 r o l1 by auto
    next
      case 4
      have len: "int (length p1) + int (length p2) \<le> int (length c) - 16 + cipher_ctx_block_size cc"
        using s1(3) [OF 4(2,3)] 4(1) by simp
      obtain w1 where w1: "put_output w p1 = Some w1" "buf_ok w1" "buf_content w1 = p1" "b_capacity w1 = b_capacity w" "b_offset w1 = b_offset w"
        using put_output_write [OF w(1), of p1] len room l w(2) 4(1) by fastforce
      obtain w2 where w2: "put_output w1 p2 = Some w2" "buf_ok w2" "buf_content w2 = p1 @ p2"
        using put_output_write [OF w1(2), of p2] len room l w1 4(1) by fastforce
      then show ?thesis using 4 r o l1 w1 by auto
    qed
  qed
qed

text \<open>A key that is ready to receive, and a packet with the buffer it is decrypted into.\<close>

definition rx_key :: "'s cipher_ctx \<Rightarrow> 's data_options \<Rightarrow> bool" where
  "rx_key cc opt \<longleftrightarrow> aead_ctx (ctx_decrypt (key_ctx_bi opt)) cc \<and> aead_bounded cc \<and> packet_id_initialized (co_packet_id opt)"

definition rx_packet :: "int \<Rightarrow> frame \<Rightarrow> buffer \<Rightarrow> buffer \<Rightarrow> int \<Rightarrow> bool" where
  "rx_packet blk fr buf work ad_start \<longleftrightarrow> buf_ok buf \<and> 0 < b_len buf \<and> buf_ok work \<and> 0 \<le> headroom fr \<and> 0 \<le> ad_start \<and>
     ad_start \<le> b_offset buf \<and> headroom fr + b_len buf + blk \<le> b_capacity work \<and>
     b_len buf + blk < int BUF_SIZE_MAX"

lemma decrypt_aead_open:
  assumes key: "rx_key cc opt" and pkt: "rx_packet blk fr buf work ad_start" "cipher_ctx_block_size cc \<le> blk"
  shows "packet_open (ctx_decrypt (key_ctx_bi opt)) cc buf ad_start = None \<and>
      (\<exists>b. openvpn_decrypt_aead now buf work opt fr ad_start = crypt_error b opt) \<or>
    (\<exists>pt b w. packet_open (ctx_decrypt (key_ctx_bi opt)) cc buf ad_start = Some pt \<and>
      openvpn_decrypt_aead now buf work opt fr ad_start = check_and_pass now (Some (packet_pin buf)) b w opt \<and> buf_ok w \<and> buf_content w = pt)"
proof -
  let ?c = "buf_content buf"
  let ?iv = "packet_iv (ctx_decrypt (key_ctx_bi opt)) (take 4 ?c)"
  have k: "aead_ctx (ctx_decrypt (key_ctx_bi opt)) cc" "aead_bounded cc" "packet_id_initialized (co_packet_id opt)"
    "0 \<le> cipher_ctx_block_size cc"
    using key by (auto simp: rx_key_def aead_bounded_def)
  have p: "buf_ok buf" "0 \<le> headroom fr" "0 \<le> ad_start" "ad_start \<le> b_offset buf"
    "headroom fr + b_len buf + cipher_ctx_block_size cc \<le> b_capacity work" "b_len buf + cipher_ctx_block_size cc < int BUF_SIZE_MAX"
    using pkt unfolding rx_packet_def by linarith+
  have l: "b_len buf = int (length ?c)" using length_buf_content [OF p(1)] by simp
  have ne: "?c \<noteq> []" using l pkt(1) by (auto simp: rx_packet_def)
  obtain w where w: "buf_init work (headroom fr) = Some w" "buf_ok w" "buf_content w = []" "b_offset w = headroom fr" "b_capacity w = b_capacity work"
    using buf_init_ok [of work "headroom fr"] pkt p k(4) by (auto simp: rx_packet_def)
  note st = decrypt_aead_start [OF k(1,3) p(1) ne p(3,4) w(1), of now]
  show ?thesis
  proof (cases "length ?c < 4 \<or> cipher_ctx_reset cc ?iv = None")
    case True
    then have "openvpn_decrypt_aead now buf work opt fr ad_start = crypt_error buf opt"
      "packet_open (ctx_decrypt (key_ctx_bi opt)) cc buf ad_start = None"
      using st by (auto simp: packet_open_def aead_open_def Let_def)
    then show ?thesis by blast
  next
    case False
    then obtain s0 where s0: "cipher_ctx_reset cc ?iv = Some s0" by auto
    obtain b1 where b1: "buf_read buf 4 = (Some (take 4 ?c), b1)" "buf_ok b1" "buf_content b1 = drop 4 ?c"
      using buf_read_content [OF p(1), of 4] False by auto
    have f: "b_offset b1 = b_offset buf + 4" "b_data b1 = b_data buf" using buf_read_fields [OF b1(1)] by auto
    have l1: "b_len b1 = b_len buf - 4" using length_buf_content [OF b1(2)] b1(3) l False by simp
    have n: "nat (b_offset b1 - ad_start) = nat (b_offset buf - ad_start) + 4" "nat ad_start + nat (b_offset buf - ad_start) = nat (b_offset buf)"
      using f p by auto
    have ad: "buf_load b1 ad_start (nat (b_offset b1 - ad_start)) = aead_ad buf ad_start"
      using f(2) buf_load_take [OF p(1), of 4] False unfolding n(1) aead_ad_def
      by (auto simp: buf_load_def mem_read_split n(2) split: option.splits)
    have d: "openvpn_decrypt_aead now buf work opt fr ad_start = aead_decrypt_payload now cc s0 (packet_pin buf) b1 w opt ad_start"
      using st False s0 b1(1) by simp
    have r: "b_offset w + b_len b1 + cipher_ctx_block_size cc \<le> b_capacity w" "b_len b1 + cipher_ctx_block_size cc < int BUF_SIZE_MAX"
      using p(5,6) w(4,5) l1 by simp_all
    have o: "packet_open (ctx_decrypt (key_ctx_bi opt)) cc buf ad_start =
        (if length (buf_content b1) \<le> 16 then None
         else aead_open cc ?iv (aead_ad buf ad_start) (drop 16 (buf_content b1)) (take 16 (buf_content b1)))"
    proof -
      have "length (buf_content b1) \<le> 16 \<longleftrightarrow> length ?c \<le> 20" using b1(3) False by auto
      then show ?thesis using b1(3) by (simp add: packet_open_def Let_def)
    qed
    show ?thesis
      using decrypt_payload_open [OF b1(2) k(2) s0 w(2,3) r, where now = now and pin = "packet_pin buf" and opt = opt and ad = ad_start] unfolding ad d o
      by (elim disjE conjE exE) auto
  qed
qed

section \<open>The receiver as a replay filter\<close>

text \<open>
  A datagram that arrives, with the clock, the work buffer and the start of the authenticated data. A key is one with
  blocks of at most 32 bytes, which \<open>init_key_type\<close> makes sure of.
\<close>

record rx_event =
  rv_now :: int
  rv_buf :: buffer
  rv_work :: buffer
  rv_frame :: frame
  rv_ad :: int

definition rx_good :: "rx_event \<Rightarrow> bool" where
  "rx_good e \<longleftrightarrow> rv_now e > 1 \<and> rx_packet OPENVPN_MAX_CIPHER_BLOCK_SIZE (rv_frame e) (rv_buf e) (rv_work e) (rv_ad e)"

definition rx_seen :: "'s key_ctx \<Rightarrow> 's cipher_ctx \<Rightarrow> 's data_options \<Rightarrow> u32 set \<Rightarrow> bool" where
  "rx_seen ctx cc opt A \<longleftrightarrow> ctx_decrypt (key_ctx_bi opt) = ctx \<and> aead_ctx ctx cc \<and> aead_bounded cc \<and>
     cipher_ctx_block_size cc \<le> OPENVPN_MAX_CIPHER_BLOCK_SIZE \<and> check_seen opt (Pair 0 ` A)"

definition rx_id :: "rx_event \<Rightarrow> u32" where
  "rx_id e = pin_id (packet_pin (rv_buf e))"

definition rx_text :: "'s key_ctx \<Rightarrow> 's cipher_ctx \<Rightarrow> rx_event \<Rightarrow> bytes option" where
  "rx_text ctx cc e = packet_open ctx cc (rv_buf e) (rv_ad e)"

definition rx_step :: "'s data_options \<Rightarrow> rx_event \<Rightarrow> (bool \<times> buffer \<times> 's data_options) option" where
  "rx_step opt e =
     (case openvpn_decrypt (rv_now e) (rv_buf e) (rv_work e) (Some opt) (rv_frame e) (rv_ad e) of
        Some (ok, b, Some opt') \<Rightarrow> Some (ok, b, opt') | _ \<Rightarrow> None)"

lemma check_seen_initialized: "check_seen opt A \<Longrightarrow> packet_id_initialized (co_packet_id opt)"
  by (auto simp: check_seen_def rec_seen_def rec_ok_def packet_id_initialized_def)

lemma rx_step_cases:
  assumes "rx_seen ctx cc opt A" "rx_good e"
  shows "rx_text ctx cc e = None \<and> (\<exists>b. rx_step opt e = Some (False, crypt_failed b, opt)) \<or>
    (\<exists>pt ok opt' b w. rx_text ctx cc e = Some pt \<and> crypto_check_replay opt (rv_now e, packet_pin (rv_buf e)) = Some (ok, opt') \<and>
      rx_step opt e = Some (ok, if ok then w else crypt_failed b, opt') \<and> buf_ok w \<and> buf_content w = pt)"
proof -
  have k: "rx_key cc opt" "cipher_ctx_block_size cc \<le> OPENVPN_MAX_CIPHER_BLOCK_SIZE" "check_seen opt (Pair 0 ` A)"
    "ctx_decrypt (key_ctx_bi opt) = ctx" "cipher_mode_aead (kc_cipher (ctx_decrypt (key_ctx_bi opt)))"
    using assms(1) check_seen_initialized by (auto simp: rx_seen_def rx_key_def cipher_mode_aead_def aead_ctx_def)
  have p: "rx_packet OPENVPN_MAX_CIPHER_BLOCK_SIZE (rv_frame e) (rv_buf e) (rv_work e) (rv_ad e)" "b_len (rv_buf e) > 0"
    "check_good (rv_now e, packet_pin (rv_buf e))"
    using assms(2) by (auto simp: rx_good_def rx_packet_def check_good_def)
  have st: "rx_step opt e = openvpn_decrypt_aead (rv_now e) (rv_buf e) (rv_work e) opt (rv_frame e) (rv_ad e)"
    using k(5) p(2) by (auto simp: rx_step_def openvpn_decrypt_def split: option.splits)
  obtain ok opt' where c: "crypto_check_replay opt (rv_now e, packet_pin (rv_buf e)) = Some (ok, opt')"
    using crypto_check_replay_step [OF k(3) p(3)] by blast
  show ?thesis
    using decrypt_aead_open [OF k(1) p(1) k(2), of "rv_now e"] check_and_pass_cases [OF c] c
    unfolding st rx_text_def crypt_error_def k(4) by (elim disjE exE conjE) auto
qed

text \<open>Every step never ends in a fatal exit and accepts only a packet that opens and whose id was not accepted before.\<close>

lemma rx_step_law:
  assumes "rx_seen ctx cc opt A" "rx_good e"
  shows "\<exists>ok b opt'. rx_step opt e = Some (ok, b, opt') \<and> key_ctx_bi opt' = key_ctx_bi opt \<and>
    (ok \<longrightarrow> rx_id e \<notin> A \<and> rx_seen ctx cc opt' (insert (rx_id e) A) \<and> buf_ok b \<and> rx_text ctx cc e = Some (buf_content b)) \<and>
    (\<not> ok \<longrightarrow> rx_seen ctx cc opt' A \<and> b_len b = 0)"
proof -
  have s: "check_seen opt (Pair 0 ` A)" and g: "check_good (rv_now e, packet_pin (rv_buf e))"
    using assms by (auto simp: rx_seen_def rx_good_def check_good_def)
  have k: "check_key (rv_now e, packet_pin (rv_buf e)) = (0, rx_id e)" by (simp add: check_key_def rx_id_def packet_pin_def)
  show ?thesis
    using rx_step_cases [OF assms]
  proof (elim disjE exE conjE)
    fix b assume "rx_step opt e = Some (False, crypt_failed b, opt)"
    then show ?thesis using assms(1) by (auto simp: crypt_failed_def)
  next
    fix pt ok opt' b w
    assume t: "rx_text ctx cc e = Some pt" and c: "crypto_check_replay opt (rv_now e, packet_pin (rv_buf e)) = Some (ok, opt')"
      and st: "rx_step opt e = Some (ok, if ok then w else crypt_failed b, opt')" and w: "buf_ok w" "buf_content w = pt"
    have "(ok \<longrightarrow> (0, rx_id e) \<notin> Pair 0 ` A \<and> check_seen opt' (Pair 0 ` insert (rx_id e) A)) \<and> (\<not> ok \<longrightarrow> check_seen opt' (Pair 0 ` A))"
      using crypto_check_replay_step [OF s g] c k by auto
    then show ?thesis using assms(1) st t w check_replay_key [OF c] by (cases ok) (auto simp: rx_seen_def crypt_failed_def)
  qed
qed

interpretation dc: packet_filter rx_step buf_content rx_id rx_good "rx_seen ctx cc" "rx_text ctx cc" for ctx cc
  by unfold_locales (use rx_step_law in blast)

section \<open>A sender, a network and a receiver\<close>

record tx_event =
  tv_now :: int
  tv_buf :: buffer
  tv_work :: buffer

fun tx_run :: "(nat \<Rightarrow> bytes) \<Rightarrow> 's data_options \<Rightarrow> tx_event list \<Rightarrow> (buffer list \<times> 's data_options) option" where
  "tx_run prng opt [] = Some ([], opt)"
| "tx_run prng opt (e # es) =
     (case openvpn_encrypt (tv_now e) prng (tv_buf e) (tv_work e) (Some opt) of
        Some (b, Some opt') \<Rightarrow>
          (case tx_run prng opt' es of None \<Rightarrow> None | Some (bs, opt'') \<Rightarrow> Some (b # bs, opt''))
      | _ \<Rightarrow> None)"

text \<open>
  A packet to send, with the \<open>n\<close> bytes of its opcode in the work buffer, and the two ends of a key: the peer has the
  context that opens what this side seals, and the same implicit IV.
\<close>

definition tx_good :: "nat \<Rightarrow> tx_event \<Rightarrow> bool" where
  "tx_good n e \<longleftrightarrow> buf_ok (tv_buf e) \<and> 0 < b_len (tv_buf e) \<and> buf_ok (tv_work e) \<and> length (buf_content (tv_work e)) = n \<and>
     b_offset (tv_work e) + int n + 20 + b_len (tv_buf e) + OPENVPN_MAX_CIPHER_BLOCK_SIZE \<le> b_capacity (tv_work e) \<and>
     b_len (tv_buf e) + OPENVPN_MAX_CIPHER_BLOCK_SIZE < int BUF_SIZE_MAX"

definition key_pair :: "'s key_ctx \<Rightarrow> 's key_ctx \<Rightarrow> bool" where
  "key_pair t r \<longleftrightarrow> (\<exists>e d. aead_ctx t e \<and> aead_ctx r d \<and> aead_pair e d \<and>
     cipher_ctx_block_size e \<le> OPENVPN_MAX_CIPHER_BLOCK_SIZE \<and>
     take (implicit_iv_len t) (implicit_iv t) = take (implicit_iv_len r) (implicit_iv r))"

definition sealed :: "'s key_ctx \<Rightarrow> nat \<Rightarrow> bytes \<Rightarrow> u32 \<Rightarrow> buffer \<Rightarrow> bool" where
  "sealed r n pt i w \<longleftrightarrow> (\<exists>d front tag ct. kc_cipher r = Some d \<and> length front = n \<and> length tag = 16 \<and> ct \<noteq> [] \<and>
     buf_content w = front @ be32 i @ tag @ ct \<and> aead_open d (packet_iv r (be32 i)) (front @ be32 i) ct tag = Some pt)"

lemma send_update_short:
  assumes "send_id p \<noteq> PACKET_ID_MAX"
  shows "\<exists>p'. packet_id_send_update now p False = (True, p') \<and> send_id p' = send_id p + 1"
  using assms by (auto simp: packet_id_send_update_def Let_def)

lemma tx_step:
  assumes "key_pair (ctx_encrypt (key_ctx_bi opt)) r" "packet_id_initialized (co_packet_id opt)"
    "send_id (pid_send (co_packet_id opt)) \<noteq> PACKET_ID_MAX" "tx_good n e"
  shows "\<exists>w opt'. openvpn_encrypt (tv_now e) prng (tv_buf e) (tv_work e) (Some opt) = Some (w, Some opt') \<and>
    key_ctx_bi opt' = key_ctx_bi opt \<and> packet_id_initialized (co_packet_id opt') \<and>
    send_id (pid_send (co_packet_id opt')) = send_id (pid_send (co_packet_id opt)) + 1 \<and>
    sealed r n (buf_content (tv_buf e)) (send_id (pid_send (co_packet_id opt)) + 1) w \<and>
    buf_ok w \<and> b_offset w = b_offset (tv_work e) \<and> take n (buf_content w) = buf_content (tv_work e) \<and> b_capacity w = b_capacity (tv_work e) \<and>
    length (buf_content w) = n + 20 + length (buf_content (tv_buf e))"
proof -
  let ?t = "ctx_encrypt (key_ctx_bi opt)"
  obtain c d where k: "aead_ctx ?t c" "aead_ctx r d" "aead_pair c d" "cipher_ctx_block_size c \<le> OPENVPN_MAX_CIPHER_BLOCK_SIZE"
    "take (implicit_iv_len ?t) (implicit_iv ?t) = take (implicit_iv_len r) (implicit_iv r)"
    using assms(1) by (auto simp: key_pair_def)
  obtain p' where p: "packet_id_send_update (tv_now e) (pid_send (co_packet_id opt)) False = (True, p')"
    "send_id p' = send_id (pid_send (co_packet_id opt)) + 1"
    using send_update_short [OF assms(3)] by blast
  have g: "buf_ok (tv_buf e)" "0 < b_len (tv_buf e)" "buf_ok (tv_work e)" "length (buf_content (tv_work e)) = n"
    using assms(4) by (auto simp: tx_good_def)
  have bl: "b_len (tv_work e) = int n" "b_len (tv_buf e) = int (length (buf_content (tv_buf e)))"
    using length_buf_content [OF g(3)] length_buf_content [OF g(1)] g(4) by simp_all
  have blk: "0 \<le> cipher_ctx_block_size c" using k(3) by (simp add: aead_pair_def)
  have room: "b_offset (tv_work e) + b_len (tv_work e) + 20 + b_len (tv_buf e) + cipher_ctx_block_size c \<le> b_capacity (tv_work e)"
    "b_len (tv_buf e) + cipher_ctx_block_size c < int BUF_SIZE_MAX"
    using assms(4) k(4) bl by (auto simp: tx_good_def)
  let ?iv = "packet_iv ?t (be32 (send_id p'))"
  have iv: "int (length ?iv) = cipher_ctx_iv_length c" "?iv = packet_iv r (be32 (send_id p'))"
    using length_packet_iv [OF k(1), of "be32 (send_id p')"] k(5) by (simp_all add: packet_iv_def)
  have "length (buf_content (tv_buf e)) < BUF_SIZE_MAX" using room(2) bl(2) blk by linarith
  then obtain ct tag where s: "aead_seal c ?iv (buf_content (tv_work e) @ be32 (send_id p')) (buf_content (tv_buf e)) = Some (ct, tag)"
    "length ct = length (buf_content (tv_buf e))" "length tag = OPENVPN_AEAD_TAG_LENGTH"
    "aead_open d ?iv (buf_content (tv_work e) @ be32 (send_id p')) ct tag = Some (buf_content (tv_buf e))"
    using k(3) iv(1) unfolding aead_pair_def by blast
  obtain w where w: "openvpn_encrypt_aead (tv_now e) (tv_buf e) (tv_work e) opt = Some (w, set_send p' opt)"
    "buf_content w = buf_content (tv_work e) @ be32 (send_id p') @ tag @ ct" "buf_ok w" "b_offset w = b_offset (tv_work e)"
    "b_capacity w = b_capacity (tv_work e)"
    using encrypt_aead_seal [OF k(1) assms(2) p(1) g(1,3) room blk s(1-3)] by blast
  have m: "cipher_mode_aead (kc_cipher ?t)" using k(1) by (simp add: aead_ctx_def cipher_mode_aead_def)
  have "sealed r n (buf_content (tv_buf e)) (send_id p') w"
    unfolding sealed_def using k(2) w(2) s g(2,4) bl(2) iv(2)
    by (intro exI [of _ d] exI [of _ "buf_content (tv_work e)"] exI [of _ tag] exI [of _ ct])
      (auto simp: aead_ctx_def OPENVPN_AEAD_TAG_LENGTH_def)
  moreover have "length (buf_content w) = n + 20 + length (buf_content (tv_buf e))" "take n (buf_content w) = buf_content (tv_work e)"
    using w(2) s(2,3) g(4) by (simp_all add: OPENVPN_AEAD_TAG_LENGTH_def)
  ultimately show ?thesis
    using w g(2) m p(2) assms(2) by (auto simp: openvpn_encrypt_def set_send_def packet_id_initialized_def)
qed

lemma tx_run_sealed:
  assumes "key_pair (ctx_encrypt (key_ctx_bi opt)) r" "packet_id_initialized (co_packet_id opt)"
    "unat (send_id (pid_send (co_packet_id opt))) + length es < 2 ^ 32" "list_all (tx_good n) es"
  shows "\<exists>ws opt'. tx_run prng opt es = Some (ws, opt') \<and> length ws = length es \<and>
    (\<forall>i < length es. sealed r n (buf_content (tv_buf (es ! i))) (send_id (pid_send (co_packet_id opt)) + of_nat (Suc i)) (ws ! i))"
  using assms
proof (induction es arbitrary: opt)
  case Nil
  then show ?case by simp
next
  case (Cons e es)
  let ?id = "send_id (pid_send (co_packet_id opt))"
  have "unat ?id < 2 ^ 32 - 1" using Cons.prems(3) by simp
  then have m: "?id \<noteq> PACKET_ID_MAX" "?id + 1 \<noteq> 0" by (auto simp: PACKET_ID_MAX_def dest: word_unat_eq_iff [THEN iffD1] simp: unat_word_ariths)
  obtain w opt1 where st: "openvpn_encrypt (tv_now e) prng (tv_buf e) (tv_work e) (Some opt) = Some (w, Some opt1)"
    "key_ctx_bi opt1 = key_ctx_bi opt" "packet_id_initialized (co_packet_id opt1)"
    "send_id (pid_send (co_packet_id opt1)) = ?id + 1" "sealed r n (buf_content (tv_buf e)) (?id + 1) w"
    using tx_step [OF Cons.prems(1,2) m(1), of n e prng] Cons.prems(4) by auto
  have "unat (?id + 1) + length es < 2 ^ 32" using unat_inc_nz [OF m(2)] Cons.prems(3) by simp
  then obtain ws opt2 where r: "tx_run prng opt1 es = Some (ws, opt2)" "length ws = length es"
    "\<forall>i < length es. sealed r n (buf_content (tv_buf (es ! i))) (?id + 1 + of_nat (Suc i)) (ws ! i)"
    using Cons.IH [of opt1] Cons.prems st by auto
  have "sealed r n (buf_content (tv_buf ((e # es) ! i))) (?id + of_nat (Suc i)) ((w # ws) ! i)" if "i < length (e # es)" for i
    using that st(5) r(3) by (cases i) (simp_all add: ac_simps)
  then show ?case using st(1) r(1,2) by auto
qed

text \<open>A datagram of the network carries a packet that was sent when it has the same bytes from its opcode on.\<close>

definition carries :: "nat \<Rightarrow> buffer \<Rightarrow> rx_event \<Rightarrow> bool" where
  "carries n w e \<longleftrightarrow> b_offset (rv_buf e) - rv_ad e = int n \<and>
     buf_load (rv_buf e) (rv_ad e) n @ buf_content (rv_buf e) = buf_content w"

lemma carries_open:
  assumes "sealed r n pt i w" "carries n w e" "rx_good e" "kc_cipher r = Some d"
  shows "rx_text r d e = Some pt" "rx_id e = i"
proof -
  obtain front tag ct where s: "length front = n" "length tag = 16" "ct \<noteq> []" "buf_content w = front @ be32 i @ tag @ ct"
    "aead_open d (packet_iv r (be32 i)) (front @ be32 i) ct tag = Some pt"
    using assms(1,4) by (auto simp: sealed_def)
  have g: "buf_ok (rv_buf e)" "0 \<le> rv_ad e" using assms(3) by (auto simp: rx_good_def rx_packet_def)
  have o: "b_offset (rv_buf e) - rv_ad e = int n" using assms(2) by (simp add: carries_def)
  then have "nat (rv_ad e) + n \<le> nat (b_capacity (rv_buf e))" using g by (auto simp: buf_ok_def)
  then have "length (buf_load (rv_buf e) (rv_ad e) n) = n" using g(1) by (auto simp: buf_ok_def buf_load_def)
  then have c: "buf_load (rv_buf e) (rv_ad e) n = front" "buf_content (rv_buf e) = be32 i @ tag @ ct"
    using assms(2) s(1,4) by (auto simp: carries_def append_eq_append_conv)
  show "rx_id e = i" using c(2) by (simp add: rx_id_def packet_pin_def)
  have "length (buf_content (rv_buf e)) > 20" using c(2) s(2,3) by simp
  then show "rx_text r d e = Some pt"
    using c s o by (simp add: rx_text_def packet_open_def aead_ad_def)
qed

text \<open>A packet that is newer than all before is accepted, and the window then ends at it.\<close>

lemma check_newer_position:
  assumes "check_seen opt A" "now > 1" "seq_list (pid_rec (co_packet_id opt)) \<noteq> None" "rec_time (pid_rec (co_packet_id opt)) = pin_time pin"
    "rec_id (pid_rec (co_packet_id opt)) < pin_id pin"
  shows "\<exists>opt'. crypto_check_replay opt (now, pin) = Some (True, opt') \<and> seq_list (pid_rec (co_packet_id opt')) \<noteq> None \<and>
    rec_time (pid_rec (co_packet_id opt')) = pin_time pin \<and> rec_id (pid_rec (co_packet_id opt')) = pin_id pin"
proof -
  let ?r = "pid_rec (co_packet_id opt)"
  obtain r1 where r1: "packet_id_reap_test now ?r = Some r1" "rec_time r1 = rec_time ?r" "rec_id r1 = rec_id ?r"
    "seq_list r1 \<noteq> None" "rec_ok r1"
    using packet_id_reap_items [of ?r now] assms(1,3)
    by (cases "last_reap ?r + SEQ_REAP_INTERVAL \<le> now") (auto simp: packet_id_reap_test_def check_seen_def rec_seen_def)
  have "pin_id pin \<noteq> 0" using assms(5) by (metis word_not_simps(1))
  then have "pin_fresh r1 pin" using r1 assms(4,5) by (auto simp: pin_fresh_def)
  then obtain opt' r2 m where c: "crypto_check_replay opt (now, pin) = Some (True, opt')" "pid_rec (co_packet_id opt') = r2"
    "packet_id_add now (r1\<lparr>max_backtrack_stat := m\<rparr>) pin = Some r2"
    using check_known [OF r1(1,5) _ assms(2) r1(4)] by blast
  have ok: "rec_ok (r1\<lparr>max_backtrack_stat := m\<rparr>)" using r1(5) by simp
  obtain sl where sl: "seq_list (r1\<lparr>max_backtrack_stat := m\<rparr>) = Some sl" using r1(4) by auto
  have "unat (rec_id r1) < unat (pin_id pin)" using assms(5) r1(3) by (simp add: word_less_nat_alt)
  then have "unat (rec_id r2) = unat (pin_id pin)" "rec_time r2 = pin_time pin" "seq_list r2 \<noteq> None"
    using packet_id_add_items [OF ok sl assms(2), of pin] c(3) r1(2) assms(4) by auto
  then show ?thesis using c(1,2) by (auto simp: word_unat_eq_iff)
qed

definition rx_at :: "'s data_options \<Rightarrow> u32 \<Rightarrow> bool" where
  "rx_at opt i \<longleftrightarrow> seq_list (pid_rec (co_packet_id opt)) \<noteq> None \<and> rec_time (pid_rec (co_packet_id opt)) = 0 \<and> rec_id (pid_rec (co_packet_id opt)) = i"

lemma rx_step_newer:
  assumes "rx_seen r d opt A" "rx_good e" "rx_text r d e = Some pt" "rx_at opt i" "i < rx_id e"
  shows "\<exists>b opt' A'. rx_step opt e = Some (True, b, opt') \<and> buf_content b = pt \<and> rx_seen r d opt' A' \<and> rx_at opt' (rx_id e)"
proof -
  have k: "check_seen opt (Pair 0 ` A)" "rv_now e > 1" "pin_time (packet_pin (rv_buf e)) = 0" "pin_id (packet_pin (rv_buf e)) = rx_id e"
    using assms(1,2) by (auto simp: rx_seen_def rx_good_def packet_pin_def rx_id_def)
  obtain opt' where c: "crypto_check_replay opt (rv_now e, packet_pin (rv_buf e)) = Some (True, opt')" "rx_at opt' (rx_id e)"
    using check_newer_position [OF k(1,2), of "packet_pin (rv_buf e)"] assms(4,5) k(3,4) by (auto simp: rx_at_def)
  then obtain b where b: "rx_step opt e = Some (True, b, opt')" "buf_content b = pt"
    using rx_step_cases [OF assms(1,2)] assms(3) by auto
  then show ?thesis using rx_step_law [OF assms(1,2)] c(2) by auto
qed

lemma rx_run_in_order:
  assumes "rx_seen r d opt A" "rx_at opt i" "kc_cipher r = Some d" "list_all rx_good es" "length es = length ps" "unat i + length ps < 2 ^ 32"
    "\<forall>j < length ps. \<exists>w. sealed r n (ps ! j) (i + of_nat (Suc j)) w \<and> carries n w (es ! j)"
  shows "\<exists>opt'. run_packets rx_step buf_content opt es = Some (ps, opt')"
  using assms
proof (induction es arbitrary: opt A i ps)
  case Nil
  then show ?case by simp
next
  case (Cons e es)
  then obtain pt ps' where ps: "ps = pt # ps'" by (cases ps) auto
  have u: "unat (i + 1) = Suc (unat i)" using Cons.prems(6) ps by (simp add: unat_word_ariths)
  obtain w where w: "sealed r n pt (i + 1) w" "carries n w e" using Cons.prems(7) ps by force
  have g: "rx_good e" "list_all rx_good es" using Cons.prems(4) by auto
  have t: "rx_text r d e = Some pt" "rx_id e = i + 1" using carries_open [OF w g(1) Cons.prems(3)] by auto
  have "i < rx_id e" using u t(2) by (simp add: word_less_nat_alt)
  then obtain b opt1 A1 where st: "rx_step opt e = Some (True, b, opt1)" "buf_content b = pt" "rx_seen r d opt1 A1" "rx_at opt1 (i + 1)"
    using rx_step_newer [OF Cons.prems(1) g(1) t(1) Cons.prems(2)] t(2) by auto
  have "\<exists>w. sealed r n (ps' ! j) (i + 1 + of_nat (Suc j)) w \<and> carries n w (es ! j)" if "j < length ps'" for j
    using Cons.prems(7) [rule_format, of "Suc j"] that ps by (simp add: ac_simps)
  then obtain opt2 where "run_packets rx_step buf_content opt1 es = Some (ps', opt2)"
    using Cons.IH [OF st(3,4) Cons.prems(3) g(2), of ps'] Cons.prems(5,6) ps u by auto
  then show ?case using st ps by simp
qed

text \<open>Packets that open, with ids that differ, are packets that were sent, each once.\<close>

lemma delivered_sent:
  assumes "length ws = length ps"
    "\<forall>i < length ps. sealed r n (buf_content (tv_buf (ps ! i))) (id0 + of_nat (Suc i)) (ws ! i)" "kc_cipher r = Some d"
    "distinct (map rx_id acc)" "map (rx_text r d) acc = map Some outs"
    "\<forall>e \<in> set acc. rx_good e \<and> ((\<exists>w \<in> set ws. carries n w e) \<or> rx_text r d e = None)"
  shows "\<exists>idx. distinct idx \<and> set idx \<subseteq> {..<length ps} \<and> outs = map (\<lambda>i. buf_content (tv_buf (ps ! i))) idx"
proof -
  have "\<exists>i < length ps. rx_id e = id0 + of_nat (Suc i) \<and> rx_text r d e = Some (buf_content (tv_buf (ps ! i)))" if "e \<in> set acc" for e
  proof -
    have "rx_text r d e \<in> set (map Some outs)" using that unfolding assms(5) [symmetric] by simp
    with that have "\<exists>w \<in> set ws. carries n w e" "rx_good e" using assms(6) by auto
    then obtain w where "w \<in> set ws" "carries n w e" "rx_good e" by blast
    then show ?thesis using assms(1,2) carries_open [OF _ _ _ assms(3)] by (metis in_set_conv_nth)
  qed
  then obtain ix where ix: "\<And>e. e \<in> set acc \<Longrightarrow> ix e < length ps \<and> rx_id e = id0 + of_nat (Suc (ix e)) \<and>
      rx_text r d e = Some (buf_content (tv_buf (ps ! ix e)))"
    by metis
  have "distinct (map ix acc)" using assms(4) ix by (auto simp: distinct_map inj_on_def)
  moreover have "map Some outs = map Some (map (\<lambda>i. buf_content (tv_buf (ps ! i))) (map ix acc))"
    using ix unfolding assms(5) [symmetric] by simp
  then have "outs = map (\<lambda>i. buf_content (tv_buf (ps ! i))) (map ix acc)" by (rule map_injective) simp
  moreover have "set (map ix acc) \<subseteq> {..<length ps}" using ix by auto
  ultimately show ?thesis by blast
qed

section \<open>A cipher for the examples\<close>

text \<open>
  It adds a constant to each byte and its tag is a sum of all that was fed in, in the calls of the library.
\<close>

type_synonym toy_state = "bytes \<times> bytes \<times> bytes"

definition toy_tag :: "toy_state \<Rightarrow> nat \<Rightarrow> bytes" where
  "toy_tag s n = (case s of (iv, ad, ct) \<Rightarrow> take n (sum_list (iv @ ad @ ct) # replicate n 0))"

definition toy_seal :: "toy_state cipher_ctx" where
  "toy_seal = \<lparr>cipher_ctx_mode = MODE_AEAD, cipher_ctx_iv_length = 12, cipher_ctx_block_size = 1,
     cipher_ctx_reset = (\<lambda>iv. Some (iv, [], [])),
     cipher_ctx_update_ad = (\<lambda>(iv, ad, ct) x. Some (iv, ad @ x, ct)),
     cipher_ctx_update = (\<lambda>(iv, ad, ct) x. Some (map ((+) 90) x, (iv, ad, ct @ map ((+) 90) x))),
     cipher_ctx_final = (\<lambda>s. Some ([], s)),
     cipher_ctx_get_tag = (\<lambda>s n. Some (toy_tag s n)),
     cipher_ctx_final_check_tag = (\<lambda>s tag. None)\<rparr>"

definition toy_open :: "toy_state cipher_ctx" where
  "toy_open = toy_seal\<lparr>
     cipher_ctx_update := (\<lambda>(iv, ad, ct) x. Some (map (\<lambda>b. b - 90) x, (iv, ad, ct @ x))),
     cipher_ctx_final_check_tag := (\<lambda>s tag. if tag = toy_tag s (length tag) then Some ([], s) else None)\<rparr>"

lemma toy_pair: "aead_pair toy_seal toy_open"
proof -
  have "length (toy_tag s OPENVPN_AEAD_TAG_LENGTH) = OPENVPN_AEAD_TAG_LENGTH" for s
    by (cases s) (simp add: toy_tag_def OPENVPN_AEAD_TAG_LENGTH_def)
  then show ?thesis
    by (auto simp: aead_pair_def toy_seal_def toy_open_def aead_seal_def aead_open_def OPENVPN_AEAD_MIN_IV_LEN_def
        OPENVPN_MAX_IV_LENGTH_def map_idI)
qed

lemma toy_bounded: "aead_bounded toy_open"
  by (auto simp: aead_bounded_def toy_seal_def toy_open_def crypto_consts split: if_splits)

definition toy_ctx :: "toy_state cipher_ctx \<Rightarrow> toy_state key_ctx" where
  "toy_ctx cc = \<lparr>kc_cipher = Some cc, kc_hmac = None, implicit_iv = replicate 16 7, implicit_iv_len = 8\<rparr>"

lemma toy_ctx_aead: "aead_ctx (toy_ctx toy_seal) toy_seal" "aead_ctx (toy_ctx toy_open) toy_open"
  by (auto simp: aead_ctx_def toy_ctx_def toy_seal_def toy_open_def crypto_consts)

lemma toy_key_pair: "key_pair (toy_ctx toy_seal) (toy_ctx toy_open)"
  unfolding key_pair_def using toy_ctx_aead toy_pair
  by (intro exI [of _ toy_seal] exI [of _ toy_open]) (simp add: toy_ctx_def toy_seal_def OPENVPN_MAX_CIPHER_BLOCK_SIZE_def)

definition toy_pid :: packet_id where
  "toy_pid = packet_id_clear\<lparr>pid_rec := (pid_rec packet_id_clear)\<lparr>seq_list := Some (CIRC_LIST_ALLOC 0 8),
     seq_backtrack := 8, time_backtrack := 15, initialized := True\<rparr>\<rparr>"

definition toy_options :: "toy_state data_options" where
  "toy_options = \<lparr>co_packet_id = toy_pid, co_pid_persist = None, co_flags = 0,
     key_ctx_bi = \<lparr>ctx_encrypt = toy_ctx toy_seal, ctx_decrypt = toy_ctx toy_open, bi_initialized = True\<rparr>\<rparr>"

definition toy_packet :: tx_event where
  "toy_packet = \<lparr>tv_now = 100, tv_buf = \<lparr>b_capacity = 3, b_offset = 0, b_len = 3, b_data = Some [1, 2, 3]\<rparr>,
     tv_work = \<lparr>b_capacity = 72, b_offset = 4, b_len = 4, b_data = Some (replicate 4 0 @ [72, 0, 0, 5] @ replicate 64 0)\<rparr>\<rparr>"

definition toy_wire :: bytes where
  "toy_wire = [72, 0, 0, 5] @ [0, 0, 0, 1] @ (155 # replicate 15 0) @ [91, 92, 93]"

definition toy_arrival :: rx_event where
  "toy_arrival = \<lparr>rv_now = 101, rv_buf = \<lparr>b_capacity = 27, b_offset = 4, b_len = 23, b_data = Some toy_wire\<rparr>,
     rv_work = \<lparr>b_capacity = 64, b_offset = 0, b_len = 0, b_data = Some (replicate 64 0)\<rparr>,
     rv_frame = \<lparr>payload_size = 56, headroom = 4, tailroom = 4, mss_fix = 0, max_fragment_size = 0, tun_mtu = 1500, tun_max_mtu = 1600, extra_tun = 0\<rparr>,
     rv_ad = 0\<rparr>"

lemma toy_contents:
  "buf_ok (tv_buf toy_packet)" "buf_content (tv_buf toy_packet) = [1, 2, 3]" "buf_ok (tv_work toy_packet)"
  "buf_content (tv_work toy_packet) = [72, 0, 0, 5]"
  by (simp_all add: toy_packet_def buf_ok_def buf_content_def buf_load_def mem_read_def)

lemma toy_good: "tx_good 4 toy_packet" "rx_good toy_arrival"
  by (simp_all add: tx_good_def rx_good_def rx_packet_def toy_contents)
    (simp_all add: toy_packet_def toy_arrival_def toy_wire_def buf_ok_def OPENVPN_MAX_CIPHER_BLOCK_SIZE_def BUF_SIZE_MAX_def)

lemma toy_sealed: "aead_seal toy_seal (packet_iv (toy_ctx toy_seal) (be32 1)) ([72, 0, 0, 5] @ be32 1) [1, 2, 3] = Some ([91, 92, 93], 155 # replicate 15 0)"
  by (simp add: aead_seal_def toy_seal_def toy_tag_def toy_ctx_def packet_iv_def be32_def OPENVPN_AEAD_TAG_LENGTH_def sum_list_replicate)

lemma toy_wires: "\<exists>w tx'. tx_run prng toy_options [toy_packet] = Some ([w], tx') \<and> buf_content w = toy_wire"
proof -
  let ?p = "\<lparr>send_id = 1, send_time = 100\<rparr> :: packet_id_send"
  have o: "aead_ctx (ctx_encrypt (key_ctx_bi toy_options)) toy_seal" "packet_id_initialized (co_packet_id toy_options)"
    "packet_id_send_update (tv_now toy_packet) (pid_send (co_packet_id toy_options)) False = (True, ?p)"
    "cipher_mode_aead (kc_cipher (ctx_encrypt (key_ctx_bi toy_options)))"
    using toy_ctx_aead(1)
    by (simp_all add: toy_options_def packet_id_initialized_def toy_pid_def toy_packet_def packet_id_clear_def packet_id_send_update_def
        PACKET_ID_MAX_def cipher_mode_aead_def toy_ctx_def toy_seal_def)
  have l: "b_len (tv_buf toy_packet) = 3" "b_len (tv_work toy_packet) = 4" "b_offset (tv_work toy_packet) = 4" "b_capacity (tv_work toy_packet) = 72"
    "cipher_ctx_block_size toy_seal = 1"
    by (simp_all add: toy_packet_def toy_seal_def)
  have r: "b_offset (tv_work toy_packet) + b_len (tv_work toy_packet) + 20 + b_len (tv_buf toy_packet) + cipher_ctx_block_size toy_seal
      \<le> b_capacity (tv_work toy_packet)" "b_len (tv_buf toy_packet) + cipher_ctx_block_size toy_seal < int BUF_SIZE_MAX"
    "0 \<le> cipher_ctx_block_size toy_seal"
    by (simp_all add: l BUF_SIZE_MAX_def)
  have s: "aead_seal toy_seal (packet_iv (ctx_encrypt (key_ctx_bi toy_options)) (be32 (send_id ?p)))
      (buf_content (tv_work toy_packet) @ be32 (send_id ?p)) (buf_content (tv_buf toy_packet)) = Some ([91, 92, 93], 155 # replicate 15 0)"
    using toy_sealed by (simp add: toy_contents toy_options_def)
  obtain w where "openvpn_encrypt_aead (tv_now toy_packet) (tv_buf toy_packet) (tv_work toy_packet) toy_options = Some (w, set_send ?p toy_options)"
    "buf_content w = buf_content (tv_work toy_packet) @ be32 (send_id ?p) @ (155 # replicate 15 0) @ [91, 92, 93]"
    using encrypt_aead_seal [OF o(1-3) toy_contents(1,3) r s] by (auto simp: toy_contents OPENVPN_AEAD_TAG_LENGTH_def)
  then show ?thesis using o(4) l(1) by (simp add: openvpn_encrypt_def toy_contents toy_wire_def be32_def)
qed

lemma toy_carries: "buf_content w = toy_wire \<Longrightarrow> carries 4 w toy_arrival"
  by (simp add: carries_def toy_arrival_def toy_wire_def buf_load_def mem_read_def buf_content_def)

lemma toy_init: "packet_id_init 8 15 [] 0 = Some (co_packet_id toy_options)"
  by (simp add: packet_id_init_def toy_options_def toy_pid_def packet_id_clear_def pid_consts Let_def)

section \<open>Properties\<close>

text \<open>
  C5. The data channel delivers at most once. A sender encrypts fewer than \<open>2\<^sup>32\<close> packets with a key, and
  a receiver with the matching key and an empty replay window gets any sequence of datagrams: packets that were sent,
  lost, repeated and in any order, and any other bytes that the cipher does not open. Then encryption and
  decryption never end in a fatal exit, and what the receiver passes on are packets that were sent, each at most once.
\<close>

theorem data_channel_at_most_once:
  assumes keys: "key_pair (ctx_encrypt (key_ctx_bi tx)) r" "ctx_decrypt (key_ctx_bi rx) = r" "kc_cipher r = Some d" "aead_bounded d"
      "cipher_ctx_block_size d \<le> OPENVPN_MAX_CIPHER_BLOCK_SIZE"
    and tx: "packet_id_initialized (co_packet_id tx)" "unat (send_id (pid_send (co_packet_id tx))) + length ps < 2 ^ 32"
      "list_all (tx_good n) ps"
    and rx: "packet_id_init sb tb nm un = Some (co_packet_id rx)" "list_all rx_good es"
  shows "\<exists>ws tx'. tx_run prng tx ps = Some (ws, tx') \<and> length ws = length ps \<and>
    ((\<forall>e \<in> set es. (\<exists>w \<in> set ws. carries n w e) \<or> rx_text r d e = None) \<longrightarrow>
      (\<exists>outs rx' idx. run_packets rx_step buf_content rx es = Some (outs, rx') \<and> distinct idx \<and> set idx \<subseteq> {..<length ps} \<and>
        outs = map (\<lambda>i. buf_content (tv_buf (ps ! i))) idx))"
proof -
  let ?id = "send_id (pid_send (co_packet_id tx))"
  obtain ws tx' where ws: "tx_run prng tx ps = Some (ws, tx')" "length ws = length ps"
    "\<forall>i < length ps. sealed r n (buf_content (tv_buf (ps ! i))) (?id + of_nat (Suc i)) (ws ! i)"
    using tx_run_sealed [OF keys(1) tx] by blast
  have "rx_seen r d rx {}"
    using keys packet_id_init_seen [OF rx(1)] by (auto simp: rx_seen_def check_seen_def key_pair_def aead_ctx_def)
  then obtain outs rx' acc where o: "run_packets rx_step buf_content rx es = Some (outs, rx')" "subseq acc es" "distinct (map rx_id acc)"
    "map (rx_text r d) acc = map Some outs"
    using dc.run_passes [OF _ rx(2)] by blast
  have "\<exists>idx. distinct idx \<and> set idx \<subseteq> {..<length ps} \<and> outs = map (\<lambda>i. buf_content (tv_buf (ps ! i))) idx"
    if "\<forall>e \<in> set es. (\<exists>w \<in> set ws. carries n w e) \<or> rx_text r d e = None"
    using that delivered_sent [OF ws(2,3) keys(3) o(3,4)] list_emb_set [OF o(2)] rx(2) by (metis list_all_iff)
  then show ?thesis using ws(1,2) o(1) by (intro exI [of _ ws] exI [of _ tx']) simp
qed

theorem data_channel_at_most_once_witness:
  "\<exists>outs rx' idx. run_packets rx_step buf_content toy_options [toy_arrival, toy_arrival] = Some (outs, rx') \<and> distinct idx \<and>
     set idx \<subseteq> {..<1::nat} \<and> outs = map (\<lambda>i. [1, 2, 3]) idx"
proof -
  have "ctx_encrypt (key_ctx_bi toy_options) = toy_ctx toy_seal" "ctx_decrypt (key_ctx_bi toy_options) = toy_ctx toy_open"
    "kc_cipher (toy_ctx toy_open) = Some toy_open" "cipher_ctx_block_size toy_open \<le> OPENVPN_MAX_CIPHER_BLOCK_SIZE"
    "packet_id_initialized (co_packet_id toy_options)" "unat (send_id (pid_send (co_packet_id toy_options))) + length [toy_packet] < 2 ^ 32"
    by (simp_all add: toy_options_def toy_ctx_def toy_open_def toy_seal_def OPENVPN_MAX_CIPHER_BLOCK_SIZE_def toy_pid_def
        packet_id_clear_def packet_id_initialized_def)
  then obtain ws tx' where ws: "tx_run (\<lambda>n. []) toy_options [toy_packet] = Some (ws, tx')"
    "(\<forall>e \<in> set [toy_arrival, toy_arrival]. (\<exists>w \<in> set ws. carries 4 w e) \<or> rx_text (toy_ctx toy_open) toy_open e = None) \<longrightarrow>
      (\<exists>outs rx' idx. run_packets rx_step buf_content toy_options [toy_arrival, toy_arrival] = Some (outs, rx') \<and> distinct idx \<and>
        set idx \<subseteq> {..<length [toy_packet]} \<and> outs = map (\<lambda>i. buf_content (tv_buf ([toy_packet] ! i))) idx)"
    using data_channel_at_most_once [of toy_options "toy_ctx toy_open" toy_options toy_open "[toy_packet]" 4 8 15 "[]" 0 "[toy_arrival, toy_arrival]" "\<lambda>n. []"]
      toy_key_pair toy_bounded toy_good toy_init by auto
  obtain w where "ws = [w]" "buf_content w = toy_wire" using toy_wires [of "\<lambda>n. []"] ws(1) by auto
  then have "\<forall>e \<in> set [toy_arrival, toy_arrival]. (\<exists>w \<in> set ws. carries 4 w e) \<or> rx_text (toy_ctx toy_open) toy_open e = None"
    using toy_carries by simp
  then obtain outs rx' idx where r: "run_packets rx_step buf_content toy_options [toy_arrival, toy_arrival] = Some (outs, rx')" "distinct idx"
    "set idx \<subseteq> {..<1}" "outs = map (\<lambda>i. buf_content (tv_buf ([toy_packet] ! i))) idx"
    using ws(2) by auto
  have "outs = map (\<lambda>i. [1, 2, 3]) idx" unfolding r(4) using r(3) by (intro map_cong) (auto simp: toy_contents)
  then show ?thesis using r by blast
qed

text \<open>
  C18. The data channel delivers what arrives in order. A receiver with a replay window that stands at the sender's last
  packet id gets the packets of the sender one after another and passes on exactly these packets.
\<close>

theorem data_channel_in_order:
  assumes keys: "key_pair (ctx_encrypt (key_ctx_bi tx)) r" "rx_seen r d rx A" "rx_at rx (send_id (pid_send (co_packet_id tx)))"
    and tx: "packet_id_initialized (co_packet_id tx)" "unat (send_id (pid_send (co_packet_id tx))) + length ps < 2 ^ 32"
      "list_all (tx_good n) ps"
    and rx: "list_all rx_good es" "length es = length ps"
  shows "\<exists>ws tx'. tx_run prng tx ps = Some (ws, tx') \<and> length ws = length ps \<and>
    ((\<forall>i < length ps. carries n (ws ! i) (es ! i)) \<longrightarrow>
      (\<exists>rx'. run_packets rx_step buf_content rx es = Some (map (\<lambda>p. buf_content (tv_buf p)) ps, rx')))"
proof -
  obtain ws tx' where ws: "tx_run prng tx ps = Some (ws, tx')" "length ws = length ps"
    "\<forall>i < length ps. sealed r n (buf_content (tv_buf (ps ! i))) (send_id (pid_send (co_packet_id tx)) + of_nat (Suc i)) (ws ! i)"
    using tx_run_sealed [OF keys(1) tx] by blast
  have d: "kc_cipher r = Some d" using keys(2) by (simp add: rx_seen_def aead_ctx_def)
  have "\<exists>rx'. run_packets rx_step buf_content rx es = Some (map (\<lambda>p. buf_content (tv_buf p)) ps, rx')"
    if "\<forall>i < length ps. carries n (ws ! i) (es ! i)"
    using rx_run_in_order [OF keys(2,3) d rx(1), of "map (\<lambda>p. buf_content (tv_buf p)) ps" n] that ws(3) rx(2) tx(2) by auto
  then show ?thesis using ws(1,2) by (intro exI [of _ ws] exI [of _ tx']) simp
qed

theorem data_channel_in_order_witness:
  "\<exists>rx'. run_packets rx_step buf_content toy_options [toy_arrival] = Some ([[1, 2, 3]], rx')"
proof -
  have k: "ctx_encrypt (key_ctx_bi toy_options) = toy_ctx toy_seal" "ctx_decrypt (key_ctx_bi toy_options) = toy_ctx toy_open"
    "cipher_ctx_block_size toy_open \<le> OPENVPN_MAX_CIPHER_BLOCK_SIZE" "packet_id_initialized (co_packet_id toy_options)"
    "unat (send_id (pid_send (co_packet_id toy_options))) + length [toy_packet] < 2 ^ 32"
    "rx_at toy_options (send_id (pid_send (co_packet_id toy_options)))"
    by (simp_all add: toy_options_def toy_ctx_def toy_open_def toy_seal_def OPENVPN_MAX_CIPHER_BLOCK_SIZE_def toy_pid_def
        packet_id_clear_def packet_id_initialized_def rx_at_def)
  have "rx_seen (toy_ctx toy_open) toy_open toy_options {}"
    using k(2,3) toy_ctx_aead(2) toy_bounded packet_id_init_seen [OF toy_init] by (simp add: rx_seen_def check_seen_def)
  then obtain ws tx' where ws: "tx_run (\<lambda>n. []) toy_options [toy_packet] = Some (ws, tx')"
    "(\<forall>i < length [toy_packet]. carries 4 (ws ! i) ([toy_arrival] ! i)) \<longrightarrow>
      (\<exists>rx'. run_packets rx_step buf_content toy_options [toy_arrival] = Some (map (\<lambda>p. buf_content (tv_buf p)) [toy_packet], rx'))"
    using data_channel_in_order [of toy_options "toy_ctx toy_open" toy_open toy_options "{}" "[toy_packet]" 4 "[toy_arrival]" "\<lambda>n. []"]
      toy_key_pair k toy_good by auto
  obtain w where "ws = [w]" "buf_content w = toy_wire" using toy_wires [of "\<lambda>n. []"] ws(1) by auto
  then show ?thesis using ws(2) toy_carries toy_contents(2) by simp
qed

end
