(* ===== verification/Reliable.thy ===== *)
theory Reliable
  imports Packet_Id
begin

text \<open>
  The reliability layer of the control channel (\<open>openvpn/src/openvpn/reliable.c\<close>, \<open>reliable.h\<close>,
  \<open>session_id.h\<close>), the block of \<open>ssl.c\<close> that receives a control packet, and the calls of \<open>ssl.c\<close> that
  take a packet out of the receive buffer.

  A pointer to the buffer of an entry is the index of that entry. The global clock \<open>now\<close> is an
  argument. \<open>size\<close>, \<open>len\<close> and \<open>n_acks\<close> are natural numbers; packet ids are 32-bit words and every
  comparison on them is the one of the source. Outer \<^term>\<open>None\<close> is a failed \<open>ASSERT\<close>. Debug output is
  not modelled.
\<close>

definition RELIABLE_ACK_SIZE :: nat where "RELIABLE_ACK_SIZE = 8"
definition RELIABLE_CAPACITY :: nat where "RELIABLE_CAPACITY = 12"
definition N_ACK_RETRANSMIT :: nat where "N_ACK_RETRANSMIT = 3"
definition SID_SIZE :: nat where "SID_SIZE = 8"
definition BIG_TIMEOUT :: int where "BIG_TIMEOUT = 60 * 60 * 24 * 7"
definition P_ACK_V1 :: int where "P_ACK_V1 = 5"

lemmas rel_consts = RELIABLE_ACK_SIZE_def RELIABLE_CAPACITY_def N_ACK_RETRANSMIT_def SID_SIZE_def

record reliable_ack =
  ack_len :: nat
  ack_packet_id :: "u32 list"

record reliable_entry =
  e_active :: bool
  e_timeout :: int
  e_next_try :: int
  e_packet_id :: u32
  e_n_acks :: nat
  e_opcode :: int
  e_buf :: buffer

record reliable =
  r_size :: nat
  r_initial_timeout :: int
  r_packet_id :: u32
  r_offset :: int
  r_hold :: bool
  r_array :: "reliable_entry list"

section \<open>Session ids\<close>

definition session_id_equal :: "bytes \<Rightarrow> bytes \<Rightarrow> bool" where
  "session_id_equal sid1 sid2 \<longleftrightarrow> take SID_SIZE sid1 = take SID_SIZE sid2"

definition session_id_defined :: "bytes \<Rightarrow> bool" where
  "session_id_defined sid \<longleftrightarrow> take SID_SIZE sid \<noteq> replicate SID_SIZE 0"

definition session_id_read :: "buffer \<Rightarrow> bytes option \<times> buffer" where
  "session_id_read buf = buf_read buf SID_SIZE"

definition session_id_write :: "bytes \<Rightarrow> buffer \<Rightarrow> buffer option" where
  "session_id_write sid buf = buf_write buf (take SID_SIZE sid)"

section \<open>Comparison of packet ids\<close>

definition subtract_pid :: "u32 \<Rightarrow> u32 \<Rightarrow> u32" where
  "subtract_pid test base = test - base"

definition reliable_pid_in_range1 :: "u32 \<Rightarrow> u32 \<Rightarrow> u32 \<Rightarrow> bool" where
  "reliable_pid_in_range1 test base extent \<longleftrightarrow> subtract_pid test base < extent"

definition reliable_pid_in_range2 :: "u32 \<Rightarrow> u32 \<Rightarrow> u32 \<Rightarrow> bool" where
  "reliable_pid_in_range2 test base extent \<longleftrightarrow>
     (if base + extent \<ge> base then test < base + extent
      else test + 0x80000000 < (base + 0x80000000) + extent)"

definition reliable_pid_min :: "u32 \<Rightarrow> u32 \<Rightarrow> bool" where
  "reliable_pid_min p1 p2 \<longleftrightarrow> \<not> reliable_pid_in_range1 p1 p2 0x80000000"

section \<open>Acknowledgement records\<close>

definition reliable_ack_packet_id_present :: "reliable_ack \<Rightarrow> u32 \<Rightarrow> bool" where
  "reliable_ack_packet_id_present ack pid \<longleftrightarrow>
     list_ex (\<lambda>i. ack_packet_id ack ! i = pid) [0..<ack_len ack]"

definition reliable_ack_empty :: "reliable_ack \<Rightarrow> bool" where
  "reliable_ack_empty ack \<longleftrightarrow> ack_len ack = 0"

definition reliable_ack_outstanding :: "reliable_ack \<Rightarrow> nat" where
  "reliable_ack_outstanding ack = ack_len ack"

definition reliable_ack_read_packet_id :: "buffer \<Rightarrow> u32 option \<times> buffer" where
  "reliable_ack_read_packet_id buf =
     (case buf_read buf 4 of
        (Some net_pid, buf') \<Rightarrow> (Some (of_be32 net_pid), buf')
      | (None, buf') \<Rightarrow> (None, buf'))"

definition ack_push :: "reliable_ack \<Rightarrow> u32 \<Rightarrow> reliable_ack" where
  "ack_push ack pid =
     ack\<lparr>ack_packet_id := (ack_packet_id ack)[ack_len ack := pid], ack_len := ack_len ack + 1\<rparr>"

definition reliable_ack_acknowledge_packet_id :: "reliable_ack \<Rightarrow> u32 \<Rightarrow> bool \<times> reliable_ack" where
  "reliable_ack_acknowledge_packet_id ack pid =
     (if \<not> reliable_ack_packet_id_present ack pid \<and> ack_len ack < RELIABLE_ACK_SIZE
      then (True, ack_push ack pid) else (False, ack))"

text \<open>The loop of \<open>reliable_ack_parse\<close>, with the number of ids still to read.\<close>

fun ack_parse_loop :: "nat \<Rightarrow> buffer \<Rightarrow> reliable_ack \<Rightarrow> bool \<times> buffer \<times> reliable_ack" where
  "ack_parse_loop 0 buf ack = (True, buf, ack)"
| "ack_parse_loop (Suc n) buf ack =
     (case buf_read buf 4 of
        (None, buf') \<Rightarrow> (False, buf', ack)
      | (Some net_pid, buf') \<Rightarrow>
          if ack_len ack \<ge> RELIABLE_ACK_SIZE then (False, buf', ack)
          else ack_parse_loop n buf' (ack_push ack (of_be32 net_pid)))"

text \<open>The last component is the remote session id; it is left as it was when the record is empty.\<close>

definition reliable_ack_parse ::
  "buffer \<Rightarrow> reliable_ack \<Rightarrow> bytes \<Rightarrow> bool \<times> buffer \<times> reliable_ack \<times> bytes" where
  "reliable_ack_parse buf ack0 sid0 =
     (let ack = ack0\<lparr>ack_len := 0\<rparr>
      in case buf_read buf 1 of
           (None, buf') \<Rightarrow> (False, buf', ack, sid0)
         | (Some c, buf') \<Rightarrow>
             (let count = unat (hd c)
              in case ack_parse_loop count buf' ack of
                   (False, buf'', ack') \<Rightarrow> (False, buf'', ack', sid0)
                 | (True, buf'', ack') \<Rightarrow>
                     if count \<noteq> 0
                     then (case session_id_read buf'' of
                             (None, b3) \<Rightarrow> (False, b3, ack', sid0)
                           | (Some sid, b3) \<Rightarrow> (True, b3, ack', sid))
                     else (True, buf'', ack', sid0)))"

text \<open>
  \<open>sid0\<close> stands for the uninitialised local \<open>session_id_remote\<close>; it is only looked at after it has
  been read.
\<close>

definition reliable_ack_read ::
  "reliable_ack \<Rightarrow> buffer \<Rightarrow> bytes \<Rightarrow> bytes \<Rightarrow> bool \<times> buffer \<times> reliable_ack" where
  "reliable_ack_read ack buf sid sid0 =
     (case reliable_ack_parse buf ack sid0 of
        (False, buf', ack', _) \<Rightarrow> (False, buf', ack')
      | (True, buf', ack', remote) \<Rightarrow>
          if ack_len ack' \<ge> 1 \<and> (\<not> session_id_defined remote \<or> \<not> session_id_equal remote sid)
          then (False, buf', ack') else (True, buf', ack'))"

text \<open>The inner loop of \<open>copy_acks_to_mru\<close>: shift from index \<open>j\<close> until \<open>pid\<close> is found again.\<close>

fun mru_shift :: "u32 \<Rightarrow> nat \<Rightarrow> nat \<Rightarrow> u32 \<Rightarrow> u32 list \<Rightarrow> bool \<times> u32 \<times> u32 list" where
  "mru_shift pid j 0 move a = (False, move, a)"
| "mru_shift pid j (Suc n) move a =
     (let tmp = a ! j; a' = a[j := move]
      in if tmp = pid then (True, tmp, a') else mru_shift pid (j + 1) n tmp a')"

definition mru_insert :: "u32 \<Rightarrow> reliable_ack \<Rightarrow> reliable_ack" where
  "mru_insert pid m0 =
     (let m = (if ack_len m0 = 0
               then m0\<lparr>ack_len := 1, ack_packet_id := (ack_packet_id m0)[0 := pid]\<rparr> else m0)
      in case mru_shift pid 0 (ack_len m) pid (ack_packet_id m) of
           (idfound, move, a) \<Rightarrow>
             if \<not> idfound \<and> ack_len m < RELIABLE_ACK_SIZE
             then m\<lparr>ack_packet_id := a[ack_len m := move], ack_len := ack_len m + 1\<rparr>
             else m\<lparr>ack_packet_id := a\<rparr>)"

fun mru_loop :: "nat \<Rightarrow> u32 list \<Rightarrow> reliable_ack \<Rightarrow> reliable_ack" where
  "mru_loop 0 ids m = m"
| "mru_loop (Suc i) ids m = mru_loop i ids (mru_insert (ids ! i) m)"

definition copy_acks_to_mru :: "reliable_ack \<Rightarrow> reliable_ack \<Rightarrow> nat \<Rightarrow> reliable_ack option" where
  "copy_acks_to_mru ack mru n =
     (if ack_len ack \<ge> n then Some (mru_loop n (ack_packet_id ack) mru) else None)"

definition ACK_SIZE :: "nat \<Rightarrow> nat" where
  "ACK_SIZE n = 1 + (if n \<noteq> 0 then SID_SIZE else 0) + 4 * n"

fun ack_write_ids :: "u32 list \<Rightarrow> buffer \<Rightarrow> buffer option" where
  "ack_write_ids [] sub = Some sub"
| "ack_write_ids (pid # ps) sub =
     (case buf_write sub (be32 pid) of None \<Rightarrow> None | Some sub' \<Rightarrow> ack_write_ids ps sub')"

text \<open>The loop that moves the ids that were not sent to the front of \<open>ack\<close>.\<close>

definition ack_remove_first :: "nat \<Rightarrow> reliable_ack \<Rightarrow> reliable_ack" where
  "ack_remove_first n ack =
     (if n = 0 then ack
      else ack\<lparr>ack_packet_id := mem_write (ack_packet_id ack) 0
                 (mem_read (ack_packet_id ack) n (ack_len ack - n)),
               ack_len := ack_len ack - n\<rparr>)"

definition reliable_ack_write ::
  "reliable_ack \<Rightarrow> reliable_ack \<Rightarrow> buffer \<Rightarrow> bytes \<Rightarrow> nat \<Rightarrow> bool \<Rightarrow>
   (bool \<times> reliable_ack \<times> reliable_ack \<times> buffer) option" where
  "reliable_ack_write ack mru buf sid mx prepend =
     (let n = min (ack_len ack) mx
      in case copy_acks_to_mru ack mru n of
           None \<Rightarrow> None
         | Some mru' \<Rightarrow>
             (let total_acks = min mx (ack_len mru')
              in case buf_sub buf (int (ACK_SIZE total_acks)) prepend of
                   None \<Rightarrow> Some (False, ack, mru', buf)
                 | Some (p, sub, buf') \<Rightarrow>
                     (case buf_write_u8 sub (of_nat total_acks) of
                        None \<Rightarrow> None
                      | Some sub1 \<Rightarrow>
                          (case ack_write_ids (take total_acks (ack_packet_id mru')) sub1 of
                             None \<Rightarrow> None
                           | Some sub2 \<Rightarrow>
                               (case (if total_acks = 0 then Some sub2
                                      else if session_id_defined sid then session_id_write sid sub2
                                      else None) of
                                  None \<Rightarrow> None
                                | Some sub3 \<Rightarrow>
                                    Some (True, ack_remove_first n ack, mru', buf_sub_commit buf' p sub3))))))"

section \<open>The packet store\<close>

definition entry :: "reliable \<Rightarrow> nat \<Rightarrow> reliable_entry" where
  "entry rel i = r_array rel ! i"

definition set_entry :: "reliable \<Rightarrow> nat \<Rightarrow> reliable_entry \<Rightarrow> reliable" where
  "set_entry rel i e = rel\<lparr>r_array := (r_array rel)[i := e]\<rparr>"

definition clear_entry :: reliable_entry where
  "clear_entry = \<lparr>e_active = False, e_timeout = 0, e_next_try = 0, e_packet_id = 0, e_n_acks = 0,
                  e_opcode = 0, e_buf = clear_buf\<rparr>"

text \<open>Outer \<^term>\<open>None\<close>: the \<open>ASSERT\<close> on \<open>array_size\<close> or on \<open>buf_init\<close>, or the fatal exit of \<open>alloc_buf\<close>.\<close>

definition reliable_init :: "nat \<Rightarrow> int \<Rightarrow> nat \<Rightarrow> bool \<Rightarrow> reliable option" where
  "reliable_init buf_size offset array_size hold =
     (if 0 < array_size \<and> array_size \<le> RELIABLE_CAPACITY
      then (case alloc_buf buf_size of
              None \<Rightarrow> None
            | Some b \<Rightarrow>
                (case buf_init b offset of
                   None \<Rightarrow> None
                 | Some b' \<Rightarrow>
                     Some \<lparr>r_size = array_size, r_initial_timeout = 0, r_packet_id = 0, r_offset = offset,
                           r_hold = hold,
                           r_array = replicate array_size (clear_entry\<lparr>e_buf := b'\<rparr>) @
                                     replicate (RELIABLE_CAPACITY - array_size) clear_entry\<rparr>))
      else None)"

definition reliable_set_timeout :: "reliable \<Rightarrow> int \<Rightarrow> reliable" where
  "reliable_set_timeout rel timeout = rel\<lparr>r_initial_timeout := timeout\<rparr>"

definition reliable_empty :: "reliable \<Rightarrow> bool" where
  "reliable_empty rel \<longleftrightarrow> list_all (\<lambda>i. \<not> e_active (entry rel i)) [0..<r_size rel]"

definition purge_entry :: "u32 \<Rightarrow> reliable_entry \<Rightarrow> reliable_entry" where
  "purge_entry pid e =
     (if e_active e \<and> e_packet_id e = pid then e\<lparr>e_active := False\<rparr>
      else if e_active e \<and> e_packet_id e < pid then e\<lparr>e_n_acks := e_n_acks e + 1\<rparr>
      else e)"

definition purge_one :: "u32 \<Rightarrow> reliable \<Rightarrow> reliable" where
  "purge_one pid rel =
     fold (\<lambda>j r. set_entry r j (purge_entry pid (entry r j))) [0..<r_size rel] rel"

definition reliable_send_purge :: "reliable \<Rightarrow> reliable_ack \<Rightarrow> reliable" where
  "reliable_send_purge rel ack =
     fold (\<lambda>i r. purge_one (ack_packet_id ack ! i) r) [0..<ack_len ack] rel"

definition reliable_can_get :: "reliable \<Rightarrow> bool" where
  "reliable_can_get rel \<longleftrightarrow> list_ex (\<lambda>i. \<not> e_active (entry rel i)) [0..<r_size rel]"

definition reliable_not_replay :: "reliable \<Rightarrow> u32 \<Rightarrow> bool" where
  "reliable_not_replay rel pid \<longleftrightarrow>
     \<not> reliable_pid_min pid (r_packet_id rel) \<and>
     list_all (\<lambda>i. \<not> (e_active (entry rel i) \<and> e_packet_id (entry rel i) = pid)) [0..<r_size rel]"

definition reliable_wont_break_sequentiality :: "reliable \<Rightarrow> u32 \<Rightarrow> bool" where
  "reliable_wont_break_sequentiality rel pid \<longleftrightarrow>
     reliable_pid_in_range2 pid (r_packet_id rel) (of_nat (r_size rel))"

text \<open>Inner \<^term>\<open>None\<close> is the NULL the source returns when no buffer is free.\<close>

definition reliable_get_buf :: "reliable \<Rightarrow> (nat option \<times> reliable) option" where
  "reliable_get_buf rel =
     (case find (\<lambda>i. \<not> e_active (entry rel i)) [0..<r_size rel] of
        None \<Rightarrow> Some (None, rel)
      | Some i \<Rightarrow>
          (case buf_init (e_buf (entry rel i)) (r_offset rel) of
             None \<Rightarrow> None
           | Some b \<Rightarrow> Some (Some i, set_entry rel i ((entry rel i)\<lparr>e_buf := b\<rparr>))))"

text \<open>The loop, shared by two functions, that finds the minimum active packet id.\<close>

definition min_active_id :: "reliable \<Rightarrow> u32 option" where
  "min_active_id rel =
     fold (\<lambda>i m. let e = entry rel i
                 in if e_active e
                    then (case m of
                            None \<Rightarrow> Some (e_packet_id e)
                          | Some min_id \<Rightarrow>
                              if reliable_pid_min (e_packet_id e) min_id then Some (e_packet_id e) else m)
                    else m)
       [0..<r_size rel] None"

text \<open>\<open>ret\<close> is an \<open>int\<close> from which an unsigned difference is subtracted: the result is taken modulo \<open>2^32\<close>.\<close>

definition reliable_get_num_output_sequenced_available :: "reliable \<Rightarrow> int" where
  "reliable_get_num_output_sequenced_available rel =
     (case min_active_id rel of
        None \<Rightarrow> int (r_size rel)
      | Some min_id \<Rightarrow> sint (of_nat (r_size rel) - subtract_pid (r_packet_id rel) min_id))"

definition reliable_get_buf_output_sequenced :: "reliable \<Rightarrow> (nat option \<times> reliable) option" where
  "reliable_get_buf_output_sequenced rel =
     (case min_active_id rel of
        None \<Rightarrow> reliable_get_buf rel
      | Some min_id \<Rightarrow>
          if reliable_pid_in_range1 (r_packet_id rel) min_id (of_nat (r_size rel))
          then reliable_get_buf rel
          else Some (None, rel))"

definition reliable_get_entry_sequenced :: "reliable \<Rightarrow> nat option" where
  "reliable_get_entry_sequenced rel =
     find (\<lambda>i. e_active (entry rel i) \<and> e_packet_id (entry rel i) = r_packet_id rel) [0..<r_size rel]"

definition reliable_can_send :: "int \<Rightarrow> reliable \<Rightarrow> bool" where
  "reliable_can_send now rel \<longleftrightarrow>
     length (filter (\<lambda>i. e_active (entry rel i) \<and>
        (now \<ge> e_next_try (entry rel i) \<or> e_n_acks (entry rel i) \<ge> N_ACK_RETRANSMIT)) [0..<r_size rel]) > 0 \<and>
     \<not> r_hold rel"

definition send_best :: "int \<Rightarrow> reliable \<Rightarrow> nat option" where
  "send_best now rel =
     fold (\<lambda>i best. let e = entry rel i
                    in if e_active e \<and> (e_n_acks e \<ge> N_ACK_RETRANSMIT \<or> now \<ge> e_next_try e)
                       then (case best of
                               None \<Rightarrow> Some i
                             | Some b \<Rightarrow>
                                 if reliable_pid_min (e_packet_id e) (e_packet_id (entry rel b)) then Some i else best)
                       else best)
       [0..<r_size rel] None"

text \<open>The result is the entry to send and its opcode.\<close>

definition reliable_send :: "int \<Rightarrow> reliable \<Rightarrow> (nat \<times> int) option \<times> reliable" where
  "reliable_send now rel =
     (case send_best now rel of
        None \<Rightarrow> (None, rel)
      | Some i \<Rightarrow>
          (let e = entry rel i
           in (Some (i, e_opcode e),
               set_entry rel i (e\<lparr>e_next_try := now + e_timeout e, e_timeout := e_timeout e * 2, e_n_acks := 0\<rparr>))))"

definition reliable_schedule_now :: "int \<Rightarrow> reliable \<Rightarrow> reliable" where
  "reliable_schedule_now now rel =
     fold (\<lambda>i r. if e_active (entry r i)
                 then set_entry r i ((entry r i)\<lparr>e_next_try := now, e_timeout := r_initial_timeout r\<rparr>) else r)
       [0..<r_size rel] (rel\<lparr>r_hold := False\<rparr>)"

fun send_timeout_loop :: "int \<Rightarrow> reliable \<Rightarrow> nat list \<Rightarrow> int \<Rightarrow> int" where
  "send_timeout_loop now rel [] ret = ret"
| "send_timeout_loop now rel (i # is) ret =
     (let e = entry rel i
      in if e_active e
         then if e_next_try e \<le> now then 0
              else send_timeout_loop now rel is (min_int ret (e_next_try e - now))
         else send_timeout_loop now rel is ret)"

definition reliable_send_timeout :: "int \<Rightarrow> reliable \<Rightarrow> int" where
  "reliable_send_timeout now rel = send_timeout_loop now rel [0..<r_size rel] BIG_TIMEOUT"

definition reliable_mark_active_incoming :: "reliable \<Rightarrow> nat \<Rightarrow> u32 \<Rightarrow> int \<Rightarrow> reliable option" where
  "reliable_mark_active_incoming rel i pid opcode =
     (if i < r_size rel \<and> \<not> reliable_pid_min pid (r_packet_id rel)
      then Some (set_entry rel i ((entry rel i)\<lparr>e_active := True, e_packet_id := pid, e_opcode := opcode,
                   e_next_try := 0, e_timeout := 0, e_n_acks := 0\<rparr>))
      else None)"

definition reliable_mark_active_outgoing :: "reliable \<Rightarrow> nat \<Rightarrow> int \<Rightarrow> reliable option" where
  "reliable_mark_active_outgoing rel i opcode =
     (if i < r_size rel
      then (let e = entry rel i; pid = r_packet_id rel
            in case buf_write_prepend (e_buf e) (be32 pid) of
                 None \<Rightarrow> None
               | Some b \<Rightarrow>
                   Some (set_entry (rel\<lparr>r_packet_id := pid + 1\<rparr>) i
                     (e\<lparr>e_packet_id := pid, e_buf := b, e_active := True, e_opcode := opcode,
                        e_next_try := 0, e_timeout := r_initial_timeout rel\<rparr>)))
      else None)"

definition reliable_mark_deleted :: "reliable \<Rightarrow> nat \<Rightarrow> reliable option" where
  "reliable_mark_deleted rel i =
     (if i < r_size rel
      then Some (set_entry (rel\<lparr>r_packet_id := e_packet_id (entry rel i) + 1\<rparr>) i
                   ((entry rel i)\<lparr>e_active := False\<rparr>))
      else None)"

section \<open>Use by the TLS layer (ssl.c)\<close>

text \<open>
  The part of \<open>tls_pre_decrypt\<close> that stores a control packet and schedules its acknowledgement. The
  flag is \<^term>\<open>False\<close> when the packet is too big and the code jumps to \<open>error\<close>.
\<close>

definition tls_receive_control ::
  "int \<Rightarrow> buffer \<Rightarrow> reliable \<Rightarrow> reliable_ack \<Rightarrow> (bool \<times> buffer \<times> reliable \<times> reliable_ack) option" where
  "tls_receive_control op buf rel ack =
     (if op \<noteq> P_ACK_V1 \<and> reliable_can_get rel
      then (case reliable_ack_read_packet_id buf of
              (None, buf') \<Rightarrow> Some (True, buf', rel, ack)
            | (Some pid, buf') \<Rightarrow>
                if reliable_wont_break_sequentiality rel pid
                then if reliable_not_replay rel pid
                     then (case reliable_get_buf rel of
                             None \<Rightarrow> None
                           | Some (None, rel1) \<Rightarrow> None
                           | Some (Some i, rel1) \<Rightarrow>
                               (case buf_copy (e_buf (entry rel1 i)) buf' of
                                  None \<Rightarrow> Some (False, buf', rel1, ack)
                                | Some b \<Rightarrow>
                                    (case reliable_mark_active_incoming
                                            (set_entry rel1 i ((entry rel1 i)\<lparr>e_buf := b\<rparr>)) i pid op of
                                       None \<Rightarrow> None
                                     | Some rel2 \<Rightarrow>
                                         Some (True, buf', rel2, snd (reliable_ack_acknowledge_packet_id ack pid)))))
                     else Some (True, buf', rel, snd (reliable_ack_acknowledge_packet_id ack pid))
                else Some (True, buf', rel, ack))
      else Some (True, buf, rel, ack))"

text \<open>
  \<open>read_incoming_tls_ciphertext\<close> on the next entry in sequence. \<open>status\<close> is the result of
  \<open>key_state_write_ciphertext\<close>, a call of the TLS library: 1 written, 0 try again, -1 error. The
  first component is what was given to the TLS library, the flag \<^term>\<open>False\<close> an error.
\<close>

definition read_incoming_tls_ciphertext :: "int \<Rightarrow> reliable \<Rightarrow> nat \<Rightarrow> (bytes option \<times> bool \<times> reliable) option" where
  "read_incoming_tls_ciphertext status rel i =
     (let st = (if BLEN (e_buf (entry rel i)) \<noteq> 0 then status else 1)
      in if BLEN (e_buf (entry rel i)) \<noteq> 0 \<and> status = - 1 then Some (None, False, rel)
         else if st = 1
         then (case reliable_mark_deleted rel i of
                 None \<Rightarrow> None | Some rel' \<Rightarrow> Some (Some (buf_content (e_buf (entry rel i))), True, rel'))
         else Some (None, True, rel))"

section \<open>Acknowledgement records as lists\<close>

definition ack_ok :: "reliable_ack \<Rightarrow> bool" where
  "ack_ok a \<longleftrightarrow> length (ack_packet_id a) = RELIABLE_ACK_SIZE \<and> ack_len a \<le> RELIABLE_ACK_SIZE"

definition ack_ids :: "reliable_ack \<Rightarrow> u32 list" where
  "ack_ids a = take (ack_len a) (ack_packet_id a)"

lemma length_ack_ids: "ack_ok a \<Longrightarrow> length (ack_ids a) = ack_len a"
  by (simp add: ack_ok_def ack_ids_def)

lemma ack_present_iff: "ack_ok a \<Longrightarrow> reliable_ack_packet_id_present a pid \<longleftrightarrow> pid \<in> set (ack_ids a)"
  by (auto simp: reliable_ack_packet_id_present_def ack_ids_def ack_ok_def list_ex_iff in_set_conv_nth)

lemma ack_push_ids:
  assumes "ack_ok a" "ack_len a < RELIABLE_ACK_SIZE"
  shows "ack_ok (ack_push a pid) \<and> ack_ids (ack_push a pid) = ack_ids a @ [pid]"
  using assms by (simp add: ack_push_def ack_ok_def ack_ids_def take_Suc_conv_app_nth)

lemma ack_acknowledge_ids:
  assumes "ack_ok a" "distinct (ack_ids a)"
  shows "ack_ok (snd (reliable_ack_acknowledge_packet_id a pid)) \<and>
    distinct (ack_ids (snd (reliable_ack_acknowledge_packet_id a pid))) \<and>
    set (ack_ids (snd (reliable_ack_acknowledge_packet_id a pid))) \<subseteq> insert pid (set (ack_ids a))"
  using assms ack_push_ids [of a pid]
  by (auto simp: reliable_ack_acknowledge_packet_id_def ack_present_iff)

text \<open>Move to front, bounded.\<close>

definition mtf :: "u32 \<Rightarrow> u32 list \<Rightarrow> u32 list" where
  "mtf x xs = take RELIABLE_ACK_SIZE (x # remove1 x xs)"

lemma mru_shift_spec:
  assumes "j + n \<le> length a"
  shows "mru_shift pid j n move a =
    (pid \<in> set (mem_read a j n),
     if pid \<in> set (mem_read a j n) then pid else last (move # mem_read a j n),
     mem_write a j (take n (move # remove1 pid (mem_read a j n))))"
  using assms
proof (induction n arbitrary: j move a)
  case 0
  then show ?case by simp
next
  case (Suc n)
  have rd: "mem_read a j (Suc n) = a ! j # mem_read a (Suc j) n"
    using Suc.prems by (simp add: mem_read_def Cons_nth_drop_Suc [symmetric])
  have rd': "mem_read (a[j := v]) (Suc j) n = mem_read a (Suc j) n" for v
    by (simp add: mem_read_def)
  have wr: "mem_write (a[j := v]) (Suc j) xs = mem_write a j (v # xs)" for v xs
    using Suc.prems by (simp add: mem_write_def upd_conv_take_nth_drop add.commute)
  have len: "length (mem_read a (Suc j) n) = n" using Suc.prems by simp
  show ?case
  proof (cases "a ! j = pid")
    case True
    have "mem_write a j (move # mem_read a (Suc j) n) = a[j := move]"
      using mem_write_read_same [of "Suc j" n "a[j := move]"] Suc.prems by (simp add: rd' wr)
    with True show ?thesis using len by (simp add: rd Let_def)
  next
    case False
    then show ?thesis
      using Suc.IH [of "Suc j" "a[j := move]" "a ! j"] Suc.prems by (simp add: rd rd' wr Let_def)
  qed
qed

lemma mru_insert_ids:
  assumes "ack_ok m"
  shows "ack_ok (mru_insert pid m) \<and> ack_ids (mru_insert pid m) = mtf pid (ack_ids m)"
proof -
  define m1 where "m1 = (if ack_len m = 0
      then m\<lparr>ack_len := 1, ack_packet_id := (ack_packet_id m)[0 := pid]\<rparr> else m)"
  have m1: "ack_ok m1" "0 < ack_len m1"
    "ack_ids m1 = (if ack_len m = 0 then [pid] else ack_ids m)"
    using assms by (auto simp: m1_def ack_ok_def ack_ids_def rel_consts take_Suc_conv_app_nth)
  have len: "length (ack_packet_id m1) = 8" "ack_len m1 \<le> 8" using m1 by (auto simp: ack_ok_def rel_consts)
  have rd: "mem_read (ack_packet_id m1) 0 (ack_len m1) = ack_ids m1"
    by (simp add: mem_read_def ack_ids_def)
  have L: "length (ack_ids m1) = ack_len m1" by (rule length_ack_ids [OF m1(1)])
  note sh = mru_shift_spec [of 0 "ack_len m1" "ack_packet_id m1" pid pid, unfolded rd]
  show ?thesis
  proof (cases "pid \<in> set (ack_ids m1)")
    case True
    define X where "X = pid # remove1 pid (ack_ids m1)"
    have X: "length X = ack_len m1" using True L m1(2) by (simp add: X_def length_remove1)
    then have ins: "mru_insert pid m = m1\<lparr>ack_packet_id := mem_write (ack_packet_id m1) 0 X\<rparr>"
      using sh len True by (simp add: mru_insert_def Let_def X_def flip: m1_def)
    have "mtf pid (ack_ids m) = X"
      using X len m1(3) by (auto simp: mtf_def X_def rel_consts ack_ids_def split: if_splits)
    then show ?thesis
      using X len by (simp add: ins ack_ok_def ack_ids_def mem_write_def rel_consts)
  next
    case False
    then have ne: "ack_len m \<noteq> 0" using m1(3) by (auto split: if_splits)
    then have "m1 = m" by (simp add: m1_def)
    note ne = ne this
    let ?a = "mem_write (ack_packet_id m1) 0 (take (ack_len m1) (pid # ack_ids m1))"
    have "mru_insert pid m = (if ack_len m1 < 8
        then m1\<lparr>ack_packet_id := ?a[ack_len m1 := last (pid # ack_ids m1)], ack_len := ack_len m1 + 1\<rparr>
        else m1\<lparr>ack_packet_id := ?a\<rparr>)"
      using sh len False by (simp add: mru_insert_def Let_def remove1_idem rel_consts flip: m1_def)
    moreover have "take (ack_len m1) (pid # ack_ids m1) @ [last (pid # ack_ids m1)] = pid # ack_ids m1"
      using L m1(2) by (cases "ack_ids m1" rule: rev_cases) (auto simp flip: L)
    ultimately show ?thesis
      using False ne m1 len L
      by (auto simp: ack_ok_def ack_ids_def [of "_\<lparr>ack_packet_id := _\<rparr>"] ack_ids_def [of "_\<lparr>ack_packet_id := _, ack_len := _\<rparr>"]
          mem_write_def mtf_def rel_consts remove1_idem min_def take_Suc_conv_app_nth)
  qed
qed

lemma mru_loop_ids:
  "ack_ok m \<Longrightarrow> n \<le> length ids \<Longrightarrow> ack_ok (mru_loop n ids m) \<and> ack_ids (mru_loop n ids m) = foldr mtf (take n ids) (ack_ids m)"
  by (induction n arbitrary: m) (simp_all add: mru_insert_ids take_Suc_conv_app_nth)

lemma foldr_mtf_prefix:
  "distinct ys \<Longrightarrow> length ys \<le> RELIABLE_ACK_SIZE \<Longrightarrow> \<exists>zs. foldr mtf ys xs = ys @ zs"
proof (induction ys)
  case Nil
  then show ?case by simp
next
  case (Cons y ys)
  then obtain zs where "foldr mtf ys xs = ys @ zs" by auto
  then have "foldr mtf (y # ys) xs = take RELIABLE_ACK_SIZE (y # ys @ remove1 y zs)"
    using Cons.prems(1) by (simp add: mtf_def remove1_append del: take_append)
  with Cons.prems(2) show ?case by (auto simp: rel_consts)
qed

lemma mtf_distinct: "distinct xs \<Longrightarrow> distinct (mtf x xs)"
  by (auto simp: mtf_def rel_consts dest: in_set_takeD)

lemma ack_write_ids_content:
  assumes "buf_ok b" "b_offset b + int (length (buf_content b)) + 4 * int (length ps) \<le> b_capacity b"
  shows "\<exists>b'. ack_write_ids ps b = Some b' \<and> buf_ok b' \<and>
    buf_content b' = buf_content b @ concat (map be32 ps) \<and> b_capacity b' = b_capacity b \<and> b_offset b' = b_offset b"
  using assms
proof (induction ps arbitrary: b)
  case Nil
  then show ?case by simp
next
  case (Cons p ps)
  obtain b1 where b1: "buf_write b (be32 p) = Some b1" "buf_ok b1" "buf_content b1 = buf_content b @ be32 p"
    "b_capacity b1 = b_capacity b" "b_offset b1 = b_offset b"
    using buf_write_fits [OF Cons.prems(1), of "be32 p"] Cons.prems(2) by (auto simp: BUF_SIZE_MAX_def)
  then show ?case using Cons.IH [of b1] Cons.prems(2) by auto
qed

text \<open>The bytes of an acknowledgement record.\<close>

definition ack_bytes :: "u32 list \<Rightarrow> bytes \<Rightarrow> bytes" where
  "ack_bytes ids sid = of_nat (length ids) # concat (map be32 ids) @ (if ids = [] then [] else sid)"

lemma length_concat_be32: "length (concat (map be32 ids)) = 4 * length ids"
  by (induction ids) simp_all

lemma length_ack_bytes: "length sid = SID_SIZE \<Longrightarrow> length (ack_bytes ids sid) = ACK_SIZE (length ids)"
  by (simp add: ack_bytes_def ACK_SIZE_def length_concat_be32)

lemma ack_parse_loop_content:
  assumes "buf_ok buf" "buf_content buf = concat (map be32 ids) @ rest" "ack_ok ack"
    "ack_len ack + length ids \<le> RELIABLE_ACK_SIZE"
  shows "\<exists>buf' ack'. ack_parse_loop (length ids) buf ack = (True, buf', ack') \<and> buf_ok buf' \<and>
    buf_content buf' = rest \<and> ack_ok ack' \<and> ack_ids ack' = ack_ids ack @ ids"
  using assms
proof (induction ids arbitrary: buf ack)
  case Nil
  then show ?case by simp
next
  case (Cons i ids)
  obtain b1 where b1: "buf_read buf 4 = (Some (be32 i), b1)" "buf_ok b1"
    "buf_content b1 = concat (map be32 ids) @ rest"
    using ob.rd_field [of buf "be32 i" "concat (map be32 ids) @ rest"] Cons.prems by auto
  have push: "ack_ok (ack_push ack i)" "ack_ids (ack_push ack i) = ack_ids ack @ [i]"
    "ack_len (ack_push ack i) = ack_len ack + 1"
    using ack_push_ids [OF Cons.prems(3), of i] Cons.prems(4) by (auto simp: ack_push_def)
  show ?case
    using Cons.IH [OF b1(2,3) push(1)] push b1 Cons.prems(4) by auto
qed

lemma ack_parse_bytes:
  assumes "buf_ok buf" "buf_content buf = ack_bytes ids sid @ rest" "length sid = SID_SIZE"
    "length ids \<le> RELIABLE_ACK_SIZE" "length (ack_packet_id ack) = RELIABLE_ACK_SIZE"
  shows "\<exists>buf' ack'. reliable_ack_parse buf ack sid0 =
      (True, buf', ack', if ids = [] then sid0 else sid) \<and>
    buf_ok buf' \<and> buf_content buf' = rest \<and> ack_ok ack' \<and> ack_ids ack' = ids"
proof -
  let ?tl = "(if ids = [] then [] else sid) @ rest"
  obtain b1 where b1: "buf_read buf 1 = (Some [of_nat (length ids)], b1)" "buf_ok b1"
    "buf_content b1 = concat (map be32 ids) @ ?tl"
    using ob.rd_field [of buf "[of_nat (length ids)]" "concat (map be32 ids) @ ?tl"] assms
    by (auto simp: ack_bytes_def)
  have n: "unat (of_nat (length ids) :: u8) = length ids"
    using assms(4) by (simp add: unsigned_of_nat take_bit_nat_eq_self rel_consts)
  have "ack_ok (ack\<lparr>ack_len := 0\<rparr>)" using assms(5) by (simp add: ack_ok_def)
  from ack_parse_loop_content [OF b1(2,3) this] assms(4)
  obtain b2 ack' where b2: "ack_parse_loop (length ids) b1 (ack\<lparr>ack_len := 0\<rparr>) = (True, b2, ack')" "buf_ok b2"
    "buf_content b2 = ?tl" "ack_ok ack'" "ack_ids ack' = ids"
    by (auto simp: ack_ids_def)
  show ?thesis
  proof (cases "ids = []")
    case True
    with b1 b2 n show ?thesis by (auto simp: reliable_ack_parse_def Let_def)
  next
    case False
    then obtain b3 where "buf_read b2 SID_SIZE = (Some sid, b3)" "buf_ok b3" "buf_content b3 = rest"
      using ob.rd_field [of b2 sid rest] b2 assms(3) by auto
    with False b1 b2 n show ?thesis by (auto simp: reliable_ack_parse_def Let_def session_id_read_def)
  qed
qed

lemma ACK_SIZE_mono: "a \<le> b \<Longrightarrow> ACK_SIZE a \<le> ACK_SIZE b"
  by (auto simp: ACK_SIZE_def)

lemma ack_remove_first_ids:
  assumes "ack_ok a" "n \<le> ack_len a"
  shows "ack_ok (ack_remove_first n a) \<and> ack_ids (ack_remove_first n a) = drop n (ack_ids a)"
  using assms by (auto simp: ack_remove_first_def ack_ok_def ack_ids_def mem_write_def mem_read_def drop_take)

text \<open>The ids a call of \<open>reliable_ack_write\<close> puts on the wire.\<close>

definition ack_sent :: "reliable_ack \<Rightarrow> reliable_ack \<Rightarrow> nat \<Rightarrow> u32 list" where
  "ack_sent ack mru mx = take mx (foldr mtf (take mx (ack_ids ack)) (ack_ids mru))"

lemma reliable_ack_write_direct:
  fixes mx :: nat
  assumes ack: "ack_ok ack" and mru: "ack_ok mru" and buf: "buf_ok buf"
    and sid: "session_id_defined sid" "length sid = SID_SIZE"
  defines "xs \<equiv> ack_bytes (ack_sent ack mru mx) sid"
  shows "\<exists>mru'. ack_ok mru' \<and> ack_ids mru' = foldr mtf (take mx (ack_ids ack)) (ack_ids mru) \<and>
    reliable_ack_write ack mru buf sid mx pre =
      (case (if pre then buf_write_prepend buf xs else buf_write buf xs) of
         None \<Rightarrow> Some (False, ack, mru', buf)
       | Some b \<Rightarrow> Some (True, ack_remove_first (min (ack_len ack) mx) ack, mru', b))"
proof -
  define n where "n = min (ack_len ack) mx"
  define m where "m = mru_loop n (ack_packet_id ack) mru"
  have n: "n \<le> length (ack_packet_id ack)" "take n (ack_packet_id ack) = take mx (ack_ids ack)"
    using ack by (auto simp: n_def ack_ok_def ack_ids_def min.commute)
  have nle: "ack_len ack \<ge> n" by (simp add: n_def)
  have m: "ack_ok m" "ack_ids m = foldr mtf (take mx (ack_ids ack)) (ack_ids mru)"
    using mru_loop_ids [OF mru n(1)] by (simp_all add: m_def n(2))
  define t where "t = min mx (ack_len m)"
  have ids: "take t (ack_packet_id m) = ack_sent ack mru mx"
    by (simp add: t_def ack_sent_def m(2) [symmetric]) (simp add: ack_ids_def min.commute)
  have t: "length (ack_sent ack mru mx) = t"
    using m(1) by (auto simp: ids [symmetric] t_def ack_ok_def min_def)
  have len: "length xs = ACK_SIZE t"
    using length_ack_bytes [OF sid(2)] by (simp add: xs_def t)
  let ?sub = "buf_sub buf (int (ACK_SIZE t)) pre"
  have w: "reliable_ack_write ack mru buf sid mx pre =
      (case ?sub of None \<Rightarrow> Some (False, ack, m, buf)
       | Some (p, sub, buf') \<Rightarrow>
           (case buf_write_u8 sub (of_nat t) of None \<Rightarrow> None
            | Some sub1 \<Rightarrow>
                (case ack_write_ids (ack_sent ack mru mx) sub1 of None \<Rightarrow> None
                 | Some sub2 \<Rightarrow>
                     (case (if t = 0 then Some sub2 else session_id_write sid sub2) of None \<Rightarrow> None
                      | Some sub3 \<Rightarrow> Some (True, ack_remove_first n ack, m, buf_sub_commit buf' p sub3)))))"
    unfolding reliable_ack_write_def Let_def copy_acks_to_mru_def n_def [symmetric] if_P [OF nle]
      m_def [symmetric] option.case t_def [symmetric] ids eqTrueI [OF sid(1)] if_True by (rule refl)
  show ?thesis
  proof (cases ?sub)
    case None
    then have "(if pre then buf_write_prepend buf xs else buf_write buf xs) = None"
      by (auto simp: buf_sub_def buf_write_prepend_def buf_write_def len split: if_splits option.splits)
    with None m show ?thesis by (auto simp: w)
  next
    case (Some r)
    then obtain p sub buf' where sub: "?sub = Some (p, sub, buf')" by (cases r) auto
    note sf = buf_sub_fill [OF buf sub]
    obtain sub1 where s1: "buf_write_u8 sub (of_nat t) = Some sub1" "buf_ok sub1" "buf_content sub1 = [of_nat t]"
      "b_capacity sub1 = int (ACK_SIZE t)" "b_offset sub1 = 0"
      using buf_write_fits [OF sf(1), of "[of_nat t]"] sf(2-4)
      by (auto simp: buf_write_u8_def ACK_SIZE_def BUF_SIZE_MAX_def)
    obtain sub2 where s2: "ack_write_ids (ack_sent ack mru mx) sub1 = Some sub2" "buf_ok sub2"
      "buf_content sub2 = of_nat t # concat (map be32 (ack_sent ack mru mx))"
      "b_capacity sub2 = int (ACK_SIZE t)" "b_offset sub2 = 0"
      using ack_write_ids_content [OF s1(2), of "ack_sent ack mru mx"] s1(3-5) t by (auto simp: ACK_SIZE_def)
    obtain sub3 where s3: "(if t = 0 then Some sub2 else session_id_write sid sub2) = Some sub3" "buf_ok sub3"
      "buf_content sub3 = xs" "b_capacity sub3 = int (ACK_SIZE t)" "b_offset sub3 = 0"
      using buf_write_fits [OF s2(2), of sid] s2(2-5) t sid(2)
      by (cases "ack_sent ack mru mx = []")
        (auto simp: session_id_write_def ACK_SIZE_def BUF_SIZE_MAX_def rel_consts xs_def ack_bytes_def
          length_concat_be32)
    have "(if pre then buf_write_prepend buf xs else buf_write buf xs) = Some (buf_sub_commit buf' p sub3)"
      using sf(5) [OF s3(2,5,4,3) len] .
    with m s1(1) s2(1) s3(1) sub show ?thesis by (auto simp: w n_def)
  qed
qed

section \<open>The store as a set of packets\<close>

lemma set_entry_simps [simp]:
  "r_size (set_entry rel i e) = r_size rel"
  "r_packet_id (set_entry rel i e) = r_packet_id rel"
  "r_offset (set_entry rel i e) = r_offset rel"
  "r_hold (set_entry rel i e) = r_hold rel"
  "r_initial_timeout (set_entry rel i e) = r_initial_timeout rel"
  "length (r_array (set_entry rel i e)) = length (r_array rel)"
  by (simp_all add: set_entry_def)

lemma entry_set_entry: "i < length (r_array rel) \<Longrightarrow> entry (set_entry rel i e) j = (if j = i then e else entry rel j)"
  by (auto simp: entry_def set_entry_def)

lemma entry_pid [simp]: "entry (rel\<lparr>r_packet_id := p\<rparr>) i = entry rel i" "entry (rel\<lparr>r_hold := h\<rparr>) i = entry rel i"
  by (simp_all add: entry_def)

definition store_ok :: "reliable \<Rightarrow> bool" where
  "store_ok rel \<longleftrightarrow> 0 < r_size rel \<and> r_size rel \<le> RELIABLE_CAPACITY \<and> length (r_array rel) = RELIABLE_CAPACITY \<and>
     0 \<le> r_offset rel \<and>
     (\<forall>i < r_size rel. buf_ok (e_buf (entry rel i)) \<and> r_offset rel \<le> b_capacity (e_buf (entry rel i)))"

definition active_ids :: "reliable \<Rightarrow> u32 set" where
  "active_ids rel = {e_packet_id (entry rel i) |i. i < r_size rel \<and> e_active (entry rel i)}"

definition stored :: "reliable \<Rightarrow> (u32 \<times> bytes) set" where
  "stored rel = {(e_packet_id (entry rel i), buf_content (e_buf (entry rel i))) |i.
     i < r_size rel \<and> e_active (entry rel i)}"

definition ids_distinct :: "reliable \<Rightarrow> bool" where
  "ids_distinct rel \<longleftrightarrow> (\<forall>i < r_size rel. \<forall>j < r_size rel. e_active (entry rel i) \<longrightarrow> e_active (entry rel j) \<longrightarrow>
     e_packet_id (entry rel i) = e_packet_id (entry rel j) \<longrightarrow> i = j)"

lemma active_ids_stored: "active_ids rel = fst ` stored rel"
  by (force simp: active_ids_def stored_def)

lemma entry_in_array: "store_ok rel \<Longrightarrow> i < r_size rel \<Longrightarrow> i < length (r_array rel)"
  by (simp add: store_ok_def)

lemma store_ok_set:
  assumes "store_ok rel" "i < r_size rel" "buf_ok (e_buf e)" "r_offset rel \<le> b_capacity (e_buf e)"
  shows "store_ok (set_entry rel i e)"
  using assms entry_in_array [OF assms(1,2)] by (auto simp: store_ok_def entry_set_entry)

lemma find_idx: "find P [0..<n] = Some i \<Longrightarrow> i < n \<and> P i"
  by (auto simp: find_Some_iff)

lemma reliable_get_buf_free:
  assumes "store_ok rel" "reliable_can_get rel"
  shows "\<exists>i b. reliable_get_buf rel = Some (Some i, set_entry rel i ((entry rel i)\<lparr>e_buf := b\<rparr>)) \<and>
    i < r_size rel \<and> \<not> e_active (entry rel i) \<and> buf_ok b \<and> buf_content b = [] \<and>
    b_offset b = r_offset rel \<and> b_capacity b = b_capacity (e_buf (entry rel i))"
proof -
  obtain i where f: "find (\<lambda>i. \<not> e_active (entry rel i)) [0..<r_size rel] = Some i"
    using assms(2) by (cases "find (\<lambda>i. \<not> e_active (entry rel i)) [0..<r_size rel]")
      (auto simp: reliable_can_get_def list_ex_iff find_None_iff)
  then have i: "i < r_size rel" "\<not> e_active (entry rel i)" using find_idx by auto
  have "buf_ok (e_buf (entry rel i))" "r_offset rel \<le> b_capacity (e_buf (entry rel i))" "0 \<le> r_offset rel"
    using assms(1) i by (auto simp: store_ok_def)
  then obtain b where "buf_init (e_buf (entry rel i)) (r_offset rel) = Some b" "buf_ok b" "buf_content b = []"
    "b_offset b = r_offset rel" "b_capacity b = b_capacity (e_buf (entry rel i))"
    using buf_init_ok by blast
  then show ?thesis using f i by (auto simp: reliable_get_buf_def)
qed

lemma stored_set_inactive:
  assumes "store_ok rel" "i < r_size rel" "\<not> e_active (entry rel i)"
  shows "stored (set_entry rel i e) = (if e_active e then insert (e_packet_id e, buf_content (e_buf e)) (stored rel)
           else stored rel)"
  using assms entry_in_array [OF assms(1,2)]
  by (auto simp: stored_def entry_set_entry split: if_splits)

section \<open>The receiving side\<close>

text \<open>The ids in the receive buffer lie in the window of \<open>size\<close> ids from the next one expected.\<close>

definition rx_inv :: "reliable \<Rightarrow> bool" where
  "rx_inv rel \<longleftrightarrow> store_ok rel \<and> ids_distinct rel \<and>
     (\<forall>pid \<in> active_ids rel. unat (r_packet_id rel) \<le> unat pid \<and> unat pid < unat (r_packet_id rel) + r_size rel)"

lemma rx_window:
  assumes "unat base \<le> 2 ^ 31" "n \<le> RELIABLE_CAPACITY"
  shows "reliable_pid_in_range2 pid base (of_nat n) \<and> \<not> reliable_pid_min pid base \<longleftrightarrow>
    unat base \<le> unat pid \<and> unat pid < unat base + n"
proof -
  have n: "unat (of_nat n :: u32) = n"
    using assms(2) by (simp add: unsigned_of_nat take_bit_nat_eq_self rel_consts)
  have e: "unat (base + of_nat n) = unat base + n"
    using n assms by (simp add: unat_word_ariths rel_consts)
  have r2: "reliable_pid_in_range2 pid base (of_nat n) \<longleftrightarrow> unat pid < unat base + n"
    using e by (simp add: reliable_pid_in_range2_def word_le_nat_alt word_less_nat_alt)
  have "\<not> reliable_pid_min pid base \<longleftrightarrow> unat (pid - base) < 2 ^ 31"
    by (simp add: reliable_pid_min_def reliable_pid_in_range1_def subtract_pid_def word_less_nat_alt)
  also have "\<dots> \<longleftrightarrow> unat base \<le> unat pid" if "unat pid < unat base + n"
    using that assms by (auto simp: unat_sub_if' rel_consts)
  finally show ?thesis using r2 by blast
qed

lemma ids_distinct_set:
  assumes "store_ok rel" "ids_distinct rel" "i < r_size rel"
    "e_active e \<Longrightarrow> \<forall>j < r_size rel. j \<noteq> i \<longrightarrow> e_active (entry rel j) \<longrightarrow> e_packet_id (entry rel j) \<noteq> e_packet_id e"
  shows "ids_distinct (set_entry rel i e)"
  using assms(2,4) entry_in_array [OF assms(1,3)]
  by (auto simp: ids_distinct_def entry_set_entry split: if_splits)

lemma rx_inv_set_inactive:
  assumes "rx_inv rel" "i < r_size rel" "\<not> e_active (entry rel i)" "buf_ok (e_buf e)"
    "r_offset rel \<le> b_capacity (e_buf e)"
    "e_active e \<Longrightarrow> e_packet_id e \<notin> active_ids rel \<and>
       unat (r_packet_id rel) \<le> unat (e_packet_id e) \<and> unat (e_packet_id e) < unat (r_packet_id rel) + r_size rel"
  shows "rx_inv (set_entry rel i e)"
proof -
  have ok: "store_ok rel" "ids_distinct rel" using assms(1) by (auto simp: rx_inv_def)
  have "ids_distinct (set_entry rel i e)"
    using assms(6) by (intro ids_distinct_set ok assms(2)) (force simp: active_ids_def)
  moreover have "store_ok (set_entry rel i e)" by (rule store_ok_set [OF ok(1) assms(2,4,5)])
  moreover have "active_ids (set_entry rel i e) = (if e_active e then insert (e_packet_id e) (active_ids rel) else active_ids rel)"
    using stored_set_inactive [OF ok(1) assms(2,3), of e] by (simp add: active_ids_stored)
  ultimately show ?thesis using assms(1,6) by (auto simp: rx_inv_def)
qed

lemma not_replay_iff:
  "reliable_not_replay rel pid \<longleftrightarrow> \<not> reliable_pid_min pid (r_packet_id rel) \<and> pid \<notin> active_ids rel"
  by (auto simp: reliable_not_replay_def active_ids_def list_all_iff)

text \<open>What receiving one control packet does to the set of stored packets.\<close>

definition rx_effect :: "reliable \<Rightarrow> bytes \<Rightarrow> reliable \<Rightarrow> bool" where
  "rx_effect rel c rel' \<longleftrightarrow> r_packet_id rel' = r_packet_id rel \<and> r_size rel' = r_size rel \<and>
     (stored rel' = stored rel \<or>
      4 \<le> length c \<and> of_be32 (take 4 c) \<notin> active_ids rel \<and>
      unat (r_packet_id rel) \<le> unat (of_be32 (take 4 c)) \<and>
      stored rel' = insert (of_be32 (take 4 c), drop 4 c) (stored rel))"

lemma receive_store:
  assumes inv: "rx_inv rel" and base: "unat (r_packet_id rel) \<le> 2 ^ 31" and get: "reliable_can_get rel"
    and buf: "buf_ok buf" and seq: "reliable_wont_break_sequentiality rel pid" and new: "reliable_not_replay rel pid"
  shows "\<exists>i rel1. reliable_get_buf rel = Some (Some i, rel1) \<and> rx_inv rel1 \<and> stored rel1 = stored rel \<and>
    r_packet_id rel1 = r_packet_id rel \<and> r_size rel1 = r_size rel \<and>
    (\<forall>b. buf_copy (e_buf (entry rel1 i)) buf = Some b \<longrightarrow>
       (\<exists>rel2. reliable_mark_active_incoming (set_entry rel1 i ((entry rel1 i)\<lparr>e_buf := b\<rparr>)) i pid op = Some rel2 \<and>
          rx_inv rel2 \<and> r_packet_id rel2 = r_packet_id rel \<and> r_size rel2 = r_size rel \<and>
          stored rel2 = insert (pid, buf_content buf) (stored rel)))"
proof -
  have ok: "store_ok rel" using inv by (simp add: rx_inv_def)
  obtain i b where g: "reliable_get_buf rel = Some (Some i, set_entry rel i ((entry rel i)\<lparr>e_buf := b\<rparr>))"
    and i: "i < r_size rel" "\<not> e_active (entry rel i)" and b: "buf_ok b" "buf_content b = []"
      "b_offset b = r_offset rel" "b_capacity b = b_capacity (e_buf (entry rel i))"
    using reliable_get_buf_free [OF ok get] by blast
  note ia = entry_in_array [OF ok i(1)]
  define rel1 where "rel1 = set_entry rel i ((entry rel i)\<lparr>e_buf := b\<rparr>)"
  have off: "r_offset rel \<le> b_capacity b" using ok i b by (simp add: store_ok_def)
  have r1: "rx_inv rel1" "stored rel1 = stored rel" "r_packet_id rel1 = r_packet_id rel" "r_size rel1 = r_size rel"
    "entry rel1 i = (entry rel i)\<lparr>e_buf := b\<rparr>"
    using rx_inv_set_inactive [OF inv i, of "(entry rel i)\<lparr>e_buf := b\<rparr>"] i b off
      stored_set_inactive [OF ok i, of "(entry rel i)\<lparr>e_buf := b\<rparr>"] ia
    by (simp_all add: rel1_def entry_set_entry)
  have "r_size rel \<le> RELIABLE_CAPACITY" using ok by (simp add: store_ok_def)
  then have win: "unat (r_packet_id rel) \<le> unat pid" "unat pid < unat (r_packet_id rel) + r_size rel"
    and min: "\<not> reliable_pid_min pid (r_packet_id rel)" and fresh: "pid \<notin> active_ids rel"
    using rx_window [OF base, of "r_size rel" pid] seq new
    by (auto simp: reliable_wont_break_sequentiality_def not_replay_iff)
  have "\<exists>rel2. reliable_mark_active_incoming (set_entry rel1 i ((entry rel1 i)\<lparr>e_buf := b'\<rparr>)) i pid op = Some rel2 \<and>
      rx_inv rel2 \<and> r_packet_id rel2 = r_packet_id rel \<and> r_size rel2 = r_size rel \<and>
      stored rel2 = insert (pid, buf_content buf) (stored rel)"
    if "buf_copy (e_buf (entry rel1 i)) buf = Some b'" for b'
  proof -
    have "BLEN buf = b_len buf" using buf by (simp add: BLEN_def buf_ok_valid)
    then have b': "buf_ok b'" "buf_content b' = buf_content buf" "b_capacity b' = b_capacity b"
      using buf_write_content [OF b(1)] that b(2) by (auto simp: r1(5) buf_copy_def buf_content_def [of buf])
    let ?e = "(entry rel i)\<lparr>e_buf := b', e_active := True, e_packet_id := pid, e_opcode := op,
                   e_next_try := 0, e_timeout := 0, e_n_acks := 0\<rparr>"
    have "reliable_mark_active_incoming (set_entry rel1 i ((entry rel1 i)\<lparr>e_buf := b'\<rparr>)) i pid op =
        Some (set_entry rel i ?e)"
      using i min ia by (simp add: reliable_mark_active_incoming_def rel1_def entry_set_entry)
        (simp add: set_entry_def)
    moreover have "rx_inv (set_entry rel i ?e)"
      using b' off win fresh by (intro rx_inv_set_inactive [OF inv i]) auto
    moreover have "stored (set_entry rel i ?e) = insert (pid, buf_content buf) (stored rel)"
      using stored_set_inactive [OF ok i, of ?e] b' by simp
    ultimately show ?thesis by simp
  qed
  then show ?thesis using g r1 by (auto simp: rel1_def [symmetric])
qed

lemma tls_receive_control_step:
  assumes inv: "rx_inv rel" and base: "unat (r_packet_id rel) \<le> 2 ^ 31" and buf: "buf_ok buf"
  shows "\<exists>ok buf' rel' ack'. tls_receive_control op buf rel ack = Some (ok, buf', rel', ack') \<and>
    rx_inv rel' \<and> rx_effect rel (buf_content buf) rel'"
proof (cases "op \<noteq> P_ACK_V1 \<and> reliable_can_get rel \<and> 4 \<le> length (buf_content buf)")
  case False
  then have "tls_receive_control op buf rel ack = Some (True, buf, rel, ack)"
    using ob.rd_short [OF buf, of 4]
    by (auto simp: tls_receive_control_def reliable_ack_read_packet_id_def not_le)
  with inv show ?thesis by (auto simp: rx_effect_def)
next
  case True
  obtain buf' where rd: "buf_read buf 4 = (Some (take 4 (buf_content buf)), buf')" "buf_ok buf'"
    "buf_content buf' = drop 4 (buf_content buf)"
    using ob.rd_takes [OF buf, of 4] True by auto
  define pid where "pid = of_be32 (take 4 (buf_content buf))"
  have rdp: "reliable_ack_read_packet_id buf = (Some pid, buf')"
    by (simp add: reliable_ack_read_packet_id_def rd pid_def)
  show ?thesis
  proof (cases "reliable_wont_break_sequentiality rel pid \<and> reliable_not_replay rel pid")
    case False
    then show ?thesis using True rdp inv by (auto simp: tls_receive_control_def rx_effect_def)
  next
    case acc: True
    then obtain i rel1 where g: "reliable_get_buf rel = Some (Some i, rel1)" "rx_inv rel1" "stored rel1 = stored rel"
      "r_packet_id rel1 = r_packet_id rel" "r_size rel1 = r_size rel"
      and m: "\<And>b. buf_copy (e_buf (entry rel1 i)) buf' = Some b \<Longrightarrow>
       \<exists>rel2. reliable_mark_active_incoming (set_entry rel1 i ((entry rel1 i)\<lparr>e_buf := b\<rparr>)) i pid op = Some rel2 \<and>
          rx_inv rel2 \<and> r_packet_id rel2 = r_packet_id rel \<and> r_size rel2 = r_size rel \<and>
          stored rel2 = insert (pid, buf_content buf') (stored rel)"
      using receive_store [OF inv base _ rd(2)] True by blast
    have "r_size rel \<le> RELIABLE_CAPACITY" using inv by (simp add: rx_inv_def store_ok_def)
    then have "unat (r_packet_id rel) \<le> unat pid" "pid \<notin> active_ids rel"
      using rx_window [OF base] acc by (auto simp: reliable_wont_break_sequentiality_def not_replay_iff)
    with True acc rdp g m rd(3) show ?thesis
      by (cases "buf_copy (e_buf (entry rel1 i)) buf'")
        (fastforce simp: tls_receive_control_def rx_effect_def pid_def)+
  qed
qed

lemma stored_set_deactivate:
  assumes "store_ok rel" "ids_distinct rel" "i < r_size rel" "e_active (entry rel i)" "\<not> e_active e"
  shows "stored (set_entry rel i e) = stored rel - {(e_packet_id (entry rel i), buf_content (e_buf (entry rel i)))}"
    and "active_ids (set_entry rel i e) = active_ids rel - {e_packet_id (entry rel i)}"
  using assms entry_in_array [OF assms(1,3)]
  by (auto simp: stored_def active_ids_def ids_distinct_def entry_set_entry split: if_splits)

lemma stored_pid [simp]: "stored (rel\<lparr>r_packet_id := p\<rparr>) = stored rel" "active_ids (rel\<lparr>r_packet_id := p\<rparr>) = active_ids rel"
  "store_ok (rel\<lparr>r_packet_id := p\<rparr>) = store_ok rel" "ids_distinct (rel\<lparr>r_packet_id := p\<rparr>) = ids_distinct rel"
  by (simp_all add: stored_def active_ids_def store_ok_def ids_distinct_def)

lemma deliver_step:
  assumes inv: "rx_inv rel" and base: "unat (r_packet_id rel) \<le> 2 ^ 31" and nxt: "reliable_get_entry_sequenced rel = Some i"
  shows "\<exists>rel'. reliable_mark_deleted rel i = Some rel' \<and> rx_inv rel' \<and>
    unat (r_packet_id rel') = Suc (unat (r_packet_id rel)) \<and> r_size rel' = r_size rel \<and>
    (r_packet_id rel, buf_content (e_buf (entry rel i))) \<in> stored rel \<and> stored rel' \<subseteq> stored rel"
proof -
  have i: "i < r_size rel" "e_active (entry rel i)" "e_packet_id (entry rel i) = r_packet_id rel"
    using find_idx [OF nxt [unfolded reliable_get_entry_sequenced_def]] by auto
  have ok: "store_ok rel" "ids_distinct rel" using inv by (auto simp: rx_inv_def)
  let ?r = "rel\<lparr>r_packet_id := r_packet_id rel + 1\<rparr>"
  let ?e = "(entry rel i)\<lparr>e_active := False\<rparr>"
  have up: "unat (r_packet_id rel + 1) = Suc (unat (r_packet_id rel))"
    using base by (simp add: unat_word_ariths)
  have st: "stored (set_entry ?r i ?e) = stored rel - {(r_packet_id rel, buf_content (e_buf (entry rel i)))}"
    "active_ids (set_entry ?r i ?e) = active_ids rel - {r_packet_id rel}"
    using stored_set_deactivate [of ?r i ?e] ok i by simp_all
  have win: "Suc (unat (r_packet_id rel)) \<le> unat pid \<and> unat pid < Suc (unat (r_packet_id rel)) + r_size rel"
    if "pid \<in> active_ids rel - {r_packet_id rel}" for pid
  proof -
    have "unat pid \<noteq> unat (r_packet_id rel)" using that by (auto simp: word_unat_eq_iff)
    then show ?thesis using that inv by (force simp: rx_inv_def)
  qed
  have "rx_inv (set_entry ?r i ?e)"
    unfolding rx_inv_def
  proof (intro conjI)
    show "store_ok (set_entry ?r i ?e)" using ok i by (intro store_ok_set) (auto simp: store_ok_def)
    show "ids_distinct (set_entry ?r i ?e)" using ok i by (intro ids_distinct_set) auto
    show "\<forall>pid\<in>active_ids (set_entry ?r i ?e). unat (r_packet_id (set_entry ?r i ?e)) \<le> unat pid \<and>
        unat pid < unat (r_packet_id (set_entry ?r i ?e)) + r_size (set_entry ?r i ?e)"
      unfolding st(2) using win by (simp add: up)
  qed
  moreover have "(r_packet_id rel, buf_content (e_buf (entry rel i))) \<in> stored rel"
    unfolding stored_def i(3) [symmetric] using i(1,2) by blast
  ultimately show ?thesis using i st up by (auto simp: reliable_mark_deleted_def)
qed

lemma window_full_next:
  assumes inv: "rx_inv rel" and full: "\<not> reliable_can_get rel"
  shows "\<exists>i. reliable_get_entry_sequenced rel = Some i"
proof -
  let ?f = "\<lambda>i. unat (e_packet_id (entry rel i))"
  let ?b = "unat (r_packet_id rel)"
  have act: "\<And>i. i < r_size rel \<Longrightarrow> e_active (entry rel i)"
    using full by (auto simp: reliable_can_get_def list_ex_iff)
  then have "?f ` {..<r_size rel} \<subseteq> {?b..<?b + r_size rel}"
    using inv by (force simp: rx_inv_def active_ids_def)
  moreover have "inj_on ?f {..<r_size rel}"
    using inv act by (auto simp: rx_inv_def ids_distinct_def inj_on_def word_unat_eq_iff)
  ultimately have "?f ` {..<r_size rel} = {?b..<?b + r_size rel}"
    by (intro card_subset_eq) (auto simp: card_image)
  moreover have "0 < r_size rel" using inv by (simp add: rx_inv_def store_ok_def)
  ultimately have "?b \<in> ?f ` {..<r_size rel}" by simp
  then obtain i where "i < r_size rel" "?f i = ?b" by auto
  then show ?thesis using act
    by (cases "reliable_get_entry_sequenced rel")
      (auto simp: reliable_get_entry_sequenced_def find_None_iff word_unat_eq_iff)
qed

section \<open>The sending side\<close>

text \<open>The loops that pick the entry with the smallest id, with a test \<open>P\<close>.\<close>

definition pick :: "(nat \<Rightarrow> bool) \<Rightarrow> (nat \<Rightarrow> u32) \<Rightarrow> nat \<Rightarrow> nat option" where
  "pick P key n =
     fold (\<lambda>i best. if P i then (case best of None \<Rightarrow> Some i
                        | Some b \<Rightarrow> if reliable_pid_min (key i) (key b) then Some i else best)
                    else best) [0..<n] None"

lemma pick_Suc:
  "pick P key (Suc n) = (if P n then (case pick P key n of None \<Rightarrow> Some n
      | Some b \<Rightarrow> if reliable_pid_min (key n) (key b) then Some n else Some b) else pick P key n)"
  by (simp add: pick_def split: option.split)

lemma pid_min_near:
  assumes "unat p \<le> unat q + 2 ^ 30" "unat q \<le> unat p + 2 ^ 30"
  shows "reliable_pid_min p q \<longleftrightarrow> unat p < unat q"
  using assms unsigned_less [of p, where 'a = nat] unsigned_less [of q, where 'a = nat]
  by (auto simp: reliable_pid_min_def reliable_pid_in_range1_def subtract_pid_def word_less_nat_alt unat_sub_if')

lemma pick_spec:
  assumes "\<And>i j. i < n \<Longrightarrow> j < n \<Longrightarrow> P i \<Longrightarrow> P j \<Longrightarrow> unat (key i) \<le> unat (key j) + 2 ^ 30"
  shows "case pick P key n of
      None \<Rightarrow> \<forall>i < n. \<not> P i
    | Some b \<Rightarrow> b < n \<and> P b \<and> (\<forall>i < n. P i \<longrightarrow> unat (key b) \<le> unat (key i))"
  using assms
proof (induction n)
  case 0
  then show ?case by (simp add: pick_def)
next
  case (Suc n)
  have ih: "case pick P key n of
      None \<Rightarrow> \<forall>i < n. \<not> P i
    | Some b \<Rightarrow> b < n \<and> P b \<and> (\<forall>i < n. P i \<longrightarrow> unat (key b) \<le> unat (key i))"
    using Suc.prems by (intro Suc.IH) auto
  show ?case
  proof (cases "pick P key n")
    case None
    then show ?thesis using ih by (auto simp: pick_Suc less_Suc_eq)
  next
    case (Some b)
    with ih have b: "b < n" "P b" "\<forall>i < n. P i \<longrightarrow> unat (key b) \<le> unat (key i)" by auto
    have "P n \<Longrightarrow> reliable_pid_min (key n) (key b) \<longleftrightarrow> unat (key n) < unat (key b)"
      using Suc.prems b by (intro pid_min_near) auto
    then show ?thesis using Some b by (auto simp: pick_Suc less_Suc_eq)
  qed
qed

lemma min_active_id_pick:
  "min_active_id rel = map_option (\<lambda>i. e_packet_id (entry rel i))
     (pick (\<lambda>i. e_active (entry rel i)) (\<lambda>i. e_packet_id (entry rel i)) (r_size rel))"
proof -
  have "fold (\<lambda>i m. let e = entry rel i
                 in if e_active e
                    then (case m of
                            None \<Rightarrow> Some (e_packet_id e)
                          | Some min_id \<Rightarrow>
                              if reliable_pid_min (e_packet_id e) min_id then Some (e_packet_id e) else m)
                    else m)
       [0..<n] None = map_option (\<lambda>i. e_packet_id (entry rel i))
     (pick (\<lambda>i. e_active (entry rel i)) (\<lambda>i. e_packet_id (entry rel i)) n)" for n
    by (induction n) (simp_all add: pick_def Let_def split: option.split)
  then show ?thesis by (simp add: min_active_id_def)
qed

lemma send_best_pick:
  "send_best now rel = pick (\<lambda>i. e_active (entry rel i) \<and>
     (e_n_acks (entry rel i) \<ge> N_ACK_RETRANSMIT \<or> now \<ge> e_next_try (entry rel i)))
     (\<lambda>i. e_packet_id (entry rel i)) (r_size rel)"
  by (simp add: send_best_def pick_def Let_def)

text \<open>
  The unacknowledged ids are distinct, below the next id, and at most \<open>size\<close> behind it; every buffer has
  room for the packet id in front.
\<close>

definition tx_inv :: "reliable \<Rightarrow> bool" where
  "tx_inv rel \<longleftrightarrow> store_ok rel \<and> ids_distinct rel \<and> 4 \<le> r_offset rel \<and>
     (\<forall>pid \<in> active_ids rel. unat pid < unat (r_packet_id rel) \<and> unat (r_packet_id rel) \<le> unat pid + r_size rel)"

lemma tx_near:
  assumes "tx_inv rel" "p \<in> active_ids rel" "q \<in> active_ids rel"
  shows "unat p \<le> unat q + 2 ^ 30"
proof -
  have "unat p < unat (r_packet_id rel)" "unat (r_packet_id rel) \<le> unat q + r_size rel" "r_size rel \<le> 12"
    using assms by (auto simp: tx_inv_def store_ok_def rel_consts)
  then show ?thesis by simp
qed

lemma active_idI: "i < r_size rel \<Longrightarrow> e_active (entry rel i) \<Longrightarrow> e_packet_id (entry rel i) \<in> active_ids rel"
  by (auto simp: active_ids_def)

lemma min_active_id_spec:
  assumes "tx_inv rel"
  shows "case min_active_id rel of
      None \<Rightarrow> active_ids rel = {}
    | Some m \<Rightarrow> m \<in> active_ids rel \<and> (\<forall>pid \<in> active_ids rel. unat m \<le> unat pid)"
  using pick_spec [of "r_size rel" "\<lambda>i. e_active (entry rel i)" "\<lambda>i. e_packet_id (entry rel i)"]
    tx_near [OF assms] active_idI [of _ rel]
  by (fastforce simp: min_active_id_pick active_ids_def split: option.splits)

text \<open>How many more packets the window allows.\<close>

definition tx_room :: "reliable \<Rightarrow> nat" where
  "tx_room rel = (if active_ids rel = {} then r_size rel
     else r_size rel - (unat (r_packet_id rel) - Min (unat ` active_ids rel)))"

lemma finite_active [simp]: "finite (active_ids rel)"
  by (simp add: active_ids_def)

lemma tx_room_min:
  assumes "tx_inv rel" "min_active_id rel = Some m"
  shows "tx_room rel = r_size rel - (unat (r_packet_id rel) - unat m)" "active_ids rel \<noteq> {}"
    "unat m < unat (r_packet_id rel)" "unat (r_packet_id rel) - unat m \<le> r_size rel"
proof -
  have m: "m \<in> active_ids rel" "\<forall>pid \<in> active_ids rel. unat m \<le> unat pid"
    using min_active_id_spec [OF assms(1)] assms(2) by auto
  then have "Min (unat ` active_ids rel) = unat m" by (intro Min_eqI) auto
  then show "tx_room rel = r_size rel - (unat (r_packet_id rel) - unat m)" "active_ids rel \<noteq> {}"
    using m by (auto simp: tx_room_def)
  show "unat m < unat (r_packet_id rel)" "unat (r_packet_id rel) - unat m \<le> r_size rel"
    using assms(1) m by (auto simp: tx_inv_def)
qed

lemma available_room:
  assumes "tx_inv rel"
  shows "reliable_get_num_output_sequenced_available rel = int (tx_room rel)"
proof (cases "min_active_id rel")
  case None
  then show ?thesis using min_active_id_spec [OF assms]
    by (simp add: reliable_get_num_output_sequenced_available_def tx_room_def)
next
  case (Some m)
  note r = tx_room_min [OF assms Some]
  have n: "r_size rel \<le> 12" using assms by (simp add: tx_inv_def store_ok_def rel_consts)
  have d: "unat (r_packet_id rel - m) = unat (r_packet_id rel) - unat m"
    using r(3) by (simp add: unat_sub word_le_nat_alt)
  have s: "unat (of_nat (r_size rel) :: u32) = r_size rel"
    using n by (simp add: unsigned_of_nat take_bit_nat_eq_self)
  have "unat (of_nat (r_size rel) - (r_packet_id rel - m)) = tx_room rel"
    using r s d by (simp add: unat_sub word_le_nat_alt)
  moreover have "tx_room rel \<le> 12" using n r by simp
  ultimately show ?thesis
    using Some sint_small [of "of_nat (r_size rel) - (r_packet_id rel - m)"]
    by (simp add: reliable_get_num_output_sequenced_available_def subtract_pid_def)
qed

lemma room_free:
  assumes inv: "tx_inv rel" and room: "0 < tx_room rel"
  shows "reliable_can_get rel"
proof (rule ccontr)
  assume full: "\<not> reliable_can_get rel"
  let ?f = "\<lambda>i. unat (e_packet_id (entry rel i))"
  have act: "\<And>i. i < r_size rel \<Longrightarrow> e_active (entry rel i)"
    using full by (auto simp: reliable_can_get_def list_ex_iff)
  have "0 < r_size rel" using inv by (simp add: tx_inv_def store_ok_def)
  then have ne: "active_ids rel \<noteq> {}" using act by (auto simp: active_ids_def)
  then obtain m where m: "min_active_id rel = Some m"
    using min_active_id_spec [OF inv] by (cases "min_active_id rel") auto
  have mle: "\<forall>pid \<in> active_ids rel. unat m \<le> unat pid" using min_active_id_spec [OF inv] m by auto
  have "?f ` {..<r_size rel} \<subseteq> {unat m..<unat (r_packet_id rel)}"
    using inv act mle by (force simp: tx_inv_def active_ids_def)
  moreover have "inj_on ?f {..<r_size rel}"
    using inv act by (auto simp: tx_inv_def ids_distinct_def inj_on_def word_unat_eq_iff)
  ultimately have "r_size rel \<le> unat (r_packet_id rel) - unat m"
    using card_inj_on_le [of ?f "{..<r_size rel}" "{unat m..<unat (r_packet_id rel)}"] by simp
  then show False using room tx_room_min(1) [OF inv m] by simp
qed

lemma get_output_sequenced_room:
  assumes "tx_inv rel"
  shows "reliable_get_buf_output_sequenced rel = (if 0 < tx_room rel then reliable_get_buf rel else Some (None, rel))"
proof (cases "min_active_id rel")
  case None
  then show ?thesis using min_active_id_spec [OF assms] assms
    by (simp add: reliable_get_buf_output_sequenced_def tx_room_def tx_inv_def store_ok_def)
next
  case (Some m)
  note r = tx_room_min [OF assms Some]
  have "r_size rel \<le> 12" using assms by (simp add: tx_inv_def store_ok_def rel_consts)
  then have "unat (of_nat (r_size rel) :: u32) = r_size rel"
    by (simp add: unsigned_of_nat take_bit_nat_eq_self)
  then have "reliable_pid_in_range1 (r_packet_id rel) m (of_nat (r_size rel)) \<longleftrightarrow> 0 < tx_room rel"
    using r by (auto simp: reliable_pid_in_range1_def subtract_pid_def word_less_nat_alt unat_sub word_le_nat_alt)
  then show ?thesis using Some by (simp add: reliable_get_buf_output_sequenced_def)
qed

lemma tx_room_insert:
  assumes inv: "tx_inv rel" and ids: "active_ids rel' = insert (r_packet_id rel) (active_ids rel)"
    and nxt: "unat (r_packet_id rel') = Suc (unat (r_packet_id rel))" "r_size rel' = r_size rel"
  shows "tx_room rel' = tx_room rel - 1"
proof (cases "active_ids rel = {}")
  case True
  then show ?thesis using ids nxt by (simp add: tx_room_def)
next
  case False
  have "Min (unat ` active_ids rel) \<in> unat ` active_ids rel" using False by (intro Min_in) auto
  then have "Min (unat ` active_ids rel) < unat (r_packet_id rel)" using inv by (auto simp: tx_inv_def)
  moreover from this have "Min (insert (unat (r_packet_id rel)) (unat ` active_ids rel)) = Min (unat ` active_ids rel)"
    using False by (subst Min_insert) (simp_all only: finite_imageI finite_active image_is_empty min_absorb2 less_imp_le not_False_eq_True)
  ultimately show ?thesis using False ids nxt by (simp add: tx_room_def)
qed

lemma submit_step:
  assumes inv: "tx_inv rel" and room: "0 < tx_room rel" and nowrap: "unat (r_packet_id rel) < 2 ^ 31"
  shows "\<exists>i rel1. reliable_get_buf_output_sequenced rel = Some (Some i, rel1) \<and> tx_inv rel1 \<and> tx_room rel1 = tx_room rel \<and>
    buf_ok (e_buf (entry rel1 i)) \<and> buf_content (e_buf (entry rel1 i)) = [] \<and>
    b_offset (e_buf (entry rel1 i)) = r_offset rel \<and>
    b_capacity (e_buf (entry rel1 i)) = b_capacity (e_buf (entry rel i)) \<and> i < r_size rel \<and>
    (\<forall>b op. buf_ok b \<longrightarrow> b_offset b = r_offset rel \<longrightarrow> b_capacity b = b_capacity (e_buf (entry rel i)) \<longrightarrow>
       (\<exists>rel2. reliable_mark_active_outgoing (set_entry rel1 i ((entry rel1 i)\<lparr>e_buf := b\<rparr>)) i op = Some rel2 \<and>
          tx_inv rel2 \<and> r_packet_id rel2 = r_packet_id rel + 1 \<and> tx_room rel2 = tx_room rel - 1 \<and>
          r_size rel2 = r_size rel \<and> r_offset rel2 = r_offset rel \<and>
          (\<forall>j. b_capacity (e_buf (entry rel2 j)) = b_capacity (e_buf (entry rel j))) \<and>
          stored rel2 = insert (r_packet_id rel, be32 (r_packet_id rel) @ buf_content b) (stored rel)))"
proof -
  have ok: "store_ok rel" "ids_distinct rel" "4 \<le> r_offset rel" using inv by (auto simp: tx_inv_def)
  obtain i b where g: "reliable_get_buf rel = Some (Some i, set_entry rel i ((entry rel i)\<lparr>e_buf := b\<rparr>))"
    and i: "i < r_size rel" "\<not> e_active (entry rel i)" and b: "buf_ok b" "buf_content b = []"
      "b_offset b = r_offset rel" "b_capacity b = b_capacity (e_buf (entry rel i))"
    using reliable_get_buf_free [OF ok(1) room_free [OF inv room]] by blast
  note ia = entry_in_array [OF ok(1) i(1)]
  define rel1 where "rel1 = set_entry rel i ((entry rel i)\<lparr>e_buf := b\<rparr>)"
  have off: "r_offset rel \<le> b_capacity b" using ok i b by (simp add: store_ok_def)
  have st1: "stored rel1 = stored rel"
    using stored_set_inactive [OF ok(1) i, of "(entry rel i)\<lparr>e_buf := b\<rparr>"] i by (simp add: rel1_def)
  have r1: "tx_inv rel1" "tx_room rel1 = tx_room rel" "entry rel1 i = (entry rel i)\<lparr>e_buf := b\<rparr>"
    using st1 ok inv i b off ia store_ok_set [OF ok(1) i(1), of "(entry rel i)\<lparr>e_buf := b\<rparr>"]
      ids_distinct_set [OF ok(1,2) i(1), of "(entry rel i)\<lparr>e_buf := b\<rparr>"]
    by (simp_all add: rel1_def tx_inv_def tx_room_def active_ids_stored entry_set_entry)
  have "\<exists>rel2. reliable_mark_active_outgoing (set_entry rel1 i ((entry rel1 i)\<lparr>e_buf := b'\<rparr>)) i op = Some rel2 \<and>
          tx_inv rel2 \<and> r_packet_id rel2 = r_packet_id rel + 1 \<and> tx_room rel2 = tx_room rel - 1 \<and>
          r_size rel2 = r_size rel \<and> r_offset rel2 = r_offset rel \<and>
          (\<forall>j. b_capacity (e_buf (entry rel2 j)) = b_capacity (e_buf (entry rel j))) \<and>
          stored rel2 = insert (r_packet_id rel, be32 (r_packet_id rel) @ buf_content b') (stored rel)"
    if b': "buf_ok b'" "b_offset b' = r_offset rel" "b_capacity b' = b_capacity (e_buf (entry rel i))" for b' op
  proof -
    let ?pid = "r_packet_id rel"
    obtain b2 where b2: "buf_write_prepend b' (be32 ?pid) = Some b2" "buf_ok b2"
      "buf_content b2 = be32 ?pid @ buf_content b'" "b_capacity b2 = b_capacity b'"
      using buf_prepend_succeeds [OF b'(1), of "be32 ?pid"] buf_prepend_content [OF b'(1)] b'(2) ok(3) by fastforce
    let ?r = "rel\<lparr>r_packet_id := ?pid + 1\<rparr>"
    let ?e = "(entry rel i)\<lparr>e_packet_id := ?pid, e_buf := b2, e_active := True, e_opcode := op, e_next_try := 0,
                e_timeout := r_initial_timeout rel\<rparr>"
    have mark: "reliable_mark_active_outgoing (set_entry rel1 i ((entry rel1 i)\<lparr>e_buf := b'\<rparr>)) i op =
        Some (set_entry ?r i ?e)"
      using i ia b2 by (simp add: reliable_mark_active_outgoing_def rel1_def entry_set_entry Let_def)
        (simp add: set_entry_def)
    have st: "stored (set_entry ?r i ?e) = insert (?pid, buf_content b2) (stored rel)"
      using stored_set_inactive [of ?r i ?e] ok i by simp
    then have ids: "active_ids (set_entry ?r i ?e) = insert ?pid (active_ids rel)"
      by (simp add: active_ids_stored)
    have up: "unat (?pid + 1) = Suc (unat ?pid)" using nowrap by (simp add: unat_word_ariths)
    have fresh: "?pid \<notin> active_ids rel" using inv by (auto simp: tx_inv_def)
    have room2: "tx_room (set_entry ?r i ?e) = tx_room rel - 1"
      using tx_room_insert [OF inv ids] up by simp
    have win: "unat pid < Suc (unat ?pid) \<and> Suc (unat ?pid) \<le> unat pid + r_size rel"
      if "pid \<in> insert ?pid (active_ids rel)" for pid
    proof (cases "pid = ?pid")
      case True
      then show ?thesis using i by simp
    next
      case False
      then have pid: "pid \<in> active_ids rel" using that by simp
      then obtain m where m: "min_active_id rel = Some m"
        using min_active_id_spec [OF inv] by (cases "min_active_id rel") auto
      have "unat m \<le> unat pid" using min_active_id_spec [OF inv] m pid by auto
      then show ?thesis using tx_room_min [OF inv m] room pid inv by (auto simp: tx_inv_def)
    qed
    have "tx_inv (set_entry ?r i ?e)"
      unfolding tx_inv_def ids
    proof (intro conjI)
      show "store_ok (set_entry ?r i ?e)" using ok i b2 b' off b(4) by (intro store_ok_set) auto
      show "ids_distinct (set_entry ?r i ?e)"
        using ok i fresh by (intro ids_distinct_set) (auto simp: active_ids_def)
    qed (use ok(3) win up in simp_all)
    then show ?thesis using mark st room2 b2 b'(3) ia by (auto simp: entry_set_entry)
  qed
  then show ?thesis
    using g i r1 b get_output_sequenced_room [OF inv] room by (auto simp: rel1_def [symmetric])
qed

lemma fold_set_entry:
  fixes f :: "reliable_entry \<Rightarrow> reliable_entry"
  assumes "n \<le> length (r_array rel)"
  defines "g \<equiv> \<lambda>j r. set_entry r j (f (entry r j))"
  shows "length (r_array (fold g [0..<n] rel)) = length (r_array rel) \<and>
    r_size (fold g [0..<n] rel) = r_size rel \<and> r_packet_id (fold g [0..<n] rel) = r_packet_id rel \<and>
    r_offset (fold g [0..<n] rel) = r_offset rel \<and>
    entry (fold g [0..<n] rel) j = (if j < n then f (entry rel j) else entry rel j)"
  using assms(1)
proof (induction n arbitrary: j)
  case 0
  then show ?case by simp
next
  case (Suc n)
  then show ?case using Suc.IH [of j] Suc.IH [of n] by (auto simp: g_def entry_set_entry less_Suc_eq)
qed

text \<open>What a purge does to every entry.\<close>

definition same_store :: "reliable \<Rightarrow> reliable \<Rightarrow> bool" where
  "same_store rel rel' \<longleftrightarrow> length (r_array rel') = length (r_array rel) \<and> r_size rel' = r_size rel \<and>
     r_packet_id rel' = r_packet_id rel \<and> r_offset rel' = r_offset rel \<and>
     (\<forall>j. e_buf (entry rel' j) = e_buf (entry rel j) \<and> e_packet_id (entry rel' j) = e_packet_id (entry rel j))"

lemma same_store_trans: "same_store a b \<Longrightarrow> same_store b c \<Longrightarrow> same_store a c"
  by (simp add: same_store_def)

lemma same_store_refl [simp]: "same_store a a"
  by (simp add: same_store_def)

lemma purge_one_effect:
  assumes "store_ok rel"
  shows "same_store rel (purge_one pid rel) \<and>
    (\<forall>j < r_size rel. e_active (entry (purge_one pid rel) j) \<longleftrightarrow>
       e_active (entry rel j) \<and> e_packet_id (entry rel j) \<noteq> pid)"
proof -
  have le: "r_size rel \<le> length (r_array rel)" using assms by (simp add: store_ok_def)
  note f = fold_set_entry [OF le, of "purge_entry pid", folded purge_one_def]
  have "e_buf (purge_entry pid e) = e_buf e" "e_packet_id (purge_entry pid e) = e_packet_id e"
    "e_active (purge_entry pid e) \<longleftrightarrow> e_active e \<and> e_packet_id e \<noteq> pid" for e
    by (auto simp: purge_entry_def)
  then show ?thesis using f by (auto simp: same_store_def)
qed

lemma same_store_ok: "same_store rel rel' \<Longrightarrow> store_ok rel \<Longrightarrow> store_ok rel'"
  by (simp add: same_store_def store_ok_def)

lemma send_purge_effect:
  assumes "store_ok rel" "ack_ok ack"
  shows "same_store rel (reliable_send_purge rel ack) \<and>
    (\<forall>j < r_size rel. e_active (entry (reliable_send_purge rel ack) j) \<longleftrightarrow>
       e_active (entry rel j) \<and> e_packet_id (entry rel j) \<notin> set (ack_ids ack))"
proof -
  have "same_store rel (fold (\<lambda>i r. purge_one (ids ! i) r) [0..<n] rel) \<and>
    (\<forall>j < r_size rel. e_active (entry (fold (\<lambda>i r. purge_one (ids ! i) r) [0..<n] rel) j) \<longleftrightarrow>
       e_active (entry rel j) \<and> e_packet_id (entry rel j) \<notin> set (take n ids))"
    if "n \<le> length ids" for n and ids :: "u32 list"
    using that
  proof (induction n)
    case 0
    then show ?case by simp
  next
    case (Suc n)
    let ?r = "fold (\<lambda>i r. purge_one (ids ! i) r) [0..<n] rel"
    have ih: "same_store rel ?r" using Suc by simp
    note p = purge_one_effect [OF same_store_ok [OF ih assms(1)], of "ids ! n"]
    have "same_store rel (purge_one (ids ! n) ?r)" using p ih same_store_trans by blast
    then show ?case using Suc p ih by (auto simp: take_Suc_conv_app_nth same_store_def)
  qed
  from this [of "ack_len ack" "ack_packet_id ack"] show ?thesis
    using assms(2) by (simp add: reliable_send_purge_def ack_ids_def ack_ok_def)
qed

lemma send_purge_stored:
  assumes "tx_inv rel" "ack_ok ack"
  shows "tx_inv (reliable_send_purge rel ack)"
    "stored (reliable_send_purge rel ack) = {x \<in> stored rel. fst x \<notin> set (ack_ids ack)}"
    "r_packet_id (reliable_send_purge rel ack) = r_packet_id rel"
proof -
  have ok: "store_ok rel" using assms(1) by (simp add: tx_inv_def)
  note p = send_purge_effect [OF ok assms(2)]
  show st: "stored (reliable_send_purge rel ack) = {x \<in> stored rel. fst x \<notin> set (ack_ids ack)}"
    using p by (auto simp: stored_def same_store_def)
  then have ids: "active_ids (reliable_send_purge rel ack) \<subseteq> active_ids rel"
    by (auto simp: active_ids_stored)
  show "tx_inv (reliable_send_purge rel ack)"
    unfolding tx_inv_def
  proof (intro conjI)
    show "store_ok (reliable_send_purge rel ack)" using p ok same_store_ok by blast
    show "ids_distinct (reliable_send_purge rel ack)"
      using p assms(1) by (auto simp: tx_inv_def ids_distinct_def same_store_def)
  qed (use p ids assms(1) in \<open>auto simp: tx_inv_def same_store_def\<close>)
  show "r_packet_id (reliable_send_purge rel ack) = r_packet_id rel" using p by (simp add: same_store_def)
qed

lemma reliable_send_effect:
  assumes inv: "tx_inv rel" and snd: "reliable_send now rel = (Some (i, op), rel')"
  shows "tx_inv rel'" "stored rel' = stored rel" "r_packet_id rel' = r_packet_id rel"
    "i < r_size rel" "(e_packet_id (entry rel i), buf_content (e_buf (entry rel i))) \<in> stored rel"
    "e_buf (entry rel' i) = e_buf (entry rel i)" "same_store rel rel'"
proof -
  let ?P = "\<lambda>i. e_active (entry rel i) \<and> (e_n_acks (entry rel i) \<ge> N_ACK_RETRANSMIT \<or> now \<ge> e_next_try (entry rel i))"
  let ?e = "(entry rel i)\<lparr>e_next_try := now + e_timeout (entry rel i), e_timeout := e_timeout (entry rel i) * 2, e_n_acks := 0\<rparr>"
  have b: "send_best now rel = Some i" and r: "rel' = set_entry rel i ?e"
    using snd by (auto simp: reliable_send_def Let_def split: option.splits)
  have "case pick ?P (\<lambda>i. e_packet_id (entry rel i)) (r_size rel) of
      None \<Rightarrow> \<forall>i < r_size rel. \<not> ?P i
    | Some b \<Rightarrow> b < r_size rel \<and> ?P b \<and> (\<forall>i < r_size rel. ?P i \<longrightarrow>
        unat (e_packet_id (entry rel b)) \<le> unat (e_packet_id (entry rel i)))"
    using tx_near [OF inv] active_idI by (intro pick_spec) auto
  then have i: "i < r_size rel" "e_active (entry rel i)" using b by (auto simp: send_best_pick)
  have ok: "store_ok rel" "ids_distinct rel" using inv by (auto simp: tx_inv_def)
  note ia = entry_in_array [OF ok(1) i(1)]
  show st: "stored rel' = stored rel"
    using i ia by (auto simp: r stored_def entry_set_entry split: if_splits)
  have "store_ok rel'" "ids_distinct rel'"
    using ok i ia by (auto simp: r store_ok_def ids_distinct_def entry_set_entry split: if_splits)
  then show "tx_inv rel'" using inv st by (simp add: tx_inv_def active_ids_stored r)
  show "r_packet_id rel' = r_packet_id rel" "i < r_size rel"
    "e_buf (entry rel' i) = e_buf (entry rel i)" "same_store rel rel'"
    using i ia by (simp_all add: r entry_set_entry same_store_def)
  show "(e_packet_id (entry rel i), buf_content (e_buf (entry rel i))) \<in> stored rel"
    unfolding stored_def using i by blast
qed

lemma send_best_spec:
  fixes now :: int
  assumes "tx_inv rel"
  defines "P \<equiv> \<lambda>i. e_active (entry rel i) \<and> (e_n_acks (entry rel i) \<ge> N_ACK_RETRANSMIT \<or> now \<ge> e_next_try (entry rel i))"
  shows "case send_best now rel of
      None \<Rightarrow> \<forall>i < r_size rel. \<not> P i
    | Some b \<Rightarrow> b < r_size rel \<and> P b \<and> (\<forall>i < r_size rel. P i \<longrightarrow>
        unat (e_packet_id (entry rel b)) \<le> unat (e_packet_id (entry rel i)))"
  unfolding send_best_pick P_def [symmetric]
  using tx_near [OF assms(1)] active_idI by (intro pick_spec) (auto simp: P_def)

text \<open>A freshly initialised store is empty and satisfies both invariants.\<close>

lemma reliable_init_inv:
  assumes "reliable_init bs off n h = Some rel"
  shows "rx_inv rel" "4 \<le> off \<Longrightarrow> tx_inv rel" "stored rel = {}" "r_packet_id rel = 0" "r_size rel = n" "r_offset rel = off"
    "i < n \<Longrightarrow> b_capacity (e_buf (entry rel i)) = int bs"
proof -
  obtain b b' where ab: "alloc_buf bs = Some b" "buf_init b off = Some b'" "0 < n" "n \<le> 12"
    and rel: "rel = \<lparr>r_size = n, r_initial_timeout = 0, r_packet_id = 0, r_offset = off, r_hold = h,
      r_array = replicate n (clear_entry\<lparr>e_buf := b'\<rparr>) @ replicate (12 - n) clear_entry\<rparr>"
    using assms by (auto simp: reliable_init_def rel_consts split: if_splits option.splits)
  have b: "buf_ok b" "b_capacity b = int bs"
    using ab(1) alloc_buf_ok [OF ab(1)] by (auto simp: alloc_buf_def split: if_splits)
  have b': "buf_ok b'" "b_capacity b' = int bs" "0 \<le> off" "off \<le> int bs"
    using ab(2) b buf_init_ok [OF b(1), of off] by (auto simp: buf_init_def split: if_splits)
  have e: "entry rel i = clear_entry\<lparr>e_buf := b'\<rparr>" if "i < n" for i
    using that by (simp add: rel entry_def nth_append)
  show st: "stored rel = {}" using e by (auto simp: stored_def rel clear_entry_def)
  then have "active_ids rel = {}" by (simp add: active_ids_stored)
  moreover have "ids_distinct rel" using e by (auto simp: ids_distinct_def rel clear_entry_def)
  moreover have "store_ok rel" using ab b' e by (auto simp: store_ok_def rel rel_consts clear_entry_def)
  ultimately show "rx_inv rel" "4 \<le> off \<Longrightarrow> tx_inv rel" by (auto simp: rx_inv_def tx_inv_def rel)
  show "r_packet_id rel = 0" "r_size rel = n" "r_offset rel = off" by (simp_all add: rel)
  show "i < n \<Longrightarrow> b_capacity (e_buf (entry rel i)) = int bs" using e b' by simp
qed

lemma reliable_init_succeeds:
  "bs < BUF_SIZE_MAX \<Longrightarrow> 0 \<le> off \<Longrightarrow> off \<le> int bs \<Longrightarrow> 0 < n \<Longrightarrow> n \<le> RELIABLE_CAPACITY \<Longrightarrow> \<exists>rel. reliable_init bs off n h = Some rel"
  by (simp add: reliable_init_def alloc_buf_def buf_size_valid_def buf_init_def)

section \<open>Properties\<close>

text \<open>
  Round trip of acknowledgements. When the buffer has room in front, \<open>reliable_ack_write\<close> succeeds
  without a failed assertion; the peer's \<open>reliable_ack_read\<close> accepts the record for the same session
  and finds the ids that were waiting, first and in order; the ids sent are removed from the waiting
  list and the rest of the packet is untouched.
\<close>

theorem ack_wire_roundtrip:
  assumes "ack_ok ack" "ack_ok mru" "distinct (ack_ids ack)" "buf_ok buf"
    "session_id_defined sid" "length sid = SID_SIZE" "mx \<le> RELIABLE_ACK_SIZE"
    "int (ACK_SIZE mx) \<le> b_offset buf" "length (ack_packet_id a0) = RELIABLE_ACK_SIZE"
  shows "\<exists>ack' mru' buf' buf'' a.
    reliable_ack_write ack mru buf sid mx True = Some (True, ack', mru', buf') \<and>
    ack_ids ack' = drop mx (ack_ids ack) \<and>
    reliable_ack_read a0 buf' sid sid0 = (True, buf'', a) \<and>
    take (length (take mx (ack_ids ack))) (ack_ids a) = take mx (ack_ids ack) \<and>
    buf_content buf'' = buf_content buf"
proof -
  let ?s = "ack_sent ack mru mx"
  have lens: "length ?s \<le> mx" by (simp add: ack_sent_def)
  then have "ACK_SIZE (length ?s) \<le> ACK_SIZE mx" by (rule ACK_SIZE_mono)
  then have "int (length (ack_bytes ?s sid)) \<le> b_offset buf"
    using assms(8) length_ack_bytes [OF assms(6)] by simp
  then obtain b where b: "buf_write_prepend buf (ack_bytes ?s sid) = Some b"
    using buf_prepend_succeeds [OF assms(4)] by blast
  then have bc: "buf_ok b" "buf_content b = ack_bytes ?s sid @ buf_content buf"
    using buf_prepend_content [OF assms(4)] by auto
  obtain mru' where w: "reliable_ack_write ack mru buf sid mx True =
      Some (True, ack_remove_first (min (ack_len ack) mx) ack, mru', b)"
    using reliable_ack_write_direct [OF assms(1,2,4,5,6), of mx True] b by auto
  have rm: "ack_ids (ack_remove_first (min (ack_len ack) mx) ack) = drop mx (ack_ids ack)"
    using ack_remove_first_ids [OF assms(1), of "min (ack_len ack) mx"] length_ack_ids [OF assms(1)]
    by (cases "ack_len ack \<le> mx") (auto simp: min_def)
  obtain b' a where p: "reliable_ack_parse b a0 sid0 = (True, b', a, if ?s = [] then sid0 else sid)"
    "buf_content b' = buf_content buf" "ack_ok a" "ack_ids a = ?s"
    using ack_parse_bytes [OF bc assms(6) _ assms(9), of sid0] lens assms(7) by auto
  have "ack_len a = length ?s" using length_ack_ids [OF p(3)] p(4) by simp
  then have rd: "reliable_ack_read a0 b sid sid0 = (True, b', a)"
    using p(1) assms(5) by (cases "?s = []") (auto simp: reliable_ack_read_def session_id_equal_def)
  obtain zs where "foldr mtf (take mx (ack_ids ack)) (ack_ids mru) = take mx (ack_ids ack) @ zs"
    using foldr_mtf_prefix [of "take mx (ack_ids ack)" "ack_ids mru"] assms(3,7) by (auto simp: min_le_iff_disj)
  then have "take (length (take mx (ack_ids ack))) ?s = take mx (ack_ids ack)"
    by (cases "length (ack_ids ack) \<le> mx") (simp_all add: ack_sent_def min_def)
  with w rm rd p show ?thesis by auto
qed

theorem ack_wire_roundtrip_witness:
  "\<exists>ack' mru' buf' buf'' a.
    reliable_ack_write \<lparr>ack_len = 2, ack_packet_id = [5, 9, 0, 0, 0, 0, 0, 0]\<rparr>
      \<lparr>ack_len = 1, ack_packet_id = [9, 0, 0, 0, 0, 0, 0, 0]\<rparr>
      \<lparr>b_capacity = 60, b_offset = 50, b_len = 3, b_data = Some (replicate 60 7)\<rparr> (replicate 8 1) 4 True =
      Some (True, ack', mru', buf') \<and>
    ack_ids ack' = drop 4 [5, 9] \<and>
    reliable_ack_read \<lparr>ack_len = 0, ack_packet_id = replicate 8 0\<rparr> buf' (replicate 8 1) [] = (True, buf'', a) \<and>
    take (length (take 4 [5 :: u32, 9])) (ack_ids a) = take 4 [5, 9] \<and>
    buf_content buf'' = buf_content \<lparr>b_capacity = 60, b_offset = 50, b_len = 3, b_data = Some (replicate 60 7)\<rparr>"
proof -
  let ?a = "\<lparr>ack_len = 2, ack_packet_id = [5, 9, 0, 0, 0, 0, 0, 0]\<rparr>"
  let ?m = "\<lparr>ack_len = 1, ack_packet_id = [9, 0, 0, 0, 0, 0, 0, 0]\<rparr>"
  let ?b = "\<lparr>b_capacity = 60, b_offset = 50, b_len = 3, b_data = Some (replicate 60 7)\<rparr>"
  have ids: "ack_ids ?a = [5, 9]" by (simp add: ack_ids_def)
  have h: "ack_ok ?a" "ack_ok ?m" "distinct (ack_ids ?a)" "buf_ok ?b"
    by (simp_all add: ids) (simp_all add: ack_ok_def rel_consts buf_ok_def)
  show ?thesis
    by (rule ack_wire_roundtrip [OF h, unfolded ids])
      (simp_all add: session_id_defined_def rel_consts ACK_SIZE_def)
qed

text \<open>
  C21. Receiving never fails. In a receive buffer whose ids lie in the window, and while fewer than
  \<open>2^31\<close> packets have been taken out, any packet the peer sends is handled without a failed assertion;
  the window invariant is kept, and the packet is either stored once under its id or the stored
  packets are unchanged.
\<close>

theorem receive_safe:
  assumes "rx_inv rel" "unat (r_packet_id rel) \<le> 2 ^ 31" "buf_ok buf"
  shows "\<exists>ok buf' rel' ack'. tls_receive_control op buf rel ack = Some (ok, buf', rel', ack') \<and>
    rx_inv rel' \<and> rx_effect rel (buf_content buf) rel'"
  using assms by (rule tls_receive_control_step)

theorem receive_safe_witness:
  "\<exists>rel ok buf' rel' ack'. reliable_init 64 16 3 False = Some rel \<and>
    tls_receive_control 4 \<lparr>b_capacity = 6, b_offset = 0, b_len = 6, b_data = Some [0, 0, 0, 1, 65, 66]\<rparr> rel
      \<lparr>ack_len = 0, ack_packet_id = replicate 8 0\<rparr> = Some (ok, buf', rel', ack') \<and> rx_inv rel'"
proof -
  obtain rel where rel: "reliable_init 64 16 3 False = Some rel"
    using reliable_init_succeeds [of 64 16 3 False] by (auto simp: BUF_SIZE_MAX_def rel_consts)
  show ?thesis
    using receive_safe [OF reliable_init_inv(1) [OF rel],
        of "\<lparr>b_capacity = 6, b_offset = 0, b_len = 6, b_data = Some [0, 0, 0, 1, 65, 66]\<rparr>" 4
           "\<lparr>ack_len = 0, ack_packet_id = replicate 8 0\<rparr>"] rel reliable_init_inv(4) [OF rel]
    by (auto simp: buf_ok_def)
qed

text \<open>
  No deadlock of the receive buffer. When every entry is occupied, the next packet in sequence is
  among them, so delivery can always make room.
\<close>

theorem full_window_can_deliver:
  assumes "rx_inv rel" "\<not> reliable_can_get rel" "unat (r_packet_id rel) \<le> 2 ^ 31"
  shows "\<exists>i rel'. reliable_get_entry_sequenced rel = Some i \<and> reliable_mark_deleted rel i = Some rel' \<and>
    rx_inv rel' \<and> unat (r_packet_id rel') = Suc (unat (r_packet_id rel))"
  using window_full_next [OF assms(1,2)] deliver_step [OF assms(1,3)] by blast

definition one_slot :: reliable where
  "one_slot = \<lparr>r_size = 1, r_initial_timeout = 0, r_packet_id = 7, r_offset = 0, r_hold = False,
     r_array = clear_entry\<lparr>e_active := True, e_packet_id := 7,
       e_buf := \<lparr>b_capacity = 1, b_offset = 0, b_len = 1, b_data = Some [65]\<rparr>\<rparr> # replicate 11 clear_entry\<rparr>"

theorem full_window_can_deliver_witness:
  "\<exists>i rel'. reliable_get_entry_sequenced one_slot = Some i \<and> reliable_mark_deleted one_slot i = Some rel' \<and>
     rx_inv rel' \<and> unat (r_packet_id rel') = Suc (unat (r_packet_id one_slot))"
proof (rule full_window_can_deliver)
  show "rx_inv one_slot"
    by (simp add: one_slot_def rx_inv_def store_ok_def rel_consts entry_def buf_ok_def ids_distinct_def active_ids_def)
  show "\<not> reliable_can_get one_slot" by (simp add: one_slot_def reliable_can_get_def entry_def)
  show "unat (r_packet_id one_slot) \<le> 2 ^ 31" by (simp add: one_slot_def)
qed

text \<open>
  What \<open>reliable_can_send\<close> promises: it is true exactly when the buffer is not held and
  \<open>reliable_send\<close> would return a packet; that packet is due, the oldest of those that are due, and its
  retransmission interval is doubled.
\<close>

theorem can_send_iff_send:
  assumes "tx_inv rel"
  shows "(reliable_can_send now rel \<longleftrightarrow> \<not> r_hold rel \<and> fst (reliable_send now rel) \<noteq> None) \<and>
    (case reliable_send now rel of
       (None, rel') \<Rightarrow> rel' = rel
     | (Some (i, op), rel') \<Rightarrow> i < r_size rel \<and> e_active (entry rel i) \<and> op = e_opcode (entry rel i) \<and>
         (e_n_acks (entry rel i) \<ge> N_ACK_RETRANSMIT \<or> now \<ge> e_next_try (entry rel i)) \<and>
         (\<forall>j < r_size rel. e_active (entry rel j) \<and> (e_n_acks (entry rel j) \<ge> N_ACK_RETRANSMIT \<or> now \<ge> e_next_try (entry rel j)) \<longrightarrow>
            unat (e_packet_id (entry rel i)) \<le> unat (e_packet_id (entry rel j))) \<and>
         e_next_try (entry rel' i) = now + e_timeout (entry rel i) \<and> e_timeout (entry rel' i) = 2 * e_timeout (entry rel i))"
proof (cases "send_best now rel")
  case None
  then show ?thesis using send_best_spec [OF assms, of now]
    by (auto simp: reliable_can_send_def reliable_send_def filter_empty_conv)
next
  case (Some i)
  note sp = send_best_spec [OF assms, of now, unfolded Some option.case]
  have "reliable_can_send now rel \<longleftrightarrow> \<not> r_hold rel"
    using sp by (auto simp: reliable_can_send_def filter_empty_conv)
  moreover have "i < length (r_array rel)" using sp assms entry_in_array by (simp add: tx_inv_def)
  ultimately show ?thesis using Some sp by (auto simp: reliable_send_def Let_def entry_set_entry)
qed

theorem can_send_iff_send_witness:
  "\<exists>rel. reliable_init 64 16 3 False = Some rel \<and>
    (reliable_can_send 5 rel \<longleftrightarrow> \<not> r_hold rel \<and> fst (reliable_send 5 rel) \<noteq> None)"
proof -
  obtain rel where rel: "reliable_init 64 16 3 False = Some rel"
    using reliable_init_succeeds [of 64 16 3 False] by (auto simp: BUF_SIZE_MAX_def rel_consts)
  have "tx_inv rel" using reliable_init_inv(2) [OF rel] by simp
  from can_send_iff_send [OF this, of 5] rel show ?thesis by auto
qed

text \<open>
  Acknowledgements free exactly the acknowledged packets: after \<open>reliable_send_purge\<close> the packets
  still to be retransmitted are those whose id is not in the record, with their contents, and the
  invariant of the sender is kept.
\<close>

theorem purge_exact:
  assumes "tx_inv rel" "ack_ok ack"
  shows "stored (reliable_send_purge rel ack) = {x \<in> stored rel. fst x \<notin> set (ack_ids ack)} \<and>
    tx_inv (reliable_send_purge rel ack) \<and> r_packet_id (reliable_send_purge rel ack) = r_packet_id rel"
  using send_purge_stored [OF assms] by simp

theorem purge_exact_witness:
  "\<exists>rel. reliable_init 64 16 3 False = Some rel \<and>
    tx_inv (reliable_send_purge rel \<lparr>ack_len = 1, ack_packet_id = replicate 8 3\<rparr>)"
proof -
  obtain rel where rel: "reliable_init 64 16 3 False = Some rel"
    using reliable_init_succeeds [of 64 16 3 False] by (auto simp: BUF_SIZE_MAX_def rel_consts)
  have "tx_inv rel" using reliable_init_inv(2) [OF rel] by simp
  from purge_exact [OF this, of "\<lparr>ack_len = 1, ack_packet_id = replicate 8 3\<rparr>"] rel show ?thesis
    by (auto simp: ack_ok_def rel_consts)
qed

text \<open>
  That the ids stay below \<open>2^31\<close> is needed. The two window tests together do not implement their comments for a
  base above \<open>2^31\<close>: with the next expected id \<open>0xF0000000\<close> and a window of 12, id 1, which is
  \<open>0x10000001\<close> ahead, is taken as inside the window and as not a replay.
\<close>

theorem window_test_inexact:
  "reliable_pid_in_range2 1 0xF0000000 12 \<and> \<not> reliable_pid_min 1 0xF0000000 \<and>
   \<not> reliable_pid_in_range1 1 0xF0000000 12"
  by (simp add: reliable_pid_in_range2_def reliable_pid_min_def reliable_pid_in_range1_def subtract_pid_def)

end
