(* ===== verification/Control_Channel.thy ===== *)
theory Control_Channel
  imports Reliable
begin

text \<open>
  The parts of \<open>ssl.c\<close> that drive the reliability layer: splitting outgoing TLS ciphertext into control
  packets (\<open>write_outgoing_tls_ciphertext\<close>), taking packets out of the receive buffer in order
  (\<open>tls_process_state\<close>), the early negotiation block of the reset packet
  (\<open>parse_early_negotiation_tlvs\<close>) and the first packet (\<open>session_move_pre_start\<close>). The TLS library is a
  parameter: \<open>rc n\<close> is the status and the bytes that \<open>key_state_read_ciphertext\<close> delivers into a buffer
  of \<open>n\<close> bytes.

  The second half puts a sender and a receiver on a network that loses, duplicates and reorders
  packets, and shows that the receiver's TLS library sees a prefix of what the sender's produced.
\<close>

definition TLS_CHANNEL_BUF_SIZE :: int where "TLS_CHANNEL_BUF_SIZE = 2048"
definition P_CONTROL_V1 :: int where "P_CONTROL_V1 = 4"
definition P_CONTROL_WKC_V1 :: int where "P_CONTROL_WKC_V1 = 11"
definition P_CONTROL_HARD_RESET_CLIENT_V2 :: int where "P_CONTROL_HARD_RESET_CLIENT_V2 = 7"
definition P_CONTROL_HARD_RESET_SERVER_V2 :: int where "P_CONTROL_HARD_RESET_SERVER_V2 = 8"
definition P_CONTROL_HARD_RESET_CLIENT_V3 :: int where "P_CONTROL_HARD_RESET_CLIENT_V3 = 10"
definition CO_RESEND_WKC :: u32 where "CO_RESEND_WKC = 16"
definition TLV_TYPE_EARLY_NEG_FLAGS :: int where "TLV_TYPE_EARLY_NEG_FLAGS = 1"
definition EARLY_NEG_FLAG_RESEND_WKC :: u16 where "EARLY_NEG_FLAG_RESEND_WKC = 1"

section \<open>Outgoing ciphertext\<close>

definition control_packet_needs_wkc :: "u32 \<Rightarrow> reliable \<Rightarrow> bool" where
  "control_packet_needs_wkc flags rel \<longleftrightarrow> flags AND CO_RESEND_WKC \<noteq> 0 \<and> r_packet_id rel = 1"

text \<open>
  The loop that splits the ciphertext. \<^term>\<open>None\<close> is the failed \<open>ASSERT(buf)\<close>, or a loop that does not
  end. The result of \<open>buf_copy_n\<close> is ignored, as in the source.
\<close>

partial_function (option) outgoing_loop :: "u32 \<Rightarrow> int \<Rightarrow> int \<Rightarrow> buffer \<Rightarrow> reliable \<Rightarrow> reliable option" where
  "outgoing_loop flags wkc_len max_pkt_len tmp rel =
     (if b_len tmp > 0
      then (let needs = control_packet_needs_wkc flags rel;
                opcode = (if needs then P_CONTROL_WKC_V1 else P_CONTROL_V1);
                len0 = (if needs then max_int 0 (max_pkt_len - wkc_len) else max_pkt_len);
                len = min_int len0 (b_len tmp)
            in case reliable_get_buf_output_sequenced rel of
                 None \<Rightarrow> None
               | Some (None, rel1) \<Rightarrow> None
               | Some (Some i, rel1) \<Rightarrow>
                   (case buf_copy_n (e_buf (entry rel1 i)) tmp len of
                      (copied, b, tmp') \<Rightarrow>
                        (case reliable_mark_active_outgoing (set_entry rel1 i ((entry rel1 i)\<lparr>e_buf := b\<rparr>)) i opcode of
                           None \<Rightarrow> None
                         | Some rel2 \<Rightarrow> outgoing_loop flags wkc_len max_pkt_len tmp' rel2)))
      else Some rel)"

text \<open>
  The result: the return value, the ciphertext taken from the TLS library (\<open>state_change\<close> is set when
  it is not empty) and the send buffer. \<open>overhead\<close> is \<open>calc_control_channel_frame_overhead\<close>,
  \<open>wkc_len\<close> the length of the wrapped client key.
\<close>

definition write_outgoing_tls_ciphertext ::
  "int \<Rightarrow> int \<Rightarrow> u32 \<Rightarrow> int \<Rightarrow> (int \<Rightarrow> int \<times> bytes) \<Rightarrow> reliable \<Rightarrow> (bool \<times> bytes \<times> reliable) option" where
  "write_outgoing_tls_ciphertext tun_mtu overhead flags wkc_len rc rel =
     (let rel_avail = reliable_get_num_output_sequenced_available rel
      in if rel_avail = 0 then Some (True, [], rel)
         else
           (let max_pkt0 = min_int TLS_CHANNEL_BUF_SIZE tun_mtu - overhead;
                maxlen0 = max_pkt0 * rel_avail;
                maxlen1 = (if control_packet_needs_wkc flags rel then maxlen0 - wkc_len else maxlen0);
                (maxlen, max_pkt_len) =
                  (if maxlen1 < 16 then (16, TLS_CHANNEL_BUF_SIZE) else (maxlen1, max_pkt0))
            in case alloc_buf (nat maxlen) of
                 None \<Rightarrow> None
               | Some tmp0 \<Rightarrow>
                   (case rc maxlen of
                      (status, bs) \<Rightarrow>
                        if status = - 1 then Some (False, [], rel)
                        else if status = 1
                        then (case buf_write tmp0 bs of
                                None \<Rightarrow> None
                              | Some tmp \<Rightarrow>
                                  (case outgoing_loop flags wkc_len max_pkt_len tmp rel of
                                     None \<Rightarrow> None | Some rel' \<Rightarrow> Some (True, bs, rel')))
                        else Some (True, [], rel))))"

text \<open>
  \<open>session_move_pre_start\<close>: the first packet of a key negotiation, without payload. The timers and the
  state are set from \<open>now\<close> by the caller and are not part of the send buffer; \<^term>\<open>None\<close> inside is the
  return value false.
\<close>

definition session_move_pre_start :: "int \<Rightarrow> bool \<Rightarrow> reliable \<Rightarrow> reliable option option" where
  "session_move_pre_start initial_opcode skip_initial_send rel =
     (case reliable_get_buf_output_sequenced rel of
        None \<Rightarrow> None
      | Some (None, rel1) \<Rightarrow> Some None
      | Some (Some i, rel1) \<Rightarrow>
          (case reliable_mark_active_outgoing rel1 i initial_opcode of
             None \<Rightarrow> None
           | Some rel2 \<Rightarrow>
               if skip_initial_send
               then (case reliable_mark_deleted rel2 i of None \<Rightarrow> None | Some rel3 \<Rightarrow> Some (Some rel3))
               else Some (Some rel2)))"

section \<open>Incoming packets\<close>

definition is_hard_reset_method2 :: "int \<Rightarrow> bool" where
  "is_hard_reset_method2 op \<longleftrightarrow> op = P_CONTROL_HARD_RESET_CLIENT_V2 \<or> op = P_CONTROL_HARD_RESET_SERVER_V2 \<or>
     op = P_CONTROL_HARD_RESET_CLIENT_V3"

lemma buf_read_u16_len:
  "BLEN b \<ge> 2 \<Longrightarrow> (r, b') = buf_read_u16 b \<Longrightarrow> b_len b' = b_len b - 2 \<and> BLEN b' = BLEN b - 2"
  by (auto simp: buf_read_u16_def buf_read_def buf_read_alloc_def BLEN_def buf_bptr_def buf_valid_def
      split: if_splits option.splits prod.splits)

text \<open>The loop over the (type, length, value) records; the flag is false when the code jumps to \<open>error\<close>.\<close>

function tlv_loop :: "u32 \<Rightarrow> buffer \<Rightarrow> bool \<times> u32 \<times> buffer" where
  "tlv_loop flags b =
     (if b_len b > 0
      then if BLEN b < 4 then (False, flags, b)
           else (case buf_read_u16 b of
                   (t, b1) \<Rightarrow>
                     (case buf_read_u16 b1 of
                        (len, b2) \<Rightarrow>
                          if BLEN b2 < len then (False, flags, b2)
                          else if t = TLV_TYPE_EARLY_NEG_FLAGS
                          then if len \<noteq> 2 then (False, flags, b2)
                               else (case buf_read_u16 b2 of
                                       (f, b3) \<Rightarrow>
                                         tlv_loop (if (word_of_int f :: u16) AND EARLY_NEG_FLAG_RESEND_WKC \<noteq> 0
                                                   then flags OR CO_RESEND_WKC else flags) b3)
                          else (case buf_advance b2 len of
                                  None \<Rightarrow> tlv_loop flags b2
                                | Some b3 \<Rightarrow> tlv_loop flags b3)))
      else (True, flags, b))"
  by pat_completeness auto
termination
proof (relation "measure (\<lambda>(flags, b). nat (b_len b))", goal_cases)
  case (2 flags b t b1 len b2 f b3)
  then show ?case
    using buf_read_u16_len [of b t b1] buf_read_u16_len [of b1 len b2] buf_read_u16_len [of b2 f b3] by auto
next
  case (3 flags b t b1 len b2)
  then show ?case
    using buf_read_u16_len [of b t b1] buf_read_u16_len [of b1 len b2] by auto
next
  case (4 flags b t b1 len b2 b3)
  then show ?case
    using buf_read_u16_len [of b t b1] buf_read_u16_len [of b1 len b2]
    by (auto simp: buf_advance_def split: if_splits)
qed simp

declare tlv_loop.simps [simp del]

definition parse_early_negotiation_tlvs :: "u32 \<Rightarrow> reliable \<Rightarrow> nat \<Rightarrow> (bool \<times> u32 \<times> reliable) option" where
  "parse_early_negotiation_tlvs flags rel i =
     (case tlv_loop flags (e_buf (entry rel i)) of
        (False, flags', b) \<Rightarrow> Some (False, flags', set_entry rel i ((entry rel i)\<lparr>e_buf := b\<rparr>))
      | (True, flags', b) \<Rightarrow>
          (case reliable_mark_deleted (set_entry rel i ((entry rel i)\<lparr>e_buf := b\<rparr>)) i of
             None \<Rightarrow> None | Some rel' \<Rightarrow> Some (True, flags', rel')))"

text \<open>
  The block of \<open>tls_process_state\<close> that hands the next entry in sequence to the TLS library. The first
  component is what the library was given.
\<close>

definition tls_deliver :: "int \<Rightarrow> u32 \<Rightarrow> reliable \<Rightarrow> (bytes option \<times> bool \<times> u32 \<times> reliable) option" where
  "tls_deliver status flags rel =
     (case reliable_get_entry_sequenced rel of
        None \<Rightarrow> Some (None, True, flags, rel)
      | Some i \<Rightarrow>
          if e_packet_id (entry rel i) = 0 \<and> is_hard_reset_method2 (e_opcode (entry rel i))
          then (case parse_early_negotiation_tlvs flags rel i of
                  None \<Rightarrow> None | Some (ok, flags', rel') \<Rightarrow> Some (None, ok, flags', rel'))
          else (case read_incoming_tls_ciphertext status rel i of
                  None \<Rightarrow> None | Some (d, ok, rel') \<Rightarrow> Some (d, ok, flags, rel')))"

section \<open>Splitting keeps the stream\<close>

text \<open>The packets, with their ids, that a list of payloads becomes.\<close>

fun packets :: "u32 \<Rightarrow> bytes list \<Rightarrow> (u32 \<times> bytes) list" where
  "packets p [] = []"
| "packets p (c # cs) = (p, be32 p @ c) # packets (p + 1) cs"

definition room_for :: "reliable \<Rightarrow> bool" where
  "room_for rel \<longleftrightarrow> (\<forall>i < r_size rel. r_offset rel + TLS_CHANNEL_BUF_SIZE \<le> b_capacity (e_buf (entry rel i)))"

lemma same_store_room: "same_store rel rel' \<Longrightarrow> room_for rel \<Longrightarrow> room_for rel'"
  by (simp add: same_store_def room_for_def)

text \<open>How many bytes the loop can place in \<open>n\<close> packets of \<open>m\<close> bytes.\<close>

definition split_capacity :: "bool \<Rightarrow> int \<Rightarrow> int \<Rightarrow> nat \<Rightarrow> int" where
  "split_capacity needs wkc_len m n = (if needs \<and> 0 < n then max 0 (m - wkc_len) + m * int (n - 1) else m * int n)"

lemma outgoing_loop_splits:
  assumes "tx_inv rel" "buf_ok tmp" "0 < m" "m \<le> TLS_CHANNEL_BUF_SIZE" "0 \<le> wkc_len" "room_for rel"
    "int (length (buf_content tmp)) \<le> split_capacity (control_packet_needs_wkc flags rel) wkc_len m (tx_room rel)"
    "unat (r_packet_id rel) + tx_room rel \<le> 2 ^ 31" "r_packet_id rel \<noteq> 0"
  shows "\<exists>rel' cs. outgoing_loop flags wkc_len m tmp rel = Some rel' \<and> tx_inv rel' \<and> room_for rel' \<and>
    concat cs = buf_content tmp \<and> length cs \<le> tx_room rel \<and> r_size rel' = r_size rel \<and>
    r_packet_id rel' = r_packet_id rel + of_nat (length cs) \<and>
    stored rel' = stored rel \<union> set (packets (r_packet_id rel) cs)"
  using assms
proof (induction "tx_room rel" arbitrary: rel tmp)
  case 0
  then have "buf_content tmp = []" by (simp add: split_capacity_def)
  then have "\<not> b_len tmp > 0" using length_buf_content [OF "0.prems"(2)] by simp
  then show ?case using 0 \<open>buf_content tmp = []\<close> by (subst outgoing_loop.simps) (auto intro!: exI [of _ "[]"])
next
  case (Suc n)
  let ?needs = "control_packet_needs_wkc flags rel"
  let ?len0 = "if ?needs then max_int 0 (m - wkc_len) else m"
  show ?case
  proof (cases "b_len tmp > 0")
    case False
    then have "length (buf_content tmp) = 0" using length_buf_content [OF Suc.prems(2)] by linarith
    then show ?thesis using False Suc.prems by (subst outgoing_loop.simps) (auto intro!: exI [of _ "[]"])
  next
    case True
    define k where "k = nat (min_int ?len0 (b_len tmp))"
    have k: "int k = min_int ?len0 (b_len tmp)" "k \<le> length (buf_content tmp)" "int k \<le> TLS_CHANNEL_BUF_SIZE"
      using Suc.prems(3,4,5) True length_buf_content [OF Suc.prems(2)]
      by (auto simp: k_def min_int_def max_int_def)
    have room: "0 < tx_room rel" "unat (r_packet_id rel) < 2 ^ 31" using Suc.hyps(2) Suc.prems(8) by auto
    obtain i rel1 where g: "reliable_get_buf_output_sequenced rel = Some (Some i, rel1)"
      and b1: "buf_ok (e_buf (entry rel1 i))" "buf_content (e_buf (entry rel1 i)) = []"
        "b_offset (e_buf (entry rel1 i)) = r_offset rel"
        "b_capacity (e_buf (entry rel1 i)) = b_capacity (e_buf (entry rel i))" "i < r_size rel"
      and mark: "\<And>b op. buf_ok b \<Longrightarrow> b_offset b = r_offset rel \<Longrightarrow> b_capacity b = b_capacity (e_buf (entry rel i)) \<Longrightarrow>
       \<exists>rel2. reliable_mark_active_outgoing (set_entry rel1 i ((entry rel1 i)\<lparr>e_buf := b\<rparr>)) i op = Some rel2 \<and>
          tx_inv rel2 \<and> r_packet_id rel2 = r_packet_id rel + 1 \<and> tx_room rel2 = tx_room rel - 1 \<and>
          r_size rel2 = r_size rel \<and> r_offset rel2 = r_offset rel \<and>
          (\<forall>j. b_capacity (e_buf (entry rel2 j)) = b_capacity (e_buf (entry rel j))) \<and>
          stored rel2 = insert (r_packet_id rel, be32 (r_packet_id rel) @ buf_content b) (stored rel)"
      using submit_step [OF Suc.prems(1) room] by blast
    have cap: "r_offset rel + TLS_CHANNEL_BUF_SIZE \<le> b_capacity (e_buf (entry rel i))"
      using Suc.prems(6) b1(5) by (simp add: room_for_def)
    obtain b tmp' where cp: "buf_copy_n (e_buf (entry rel1 i)) tmp (int k) = (True, b, tmp')" "buf_ok b" "buf_ok tmp'"
      "buf_content b = take k (buf_content tmp)" "buf_content tmp' = drop k (buf_content tmp)"
      "b_offset b = r_offset rel" "b_capacity b = b_capacity (e_buf (entry rel i))"
      using buf_copy_n_content [OF b1(1) Suc.prems(2) k(2)] k(3) b1 cap
      by (auto simp: BUF_SIZE_MAX_def TLS_CHANNEL_BUF_SIZE_def)
    obtain rel2 where r2: "reliable_mark_active_outgoing (set_entry rel1 i ((entry rel1 i)\<lparr>e_buf := b\<rparr>)) i
          (if ?needs then P_CONTROL_WKC_V1 else P_CONTROL_V1) = Some rel2" "tx_inv rel2"
      "r_packet_id rel2 = r_packet_id rel + 1" "tx_room rel2 = n" "r_size rel2 = r_size rel" "r_offset rel2 = r_offset rel"
      "\<forall>j. b_capacity (e_buf (entry rel2 j)) = b_capacity (e_buf (entry rel j))"
      "stored rel2 = insert (r_packet_id rel, be32 (r_packet_id rel) @ take k (buf_content tmp)) (stored rel)"
      using mark [OF cp(2,6,7)] Suc.hyps(2) cp(4) by (metis diff_Suc_1)
    have up: "unat (r_packet_id rel + 1) = Suc (unat (r_packet_id rel))"
      using room(2) by (simp add: unat_word_ariths)
    have noneed: "\<not> control_packet_needs_wkc flags rel2" "r_packet_id rel2 \<noteq> 0"
      using Suc.prems(9) r2(3) up by (auto simp: control_packet_needs_wkc_def word_unat_eq_iff)
    have fit: "int (length (buf_content tmp')) \<le> m * int n"
      using Suc.prems(3,7) k(1,2) Suc.hyps(2) [symmetric] length_buf_content [OF Suc.prems(2)] True
      by (auto simp: cp(5) split_capacity_def min_int_def max_int_def algebra_simps of_nat_diff split: if_splits)
    have "\<exists>rel' cs. outgoing_loop flags wkc_len m tmp' rel2 = Some rel' \<and> tx_inv rel' \<and> room_for rel' \<and>
        concat cs = buf_content tmp' \<and> length cs \<le> tx_room rel2 \<and> r_size rel' = r_size rel2 \<and>
        r_packet_id rel' = r_packet_id rel2 + of_nat (length cs) \<and>
        stored rel' = stored rel2 \<union> set (packets (r_packet_id rel2) cs)"
      using Suc.prems(3-6,8) Suc.hyps(2) r2 up fit noneed cp(3)
      by (intro Suc.hyps(1)) (auto simp: room_for_def split_capacity_def)
    then obtain rel' cs where ih: "outgoing_loop flags wkc_len m tmp' rel2 = Some rel'" "tx_inv rel'" "room_for rel'"
        "concat cs = buf_content tmp'" "length cs \<le> n" "r_size rel' = r_size rel"
        "r_packet_id rel' = r_packet_id rel2 + of_nat (length cs)"
        "stored rel' = stored rel2 \<union> set (packets (r_packet_id rel2) cs)"
      using r2 by auto
    have "outgoing_loop flags wkc_len m tmp rel = outgoing_loop flags wkc_len m tmp' rel2"
      using True g cp(1) r2(1) by (subst outgoing_loop.simps) (simp add: Let_def k(1) [symmetric])
    then show ?thesis
      using ih r2 cp(5) Suc.hyps(2) [symmetric]
      by (intro exI [of _ rel'] exI [of _ "take k (buf_content tmp) # cs"]) (auto simp: algebra_simps)
  qed
qed

lemma needs_wkc_room:
  assumes "tx_inv rel" "control_packet_needs_wkc flags rel"
  shows "r_size rel \<le> Suc (tx_room rel)"
proof (cases "active_ids rel = {}")
  case False
  then have "Min (unat ` active_ids rel) \<in> unat ` active_ids rel" by (intro Min_in) auto
  then show ?thesis using assms by (auto simp: tx_inv_def control_packet_needs_wkc_def tx_room_def)
qed (simp add: tx_room_def)

lemma split_sizes:
  fixes m0 wkc :: int and R :: nat and n :: bool
  assumes m0: "m0 \<le> 2048" and wkc: "0 \<le> wkc" and R: "0 < R" "R \<le> 12" "n \<longrightarrow> 2 \<le> R"
  defines "ml \<equiv> (if n then m0 * int R - wkc else m0 * int R)"
  defines "maxlen \<equiv> (if ml < 16 then 16 else ml)" and "m \<equiv> (if ml < 16 then 2048 else m0)"
  shows "0 < m" "m \<le> 2048" "maxlen \<le> split_capacity n wkc m R" "0 < maxlen" "maxlen < 1000000"
proof -
  have "0 < m0" if "16 \<le> ml"
  proof (rule ccontr)
    assume "\<not> 0 < m0"
    then have "m0 * int R \<le> 0" by (simp add: mult_nonpos_nonneg)
    then show False using that wkc by (auto simp: ml_def split: if_splits)
  qed
  then show "0 < m" "m \<le> 2048" using m0 by (auto simp: m_def)
  have "int (R - 1) = int R - 1" using R(1) by simp
  then show "maxlen \<le> split_capacity n wkc m R"
    using R by (auto simp: split_capacity_def maxlen_def m_def ml_def algebra_simps)
  have "m0 * int R \<le> 2048 * int R" using m0 by (rule mult_right_mono) simp
  also have "\<dots> \<le> 2048 * 12" using R(2) by simp
  finally show "0 < maxlen" "maxlen < 1000000" using wkc by (auto simp: maxlen_def ml_def)
qed

lemma write_outgoing_splits:
  assumes inv: "tx_inv rel" and rf: "room_for rel" and rc: "\<And>n. int (length (snd (rc n))) \<le> max 0 n"
    and wkc: "0 \<le> wkc_len" and sz: "3 \<le> r_size rel" and ovh: "0 \<le> overhead"
    and pid: "r_packet_id rel \<noteq> 0" "unat (r_packet_id rel) + RELIABLE_CAPACITY \<le> 2 ^ 31"
  shows "\<exists>ok bs rel' cs. write_outgoing_tls_ciphertext tun_mtu overhead flags wkc_len rc rel = Some (ok, bs, rel') \<and>
    tx_inv rel' \<and> room_for rel' \<and> concat cs = bs \<and> r_size rel' = r_size rel \<and> length cs \<le> RELIABLE_CAPACITY \<and>
    r_packet_id rel' = r_packet_id rel + of_nat (length cs) \<and>
    stored rel' = stored rel \<union> set (packets (r_packet_id rel) cs)"
proof -
  have triv: "tx_inv rel \<and> room_for rel \<and> concat [] = ([] :: bytes) \<and> r_size rel = r_size rel \<and> length [] \<le> RELIABLE_CAPACITY \<and>
    r_packet_id rel = r_packet_id rel + of_nat (length []) \<and> stored rel = stored rel \<union> set (packets (r_packet_id rel) [])"
    using inv rf by simp
  define R where "R = tx_room rel"
  have R: "R \<le> 12" using inv by (auto simp: R_def tx_room_def tx_inv_def store_ok_def rel_consts split: if_splits)
  define m0 where "m0 = min_int TLS_CHANNEL_BUF_SIZE tun_mtu - overhead"
  define n where "n = control_packet_needs_wkc flags rel"
  define ml where "ml = (if n then m0 * int R - wkc_len else m0 * int R)"
  define maxlen where "maxlen = (if ml < 16 then 16 else ml)"
  define m where "m = (if ml < 16 then 2048 else m0)"
  have m0: "m0 \<le> 2048" using ovh by (auto simp: m0_def TLS_CHANNEL_BUF_SIZE_def min_int_def)
  show ?thesis
  proof (cases "R = 0")
    case True
    then show ?thesis using triv available_room [OF inv]
      by (intro exI [of _ True] exI [of _ "[]"] exI [of _ rel]) (auto simp: write_outgoing_tls_ciphertext_def R_def)
  next
    case False
    have n2: "n \<longrightarrow> 2 \<le> R" using needs_wkc_room [OF inv, of flags] sz by (auto simp: n_def R_def)
    have "0 < R" using False by simp
    note ss = split_sizes [OF m0 wkc this R n2, folded ml_def, folded maxlen_def m_def]
    note pos = ss(1,2) and fit = ss(3) and max = ss(4,5)
    obtain tmp0 where t0: "alloc_buf (nat maxlen) = Some tmp0" "buf_ok tmp0" "buf_content tmp0 = []"
      "b_capacity tmp0 = maxlen" "b_offset tmp0 = 0"
    proof -
      have "nat maxlen < 1000000" using max by simp
      then show thesis
        using that max alloc_buf_ok [of "nat maxlen"] by (simp add: alloc_buf_def buf_size_valid_def BUF_SIZE_MAX_def)
    qed
    obtain st bs where r: "rc maxlen = (st, bs)" by (cases "rc maxlen")
    have w: "write_outgoing_tls_ciphertext tun_mtu overhead flags wkc_len rc rel =
        (if st = - 1 then Some (False, [], rel) else if st = 1
         then (case buf_write tmp0 bs of None \<Rightarrow> None | Some tmp \<Rightarrow>
                 (case outgoing_loop flags wkc_len m tmp rel of None \<Rightarrow> None | Some rel' \<Rightarrow> Some (True, bs, rel')))
         else Some (True, [], rel))"
    proof -
      have "(if (if n then m0 * int R - wkc_len else m0 * int R) < 16 then (16, TLS_CHANNEL_BUF_SIZE)
          else (if n then m0 * int R - wkc_len else m0 * int R, m0)) = (maxlen, m)"
        by (simp add: maxlen_def m_def ml_def TLS_CHANNEL_BUF_SIZE_def)
      then show ?thesis using False t0(1) r available_room [OF inv]
        by (simp add: write_outgoing_tls_ciphertext_def Let_def flip: R_def n_def m0_def)
    qed
    show ?thesis
    proof (cases "st = 1")
      case False
      then have "write_outgoing_tls_ciphertext tun_mtu overhead flags wkc_len rc rel = Some (st \<noteq> - 1, [], rel)"
        using w by simp
      then show ?thesis using triv by blast
    next
      case True
      have len: "int (length bs) \<le> maxlen" using rc [of maxlen] r max by simp
      obtain tmp where tmp: "buf_write tmp0 bs = Some tmp" "buf_ok tmp" "buf_content tmp = bs"
        using buf_write_fits [OF t0(2), of bs] t0 len max by (auto simp: BUF_SIZE_MAX_def)
      have "\<exists>rel' cs. outgoing_loop flags wkc_len m tmp rel = Some rel' \<and> tx_inv rel' \<and> room_for rel' \<and>
          concat cs = buf_content tmp \<and> length cs \<le> tx_room rel \<and> r_size rel' = r_size rel \<and>
          r_packet_id rel' = r_packet_id rel + of_nat (length cs) \<and>
          stored rel' = stored rel \<union> set (packets (r_packet_id rel) cs)"
        using pos wkc rf len fit pid R tmp
        by (intro outgoing_loop_splits [OF inv]) (auto simp: TLS_CHANNEL_BUF_SIZE_def R_def n_def rel_consts)
      then show ?thesis using w True tmp R by (fastforce simp: R_def rel_consts)
    qed
  qed
qed

section \<open>A sender and a receiver on an unreliable network\<close>

text \<open>
  \<open>c_net\<close> holds every control packet (packet id and payload) ever sent; any of them may arrive, in any
  order, any number of times or never. \<open>c_in\<close> is the ciphertext taken from the sender's TLS library,
  \<open>c_out\<close> what the receiver's TLS library was given.
\<close>

record csys =
  c_tx :: reliable
  c_rx :: reliable
  c_net :: "bytes set"
  c_in :: bytes
  c_out :: bytes

inductive cstep :: "csys \<Rightarrow> csys \<Rightarrow> bool" where
  outgoing: "write_outgoing_tls_ciphertext mtu overhead flags wkc_len rc (c_tx s) = Some (ok, bs, tx') \<Longrightarrow>
    (\<And>n. int (length (snd (rc n))) \<le> max 0 n) \<Longrightarrow> 0 \<le> overhead \<Longrightarrow> 0 \<le> wkc_len \<Longrightarrow>
    unat (r_packet_id (c_tx s)) + RELIABLE_CAPACITY \<le> 2 ^ 31 \<Longrightarrow>
    cstep s (s\<lparr>c_tx := tx', c_in := c_in s @ bs\<rparr>)"
| send: "reliable_send now (c_tx s) = (Some (i, op), tx') \<Longrightarrow>
    cstep s (s\<lparr>c_tx := tx', c_net := insert (buf_content (e_buf (entry tx' i))) (c_net s)\<rparr>)"
| purge: "ack_ok ack \<Longrightarrow> cstep s (s\<lparr>c_tx := reliable_send_purge (c_tx s) ack\<rparr>)"
| receive: "buf_content buf \<in> c_net s \<Longrightarrow> buf_ok buf \<Longrightarrow>
    tls_receive_control op buf (c_rx s) ack = Some (ok, buf', rx', ack') \<Longrightarrow> cstep s (s\<lparr>c_rx := rx'\<rparr>)"
| deliver: "tls_deliver status flags (c_rx s) = Some (d, ok, flags', rx') \<Longrightarrow>
    cstep s (s\<lparr>c_rx := rx', c_out := c_out s @ (case d of None \<Rightarrow> [] | Some bs \<Rightarrow> bs)\<rparr>)"

definition cinit :: "csys \<Rightarrow> bool" where
  "cinit s \<longleftrightarrow> tx_inv (c_tx s) \<and> room_for (c_tx s) \<and> 3 \<le> r_size (c_tx s) \<and> stored (c_tx s) = {} \<and>
     rx_inv (c_rx s) \<and> stored (c_rx s) = {} \<and> r_packet_id (c_rx s) = r_packet_id (c_tx s) \<and>
     r_packet_id (c_tx s) \<noteq> 0 \<and> unat (r_packet_id (c_tx s)) \<le> 2 ^ 31 \<and>
     c_net s = {} \<and> c_in s = [] \<and> c_out s = []"

definition chunk :: "nat \<Rightarrow> bytes list \<Rightarrow> u32 \<Rightarrow> bytes \<Rightarrow> bool" where
  "chunk k cs p d \<longleftrightarrow> k \<le> unat p \<and> unat p < k + length cs \<and> d = cs ! (unat p - k)"

text \<open>\<open>cs\<close> is the list of payloads sent so far; payload \<open>j\<close> has the packet id \<open>k + j\<close>.\<close>

definition sys_inv :: "nat \<Rightarrow> csys \<Rightarrow> bytes list \<Rightarrow> bool" where
  "sys_inv k s cs \<longleftrightarrow> 0 < k \<and> tx_inv (c_tx s) \<and> room_for (c_tx s) \<and> 3 \<le> r_size (c_tx s) \<and> rx_inv (c_rx s) \<and>
     concat cs = c_in s \<and> unat (r_packet_id (c_tx s)) = k + length cs \<and> k + length cs \<le> 2 ^ 31 \<and>
     (\<forall>(p, c) \<in> stored (c_tx s). \<exists>d. c = be32 p @ d \<and> chunk k cs p d) \<and>
     (\<forall>c \<in> c_net s. \<exists>p d. c = be32 p @ d \<and> chunk k cs p d) \<and>
     (\<forall>(p, d) \<in> stored (c_rx s). chunk k cs p d) \<and>
     k \<le> unat (r_packet_id (c_rx s)) \<and> unat (r_packet_id (c_rx s)) \<le> k + length cs \<and>
     c_out s = concat (take (unat (r_packet_id (c_rx s)) - k) cs)"

lemma chunk_mono: "chunk k cs p d \<Longrightarrow> chunk k (cs @ cs') p d"
  by (auto simp: chunk_def nth_append)

lemma packets_chunk:
  assumes "unat p + length ds < 2 ^ 32" "unat p = k + length cs"
  shows "(q, c) \<in> set (packets p ds) \<Longrightarrow> \<exists>d. c = be32 q @ d \<and> chunk k (cs @ ds) q d"
  using assms
proof (induction ds arbitrary: p cs)
  case Nil
  then show ?case by simp
next
  case (Cons d ds)
  have up: "unat (p + 1) = Suc (unat p)" using Cons.prems(2) by (simp add: unat_word_ariths)
  show ?case
  proof (cases "(q, c) = (p, be32 p @ d)")
    case True
    then show ?thesis using Cons.prems(3) by (auto simp: chunk_def)
  next
    case False
    then show ?thesis using Cons.IH [of "p + 1" "cs @ [d]"] Cons.prems up by auto
  qed
qed

lemma sys_inv_init: "cinit s \<Longrightarrow> sys_inv (unat (r_packet_id (c_tx s))) s []"
  by (auto simp: cinit_def sys_inv_def unat_gt_0)

lemma sys_outgoing:
  assumes inv: "sys_inv k s cs"
    and w: "write_outgoing_tls_ciphertext mtu overhead flags wkc_len rc (c_tx s) = Some (ok, bs, tx')"
    and rc: "\<And>n. int (length (snd (rc n))) \<le> max 0 n" and pos: "0 \<le> overhead" "0 \<le> wkc_len"
    and nowrap: "unat (r_packet_id (c_tx s)) + RELIABLE_CAPACITY \<le> 2 ^ 31"
  shows "\<exists>cs'. sys_inv k (s\<lparr>c_tx := tx', c_in := c_in s @ bs\<rparr>) cs'"
proof -
  let ?tx = "c_tx s"
  have pid: "unat (r_packet_id ?tx) = k + length cs" "0 < k" using inv by (auto simp: sys_inv_def)
  then have nz: "r_packet_id ?tx \<noteq> 0" by auto
  obtain ds where ds: "tx_inv tx'" "room_for tx'" "concat ds = bs" "r_size tx' = r_size ?tx"
    "length ds \<le> RELIABLE_CAPACITY" "r_packet_id tx' = r_packet_id ?tx + of_nat (length ds)"
    "stored tx' = stored ?tx \<union> set (packets (r_packet_id ?tx) ds)"
    using write_outgoing_splits [of ?tx rc wkc_len overhead mtu flags] inv w rc pos nz nowrap
    by (auto simp: sys_inv_def)
  have len: "unat (of_nat (length ds) :: u32) = length ds"
    using ds(5) by (simp add: unsigned_of_nat take_bit_nat_eq_self rel_consts)
  have up: "unat (r_packet_id tx') = k + length (cs @ ds)"
    using ds(5,6) len nowrap pid by (simp add: unat_word_ariths rel_consts)
  have st: "\<exists>d. c = be32 p @ d \<and> chunk k (cs @ ds) p d" if "(p, c) \<in> stored tx'" for p c
    using that inv packets_chunk [of "r_packet_id ?tx" ds k cs p c] pid nowrap ds(5) chunk_mono [of k cs]
    by (fastforce simp: ds(7) sys_inv_def rel_consts)
  have "unat (r_packet_id (c_rx s)) - k \<le> length cs" using inv by (auto simp: sys_inv_def)
  then have tk: "take (unat (r_packet_id (c_rx s)) - k) (cs @ ds) = take (unat (r_packet_id (c_rx s)) - k) cs" by simp
  have "sys_inv k (s\<lparr>c_tx := tx', c_in := c_in s @ bs\<rparr>) (cs @ ds)"
    using inv ds st up nowrap tk pid chunk_mono [of k cs]
    unfolding sys_inv_def by (fastforce simp: rel_consts)
  then show ?thesis by blast
qed

lemma tls_deliver_cases:
  assumes "r_packet_id rel \<noteq> 0" "tls_deliver status flags rel = Some (d, ok, flags', rel')"
  shows "d = None \<and> rel' = rel \<or> (\<exists>i. reliable_get_entry_sequenced rel = Some i \<and>
    reliable_mark_deleted rel i = Some rel' \<and> d = Some (buf_content (e_buf (entry rel i))))"
proof (cases "reliable_get_entry_sequenced rel")
  case None
  then show ?thesis using assms(2) by (simp add: tls_deliver_def)
next
  case (Some i)
  then have "e_packet_id (entry rel i) \<noteq> 0"
    using find_idx [OF Some [unfolded reliable_get_entry_sequenced_def]] assms(1) by simp
  then show ?thesis using assms(2) Some
    by (auto simp: tls_deliver_def read_incoming_tls_ciphertext_def Let_def split: if_splits option.splits)
qed

lemma sys_deliver:
  assumes inv: "sys_inv k s cs" and d: "tls_deliver status flags (c_rx s) = Some (d, ok, flags', rx')"
  shows "sys_inv k (s\<lparr>c_rx := rx', c_out := c_out s @ (case d of None \<Rightarrow> [] | Some bs \<Rightarrow> bs)\<rparr>) cs"
proof -
  let ?rx = "c_rx s" and ?p = "unat (r_packet_id (c_rx s))"
  have nz: "r_packet_id ?rx \<noteq> 0" and b: "rx_inv ?rx" "k \<le> ?p" "?p \<le> k + length cs" "?p \<le> 2 ^ 31"
    and chunks: "\<forall>(p, d) \<in> stored ?rx. chunk k cs p d"
    using inv by (auto simp: sys_inv_def)
  consider "d = None" "rx' = ?rx"
    | i where "reliable_get_entry_sequenced ?rx = Some i" "reliable_mark_deleted ?rx i = Some rx'"
      "d = Some (buf_content (e_buf (entry ?rx i)))"
    using tls_deliver_cases [OF nz d] by blast
  then show ?thesis
  proof cases
    case 1
    then show ?thesis using inv by (simp add: sys_inv_def)
  next
    case 2
    let ?c = "buf_content (e_buf (entry ?rx i))"
    have r: "rx_inv rx'" "unat (r_packet_id rx') = Suc ?p" "(r_packet_id ?rx, ?c) \<in> stored ?rx" "stored rx' \<subseteq> stored ?rx"
      using deliver_step [OF b(1,4) 2(1)] 2(2) by auto
    then have "chunk k cs (r_packet_id ?rx) ?c" using chunks by auto
    then have c: "?p < k + length cs" "?c = cs ! (?p - k)" by (auto simp: chunk_def)
    have "take (Suc ?p - k) cs = take (?p - k) cs @ [?c]"
      using c b(2) by (simp add: Suc_diff_le take_Suc_conv_app_nth)
    then show ?thesis using inv r c 2(3) b(2) unfolding sys_inv_def by auto
  qed
qed

lemma sys_receive:
  assumes inv: "sys_inv k s cs" and net: "buf_content buf \<in> c_net s" and buf: "buf_ok buf"
    and r: "tls_receive_control op buf (c_rx s) ack = Some (ok, buf', rx', ack')"
  shows "sys_inv k (s\<lparr>c_rx := rx'\<rparr>) cs"
proof -
  have b: "rx_inv (c_rx s)" "unat (r_packet_id (c_rx s)) \<le> 2 ^ 31" using inv by (auto simp: sys_inv_def)
  obtain p d where c: "buf_content buf = be32 p @ d" "chunk k cs p d"
    using inv net by (auto simp: sys_inv_def)
  have "rx_inv rx'" "rx_effect (c_rx s) (buf_content buf) rx'"
    using tls_receive_control_step [OF b buf, of op ack] r by auto
  then show ?thesis using inv c unfolding sys_inv_def rx_effect_def by auto
qed

lemma sys_send:
  assumes inv: "sys_inv k s cs" and snd: "reliable_send now (c_tx s) = (Some (i, op), tx')"
  shows "sys_inv k (s\<lparr>c_tx := tx', c_net := insert (buf_content (e_buf (entry tx' i))) (c_net s)\<rparr>) cs"
proof -
  have tx: "tx_inv (c_tx s)" using inv by (simp add: sys_inv_def)
  note e = reliable_send_effect [OF tx snd]
  have "room_for tx'" "r_size tx' = r_size (c_tx s)"
    using same_store_room [OF e(7)] inv e(7) by (auto simp: sys_inv_def same_store_def)
  moreover have "\<exists>p d. buf_content (e_buf (entry tx' i)) = be32 p @ d \<and> chunk k cs p d"
    using inv e(5) unfolding sys_inv_def e(6) by blast
  ultimately show ?thesis using inv e(1-3) unfolding sys_inv_def by simp
qed

lemma sys_purge:
  assumes inv: "sys_inv k s cs" and ack: "ack_ok ack"
  shows "sys_inv k (s\<lparr>c_tx := reliable_send_purge (c_tx s) ack\<rparr>) cs"
proof -
  have tx: "tx_inv (c_tx s)" "store_ok (c_tx s)" using inv by (auto simp: sys_inv_def tx_inv_def)
  note e = send_purge_stored [OF tx(1) ack]
  have st: "same_store (c_tx s) (reliable_send_purge (c_tx s) ack)"
    using send_purge_effect [OF tx(2) ack] by simp
  have "room_for (reliable_send_purge (c_tx s) ack)" "r_size (reliable_send_purge (c_tx s) ack) = r_size (c_tx s)"
    using same_store_room [OF st] inv st by (auto simp: sys_inv_def same_store_def)
  then show ?thesis using inv e unfolding sys_inv_def by auto
qed

lemma sys_step: "cstep s s' \<Longrightarrow> sys_inv k s cs \<Longrightarrow> \<exists>cs'. sys_inv k s' cs'"
proof (induction rule: cstep.induct)
  case outgoing
  then show ?case by (intro sys_outgoing)
qed (blast intro: sys_send sys_purge sys_receive sys_deliver)+

lemma sys_reach: "cstep\<^sup>*\<^sup>* s s' \<Longrightarrow> sys_inv k s cs \<Longrightarrow> \<exists>cs'. sys_inv k s' cs'"
  by (induction arbitrary: rule: rtranclp_induct) (blast intro: sys_step)+

text \<open>A concrete start: two stores as \<open>key_state_init\<close> makes them, after the reset packets.\<close>

lemma fresh_stores:
  obtains tx rx where "reliable_init 3000 100 6 False = Some tx" "reliable_init 3000 100 12 False = Some rx"
    "tx_inv (tx\<lparr>r_packet_id := 1\<rparr>)" "room_for (tx\<lparr>r_packet_id := 1\<rparr>)" "r_size tx = 6" "stored tx = {}"
    "rx_inv (rx\<lparr>r_packet_id := 1\<rparr>)" "stored rx = {}"
proof -
  obtain tx rx where i: "reliable_init 3000 100 6 False = Some tx" "reliable_init 3000 100 12 False = Some rx"
    using reliable_init_succeeds [of 3000 100 6 False] reliable_init_succeeds [of 3000 100 12 False]
    by (auto simp: BUF_SIZE_MAX_def rel_consts)
  note t = reliable_init_inv [OF i(1)] and r = reliable_init_inv [OF i(2)]
  have "tx_inv (tx\<lparr>r_packet_id := 1\<rparr>)" "rx_inv (rx\<lparr>r_packet_id := 1\<rparr>)"
    using t(2,3) r(1,3) by (auto simp: tx_inv_def rx_inv_def active_ids_stored)
  moreover have "room_for (tx\<lparr>r_packet_id := 1\<rparr>)"
    using t(5-7) by (auto simp: room_for_def TLS_CHANNEL_BUF_SIZE_def)
  ultimately show thesis using that i t(3,5) r(3) by blast
qed

section \<open>Properties\<close>

text \<open>
  C2. End-to-end order of the control channel. A sender and a receiver start from the same packet id
  after the reset packets. Whatever the network loses, repeats or reorders, whatever acknowledgements
  arrive and however the TLS libraries behave, the bytes the receiver's TLS library has been given are
  at every moment a prefix of the bytes taken from the sender's. (Fewer than \<open>2^31\<close> packets are sent in
  one key negotiation.)
\<close>

theorem control_stream_prefix:
  assumes "cinit s" "cstep\<^sup>*\<^sup>* s s'"
  shows "\<exists>rest. c_in s' = c_out s' @ rest"
proof -
  obtain cs k where "sys_inv k s' cs"
    using sys_reach [OF assms(2) sys_inv_init [OF assms(1)]] by blast
  then have "c_in s' = c_out s' @ concat (drop (unat (r_packet_id (c_rx s')) - k) cs)"
    by (simp add: sys_inv_def flip: concat_append)
  then show ?thesis ..
qed

theorem control_stream_prefix_witness:
  "\<exists>s s'. cinit s \<and> cstep\<^sup>*\<^sup>* s s' \<and> c_in s' = [1, 2, 3] \<and> (\<exists>rest. c_in s' = c_out s' @ rest)"
proof -
  obtain tx rx where st: "reliable_init 3000 100 6 False = Some tx" "reliable_init 3000 100 12 False = Some rx"
    "tx_inv (tx\<lparr>r_packet_id := 1\<rparr>)" "room_for (tx\<lparr>r_packet_id := 1\<rparr>)" "r_size tx = 6" "stored tx = {}"
    "rx_inv (rx\<lparr>r_packet_id := 1\<rparr>)" "stored rx = {}" by (rule fresh_stores)
  let ?tx = "tx\<lparr>r_packet_id := 1\<rparr>"
  let ?s = "\<lparr>c_tx = ?tx, c_rx = rx\<lparr>r_packet_id := 1\<rparr>, c_net = {}, c_in = [], c_out = []\<rparr>"
  let ?rc = "\<lambda>n :: int. if 3 \<le> n then (1 :: int, [1, 2, 3 :: u8]) else (0, [])"
  have init: "cinit ?s" using st by (simp add: cinit_def)
  have rc: "int (length (snd (?rc n))) \<le> max 0 n" for n by simp
  have w: "\<exists>tx'. write_outgoing_tls_ciphertext 1500 100 0 0 ?rc ?tx = Some (True, [1, 2, 3], tx')"
  proof -
    have "tx_room ?tx = 6" using st(5,6) by (simp add: tx_room_def active_ids_stored)
    then have av: "reliable_get_num_output_sequenced_available ?tx = 6" using available_room [OF st(3)] by simp
    obtain ok bs tx' where w: "write_outgoing_tls_ciphertext 1500 100 0 0 ?rc ?tx = Some (ok, bs, tx')"
      using write_outgoing_splits [OF st(3,4) rc, of 0 100 1500 0] st(5) by (auto simp: rel_consts)
    moreover have "ok \<and> bs = [1, 2, 3]"
      using w av by (auto simp: write_outgoing_tls_ciphertext_def Let_def control_packet_needs_wkc_def
          min_int_def TLS_CHANNEL_BUF_SIZE_def alloc_buf_def buf_size_valid_def BUF_SIZE_MAX_def
          split: option.splits)
    ultimately show ?thesis by auto
  qed
  then obtain tx' where "write_outgoing_tls_ciphertext 1500 100 0 0 ?rc (c_tx ?s) = Some (True, [1, 2, 3], tx')" by auto
  then have "cstep ?s (?s\<lparr>c_tx := tx', c_in := c_in ?s @ [1, 2, 3]\<rparr>)"
    by (rule cstep.outgoing) (simp_all add: rel_consts)
  then have run: "cstep\<^sup>*\<^sup>* ?s (?s\<lparr>c_tx := tx', c_in := c_in ?s @ [1, 2, 3]\<rparr>)" by (rule r_into_rtranclp)
  from control_stream_prefix [OF init run] init run show ?thesis by fastforce
qed

text \<open>
  Splitting outgoing ciphertext. In a send buffer that satisfies its invariant and whose entries
  hold a full control frame, \<open>write_outgoing_tls_ciphertext\<close> ends and never fails its assertion that a
  buffer is available, for any tunnel MTU, frame overhead and wrapped key length; the payloads of the
  packets it adds, in the order of their consecutive ids, are exactly the ciphertext taken from the TLS
  library.
\<close>

theorem outgoing_ciphertext_split:
  assumes "tx_inv rel" "room_for rel" "\<And>n. int (length (snd (rc n))) \<le> max 0 n" "0 \<le> wkc_len" "3 \<le> r_size rel"
    "0 \<le> overhead" "r_packet_id rel \<noteq> 0" "unat (r_packet_id rel) + RELIABLE_CAPACITY \<le> 2 ^ 31"
  shows "\<exists>ok bs rel' cs. write_outgoing_tls_ciphertext tun_mtu overhead flags wkc_len rc rel = Some (ok, bs, rel') \<and>
    tx_inv rel' \<and> concat cs = bs \<and> r_packet_id rel' = r_packet_id rel + of_nat (length cs) \<and>
    stored rel' = stored rel \<union> set (packets (r_packet_id rel) cs)"
  using write_outgoing_splits [OF assms, of tun_mtu flags] by blast

theorem outgoing_ciphertext_split_witness:
  "\<exists>tx ok bs rel' cs. reliable_init 3000 100 6 False = Some tx \<and>
    write_outgoing_tls_ciphertext 1500 100 16 700 (\<lambda>n. (1, replicate (nat n) 0)) (tx\<lparr>r_packet_id := 1\<rparr>) = Some (ok, bs, rel') \<and>
    concat cs = bs \<and> stored rel' = stored (tx\<lparr>r_packet_id := 1\<rparr>) \<union> set (packets 1 cs)"
proof -
  obtain tx rx where st: "reliable_init 3000 100 6 False = Some tx" "reliable_init 3000 100 12 False = Some rx"
    "tx_inv (tx\<lparr>r_packet_id := 1\<rparr>)" "room_for (tx\<lparr>r_packet_id := 1\<rparr>)" "r_size tx = 6" "stored tx = {}"
    "rx_inv (rx\<lparr>r_packet_id := 1\<rparr>)" "stored rx = {}" by (rule fresh_stores)
  have "\<And>n :: int. int (length (snd (1 :: int, replicate (nat n) (0 :: u8)))) \<le> max 0 n" by simp
  from outgoing_ciphertext_split [OF st(3,4) this, of 700 100 1500 16] st show ?thesis
    by (fastforce simp: rel_consts)
qed

end
