(* ===== verification/Key_State.thy ===== *)
theory Key_State
  imports Data_Channel Control_Channel
begin

text \<open>
  The keys of the data channel and their life cycle (\<open>ssl.c\<close>, \<open>ssl_common.h\<close>): a \<open>tls_multi\<close> has three sessions (active, initial, lame duck) with
  two keys each (primary and lame duck). A renegotiation makes the primary key of the active session its lame duck and starts a new primary key;
  the old key is used until the new one is ready. When a negotiation fails, the whole session with its lame duck becomes the lame
  duck session.

  Of the structs the fields that the life cycle and the data channel use are modelled. The reliability layer of a key and its TLS
  object are in \<open>Reliable\<close> and \<open>Control_Channel\<close>; here their answers in a call of \<open>tls_process_state\<close> are arguments, as are random session ids, the
  clock and the key contexts that a key expansion yields. Debug printing, the time of the next wakeup and statistics are left out.
\<close>

section \<open>The state\<close>

definition S_ERROR :: int where "S_ERROR = - 1"
definition S_UNDEF :: int where "S_UNDEF = 0"
definition S_INITIAL :: int where "S_INITIAL = 1"
definition S_PRE_START :: int where "S_PRE_START = 2"
definition S_START :: int where "S_START = 3"
definition S_SENT_KEY :: int where "S_SENT_KEY = 4"
definition S_GOT_KEY :: int where "S_GOT_KEY = 5"
definition S_ACTIVE :: int where "S_ACTIVE = 6"
definition S_GENERATED_KEYS :: int where "S_GENERATED_KEYS = 7"

lemmas ks_states = S_ERROR_def S_UNDEF_def S_INITIAL_def S_PRE_START_def S_START_def S_SENT_KEY_def S_GOT_KEY_def S_ACTIVE_def
  S_GENERATED_KEYS_def

definition P_KEY_ID_MASK :: int where "P_KEY_ID_MASK = 7"
definition P_CONTROL_SOFT_RESET_V1 :: int where "P_CONTROL_SOFT_RESET_V1 = 3"
definition P_FIRST_OPCODE :: int where "P_FIRST_OPCODE = 3"
definition P_LAST_OPCODE :: int where "P_LAST_OPCODE = 11"
definition TM_ACTIVE :: nat where "TM_ACTIVE = 0"
definition TM_INITIAL :: nat where "TM_INITIAL = 1"
definition TM_LAME_DUCK :: nat where "TM_LAME_DUCK = 2"
definition TM_SIZE :: nat where "TM_SIZE = 3"
definition KEY_SCAN_SIZE :: nat where "KEY_SCAN_SIZE = 3"

lemmas tm_consts = TM_ACTIVE_def TM_INITIAL_def TM_LAME_DUCK_def TM_SIZE_def KEY_SCAN_SIZE_def

datatype ks_auth_state = KS_AUTH_FALSE | KS_AUTH_DEFERRED | KS_AUTH_TRUE
datatype multi_status = CAS_NOT_CONNECTED | CAS_WAITING_AUTH | CAS_PENDING | CAS_PENDING_DEFERRED | CAS_PENDING_DEFERRED_PARTIAL |
  CAS_FAILED | CAS_WAITING_OPTIONS_IMPORT | CAS_RECONNECT_PENDING | CAS_CONNECT_DONE
datatype auth_deferred_result = ACF_PENDING | ACF_SUCCEEDED | ACF_DISABLED | ACF_FAILED
datatype tls_auth_status = TLS_AUTHENTICATION_SUCCEEDED | TLS_AUTHENTICATION_FAILED | TLS_AUTHENTICATION_DEFERRED
datatype tlsmp = TLSMP_INACTIVE | TLSMP_ACTIVE | TLSMP_KILL | TLSMP_RECONNECT

text \<open>The enumerations are compared by the order of their values.\<close>

primrec ks_auth_value :: "ks_auth_state \<Rightarrow> nat" where
  "ks_auth_value KS_AUTH_FALSE = 0"
| "ks_auth_value KS_AUTH_DEFERRED = 1"
| "ks_auth_value KS_AUTH_TRUE = 2"

primrec multi_value :: "multi_status \<Rightarrow> nat" where
  "multi_value CAS_NOT_CONNECTED = 0"
| "multi_value CAS_WAITING_AUTH = 1"
| "multi_value CAS_PENDING = 2"
| "multi_value CAS_PENDING_DEFERRED = 3"
| "multi_value CAS_PENDING_DEFERRED_PARTIAL = 4"
| "multi_value CAS_FAILED = 5"
| "multi_value CAS_WAITING_OPTIONS_IMPORT = 6"
| "multi_value CAS_RECONNECT_PENDING = 7"
| "multi_value CAS_CONNECT_DONE = 8"

lemma ks_auth_value_inject: "ks_auth_value a = ks_auth_value b \<longleftrightarrow> a = b"
  by (cases a; cases b) simp_all

lemma multi_value_inject: "multi_value a = multi_value b \<longleftrightarrow> a = b"
  by (cases a; cases b) simp_all

instantiation ks_auth_state :: linorder
begin

definition less_eq_ks_auth_state :: "ks_auth_state \<Rightarrow> ks_auth_state \<Rightarrow> bool" where
  "less_eq_ks_auth_state a b \<longleftrightarrow> ks_auth_value a \<le> ks_auth_value b"

definition less_ks_auth_state :: "ks_auth_state \<Rightarrow> ks_auth_state \<Rightarrow> bool" where
  "less_ks_auth_state a b \<longleftrightarrow> ks_auth_value a < ks_auth_value b"

instance
  by standard (auto simp: less_eq_ks_auth_state_def less_ks_auth_state_def ks_auth_value_inject)

end

instantiation multi_status :: linorder
begin

definition less_eq_multi_status :: "multi_status \<Rightarrow> multi_status \<Rightarrow> bool" where
  "less_eq_multi_status a b \<longleftrightarrow> multi_value a \<le> multi_value b"

definition less_multi_status :: "multi_status \<Rightarrow> multi_status \<Rightarrow> bool" where
  "less_multi_status a b \<longleftrightarrow> multi_value a < multi_value b"

instance
  by standard (auto simp: less_eq_multi_status_def less_multi_status_def multi_value_inject)

end

text \<open>
  An address is the memory of \<open>struct openvpn_sockaddr\<close>: family and port lie at the same place for both families, the address of IPv4 is
  separate from that of IPv6.
\<close>

definition AF_INET :: int where "AF_INET = 2"
definition AF_INET6 :: int where "AF_INET6 = 10"

record link_socket_actual =
  sa_family :: int
  sa_port :: u16
  sin_addr :: u32
  sin6_addr :: bytes

record 's key_state =
  ks_state :: int
  ks_key_id :: int
  ks_must_negotiate :: int
  ks_must_die :: int
  ks_established :: int
  ks_initial_opcode :: int
  ks_session_id_remote :: bytes
  ks_remote_addr :: link_socket_actual
  ks_crypto_options :: "'s data_options"
  ks_n_bytes :: "64 word"
  ks_n_packets :: "64 word"
  ks_authenticated :: ks_auth_state
  ks_auth_deferred_expire :: int

record 's tls_session =
  s_initial_opcode :: int
  s_session_id :: bytes
  s_key_id :: int
  s_untrusted_addr :: link_socket_actual
  ks_primary :: "'s key_state"
  ks_lame :: "'s key_state"

record tls_options =
  topt_server :: bool
  topt_mode_server :: bool
  topt_tls_crypt_v2 :: bool
  topt_replay :: bool
  topt_replay_window :: int
  topt_replay_time :: int
  topt_single_session :: bool
  topt_transition_window :: int
  topt_handshake_window :: int
  topt_renegotiate_packets :: int
  topt_renegotiate_bytes :: int
  topt_renegotiate_seconds :: int
  topt_crypto_flags :: u32

record 's tls_multi =
  tm_opt :: tls_options
  tm_save_ks :: "nat option"
  tm_n_sessions :: int
  tm_multi_state :: multi_status
  tm_n_hard_errors :: int
  tm_n_soft_errors :: int
  tm_peer_id :: u32
  tm_use_peer_id :: bool
  tm_session :: "'s tls_session list"

section \<open>Addresses\<close>

definition addr_defined :: "link_socket_actual \<Rightarrow> bool" where
  "addr_defined a = (if sa_family a = AF_INET then sin_addr a \<noteq> 0 else if sa_family a = AF_INET6 then sin6_addr a \<noteq> replicate 16 0 else False)"

definition addr_port_match :: "link_socket_actual \<Rightarrow> link_socket_actual \<Rightarrow> bool option" where
  "addr_port_match a1 a2 =
     (if sa_family a1 = AF_INET then Some (sin_addr a1 = sin_addr a2 \<and> sa_port a1 = sa_port a2)
      else if sa_family a1 = AF_INET6 then Some (sin6_addr a1 = sin6_addr a2 \<and> sa_port a1 = sa_port a2)
      else None)"

definition link_socket_actual_match :: "link_socket_actual \<Rightarrow> link_socket_actual \<Rightarrow> bool option" where
  "link_socket_actual_match a1 a2 = addr_port_match a1 a2"

definition inet_family :: "link_socket_actual \<Rightarrow> bool" where
  "inet_family a \<longleftrightarrow> sa_family a = AF_INET \<or> sa_family a = AF_INET6"

section \<open>Keys and sessions\<close>

text \<open>Memory of zero bytes.\<close>

definition addr_clear :: link_socket_actual where
  "addr_clear = \<lparr>sa_family = 0, sa_port = 0, sin_addr = 0, sin6_addr = replicate 16 0\<rparr>"

definition key_ctx_clear :: "'s key_ctx" where
  "key_ctx_clear = \<lparr>kc_cipher = None, kc_hmac = None, implicit_iv = replicate (nat OPENVPN_MAX_IV_LENGTH) 0, implicit_iv_len = 0\<rparr>"

definition data_options_clear :: "'s data_options" where
  "data_options_clear = \<lparr>co_packet_id = packet_id_clear, co_pid_persist = None, co_flags = 0,
     key_ctx_bi = \<lparr>ctx_encrypt = key_ctx_clear, ctx_decrypt = key_ctx_clear, bi_initialized = False\<rparr>\<rparr>"

definition key_state_clear :: "'s key_state" where
  "key_state_clear = \<lparr>ks_state = S_UNDEF, ks_key_id = 0, ks_must_negotiate = 0, ks_must_die = 0, ks_established = 0, ks_initial_opcode = 0,
     ks_session_id_remote = replicate SID_SIZE 0, ks_remote_addr = addr_clear, ks_crypto_options = data_options_clear,
     ks_n_bytes = 0, ks_n_packets = 0, ks_authenticated = KS_AUTH_FALSE, ks_auth_deferred_expire = 0\<rparr>"

definition tls_session_clear :: "'s tls_session" where
  "tls_session_clear = \<lparr>s_initial_opcode = 0, s_session_id = replicate SID_SIZE 0, s_key_id = 0, s_untrusted_addr = addr_clear,
     ks_primary = key_state_clear, ks_lame = key_state_clear\<rparr>"

definition key_state_init :: "tls_options \<Rightarrow> 's tls_session \<Rightarrow> ('s key_state \<times> 's tls_session) option" where
  "key_state_init opt s = do {
     let k = (s_key_id s + 1) AND P_KEY_ID_MASK;
     pid \<leftarrow> (if topt_replay opt then packet_id_init (topt_replay_window opt) (topt_replay_time opt) ''SSL'' (s_key_id s) else Some packet_id_clear);
     Some (key_state_clear\<lparr>ks_initial_opcode := s_initial_opcode s, ks_state := S_INITIAL, ks_key_id := s_key_id s,
             ks_crypto_options := data_options_clear\<lparr>co_packet_id := pid, co_pid_persist := None\<rparr>\<rparr>,
           s\<lparr>s_initial_opcode := P_CONTROL_SOFT_RESET_V1, s_key_id := if k = 0 then 1 else k\<rparr>) }"

definition free_key_ctx :: "'s key_ctx \<Rightarrow> 's key_ctx" where
  "free_key_ctx c = c\<lparr>kc_cipher := None, kc_hmac := None, implicit_iv_len := 0\<rparr>"

definition free_key_ctx_bi :: "'s key_ctx_bi \<Rightarrow> 's key_ctx_bi" where
  "free_key_ctx_bi b = b\<lparr>ctx_encrypt := free_key_ctx (ctx_encrypt b), ctx_decrypt := free_key_ctx (ctx_decrypt b)\<rparr>"

definition key_state_free :: "'s key_state \<Rightarrow> bool \<Rightarrow> 's key_state" where
  "key_state_free ks clear =
     (if clear then key_state_clear
      else ks\<lparr>ks_state := S_UNDEF, ks_crypto_options := (ks_crypto_options ks)
             \<lparr>key_ctx_bi := free_key_ctx_bi (key_ctx_bi (ks_crypto_options ks)), co_packet_id := packet_id_clear\<rparr>\<rparr>)"

text \<open>\<open>sid\<close> is the first random session id that is not zero.\<close>

definition tls_session_init :: "tls_options \<Rightarrow> bytes \<Rightarrow> 's tls_session option" where
  "tls_session_init opt sid = do {
     let s = tls_session_clear\<lparr>s_session_id := sid, s_initial_opcode :=
       (if topt_server opt then P_CONTROL_HARD_RESET_SERVER_V2
        else if topt_tls_crypt_v2 opt then P_CONTROL_HARD_RESET_CLIENT_V3 else P_CONTROL_HARD_RESET_CLIENT_V2)\<rparr>;
     (ks, s') \<leftarrow> key_state_init opt s;
     Some (s'\<lparr>ks_primary := ks\<rparr>) }"

definition tls_session_free :: "'s tls_session \<Rightarrow> bool \<Rightarrow> 's tls_session" where
  "tls_session_free s clear =
     (if clear then tls_session_clear
      else s\<lparr>ks_primary := key_state_free (ks_primary s) False, ks_lame := key_state_free (ks_lame s) False\<rparr>)"

definition put_session :: "nat \<Rightarrow> 's tls_session \<Rightarrow> 's tls_multi \<Rightarrow> 's tls_multi" where
  "put_session i s m = m\<lparr>tm_session := (tm_session m)[i := s]\<rparr>"

definition move_session :: "'s tls_multi \<Rightarrow> nat \<Rightarrow> nat \<Rightarrow> bool \<Rightarrow> bytes \<Rightarrow> 's tls_multi option" where
  "move_session m dest src reinit_src sid = do {
     ASSERT (src \<noteq> dest \<and> src < TM_SIZE \<and> dest < TM_SIZE);
     let m1 = put_session dest (tls_session_free (tm_session m ! dest) False) m;
     let m2 = put_session dest (tm_session m1 ! src) m1;
     s \<leftarrow> (if reinit_src then tls_session_init (tm_opt m) sid else Some tls_session_clear);
     Some (put_session src s m2) }"

definition reset_session :: "'s tls_multi \<Rightarrow> nat \<Rightarrow> bytes \<Rightarrow> 's tls_multi option" where
  "reset_session m i sid = do {
     let m1 = put_session i (tls_session_free (tm_session m ! i) False) m;
     s \<leftarrow> tls_session_init (tm_opt m) sid;
     Some (put_session i s m1) }"

definition tls_multi_init :: "tls_options \<Rightarrow> 's tls_multi" where
  "tls_multi_init opt = \<lparr>tm_opt = opt, tm_save_ks = None, tm_n_sessions = 0, tm_multi_state = CAS_NOT_CONNECTED, tm_n_hard_errors = 0,
     tm_n_soft_errors = 0, tm_peer_id = 0, tm_use_peer_id = False, tm_session = replicate TM_SIZE tls_session_clear\<rparr>"

definition tls_multi_init_finalize :: "'s tls_multi \<Rightarrow> bytes \<Rightarrow> bytes \<Rightarrow> 's tls_multi option" where
  "tls_multi_init_finalize m sid1 sid2 = do {
     s1 \<leftarrow> tls_session_init (tm_opt m) sid1;
     let m1 = put_session TM_ACTIVE s1 m;
     s2 \<leftarrow> tls_session_init (tm_opt m) sid2;
     Some (put_session TM_INITIAL s2 m1) }"

definition lame_duck_must_die :: "int \<Rightarrow> 's tls_session \<Rightarrow> bool option" where
  "lame_duck_must_die now s =
     (let lame = ks_lame s
      in if ks_state lame \<ge> S_INITIAL then do { ASSERT (ks_must_die lame \<noteq> 0); Some (\<not> now < ks_must_die lame) }
         else Some (ks_state lame = S_ERROR))"

definition key_state_soft_reset :: "tls_options \<Rightarrow> int \<Rightarrow> 's tls_session \<Rightarrow> 's tls_session option" where
  "key_state_soft_reset opt now s = do {
     let ks = (ks_primary s)\<lparr>ks_must_die := now + topt_transition_window opt\<rparr>;
     let s1 = s\<lparr>ks_primary := ks, ks_lame := key_state_free (ks_lame s) False\<rparr>;
     let s2 = s1\<lparr>ks_lame := ks\<rparr>;
     (ks', s3) \<leftarrow> key_state_init opt s2;
     Some (s3\<lparr>ks_primary := ks'\<lparr>ks_session_id_remote := ks_session_id_remote (ks_lame s3), ks_remote_addr := ks_remote_addr (ks_lame s3)\<rparr>\<rparr>) }"

section \<open>Generation of keys\<close>

text \<open>
  The result of a key expansion: the contexts of \<open>init_key_ctx_bi\<close> for both directions with the bytes that their implicit IVs are taken
  from, or nothing when the library fails or the key is weak.
\<close>

type_synonym 's expansion = "('s key_ctx \<times> bytes \<times> 's key_ctx \<times> bytes) option"

definition init_key_contexts :: "'s key_ctx \<times> bytes \<times> 's key_ctx \<times> bytes \<Rightarrow> 's key_state \<Rightarrow> 's key_state option" where
  "init_key_contexts x ks =
     (case x of (enc, k_out, dec, k_in) \<Rightarrow> do {
        e \<leftarrow> key_ctx_update_implicit_iv enc k_out;
        d \<leftarrow> key_ctx_update_implicit_iv dec k_in;
        Some (ks\<lparr>ks_crypto_options := (ks_crypto_options ks)\<lparr>key_ctx_bi := \<lparr>ctx_encrypt = e, ctx_decrypt = d, bi_initialized = True\<rparr>\<rparr>\<rparr>) })"

definition generate_key_expansion :: "'s expansion \<Rightarrow> 's key_state \<Rightarrow> (bool \<times> 's key_state) option" where
  "generate_key_expansion x ks =
     (if bi_initialized (key_ctx_bi (ks_crypto_options ks)) then Some (False, ks)
      else case x of
             None \<Rightarrow> Some (False, ks)
           | Some c \<Rightarrow> do { ks' \<leftarrow> init_key_contexts c ks; Some (True, ks') })"

definition tls_limit_reneg_bytes :: "bool \<Rightarrow> tls_options \<Rightarrow> tls_options" where
  "tls_limit_reneg_bytes insecure opt =
     (if insecure \<and> topt_renegotiate_bytes opt = - 1 then opt\<lparr>topt_renegotiate_bytes := 64 * 1024 * 1024\<rparr> else opt)"

definition tls_session_generate_data_channel_keys ::
    "'s expansion \<Rightarrow> bool \<Rightarrow> tls_options \<Rightarrow> 's tls_session \<Rightarrow> (bool \<times> tls_options \<times> 's tls_session) option" where
  "tls_session_generate_data_channel_keys x insecure opt s =
     (let ks = ks_primary s
      in if ks_authenticated ks \<le> KS_AUTH_FALSE then Some (False, opt, s)
         else do {
           let ks1 = ks\<lparr>ks_crypto_options := (ks_crypto_options ks)\<lparr>co_flags := topt_crypto_flags opt\<rparr>\<rparr>;
           (ok, ks2) \<leftarrow> generate_key_expansion x ks1;
           Some (if ok then (True, tls_limit_reneg_bytes insecure opt, s\<lparr>ks_primary := ks2\<lparr>ks_state := S_GENERATED_KEYS\<rparr>\<rparr>)
                 else (False, opt, s\<lparr>ks_primary := ks2\<rparr>)) })"

section \<open>Negotiation\<close>

text \<open>
  The answers that a call of \<open>tls_process_state\<close> gets: the clock, whether a send buffer is free (\<open>session_move_pre_start\<close>), whether all sent packets
  are acknowledged, whether a packet is sent to the peer, and success and progress of each exchange with the TLS library. \<open>pe_key_read\<close> is the
  authentication that \<open>key_method_2_read\<close> finds, or nothing when it fails.
\<close>

record ps_env =
  pe_now :: int
  pe_get_buf :: bool
  pe_send_empty :: bool
  pe_sends :: bool
  pe_cipher_in_ok :: bool
  pe_cipher_in :: bool
  pe_plain_in_ok :: bool
  pe_plain_in :: bool
  pe_write_empty :: bool
  pe_key_write :: bool
  pe_has_plain :: bool
  pe_key_read :: "ks_auth_state option"
  pe_plain_out_ok :: bool
  pe_plain_out :: bool
  pe_cipher_out_ok :: bool
  pe_cipher_out :: bool

definition auth_deferred_expire_window :: "tls_options \<Rightarrow> int" where
  "auth_deferred_expire_window opt =
     (let ret = topt_handshake_window opt; r2 = topt_renegotiate_seconds opt div 2
      in if topt_renegotiate_seconds opt \<noteq> 0 \<and> r2 < ret then r2 else ret)"

definition move_pre_start :: "tls_options \<Rightarrow> ps_env \<Rightarrow> 's key_state \<Rightarrow> bool \<times> 's key_state" where
  "move_pre_start opt e ks =
     (if pe_get_buf e
      then (True, ks\<lparr>ks_must_negotiate := pe_now e + topt_handshake_window opt,
              ks_auth_deferred_expire := pe_now e + auth_deferred_expire_window opt, ks_state := S_PRE_START\<rparr>)
      else (False, ks))"

definition session_move_active :: "tls_options \<Rightarrow> ps_env \<Rightarrow> multi_status \<Rightarrow> 's key_state \<Rightarrow> multi_status \<times> 's key_state" where
  "session_move_active opt e ms ks =
     (if ms = CAS_NOT_CONNECTED then (if topt_mode_server opt then CAS_WAITING_AUTH else CAS_WAITING_OPTIONS_IMPORT) else ms,
      ks\<lparr>ks_established := pe_now e, ks_state := S_ACTIVE, ks_must_negotiate := 0\<rparr>)"

definition ps_error :: "multi_status \<Rightarrow> 's key_state \<Rightarrow> bool \<times> multi_status \<times> 's key_state" where
  "ps_error ms ks = (False, ms, ks\<lparr>ks_state := S_ERROR\<rparr>)"

text \<open>The part of \<open>tls_process_state\<close> behind the exchange of ciphertext, from sending and receiving the key on.\<close>

definition ps_keys :: "tls_options \<Rightarrow> ps_env \<Rightarrow> bool \<Rightarrow> multi_status \<Rightarrow> 's key_state \<Rightarrow> bool \<times> multi_status \<times> 's key_state" where
  "ps_keys opt e ch ms ks =
     (let send = pe_write_empty e \<and> (ks_state ks = S_START \<and> \<not> topt_server opt \<or> ks_state ks = S_GOT_KEY \<and> topt_server opt)
      in if send \<and> \<not> pe_key_write e then ps_error ms ks
         else let ks1 = (if send then ks\<lparr>ks_state := S_SENT_KEY\<rparr> else ks);
                  receive = pe_has_plain e \<and> (ks_state ks1 = S_SENT_KEY \<and> \<not> topt_server opt \<or> ks_state ks1 = S_START \<and> topt_server opt)
              in if receive \<and> pe_key_read e = None then ps_error ms (ks1\<lparr>ks_authenticated := KS_AUTH_FALSE\<rparr>)
                 else let ks2 = (if receive then ks1\<lparr>ks_authenticated := the (pe_key_read e), ks_state := S_GOT_KEY\<rparr> else ks1)
                      in if \<not> pe_plain_out_ok e then ps_error ms ks2
                         else if ks_state ks2 \<ge> S_START \<and> \<not> pe_cipher_out_ok e then ps_error ms ks2
                         else (ch \<or> send \<or> receive \<or> pe_plain_out e \<or> ks_state ks2 \<ge> S_START \<and> pe_cipher_out e, ms, ks2))"

definition tls_process_state :: "tls_options \<Rightarrow> ps_env \<Rightarrow> multi_status \<Rightarrow> 's key_state \<Rightarrow> bool \<times> multi_status \<times> 's key_state" where
  "tls_process_state opt e ms ks =
     (let (ch1, ks1) = (if ks_state ks = S_INITIAL then move_pre_start opt e ks else (False, ks))
      in if pe_now e \<ge> ks_must_negotiate ks1 \<and> ks_state ks1 < S_ACTIVE then ps_error ms ks1
         else let (ch2, ks2) = (if ks_state ks1 = S_PRE_START \<and> pe_send_empty e then (True, ks1\<lparr>ks_state := S_START\<rparr>) else (ch1, ks1));
                  act = (ks_state ks2 = S_GOT_KEY \<and> \<not> topt_server opt \<or> ks_state ks2 = S_SENT_KEY \<and> topt_server opt) \<and> pe_send_empty e;
                  (ms3, ks3) = (if act then session_move_active opt e ms ks2 else (ms, ks2))
              in if pe_sends e then (True, ms3, ks3)
                 else if \<not> pe_cipher_in_ok e \<or> \<not> pe_plain_in_ok e then ps_error ms3 ks3
                 else ps_keys opt e (ch2 \<or> act \<or> pe_cipher_in e \<or> pe_plain_in e) ms3 ks3)"

text \<open>The loop of \<open>tls_process\<close>: one entry of the list for each round.\<close>

fun process_rounds :: "tls_options \<Rightarrow> ps_env list \<Rightarrow> multi_status \<Rightarrow> 's key_state \<Rightarrow> multi_status \<times> 's key_state" where
  "process_rounds opt [] ms ks = (ms, ks)"
| "process_rounds opt (e # es) ms ks =
     (case tls_process_state opt e ms ks of
        (ch, ms1, ks1) \<Rightarrow> if ks_state ks1 \<noteq> S_ERROR \<and> ch then process_rounds opt es ms1 ks1 else (ms1, ks1))"

definition should_renegotiate :: "tls_options \<Rightarrow> int \<Rightarrow> 's key_state \<Rightarrow> bool" where
  "should_renegotiate opt now ks \<longleftrightarrow> ks_state ks \<ge> S_GENERATED_KEYS \<and>
     (topt_renegotiate_seconds opt \<noteq> 0 \<and> now \<ge> ks_established ks + topt_renegotiate_seconds opt \<or>
      topt_renegotiate_bytes opt > 0 \<and> ks_n_bytes ks \<ge> word_of_int (topt_renegotiate_bytes opt) \<or>
      topt_renegotiate_packets opt \<noteq> 0 \<and> ks_n_packets ks \<ge> word_of_int (topt_renegotiate_packets opt) \<or>
      packet_id_close_to_wrapping (pid_send (co_packet_id (ks_crypto_options ks))))"

definition tls_process :: "tls_options \<Rightarrow> int \<Rightarrow> ps_env list \<Rightarrow> multi_status \<Rightarrow> 's tls_session \<Rightarrow> (multi_status \<times> 's tls_session) option" where
  "tls_process opt now es ms s = do {
     ASSERT (ks_state (ks_primary s) \<noteq> S_UNDEF);
     ASSERT (ks_state (ks_primary s) \<noteq> S_ERROR);
     ASSERT (session_id_defined (s_session_id s));
     s1 \<leftarrow> (if should_renegotiate opt now (ks_primary s) then key_state_soft_reset opt now s else Some s);
     die \<leftarrow> lame_duck_must_die now s1;
     let s2 = (if die then s1\<lparr>ks_lame := key_state_free (ks_lame s1) True\<rparr> else s1);
     let (ms', ks) = process_rounds opt es ms (ks_primary s2);
     Some (ms', s2\<lparr>ks_primary := ks\<rparr>) }"

section \<open>All sessions\<close>

definition get_key_scan :: "'s tls_multi \<Rightarrow> nat \<Rightarrow> 's key_state option" where
  "get_key_scan m i =
     (if i = 0 then Some (ks_primary (tm_session m ! TM_ACTIVE))
      else if i = 1 then Some (ks_lame (tm_session m ! TM_ACTIVE))
      else if i = 2 then Some (ks_lame (tm_session m ! TM_LAME_DUCK))
      else None)"

text \<open>A write through the pointer that \<open>get_key_scan\<close> returns.\<close>

definition put_key_scan :: "nat \<Rightarrow> 's key_state \<Rightarrow> 's tls_multi \<Rightarrow> 's tls_multi" where
  "put_key_scan i ks m =
     (if i = 0 then put_session TM_ACTIVE ((tm_session m ! TM_ACTIVE)\<lparr>ks_primary := ks\<rparr>) m
      else if i = 1 then put_session TM_ACTIVE ((tm_session m ! TM_ACTIVE)\<lparr>ks_lame := ks\<rparr>) m
      else put_session TM_LAME_DUCK ((tm_session m ! TM_LAME_DUCK)\<lparr>ks_lame := ks\<rparr>) m)"

definition get_primary_key :: "'s tls_multi \<Rightarrow> 's key_state" where
  "get_primary_key m = ks_primary (tm_session m ! TM_ACTIVE)"

definition TLS_AUTHENTICATED :: "tls_options \<Rightarrow> 's key_state \<Rightarrow> bool" where
  "TLS_AUTHENTICATED opt ks \<longleftrightarrow> ks_state ks \<ge> S_GOT_KEY - (if topt_server opt then 1 else 0)"

text \<open>\<open>d\<close> are the results of deferred authentication by plugin, script and management.\<close>

definition update_key_auth_status :: "int \<Rightarrow> auth_deferred_result list \<Rightarrow> 's key_state \<Rightarrow> 's key_state" where
  "update_key_auth_status now d ks =
     (if ks_authenticated ks = KS_AUTH_FALSE then ks
      else if ACF_FAILED \<in> set d then ks\<lparr>ks_authenticated := KS_AUTH_FALSE\<rparr>
      else if ACF_PENDING \<in> set d then (if now \<ge> ks_auth_deferred_expire ks then ks\<lparr>ks_authenticated := KS_AUTH_FALSE\<rparr> else ks)
      else ks\<lparr>ks_authenticated := KS_AUTH_TRUE\<rparr>)"

definition update_scan :: "int \<Rightarrow> (nat \<Rightarrow> auth_deferred_result list) \<Rightarrow> nat \<Rightarrow> 's tls_multi \<Rightarrow> 's tls_multi" where
  "update_scan now d i m =
     (case get_key_scan m i of
        None \<Rightarrow> m
      | Some ks \<Rightarrow> if TLS_AUTHENTICATED (tm_opt m) ks then put_key_scan i (update_key_auth_status now (d i) ks) m else m)"

definition tls_authentication_status ::
    "int \<Rightarrow> (nat \<Rightarrow> auth_deferred_result list) \<Rightarrow> 's tls_multi \<Rightarrow> tls_auth_status \<times> 's tls_multi" where
  "tls_authentication_status now d m0 =
     (let m = fold (update_scan now d) [0..<KEY_SCAN_SIZE] m0;
          auths = map (\<lambda>i. ks_authenticated (the (get_key_scan m i)))
            (filter (\<lambda>i. TLS_AUTHENTICATED (tm_opt m) (the (get_key_scan m i))) [0..<KEY_SCAN_SIZE])
      in (if KS_AUTH_FALSE \<in> set auths then TLS_AUTHENTICATION_FAILED
          else if KS_AUTH_TRUE \<in> set auths then TLS_AUTHENTICATION_SUCCEEDED
          else if auths = [] \<or> KS_AUTH_DEFERRED \<in> set auths then TLS_AUTHENTICATION_DEFERRED
          else TLS_AUTHENTICATION_FAILED, m))"

text \<open>
  The inputs of a call of \<open>tls_multi_process\<close>: for each session the clock, the rounds of \<open>tls_process\<close> and a fresh session id, the address of
  the link, the key expansion, and what else the environment decides.
\<close>

record 's mp_env =
  me_time :: "nat \<Rightarrow> int"
  me_rounds :: "nat \<Rightarrow> ps_env list"
  me_sid :: "nat \<Rightarrow> bytes"
  me_link :: link_socket_actual
  me_end :: int
  me_auth :: "nat \<Rightarrow> auth_deferred_result list"
  me_auth2 :: "nat \<Rightarrow> auth_deferred_result list"
  me_expansion :: "'s expansion"
  me_insecure :: bool
  me_active :: bool

text \<open>
  The session that \<open>process_session\<close> works on: with the address of the link when the session is about to
  start.
\<close>

definition link_session :: "'s mp_env \<Rightarrow> nat \<Rightarrow> 's tls_multi \<Rightarrow> 's tls_session" where
  "link_session e i m =
     (let s = tm_session m ! i
      in if i = TM_INITIAL \<and> ks_state (ks_primary s) = S_INITIAL \<and> ks_state (get_primary_key m) \<le> S_INITIAL \<and> addr_defined (me_link e)
         then s\<lparr>ks_primary := (ks_primary s)\<lparr>ks_remote_addr := me_link e\<rparr>\<rparr> else s)"

definition process_session :: "'s mp_env \<Rightarrow> nat \<Rightarrow> bool \<times> 's tls_multi \<Rightarrow> (bool \<times> 's tls_multi) option" where
  "process_session e i em =
     (case em of (error, m0) \<Rightarrow> do {
        let s = link_session e i m0;
        let m = put_session i s m0;
        if ks_state (ks_primary s) \<ge> S_INITIAL \<and> addr_defined (ks_remote_addr (ks_primary s))
        then do {
          (ms, s1) \<leftarrow> tls_process (tm_opt m) (me_time e i) (me_rounds e i) (tm_multi_state m) s;
          let m1 = put_session i s1 (m\<lparr>tm_multi_state := ms\<rparr>);
          if ks_state (ks_primary s1) = S_ERROR
          then do {
            let m2 = m1\<lparr>tm_n_soft_errors := tm_n_soft_errors m1 + 1\<rparr>;
            let error' = (error \<or> i = TM_ACTIVE \<or> i = TM_INITIAL \<and> ks_state (get_primary_key m2) < S_ACTIVE);
            m3 \<leftarrow> (if i = TM_ACTIVE \<and> ks_state (ks_lame s1) \<ge> S_GENERATED_KEYS \<and> \<not> topt_single_session (tm_opt m2)
                  then move_session m2 TM_LAME_DUCK TM_ACTIVE True (me_sid e i)
                  else reset_session m2 i (me_sid e i));
            Some (error', m3) }
          else Some (error, m1) }
        else Some (error, m) })"

text \<open>The parts of \<open>tls_multi_process\<close> behind the loop: generation of keys, end of the lame duck session, and the promotion of a new session.\<close>

definition mp_generate :: "'s mp_env \<Rightarrow> 's tls_multi \<Rightarrow> 's tls_multi option" where
  "mp_generate e m =
     (let s = tm_session m ! TM_ACTIVE; ks = ks_primary s
      in if tm_multi_state m \<ge> CAS_CONNECT_DONE \<and> ks_state ks = S_ACTIVE \<and> ks_authenticated ks = KS_AUTH_TRUE
         then do {
           (ok, opt, s1) \<leftarrow> tls_session_generate_data_channel_keys (me_expansion e) (me_insecure e) (tm_opt m) s;
           Some (put_session TM_ACTIVE
             (if ok then s1 else s1\<lparr>ks_primary := (ks_primary s1)\<lparr>ks_authenticated := KS_AUTH_FALSE, ks_state := S_ERROR\<rparr>\<rparr>) (m\<lparr>tm_opt := opt\<rparr>)) }
         else Some m)"

definition mp_lame_duck :: "'s mp_env \<Rightarrow> 's tls_multi \<Rightarrow> 's tls_multi option" where
  "mp_lame_duck e m = do {
     die \<leftarrow> lame_duck_must_die (me_end e) (tm_session m ! TM_LAME_DUCK);
     Some (if die then put_session TM_LAME_DUCK (tls_session_free (tm_session m ! TM_LAME_DUCK) True) m else m) }"

definition mp_promote :: "'s mp_env \<Rightarrow> tls_auth_status \<Rightarrow> 's tls_multi \<Rightarrow> (tls_auth_status \<times> bool \<times> 's tls_multi) option" where
  "mp_promote e tas m =
     (if TLS_AUTHENTICATED (tm_opt m) (ks_primary (tm_session m ! TM_INITIAL))
      then do {
        m1 \<leftarrow> move_session m TM_ACTIVE TM_INITIAL True (me_sid e TM_SIZE);
        let (tas', m2) = tls_authentication_status (me_end e) (me_auth2 e) m1;
        Some (if tm_multi_state m2 = CAS_CONNECT_DONE then (tas', True, m2\<lparr>tm_multi_state := CAS_RECONNECT_PENDING\<rparr>) else (tas', False, m2)) }
      else Some (tas, False, m))"

definition tls_multi_process :: "'s mp_env \<Rightarrow> 's tls_multi \<Rightarrow> (tlsmp \<times> 's tls_multi) option" where
  "tls_multi_process e m0 = do {
     r0 \<leftarrow> process_session e 0 (False, m0);
     r1 \<leftarrow> process_session e 1 r0;
     (error, m1) \<leftarrow> process_session e 2 r1;
     let (tas, m2) = tls_authentication_status (me_end e) (me_auth e) m1;
     m3 \<leftarrow> mp_generate e m2;
     let m4 = (if tm_multi_state m3 = CAS_WAITING_AUTH \<and> tas = TLS_AUTHENTICATION_SUCCEEDED then m3\<lparr>tm_multi_state := CAS_PENDING\<rparr> else m3);
     m5 \<leftarrow> mp_lame_duck e m4;
     (tas6, reconnect, m6) \<leftarrow> mp_promote e tas m5;
     let m7 = (if error \<and> \<not> (\<exists>i \<in> set [0..<KEY_SCAN_SIZE]. ks_state (the (get_key_scan m6 i)) \<ge> S_ACTIVE)
               then m6\<lparr>tm_n_hard_errors := tm_n_hard_errors m6 + 1\<rparr> else m6);
     Some (if tas6 = TLS_AUTHENTICATION_FAILED then TLSMP_KILL else if reconnect then TLSMP_RECONNECT
           else if me_active e then TLSMP_ACTIVE else TLSMP_INACTIVE, m7) }"

section \<open>Control packets\<close>

text \<open>
  \<open>tls_pre_decrypt\<close> for a control packet, up to the point where the packet is handed to the reliability layer of a session (third
  component of the result). \<open>sid\<close> is the session id read from the packet and \<open>auth\<close> the result of \<open>read_control_auth\<close>; the first component is
  the value of the function.
\<close>

definition soft_error :: "bool \<Rightarrow> 's tls_multi \<Rightarrow> (bool \<times> 's tls_multi \<times> nat option) option" where
  "soft_error ret m = Some (ret, m\<lparr>tm_n_soft_errors := tm_n_soft_errors m + 1\<rparr>, None)"

definition find_session :: "'s tls_multi \<Rightarrow> bytes \<Rightarrow> nat" where
  "find_session m sid =
     (case filter (\<lambda>i. session_id_equal (ks_session_id_remote (ks_primary (tm_session m ! i))) sid) [0..<TM_SIZE] of
        [] \<Rightarrow> TM_SIZE | i # _ \<Rightarrow> i)"

text \<open>The end: the session is known and the packet is authenticated.\<close>

definition control_accept ::
    "'s tls_multi \<Rightarrow> nat \<Rightarrow> bool \<Rightarrow> link_socket_actual \<Rightarrow> bytes \<Rightarrow> int \<Rightarrow> (bool \<times> 's tls_multi \<times> nat option) option" where
  "control_accept m i new_link from sid key_id = do {
     let s = tm_session m ! i;
     let ks = ks_primary s;
     ASSERT (ks_state ks \<noteq> S_UNDEF);
     ASSERT (ks_state ks \<noteq> S_ERROR);
     ASSERT (session_id_defined (s_session_id s));
     matched \<leftarrow> (if new_link then Some True else link_socket_actual_match (ks_remote_addr ks) from);
     if \<not> matched then soft_error True m
     else do {
       let ks1 = (if new_link then ks\<lparr>ks_session_id_remote := sid, ks_remote_addr := from\<rparr> else ks);
       let m1 = (put_session i (s\<lparr>ks_primary := ks1\<rparr>) m)\<lparr>tm_n_sessions := tm_n_sessions m + (if new_link then 1 else 0)\<rparr>;
       if ks_key_id ks1 \<noteq> key_id then soft_error True m1 else Some (True, m1, Some i) } }"

definition tls_pre_decrypt_control ::
    "int \<Rightarrow> 's tls_multi \<Rightarrow> link_socket_actual \<Rightarrow> int \<Rightarrow> int \<Rightarrow> bytes option \<Rightarrow> bool \<Rightarrow> (bool \<times> 's tls_multi \<times> nat option) option" where
  "tls_pre_decrypt_control now m from op key_id rsid auth =
     (let server = topt_server (tm_opt m)
      in if op < P_FIRST_OPCODE \<or> op > P_LAST_OPCODE then soft_error False m
         else if is_hard_reset_method2 op \<and>
           ((op = P_CONTROL_HARD_RESET_CLIENT_V2 \<or> op = P_CONTROL_HARD_RESET_CLIENT_V3) \<and> \<not> server \<or> op = P_CONTROL_HARD_RESET_SERVER_V2 \<and> server)
         then soft_error False m
         else case rsid of
           None \<Rightarrow> soft_error False m
         | Some sid \<Rightarrow>
             if \<not> session_id_defined sid then soft_error False m
             else let i = find_session m sid
                  in if i = TM_LAME_DUCK then soft_error False m
                     else if i = TM_SIZE \<and> is_hard_reset_method2 op
                     then if topt_single_session (tm_opt m) \<and> tm_n_sessions m \<noteq> 0 then soft_error False m
                          else if \<not> auth then soft_error False m
                          else control_accept (put_session TM_INITIAL ((tm_session m ! TM_INITIAL)\<lparr>s_untrusted_addr := from\<rparr>) m) TM_INITIAL True from sid key_id
                     else if i \<noteq> TM_ACTIVE \<and> i \<noteq> TM_INITIAL then soft_error False m
                     else do {
                       let s = tm_session m ! i;
                       matched \<leftarrow> link_socket_actual_match (ks_remote_addr (ks_primary s)) from;
                       if \<not> matched then soft_error False m
                       else if \<not> auth then soft_error False m
                       else do {
                         s1 \<leftarrow> (if op = P_CONTROL_SOFT_RESET_V1 \<and> ks_state (ks_primary s) \<ge> S_GENERATED_KEYS
                               then key_state_soft_reset (tm_opt m) now s else Some s);
                         control_accept (put_session i s1 m) i False from sid key_id } })"

section \<open>The invariant\<close>

definition next_key_id :: "int \<Rightarrow> int" where
  "next_key_id k = (let j = (k + 1) AND P_KEY_ID_MASK in if j = 0 then 1 else j)"

lemma next_key_id_range:
  assumes "0 \<le> k" "k \<le> 7"
  shows "1 \<le> next_key_id k" "next_key_id k \<le> 7" "next_key_id k \<noteq> k"
proof -
  have "k \<in> {0, 1, 2, 3, 4, 5, 6, 7}" using assms by auto
  then show "1 \<le> next_key_id k" "next_key_id k \<le> 7" "next_key_id k \<noteq> k" by (auto simp: next_key_id_def P_KEY_ID_MASK_def Let_def)
qed

definition opts_ok :: "tls_options \<Rightarrow> bool" where
  "opts_ok opt \<longleftrightarrow> 0 \<le> topt_transition_window opt \<and> topt_replay opt \<and> (\<forall>k. packet_id_init (topt_replay_window opt) (topt_replay_time opt) ''SSL'' k \<noteq> None)"

definition key_inited :: "'s key_state \<Rightarrow> bool" where
  "key_inited ks \<longleftrightarrow> bi_initialized (key_ctx_bi (ks_crypto_options ks))"

definition key_id_ok :: "'s key_state \<Rightarrow> bool" where
  "key_id_ok ks \<longleftrightarrow> 0 \<le> ks_key_id ks \<and> ks_key_id ks \<le> 7 \<and> packet_id_initialized (co_packet_id (ks_crypto_options ks))"

text \<open>What every operation keeps of a primary key, also in the error state.\<close>

definition primary_core :: "'s key_state \<Rightarrow> bool" where
  "primary_core ks \<longleftrightarrow> key_id_ok ks \<and> (session_id_defined (ks_session_id_remote ks) \<longrightarrow> inet_family (ks_remote_addr ks)) \<and>
     (ks_state ks = S_GENERATED_KEYS \<longrightarrow> key_inited ks) \<and> (S_INITIAL \<le> ks_state ks \<and> ks_state ks < S_GENERATED_KEYS \<longrightarrow> \<not> key_inited ks)"

definition primary_ok :: "'s key_state \<Rightarrow> bool" where
  "primary_ok ks \<longleftrightarrow> primary_core ks \<and> S_INITIAL \<le> ks_state ks \<and> ks_state ks \<le> S_GENERATED_KEYS"

definition lame_ok :: "'s key_state \<Rightarrow> bool" where
  "lame_ok ks \<longleftrightarrow> ks_state ks = S_UNDEF \<or> ks_state ks = S_GENERATED_KEYS \<and> key_inited ks \<and> ks_must_die ks \<noteq> 0 \<and> key_id_ok ks"

definition session_rest :: "'s tls_session \<Rightarrow> bool" where
  "session_rest s \<longleftrightarrow> lame_ok (ks_lame s) \<and> session_id_defined (s_session_id s) \<and> s_key_id s = next_key_id (ks_key_id (ks_primary s)) \<and>
     (ks_state (ks_lame s) = S_GENERATED_KEYS \<longrightarrow> ks_key_id (ks_primary s) = next_key_id (ks_key_id (ks_lame s)))"

definition session_ok :: "'s tls_session \<Rightarrow> bool" where
  "session_ok s \<longleftrightarrow> primary_ok (ks_primary s) \<and> session_rest s"

definition lame_session_ok :: "'s tls_session \<Rightarrow> bool" where
  "lame_session_ok s \<longleftrightarrow> ks_state (ks_primary s) \<in> {S_UNDEF, S_ERROR} \<and> lame_ok (ks_lame s)"

definition multi_ok :: "'s tls_multi \<Rightarrow> bool" where
  "multi_ok m \<longleftrightarrow> opts_ok (tm_opt m) \<and> (\<exists>a b c. tm_session m = [a, b, c] \<and> session_ok a \<and> session_ok b \<and> lame_session_ok c)"

lemma multi_okE:
  assumes "multi_ok m"
  obtains a b c where "opts_ok (tm_opt m)" "tm_session m = [a, b, c]" "session_ok a" "session_ok b" "lame_session_ok c"
  using assms by (auto simp: multi_ok_def)

lemma clear_facts [simp]:
  "ks_state key_state_clear = S_UNDEF" "lame_ok key_state_clear" "ks_lame tls_session_clear = key_state_clear" "ks_primary tls_session_clear = key_state_clear"
  "lame_session_ok tls_session_clear"
  by (simp_all add: key_state_clear_def lame_ok_def tls_session_clear_def lame_session_ok_def)

lemma session_id_zero [simp]: "\<not> session_id_defined (replicate SID_SIZE 0)"
  by (simp add: session_id_defined_def)

text \<open>The operations on keys and sessions.\<close>

lemma key_state_init_result:
  assumes "opts_ok opt"
  obtains pid where "key_state_init opt s =
    Some (key_state_clear\<lparr>ks_initial_opcode := s_initial_opcode s, ks_state := S_INITIAL, ks_key_id := s_key_id s,
            ks_crypto_options := data_options_clear\<lparr>co_packet_id := pid\<rparr>\<rparr>,
          s\<lparr>s_initial_opcode := P_CONTROL_SOFT_RESET_V1, s_key_id := next_key_id (s_key_id s)\<rparr>)" "packet_id_initialized pid"
proof -
  obtain pid where p: "packet_id_init (topt_replay_window opt) (topt_replay_time opt) ''SSL'' (s_key_id s) = Some pid"
    using assms unfolding opts_ok_def by blast
  then have "packet_id_initialized pid" by (auto simp: packet_id_init_def packet_id_initialized_def Let_def split: if_splits)
  with p assms that show ?thesis
    by (auto simp: key_state_init_def opts_ok_def next_key_id_def Let_def data_options_clear_def)
qed

lemma new_key_ok:
  assumes "packet_id_initialized pid" "0 \<le> k" "k \<le> 7"
  shows "primary_ok (key_state_clear\<lparr>ks_initial_opcode := x, ks_state := S_INITIAL, ks_key_id := k, ks_crypto_options := data_options_clear\<lparr>co_packet_id := pid\<rparr>\<rparr>)"
  using assms by (simp add: primary_ok_def primary_core_def key_id_ok_def key_inited_def ks_states key_state_clear_def data_options_clear_def)

lemma tls_session_init_ok:
  assumes "opts_ok opt" "session_id_defined sid"
  shows "\<exists>s :: 's tls_session. tls_session_init opt sid = Some s \<and> session_ok s \<and> ks_state (ks_primary s) = S_INITIAL \<and> ks_lame s = key_state_clear"
proof -
  define s :: "'s tls_session" where "s = tls_session_clear\<lparr>s_session_id := sid, s_initial_opcode :=
       (if topt_server opt then P_CONTROL_HARD_RESET_SERVER_V2
        else if topt_tls_crypt_v2 opt then P_CONTROL_HARD_RESET_CLIENT_V3 else P_CONTROL_HARD_RESET_CLIENT_V2)\<rparr>"
  have k: "s_key_id s = 0" "ks_lame s = key_state_clear" "s_session_id s = sid" by (simp_all add: s_def tls_session_clear_def)
  let ?ks = "\<lambda>pid. key_state_clear\<lparr>ks_initial_opcode := s_initial_opcode s, ks_state := S_INITIAL, ks_key_id := s_key_id s,
    ks_crypto_options := data_options_clear\<lparr>co_packet_id := pid\<rparr>\<rparr>"
  obtain pid where i: "key_state_init opt s = Some (?ks pid, s\<lparr>s_initial_opcode := P_CONTROL_SOFT_RESET_V1, s_key_id := next_key_id (s_key_id s)\<rparr>)"
    "packet_id_initialized pid"
    using key_state_init_result [OF assms(1)] by blast
  have "tls_session_init opt sid = key_state_init opt s \<bind> (\<lambda>(ks, s'). Some (s'\<lparr>ks_primary := ks\<rparr>))"
    by (simp only: tls_session_init_def s_def Let_def)
  then have "tls_session_init opt sid = Some (s\<lparr>s_initial_opcode := P_CONTROL_SOFT_RESET_V1, s_key_id := next_key_id (s_key_id s), ks_primary := ?ks pid\<rparr>)"
    using i(1) by simp
  moreover have "primary_ok (?ks pid)" by (rule new_key_ok) (use i(2) k(1) in simp_all)
  ultimately show ?thesis using assms(2) k by (simp add: session_ok_def session_rest_def S_UNDEF_def S_GENERATED_KEYS_def)
qed

lemma soft_reset_ok:
  assumes "opts_ok opt" "session_ok s" "ks_state (ks_primary s) = S_GENERATED_KEYS" "0 < now"
  shows "\<exists>s'. key_state_soft_reset opt now s = Some s' \<and> session_ok s' \<and>
    ks_lame s' = (ks_primary s)\<lparr>ks_must_die := now + topt_transition_window opt\<rparr> \<and> ks_state (ks_primary s') = S_INITIAL \<and>
    s_session_id s' = s_session_id s \<and> ks_session_id_remote (ks_primary s') = ks_session_id_remote (ks_primary s) \<and>
    ks_remote_addr (ks_primary s') = ks_remote_addr (ks_primary s)"
proof -
  let ?old = "(ks_primary s)\<lparr>ks_must_die := now + topt_transition_window opt\<rparr>"
  define s2 where "s2 = s\<lparr>ks_primary := ?old, ks_lame := ?old\<rparr>"
  have p: "primary_core (ks_primary s)" "session_rest s" using assms(2) by (auto simp: session_ok_def primary_ok_def)
  have n: "s_key_id s2 = next_key_id (ks_key_id (ks_primary s))" "s_session_id s2 = s_session_id s" "session_id_defined (s_session_id s)"
    using p(2) by (auto simp: s2_def session_rest_def)
  have r: "0 \<le> ks_key_id (ks_primary s)" "ks_key_id (ks_primary s) \<le> 7" using p(1) by (auto simp: primary_core_def key_id_ok_def)
  have w: "now + topt_transition_window opt \<noteq> 0" using assms(1,4) by (auto simp: opts_ok_def)
  obtain pid where i: "key_state_init opt s2 =
    Some (key_state_clear\<lparr>ks_initial_opcode := s_initial_opcode s2, ks_state := S_INITIAL, ks_key_id := s_key_id s2,
            ks_crypto_options := data_options_clear\<lparr>co_packet_id := pid\<rparr>\<rparr>,
          s2\<lparr>s_initial_opcode := P_CONTROL_SOFT_RESET_V1, s_key_id := next_key_id (s_key_id s2)\<rparr>)" "packet_id_initialized pid"
    using key_state_init_result [OF assms(1)] by blast
  have l: "lame_ok ?old" using p(1) w assms(3) by (simp add: lame_ok_def primary_core_def key_id_ok_def key_inited_def ks_states)
  have o: "primary_ok (key_state_clear\<lparr>ks_initial_opcode := s_initial_opcode s2, ks_state := S_INITIAL, ks_key_id := s_key_id s2,
      ks_crypto_options := data_options_clear\<lparr>co_packet_id := pid\<rparr>\<rparr>)"
    by (rule new_key_ok) (use i(2) next_key_id_range [OF r] n(1) in simp_all)
  have "key_state_soft_reset opt now s = Some (s2\<lparr>s_initial_opcode := P_CONTROL_SOFT_RESET_V1, s_key_id := next_key_id (s_key_id s2),
      ks_primary := key_state_clear\<lparr>ks_initial_opcode := s_initial_opcode s2, ks_state := S_INITIAL, ks_key_id := s_key_id s2,
        ks_session_id_remote := ks_session_id_remote (ks_primary s), ks_remote_addr := ks_remote_addr (ks_primary s),
        ks_crypto_options := data_options_clear\<lparr>co_packet_id := pid\<rparr>\<rparr>\<rparr>)"
    using i(1) by (simp add: key_state_soft_reset_def Let_def s2_def)
  then show ?thesis
    using l o p(1) n r by (auto simp: session_ok_def session_rest_def primary_ok_def primary_core_def key_id_ok_def key_inited_def s2_def lame_ok_def)
qed

text \<open>
  Negotiation changes the state, the authentication and times of a key, not its identity, and it neither makes nor leaves the state
  with generated keys except into an error.
\<close>

definition same_key :: "'s key_state \<Rightarrow> 's key_state \<Rightarrow> bool" where
  "same_key ks ks' \<longleftrightarrow> ks_key_id ks' = ks_key_id ks \<and> ks_crypto_options ks' = ks_crypto_options ks \<and>
     ks_session_id_remote ks' = ks_session_id_remote ks \<and> ks_remote_addr ks' = ks_remote_addr ks \<and> ks_must_die ks' = ks_must_die ks"

definition negotiates :: "'s key_state \<Rightarrow> 's key_state \<Rightarrow> bool" where
  "negotiates ks ks' \<longleftrightarrow> same_key ks ks' \<and>
     (ks_state ks' = S_ERROR \<or>
      (if ks_state ks = S_GENERATED_KEYS then ks_state ks' = S_GENERATED_KEYS \<and> ks_authenticated ks' = ks_authenticated ks
       else S_INITIAL \<le> ks_state ks' \<and> ks_state ks' < S_GENERATED_KEYS))"

lemma same_key_refl [simp]: "same_key ks ks"
  by (simp add: same_key_def)

lemma same_key_trans: "same_key a b \<Longrightarrow> same_key b c \<Longrightarrow> same_key a c"
  by (simp add: same_key_def)

lemma negotiates_trans:
  assumes "negotiates a b" "ks_state b \<noteq> S_ERROR" "negotiates b c"
  shows "negotiates a c"
  using assms by (auto simp: negotiates_def ks_states dest: same_key_trans split: if_splits)

lemma negotiates_error [simp]: "negotiates ks (ks\<lparr>ks_state := S_ERROR\<rparr>)"
  by (simp add: negotiates_def same_key_def)

definition live :: "'s key_state \<Rightarrow> bool" where
  "live ks \<longleftrightarrow> S_INITIAL \<le> ks_state ks \<and> ks_state ks \<le> S_GENERATED_KEYS"

lemma live_no_error: "live ks \<Longrightarrow> ks_state ks \<noteq> S_ERROR"
  by (auto simp: live_def ks_states)

lemma ps_keys_negotiates:
  assumes "ps_keys opt e ch ms ks = (ch', ms', ks')" "live ks"
  shows "negotiates ks ks'"
proof -
  define send where "send \<longleftrightarrow> pe_write_empty e \<and> (ks_state ks = S_START \<and> \<not> topt_server opt \<or> ks_state ks = S_GOT_KEY \<and> topt_server opt)"
  define ks1 where "ks1 = (if send then ks\<lparr>ks_state := S_SENT_KEY\<rparr> else ks)"
  define receive where
    "receive \<longleftrightarrow> pe_has_plain e \<and> (ks_state ks1 = S_SENT_KEY \<and> \<not> topt_server opt \<or> ks_state ks1 = S_START \<and> topt_server opt)"
  define ks2 where "ks2 = (if receive then ks1\<lparr>ks_authenticated := the (pe_key_read e), ks_state := S_GOT_KEY\<rparr> else ks1)"
  have n1: "negotiates ks ks1 \<and> live ks1"
    using assms(2) by (cases send) (auto simp: ks1_def send_def live_def negotiates_def same_key_def ks_states)
  have n2: "negotiates ks1 ks2 \<and> live ks2"
    using n1 by (cases receive) (auto simp: ks2_def receive_def live_def negotiates_def same_key_def ks_states)
  have n3: "negotiates ks1 (ks1\<lparr>ks_authenticated := KS_AUTH_FALSE, ks_state := S_ERROR\<rparr>)"
    by (simp add: negotiates_def same_key_def)
  have "ks' = ks\<lparr>ks_state := S_ERROR\<rparr> \<or> ks' = ks1\<lparr>ks_authenticated := KS_AUTH_FALSE, ks_state := S_ERROR\<rparr> \<or>
      ks' = ks2\<lparr>ks_state := S_ERROR\<rparr> \<or> ks' = ks2"
    using assms(1) unfolding ps_keys_def Let_def send_def [symmetric] ks1_def [symmetric] receive_def [symmetric] ks2_def [symmetric]
    by (simp only: ps_error_def prod.inject split: if_splits) auto
  then show ?thesis
    using n1 n2 n3 negotiates_trans live_no_error negotiates_error by metis
qed

lemma move_pre_start_negotiates:
  assumes "move_pre_start opt e ks = (ch, ks')" "ks_state ks = S_INITIAL"
  shows "negotiates ks ks' \<and> live ks'"
  using assms by (auto simp: move_pre_start_def negotiates_def same_key_def live_def ks_states split: if_splits)

lemma ps_keys_state: "ps_keys opt e ch ms ks = (ch', ms', ks') \<Longrightarrow> ms' = ms"
  by (simp add: ps_keys_def ps_error_def Let_def split: if_split_asm)

lemma process_state_negotiates:
  assumes "tls_process_state opt e ms ks = (ch, ms', ks')" "live ks"
  shows "negotiates ks ks' \<and> (ms = CAS_NOT_CONNECTED \<or> ms' = ms)"
proof -
  obtain ch1 ks1 where k1: "(if ks_state ks = S_INITIAL then move_pre_start opt e ks else (False, ks)) = (ch1, ks1)" by fastforce
  have n1: "negotiates ks ks1 \<and> live ks1"
    using k1 move_pre_start_negotiates [of opt e ks ch1 ks1] assms(2) by (auto simp: negotiates_def live_def ks_states split: if_splits)
  define pre where "pre \<longleftrightarrow> ks_state ks1 = S_PRE_START \<and> pe_send_empty e"
  define ks2 where "ks2 = (if pre then ks1\<lparr>ks_state := S_START\<rparr> else ks1)"
  have n2: "negotiates ks1 ks2 \<and> live ks2"
    using n1 by (cases pre) (auto simp: ks2_def pre_def negotiates_def same_key_def live_def ks_states)
  have k2: "(if pre then (True, ks1\<lparr>ks_state := S_START\<rparr>) else (ch1, ks1)) = (pre \<or> ch1, ks2)" by (simp add: ks2_def)
  define act where "act \<longleftrightarrow> (ks_state ks2 = S_GOT_KEY \<and> \<not> topt_server opt \<or> ks_state ks2 = S_SENT_KEY \<and> topt_server opt) \<and> pe_send_empty e"
  obtain ms3 ks3 where k3: "(if act then session_move_active opt e ms ks2 else (ms, ks2)) = (ms3, ks3)" by fastforce
  have ks3: "ks3 = (if act then ks2\<lparr>ks_established := pe_now e, ks_state := S_ACTIVE, ks_must_negotiate := 0\<rparr> else ks2)"
    using k3 by (cases act) (simp_all add: session_move_active_def)
  have ms3: "ms = CAS_NOT_CONNECTED \<or> ms3 = ms" using k3 by (cases act) (simp_all add: session_move_active_def split: if_split_asm)
  have st: "act \<Longrightarrow> ks_state ks2 = S_GOT_KEY \<or> ks_state ks2 = S_SENT_KEY" by (auto simp: act_def)
  have n3: "negotiates ks2 ks3 \<and> live ks3"
    using n2 st unfolding ks3 by (cases act) (auto simp: negotiates_def same_key_def live_def ks_states)
  have r: "ks' = ks1\<lparr>ks_state := S_ERROR\<rparr> \<and> ms' = ms \<or> (ks' = ks3 \<or> ks' = ks3\<lparr>ks_state := S_ERROR\<rparr>) \<and> ms' = ms3 \<or> (\<exists>c. ps_keys opt e c ms3 ks3 = (ch, ms', ks'))"
    using assms(1) unfolding tls_process_state_def k1 Let_def prod.case pre_def [symmetric] k2 act_def [symmetric] k3
    by (simp only: ps_error_def prod.inject split: if_splits) auto
  then have "negotiates ks1 ks'"
  proof (elim disjE exE conjE)
    fix c assume "ps_keys opt e c ms3 ks3 = (ch, ms', ks')"
    then have "negotiates ks3 ks'" using ps_keys_negotiates n3 by blast
    then show ?thesis using n2 n3 negotiates_trans live_no_error by metis
  qed (use n2 n3 negotiates_trans live_no_error negotiates_error in metis)+
  then have "negotiates ks ks'" using n1 negotiates_trans live_no_error by metis
  moreover have "ms = CAS_NOT_CONNECTED \<or> ms' = ms" using r ms3 ps_keys_state by metis
  ultimately show ?thesis by blast
qed

lemma process_rounds_negotiates:
  assumes "process_rounds opt es ms ks = (ms', ks')" "live ks"
  shows "negotiates ks ks' \<and> (ms = CAS_NOT_CONNECTED \<or> ms' = ms)"
  using assms
proof (induction es arbitrary: ms ks)
  case Nil
  then show ?case by (auto simp: negotiates_def live_def ks_states)
next
  case (Cons e es)
  obtain ch ms1 ks1 where st: "tls_process_state opt e ms ks = (ch, ms1, ks1)" by (cases "tls_process_state opt e ms ks") auto
  have n: "negotiates ks ks1" "ms = CAS_NOT_CONNECTED \<or> ms1 = ms" using process_state_negotiates [OF st Cons.prems(2)] by auto
  show ?case
  proof (cases "ks_state ks1 \<noteq> S_ERROR \<and> ch")
    case True
    then have "negotiates ks1 ks' \<and> (ms1 = CAS_NOT_CONNECTED \<or> ms' = ms1)"
      using Cons.IH [of ms1 ks1] Cons.prems(1) Cons.prems(2) st n by (auto simp: negotiates_def live_def ks_states split: if_splits)
    then show ?thesis using negotiates_trans [OF n(1)] n(2) True by blast
  next
    case False
    then show ?thesis using Cons.prems(1) st n by auto
  qed
qed

lemma negotiates_core: "primary_ok ks \<Longrightarrow> negotiates ks ks' \<Longrightarrow> primary_core ks' \<and> (ks_state ks' = S_ERROR \<or> primary_ok ks')"
  by (auto simp: primary_ok_def primary_core_def negotiates_def same_key_def key_id_ok_def key_inited_def ks_states split: if_splits)

lemma primary_live: "primary_ok ks \<Longrightarrow> live ks"
  by (simp add: primary_ok_def live_def)

lemma lame_must_die:
  assumes "lame_ok (ks_lame s)"
  shows "lame_duck_must_die now s = Some (ks_state (ks_lame s) = S_GENERATED_KEYS \<and> ks_must_die (ks_lame s) \<le> now)"
  using assms by (auto simp: lame_duck_must_die_def lame_ok_def ks_states Let_def)

lemma tls_process_parts:
  assumes "opts_ok opt" "session_ok s" "0 < now"
  shows "\<exists>s1 ms' ks'. session_ok s1 \<and> s_session_id s1 = s_session_id s \<and>
    (if should_renegotiate opt now (ks_primary s)
     then ks_lame s1 = (ks_primary s)\<lparr>ks_must_die := now + topt_transition_window opt\<rparr> \<and> ks_state (ks_primary s1) = S_INITIAL else s1 = s) \<and>
    process_rounds opt es ms (ks_primary s1) = (ms', ks') \<and> negotiates (ks_primary s1) ks' \<and> (ms = CAS_NOT_CONNECTED \<or> ms' = ms) \<and>
    tls_process opt now es ms s = Some (ms', s1\<lparr>ks_primary := ks',
      ks_lame := if ks_state (ks_lame s1) = S_GENERATED_KEYS \<and> ks_must_die (ks_lame s1) \<le> now then key_state_clear else ks_lame s1\<rparr>)"
proof -
  have p: "ks_state (ks_primary s) \<noteq> S_UNDEF" "ks_state (ks_primary s) \<noteq> S_ERROR" "session_id_defined (s_session_id s)"
    using assms(2) by (auto simp: session_ok_def primary_ok_def session_rest_def ks_states)
  let ?r = "should_renegotiate opt now (ks_primary s)"
  have "\<exists>s1. (if ?r then key_state_soft_reset opt now s else Some s) = Some s1 \<and> session_ok s1 \<and> s_session_id s1 = s_session_id s \<and>
      (if ?r then ks_lame s1 = (ks_primary s)\<lparr>ks_must_die := now + topt_transition_window opt\<rparr> \<and> ks_state (ks_primary s1) = S_INITIAL else s1 = s)"
  proof (cases ?r)
    case True
    then have g: "ks_state (ks_primary s) = S_GENERATED_KEYS"
      using assms(2) by (auto simp: should_renegotiate_def session_ok_def primary_ok_def)
    show ?thesis using True soft_reset_ok [OF assms(1,2) g assms(3)] by auto
  qed (use assms(2) in simp)
  then obtain s1 where s1: "(if ?r then key_state_soft_reset opt now s else Some s) = Some s1" "session_ok s1" "s_session_id s1 = s_session_id s"
    "if ?r then ks_lame s1 = (ks_primary s)\<lparr>ks_must_die := now + topt_transition_window opt\<rparr> \<and> ks_state (ks_primary s1) = S_INITIAL else s1 = s"
    by blast
  let ?die = "ks_state (ks_lame s1) = S_GENERATED_KEYS \<and> ks_must_die (ks_lame s1) \<le> now"
  have d: "lame_duck_must_die now s1 = Some ?die" using lame_must_die s1(2) by (auto simp: session_ok_def session_rest_def)
  obtain ms' ks' where r: "process_rounds opt es ms (ks_primary s1) = (ms', ks')" by fastforce
  have n: "negotiates (ks_primary s1) ks'" "ms = CAS_NOT_CONNECTED \<or> ms' = ms"
    using process_rounds_negotiates [OF r] s1(2) primary_live by (auto simp: session_ok_def)
  have "tls_process opt now es ms s = Some (ms', s1\<lparr>ks_primary := ks', ks_lame := if ?die then key_state_clear else ks_lame s1\<rparr>)"
    using p d r s1(1) by (auto simp: tls_process_def key_state_free_def Let_def)
  then show ?thesis using s1(2-) n r by blast
qed

lemma session_rest_update:
  assumes "session_rest s" "ks_key_id ks' = ks_key_id (ks_primary s)" "l = key_state_clear \<or> l = ks_lame s"
  shows "session_rest (s\<lparr>ks_primary := ks', ks_lame := l\<rparr>)"
  using assms by (auto simp: session_rest_def ks_states)

lemma tls_process_ok:
  assumes "opts_ok opt" "session_ok s" "0 < now"
  shows "\<exists>ms' s'. tls_process opt now es ms s = Some (ms', s') \<and> session_rest s' \<and>
    (ks_state (ks_primary s') = S_ERROR \<or> primary_ok (ks_primary s'))"
proof -
  obtain s1 ms' ks' where p: "session_ok s1" "negotiates (ks_primary s1) ks'"
    "tls_process opt now es ms s = Some (ms', s1\<lparr>ks_primary := ks',
      ks_lame := if ks_state (ks_lame s1) = S_GENERATED_KEYS \<and> ks_must_die (ks_lame s1) \<le> now then key_state_clear else ks_lame s1\<rparr>)"
    using tls_process_parts [OF assms, of es ms] by blast
  have "ks_key_id ks' = ks_key_id (ks_primary s1)" using p(2) by (simp add: negotiates_def same_key_def)
  then show ?thesis
    using p negotiates_core [of "ks_primary s1" ks'] session_rest_update [of s1 ks'] by (auto simp: session_ok_def)
qed

text \<open>A call of \<open>tls_multi_process\<close> whose clock runs, with fresh session ids that are not zero.\<close>

definition expansion_good :: "'s expansion \<Rightarrow> bool" where
  "expansion_good x \<longleftrightarrow> (case x of None \<Rightarrow> False | Some (enc, k1, dec, k2) \<Rightarrow>
     key_ctx_update_implicit_iv enc k1 \<noteq> None \<and> key_ctx_update_implicit_iv dec k2 \<noteq> None)"

definition mp_good :: "'s mp_env \<Rightarrow> bool" where
  "mp_good e \<longleftrightarrow> (\<forall>i. 0 < me_time e i \<and> session_id_defined (me_sid e i)) \<and> 0 < me_end e"

lemma put_session_simps [simp]:
  "tm_opt (put_session i s m) = tm_opt m" "tm_session (put_session i s m) = (tm_session m)[i := s]"
  "tm_multi_state (put_session i s m) = tm_multi_state m" "tm_n_soft_errors (put_session i s m) = tm_n_soft_errors m"
  by (simp_all add: put_session_def)

lemma process_session_skip:
  assumes "tm_session m ! i = s" "i < length (tm_session m)" "\<not> S_INITIAL \<le> ks_state (ks_primary s)" "i \<noteq> TM_INITIAL"
  shows "process_session e i (error, m) = Some (error, put_session i s m)"
  using assms by (simp add: process_session_def link_session_def Let_def)

lemma less_two: "i < (2 :: nat) \<longleftrightarrow> i = 0 \<or> i = 1"
  by auto

lemma multi_ok_put: "multi_ok m \<Longrightarrow> i < 2 \<Longrightarrow> session_ok s \<Longrightarrow> multi_ok (put_session i s m)"
  by (auto simp: multi_ok_def less_two)

lemma multi_ok_nth: "multi_ok m \<Longrightarrow> i < 2 \<Longrightarrow> session_ok (tm_session m ! i)"
  by (auto simp: multi_ok_def less_two)

lemma reset_session_ok:
  fixes m :: "'s tls_multi"
  assumes "multi_ok m" "i < 2" "session_id_defined sid" "tm_session m2 = (tm_session m)[i := s]" "tm_opt m2 = tm_opt m"
  shows "\<exists>m'. reset_session m2 i sid = Some m' \<and> multi_ok m' \<and> tm_opt m' = tm_opt m \<and>
    (\<exists>s'. tm_session m' = (tm_session m)[i := s'] \<and> session_ok s')"
proof -
  have o: "opts_ok (tm_opt m)" using assms(1) by (simp add: multi_ok_def)
  obtain s' :: "'s tls_session" where s': "tls_session_init (tm_opt m) sid = Some s'" "session_ok s'" using tls_session_init_ok [OF o assms(3)] by blast
  have "multi_ok (put_session i s' m)" using multi_ok_put [OF assms(1,2) s'(2)] .
  then have "multi_ok (put_session i s' (put_session i x m2))" for x using assms(4,5) by (simp add: multi_ok_def)
  then show ?thesis using s' assms(4,5) by (auto simp: reset_session_def Let_def)
qed

lemma move_to_lame_duck_ok:
  fixes m :: "'s tls_multi"
  assumes "multi_ok m" "session_id_defined sid" "tm_session m2 = (tm_session m)[TM_ACTIVE := s]" "tm_opt m2 = tm_opt m"
    "ks_state (ks_primary s) = S_ERROR" "lame_ok (ks_lame s)"
  shows "\<exists>m' s' b. move_session m2 TM_LAME_DUCK TM_ACTIVE True sid = Some m' \<and> multi_ok m' \<and> tm_opt m' = tm_opt m \<and>
    tm_session m' = [s', b, s] \<and> session_ok s'"
proof -
  obtain a b c where m: "opts_ok (tm_opt m)" "tm_session m = [a, b, c]" "session_ok b" using assms(1) by (elim multi_okE)
  obtain s' :: "'s tls_session" where s': "tls_session_init (tm_opt m) sid = Some s'" "session_ok s'" using tls_session_init_ok [OF m(1) assms(2)] by blast
  have "lame_session_ok s" using assms(5,6) by (simp add: lame_session_ok_def)
  then show ?thesis using s' m assms(3,4) by (auto simp: move_session_def multi_ok_def tm_consts Let_def)
qed

lemma addr_defined_family: "addr_defined a \<Longrightarrow> inet_family a"
  by (auto simp: addr_defined_def inet_family_def split: if_splits)

lemma session_ok_addr:
  assumes "session_ok s" "addr_defined a"
  shows "session_ok (s\<lparr>ks_primary := (ks_primary s)\<lparr>ks_remote_addr := a\<rparr>\<rparr>)"
  using assms addr_defined_family by (auto simp: session_ok_def primary_ok_def primary_core_def session_rest_def key_id_ok_def key_inited_def)

lemma process_session_ok:
  assumes "multi_ok m" "mp_good e" "i < 2"
  shows "\<exists>er m'. process_session e i (error, m) = Some (er, m') \<and> multi_ok m' \<and> tm_opt m' = tm_opt m"
proof -
  define s where "s = link_session e i m"
  define m1 where "m1 = put_session i s m"
  have s: "session_ok s" using multi_ok_nth [OF assms(1,3)] session_ok_addr by (auto simp: s_def link_session_def Let_def)
  have m1: "multi_ok m1" "tm_opt m1 = tm_opt m" using multi_ok_put [OF assms(1,3) s] by (auto simp: m1_def)
  note unf = process_session_def Let_def prod.case s_def [symmetric] m1_def [symmetric]
  have o: "opts_ok (tm_opt m)" and t: "0 < me_time e i" "session_id_defined (me_sid e i)" using assms(1,2) by (auto simp: multi_ok_def mp_good_def)
  obtain ms' s1 where p: "tls_process (tm_opt m) (me_time e i) (me_rounds e i) (tm_multi_state m1) s = Some (ms', s1)" "session_rest s1"
    "ks_state (ks_primary s1) = S_ERROR \<or> primary_ok (ks_primary s1)"
    using tls_process_ok [OF o s t(1), of "me_rounds e i" "tm_multi_state m1"] by blast
  define m2 where "m2 = put_session i s1 (m1\<lparr>tm_multi_state := ms'\<rparr>)"
  define m3 where "m3 = m2\<lparr>tm_n_soft_errors := tm_n_soft_errors m2 + 1\<rparr>"
  have m3: "tm_session m3 = (tm_session m1)[i := s1]" "tm_opt m3 = tm_opt m1" by (simp_all add: m3_def m2_def)
  consider (skip) "\<not> (S_INITIAL \<le> ks_state (ks_primary s) \<and> addr_defined (ks_remote_addr (ks_primary s)))"
    | (fine) "S_INITIAL \<le> ks_state (ks_primary s)" "addr_defined (ks_remote_addr (ks_primary s))" "ks_state (ks_primary s1) \<noteq> S_ERROR"
    | (move) "S_INITIAL \<le> ks_state (ks_primary s)" "addr_defined (ks_remote_addr (ks_primary s))" "ks_state (ks_primary s1) = S_ERROR"
        "i = TM_ACTIVE \<and> S_GENERATED_KEYS \<le> ks_state (ks_lame s1) \<and> \<not> topt_single_session (tm_opt m1)"
    | (reset) "S_INITIAL \<le> ks_state (ks_primary s)" "addr_defined (ks_remote_addr (ks_primary s))" "ks_state (ks_primary s1) = S_ERROR"
        "\<not> (i = TM_ACTIVE \<and> S_GENERATED_KEYS \<le> ks_state (ks_lame s1) \<and> \<not> topt_single_session (tm_opt m1))"
    by blast
  then show ?thesis
  proof cases
    case skip
    then show ?thesis using m1 unfolding unf by auto
  next
    case fine
    then have "multi_ok m2" using multi_ok_put [OF m1(1) assms(3)] p(2,3) by (auto simp: m2_def session_ok_def multi_ok_def)
    then show ?thesis using fine p(1) m1(2) unfolding unf by (auto simp: m2_def)
  next
    case move
    then obtain m' where "move_session m3 TM_LAME_DUCK TM_ACTIVE True (me_sid e i) = Some m'" "multi_ok m'" "tm_opt m' = tm_opt m1"
      using move_to_lame_duck_ok [OF m1(1) t(2), of m3 s1] m3 p(2) by (auto simp: session_rest_def)
    then show ?thesis using move p(1) m1(2) unfolding unf by (auto simp: m3_def m2_def)
  next
    case reset
    then obtain m' where "reset_session m3 i (me_sid e i) = Some m'" "multi_ok m'" "tm_opt m' = tm_opt m1"
      using reset_session_ok [OF m1(1) assms(3) t(2), of m3 s1] m3 by auto
    then show ?thesis using reset p(1) m1(2) unfolding unf by (auto simp: m3_def m2_def)
  qed
qed

text \<open>Updates of a key through the scan that keep its identity: authentication, counters and packet ids.\<close>

definition upkeep :: "'s key_state \<Rightarrow> 's key_state \<Rightarrow> bool" where
  "upkeep ks ks' \<longleftrightarrow> ks_key_id ks' = ks_key_id ks \<and> ks_state ks' = ks_state ks \<and> ks_must_die ks' = ks_must_die ks \<and>
     ks_session_id_remote ks' = ks_session_id_remote ks \<and> ks_remote_addr ks' = ks_remote_addr ks \<and>
     key_ctx_bi (ks_crypto_options ks') = key_ctx_bi (ks_crypto_options ks) \<and>
     (packet_id_initialized (co_packet_id (ks_crypto_options ks)) \<longrightarrow> packet_id_initialized (co_packet_id (ks_crypto_options ks')))"

lemma upkeep_refl [simp]: "upkeep ks ks"
  by (simp add: upkeep_def)

lemma upkeep_trans: "upkeep a b \<Longrightarrow> upkeep b c \<Longrightarrow> upkeep a c"
  by (auto simp: upkeep_def)

lemma upkeep_auth: "upkeep ks (ks\<lparr>ks_authenticated := a\<rparr>)"
  by (simp add: upkeep_def)

lemma upkeep_ok:
  assumes "upkeep ks ks'"
  shows "primary_ok ks \<Longrightarrow> primary_ok ks'" "lame_ok ks \<Longrightarrow> lame_ok ks'"
  using assms by (auto simp: upkeep_def primary_ok_def primary_core_def lame_ok_def key_id_ok_def key_inited_def)

lemma upkeep_session:
  assumes "upkeep (ks_primary s) p" "upkeep (ks_lame s) l"
  shows "session_ok s \<Longrightarrow> session_ok (s\<lparr>ks_primary := p\<rparr>)" "session_ok s \<Longrightarrow> session_ok (s\<lparr>ks_lame := l\<rparr>)"
    "lame_session_ok s \<Longrightarrow> lame_session_ok (s\<lparr>ks_lame := l\<rparr>)"
  using assms upkeep_ok [OF assms(1)] upkeep_ok [OF assms(2)]
  by (auto simp: session_ok_def session_rest_def lame_session_ok_def upkeep_def)

lemma put_scan_ok:
  assumes "multi_ok m" "get_key_scan m i = Some ks" "upkeep ks ks'"
  shows "multi_ok (put_key_scan i ks' m)"
proof -
  obtain a b c where m: "opts_ok (tm_opt m)" "tm_session m = [a, b, c]" "session_ok a" "session_ok b" "lame_session_ok c"
    using assms(1) by (elim multi_okE)
  consider "i = 0" "ks = ks_primary a" | "i = 1" "ks = ks_lame a" | "i = 2" "ks = ks_lame c"
    using assms(2) m(2) by (auto simp: get_key_scan_def tm_consts split: if_splits)
  then show ?thesis
    using upkeep_session [of a ks' "ks_lame a"] upkeep_session [of a "ks_primary a" ks'] upkeep_session [of c "ks_primary c" ks'] assms(3) m
    by cases (auto simp: put_key_scan_def multi_ok_def tm_consts)
qed

text \<open>The keys of a scan are the only ones that change.\<close>

definition scan_upkeep :: "'s tls_multi \<Rightarrow> 's tls_multi \<Rightarrow> bool" where
  "scan_upkeep m m' \<longleftrightarrow> tm_opt m' = tm_opt m \<and> tm_multi_state m' = tm_multi_state m \<and>
     (\<forall>i < 3. upkeep (the (get_key_scan m i)) (the (get_key_scan m' i)))"

lemma get_put_scan:
  assumes "length (tm_session m) = 3" "i < 3" "j < 3"
  shows "get_key_scan (put_key_scan i ks m) j = (if i = j then Some ks else get_key_scan m j)"
proof -
  have "i = 0 \<or> i = 1 \<or> i = 2" "j = 0 \<or> j = 1 \<or> j = 2" using assms(2,3) by auto
  moreover obtain a b c where "tm_session m = [a, b, c]" using assms(1) by (auto simp: numeral_3_eq_3 length_Suc_conv)
  ultimately show ?thesis by (elim disjE) (simp_all add: get_key_scan_def put_key_scan_def tm_consts)
qed

lemma update_scan_ok:
  assumes "multi_ok m" "i < 3"
  shows "multi_ok (update_scan now d i m) \<and> scan_upkeep m (update_scan now d i m)"
proof -
  obtain ks where ks: "get_key_scan m i = Some ks" using assms(2) by (auto simp: get_key_scan_def numeral_3_eq_3 less_Suc_eq)
  have l: "length (tm_session m) = 3" using assms(1) by (auto simp: multi_ok_def)
  have "upkeep ks (update_key_auth_status now (d i) ks)" by (simp add: update_key_auth_status_def upkeep_auth)
  then have "multi_ok (put_key_scan i (update_key_auth_status now (d i) ks) m)" "scan_upkeep m (put_key_scan i (update_key_auth_status now (d i) ks) m)"
    using put_scan_ok [OF assms(1) ks] get_put_scan [OF l assms(2)] ks
    by (auto simp: scan_upkeep_def) (auto simp: put_key_scan_def)
  then show ?thesis using assms(1) ks by (simp add: update_scan_def) (simp add: scan_upkeep_def)
qed

lemma scan_upkeep_trans: "scan_upkeep a b \<Longrightarrow> scan_upkeep b c \<Longrightarrow> scan_upkeep a c"
  by (auto simp: scan_upkeep_def intro: upkeep_trans)

lemma authentication_status_ok:
  assumes "multi_ok m" "tls_authentication_status now d m = (tas, m')"
  shows "multi_ok m' \<and> scan_upkeep m m'"
proof -
  have "m' = fold (update_scan now d) [0..<KEY_SCAN_SIZE] m"
    using assms(2) unfolding tls_authentication_status_def Let_def prod.inject by simp
  moreover have "[0..<KEY_SCAN_SIZE] = [0, 1, 2]" by (simp add: KEY_SCAN_SIZE_def upt_rec numeral_2_eq_2)
  ultimately have "m' = fold (update_scan now d) [0, 1, 2] m" by (simp only:)
  moreover have u0: "multi_ok (update_scan now d 0 m)" "scan_upkeep m (update_scan now d 0 m)" using update_scan_ok [OF assms(1), of 0] by simp_all
  moreover have u1: "multi_ok (update_scan now d 1 (update_scan now d 0 m))"
    "scan_upkeep (update_scan now d 0 m) (update_scan now d 1 (update_scan now d 0 m))"
    using update_scan_ok [OF u0(1), of 1] by simp_all
  ultimately show ?thesis using update_scan_ok [OF u1(1), of 2 now d] by (auto intro: scan_upkeep_trans)
qed

lemma generate_ok:
  assumes "session_ok s" "ks_state (ks_primary s) = S_ACTIVE" "ks_authenticated (ks_primary s) \<noteq> KS_AUTH_FALSE" "expansion_good x"
  shows "\<exists>s'. tls_session_generate_data_channel_keys x insecure opt s = Some (True, tls_limit_reneg_bytes insecure opt, s') \<and> session_ok s' \<and>
    ks_lame s' = ks_lame s \<and> ks_state (ks_primary s') = S_GENERATED_KEYS \<and> ks_authenticated (ks_primary s') = ks_authenticated (ks_primary s)"
proof -
  have p: "primary_core (ks_primary s)" "session_rest s" "\<not> key_inited (ks_primary s)"
    using assms(1,2) by (auto simp: session_ok_def primary_ok_def primary_core_def ks_states)
  obtain enc k1 dec k2 e d where x: "x = Some (enc, k1, dec, k2)" "key_ctx_update_implicit_iv enc k1 = Some e" "key_ctx_update_implicit_iv dec k2 = Some d"
    using assms(4) by (auto simp: expansion_good_def split: option.splits)
  have a: "\<not> ks_authenticated (ks_primary s) \<le> KS_AUTH_FALSE"
    using assms(3) by (cases "ks_authenticated (ks_primary s)") (simp_all add: less_eq_ks_auth_state_def)
  show ?thesis
    using p x a
    by (auto simp: tls_session_generate_data_channel_keys_def generate_key_expansion_def init_key_contexts_def key_inited_def Let_def
        session_ok_def session_rest_def primary_ok_def primary_core_def key_id_ok_def ks_states)
qed

lemma mp_generate_ok:
  assumes "multi_ok m" "expansion_good (me_expansion e)"
  shows "\<exists>m'. mp_generate e m = Some m' \<and> multi_ok m'"
proof (cases "tm_multi_state m \<ge> CAS_CONNECT_DONE \<and> ks_state (ks_primary (tm_session m ! TM_ACTIVE)) = S_ACTIVE \<and>
    ks_authenticated (ks_primary (tm_session m ! TM_ACTIVE)) = KS_AUTH_TRUE")
  case True
  have s: "session_ok (tm_session m ! TM_ACTIVE)" using multi_ok_nth [OF assms(1), of TM_ACTIVE] by (simp add: TM_ACTIVE_def)
  obtain s' where g: "tls_session_generate_data_channel_keys (me_expansion e) (me_insecure e) (tm_opt m) (tm_session m ! TM_ACTIVE) =
      Some (True, tls_limit_reneg_bytes (me_insecure e) (tm_opt m), s')" "session_ok s'"
    using generate_ok [OF s _ _ assms(2)] True by (metis ks_auth_state.distinct(3))
  have "multi_ok (put_session TM_ACTIVE s' (m\<lparr>tm_opt := tls_limit_reneg_bytes (me_insecure e) (tm_opt m)\<rparr>))"
    using assms(1) g(2) by (auto simp: multi_ok_def opts_ok_def tls_limit_reneg_bytes_def TM_ACTIVE_def)
  then show ?thesis using True g(1) by (simp add: mp_generate_def Let_def)
qed (use assms(1) in \<open>auto simp: mp_generate_def Let_def\<close>)

lemma mp_lame_duck_ok:
  assumes "multi_ok m"
  shows "\<exists>m'. mp_lame_duck e m = Some m' \<and> multi_ok m'"
proof -
  obtain a b c where m: "opts_ok (tm_opt m)" "tm_session m = [a, b, c]" "session_ok a" "session_ok b" "lame_session_ok c"
    using assms by (elim multi_okE)
  have "lame_duck_must_die (me_end e) c = Some (ks_state (ks_lame c) = S_GENERATED_KEYS \<and> ks_must_die (ks_lame c) \<le> me_end e)"
    using m(5) by (intro lame_must_die) (simp add: lame_session_ok_def)
  then show ?thesis
    using m assms by (auto simp: mp_lame_duck_def TM_LAME_DUCK_def tls_session_free_def multi_ok_def)
qed

lemma mp_promote_ok:
  fixes m :: "'s tls_multi"
  assumes "multi_ok m" "mp_good e"
  shows "\<exists>tas' r m'. mp_promote e tas m = Some (tas', r, m') \<and> multi_ok m'"
proof (cases "TLS_AUTHENTICATED (tm_opt m) (ks_primary (tm_session m ! TM_INITIAL))")
  case True
  obtain a b c where m: "opts_ok (tm_opt m)" "tm_session m = [a, b, c]" "session_ok a" "session_ok b" "lame_session_ok c"
    using assms(1) by (elim multi_okE)
  have "session_id_defined (me_sid e TM_SIZE)" using assms(2) by (simp add: mp_good_def)
  then obtain s' :: "'s tls_session" where s': "tls_session_init (tm_opt m) (me_sid e TM_SIZE) = Some s'" "session_ok s'"
    using tls_session_init_ok [OF m(1)] by blast
  obtain m1 where m1: "move_session m TM_ACTIVE TM_INITIAL True (me_sid e TM_SIZE) = Some m1" "multi_ok m1"
    using s' m by (auto simp: move_session_def multi_ok_def tm_consts Let_def)
  obtain tas' m2 where a: "tls_authentication_status (me_end e) (me_auth2 e) m1 = (tas', m2)" by fastforce
  have "multi_ok m2" "multi_ok (m2\<lparr>tm_multi_state := CAS_RECONNECT_PENDING\<rparr>)" using authentication_status_ok [OF m1(2) a] by (auto simp: multi_ok_def)
  then show ?thesis using True m1(1) a by (auto simp: mp_promote_def Let_def)
qed (use assms(1) in \<open>auto simp: mp_promote_def\<close>)

lemma tls_multi_process_ok:
  assumes "multi_ok m" "mp_good e" "expansion_good (me_expansion e)"
  shows "\<exists>r m'. tls_multi_process e m = Some (r, m') \<and> multi_ok m'"
proof -
  obtain e0 m0 where p0: "process_session e 0 (False, m) = Some (e0, m0)" "multi_ok m0" using process_session_ok [OF assms(1,2), of 0 False] by auto
  obtain e1 m1 where p1: "process_session e 1 (e0, m0) = Some (e1, m1)" "multi_ok m1" using process_session_ok [OF p0(2) assms(2), of 1 e0] by auto
  obtain a b c where s: "tm_session m1 = [a, b, c]" "lame_session_ok c" using p1(2) by (elim multi_okE)
  have "\<not> S_INITIAL \<le> ks_state (ks_primary c)" using s(2) by (auto simp: lame_session_ok_def ks_states)
  then have p2: "process_session e 2 (e1, m1) = Some (e1, put_session 2 c m1)" "multi_ok (put_session 2 c m1)"
    using process_session_skip [of m1 2 c e e1] s p1(2) by (auto simp: TM_INITIAL_def multi_ok_def)
  obtain tas m2 where a: "tls_authentication_status (me_end e) (me_auth e) (put_session 2 c m1) = (tas, m2)" by fastforce
  have m2: "multi_ok m2" using authentication_status_ok [OF p2(2) a] by simp
  obtain m3 where m3: "mp_generate e m2 = Some m3" "multi_ok m3" using mp_generate_ok [OF m2 assms(3)] by blast
  define m4 where "m4 = (if tm_multi_state m3 = CAS_WAITING_AUTH \<and> tas = TLS_AUTHENTICATION_SUCCEEDED then m3\<lparr>tm_multi_state := CAS_PENDING\<rparr> else m3)"
  have "multi_ok m4" using m3(2) by (auto simp: m4_def multi_ok_def)
  then obtain m5 where m5: "mp_lame_duck e m4 = Some m5" "multi_ok m5" using mp_lame_duck_ok by blast
  obtain tas6 r m6 where m6: "mp_promote e tas m5 = Some (tas6, r, m6)" "multi_ok m6" using mp_promote_ok [OF m5(2) assms(2)] by blast
  have "multi_ok (m6\<lparr>tm_n_hard_errors := x\<rparr>)" for x using m6(2) by (auto simp: multi_ok_def)
  then show ?thesis
    using p0(1) p1(1) p2(1) a m3(1) m5(1) m6 unfolding tls_multi_process_def by (auto simp: Let_def m4_def [symmetric])
qed

lemma multi_ok_counters [simp]:
  "multi_ok (m\<lparr>tm_n_soft_errors := x\<rparr>) = multi_ok m" "multi_ok (m\<lparr>tm_n_sessions := x\<rparr>) = multi_ok m" "multi_ok (m\<lparr>tm_n_hard_errors := x\<rparr>) = multi_ok m"
  "multi_ok (m\<lparr>tm_multi_state := ms\<rparr>) = multi_ok m" "multi_ok (m\<lparr>tm_save_ks := sk\<rparr>) = multi_ok m" "multi_ok (m\<lparr>tm_peer_id := p\<rparr>) = multi_ok m"
  "multi_ok (m\<lparr>tm_use_peer_id := b\<rparr>) = multi_ok m"
  by (simp_all add: multi_ok_def)

lemma inet_match: "inet_family a \<Longrightarrow> \<exists>b. link_socket_actual_match a x = Some b"
  by (auto simp: link_socket_actual_match_def addr_port_match_def inet_family_def)

lemma control_accept_ok:
  assumes "multi_ok m" "i < 2" "inet_family from" "new_link \<or> inet_family (ks_remote_addr (ks_primary (tm_session m ! i)))"
  shows "\<exists>r m' a. control_accept m i new_link from sid key_id = Some (r, m', a) \<and> multi_ok m'"
proof -
  let ?s = "tm_session m ! i"
  have s: "session_ok ?s" using multi_ok_nth [OF assms(1,2)] .
  then have p: "ks_state (ks_primary ?s) \<noteq> S_UNDEF" "ks_state (ks_primary ?s) \<noteq> S_ERROR" "session_id_defined (s_session_id ?s)"
    by (auto simp: session_ok_def primary_ok_def session_rest_def ks_states)
  obtain matched where mt: "(if new_link then Some True else link_socket_actual_match (ks_remote_addr (ks_primary ?s)) from) = Some matched"
    using assms(4) inet_match by (cases new_link) auto
  have "session_ok (?s\<lparr>ks_primary := (ks_primary ?s)\<lparr>ks_session_id_remote := sid, ks_remote_addr := from\<rparr>\<rparr>)"
    using s assms(3) by (auto simp: session_ok_def primary_ok_def primary_core_def session_rest_def key_id_ok_def key_inited_def)
  then have "multi_ok (put_session i (?s\<lparr>ks_primary := if new_link then (ks_primary ?s)\<lparr>ks_session_id_remote := sid, ks_remote_addr := from\<rparr>
      else ks_primary ?s\<rparr>) m)"
    using multi_ok_put [OF assms(1,2)] s by (cases new_link) auto
  then show ?thesis using p mt assms(1) unfolding control_accept_def by (auto simp: soft_error_def Let_def)
qed

lemma find_session_match:
  assumes "find_session m sid = i" "i \<noteq> TM_SIZE"
  shows "session_id_equal (ks_session_id_remote (ks_primary (tm_session m ! i))) sid"
proof -
  obtain js where "filter (\<lambda>i. session_id_equal (ks_session_id_remote (ks_primary (tm_session m ! i))) sid) [0..<TM_SIZE] = i # js"
    using assms by (auto simp: find_session_def split: list.splits)
  then show ?thesis by (auto simp: filter_eq_Cons_iff)
qed

lemma session_remote_family:
  assumes "session_ok s" "session_id_equal (ks_session_id_remote (ks_primary s)) sid" "session_id_defined sid"
  shows "inet_family (ks_remote_addr (ks_primary s))"
  using assms by (auto simp: session_ok_def primary_ok_def primary_core_def session_id_equal_def session_id_defined_def)

lemma tls_pre_decrypt_control_ok:
  assumes "multi_ok m" "inet_family from" "0 < now"
  shows "\<exists>r m' a. tls_pre_decrypt_control now m from op key_id rsid auth = Some (r, m', a) \<and> multi_ok m'"
proof -
  have soft: "\<exists>r m' a. soft_error b m = Some (r, m', a) \<and> multi_ok m'" for b using assms(1) by (simp add: soft_error_def)
  show ?thesis
  proof (cases rsid)
    case None
    then show ?thesis using soft by (simp add: tls_pre_decrypt_control_def Let_def)
  next
    case (Some sid)
    define i where "i = find_session m sid"
    have new: "\<exists>r m' a. control_accept (put_session TM_INITIAL ((tm_session m ! TM_INITIAL)\<lparr>s_untrusted_addr := from\<rparr>) m)
        TM_INITIAL True from sid key_id = Some (r, m', a) \<and> multi_ok m'"
    proof -
      have "session_ok ((tm_session m ! TM_INITIAL)\<lparr>s_untrusted_addr := from\<rparr>)"
        using multi_ok_nth [OF assms(1), of TM_INITIAL] by (simp add: TM_INITIAL_def session_ok_def session_rest_def)
      then show ?thesis
        by (intro control_accept_ok multi_ok_put assms) (simp_all add: TM_INITIAL_def)
    qed
    have known: "\<exists>r m' a. (do {
        matched \<leftarrow> link_socket_actual_match (ks_remote_addr (ks_primary (tm_session m ! i))) from;
        if \<not> matched then soft_error False m
        else if \<not> auth then soft_error False m
        else do {
          s1 \<leftarrow> (if op = P_CONTROL_SOFT_RESET_V1 \<and> ks_state (ks_primary (tm_session m ! i)) \<ge> S_GENERATED_KEYS
                then key_state_soft_reset (tm_opt m) now (tm_session m ! i) else Some (tm_session m ! i));
          control_accept (put_session i s1 m) i False from sid key_id } }) = Some (r, m', a) \<and> multi_ok m'"
      if "i < 2" "session_id_defined sid"
    proof -
      let ?s = "tm_session m ! i"
      have s: "session_ok ?s" using multi_ok_nth [OF assms(1) that(1)] .
      have f: "inet_family (ks_remote_addr (ks_primary ?s))"
        using session_remote_family [OF s find_session_match that(2)] that(1) i_def [symmetric] by (simp add: TM_SIZE_def)
      have o: "opts_ok (tm_opt m)" using assms(1) by (simp add: multi_ok_def)
      have "\<exists>s1. (if op = P_CONTROL_SOFT_RESET_V1 \<and> ks_state (ks_primary ?s) \<ge> S_GENERATED_KEYS
          then key_state_soft_reset (tm_opt m) now ?s else Some ?s) = Some s1 \<and> session_ok s1 \<and> inet_family (ks_remote_addr (ks_primary s1))"
      proof (cases "op = P_CONTROL_SOFT_RESET_V1 \<and> ks_state (ks_primary ?s) \<ge> S_GENERATED_KEYS")
        case True
        then have "ks_state (ks_primary ?s) = S_GENERATED_KEYS" using s by (auto simp: session_ok_def primary_ok_def)
        from soft_reset_ok [OF o s this assms(3)] show ?thesis using True f by auto
      qed (use s f in auto)
      then obtain s1 where s1: "(if op = P_CONTROL_SOFT_RESET_V1 \<and> ks_state (ks_primary ?s) \<ge> S_GENERATED_KEYS
          then key_state_soft_reset (tm_opt m) now ?s else Some ?s) = Some s1" "session_ok s1" "inet_family (ks_remote_addr (ks_primary s1))"
        by blast
      have l: "i < length (tm_session m)" using assms(1) that(1) by (auto simp: multi_ok_def)
      have "\<exists>r m' a. control_accept (put_session i s1 m) i False from sid key_id = Some (r, m', a) \<and> multi_ok m'"
        by (rule control_accept_ok) (use multi_ok_put [OF assms(1) that(1) s1(2)] that(1) assms(2) s1(3) l in simp_all)
      moreover obtain matched where "link_socket_actual_match (ks_remote_addr (ks_primary ?s)) from = Some matched" using inet_match [OF f] by blast
      ultimately show ?thesis using s1(1) soft by auto
    qed
    show ?thesis
      using soft new known unfolding tls_pre_decrypt_control_def Let_def Some i_def [symmetric] option.case
      by (auto simp: tm_consts less_two)
  qed
qed

end
