(* ===== verification/Data_Keys.thy ===== *)
theory Data_Keys
  imports Key_State
begin

text \<open>
  Data packets and their keys (\<open>ssl.c\<close>, \<open>forward.c\<close>): the choice of the key that encrypts a packet, the opcode with the key id in front of it,
  and the choice of the key that opens a received packet. The steps of the life cycle and the packets together are a state machine, whose
  reachable states satisfy the invariant of \<open>Key_State\<close>.
\<close>

section \<open>Sending\<close>

definition P_DATA_V1 :: int where "P_DATA_V1 = 6"
definition P_DATA_V2 :: int where "P_DATA_V2 = 9"
definition P_OPCODE_SHIFT :: nat where "P_OPCODE_SHIFT = 3"

definition key_usable :: "'s key_state \<Rightarrow> bool" where
  "key_usable ks \<longleftrightarrow> ks_state ks \<ge> S_GENERATED_KEYS \<and> ks_authenticated ks = KS_AUTH_TRUE"

text \<open>The loop over the scan, with the key selected so far. A key is named by its place in the scan.\<close>

fun select_loop :: "int \<Rightarrow> 's tls_multi \<Rightarrow> nat option \<Rightarrow> nat list \<Rightarrow> nat option option" where
  "select_loop now m sel [] = Some sel"
| "select_loop now m sel (i # js) =
     (case get_key_scan m i of
        None \<Rightarrow> None
      | Some ks \<Rightarrow>
          if ks_state ks \<ge> S_GENERATED_KEYS \<and> ks_authenticated ks = KS_AUTH_TRUE
          then if \<not> bi_initialized (key_ctx_bi (ks_crypto_options ks)) then None
               else if now \<ge> ks_auth_deferred_expire ks then Some (Some i)
               else select_loop now m (if sel = None then Some i else sel) js
          else select_loop now m sel js)"

definition tls_select_encryption_key :: "int \<Rightarrow> 's tls_multi \<Rightarrow> nat option option" where
  "tls_select_encryption_key now m = select_loop now m None [0..<KEY_SCAN_SIZE]"

definition tls_pre_encrypt :: "int \<Rightarrow> 's tls_multi \<Rightarrow> buffer \<Rightarrow> (buffer \<times> nat option \<times> 's tls_multi) option" where
  "tls_pre_encrypt now m0 buf =
     (let m = m0\<lparr>tm_save_ks := None\<rparr>
      in if b_len buf \<le> 0 then Some (buf\<lparr>b_len := 0\<rparr>, None, m)
         else case tls_select_encryption_key now m of
                None \<Rightarrow> None
              | Some (Some i) \<Rightarrow> Some (buf, Some i, m\<lparr>tm_save_ks := Some i\<rparr>)
              | Some None \<Rightarrow> Some (buf\<lparr>b_len := 0\<rparr>, None, m))"

definition saved_key :: "'s tls_multi \<Rightarrow> 's key_state option" where
  "saved_key m = (case tm_save_ks m of None \<Rightarrow> None | Some i \<Rightarrow> get_key_scan m i)"

definition tls_prepend_opcode_v1 :: "'s tls_multi \<Rightarrow> buffer \<Rightarrow> buffer option" where
  "tls_prepend_opcode_v1 m buf = do {
     ks \<leftarrow> saved_key m;
     buf_write_prepend buf [word_of_int (push_bit P_OPCODE_SHIFT P_DATA_V1 OR ks_key_id ks)] }"

definition tls_prepend_opcode_v2 :: "'s tls_multi \<Rightarrow> buffer \<Rightarrow> buffer option" where
  "tls_prepend_opcode_v2 m buf = do {
     ks \<leftarrow> saved_key m;
     buf_write_prepend buf (be32 (push_bit 24 (word_of_int (push_bit P_OPCODE_SHIFT P_DATA_V2 OR ks_key_id ks)) OR (tm_peer_id m AND 0xFFFFFF))) }"

definition count_packet :: "buffer \<Rightarrow> 's key_state \<Rightarrow> 's key_state" where
  "count_packet buf ks = ks\<lparr>ks_n_packets := ks_n_packets ks + 1, ks_n_bytes := ks_n_bytes ks + word_of_int (b_len buf)\<rparr>"

definition tls_post_encrypt :: "'s tls_multi \<Rightarrow> buffer \<Rightarrow> 's tls_multi option" where
  "tls_post_encrypt m buf =
     (if b_len buf > 0
      then do { i \<leftarrow> tm_save_ks m; ks \<leftarrow> get_key_scan m i; Some (put_key_scan i (count_packet buf ks) (m\<lparr>tm_save_ks := None\<rparr>)) }
      else Some (m\<lparr>tm_save_ks := None\<rparr>))"

text \<open>The options of the key at a place of the scan, and an update of them.\<close>

definition scan_options :: "nat option \<Rightarrow> 's tls_multi \<Rightarrow> 's data_options option" where
  "scan_options oi m = (case oi of None \<Rightarrow> None | Some i \<Rightarrow> map_option ks_crypto_options (get_key_scan m i))"

definition put_options :: "nat option \<Rightarrow> 's data_options option \<Rightarrow> 's tls_multi \<Rightarrow> 's tls_multi" where
  "put_options oi opt m =
     (case (oi, opt) of
        (Some i, Some x) \<Rightarrow> (case get_key_scan m i of None \<Rightarrow> m | Some ks \<Rightarrow> put_key_scan i (ks\<lparr>ks_crypto_options := x\<rparr>) m)
      | _ \<Rightarrow> m)"

text \<open>\<open>encrypt_sign\<close> with TLS, without compression and fragmentation. The packet is the result; it is empty when it was dropped.\<close>

definition encrypt_sign :: "int \<Rightarrow> (nat \<Rightarrow> bytes) \<Rightarrow> frame \<Rightarrow> 's tls_multi \<Rightarrow> buffer \<Rightarrow> buffer \<Rightarrow> (buffer \<times> 's tls_multi) option" where
  "encrypt_sign now prng fr m buf0 encrypt_buf = do {
     let buf = (if tm_multi_state m < CAS_CONNECT_DONE then buf0\<lparr>b_len := 0\<rparr> else buf0);
     work \<leftarrow> buf_init encrypt_buf (headroom fr);
     (buf1, oi, m1) \<leftarrow> tls_pre_encrypt now m buf;
     work1 \<leftarrow> (if b_len buf1 > 0 \<and> tm_use_peer_id m1 then tls_prepend_opcode_v2 m1 work else Some work);
     (buf2, opt) \<leftarrow> openvpn_encrypt now prng buf1 work1 (scan_options oi m1);
     let m2 = put_options oi opt m1;
     buf3 \<leftarrow> (if b_len buf2 > 0 \<and> \<not> tm_use_peer_id m2 then tls_prepend_opcode_v1 m2 buf2 else Some buf2);
     m3 \<leftarrow> tls_post_encrypt m2 buf3;
     Some (buf3, m3) }"

section \<open>Receiving\<close>

text \<open>
  The result: the packet behind the opcode, the place of its key, the start of the authenticated data, and the keys. A packet that is
  dropped is empty and has no key.
\<close>

definition data_dropped :: "buffer \<Rightarrow> int \<Rightarrow> 's tls_multi \<Rightarrow> (buffer \<times> nat option \<times> int \<times> 's tls_multi) option" where
  "data_dropped buf ad m = Some (buf\<lparr>b_len := 0\<rparr>, None, ad, m)"

definition data_found :: "int \<Rightarrow> nat \<Rightarrow> 's key_state \<Rightarrow> 's tls_multi \<Rightarrow> buffer \<Rightarrow> (buffer \<times> nat option \<times> int \<times> 's tls_multi) option" where
  "data_found op i ks m buf = do {
     ASSERT (bi_initialized (key_ctx_bi (ks_crypto_options ks)));
     buf1 \<leftarrow> buf_advance buf 1;
     let ad = (if op = P_DATA_V2 then b_offset buf else if op = P_DATA_V1 then b_offset buf1 else 0);
     if op = P_DATA_V2 \<and> b_len buf1 < 4 then data_dropped buf1 ad (m\<lparr>tm_n_soft_errors := tm_n_soft_errors m + 1\<rparr>)
     else do {
       buf2 \<leftarrow> (if op = P_DATA_V2 then buf_advance buf1 3 else Some buf1);
       Some (buf2, Some i, ad, put_key_scan i (count_packet buf2 ks) m) } }"

fun data_loop :: "int \<Rightarrow> int \<Rightarrow> link_socket_actual \<Rightarrow> bool \<Rightarrow> 's tls_multi \<Rightarrow> buffer \<Rightarrow> nat list \<Rightarrow> (buffer \<times> nat option \<times> int \<times> 's tls_multi) option" where
  "data_loop op key_id from floated m buf [] = data_dropped buf 0 m"
| "data_loop op key_id from floated m buf (i # js) = do {
     ks \<leftarrow> get_key_scan m i;
     if ks_state ks \<ge> S_GENERATED_KEYS \<and> key_id = ks_key_id ks \<and> ks_authenticated ks = KS_AUTH_TRUE
     then do {
       matched \<leftarrow> (if floated then Some True else link_socket_actual_match from (ks_remote_addr ks));
       if matched then data_found op i ks m buf else data_loop op key_id from floated m buf js }
     else data_loop op key_id from floated m buf js }"

definition first_byte :: "buffer \<Rightarrow> int" where
  "first_byte buf = uint (hd (buf_load buf (b_offset buf) 1))"

definition handle_data_channel_packet ::
    "'s tls_multi \<Rightarrow> link_socket_actual \<Rightarrow> buffer \<Rightarrow> bool \<Rightarrow> (buffer \<times> nat option \<times> int \<times> 's tls_multi) option" where
  "handle_data_channel_packet m from buf floated =
     (let c = first_byte buf
      in data_loop (drop_bit P_OPCODE_SHIFT c) (c AND P_KEY_ID_MASK) from floated m buf [0..<KEY_SCAN_SIZE])"

text \<open>
  The way of a data packet through \<open>process_incoming_link_part1\<close>: \<open>tls_pre_decrypt\<close> calls \<open>handle_data_channel_packet\<close>, and the packet is
  decrypted with the key that it found.
\<close>

definition process_incoming_data ::
    "int \<Rightarrow> frame \<Rightarrow> 's tls_multi \<Rightarrow> link_socket_actual \<Rightarrow> bool \<Rightarrow> buffer \<Rightarrow> buffer \<Rightarrow> (bool \<times> buffer \<times> 's tls_multi) option" where
  "process_incoming_data now fr m from floated buf decrypt_buf = do {
     (buf1, oi, ad, m1) \<leftarrow> handle_data_channel_packet m from buf floated;
     let buf2 = (if tm_multi_state m1 < CAS_CONNECT_DONE then buf1\<lparr>b_len := 0\<rparr> else buf1);
     (ok, buf3, opt) \<leftarrow> openvpn_decrypt now buf2 decrypt_buf (scan_options oi m1) fr ad;
     Some (ok, buf3, put_options oi opt m1) }"

section \<open>The choice of the key\<close>

definition key_ready :: "int \<Rightarrow> 's key_state \<Rightarrow> bool" where
  "key_ready now ks \<longleftrightarrow> key_usable ks \<and> ks_auth_deferred_expire ks \<le> now"

definition first_with :: "('s key_state \<Rightarrow> bool) \<Rightarrow> 's tls_multi \<Rightarrow> nat option" where
  "first_with P m = (case filter (\<lambda>i. P (the (get_key_scan m i))) [0..<KEY_SCAN_SIZE] of [] \<Rightarrow> None | i # _ \<Rightarrow> Some i)"

lemma scan_upt: "[0..<KEY_SCAN_SIZE] = [0, 1, 2]"
  by (simp add: KEY_SCAN_SIZE_def upt_rec numeral_2_eq_2)

lemma scan_defined [simp]:
  "get_key_scan m 0 = Some (ks_primary (tm_session m ! TM_ACTIVE))" "get_key_scan m (Suc 0) = Some (ks_lame (tm_session m ! TM_ACTIVE))"
  "get_key_scan m 2 = Some (ks_lame (tm_session m ! TM_LAME_DUCK))"
  by (simp_all add: get_key_scan_def)

lemma scan_inited:
  assumes "multi_ok m" "get_key_scan m i = Some ks" "S_GENERATED_KEYS \<le> ks_state ks"
  shows "bi_initialized (key_ctx_bi (ks_crypto_options ks))" "0 \<le> ks_key_id ks" "ks_key_id ks \<le> 7" "packet_id_initialized (co_packet_id (ks_crypto_options ks))"
  using assms
  by (auto simp: multi_ok_def get_key_scan_def tm_consts session_ok_def primary_ok_def primary_core_def session_rest_def lame_session_ok_def lame_ok_def
      key_inited_def key_id_ok_def ks_states split: if_splits)

lemma select_key:
  assumes "multi_ok m"
  shows "tls_select_encryption_key now m = Some (case first_with (key_ready now) m of Some i \<Rightarrow> Some i | None \<Rightarrow> first_with key_usable m)"
  using scan_inited(1) [OF assms, of 0] scan_inited(1) [OF assms, of 1] scan_inited(1) [OF assms, of 2]
  by (simp add: tls_select_encryption_key_def scan_upt first_with_def key_ready_def key_usable_def)

section \<open>Packets keep the keys\<close>

definition same_contexts :: "'s data_options \<Rightarrow> 's data_options \<Rightarrow> bool" where
  "same_contexts opt opt' \<longleftrightarrow> key_ctx_bi opt' = key_ctx_bi opt \<and>
     (packet_id_initialized (co_packet_id opt) \<longrightarrow> packet_id_initialized (co_packet_id opt'))"

lemma same_contexts_refl [simp]: "same_contexts opt opt"
  by (simp add: same_contexts_def)

lemma same_contexts_send [simp]: "same_contexts opt (set_send p opt)"
  by (simp add: same_contexts_def set_send_def packet_id_initialized_def)

lemma bind_SomeE: "(x \<bind> f) = Some y \<Longrightarrow> (\<And>a. x = Some a \<Longrightarrow> f a = Some y \<Longrightarrow> P) \<Longrightarrow> P"
  by (auto simp: bind_eq_Some_conv)

lemma v1_packet_id_contexts: "v1_packet_id now buf opt = (ok, b, opt') \<Longrightarrow> same_contexts opt opt'"
  by (auto simp: v1_packet_id_def split: if_splits prod.splits)

lemma encrypt_aead_contexts: "openvpn_encrypt_aead now buf work opt = Some (b, opt') \<Longrightarrow> same_contexts opt opt'"
  unfolding openvpn_encrypt_aead_def Let_def
  by (auto elim!: bind_SomeE split: prod.split_asm bool.split_asm if_split_asm)

lemma v1_iv_contexts: "v1_iv now prng cc buf opt = Some (ok, iv, b, opt') \<Longrightarrow> same_contexts opt opt'"
  unfolding v1_iv_def Let_def
  by (auto elim!: bind_SomeE dest: v1_packet_id_contexts split: cipher_mode.split_asm prod.split_asm if_split_asm)

lemma encrypt_v1_cipher_contexts: "encrypt_v1_cipher now prng cc h buf work opt = Some (ok, x, y, w, opt') \<Longrightarrow> same_contexts opt opt'"
  unfolding encrypt_v1_cipher_def
  by (auto elim!: bind_SomeE split: prod.split_asm if_split_asm) (rule v1_iv_contexts, assumption)+

lemma encrypt_v1_plain_contexts: "encrypt_v1_plain now h buf work opt = Some (ok, x, y, w, opt') \<Longrightarrow> same_contexts opt opt'"
  unfolding encrypt_v1_plain_def Let_def
  by (auto elim!: bind_SomeE dest: v1_packet_id_contexts split: prod.split_asm bool.split_asm)

lemma encrypt_v1_contexts: "openvpn_encrypt_v1 now prng buf work opt = Some (b, opt') \<Longrightarrow> same_contexts opt opt'"
  unfolding openvpn_encrypt_v1_def Let_def
  by (auto elim!: bind_SomeE dest: encrypt_v1_cipher_contexts encrypt_v1_plain_contexts split: prod.split_asm if_split_asm option.split_asm)

lemma encrypt_contexts:
  assumes "openvpn_encrypt now prng buf work (Some opt) = Some (b, o')"
  shows "\<exists>opt'. o' = Some opt' \<and> same_contexts opt opt'"
  using assms encrypt_aead_contexts encrypt_v1_contexts by (auto simp: openvpn_encrypt_def split: if_splits)

lemma packet_id_test_initialized: "packet_id_test p pin = Some (b, p') \<Longrightarrow> initialized p' = initialized p"
  by (auto simp: packet_id_test_def Let_def split: if_split_asm option.split_asm)

lemma packet_id_reap_initialized: "packet_id_reap_test now p = Some p' \<Longrightarrow> initialized p' = initialized p"
  by (auto simp: packet_id_reap_test_def packet_id_reap_def split: if_split_asm option.split_asm)

lemma packet_id_add_initialized: "packet_id_add now p pin = Some p' \<Longrightarrow> initialized p' = initialized p"
  by (auto simp: packet_id_add_def Let_def split: if_split_asm option.split_asm prod.split_asm)

lemma check_replay_contexts: "crypto_check_replay opt e = Some (ok, opt') \<Longrightarrow> same_contexts opt opt'"
  by (auto simp: crypto_check_replay_def same_contexts_def packet_id_initialized_def Let_def
      dest!: packet_id_test_initialized packet_id_reap_initialized packet_id_add_initialized split: prod.split_asm option.split_asm bool.split_asm)

lemma crypt_error_contexts: "crypt_error buf opt = Some (ok, b, opt') \<Longrightarrow> same_contexts opt opt'"
  by (auto simp: crypt_error_def)

lemma check_and_pass_contexts: "check_and_pass now pin buf work opt = Some (ok, b, opt') \<Longrightarrow> same_contexts opt opt'"
  unfolding check_and_pass_def
  by (auto elim!: bind_SomeE dest: check_replay_contexts crypt_error_contexts split: option.split_asm if_split_asm prod.split_asm)
    (auto simp: crypt_error_def dest: check_replay_contexts)

lemma decrypt_aead_contexts: "openvpn_decrypt_aead now buf work opt fr ad = Some (ok, b, opt') \<Longrightarrow> same_contexts opt opt'"
  unfolding openvpn_decrypt_aead_def aead_decrypt_payload_def Let_def
  by (auto elim!: bind_SomeE split: prod.split_asm bool.split_asm if_split_asm option.split_asm)
    ((rule crypt_error_contexts, assumption | rule check_and_pass_contexts, assumption)+)

lemma decrypt_v1_contexts: "openvpn_decrypt_v1 now buf work opt fr = Some (ok, b, opt') \<Longrightarrow> same_contexts opt opt'"
  unfolding openvpn_decrypt_v1_def Let_def
  by (auto elim!: bind_SomeE split: prod.split_asm sum.split_asm if_split_asm option.split_asm)
    ((rule crypt_error_contexts, assumption | rule check_and_pass_contexts, assumption)+)

lemma decrypt_contexts:
  assumes "openvpn_decrypt now buf work (Some opt) fr ad = Some (ok, b, o')"
  shows "\<exists>opt'. o' = Some opt' \<and> same_contexts opt opt'"
  using assms decrypt_aead_contexts decrypt_v1_contexts by (auto simp: openvpn_decrypt_def split: if_splits)

lemma upkeep_count: "upkeep ks (count_packet buf ks)"
  by (simp add: upkeep_def count_packet_def)

lemma upkeep_options: "same_contexts (ks_crypto_options ks) x \<Longrightarrow> upkeep ks (ks\<lparr>ks_crypto_options := x\<rparr>)"
  by (simp add: upkeep_def same_contexts_def)

lemma put_options_ok:
  assumes "multi_ok m" "scan_options oi m = Some opt" "same_contexts opt opt'"
  shows "multi_ok (put_options oi (Some opt') m)"
proof -
  obtain i ks where i: "oi = Some i" "get_key_scan m i = Some ks" "opt = ks_crypto_options ks"
    using assms(2) by (auto simp: scan_options_def split: option.splits)
  then show ?thesis using put_scan_ok [OF assms(1) i(2) upkeep_options] assms(3) by (simp add: put_options_def)
qed

lemma crypted_ok:
  assumes "multi_ok m" "\<And>opt. scan_options oi m = Some opt \<Longrightarrow> \<exists>opt'. r = Some opt' \<and> same_contexts opt opt'"
  shows "multi_ok (put_options oi r m)"
proof (cases "scan_options oi m")
  case None
  then have "put_options oi r m = m" by (auto simp: scan_options_def put_options_def split: option.splits)
  then show ?thesis using assms(1) by simp
next
  case (Some opt)
  then obtain opt' where "r = Some opt'" "same_contexts opt opt'" using assms(2) by blast
  then show ?thesis using put_options_ok [OF assms(1) Some] by simp
qed

lemma post_encrypt_ok: "multi_ok m \<Longrightarrow> tls_post_encrypt m buf = Some m' \<Longrightarrow> multi_ok m'"
proof -
  assume m: "multi_ok m" and p: "tls_post_encrypt m buf = Some m'"
  have g: "get_key_scan (m\<lparr>tm_save_ks := None\<rparr>) i = get_key_scan m i" for i by (simp add: get_key_scan_def)
  show ?thesis
    using p m by (auto simp: tls_post_encrypt_def g elim!: bind_SomeE intro!: put_scan_ok upkeep_count split: if_split_asm)
qed

lemma encrypt_sign_ok:
  assumes "multi_ok m" "encrypt_sign now prng fr m buf work = Some (out, m')"
  shows "multi_ok m'"
proof -
  obtain buf1 oi m1 work1 buf2 r buf3 where s: "tls_pre_encrypt now m (if tm_multi_state m < CAS_CONNECT_DONE then buf\<lparr>b_len := 0\<rparr> else buf) = Some (buf1, oi, m1)"
    "openvpn_encrypt now prng buf1 work1 (scan_options oi m1) = Some (buf2, r)" "tls_post_encrypt (put_options oi r m1) buf3 = Some m'"
    using assms(2) unfolding encrypt_sign_def Let_def by (elim bind_SomeE) (auto elim!: bind_SomeE split: prod.split_asm)
  have m1: "multi_ok m1" using s(1) assms(1) by (auto simp: tls_pre_encrypt_def Let_def split: if_split_asm option.split_asm)
  have "multi_ok (put_options oi r m1)"
    using crypted_ok [OF m1] encrypt_contexts s(2) by metis
  then show ?thesis using post_encrypt_ok s(3) by blast
qed

lemma first_byte_range: "0 \<le> first_byte buf" "first_byte buf < 256"
  using uint_lt2p [of "hd (buf_load buf (b_offset buf) 1)"] by (simp_all add: first_byte_def)

lemma data_found_ok:
  assumes "multi_ok m" "get_key_scan m i = Some ks" "S_GENERATED_KEYS \<le> ks_state ks" "buf_ok buf" "0 < b_len buf"
  shows "\<exists>buf' oi ad m'. data_found op i ks m buf = Some (buf', oi, ad, m') \<and> multi_ok m'"
proof -
  obtain b1 where b1: "buf_advance buf 1 = Some b1" "b_len b1 = b_len buf - 1" "buf_ok b1"
    using buf_advance_content [OF assms(4), of 1] assms(5) length_buf_content [OF assms(4)] by (auto simp: buf_advance_def split: if_splits)
  have "\<exists>b2. buf_advance b1 3 = Some b2" if "4 \<le> b_len b1" using that b1(3) buf_ok_valid by (auto simp: buf_advance_def)
  moreover have "multi_ok (put_key_scan i (count_packet b ks) m)" for b using put_scan_ok [OF assms(1,2) upkeep_count] .
  ultimately show ?thesis
    using b1 scan_inited(1) [OF assms(1-3)] assms(1) by (cases "op = P_DATA_V2 \<and> b_len b1 < 4") (auto simp: data_found_def data_dropped_def Let_def)
qed

lemma data_loop_ok:
  assumes "multi_ok m" "buf_ok buf" "0 < b_len buf" "floated \<or> inet_family from" "\<forall>i \<in> set js. i < 3"
  shows "\<exists>buf' oi ad m'. data_loop op key_id from floated m buf js = Some (buf', oi, ad, m') \<and> multi_ok m'"
  using assms(5)
proof (induction js)
  case Nil
  then show ?case using assms(1) by (simp add: data_dropped_def)
next
  case (Cons i js)
  obtain ks where ks: "get_key_scan m i = Some ks" using Cons.prems by (auto simp: get_key_scan_def numeral_3_eq_3 less_Suc_eq)
  obtain b where b: "(if floated then Some True else link_socket_actual_match from (ks_remote_addr ks)) = Some b"
    using assms(4) inet_match by (cases floated) auto
  have "\<exists>buf' oi ad m'. data_found op i ks m buf = Some (buf', oi, ad, m') \<and> multi_ok m'" if "S_GENERATED_KEYS \<le> ks_state ks"
    using data_found_ok [OF assms(1) ks that assms(2,3)] .
  then show ?case using Cons ks b by (auto split: if_splits)
qed

lemma handle_data_ok:
  assumes "multi_ok m" "buf_ok buf" "0 < b_len buf" "floated \<or> inet_family from"
  shows "\<exists>buf' oi ad m'. handle_data_channel_packet m from buf floated = Some (buf', oi, ad, m') \<and> multi_ok m'"
  using data_loop_ok [OF assms, of "[0..<KEY_SCAN_SIZE]"] by (simp add: handle_data_channel_packet_def Let_def KEY_SCAN_SIZE_def)

section \<open>The state machine\<close>

text \<open>
  The reachable states: initialisation, then in any order calls of \<open>tls_multi_process\<close>, control packets, the key generation of
  \<open>tls_session_update_crypto_params\<close> when the options of the server arrive, the end of the connection set-up, the peer id pushed by the server, and
  data packets in both directions. Key expansions do not fail here; what happens otherwise is a property of its own.
\<close>

inductive key_reach :: "tls_options \<Rightarrow> 's tls_multi \<Rightarrow> bool" for opt where
  kr_init: "session_id_defined sid1 \<Longrightarrow> session_id_defined sid2 \<Longrightarrow> tls_multi_init_finalize (tls_multi_init opt) sid1 sid2 = Some m \<Longrightarrow> key_reach opt m"
| kr_process: "key_reach opt m \<Longrightarrow> mp_good e \<Longrightarrow> expansion_good (me_expansion e) \<Longrightarrow> tls_multi_process e m = Some (r, m') \<Longrightarrow> key_reach opt m'"
| kr_control: "key_reach opt m \<Longrightarrow> inet_family from \<Longrightarrow> 0 < now \<Longrightarrow>
    tls_pre_decrypt_control now m from op key_id rsid auth = Some (ret, m', acc) \<Longrightarrow> key_reach opt m'"
| kr_generate: "key_reach opt m \<Longrightarrow> expansion_good x \<Longrightarrow> ks_state (get_primary_key m) = S_ACTIVE \<Longrightarrow>
    tls_session_generate_data_channel_keys x insecure (tm_opt m) (tm_session m ! TM_ACTIVE) = Some (True, opt', s) \<Longrightarrow>
    key_reach opt (put_session TM_ACTIVE s (m\<lparr>tm_opt := opt'\<rparr>))"
| kr_connected: "key_reach opt m \<Longrightarrow> key_reach opt (m\<lparr>tm_multi_state := CAS_CONNECT_DONE\<rparr>)"
| kr_peer_id: "key_reach opt m \<Longrightarrow> key_reach opt (m\<lparr>tm_use_peer_id := True, tm_peer_id := p\<rparr>)"
| kr_send: "key_reach opt m \<Longrightarrow> encrypt_sign now prng fr m buf work = Some (out, m') \<Longrightarrow> key_reach opt m'"
| kr_receive: "key_reach opt m \<Longrightarrow> buf_ok buf \<Longrightarrow> 0 < b_len buf \<Longrightarrow> floated \<or> inet_family from \<Longrightarrow>
    process_incoming_data now fr m from floated buf work = Some (ok, out, m') \<Longrightarrow> key_reach opt m'"

lemma init_finalize_ok:
  assumes "opts_ok opt" "session_id_defined sid1" "session_id_defined sid2"
  shows "\<exists>m :: 's tls_multi. tls_multi_init_finalize (tls_multi_init opt) sid1 sid2 = Some m \<and> multi_ok m"
proof -
  obtain s1 s2 :: "'s tls_session" where "tls_session_init opt sid1 = Some s1" "session_ok s1" "tls_session_init opt sid2 = Some s2" "session_ok s2"
    using tls_session_init_ok [OF assms(1)] assms(2,3) by metis
  then show ?thesis using assms(1)
    by (simp add: tls_multi_init_finalize_def tls_multi_init_def multi_ok_def tm_consts numeral_3_eq_3)
qed

lemma generate_active_ok:
  assumes "multi_ok m" "expansion_good x" "ks_state (get_primary_key m) = S_ACTIVE"
    "tls_session_generate_data_channel_keys x insecure (tm_opt m) (tm_session m ! TM_ACTIVE) = Some (True, opt', s)"
  shows "multi_ok (put_session TM_ACTIVE s (m\<lparr>tm_opt := opt'\<rparr>))"
proof -
  have s: "session_ok (tm_session m ! TM_ACTIVE)" using multi_ok_nth [OF assms(1), of TM_ACTIVE] by (simp add: TM_ACTIVE_def)
  have a: "ks_authenticated (ks_primary (tm_session m ! TM_ACTIVE)) \<noteq> KS_AUTH_FALSE"
    using assms(4) by (auto simp: tls_session_generate_data_channel_keys_def)
  have "session_ok s" "opt' = tls_limit_reneg_bytes insecure (tm_opt m)"
    using generate_ok [OF s _ a assms(2), of insecure "tm_opt m"] assms(3,4) by (auto simp: get_primary_key_def)
  then show ?thesis using assms(1) by (auto simp: multi_ok_def opts_ok_def tls_limit_reneg_bytes_def TM_ACTIVE_def)
qed

lemma incoming_ok:
  assumes "multi_ok m" "buf_ok buf" "0 < b_len buf" "floated \<or> inet_family from" "process_incoming_data now fr m from floated buf work = Some (ok, out, m')"
  shows "multi_ok m'"
proof -
  obtain buf1 oi ad m1 where h: "handle_data_channel_packet m from buf floated = Some (buf1, oi, ad, m1)" "multi_ok m1"
    using handle_data_ok [OF assms(1-4)] by blast
  then obtain b r where d: "openvpn_decrypt now b work (scan_options oi m1) fr ad = Some (ok, out, r)" "m' = put_options oi r m1"
    using assms(5) unfolding process_incoming_data_def Let_def by (auto elim!: bind_SomeE split: prod.split_asm)
  show ?thesis unfolding d(2) using crypted_ok [OF h(2)] decrypt_contexts d(1) by metis
qed

lemma key_reach_ok: "key_reach opt m \<Longrightarrow> opts_ok opt \<Longrightarrow> multi_ok m"
proof (induction rule: key_reach.induct)
  case (kr_init sid1 sid2 m)
  then show ?case using init_finalize_ok by (metis option.inject)
next
  case (kr_process m e r m')
  then show ?case using tls_multi_process_ok by (metis option.inject prod.inject)
next
  case (kr_control m "from" now op key_id rsid auth ret m' acc)
  then show ?case using tls_pre_decrypt_control_ok by (metis option.inject prod.inject)
qed (auto intro: generate_active_ok encrypt_sign_ok incoming_ok)

section \<open>A key is kept\<close>

text \<open>A usable key of the scan that the lame duck session does not lose at time \<open>t\<close>.\<close>

definition has_key :: "int \<Rightarrow> 's tls_multi \<Rightarrow> bool" where
  "has_key t m \<longleftrightarrow> key_usable (ks_primary (tm_session m ! TM_ACTIVE)) \<or> key_usable (ks_lame (tm_session m ! TM_ACTIVE)) \<or>
     key_usable (ks_lame (tm_session m ! TM_LAME_DUCK)) \<and> t < ks_must_die (ks_lame (tm_session m ! TM_LAME_DUCK))"

text \<open>
  What a call of \<open>tls_multi_process\<close> has to find so that no key is lost: generated keys are authenticated, lame ducks have not expired at
  the times of the call, an established key has no TLS error, and a failed session may become the lame duck.
\<close>

definition keys_lasting :: "'s mp_env \<Rightarrow> 's tls_multi \<Rightarrow> bool" where
  "keys_lasting e m \<longleftrightarrow>
     (\<forall>i < 3. ks_state (the (get_key_scan m i)) = S_GENERATED_KEYS \<longrightarrow> ks_authenticated (the (get_key_scan m i)) = KS_AUTH_TRUE \<and>
        (0 < i \<longrightarrow> me_time e 0 < ks_must_die (the (get_key_scan m i)) \<and> me_end e < ks_must_die (the (get_key_scan m i)))) \<and>
     0 < topt_transition_window (tm_opt m) \<and> me_end e < me_time e 0 + topt_transition_window (tm_opt m) \<and>
     (ks_state (get_primary_key m) = S_GENERATED_KEYS \<and> \<not> should_renegotiate (tm_opt m) (me_time e 0) (get_primary_key m) \<longrightarrow>
        ks_state (snd (process_rounds (tm_opt m) (me_rounds e 0) (tm_multi_state m) (get_primary_key m))) \<noteq> S_ERROR) \<and>
     \<not> topt_single_session (tm_opt m)"

lemma generated_usable: "lame_ok ks \<Longrightarrow> key_usable ks \<longleftrightarrow> ks_state ks = S_GENERATED_KEYS \<and> ks_authenticated ks = KS_AUTH_TRUE"
  by (auto simp: lame_ok_def key_usable_def ks_states)

text \<open>The session that the active session becomes in \<open>tls_process\<close>, with a usable key in it or in the lame duck session.\<close>

lemma active_processed:
  assumes m: "multi_ok m" "mp_good e" "keys_lasting e m" "has_key (me_end e) m" and ms: "tm_multi_state m = CAS_CONNECT_DONE"
    and s: "tm_session m = [a, b, c]"
  shows "\<exists>a'. tls_process (tm_opt m) (me_time e 0) (me_rounds e 0) (tm_multi_state m) a = Some (CAS_CONNECT_DONE, a') \<and> lame_ok (ks_lame a') \<and>
    (if ks_state (ks_primary a') = S_ERROR
     then (if S_GENERATED_KEYS \<le> ks_state (ks_lame a') then key_usable (ks_lame a') \<and> me_end e < ks_must_die (ks_lame a')
           else key_usable (ks_lame c) \<and> me_end e < ks_must_die (ks_lame c))
     else key_usable (ks_primary a') \<or> key_usable (ks_lame a') \<or> key_usable (ks_lame c) \<and> me_end e < ks_must_die (ks_lame c))"
proof -
  have ok: "opts_ok (tm_opt m)" "session_ok a" "lame_session_ok c" using m(1) s by (auto simp: multi_ok_def)
  have t: "0 < me_time e 0" using m(2) by (simp add: mp_good_def)
  have p: "get_primary_key m = ks_primary a" by (simp add: get_primary_key_def s TM_ACTIVE_def)
  let ?g = "\<lambda>ks. ks_state ks = S_GENERATED_KEYS"
  have g: "?g (ks_primary a) \<Longrightarrow> ks_authenticated (ks_primary a) = KS_AUTH_TRUE"
    "?g (ks_lame a) \<Longrightarrow> ks_authenticated (ks_lame a) = KS_AUTH_TRUE \<and> me_time e 0 < ks_must_die (ks_lame a) \<and> me_end e < ks_must_die (ks_lame a)"
    "?g (ks_lame c) \<Longrightarrow> ks_authenticated (ks_lame c) = KS_AUTH_TRUE \<and> me_end e < ks_must_die (ks_lame c)"
    using m(3) [unfolded keys_lasting_def, THEN conjunct1, rule_format, of 0] m(3) [unfolded keys_lasting_def, THEN conjunct1, rule_format, of 1]
      m(3) [unfolded keys_lasting_def, THEN conjunct1, rule_format, of 2] by (simp_all add: s tm_consts)
  have w: "0 < topt_transition_window (tm_opt m)" "me_end e < me_time e 0 + topt_transition_window (tm_opt m)"
    using m(3) by (simp_all add: keys_lasting_def)
  have ne: "ks_state (snd (process_rounds (tm_opt m) (me_rounds e 0) (tm_multi_state m) (ks_primary a))) \<noteq> S_ERROR"
    if "?g (ks_primary a)" "\<not> should_renegotiate (tm_opt m) (me_time e 0) (ks_primary a)"
    using m(3) that by (simp add: keys_lasting_def p)
  have us: "?g (ks_primary a) \<or> ?g (ks_lame a) \<or> ?g (ks_lame c)"
    using m(4) ok by (auto simp: has_key_def s tm_consts key_usable_def session_ok_def session_rest_def primary_ok_def lame_session_ok_def lame_ok_def ks_states)
  obtain s1 ms' ks' where r: "session_ok s1"
    "if should_renegotiate (tm_opt m) (me_time e 0) (ks_primary a)
     then ks_lame s1 = (ks_primary a)\<lparr>ks_must_die := me_time e 0 + topt_transition_window (tm_opt m)\<rparr> \<and> ks_state (ks_primary s1) = S_INITIAL else s1 = a"
    "process_rounds (tm_opt m) (me_rounds e 0) (tm_multi_state m) (ks_primary s1) = (ms', ks')"
    "negotiates (ks_primary s1) ks'" "tm_multi_state m = CAS_NOT_CONNECTED \<or> ms' = tm_multi_state m"
    "tls_process (tm_opt m) (me_time e 0) (me_rounds e 0) (tm_multi_state m) a = Some (ms', s1\<lparr>ks_primary := ks',
      ks_lame := if ?g (ks_lame s1) \<and> ks_must_die (ks_lame s1) \<le> me_time e 0 then key_state_clear else ks_lame s1\<rparr>)"
    using tls_process_parts [OF ok(1,2) t, of "me_rounds e 0" "tm_multi_state m"] by blast
  have l: "lame_ok (ks_lame s1)" using r(1) by (simp add: session_ok_def session_rest_def)
  have u: "?g ks \<Longrightarrow> ks_authenticated ks = KS_AUTH_TRUE \<Longrightarrow> key_usable ks" for ks :: "'a key_state" by (simp add: key_usable_def)
  show ?thesis
  proof (cases "should_renegotiate (tm_opt m) (me_time e 0) (ks_primary a)")
    case True
    then have gp: "?g (ks_primary a)" using ok(2) by (auto simp: should_renegotiate_def session_ok_def primary_ok_def)
    then show ?thesis using r(2,6) True w g(1) l ms r(5) by (auto simp: key_usable_def)
  next
    case False
    then have s1: "s1 = a" using r(2) by simp
    have nd: "\<not> (?g (ks_lame a) \<and> ks_must_die (ks_lame a) \<le> me_time e 0)" using g(2) by auto
    have "key_usable ks'" if "?g (ks_primary a)"
      using ne [OF that False] r(3,4) s1 g(1) that by (auto simp: negotiates_def key_usable_def split: if_splits)
    moreover have "ks_state ks' \<noteq> S_ERROR" if "?g (ks_primary a)" using ne [OF that False] r(3) s1 by simp
    moreover have "S_GENERATED_KEYS \<le> ks_state (ks_lame a) \<longleftrightarrow> ?g (ks_lame a)" using l s1 by (auto simp: lame_ok_def ks_states)
    ultimately show ?thesis using r(5,6) ms s1 nd us g(2,3) l u by auto
  qed
qed

lemma process_active_keeps:
  assumes m: "multi_ok m" "mp_good e" "keys_lasting e m" "has_key (me_end e) m" and ms: "tm_multi_state m = CAS_CONNECT_DONE"
    and r: "process_session e 0 (error, m) = Some (error', m')"
  shows "has_key (me_end e) m' \<and> tm_multi_state m' = CAS_CONNECT_DONE"
proof -
  obtain a b c where s: "tm_session m = [a, b, c]" "opts_ok (tm_opt m)" using m(1) by (elim multi_okE)
  have l: "link_session e 0 m = a" "put_session 0 a m = m" "tm_session m ! 0 = a"
    by (simp_all add: link_session_def s tm_consts Let_def put_session_def)
  show ?thesis
  proof (cases "S_INITIAL \<le> ks_state (ks_primary a) \<and> addr_defined (ks_remote_addr (ks_primary a))")
    case True
    obtain a' where a': "tls_process (tm_opt m) (me_time e 0) (me_rounds e 0) (tm_multi_state m) a = Some (CAS_CONNECT_DONE, a')"
      "if ks_state (ks_primary a') = S_ERROR
       then (if S_GENERATED_KEYS \<le> ks_state (ks_lame a') then key_usable (ks_lame a') \<and> me_end e < ks_must_die (ks_lame a')
             else key_usable (ks_lame c) \<and> me_end e < ks_must_die (ks_lame c))
       else key_usable (ks_primary a') \<or> key_usable (ks_lame a') \<or> key_usable (ks_lame c) \<and> me_end e < ks_must_die (ks_lame c)"
      using active_processed [OF m ms s(1)] by blast
    define m1 where "m1 = put_session 0 a' (m\<lparr>tm_multi_state := CAS_CONNECT_DONE\<rparr>)"
    define m2 where "m2 = m1\<lparr>tm_n_soft_errors := tm_n_soft_errors m1 + 1\<rparr>"
    have m2: "tm_session m2 = [a', b, c]" "tm_opt m2 = tm_opt m" "tm_multi_state m2 = CAS_CONNECT_DONE" by (simp_all add: m2_def m1_def s)
    have single: "\<not> topt_single_session (tm_opt m)" using m(3) by (simp add: keys_lasting_def)
    show ?thesis
    proof (cases "ks_state (ks_primary a') = S_ERROR")
      case False
      then have "m' = m1" using r True a'(1) l unfolding process_session_def prod.case Let_def l by (simp add: m1_def)
      then show ?thesis using a'(2) False by (auto simp: m1_def has_key_def s tm_consts)
    next
      case err: True
      have "(if S_GENERATED_KEYS \<le> ks_state (ks_lame a') then move_session m2 TM_LAME_DUCK TM_ACTIVE True (me_sid e 0) else reset_session m2 0 (me_sid e 0)) = Some m'"
        using r True a'(1) err single l unfolding process_session_def prod.case Let_def l by (auto simp: m1_def m2_def TM_ACTIVE_def elim!: bind_SomeE)
      then have "tm_multi_state m' = CAS_CONNECT_DONE \<and> tm_session m' ! TM_LAME_DUCK = (if S_GENERATED_KEYS \<le> ks_state (ks_lame a') then a' else c)"
        by (auto simp: move_session_def reset_session_def Let_def m2 tm_consts elim!: bind_SomeE split: if_split_asm)
      then show ?thesis using a'(2) err by (auto simp: has_key_def split: if_split_asm)
    qed
  next
    case False
    then have "m' = m" using r l unfolding process_session_def prod.case Let_def l by auto
    then show ?thesis using m(4) ms by simp
  qed
qed

lemma has_key_cong:
  "tm_session m' ! TM_ACTIVE = tm_session m ! TM_ACTIVE \<Longrightarrow> tm_session m' ! TM_LAME_DUCK = tm_session m ! TM_LAME_DUCK \<Longrightarrow> has_key t m' = has_key t m"
  by (simp add: has_key_def)

lemma process_initial_keeps:
  assumes m: "multi_ok m" "mp_good e" "tm_multi_state m = CAS_CONNECT_DONE" and r: "process_session e 1 (error, m) = Some (error', m')"
  shows "has_key t m' = has_key t m \<and> tm_multi_state m' = CAS_CONNECT_DONE"
proof -
  obtain a b c where s: "tm_session m = [a, b, c]" "opts_ok (tm_opt m)" "session_ok b" using m(1) by (elim multi_okE)
  define s1 where "s1 = link_session e 1 m"
  have s1: "session_ok s1" using s(3) session_ok_addr by (auto simp: s1_def link_session_def s(1) tm_consts Let_def)
  have t1: "0 < me_time e 1" using m(2) by (simp add: mp_good_def)
  obtain s2 where p: "tls_process (tm_opt m) (me_time e 1) (me_rounds e 1) CAS_CONNECT_DONE s1 = Some (CAS_CONNECT_DONE, s2)"
    using tls_process_parts [OF s(2) s1 t1, of "me_rounds e 1" CAS_CONNECT_DONE] by auto
  have "tm_multi_state m' = CAS_CONNECT_DONE \<and> (\<exists>x. tm_session m' = [a, x, c])"
    using r p m(3) unfolding process_session_def prod.case Let_def s1_def [symmetric]
    by (auto simp: reset_session_def Let_def s(1) tm_consts elim!: bind_SomeE split: if_split_asm)
  then show ?thesis by (auto simp: has_key_def s(1) tm_consts)
qed

definition no_deferred :: "(nat \<Rightarrow> auth_deferred_result list) \<Rightarrow> bool" where
  "no_deferred d \<longleftrightarrow> (\<forall>i < 3. ACF_FAILED \<notin> set (d i) \<and> ACF_PENDING \<notin> set (d i))"

lemma update_scan_usable:
  assumes "length (tm_session m) = 3" "i < 3" "no_deferred d" "j < 3" "get_key_scan m j = Some ks" "key_usable ks"
  shows "get_key_scan (update_scan now d i m) j = Some ks \<and> length (tm_session (update_scan now d i m)) = 3"
proof -
  obtain k where k: "get_key_scan m i = Some k" using assms(2) by (auto simp: get_key_scan_def numeral_3_eq_3 less_Suc_eq)
  have l: "length (tm_session (put_key_scan i x m)) = 3" for x using assms(1) by (simp add: put_key_scan_def)
  have "update_key_auth_status now (d i) ks = ks" if "i = j"
    using assms(3,4,6) that by (auto simp: update_key_auth_status_def no_deferred_def key_usable_def)
  then show ?thesis using k l get_put_scan [OF assms(1,2,4)] assms(1,5) by (auto simp: update_scan_def)
qed

lemma authentication_keeps:
  assumes "multi_ok m" "no_deferred d" "tls_authentication_status now d m = (tas, m')" "has_key t m"
  shows "has_key t m'"
proof -
  have "m' = fold (update_scan now d) [0..<KEY_SCAN_SIZE] m"
    using assms(3) unfolding tls_authentication_status_def Let_def prod.inject by simp
  then have m': "m' = update_scan now d 2 (update_scan now d 1 (update_scan now d 0 m))" by (simp only: scan_upt fold.simps comp_apply id_apply)
  have l: "length (tm_session m) = 3" using assms(1) by (auto simp: multi_ok_def)
  have keep: "get_key_scan m' j = Some ks" if "j < 3" "get_key_scan m j = Some ks" "key_usable ks" for j ks
  proof -
    note u0 = update_scan_usable [OF l _ assms(2) that, of 0 now]
    note u1 = update_scan_usable [OF _ _ assms(2) that(1) _ that(3), of "update_scan now d 0 m" 1 now]
    note u2 = update_scan_usable [OF _ _ assms(2) that(1) _ that(3), of "update_scan now d 1 (update_scan now d 0 m)" 2 now]
    show ?thesis unfolding m' using u0 u1 u2 by simp
  qed
  show ?thesis using assms(4) keep [of 0] keep [of 1] keep [of 2] by (auto simp: has_key_def)
qed

lemma generate_keeps:
  assumes "mp_generate e m = Some m'" "has_key t m" "length (tm_session m) = 3"
  shows "has_key t m' \<and> tm_multi_state m' = tm_multi_state m"
proof (cases "tm_multi_state m \<ge> CAS_CONNECT_DONE \<and> ks_state (ks_primary (tm_session m ! TM_ACTIVE)) = S_ACTIVE \<and>
    ks_authenticated (ks_primary (tm_session m ! TM_ACTIVE)) = KS_AUTH_TRUE")
  case True
  then have "\<not> key_usable (ks_primary (tm_session m ! TM_ACTIVE))" by (auto simp: key_usable_def ks_states)
  moreover have "tm_multi_state m' = tm_multi_state m \<and> ks_lame (tm_session m' ! TM_ACTIVE) = ks_lame (tm_session m ! TM_ACTIVE) \<and>
      tm_session m' ! TM_LAME_DUCK = tm_session m ! TM_LAME_DUCK"
    using assms(1,3) True unfolding mp_generate_def Let_def
    by (auto simp: tls_session_generate_data_channel_keys_def Let_def tm_consts elim!: bind_SomeE split: if_split_asm)
  ultimately show ?thesis using assms(2) by (simp add: has_key_def)
next
  case False
  then have "m' = m" using assms(1) unfolding mp_generate_def Let_def by (simp split: if_split_asm)
  then show ?thesis using assms(2) by simp
qed

lemma first_with_iff:
  "first_with P m \<noteq> None \<longleftrightarrow> P (ks_primary (tm_session m ! TM_ACTIVE)) \<or> P (ks_lame (tm_session m ! TM_ACTIVE)) \<or> P (ks_lame (tm_session m ! TM_LAME_DUCK))"
  by (simp add: first_with_def scan_upt)

lemma lame_duck_keeps:
  assumes "mp_lame_duck e m = Some m'" "multi_ok m" "has_key (me_end e) m"
  shows "first_with key_usable m' \<noteq> None \<and> tm_multi_state m' = tm_multi_state m"
proof -
  obtain a b c where s: "tm_session m = [a, b, c]" "lame_session_ok c" using assms(2) by (elim multi_okE)
  have d: "lame_duck_must_die (me_end e) c = Some (ks_state (ks_lame c) = S_GENERATED_KEYS \<and> ks_must_die (ks_lame c) \<le> me_end e)"
    using s(2) by (intro lame_must_die) (simp add: lame_session_ok_def)
  show ?thesis
    using assms(1,3) d s(1) unfolding first_with_iff by (auto simp: mp_lame_duck_def has_key_def tm_consts split: if_split_asm)
qed

lemma promote_keeps:
  assumes "mp_promote e tas m = Some (tas', r, m')" "\<not> r" "tas' \<noteq> TLS_AUTHENTICATION_FAILED" "tm_multi_state m = CAS_CONNECT_DONE" "multi_ok m"
  shows "m' = m"
proof (rule ccontr)
  assume n: "m' \<noteq> m"
  obtain m1 where m1: "move_session m TM_ACTIVE TM_INITIAL True (me_sid e TM_SIZE) = Some m1"
    "(case tls_authentication_status (me_end e) (me_auth2 e) m1 of (tas', m2) \<Rightarrow>
       Some (if tm_multi_state m2 = CAS_CONNECT_DONE then (tas', True, m2\<lparr>tm_multi_state := CAS_RECONNECT_PENDING\<rparr>) else (tas', False, m2))) = Some (tas', r, m')"
    using assms(1) n unfolding mp_promote_def Let_def by (auto elim!: bind_SomeE split: if_split_asm)
  have "tm_multi_state m1 = CAS_CONNECT_DONE"
    using m1(1) assms(4) by (auto simp: move_session_def Let_def elim!: bind_SomeE split: if_split_asm)
  moreover have "tm_multi_state (snd (tls_authentication_status now d m1)) = tm_multi_state m1" for now d
    by (simp add: tls_authentication_status_def Let_def scan_upt update_scan_def put_key_scan_def)
  ultimately show False using m1(2) assms(2) by (auto split: prod.split_asm if_split_asm) (metis snd_conv)
qed

section \<open>A packet on its way\<close>

lemma opcode_word: "ucast (drop_bit 24 (push_bit 24 (w :: u32) OR (p AND 0xFFFFFF))) = (ucast w :: u8)"
proof -
  have m: "(0xFFFFFF :: u32) = mask 24" by (simp add: mask_eq_exp_minus_1)
  show ?thesis unfolding m by (rule bit_word_eqI) (auto simp: bit_simps)
qed

lemma key_opcode:
  assumes "0 \<le> k" "k \<le> 7" "op = P_DATA_V1 \<or> op = P_DATA_V2"
  shows "uint (word_of_int (push_bit P_OPCODE_SHIFT op OR k) :: u8) = 8 * op + k" "drop_bit P_OPCODE_SHIFT (8 * op + k) = op"
    "(8 * op + k) AND P_KEY_ID_MASK = k" "ucast (word_of_int (push_bit P_OPCODE_SHIFT op OR k) :: u32) = (word_of_int (push_bit P_OPCODE_SHIFT op OR k) :: u8)"
proof -
  have "k = 0 \<or> k = 1 \<or> k = 2 \<or> k = 3 \<or> k = 4 \<or> k = 5 \<or> k = 6 \<or> k = 7" using assms(1,2) by presburger
  then show "uint (word_of_int (push_bit P_OPCODE_SHIFT op OR k) :: u8) = 8 * op + k" "drop_bit P_OPCODE_SHIFT (8 * op + k) = op"
    "(8 * op + k) AND P_KEY_ID_MASK = k" "ucast (word_of_int (push_bit P_OPCODE_SHIFT op OR k) :: u32) = (word_of_int (push_bit P_OPCODE_SHIFT op OR k) :: u8)"
    using assms(3) by (auto simp: P_DATA_V1_def P_DATA_V2_def P_OPCODE_SHIFT_def P_KEY_ID_MASK_def push_bit_eq_mult drop_bit_eq_div)
qed

lemma data_loop_finds:
  assumes "get_key_scan m j = Some kr" "key_usable kr" "ks_key_id kr = k" "j < 3"
    "\<forall>i < j. key_usable (the (get_key_scan m i)) \<longrightarrow> ks_key_id (the (get_key_scan m i)) \<noteq> k"
    "(if floated then Some True else link_socket_actual_match from (ks_remote_addr kr)) = Some True"
  shows "data_loop op k from floated m buf [0..<KEY_SCAN_SIZE] = data_found op j kr m buf"
proof -
  have "j = 0 \<or> j = 1 \<or> j = 2" using assms(4) by auto
  then show ?thesis
    using assms(1-3,6) assms(5) [rule_format, of 0] assms(5) [rule_format, of 1] unfolding scan_upt
    by (elim disjE) (auto simp: key_usable_def)
qed

lemma handle_data_finds:
  assumes "get_key_scan m j = Some kr" "key_usable kr" "j < 3"
    "\<forall>i < j. key_usable (the (get_key_scan m i)) \<longrightarrow> ks_key_id (the (get_key_scan m i)) \<noteq> ks_key_id kr"
    "(if floated then Some True else link_socket_actual_match from (ks_remote_addr kr)) = Some True"
    "multi_ok m" "buf_ok buf" "buf_content buf = word_of_int (push_bit P_OPCODE_SHIFT op OR ks_key_id kr) # xs" "op = P_DATA_V1 \<or> op = P_DATA_V2"
  shows "handle_data_channel_packet m from buf floated = data_found op j kr m buf"
proof -
  have k: "0 \<le> ks_key_id kr" "ks_key_id kr \<le> 7" using scan_inited(2,3) [OF assms(6,1)] assms(2) by (auto simp: key_usable_def)
  have "buf_load buf (b_offset buf) 1 = take 1 (buf_content buf)" using buf_load_take [OF assms(7), of 1] assms(8) by simp
  then have "first_byte buf = 8 * op + ks_key_id kr" using assms(8) key_opcode(1) [OF k assms(9)] by (simp add: first_byte_def)
  then show ?thesis
    using key_opcode(2,3) [OF k assms(9)] data_loop_finds [OF assms(1,2) refl assms(3-5), of op buf]
    by (simp add: handle_data_channel_packet_def Let_def)
qed

text \<open>The key that was found decrypts the packet when its replay window is behind the packet id.\<close>

lemma found_decrypts:
  assumes "multi_ok m" "tm_multi_state m = CAS_CONNECT_DONE" "get_key_scan m j = Some kr" "j < 3"
    "handle_data_channel_packet m from buf floated = Some (buf1, Some j, ad, put_key_scan j (count_packet buf1 kr) m)"
    "rx_seen r d (ks_crypto_options kr) A" "rx_good \<lparr>rv_now = now, rv_buf = buf1, rv_work = work, rv_frame = fr, rv_ad = ad\<rparr>"
    "rx_text r d \<lparr>rv_now = now, rv_buf = buf1, rv_work = work, rv_frame = fr, rv_ad = ad\<rparr> = Some pt" "rx_at (ks_crypto_options kr) i"
    "i < rx_id \<lparr>rv_now = now, rv_buf = buf1, rv_work = work, rv_frame = fr, rv_ad = ad\<rparr>"
  shows "\<exists>b m'. process_incoming_data now fr m from floated buf work = Some (True, b, m') \<and> buf_content b = pt"
proof -
  have l: "length (tm_session m) = 3" using assms(1) by (auto simp: multi_ok_def)
  let ?m1 = "put_key_scan j (count_packet buf1 kr) m"
  have "scan_options (Some j) ?m1 = Some (ks_crypto_options kr)"
    using get_put_scan [OF l assms(4,4)] by (simp add: scan_options_def count_packet_def)
  moreover have "tm_multi_state ?m1 = CAS_CONNECT_DONE" using assms(2) by (simp add: put_key_scan_def)
  moreover obtain b opt' where "rx_step (ks_crypto_options kr) \<lparr>rv_now = now, rv_buf = buf1, rv_work = work, rv_frame = fr, rv_ad = ad\<rparr> = Some (True, b, opt')"
    "buf_content b = pt"
    using rx_step_newer [OF assms(6-10)] by blast
  ultimately show ?thesis
    using assms(5) by (auto simp: process_incoming_data_def rx_step_def Let_def split: option.split_asm prod.split_asm)
qed

text \<open>The bytes on the wire: the opcode is part of the sealed packet (\<open>P_DATA_V2\<close>) or in front of it (\<open>P_DATA_V1\<close>).\<close>

definition key_byte :: "int \<Rightarrow> 's key_state \<Rightarrow> u8" where
  "key_byte op ks = word_of_int (push_bit P_OPCODE_SHIFT op OR ks_key_id ks)"

definition data_wire :: "bool \<Rightarrow> 's key_state \<Rightarrow> 's key_ctx \<Rightarrow> bytes \<Rightarrow> u32 \<Rightarrow> bytes \<Rightarrow> bool" where
  "data_wire v2 ks r pt i ws \<longleftrightarrow>
     (if v2 then (\<exists>w xs. sealed r 4 pt i w \<and> buf_content w = ws \<and> ws = key_byte P_DATA_V2 ks # xs \<and> 24 < length ws)
      else (\<exists>w. sealed r 0 pt i w \<and> ws = key_byte P_DATA_V1 ks # buf_content w \<and> 20 < length (buf_content w)))"

lemma get_key_scan_save [simp]: "get_key_scan (m\<lparr>tm_save_ks := x\<rparr>) i = get_key_scan m i"
  by (simp add: get_key_scan_def)

lemma select_save [simp]: "tls_select_encryption_key now (m\<lparr>tm_save_ks := x\<rparr>) = tls_select_encryption_key now m"
  by (simp add: tls_select_encryption_key_def scan_upt)

lemma post_encrypt_saved: "tm_save_ks m = Some i \<Longrightarrow> get_key_scan m i = Some ks \<Longrightarrow> \<exists>m'. tls_post_encrypt m buf = Some m'"
  by (simp add: tls_post_encrypt_def)

lemma put_options_frame:
  "tm_save_ks (put_options oi r m) = tm_save_ks m" "tm_use_peer_id (put_options oi r m) = tm_use_peer_id m"
  by (auto simp: put_options_def put_key_scan_def put_session_def split: option.splits)

lemma opcode_front:
  assumes "multi_ok m" "get_key_scan m i = Some ks" "key_usable ks"
  shows "\<exists>x y z. be32 (push_bit 24 (word_of_int (push_bit P_OPCODE_SHIFT P_DATA_V2 OR ks_key_id ks)) OR (p AND 0xFFFFFF)) = [key_byte P_DATA_V2 ks, x, y, z]"
proof -
  have k: "0 \<le> ks_key_id ks" "ks_key_id ks \<le> 7" using scan_inited(2,3) [OF assms(1,2)] assms(3) by (auto simp: key_usable_def)
  have "ucast (word_of_int (push_bit P_OPCODE_SHIFT P_DATA_V2 OR ks_key_id ks) :: u32) = key_byte P_DATA_V2 ks"
    unfolding key_byte_def using key_opcode(4) [OF k] by blast
  then show ?thesis unfolding be32_def opcode_word by (simp only:) blast
qed

lemma encrypt_sign_wire:
  assumes m: "multi_ok m" "tm_multi_state m = CAS_CONNECT_DONE" "tls_select_encryption_key now m = Some (Some i)" "get_key_scan m i = Some ks" "key_usable ks" "i < 3"
    and k: "key_pair (ctx_encrypt (key_ctx_bi (ks_crypto_options ks))) r" "send_id (pid_send (co_packet_id (ks_crypto_options ks))) \<noteq> PACKET_ID_MAX"
    and b: "buf_ok buf" "0 < b_len buf" "buf_ok encrypt_buf" "4 \<le> headroom fr"
      "headroom fr + 20 + b_len buf + OPENVPN_MAX_CIPHER_BLOCK_SIZE \<le> b_capacity encrypt_buf" "b_len buf + OPENVPN_MAX_CIPHER_BLOCK_SIZE < int BUF_SIZE_MAX"
  shows "\<exists>out m'. encrypt_sign now prng fr m buf encrypt_buf = Some (out, m') \<and> buf_ok out \<and>
    length (buf_content out) = (if tm_use_peer_id m then 24 else 21) + length (buf_content buf) \<and>
    data_wire (tm_use_peer_id m) ks r (buf_content buf) (send_id (pid_send (co_packet_id (ks_crypto_options ks))) + 1) (buf_content out)"
proof -
  define m1 where "m1 = m\<lparr>tm_save_ks := Some i\<rparr>"
  let ?opt = "ks_crypto_options ks"
  have pre: "tls_pre_encrypt now m buf = Some (buf, Some i, m1)" using m(3) b(2) by (simp add: tls_pre_encrypt_def m1_def)
  have sc: "scan_options (Some i) m1 = Some ?opt" "saved_key m1 = Some ks" "tm_use_peer_id m1 = tm_use_peer_id m" "tm_peer_id m1 = tm_peer_id m"
    using m(4) by (simp_all add: scan_options_def saved_key_def m1_def)
  have init: "packet_id_initialized (co_packet_id ?opt)" using scan_inited(4) [OF m(1,4)] m(5) by (simp add: key_usable_def)
  have bl: "0 \<le> b_len buf" "0 \<le> OPENVPN_MAX_CIPHER_BLOCK_SIZE" using b(2) by (simp_all add: OPENVPN_MAX_CIPHER_BLOCK_SIZE_def)
  obtain work where w: "buf_init encrypt_buf (headroom fr) = Some work" "buf_ok work" "buf_content work = []" "b_offset work = headroom fr"
    "b_capacity work = b_capacity encrypt_buf"
    using buf_init_ok [OF b(3), of "headroom fr"] b(4,5) bl by auto
  note es = encrypt_sign_def Let_def m(2) less_irrefl if_False w(1) pre
  show ?thesis
  proof (cases "tm_use_peer_id m")
    case True
    define op where "op = be32 (push_bit 24 (word_of_int (push_bit P_OPCODE_SHIFT P_DATA_V2 OR ks_key_id ks)) OR (tm_peer_id m AND 0xFFFFFF))"
    obtain x y z where op: "op = [key_byte P_DATA_V2 ks, x, y, z]" using opcode_front [OF m(1,4,5), of "tm_peer_id m"] by (auto simp: op_def)
    obtain work1 where w1: "buf_write_prepend work op = Some work1" using buf_prepend_succeeds [OF w(2), of op] w(4) b(4) op by auto
    have c1: "buf_ok work1" "buf_content work1 = op" "b_capacity work1 = b_capacity encrypt_buf" "b_offset work1 = headroom fr - 4"
      using buf_prepend_content [OF w(2) w1] w op by auto
    have "tx_good 4 \<lparr>tv_now = now, tv_buf = buf, tv_work = work1\<rparr>" using b c1 op by (simp add: tx_good_def)
    from tx_step [OF k(1) init k(2) this, of prng] obtain out opt' where o: "openvpn_encrypt now prng buf work1 (Some ?opt) = Some (out, Some opt')"
      "sealed r 4 (buf_content buf) (send_id (pid_send (co_packet_id ?opt)) + 1) out" "buf_ok out" "take 4 (buf_content out) = op"
      "length (buf_content out) = 24 + length (buf_content buf)"
      using c1(2) by auto
    have l: "24 < length (buf_content out)" using o(5) length_buf_content [OF b(1)] b(2) by auto
    then obtain xs where xs: "buf_content out = key_byte P_DATA_V2 ks # xs" using o(4) op by (cases "buf_content out") auto
    define m2 where "m2 = put_options (Some i) (Some opt') m1"
    have "tm_save_ks m2 = Some i" "\<exists>ks'. get_key_scan m2 i = Some ks'"
      using m(6) by (auto simp: m2_def put_options_frame m1_def get_key_scan_def)
    then obtain m3 where m3: "tls_post_encrypt m2 out = Some m3" using post_encrypt_saved by blast
    have "tls_prepend_opcode_v2 m1 work = Some work1" using w1 sc by (simp add: tls_prepend_opcode_v2_def op_def)
    then have "encrypt_sign now prng fr m buf encrypt_buf = Some (out, m3)"
      using True sc o(1) m3 b(2) by (simp add: es m2_def put_options_frame)
    then show ?thesis using True o(2,3,5) xs l by (auto simp: data_wire_def)
  next
    case False
    have "tx_good 0 \<lparr>tv_now = now, tv_buf = buf, tv_work = work\<rparr>" using b w by (simp add: tx_good_def)
    from tx_step [OF k(1) init k(2) this, of prng] obtain out opt' where o: "openvpn_encrypt now prng buf work (Some ?opt) = Some (out, Some opt')"
      "sealed r 0 (buf_content buf) (send_id (pid_send (co_packet_id ?opt)) + 1) out" "buf_ok out" "b_offset out = headroom fr"
      "length (buf_content out) = 20 + length (buf_content buf)"
      using w(4) by auto
    have l: "20 < length (buf_content out)" "0 < b_len out" using o(5) length_buf_content [OF b(1)] length_buf_content [OF o(3)] b(2) by auto
    define m2 where "m2 = put_options (Some i) (Some opt') m1"
    have ln: "length (tm_session m1) = 3" using m(1) by (auto simp: multi_ok_def m1_def)
    have m1s: "get_key_scan m1 i = Some ks" using m(4) by (simp add: m1_def)
    have s2: "tm_save_ks m2 = Some i" "get_key_scan m2 i = Some (ks\<lparr>ks_crypto_options := opt'\<rparr>)"
      using get_put_scan [OF ln m(6,6)] m1s by (simp_all add: m2_def put_options_frame, simp_all add: m1_def put_options_def)
    obtain out1 where o1: "buf_write_prepend out [key_byte P_DATA_V1 ks] = Some out1"
      using buf_prepend_succeeds [OF o(3), of "[key_byte P_DATA_V1 ks]"] o(4) b(4) by auto
    have c1: "buf_ok out1" "buf_content out1 = key_byte P_DATA_V1 ks # buf_content out" using buf_prepend_content [OF o(3) o1] by auto
    have "tls_prepend_opcode_v1 m2 out = Some out1" using o1 s2 by (simp add: tls_prepend_opcode_v1_def saved_key_def key_byte_def)
    moreover obtain m3 where "tls_post_encrypt m2 out1 = Some m3" using post_encrypt_saved [OF s2] by blast
    ultimately have "encrypt_sign now prng fr m buf encrypt_buf = Some (out1, m3)"
      using False sc o(1) b(2) l(2) by (simp add: es m2_def put_options_frame)
    then show ?thesis using False o(2,5) c1 l(1) by (auto simp: data_wire_def)
  qed
qed

text \<open>The receiver: the key that is found under the id of the packet opens it.\<close>

lemma advance_load: "buf_advance buf n = Some b \<Longrightarrow> buf_load b k l = buf_load buf k l"
  by (auto simp: buf_advance_def buf_load_def split: if_split_asm)

lemma found_v2:
  assumes "bi_initialized (key_ctx_bi (ks_crypto_options kr))" "buf_ok buf" "buf_content w = buf_content buf" "24 < length (buf_content buf)"
  shows "\<exists>b. data_found P_DATA_V2 j kr m buf = Some (b, Some j, b_offset buf, put_key_scan j (count_packet b kr) m) \<and> buf_ok b \<and>
    0 < b_len b \<and> b_len b \<le> b_len buf \<and> b_offset buf \<le> b_offset b \<and>
    carries 4 w \<lparr>rv_now = now, rv_buf = b, rv_work = work, rv_frame = fr, rv_ad = b_offset buf\<rparr>"
proof -
  obtain b1 where b1: "buf_advance buf 1 = Some b1" "buf_ok b1" "buf_content b1 = drop 1 (buf_content buf)" "b_offset b1 = b_offset buf + 1"
    using buf_advance_content [OF assms(2), of 1] assms(4) by auto
  have n: "3 \<le> length (buf_content b1)" "4 \<le> b_len b1" using b1(3) assms(4) length_buf_content [OF b1(2)] by auto
  obtain b2 where b2: "buf_advance b1 3 = Some b2" "buf_ok b2" "buf_content b2 = drop 3 (buf_content b1)" "b_offset b2 = b_offset b1 + 3"
    using buf_advance_content [OF b1(2) n(1)] by auto
  have c: "buf_content b2 = drop 4 (buf_content buf)" using b1(3) b2(3) by simp
  have l: "b_len b2 = b_len buf - 4" "0 < b_len b2" using c assms(4) length_buf_content [OF assms(2)] length_buf_content [OF b2(2)] by auto
  have "buf_load b2 (b_offset buf) 4 = take 4 (buf_content buf)"
    using buf_load_take [OF assms(2), of 4] assms(4) advance_load [OF b1(1)] advance_load [OF b2(1)] by simp
  then have "carries 4 w \<lparr>rv_now = now, rv_buf = b2, rv_work = work, rv_frame = fr, rv_ad = b_offset buf\<rparr>"
    using c assms(3) b1(4) b2(4) by (simp add: carries_def)
  then show ?thesis using assms(1) b1 b2 l n(2) by (simp add: data_found_def)
qed

lemma found_v1:
  assumes "bi_initialized (key_ctx_bi (ks_crypto_options kr))" "buf_ok buf" "buf_content buf = x # buf_content w" "buf_content w \<noteq> []"
  shows "\<exists>b. data_found P_DATA_V1 j kr m buf = Some (b, Some j, b_offset b, put_key_scan j (count_packet b kr) m) \<and> buf_ok b \<and>
    0 < b_len b \<and> b_len b \<le> b_len buf \<and> carries 0 w \<lparr>rv_now = now, rv_buf = b, rv_work = work, rv_frame = fr, rv_ad = b_offset b\<rparr>"
proof -
  obtain b1 where b1: "buf_advance buf 1 = Some b1" "buf_ok b1" "buf_content b1 = buf_content w"
    using buf_advance_content [OF assms(2), of 1] assms(3) by auto
  have "0 < length (buf_content w)" using assms(4) by simp
  moreover have "int (length (buf_content w)) = b_len b1" "int (length (buf_content w)) + 1 = b_len buf"
    using b1(3) assms(3) length_buf_content [OF assms(2)] length_buf_content [OF b1(2)] by simp_all
  ultimately have "b_len b1 = b_len buf - 1" "0 < b_len b1" by linarith+
  then show ?thesis using assms(1) b1 by (simp add: data_found_def carries_def P_DATA_V1_def P_DATA_V2_def buf_load_def mem_read_def split: option.split)
qed

definition rx_room :: "int \<Rightarrow> frame \<Rightarrow> buffer \<Rightarrow> buffer \<Rightarrow> bool" where
  "rx_room now fr buf work \<longleftrightarrow> now > 1 \<and> buf_ok buf \<and> buf_ok work \<and> 0 \<le> headroom fr \<and>
     headroom fr + b_len buf + OPENVPN_MAX_CIPHER_BLOCK_SIZE \<le> b_capacity work \<and> b_len buf + OPENVPN_MAX_CIPHER_BLOCK_SIZE < int BUF_SIZE_MAX"

lemma wire_opens:
  assumes m: "multi_ok m" "tm_multi_state m = CAS_CONNECT_DONE" "get_key_scan m j = Some kr" "key_usable kr" "j < 3"
      "\<forall>i < j. key_usable (the (get_key_scan m i)) \<longrightarrow> ks_key_id (the (get_key_scan m i)) \<noteq> ks_key_id kr"
      "(if floated then Some True else link_socket_actual_match from (ks_remote_addr kr)) = Some True"
    and r: "rx_seen r d (ks_crypto_options kr) A" "kc_cipher r = Some d" "rx_at (ks_crypto_options kr) i0" "i0 < i"
    and w: "data_wire v2 ks r pt i (buf_content buf)" "ks_key_id ks = ks_key_id kr" and b: "rx_room now fr buf work"
  shows "\<exists>b m'. process_incoming_data now fr m from floated buf work = Some (True, b, m') \<and> buf_content b = pt"
proof -
  have bi: "bi_initialized (key_ctx_bi (ks_crypto_options kr))" using scan_inited(1) [OF m(1,3)] m(4) by (simp add: key_usable_def)
  have bo: "buf_ok buf" "0 \<le> b_offset buf" using b by (auto simp: rx_room_def buf_ok_def)
  let ?e = "\<lambda>b ad. \<lparr>rv_now = now, rv_buf = b, rv_work = work, rv_frame = fr, rv_ad = ad\<rparr>"
  have fin: ?thesis if f: "data_found op j kr m buf = Some (b1, Some j, ad, put_key_scan j (count_packet b1 kr) m)"
      and o: "op = P_DATA_V1 \<or> op = P_DATA_V2" "buf_content buf = word_of_int (push_bit P_OPCODE_SHIFT op OR ks_key_id kr) # xs"
      and c: "carries n x (?e b1 ad)" "sealed r n pt i x" "buf_ok b1" "0 < b_len b1" "b_len b1 \<le> b_len buf" "0 \<le> ad" "ad \<le> b_offset b1"
    for op b1 ad xs n x
  proof -
    have g: "rx_good (?e b1 ad)" using c(3-) b by (auto simp: rx_good_def rx_packet_def rx_room_def)
    have h: "handle_data_channel_packet m from buf floated = Some (b1, Some j, ad, put_key_scan j (count_packet b1 kr) m)"
      using handle_data_finds [OF m(3-7) m(1) bo(1) o(2,1)] f by simp
    have t: "rx_text r d (?e b1 ad) = Some pt" "rx_id (?e b1 ad) = i" using carries_open [OF c(2,1) g r(2)] by auto
    show ?thesis using found_decrypts [OF m(1,2,3,5) h r(1) g t(1) r(3)] t(2) r(4) by simp
  qed
  show ?thesis
  proof (cases v2)
    case True
    then obtain x xs where x: "sealed r 4 pt i x" "buf_content x = buf_content buf" "buf_content buf = key_byte P_DATA_V2 ks # xs" "24 < length (buf_content buf)"
      using w(1) by (auto simp: data_wire_def)
    show ?thesis using found_v2 [OF bi bo(1) x(2,4), of j m now work fr] fin [of P_DATA_V2 _ _ xs 4 x] x bo(2) w(2) unfolding key_byte_def by auto
  next
    case False
    then obtain x where x: "sealed r 0 pt i x" "buf_content buf = key_byte P_DATA_V1 ks # buf_content x" "20 < length (buf_content x)"
      using w(1) by (auto simp: data_wire_def)
    have "buf_content x \<noteq> []" using x(3) by auto
    from found_v1 [OF bi bo(1) x(2) this, of j m now work fr] obtain b1 where
      "data_found P_DATA_V1 j kr m buf = Some (b1, Some j, b_offset b1, put_key_scan j (count_packet b1 kr) m)" "buf_ok b1" "0 < b_len b1"
      "b_len b1 \<le> b_len buf" "carries 0 x (?e b1 (b_offset b1))" "0 \<le> b_offset b1"
      by (auto simp: buf_ok_def)
    then show ?thesis using fin [of P_DATA_V1 b1 "b_offset b1" "buf_content x" 0 x] x w(2) unfolding key_byte_def by auto
  qed
qed

lemma next_id_less:
  assumes "(x :: u32) \<noteq> PACKET_ID_MAX"
  shows "x < x + 1"
proof -
  have "unat x \<noteq> unat (0xFFFFFFFF :: u32)" using assms unfolding PACKET_ID_MAX_def word_unat_eq_iff by simp
  moreover have "unat x < 2 ^ 32" using unsigned_less [of x, where 'a = nat] by simp
  ultimately have "unat x + 1 < 2 ^ 32" by simp
  then show ?thesis by (simp add: word_less_nat_alt unat_word_ariths(1))
qed

lemma selected_usable:
  assumes "multi_ok m" "tls_select_encryption_key now m = Some (Some i)"
  shows "\<exists>ks. get_key_scan m i = Some ks \<and> key_usable ks \<and> i < 3"
proof -
  have "first_with (key_ready now) m = Some i \<or> first_with key_usable m = Some i"
    using assms(2) select_key [OF assms(1), of now] by (auto split: option.splits)
  then show ?thesis by (auto simp: first_with_def scan_upt key_ready_def split: if_splits)
qed

text \<open>A control packet for a session in the error state.\<close>

lemmas control_opcodes = P_CONTROL_V1_def P_ACK_V1_def P_CONTROL_SOFT_RESET_V1_def P_FIRST_OPCODE_def P_LAST_OPCODE_def is_hard_reset_method2_def
  P_CONTROL_HARD_RESET_CLIENT_V2_def P_CONTROL_HARD_RESET_CLIENT_V3_def P_CONTROL_HARD_RESET_SERVER_V2_def

lemma accept_error:
  assumes "tm_session m ! i = s" "ks_state (ks_primary s) = S_ERROR"
  shows "control_accept m i new_link from sid key_id = None"
  using assms by (simp add: control_accept_def Let_def)

section \<open>An example\<close>

text \<open>A client whose key is due for renegotiation, and a call in which the negotiation fails at once.\<close>

definition demo_opts :: tls_options where
  "demo_opts = \<lparr>topt_server = False, topt_mode_server = False, topt_tls_crypt_v2 = False, topt_replay = True, topt_replay_window = 64,
     topt_replay_time = 15, topt_single_session = False, topt_transition_window = 3600, topt_handshake_window = 60, topt_renegotiate_packets = 0,
     topt_renegotiate_bytes = - 1, topt_renegotiate_seconds = 3600, topt_crypto_flags = 0\<rparr>"

definition demo_addr :: link_socket_actual where
  "demo_addr = \<lparr>sa_family = AF_INET, sa_port = 1194, sin_addr = 0x0A000001, sin6_addr = replicate 16 0\<rparr>"

definition demo_key :: "toy_state key_state" where
  "demo_key = key_state_clear\<lparr>ks_state := S_GENERATED_KEYS, ks_authenticated := KS_AUTH_TRUE, ks_established := 100, ks_remote_addr := demo_addr,
     ks_crypto_options := toy_options\<rparr>"

definition demo_sid :: bytes where
  "demo_sid = [1, 2, 3, 4, 5, 6, 7, 8]"

definition demo_session :: "toy_state tls_session" where
  "demo_session = tls_session_clear\<lparr>s_session_id := demo_sid, s_key_id := 1, ks_primary := demo_key\<rparr>"

definition demo_multi :: "toy_state tls_multi" where
  "demo_multi = (tls_multi_init demo_opts)\<lparr>tm_multi_state := CAS_CONNECT_DONE,
     tm_session := [demo_session, the (tls_session_init demo_opts demo_sid), tls_session_clear]\<rparr>"

definition demo_round :: ps_env where
  "demo_round = \<lparr>pe_now = 4000, pe_get_buf = False, pe_send_empty = True, pe_sends = False, pe_cipher_in_ok = True, pe_cipher_in = False,
     pe_plain_in_ok = True, pe_plain_in = False, pe_write_empty = True, pe_key_write = True, pe_has_plain = False, pe_key_read = None,
     pe_plain_out_ok = True, pe_plain_out = False, pe_cipher_out_ok = True, pe_cipher_out = False\<rparr>"

definition demo_env :: "toy_state mp_env" where
  "demo_env = \<lparr>me_time = (\<lambda>i. 4000), me_rounds = (\<lambda>i. [demo_round]), me_sid = (\<lambda>i. demo_sid), me_link = addr_clear, me_end = 4001,
     me_auth = (\<lambda>i. []), me_auth2 = (\<lambda>i. []), me_expansion = Some (toy_ctx toy_seal, replicate 64 9, toy_ctx toy_open, replicate 64 9),
     me_insecure = False, me_active = False\<rparr>"

lemma demo_opts_ok: "opts_ok demo_opts"
  by (simp add: opts_ok_def demo_opts_def packet_id_init_def pid_consts Let_def)

lemma demo_sid_defined: "session_id_defined demo_sid"
  by (simp add: session_id_defined_def demo_sid_def SID_SIZE_def numeral_eq_Suc)

lemma demo_env_good: "mp_good demo_env" "expansion_good (me_expansion demo_env)" "no_deferred (me_auth demo_env)"
  using demo_sid_defined
  by (simp_all add: mp_good_def demo_env_def expansion_good_def no_deferred_def key_ctx_update_implicit_iv_def toy_ctx_def toy_seal_def toy_open_def
      crypto_consts Let_def)

lemma demo_multi_ok: "multi_ok demo_multi"
proof -
  obtain s :: "toy_state tls_session" where s: "tls_session_init demo_opts demo_sid = Some s" "session_ok s"
    using tls_session_init_ok [OF demo_opts_ok demo_sid_defined] by blast
  have "session_ok demo_session"
    using demo_sid_defined
    by (simp add: session_ok_def primary_ok_def primary_core_def session_rest_def key_id_ok_def key_inited_def demo_session_def demo_key_def
        tls_session_clear_def key_state_clear_def lame_ok_def toy_options_def toy_pid_def packet_id_initialized_def ks_states next_key_id_def
        P_KEY_ID_MASK_def inet_family_def demo_addr_def)
  then show ?thesis using s demo_opts_ok by (simp add: multi_ok_def demo_multi_def tls_multi_init_def)
qed

lemma demo_lasting: "keys_lasting demo_env demo_multi"
proof -
  have r: "should_renegotiate demo_opts 4000 demo_key" by (simp add: should_renegotiate_def demo_opts_def demo_key_def ks_states)
  have p: "get_primary_key demo_multi = demo_key" by (simp add: get_primary_key_def demo_multi_def demo_session_def TM_ACTIVE_def)
  have k: "the (get_key_scan demo_multi 0) = demo_key" "the (get_key_scan demo_multi 1) = key_state_clear" "the (get_key_scan demo_multi 2) = key_state_clear"
    by (simp_all add: get_key_scan_def demo_multi_def demo_session_def tm_consts)
  have all: "\<forall>i < 3. P i" if "P 0" "P 1" "P (2 :: nat)" for P using that by (auto simp: numeral_3_eq_3 less_Suc_eq numeral_2_eq_2)
  have "\<forall>i < 3. ks_state (the (get_key_scan demo_multi i)) = S_GENERATED_KEYS \<longrightarrow>
      ks_authenticated (the (get_key_scan demo_multi i)) = KS_AUTH_TRUE \<and>
      (0 < i \<longrightarrow> me_time demo_env 0 < ks_must_die (the (get_key_scan demo_multi i)) \<and> me_end demo_env < ks_must_die (the (get_key_scan demo_multi i)))"
    by (rule all) (simp_all only: k, simp_all add: demo_key_def ks_states)
  moreover have "tm_opt demo_multi = demo_opts" "me_time demo_env 0 = 4000" "me_end demo_env = 4001"
    by (simp_all add: demo_multi_def tls_multi_init_def demo_env_def)
  ultimately show ?thesis unfolding keys_lasting_def p using r by (simp add: demo_opts_def)
qed

lemma demo_result: "map_option fst (tls_multi_process demo_env demo_multi) = Some TLSMP_INACTIVE"
  by code_simp

text \<open>A packet for the tunnel and the buffers of both ends.\<close>

definition demo_packet :: buffer where
  "demo_packet = \<lparr>b_capacity = 3, b_offset = 0, b_len = 3, b_data = Some [1, 2, 3]\<rparr>"

definition demo_room :: buffer where
  "demo_room = \<lparr>b_capacity = 512, b_offset = 0, b_len = 0, b_data = Some (replicate 512 0)\<rparr>"

definition demo_frame :: frame where
  "demo_frame = \<lparr>payload_size = 56, headroom = 4, tailroom = 4, mss_fix = 0, max_fragment_size = 0, tun_mtu = 1500, tun_max_mtu = 1600, extra_tun = 0\<rparr>"

lemma demo_seen: "rx_seen (toy_ctx toy_open) toy_open toy_options {}" "rx_at toy_options 0"
  using packet_id_init_seen [OF toy_init] toy_ctx_aead(2) toy_bounded
  by (simp_all add: rx_seen_def check_seen_def toy_options_def toy_open_def toy_seal_def OPENVPN_MAX_CIPHER_BLOCK_SIZE_def rx_at_def toy_pid_def packet_id_clear_def)

text \<open>A session whose key is negotiated but not yet expanded, and a call in which the expansion fails.\<close>

definition demo_waiting :: "toy_state key_state" where
  "demo_waiting = demo_key\<lparr>ks_state := S_ACTIVE, ks_session_id_remote := demo_sid\<rparr>"

definition demo_pending :: "toy_state tls_multi" where
  "demo_pending = demo_multi\<lparr>tm_session := (tm_session demo_multi)[TM_ACTIVE := demo_session\<lparr>ks_primary := demo_waiting\<rparr>]\<rparr>"

definition demo_failing :: "toy_state mp_env" where
  "demo_failing = demo_env\<lparr>me_expansion := None\<rparr>"

section \<open>Properties\<close>





text \<open>
  C16. A packet that is encrypted reaches the tunnel of the peer. The sender picks its key and puts the key id into the opcode; when the peer has the
  matching key under this id, usable and first in its scan, and its replay window is not past the packet, then the datagram, with 24 bytes more than the packet
  (\<open>P_DATA_V2\<close>) or 21 (\<open>P_DATA_V1\<close>), is decrypted there to the bytes of the packet.
\<close>

theorem data_packet_reaches_peer:
  assumes s: "multi_ok ms" "tm_multi_state ms = CAS_CONNECT_DONE" "tls_select_encryption_key now ms = Some (Some i)" "get_key_scan ms i = Some ks"
      "key_pair (ctx_encrypt (key_ctx_bi (ks_crypto_options ks))) r" "send_id (pid_send (co_packet_id (ks_crypto_options ks))) \<noteq> PACKET_ID_MAX"
    and b: "buf_ok buf" "0 < b_len buf" "buf_ok encrypt_buf" "4 \<le> headroom fr"
      "headroom fr + 20 + b_len buf + OPENVPN_MAX_CIPHER_BLOCK_SIZE \<le> b_capacity encrypt_buf" "b_len buf + OPENVPN_MAX_CIPHER_BLOCK_SIZE < int BUF_SIZE_MAX"
    and p: "multi_ok mr" "tm_multi_state mr = CAS_CONNECT_DONE" "get_key_scan mr j = Some kr" "key_usable kr" "j < 3" "ks_key_id ks = ks_key_id kr"
      "\<forall>i < j. key_usable (the (get_key_scan mr i)) \<longrightarrow> ks_key_id (the (get_key_scan mr i)) \<noteq> ks_key_id kr"
      "(if floated then Some True else link_socket_actual_match from (ks_remote_addr kr)) = Some True"
    and q: "rx_seen r d (ks_crypto_options kr) A" "rx_at (ks_crypto_options kr) i0" "i0 \<le> send_id (pid_send (co_packet_id (ks_crypto_options ks)))"
  shows "\<exists>out ms'. encrypt_sign now prng fr ms buf encrypt_buf = Some (out, ms') \<and> buf_ok out \<and>
    b_len out = b_len buf + (if tm_use_peer_id ms then 24 else 21) \<and>
    (\<forall>now' fr' got work. buf_content got = buf_content out \<and> rx_room now' fr' got work \<longrightarrow>
      (\<exists>t mr'. process_incoming_data now' fr' mr from floated got work = Some (True, t, mr') \<and> buf_content t = buf_content buf))"
proof -
  let ?id = "send_id (pid_send (co_packet_id (ks_crypto_options ks)))"
  have u: "key_usable ks" "i < 3" using selected_usable [OF s(1,3)] s(4) by auto
  obtain out ms' where o: "encrypt_sign now prng fr ms buf encrypt_buf = Some (out, ms')" "buf_ok out"
    "length (buf_content out) = (if tm_use_peer_id ms then 24 else 21) + length (buf_content buf)"
    "data_wire (tm_use_peer_id ms) ks r (buf_content buf) (?id + 1) (buf_content out)"
    using encrypt_sign_wire [OF s(1-4) u s(5,6) b, of prng] by blast
  have l: "b_len out = b_len buf + (if tm_use_peer_id ms then 24 else 21)"
    using o(3) length_buf_content [OF o(2)] length_buf_content [OF b(1)] by (auto split: if_splits)
  have kc: "kc_cipher r = Some d" using q(1) by (auto simp: rx_seen_def aead_ctx_def)
  have "i0 < ?id + 1" using q(3) next_id_less [OF s(6)] by (rule order_le_less_trans)
  then have "\<exists>t mr'. process_incoming_data now' fr' mr from floated got work = Some (True, t, mr') \<and> buf_content t = buf_content buf"
    if "buf_content got = buf_content out" "rx_room now' fr' got work" for now' fr' got work
    using wire_opens [OF p(1-5,7,8) q(1) kc q(2) _ _ p(6) that(2)] o(4) that(1) by simp
  then show ?thesis using o(1,2) l by blast
qed

theorem data_packet_reaches_peer_witness:
  "\<exists>out ms' t mr'. encrypt_sign 4000 (\<lambda>n. []) demo_frame demo_multi demo_packet demo_room = Some (out, ms') \<and> b_len out = 24 \<and>
     process_incoming_data 4001 demo_frame demo_multi demo_addr False out demo_room = Some (True, t, mr') \<and> buf_content t = [1, 2, 3]"
proof -
  have k: "get_key_scan demo_multi 0 = Some demo_key" by (simp add: demo_multi_def demo_session_def TM_ACTIVE_def)
  have opt: "ks_crypto_options demo_key = toy_options" "ks_remote_addr demo_key = demo_addr" "key_usable demo_key" "tm_multi_state demo_multi = CAS_CONNECT_DONE"
    "\<not> tm_use_peer_id demo_multi"
    by (simp_all add: demo_key_def key_usable_def demo_multi_def tls_multi_init_def)
  have sel: "tls_select_encryption_key 4000 demo_multi = Some (Some 0)" by code_simp
  have addr: "link_socket_actual_match demo_addr demo_addr = Some True" by code_simp
  have pid: "send_id (pid_send (co_packet_id toy_options)) = 0" "ctx_encrypt (key_ctx_bi toy_options) = toy_ctx toy_seal"
    by (simp_all add: toy_options_def toy_pid_def packet_id_clear_def)
  have rx: "rx_seen (toy_ctx toy_open) toy_open toy_options {}" "rx_at toy_options 0" using demo_seen by blast+
  have buf: "buf_ok demo_packet" "b_len demo_packet = 3" "buf_content demo_packet = [1, 2, 3]" "buf_ok demo_room" "headroom demo_frame = 4" "b_capacity demo_room = 512"
    by (simp_all add: demo_packet_def demo_room_def demo_frame_def buf_ok_def buf_content_def buf_load_def mem_read_def)
  have "\<exists>out ms'. encrypt_sign 4000 (\<lambda>n. []) demo_frame demo_multi demo_packet demo_room = Some (out, ms') \<and> buf_ok out \<and>
    b_len out = b_len demo_packet + (if tm_use_peer_id demo_multi then 24 else 21) \<and>
    (\<forall>now' fr' got work. buf_content got = buf_content out \<and> rx_room now' fr' got work \<longrightarrow>
      (\<exists>t mr'. process_incoming_data now' fr' demo_multi demo_addr False got work = Some (True, t, mr') \<and> buf_content t = buf_content demo_packet))"
    by (rule data_packet_reaches_peer [OF demo_multi_ok opt(4) sel k _ _ buf(1) _ buf(4) _ _ _ demo_multi_ok opt(4) k opt(3), where r = "toy_ctx toy_open"
          and d = toy_open and A = "{}" and ?i0.0 = 0])
      (use rx addr toy_key_pair in \<open>simp_all add: opt pid buf OPENVPN_MAX_CIPHER_BLOCK_SIZE_def BUF_SIZE_MAX_def PACKET_ID_MAX_def\<close>)
  then obtain out ms' where o: "encrypt_sign 4000 (\<lambda>n. []) demo_frame demo_multi demo_packet demo_room = Some (out, ms')" "buf_ok out" "b_len out = 24"
    and t: "rx_room 4001 demo_frame out demo_room \<Longrightarrow>
      \<exists>t mr'. process_incoming_data 4001 demo_frame demo_multi demo_addr False out demo_room = Some (True, t, mr') \<and> buf_content t = [1, 2, 3]"
    using opt(5) buf(2,3) by auto
  have "rx_room 4001 demo_frame out demo_room"
    using o(2,3) buf by (simp add: rx_room_def OPENVPN_MAX_CIPHER_BLOCK_SIZE_def BUF_SIZE_MAX_def)
  then show ?thesis using t o(1,3) by blast
qed



end
