(* ===== verification/Data_Channel_V1.thy ===== *)
theory Data_Channel_V1
  imports Data_Channel
begin

text \<open>
  The older packet format of the data channel: an HMAC over the IV and the ciphertext of a block cipher in CBC mode, or over the
  plain bytes when there is no cipher, with the packet id in front of the payload.
\<close>

section \<open>Packets of the older format\<close>

definition cipher_run :: "'s cipher_ctx \<Rightarrow> bytes \<Rightarrow> bytes \<Rightarrow> (bytes \<times> bytes) option" where
  "cipher_run cc iv x = do {
     s0 \<leftarrow> cipher_ctx_reset cc iv;
     (a, s1) \<leftarrow> cipher_ctx_update cc s0 x;
     (b, _) \<leftarrow> cipher_ctx_final cc s1;
     Some (a, b) }"

text \<open>
  A block cipher in CBC mode: its output is padded, is longer by at most a block and ends in a whole block, and the peer
  gets the input back.
\<close>

definition cbc_pair :: "'s cipher_ctx \<Rightarrow> 's cipher_ctx \<Rightarrow> bool" where
  "cbc_pair e d \<longleftrightarrow> cipher_ctx_mode e = MODE_CBC \<and> cipher_ctx_mode d = MODE_CBC \<and> cipher_ctx_iv_length e = cipher_ctx_iv_length d \<and>
     0 < cipher_ctx_iv_length e \<and> cipher_ctx_iv_length e \<le> OPENVPN_MAX_IV_LENGTH \<and>
     0 \<le> cipher_ctx_block_size e \<and> 0 \<le> cipher_ctx_block_size d \<and>
     (\<forall>iv x. int (length iv) = cipher_ctx_iv_length e \<and> length x < BUF_SIZE_MAX \<longrightarrow>
        (\<exists>a b. cipher_run e iv x = Some (a, b) \<and> int (length a) + int (length b) \<le> int (length x) + cipher_ctx_block_size e \<and>
           length x < length a + length b \<and> int (length b) = cipher_ctx_iv_length e \<and> (\<exists>p q. cipher_run d iv (a @ b) = Some (p, q) \<and> p @ q = x)))"

definition hmac_ok :: "hmac_ctx option \<Rightarrow> bool" where
  "hmac_ok h \<longleftrightarrow> (\<forall>hm. h = Some hm \<longrightarrow> (\<forall>x. length (hmac_ctx_digest hm x) = hmac_ctx_size hm))"

definition hmac_bytes :: "hmac_ctx option \<Rightarrow> bytes \<Rightarrow> bytes" where
  "hmac_bytes h x = (case h of None \<Rightarrow> [] | Some hm \<Rightarrow> hmac_ctx_digest hm x)"

definition hmac_len :: "hmac_ctx option \<Rightarrow> nat" where
  "hmac_len h = (case h of None \<Rightarrow> 0 | Some hm \<Rightarrow> hmac_ctx_size hm)"

lemma length_hmac_bytes: "hmac_ok h \<Longrightarrow> length (hmac_bytes h x) = hmac_len h"
  by (auto simp: hmac_ok_def hmac_bytes_def hmac_len_def split: option.splits)

text \<open>The packet id in front of the payload, in its two lengths.\<close>

definition pid_bytes :: "bool \<Rightarrow> packet_id_net \<Rightarrow> bytes" where
  "pid_bytes lf pin = be32 (pin_id pin) @ (if lf then htontime (pin_time pin) else [])"

definition sent_pin :: "bool \<Rightarrow> packet_id_send \<Rightarrow> packet_id_net" where
  "sent_pin lf p = \<lparr>pin_id = send_id p, pin_time = (if lf then send_time p else 0)\<rparr>"

lemma v1_packet_id_prepends:
  assumes "packet_id_initialized (co_packet_id opt)" "packet_id_send_update now (pid_send (co_packet_id opt)) (long_form opt) = (True, p')"
    "buf_ok buf" "8 \<le> b_offset buf"
  shows "\<exists>buf'. v1_packet_id now buf opt = (True, buf', set_send p' opt) \<and> buf_ok buf' \<and>
    buf_content buf' = pid_bytes (long_form opt) (sent_pin (long_form opt) p') @ buf_content buf \<and>
    b_offset buf' = b_offset buf - int (length (pid_bytes (long_form opt) (sent_pin (long_form opt) p'))) \<and> b_capacity buf' = b_capacity buf"
proof (cases "long_form opt")
  case True
  obtain b1 where b1: "buf_write_prepend buf (htontime (send_time p')) = Some b1" using buf_prepend_succeeds [OF assms(3)] assms(4) by force
  then have c1: "buf_ok b1" "buf_content b1 = htontime (send_time p') @ buf_content buf" "b_offset b1 = b_offset buf - 4" "b_capacity b1 = b_capacity buf"
    using buf_prepend_content [OF assms(3) b1] by simp_all
  obtain b2 where b2: "buf_write_prepend b1 (be32 (send_id p')) = Some b2" using buf_prepend_succeeds [OF c1(1)] c1(3) assms(4) by force
  then show ?thesis
    using b1 c1 assms(1,2) True buf_prepend_content [OF c1(1) b2]
    by (simp add: v1_packet_id_def packet_id_write_def Let_def pid_bytes_def sent_pin_def)
next
  case False
  obtain b2 where b2: "buf_write_prepend buf (be32 (send_id p')) = Some b2" using buf_prepend_succeeds [OF assms(3)] assms(4) by force
  then show ?thesis
    using assms(1,2) False buf_prepend_content [OF assms(3) b2]
    by (simp add: v1_packet_id_def packet_id_write_def Let_def pid_bytes_def sent_pin_def)
qed

lemma reserve_hmac_content:
  assumes "buf_ok work" "hmac_len h < BUF_SIZE_MAX" "b_offset work + b_len work + int (hmac_len h) \<le> b_capacity work"
  shows "\<exists>work' zs. reserve_hmac h work = Some (if h = None then 0 else b_offset work + int (length (buf_content work)),
      if h = None then 0 else b_offset work + int (length (buf_content work)) + int (hmac_len h), work') \<and> buf_ok work' \<and>
    buf_content work' = buf_content work @ zs \<and> length zs = hmac_len h \<and> b_capacity work' = b_capacity work \<and> b_offset work' = b_offset work"
proof (cases h)
  case None
  then show ?thesis using assms by (simp add: reserve_hmac_def hmac_len_def)
next
  case (Some hm)
  then obtain b zs where b: "buf_write_alloc work (hmac_len h) = Some (b_offset work + int (length (buf_content work)), b)" "buf_ok b"
    "buf_content b = buf_content work @ zs" "length zs = hmac_len h" "b_capacity b = b_capacity work" "b_offset b = b_offset work"
    using buf_write_alloc_content [OF assms] by blast
  have "buf_bend b = b_offset work + int (length (buf_content work)) + int (hmac_len h)"
    using length_buf_content [OF b(2)] b(3,4,6) buf_ok_valid [OF b(2)] by (simp add: buf_bend_def buf_bptr_def BLEN_def)
  then show ?thesis using Some b by (simp add: reserve_hmac_def hmac_len_def)
qed

text \<open>A packet that carries an HMAC over the bytes that follow it.\<close>

lemma hmac_stored:
  assumes "buf_ok w" "buf_content w = front @ zs @ body" "length zs = hmac_len h" "hmac_ok h"
  defines "out \<equiv> (case h of None \<Rightarrow> w
      | Some hm \<Rightarrow> buf_store w (b_offset w + int (length front))
          (hmac_ctx_digest hm (buf_load w (b_offset w + int (length front) + int (hmac_len h))
             (nat (buf_bend w - (b_offset w + int (length front) + int (hmac_len h)))))))"
  shows "buf_ok out" "buf_content out = front @ hmac_bytes h body @ body" "b_offset out = b_offset w"
proof -
  have "buf_ok out \<and> buf_content out = front @ hmac_bytes h body @ body \<and> b_offset out = b_offset w"
  proof (cases h)
    case None
    then show ?thesis using assms(1-3) by (simp add: out_def hmac_bytes_def hmac_len_def)
  next
    case (Some hm)
    obtain b1 where b1: "buf_advance w (int (length front + hmac_len h)) = Some b1" "buf_content b1 = body" "buf_ok b1"
      "b_offset b1 = b_offset w + int (length front + hmac_len h)" "b_data b1 = b_data w"
      using buf_advance_content [OF assms(1), of "length front + hmac_len h"] assms(2,3) by auto
    have n: "nat (buf_bend w - (b_offset w + int (length front) + int (hmac_len h))) = length body"
      using length_buf_content [OF assms(1)] assms(2,3) buf_ok_valid [OF assms(1)] by (simp add: buf_bend_def buf_bptr_def BLEN_def)
    have "buf_load w (b_offset w + int (length front) + int (hmac_len h)) (length body) = body"
      using buf_load_take [OF b1(3), of "length body"] b1(2,4,5) by (simp add: buf_load_def add.assoc)
    moreover have "length (hmac_ctx_digest hm body) = length zs" using assms(3,4) Some by (simp add: hmac_ok_def hmac_len_def)
    ultimately show ?thesis
      using buf_store_inside [OF assms(1,2), of "hmac_ctx_digest hm body"] Some n by (simp add: out_def hmac_bytes_def) (simp add: buf_store_def)
  qed
  then show "buf_ok out" "buf_content out = front @ hmac_bytes h body @ body" "b_offset out = b_offset w" by blast+
qed

lemma encrypt_v1_cbc:
  fixes buf work opt prng
  defines "ctx \<equiv> ctx_encrypt (key_ctx_bi opt)" and "lf \<equiv> long_form opt"
  assumes ctx: "kc_cipher ctx = Some e" "cbc_pair e d" "hmac_ok (kc_hmac ctx)"
    and pid: "packet_id_initialized (co_packet_id opt)" "packet_id_send_update now (pid_send (co_packet_id opt)) lf = (True, p')"
    and buf: "buf_ok buf" "0 < b_len buf" "8 \<le> b_offset buf" and work: "buf_ok work" and prng: "\<And>k. length (prng k) = k"
    and room: "b_offset work + b_len work + int (hmac_len (kc_hmac ctx)) + cipher_ctx_iv_length e + 8 + b_len buf + cipher_ctx_block_size e \<le> b_capacity work"
      "int (hmac_len (kc_hmac ctx)) + cipher_ctx_iv_length e + 8 + b_len buf + cipher_ctx_block_size e < int BUF_SIZE_MAX"
  shows "\<exists>out iv a b. openvpn_encrypt_v1 now prng buf work opt = Some (out, set_send p' opt) \<and> buf_ok out \<and> b_offset out = b_offset work \<and>
    int (length iv) = cipher_ctx_iv_length e \<and> cipher_run e iv (pid_bytes lf (sent_pin lf p') @ buf_content buf) = Some (a, b) \<and>
    buf_content out = buf_content work @ hmac_bytes (kc_hmac ctx) (iv @ a @ b) @ iv @ a @ b"
proof -
  let ?h = "kc_hmac ctx"
  let ?x = "pid_bytes lf (sent_pin lf p') @ buf_content buf"
  let ?iv = "prng (nat (cipher_ctx_iv_length e))"
  have e: "cipher_ctx_mode e = MODE_CBC" "0 < cipher_ctx_iv_length e" "0 \<le> cipher_ctx_block_size e" using ctx(2) by (auto simp: cbc_pair_def)
  have bl: "b_len buf = int (length (buf_content buf))" "b_len work = int (length (buf_content work))"
    using length_buf_content buf(1) work by metis+
  have pl: "length (pid_bytes lf (sent_pin lf p')) \<le> 8" by (simp add: pid_bytes_def)
  obtain buf1 where b1: "v1_packet_id now buf opt = (True, buf1, set_send p' opt)" "buf_ok buf1" "buf_content buf1 = ?x"
    using v1_packet_id_prepends [OF pid(1) pid(2) [unfolded lf_def] buf(1,3)] unfolding lf_def by blast
  have l1: "b_len buf1 = int (length ?x)" "length ?x \<le> 8 + length (buf_content buf)"
    using length_buf_content [OF b1(2)] b1(3) pl by simp_all
  obtain w1 zs where w1: "reserve_hmac ?h work = Some (if ?h = None then 0 else b_offset work + int (length (buf_content work)),
      if ?h = None then 0 else b_offset work + int (length (buf_content work)) + int (hmac_len ?h), w1)" "buf_ok w1"
    "buf_content w1 = buf_content work @ zs" "length zs = hmac_len ?h" "b_capacity w1 = b_capacity work" "b_offset w1 = b_offset work"
    using reserve_hmac_content [OF work, of ?h] room e bl by fastforce
  have iv: "int (length ?iv) = cipher_ctx_iv_length e" using prng e(2) by simp
  have "length ?x < BUF_SIZE_MAX" using l1(2) room(2) e bl by linarith
  then obtain a b where ab: "cipher_run e ?iv ?x = Some (a, b)" "int (length a) + int (length b) \<le> int (length ?x) + cipher_ctx_block_size e"
    "int (length b) = cipher_ctx_iv_length e"
    using ctx(2) iv unfolding cbc_pair_def by blast
  obtain s0 s1 s2 where c: "cipher_ctx_reset e ?iv = Some s0" "cipher_ctx_update e s0 ?x = Some (a, s1)" "cipher_ctx_final e s1 = Some (b, s2)"
    using ab(1) by (auto simp: cipher_run_def bind_eq_Some_conv)
  have len: "b_offset work + int (length (buf_content work)) + int (hmac_len ?h) + cipher_ctx_iv_length e + int (length a) + int (length b) \<le> b_capacity work"
    "int (length a) + int (length b) < int BUF_SIZE_MAX" "cipher_ctx_iv_length e < int BUF_SIZE_MAX"
    using room ab(2) l1(2) bl e by linarith+
  obtain w2 where w2: "buf_write w1 ?iv = Some w2" "buf_ok w2" "buf_content w2 = buf_content work @ zs @ ?iv" "b_capacity w2 = b_capacity work" "b_offset w2 = b_offset work"
    using buf_write_fits [OF w1(2), of ?iv] w1(3-6) iv len by fastforce
  obtain w3 where w3: "put_output w2 a = Some w3" "buf_ok w3" "buf_content w3 = buf_content work @ zs @ ?iv @ a" "b_capacity w3 = b_capacity work" "b_offset w3 = b_offset work"
    using put_output_write [OF w2(2), of a] w2(3-5) w1(4) iv len by fastforce
  obtain w4 where w4: "put_output w3 b = Some w4" "buf_ok w4" "buf_content w4 = buf_content work @ zs @ (?iv @ a @ b)" "b_capacity w4 = b_capacity work" "b_offset w4 = b_offset work"
    using put_output_write [OF w3(2), of b] w3(3-5) w1(4) iv len by fastforce
  have safe: "buf_safe w2 (nat (b_len buf1 + cipher_ctx_block_size e))"
    using room e l1 bl w2 w1(4) iv length_buf_content [OF w2(2)] buf_ok_valid [OF w2(2)] by (simp add: buf_safe_def buf_size_valid_def)
  have "encrypt_v1_cipher now prng e ?h buf work opt = Some (True, if ?h = None then 0 else b_offset work + int (length (buf_content work)),
      if ?h = None then 0 else b_offset work + int (length (buf_content work)) + int (hmac_len ?h), w4, set_send p' opt)"
    using w1(1) b1 e(1) w2(1) c safe w3(1) w4(1) ab(3) buf_bytes_content [OF b1(2)] by (simp add: encrypt_v1_cipher_def v1_iv_def Let_def)
  then have "openvpn_encrypt_v1 now prng buf work opt = Some (case ?h of None \<Rightarrow> w4
      | Some hm \<Rightarrow> buf_store w4 (b_offset w4 + int (length (buf_content work)))
          (hmac_ctx_digest hm (buf_load w4 (b_offset w4 + int (length (buf_content work)) + int (hmac_len ?h))
             (nat (buf_bend w4 - (b_offset w4 + int (length (buf_content work)) + int (hmac_len ?h)))))), set_send p' opt)"
    using buf(2) ctx(1) w4(5) by (simp add: openvpn_encrypt_v1_def ctx_def Let_def split: option.splits)
  then show ?thesis
    using hmac_stored [OF w4(2,3) w1(4) ctx(3)] iv ab(1) w4(5) by auto
qed

lemma encrypt_v1_none:
  fixes buf work opt prng
  defines "ctx \<equiv> ctx_encrypt (key_ctx_bi opt)" and "lf \<equiv> long_form opt"
  assumes ctx: "kc_cipher ctx = None" "hmac_ok (kc_hmac ctx)"
    and pid: "packet_id_initialized (co_packet_id opt)" "packet_id_send_update now (pid_send (co_packet_id opt)) lf = (True, p')"
    and buf: "buf_ok buf" "0 < b_len buf" and work: "buf_ok work"
    and room: "8 + int (hmac_len (kc_hmac ctx)) + b_len work \<le> b_offset buf"
  shows "\<exists>out. openvpn_encrypt_v1 now prng buf work opt = Some (out, set_send p' opt) \<and> buf_ok out \<and>
    buf_content out = buf_content work @ hmac_bytes (kc_hmac ctx) (pid_bytes lf (sent_pin lf p') @ buf_content buf) @
      pid_bytes lf (sent_pin lf p') @ buf_content buf"
proof -
  let ?h = "kc_hmac ctx"
  let ?x = "pid_bytes lf (sent_pin lf p') @ buf_content buf"
  have bl: "b_len work = int (length (buf_content work))" "BLEN work = b_len work"
    using length_buf_content [OF work] buf_ok_valid [OF work] by (simp_all add: BLEN_def)
  have pl: "length (pid_bytes lf (sent_pin lf p')) \<le> 8" by (simp add: pid_bytes_def)
  obtain buf1 where b1: "v1_packet_id now buf opt = (True, buf1, set_send p' opt)" "buf_ok buf1" "buf_content buf1 = ?x"
    "b_offset buf1 \<ge> b_offset buf - 8"
    using v1_packet_id_prepends [OF pid(1) pid(2) [unfolded lf_def] buf(1)] room bl pl unfolding lf_def by fastforce
  obtain buf2 zs where b2: "(case ?h of
               None \<Rightarrow> Some (0, 0, buf1)
             | Some hm \<Rightarrow> do { hs \<leftarrow> buf_bptr buf1; (m, b) \<leftarrow> buf_prepend buf1 (int (hmac_ctx_size hm)); Some (m, hs, b) }) =
      Some (if ?h = None then 0 else b_offset buf2, if ?h = None then 0 else b_offset buf2 + int (hmac_len ?h), buf2)"
    "buf_ok buf2" "buf_content buf2 = zs @ ?x" "length zs = hmac_len ?h" "b_offset buf2 = b_offset buf1 - int (hmac_len ?h)"
  proof (cases ?h)
    case None
    then show thesis using that [of buf1 "[]"] b1 by (simp add: hmac_len_def)
  next
    case (Some hm)
    obtain b zs where "buf_prepend buf1 (int (hmac_len ?h)) = Some (b_offset buf1 - int (hmac_len ?h), b)" "buf_ok b"
      "buf_content b = zs @ buf_content buf1" "length zs = hmac_len ?h" "b_offset b = b_offset buf1 - int (hmac_len ?h)"
      using buf_prepend_space [OF b1(2), of "hmac_len ?h"] b1(4) room bl by auto
    then show thesis using that [of b zs] Some b1(3) buf_ok_valid [OF b1(2)] by (simp add: hmac_len_def buf_bptr_def)
  qed
  define buf3 where "buf3 = (if BLEN work \<noteq> 0
      then (case buf_write_prepend buf2 (buf_bytes work) of None \<Rightarrow> buf2 | Some b \<Rightarrow> b) else buf2)"
  have b3: "buf_ok buf3" "buf_content buf3 = buf_content work @ zs @ ?x" "b_offset buf3 = b_offset buf2 - b_len work"
  proof -
    have "buf_ok buf3 \<and> buf_content buf3 = buf_content work @ zs @ ?x \<and> b_offset buf3 = b_offset buf2 - b_len work"
    proof (cases "BLEN work = 0")
      case True
      then show ?thesis using b2 bl by (simp add: buf3_def)
    next
      case False
      obtain b where b: "buf_write_prepend buf2 (buf_content work) = Some b"
        using buf_prepend_succeeds [OF b2(2), of "buf_content work"] b2(5) b1(4) room bl by auto
      then show ?thesis using False buf_prepend_content [OF b2(2) b] b2(3) bl buf_bytes_content [OF work] by (simp add: buf3_def)
    qed
    then show "buf_ok buf3" "buf_content buf3 = buf_content work @ zs @ ?x" "b_offset buf3 = b_offset buf2 - b_len work" by blast+
  qed
  have "encrypt_v1_plain now ?h buf work opt = Some (True, if ?h = None then 0 else b_offset buf2,
      if ?h = None then 0 else b_offset buf2 + int (hmac_len ?h), buf3, set_send p' opt)"
    unfolding encrypt_v1_plain_def b1(1) by (simp add: b2(1) buf3_def)
  moreover have o: "b_offset buf2 = b_offset buf3 + int (length (buf_content work))" using b3(3) bl by simp
  ultimately have "openvpn_encrypt_v1 now prng buf work opt = Some (case ?h of None \<Rightarrow> buf3
      | Some hm \<Rightarrow> buf_store buf3 (b_offset buf3 + int (length (buf_content work)))
          (hmac_ctx_digest hm (buf_load buf3 (b_offset buf3 + int (length (buf_content work)) + int (hmac_len ?h))
             (nat (buf_bend buf3 - (b_offset buf3 + int (length (buf_content work)) + int (hmac_len ?h)))))), set_send p' opt)"
    using buf(2) ctx(1) by (simp add: openvpn_encrypt_v1_def ctx_def Let_def split: option.splits)
  then show ?thesis using hmac_stored [OF b3(1,2) b2(4) ctx(2)] by auto
qed

lemma verify_hmac:
  assumes "buf_ok b" "hmac_ok h"
  shows "(if take (hmac_len h) (buf_content b) = hmac_bytes h (drop (hmac_len h) (buf_content b))
          then \<exists>b1. v1_verify_hmac h b = Some (Inr b1) \<and> buf_ok b1 \<and> buf_content b1 = drop (hmac_len h) (buf_content b)
          else v1_verify_hmac h b = Some (Inl b))"
proof (cases h)
  case None
  then show ?thesis using assms by (simp add: v1_verify_hmac_def hmac_len_def hmac_bytes_def)
next
  case (Some hm)
  let ?c = "buf_content b"
  have l: "b_len b = int (length ?c)" "nat (BLEN b) = length ?c"
    using length_buf_content [OF assms(1)] buf_ok_valid [OF assms(1)] by (simp_all add: BLEN_def)
  show ?thesis
  proof (cases "length ?c < hmac_len h")
    case True
    then have "length (take (hmac_len h) ?c) \<noteq> length (hmac_bytes h (drop (hmac_len h) ?c))" using length_hmac_bytes [OF assms(2)] by simp
    then have "take (hmac_len h) ?c \<noteq> hmac_bytes h (drop (hmac_len h) ?c)" by metis
    then show ?thesis using True Some l by (simp add: v1_verify_hmac_def hmac_len_def Let_def)
  next
    case False
    obtain b1 where b1: "buf_advance b (int (hmac_len h)) = Some b1" "buf_ok b1" "buf_content b1 = drop (hmac_len h) ?c"
      "b_offset b1 = b_offset b + int (hmac_len h)" "b_data b1 = b_data b"
      using buf_advance_content [OF assms(1), of "hmac_len h"] False by auto
    have ld: "buf_load b (b_offset b + int (hmac_len h)) (length ?c - hmac_len h) = drop (hmac_len h) ?c"
      using buf_load_take [OF b1(2), of "length ?c - hmac_len h"] b1(3-5) by (simp add: buf_load_def)
    have lt: "buf_load b (b_offset b) (hmac_len h) = take (hmac_len h) ?c" using buf_load_take [OF assms(1)] False by simp
    show ?thesis using False Some l ld lt b1(1-3) by (auto simp: v1_verify_hmac_def hmac_len_def hmac_bytes_def Let_def)
  qed
qed

lemma read_pid_bytes:
  assumes "buf_ok b" "buf_content b = pid_bytes lf pin @ rest" "if lf then 0 \<le> pin_time pin \<and> pin_time pin < 2 ^ 32 else pin_time pin = 0"
  shows "\<exists>b'. packet_id_read b lf = (True, pin, b') \<and> buf_ok b' \<and> buf_content b' = rest"
  using packet_id_read_content [OF assms(1), of "pin_id pin" lf "pin_time pin" rest] assms(2,3)
  by (cases lf) (auto simp: pid_bytes_def)

lemma decrypt_v1_cbc:
  assumes key: "cbc_pair e d" "packet_id_initialized (co_packet_id opt)"
    and pin: "if long_form opt then 0 \<le> pin_time pin \<and> pin_time pin < 2 ^ 32 else pin_time pin = 0"
    and run: "cipher_run e iv (pid_bytes (long_form opt) pin @ payload) = Some (a, b)" "int (length iv) = cipher_ctx_iv_length e"
    and buf: "buf_ok buf" "buf_content buf = iv @ a @ b" and work: "buf_ok work" "0 \<le> headroom fr"
    and room: "headroom fr + b_len buf + cipher_ctx_block_size d \<le> b_capacity work" "b_len buf + cipher_ctx_block_size d < int BUF_SIZE_MAX"
      "length (pid_bytes (long_form opt) pin @ payload) < BUF_SIZE_MAX"
  shows "\<exists>buf' w. decrypt_v1_cipher d buf work opt fr = Some (Inr (buf', Some pin, w)) \<and> buf_ok w \<and> buf_content w = payload"
proof -
  let ?x = "pid_bytes (long_form opt) pin @ payload"
  have d: "cipher_ctx_mode d = MODE_CBC" "0 \<le> cipher_ctx_block_size d" "cipher_ctx_iv_length d = int (length iv)"
    using key(1) run(2) by (auto simp: cbc_pair_def)
  obtain p q where r: "length ?x < length a + length b" "cipher_run d iv (a @ b) = Some (p, q)" "p @ q = ?x"
    using key(1) run room(3) unfolding cbc_pair_def by fastforce
  obtain s0 s1 s2 where c: "cipher_ctx_reset d iv = Some s0" "cipher_ctx_update d s0 (a @ b) = Some (p, s1)" "cipher_ctx_final d s1 = Some (q, s2)"
    using r(2) by (auto simp: cipher_run_def bind_eq_Some_conv)
  have l: "b_len buf = int (length iv) + int (length a) + int (length b)" using length_buf_content [OF buf(1)] buf(2) by simp
  obtain w1 where w1: "buf_init work (headroom fr) = Some w1" "buf_ok w1" "buf_content w1 = []" "b_offset w1 = headroom fr" "b_capacity w1 = b_capacity work"
    using buf_init_ok [OF work] room(1) l d(2) by auto
  obtain b1 where b1: "buf_advance buf (int (length iv)) = Some b1" "buf_ok b1" "buf_content b1 = a @ b"
    using buf_advance_content [OF buf(1), of "length iv"] buf(2) by auto
  have l1: "b_len b1 = int (length a) + int (length b)" using length_buf_content [OF b1(2)] b1(3) by simp
  have iv: "buf_load buf (b_offset buf) (length iv) = iv" using buf_load_take [OF buf(1), of "length iv"] buf(2) by simp
  have safe: "buf_safe w1 (nat (b_len b1 + cipher_ctx_block_size d))"
    using room l l1 d(2) w1(2-5) buf_ok_valid [OF w1(2)] length_buf_content [OF w1(2)] by (simp add: buf_safe_def buf_size_valid_def)
  have pq: "length p + length q < length a + length b" using r(1,3) by (metis length_append)
  obtain w2 where w2: "put_output w1 p = Some w2" "buf_ok w2" "buf_content w2 = p" "b_capacity w2 = b_capacity work" "b_offset w2 = headroom fr"
    using put_output_write [OF w1(2), of p] w1(3-5) pq room l d(2) by fastforce
  obtain w3 where w3: "put_output w2 q = Some w3" "buf_ok w3" "buf_content w3 = ?x"
    using put_output_write [OF w2(2), of q] w2(3-5) pq room l d(2) r(3) by fastforce
  obtain w where w: "packet_id_read w3 (long_form opt) = (True, pin, w)" "buf_ok w" "buf_content w = payload"
    using read_pid_bytes [OF w3(2,3) pin] by blast
  have "\<not> b_len b1 < 1" using l1 r(1) by linarith
  then have "decrypt_v1_cipher d buf work opt fr = Some (Inr (b1, Some pin, w))"
    using w1(1) l iv b1 c safe w2(1) w3(1) d(1) key(2) w(1) buf_bytes_content [OF b1(2)]
    by (simp add: decrypt_v1_cipher_def d(3) v1_read_pin_def Let_def)
  then show ?thesis using w by blast
qed

text \<open>The two ends of a key of the older format, within the sizes that \<open>crypto_max_overhead\<close> is made of.\<close>

definition v1_keys :: "'s key_ctx \<Rightarrow> 's key_ctx \<Rightarrow> bool" where
  "v1_keys t r \<longleftrightarrow> kc_hmac t = kc_hmac r \<and> hmac_ok (kc_hmac t) \<and> int (hmac_len (kc_hmac t)) \<le> OPENVPN_MAX_HMAC_SIZE \<and>
     (case kc_cipher t of
        None \<Rightarrow> kc_cipher r = None
      | Some e \<Rightarrow> cipher_ctx_block_size e \<le> OPENVPN_MAX_CIPHER_BLOCK_SIZE \<and>
          (\<exists>d. kc_cipher r = Some d \<and> cbc_pair e d \<and> cipher_ctx_block_size d \<le> OPENVPN_MAX_CIPHER_BLOCK_SIZE))"

lemma crypto_max_overhead_value: "crypto_max_overhead = 120"
  by (simp add: crypto_max_overhead_def packet_id_size_def crypto_consts OPENVPN_MAX_CIPHER_BLOCK_SIZE_def OPENVPN_MAX_HMAC_SIZE_def max_int_def)

definition v1_room :: "buffer \<Rightarrow> buffer \<Rightarrow> bool" where
  "v1_room buf work \<longleftrightarrow> buf_ok buf \<and> 0 < b_len buf \<and> crypto_max_overhead + b_len work \<le> b_offset buf \<and> buf_ok work \<and>
     b_offset work + b_len work + crypto_max_overhead + b_len buf \<le> b_capacity work \<and> crypto_max_overhead + b_len buf < int BUF_SIZE_MAX"

lemma decrypt_v1_checked:
  assumes "b_len rb > 0" "v1_verify_hmac (kc_hmac (ctx_decrypt (key_ctx_bi rx))) rb = Some (Inr b1)"
    "(case kc_cipher (ctx_decrypt (key_ctx_bi rx)) of Some cc \<Rightarrow> decrypt_v1_cipher cc b1 w rx fr | None \<Rightarrow> decrypt_v1_plain b1 rx) =
       Some (Inr (b2, Some pin, w1))"
    "\<not> cipher_mode_aead (kc_cipher (ctx_decrypt (key_ctx_bi rx)))" "crypto_check_replay rx (t, pin) = Some (ok, rx')" "buf_content w1 = payload"
  shows "\<exists>b. openvpn_decrypt t rb w (Some rx) fr ad = Some (ok, b, Some rx') \<and> buf_content b = (if ok then payload else [])"
  using assms check_and_pass_cases [OF assms(5), of b2 w1]
  by (auto simp: openvpn_decrypt_def openvpn_decrypt_v1_def Let_def crypt_error_def crypt_failed_def buf_content_def buf_load_def split: option.splits)

lemma encrypt_v1_wire:
  assumes keys: "v1_keys (ctx_encrypt (key_ctx_bi tx)) r"
    and pid: "packet_id_initialized (co_packet_id tx)" "packet_id_send_update now (pid_send (co_packet_id tx)) (long_form tx) = (True, p')"
    and room: "v1_room buf work" and prng: "\<And>k. length (prng k) = k"
  defines "x \<equiv> pid_bytes (long_form tx) (sent_pin (long_form tx) p') @ buf_content buf"
  shows "\<exists>out body. openvpn_encrypt now prng buf work (Some tx) = Some (out, Some (set_send p' tx)) \<and>
    buf_content out = buf_content work @ hmac_bytes (kc_hmac r) body @ body \<and>
    (case kc_cipher r of
       None \<Rightarrow> body = x
     | Some d \<Rightarrow> \<exists>e iv a b. cbc_pair e d \<and> cipher_run e iv x = Some (a, b) \<and> int (length iv) = cipher_ctx_iv_length e \<and> body = iv @ a @ b)"
proof -
  let ?t = "ctx_encrypt (key_ctx_bi tx)"
  have k: "kc_hmac ?t = kc_hmac r" "hmac_ok (kc_hmac ?t)" "int (hmac_len (kc_hmac ?t)) \<le> 64"
    using keys by (auto simp: v1_keys_def OPENVPN_MAX_HMAC_SIZE_def)
  have rm: "buf_ok buf" "0 < b_len buf" "120 + b_len work \<le> b_offset buf" "buf_ok work"
    "b_offset work + b_len work + 120 + b_len buf \<le> b_capacity work" "120 + b_len buf < int BUF_SIZE_MAX"
    using room unfolding v1_room_def crypto_max_overhead_value by auto
  have wl: "0 \<le> b_len work" using rm(4) by (simp add: buf_ok_def)
  show ?thesis
  proof (cases "kc_cipher ?t")
    case None
    have "8 + int (hmac_len (kc_hmac ?t)) + b_len work \<le> b_offset buf" using rm(3) k(3) by linarith
    then obtain out where "openvpn_encrypt_v1 now prng buf work tx = Some (out, set_send p' tx)"
      "buf_content out = buf_content work @ hmac_bytes (kc_hmac ?t) x @ x"
      using encrypt_v1_none [OF None k(2) pid rm(1,2,4)] unfolding x_def by auto
    then show ?thesis using None keys rm(2) k(1)
      by (auto simp: openvpn_encrypt_def cipher_mode_aead_def v1_keys_def)
  next
    case (Some e)
    obtain d where d: "kc_cipher r = Some d" "cbc_pair e d" "cipher_ctx_block_size e \<le> 32"
      using keys Some by (auto simp: v1_keys_def OPENVPN_MAX_CIPHER_BLOCK_SIZE_def)
    have e: "cipher_ctx_iv_length e \<le> 16" "cipher_ctx_mode e = MODE_CBC" using d(2) by (auto simp: cbc_pair_def OPENVPN_MAX_IV_LENGTH_def)
    have r: "8 \<le> b_offset buf"
      "b_offset work + b_len work + int (hmac_len (kc_hmac ?t)) + cipher_ctx_iv_length e + 8 + b_len buf + cipher_ctx_block_size e \<le> b_capacity work"
      "int (hmac_len (kc_hmac ?t)) + cipher_ctx_iv_length e + 8 + b_len buf + cipher_ctx_block_size e < int BUF_SIZE_MAX"
      using rm(3,5,6) wl k(3) d(3) e(1) by linarith+
    obtain out iv a b where "openvpn_encrypt_v1 now prng buf work tx = Some (out, set_send p' tx)"
      "int (length iv) = cipher_ctx_iv_length e" "cipher_run e iv x = Some (a, b)"
      "buf_content out = buf_content work @ hmac_bytes (kc_hmac ?t) (iv @ a @ b) @ iv @ a @ b"
      using encrypt_v1_cbc [OF Some d(2) k(2) pid rm(1,2) r(1) rm(4) prng r(2,3)] unfolding x_def by auto
    then show ?thesis using Some d rm(2) k(1) e(2)
      by (intro exI [of _ out] exI [of _ "iv @ a @ b"]) (auto simp: openvpn_encrypt_def cipher_mode_aead_def)
  qed
qed

section \<open>A cipher for the examples\<close>

text \<open>The same with a padded block cipher and an HMAC.\<close>

definition toy_cbc_seal :: "toy_state cipher_ctx" where
  "toy_cbc_seal = toy_seal\<lparr>cipher_ctx_mode := MODE_CBC, cipher_ctx_iv_length := 2, cipher_ctx_block_size := 2,
     cipher_ctx_update := (\<lambda>s x. Some (map ((+) 90) x, s)), cipher_ctx_final := (\<lambda>s. Some ([0, 0], s))\<rparr>"

definition toy_cbc_open :: "toy_state cipher_ctx" where
  "toy_cbc_open = toy_cbc_seal\<lparr>cipher_ctx_update := (\<lambda>s x. Some (map (\<lambda>b. b - 90) (take (length x - 2) x), s)),
     cipher_ctx_final := (\<lambda>s. Some ([], s))\<rparr>"

definition toy_hmac :: hmac_ctx where
  "toy_hmac = \<lparr>hmac_ctx_size = 1, hmac_ctx_digest = (\<lambda>x. [sum_list x])\<rparr>"

definition toy_v1_ctx :: "toy_state cipher_ctx \<Rightarrow> toy_state key_ctx" where
  "toy_v1_ctx cc = \<lparr>kc_cipher = Some cc, kc_hmac = Some toy_hmac, implicit_iv = replicate 16 0, implicit_iv_len = 0\<rparr>"

definition toy_v1_options :: "toy_state data_options" where
  "toy_v1_options = toy_options\<lparr>key_ctx_bi := \<lparr>ctx_encrypt = toy_v1_ctx toy_cbc_seal, ctx_decrypt = toy_v1_ctx toy_cbc_open, bi_initialized = True\<rparr>\<rparr>"

lemma toy_cbc_pair: "cbc_pair toy_cbc_seal toy_cbc_open"
  by (auto simp: cbc_pair_def toy_cbc_seal_def toy_cbc_open_def toy_seal_def cipher_run_def OPENVPN_MAX_IV_LENGTH_def map_idI)

lemma toy_v1_keys: "v1_keys (toy_v1_ctx toy_cbc_seal) (toy_v1_ctx toy_cbc_open)"
  using toy_cbc_pair
  by (auto simp: v1_keys_def toy_v1_ctx_def hmac_ok_def hmac_len_def toy_hmac_def toy_cbc_seal_def toy_cbc_open_def
      OPENVPN_MAX_HMAC_SIZE_def OPENVPN_MAX_CIPHER_BLOCK_SIZE_def)

definition toy_v1_buf :: buffer where
  "toy_v1_buf = \<lparr>b_capacity = 123, b_offset = 120, b_len = 3, b_data = Some (replicate 120 0 @ [1, 2, 3])\<rparr>"

definition toy_v1_work :: buffer where
  "toy_v1_work = \<lparr>b_capacity = 123, b_offset = 0, b_len = 0, b_data = Some (replicate 123 0)\<rparr>"

lemma toy_v1_room: "v1_room toy_v1_buf toy_v1_work" "buf_content toy_v1_buf = [1, 2, 3]" "buf_content toy_v1_work = []"
  by (simp_all add: v1_room_def toy_v1_buf_def toy_v1_work_def buf_ok_def buf_content_def buf_load_def mem_read_def
      crypto_max_overhead_value BUF_SIZE_MAX_def)

section \<open>Properties\<close>



text \<open>
  C39. Forged packets of the older format are dropped. Whatever bytes arrive, when a key has an HMAC and the first
  bytes of the packet are not the HMAC of the rest, decryption gives an empty packet and neither the replay
  window nor anything else of the key changes.
\<close>

theorem v1_forgery_dropped:
  assumes "\<not> cipher_mode_aead (kc_cipher (ctx_decrypt (key_ctx_bi rx)))" "kc_hmac (ctx_decrypt (key_ctx_bi rx)) = Some hm"
    "\<And>x. length (hmac_ctx_digest hm x) = hmac_ctx_size hm" "buf_ok buf" "0 < b_len buf"
    "take (hmac_ctx_size hm) (buf_content buf) \<noteq> hmac_ctx_digest hm (drop (hmac_ctx_size hm) (buf_content buf))"
  shows "\<exists>b. openvpn_decrypt t buf w (Some rx) fr ad = Some (False, b, Some rx) \<and> b_len b = 0"
proof -
  have "v1_verify_hmac (Some hm) buf = Some (Inl buf)"
    using verify_hmac [OF assms(4), of "Some hm"] assms(3,6) by (simp add: hmac_ok_def hmac_len_def hmac_bytes_def)
  then show ?thesis
    using assms(1,2,5) by (simp add: openvpn_decrypt_def openvpn_decrypt_v1_def Let_def crypt_error_def crypt_failed_def)
qed

theorem v1_forgery_dropped_witness:
  "\<exists>b. openvpn_decrypt 5 toy_v1_buf toy_v1_work (Some toy_v1_options) (rv_frame toy_arrival) 0 = Some (False, b, Some toy_v1_options) \<and> b_len b = 0"
proof (rule v1_forgery_dropped)
  show "\<not> cipher_mode_aead (kc_cipher (ctx_decrypt (key_ctx_bi toy_v1_options)))" "kc_hmac (ctx_decrypt (key_ctx_bi toy_v1_options)) = Some toy_hmac"
    "\<And>x. length (hmac_ctx_digest toy_hmac x) = hmac_ctx_size toy_hmac" "0 < b_len toy_v1_buf" "buf_ok toy_v1_buf"
    "take (hmac_ctx_size toy_hmac) (buf_content toy_v1_buf) \<noteq> hmac_ctx_digest toy_hmac (drop (hmac_ctx_size toy_hmac) (buf_content toy_v1_buf))"
    unfolding toy_v1_room(2)
    by (simp_all add: toy_v1_options_def toy_v1_ctx_def cipher_mode_aead_def toy_cbc_open_def toy_cbc_seal_def toy_hmac_def toy_v1_buf_def buf_ok_def)
qed

end
