(* ===== verification/Packet_Proto.thy ===== *)
theory Packet_Proto
  imports Tunnel_Prelude
begin

text \<open>
  Packets over a byte stream in tun2socks: the PacketProto framing (\<open>badvpn/protocol/packetproto.h\<close>,
  \<open>flow/PacketProtoEncoder.c\<close>, \<open>flow/PacketProtoDecoder.c\<close>), the sender of a packet over a stream
  (\<open>flow/PacketStreamSender.c\<close>) and the writer of a packet into a receiver's buffer
  (\<open>flow/BufferWriter.c\<close>).

  Each handler is a function on the object's state that returns the call it makes on the
  neighbouring interface as a value. The code is compiled with assertions off; what they state is
  proved as an invariant.
\<close>

section \<open>Framing\<close>

definition PACKETPROTO_ENCLEN :: "nat \<Rightarrow> nat" where
  "PACKETPROTO_ENCLEN n = 2 + n"

definition PACKETPROTO_MAXPAYLOAD :: nat where
  "PACKETPROTO_MAXPAYLOAD = 65535"

text \<open>\<open>enc_packet\<close> is the memory of the packet being filled, \<^term>\<open>None\<close> for a NULL \<open>output_packet\<close>.\<close>

record PacketProtoEncoder =
  enc_packet :: "bytes option"

text \<open>The second component is the offset at which the input is asked to write.\<close>

definition enc_output_handler_recv :: "PacketProtoEncoder \<Rightarrow> bytes \<Rightarrow> PacketProtoEncoder \<times> nat" where
  "enc_output_handler_recv enc mem = (enc\<lparr>enc_packet := Some mem\<rparr>, 2)"

text \<open>The input has written its data into the memory; the result is the finished memory and its length.\<close>

definition enc_input_handler_done :: "PacketProtoEncoder \<Rightarrow> nat \<Rightarrow> (PacketProtoEncoder \<times> bytes \<times> nat) option" where
  "enc_input_handler_done enc in_len =
     (case enc_packet enc of
        None \<Rightarrow> None
      | Some mem \<Rightarrow> Some (enc\<lparr>enc_packet := None\<rparr>, mem_write mem 0 (le16 (of_nat in_len)), PACKETPROTO_ENCLEN in_len))"

definition PacketProtoEncoder_Init :: PacketProtoEncoder where
  "PacketProtoEncoder_Init = \<lparr>enc_packet = None\<rparr>"

section \<open>The decoder\<close>

record PacketProtoDecoder =
  output_mtu :: nat
  buf_size :: nat
  buf_start :: nat
  buf_used :: nat
  dec_buf :: bytes

datatype dec_call =
    DecSend bytes  \<comment> \<open>submit a packet to the output\<close>
  | DecRecv nat nat  \<comment> \<open>receive at an offset of the buffer, at most so many bytes\<close>
  | DecErrorRecv nat nat  \<comment> \<open>the same, and report an error to the user\<close>

definition process_data :: "PacketProtoDecoder \<Rightarrow> dec_call \<times> PacketProtoDecoder" where
  "process_data d =
     (let left = buf_used d;
          data_len = unat (of_le16 (mem_read (dec_buf d) (buf_start d) 2));
          more =
            (let d1 = (if buf_start d + buf_used d = buf_size d
                       then d\<lparr>dec_buf := mem_write (dec_buf d) 0 (mem_read (dec_buf d) (buf_start d) (buf_used d)),
                              buf_start := 0\<rparr>
                       else d)
             in (DecRecv (buf_start d1 + buf_used d1) (buf_size d1 - (buf_start d1 + buf_used d1)), d1))
      in if left < 2 then more
         else if data_len > output_mtu d
         then (let d1 = d\<lparr>buf_start := 0, buf_used := 0\<rparr> in (DecErrorRecv 0 (buf_size d1), d1))
         else if left - 2 < data_len then more
         else (DecSend (mem_read (dec_buf d) (buf_start d + 2) data_len),
               d\<lparr>buf_start := buf_start d + (2 + data_len), buf_used := buf_used d - (2 + data_len)\<rparr>))"

definition dec_input_handler_done :: "PacketProtoDecoder \<Rightarrow> nat \<Rightarrow> dec_call \<times> PacketProtoDecoder" where
  "dec_input_handler_done d data_len = process_data (d\<lparr>buf_used := buf_used d + data_len\<rparr>)"

definition dec_output_handler_done :: "PacketProtoDecoder \<Rightarrow> dec_call \<times> PacketProtoDecoder" where
  "dec_output_handler_done d = process_data d"

text \<open>\<open>mtu\<close> is the MTU of the output; \<^term>\<open>mem\<close> the block that \<open>malloc\<close> returned.\<close>

definition PacketProtoDecoder_Init :: "nat \<Rightarrow> (nat \<Rightarrow> bytes option) \<Rightarrow> (dec_call \<times> PacketProtoDecoder) option" where
  "PacketProtoDecoder_Init mtu malloc =
     (let omtu = min mtu PACKETPROTO_MAXPAYLOAD; size = PACKETPROTO_ENCLEN omtu
      in case malloc size of
           None \<Rightarrow> None
         | Some mem \<Rightarrow>
             Some (DecRecv 0 size,
                   \<lparr>output_mtu = omtu, buf_size = size, buf_start = 0, buf_used = 0, dec_buf = mem\<rparr>))"

definition PacketProtoDecoder_Reset :: "PacketProtoDecoder \<Rightarrow> PacketProtoDecoder" where
  "PacketProtoDecoder_Reset d = d\<lparr>buf_start := buf_start d + buf_used d, buf_used := 0\<rparr>"

section \<open>A packet over a stream\<close>

text \<open>\<open>in_len\<close> is -1 when there is no packet.\<close>

record PacketStreamSender =
  in_len :: int
  in_data :: bytes
  in_used :: int

datatype pss_call =
    PssSend bytes  \<comment> \<open>offer the rest of the packet to the stream\<close>
  | PssDone  \<comment> \<open>the packet is finished\<close>

definition send_data :: "PacketStreamSender \<Rightarrow> pss_call \<times> PacketStreamSender" where
  "send_data s =
     (if in_used s < in_len s
      then (PssSend (mem_read (in_data s) (nat (in_used s)) (nat (in_len s - in_used s))), s)
      else (PssDone, s\<lparr>in_len := - 1\<rparr>))"

definition pss_input_handler_send :: "PacketStreamSender \<Rightarrow> bytes \<Rightarrow> pss_call \<times> PacketStreamSender" where
  "pss_input_handler_send s data = send_data (s\<lparr>in_len := int (length data), in_data := data, in_used := 0\<rparr>)"

definition pss_output_handler_done :: "PacketStreamSender \<Rightarrow> int \<Rightarrow> pss_call \<times> PacketStreamSender" where
  "pss_output_handler_done s data_len = send_data (s\<lparr>in_used := in_used s + data_len\<rparr>)"

definition PacketStreamSender_Init :: PacketStreamSender where
  "PacketStreamSender_Init = \<lparr>in_len = - 1, in_data = [], in_used = 0\<rparr>"

section \<open>Writing a packet into a receiver's buffer\<close>

record BufferWriter =
  out_have :: bool
  bw_out :: bytes

definition bw_output_handler_recv :: "BufferWriter \<Rightarrow> bytes \<Rightarrow> BufferWriter" where
  "bw_output_handler_recv o' data = o'\<lparr>out_have := True, bw_out := data\<rparr>"

definition BufferWriter_Init :: BufferWriter where
  "BufferWriter_Init = \<lparr>out_have = False, bw_out = []\<rparr>"

definition BufferWriter_StartPacket :: "BufferWriter \<Rightarrow> bytes option" where
  "BufferWriter_StartPacket o' = (if out_have o' then Some (bw_out o') else None)"

text \<open>The length is what \<open>PacketRecvInterface_Done\<close> is called with.\<close>

definition BufferWriter_EndPacket :: "BufferWriter \<Rightarrow> nat \<Rightarrow> BufferWriter \<times> nat" where
  "BufferWriter_EndPacket o' len = (o'\<lparr>out_have := False\<rparr>, len)"

section \<open>The stream as a list of packets\<close>

definition pp_frame :: "bytes \<Rightarrow> bytes" where
  "pp_frame p = le16 (of_nat (length p)) @ p"

text \<open>The reference parser: the packets, whether an oversized length was met, and the rest.\<close>

function pp_parse :: "nat \<Rightarrow> bytes \<Rightarrow> bytes list \<times> bool \<times> bytes" where
  "pp_parse mtu xs =
     (if length xs < 2 then ([], False, xs)
      else let n = unat (of_le16 (take 2 xs))
           in if n > mtu then ([], True, [])
              else if length xs - 2 < n then ([], False, xs)
              else case pp_parse mtu (drop (2 + n) xs) of
                     (ps, e, r) \<Rightarrow> (take n (drop 2 xs) # ps, e, r))"
  by pat_completeness auto
termination by (relation "measure (\<lambda>(mtu, xs). length xs)") auto

declare pp_parse.simps [simp del]

definition dec_ok :: "PacketProtoDecoder \<Rightarrow> bool" where
  "dec_ok d \<longleftrightarrow> length (dec_buf d) = buf_size d \<and> buf_size d = 2 + output_mtu d \<and> output_mtu d \<le> 65535 \<and>
     buf_start d + buf_used d \<le> buf_size d"

definition dec_content :: "PacketProtoDecoder \<Rightarrow> bytes" where
  "dec_content d = mem_read (dec_buf d) (buf_start d) (buf_used d)"

lemma length_dec_content: "dec_ok d \<Longrightarrow> length (dec_content d) = buf_used d"
  by (simp add: dec_ok_def dec_content_def)

text \<open>The output accepts each packet; \<open>process_data\<close> is called again until it asks for more input.\<close>

function dec_drain :: "PacketProtoDecoder \<Rightarrow> bytes list \<times> dec_call \<times> PacketProtoDecoder" where
  "dec_drain d =
     (case process_data d of
        (DecSend p, d') \<Rightarrow> (case dec_drain d' of (ps, c, d'') \<Rightarrow> (p # ps, c, d''))
      | (c, d') \<Rightarrow> ([], c, d'))"
  by pat_completeness auto
termination
  by (relation "measure buf_used") (auto simp: process_data_def Let_def split: if_splits)

declare dec_drain.simps [simp del]

text \<open>What the stream delivers: \<open>xs\<close>, written where the decoder asked for it.\<close>

definition dec_receive :: "PacketProtoDecoder \<Rightarrow> bytes \<Rightarrow> bytes list \<times> dec_call \<times> PacketProtoDecoder" where
  "dec_receive d xs =
     (case dec_input_handler_done (d\<lparr>dec_buf := mem_write (dec_buf d) (buf_start d + buf_used d) xs\<rparr>) (length xs) of
        (DecSend p, d') \<Rightarrow> (case dec_drain d' of (ps, c, d'') \<Rightarrow> (p # ps, c, d''))
      | (c, d') \<Rightarrow> ([], c, d'))"

text \<open>
  A run over the stream \<open>s\<close>. The list gives the sizes in which the stream happens to deliver its
  bytes; a size is clipped to what is asked for and to what is left.
\<close>

primrec dec_run :: "PacketProtoDecoder \<Rightarrow> nat list \<Rightarrow> bytes \<Rightarrow> bytes list \<times> PacketProtoDecoder \<times> bytes" where
  "dec_run d [] s = ([], d, s)"
| "dec_run d (n # ns) s =
     (if s = [] then ([], d, s)
      else let k = min (max 1 n) (min (buf_size d - (buf_start d + buf_used d)) (length s))
           in case dec_receive d (take k s) of
                (ps, c, d') \<Rightarrow> (case dec_run d' ns (drop k s) of (qs, d'', s') \<Rightarrow> (ps @ qs, d'', s')))"

section \<open>The decoder implements the parser\<close>

lemma mem_read_take: "a \<le> n \<Longrightarrow> mem_read m i a = take a (mem_read m i n)"
  by (simp add: mem_read_def min_def)

lemma mem_read_drop: "mem_read m (i + a) (n - a) = drop a (mem_read m i n)"
  by (simp add: mem_read_def drop_take add.commute)

text \<open>The decoder has room for at least one more byte: it waits for input.\<close>

definition dec_waiting :: "PacketProtoDecoder \<Rightarrow> bool" where
  "dec_waiting d \<longleftrightarrow> dec_ok d \<and> buf_start d + buf_used d < buf_size d \<and>
     pp_parse (output_mtu d) (dec_content d) = ([], False, dec_content d)"

definition pp_len :: "bytes \<Rightarrow> nat" where
  "pp_len c = unat (of_le16 (take 2 c))"

lemma pp_parse_short:
  "length c < 2 \<or> (pp_len c \<le> mtu \<and> length c - 2 < pp_len c) \<Longrightarrow> pp_parse mtu c = ([], False, c)"
  by (subst pp_parse.simps) (auto simp: pp_len_def Let_def)

lemma pp_parse_error: "2 \<le> length c \<Longrightarrow> mtu < pp_len c \<Longrightarrow> pp_parse mtu c = ([], True, [])"
  by (subst pp_parse.simps) (auto simp: pp_len_def Let_def)

lemma pp_parse_packet:
  "2 \<le> length c \<Longrightarrow> pp_len c \<le> mtu \<Longrightarrow> pp_len c \<le> length c - 2 \<Longrightarrow>
   pp_parse mtu c = (case pp_parse mtu (drop (2 + pp_len c) c) of (ps, e, r) \<Rightarrow> (take (pp_len c) (drop 2 c) # ps, e, r))"
  by (subst pp_parse.simps) (auto simp: pp_len_def Let_def)

lemma process_data_more:
  assumes ok: "dec_ok d" and c: "length (dec_content d) < 2 \<or>
    (pp_len (dec_content d) \<le> output_mtu d \<and> length (dec_content d) - 2 < pp_len (dec_content d))"
  shows "\<exists>d'. process_data d = (DecRecv (buf_start d' + buf_used d') (buf_size d' - (buf_start d' + buf_used d')), d') \<and>
    dec_waiting d' \<and> dec_content d' = dec_content d \<and> output_mtu d' = output_mtu d"
proof -
  have len: "length (dec_content d) = buf_used d" by (rule length_dec_content [OF ok])
  have hd: "2 \<le> buf_used d \<Longrightarrow> unat (of_le16 (mem_read (dec_buf d) (buf_start d) 2)) = pp_len (dec_content d)"
    using mem_read_take [of 2 "buf_used d" "dec_buf d" "buf_start d"] by (simp add: pp_len_def dec_content_def)
  define d1 where "d1 = (if buf_start d + buf_used d = buf_size d
      then d\<lparr>dec_buf := mem_write (dec_buf d) 0 (mem_read (dec_buf d) (buf_start d) (buf_used d)), buf_start := 0\<rparr>
      else d)"
  have p: "process_data d = (DecRecv (buf_start d1 + buf_used d1) (buf_size d1 - (buf_start d1 + buf_used d1)), d1)"
    using c hd len unfolding process_data_def Let_def d1_def [symmetric] by auto
  have "length (mem_read (dec_buf d) (buf_start d) (buf_used d)) = buf_used d"
    using len by (simp add: dec_content_def)
  then have content: "dec_content d1 = dec_content d"
    using ok mem_read_write_same [of 0 "mem_read (dec_buf d) (buf_start d) (buf_used d)" "dec_buf d"]
    by (auto simp: d1_def dec_content_def dec_ok_def)
  have "buf_used d < buf_size d" using c len ok by (auto simp: dec_ok_def)
  then have "dec_ok d1" "buf_start d1 + buf_used d1 < buf_size d1"
    using ok by (auto simp: d1_def dec_ok_def)
  then show ?thesis
    using p content c pp_parse_short [of "dec_content d" "output_mtu d"] by (auto simp: dec_waiting_def d1_def)
qed

lemma process_data_error:
  assumes ok: "dec_ok d" and c: "2 \<le> length (dec_content d)" "output_mtu d < pp_len (dec_content d)"
  shows "\<exists>d'. process_data d = (DecErrorRecv 0 (buf_size d'), d') \<and> dec_waiting d' \<and>
    dec_content d' = [] \<and> output_mtu d' = output_mtu d"
proof -
  have "unat (of_le16 (mem_read (dec_buf d) (buf_start d) 2)) = pp_len (dec_content d)"
    using mem_read_take [of 2 "buf_used d" "dec_buf d" "buf_start d"] c(1) length_dec_content [OF ok]
    by (simp add: pp_len_def dec_content_def)
  then have "process_data d = (DecErrorRecv 0 (buf_size d), d\<lparr>buf_start := 0, buf_used := 0\<rparr>)"
    using c length_dec_content [OF ok] by (simp add: process_data_def Let_def)
  then show ?thesis using ok by (auto simp: dec_waiting_def dec_ok_def dec_content_def pp_parse_short)
qed

lemma process_data_packet:
  assumes ok: "dec_ok d" and c: "2 \<le> length (dec_content d)" "pp_len (dec_content d) \<le> output_mtu d"
    "pp_len (dec_content d) \<le> length (dec_content d) - 2"
  shows "\<exists>d'. process_data d = (DecSend (take (pp_len (dec_content d)) (drop 2 (dec_content d))), d') \<and> dec_ok d' \<and>
    dec_content d' = drop (2 + pp_len (dec_content d)) (dec_content d) \<and> output_mtu d' = output_mtu d"
proof -
  let ?n = "pp_len (dec_content d)"
  have len: "length (dec_content d) = buf_used d" by (rule length_dec_content [OF ok])
  have "unat (of_le16 (mem_read (dec_buf d) (buf_start d) 2)) = ?n"
    using mem_read_take [of 2 "buf_used d" "dec_buf d" "buf_start d"] c(1) len
    by (simp add: pp_len_def dec_content_def)
  then have p: "process_data d = (DecSend (mem_read (dec_buf d) (buf_start d + 2) ?n),
      d\<lparr>buf_start := buf_start d + (2 + ?n), buf_used := buf_used d - (2 + ?n)\<rparr>)"
    using c len by (simp add: process_data_def Let_def)
  have "mem_read (dec_buf d) (buf_start d + 2) ?n = take ?n (drop 2 (dec_content d))"
    using mem_read_take [of ?n "buf_used d - 2" "dec_buf d" "buf_start d + 2"] c len
      mem_read_drop [of "dec_buf d" "buf_start d" 2 "buf_used d"]
    by (simp add: dec_content_def)
  then show ?thesis using p ok c len
    by (auto simp: dec_ok_def dec_content_def mem_read_drop [symmetric])
qed

lemma dec_drain_parse:
  assumes "dec_ok d"
  shows "\<exists>ps c d' e. dec_drain d = (ps, c, d') \<and> pp_parse (output_mtu d) (dec_content d) = (ps, e, dec_content d') \<and>
    dec_waiting d' \<and> output_mtu d' = output_mtu d \<and> (e \<longrightarrow> dec_content d' = []) \<and>
    (c = DecErrorRecv 0 (buf_size d') \<longleftrightarrow> e) \<and>
    (\<not> e \<longrightarrow> c = DecRecv (buf_start d' + buf_used d') (buf_size d' - (buf_start d' + buf_used d')))"
  using assms
proof (induction "buf_used d" arbitrary: d rule: less_induct)
  case less
  let ?c = "dec_content d"
  consider "length ?c < 2 \<or> (pp_len ?c \<le> output_mtu d \<and> length ?c - 2 < pp_len ?c)"
    | "2 \<le> length ?c" "output_mtu d < pp_len ?c"
    | "2 \<le> length ?c" "pp_len ?c \<le> output_mtu d" "pp_len ?c \<le> length ?c - 2" by linarith
  then show ?case
  proof cases
    case 1
    then show ?thesis using process_data_more [OF less.prems 1] pp_parse_short [OF 1]
      by (subst dec_drain.simps) auto
  next
    case 2
    then show ?thesis using process_data_error [OF less.prems 2] pp_parse_error [OF 2]
      by (subst dec_drain.simps) auto
  next
    case 3
    obtain d1 where d1: "process_data d = (DecSend (take (pp_len ?c) (drop 2 ?c)), d1)" "dec_ok d1"
      "dec_content d1 = drop (2 + pp_len ?c) ?c" "output_mtu d1 = output_mtu d"
      using process_data_packet [OF less.prems 3] by blast
    have "buf_used d1 < buf_used d"
      using d1(3) length_dec_content [OF d1(2)] length_dec_content [OF less.prems] 3(1) by auto
    from less.hyps [OF this d1(2)] show ?thesis
      using d1 pp_parse_packet [OF 3] by (subst dec_drain.simps) (auto split: prod.splits)
  qed
qed

lemma dec_receive_parse:
  assumes w: "dec_waiting d" and xs: "length xs \<le> buf_size d - (buf_start d + buf_used d)"
  shows "\<exists>ps c d' e. dec_receive d xs = (ps, c, d') \<and> pp_parse (output_mtu d) (dec_content d @ xs) = (ps, e, dec_content d') \<and>
    dec_waiting d' \<and> output_mtu d' = output_mtu d \<and> (c = DecErrorRecv 0 (buf_size d') \<longleftrightarrow> e) \<and>
    (\<not> e \<longrightarrow> c = DecRecv (buf_start d' + buf_used d') (buf_size d' - (buf_start d' + buf_used d')))"
proof -
  let ?d = "d\<lparr>dec_buf := mem_write (dec_buf d) (buf_start d + buf_used d) xs, buf_used := buf_used d + length xs\<rparr>"
  have ok: "dec_ok ?d" using w xs by (auto simp: dec_waiting_def dec_ok_def)
  have "dec_content ?d = dec_content d @ xs"
    using w xs mem_read_append_write [of "buf_start d" "buf_used d" xs "dec_buf d"]
    by (auto simp: dec_waiting_def dec_ok_def dec_content_def)
  moreover have "dec_receive d xs = dec_drain ?d"
    by (subst dec_drain.simps) (simp add: dec_receive_def dec_input_handler_done_def)
  ultimately show ?thesis using dec_drain_parse [OF ok] by auto
qed

lemma pp_parse_append:
  "pp_parse mtu xs = (ps, False, r) \<Longrightarrow> pp_parse mtu (xs @ ys) = (case pp_parse mtu (r @ ys) of (qs, e, r') \<Rightarrow> (ps @ qs, e, r'))"
  "pp_parse mtu xs = (ps, True, r) \<Longrightarrow> fst (snd (pp_parse mtu (xs @ ys)))"
proof (induction mtu xs arbitrary: ps rule: pp_parse.induct)
  case (1 mtu xs)
  have app: "2 \<le> length xs \<Longrightarrow> pp_len (xs @ ys) = pp_len xs" by (simp add: pp_len_def)
  consider "length xs < 2 \<or> (pp_len xs \<le> mtu \<and> length xs - 2 < pp_len xs)"
    | "2 \<le> length xs" "mtu < pp_len xs"
    | "2 \<le> length xs" "pp_len xs \<le> mtu" "pp_len xs \<le> length xs - 2" by linarith
  note cases = this
  {
    case 1
    from cases show ?case
    proof cases
      case 3
      let ?y = "drop (2 + pp_len xs) xs"
      obtain qs where "pp_parse mtu ?y = (qs, False, r)" "ps = take (pp_len xs) (drop 2 xs) # qs"
        using 1 pp_parse_packet [OF 3] by (auto split: prod.splits)
      then show ?thesis
        using "1.IH"(1) [of "pp_len xs" qs] 3 app pp_parse_packet [of "xs @ ys" mtu]
        by (auto simp: pp_len_def split: prod.splits)
    qed (use 1 pp_parse_short [of xs mtu] pp_parse_error [of xs mtu] in \<open>auto split: prod.splits\<close>)
  next
    case 2
    from cases show ?case
    proof cases
      case 3
      let ?y = "drop (2 + pp_len xs) xs"
      obtain qs where "pp_parse mtu ?y = (qs, True, r)"
        using 2 pp_parse_packet [OF 3] by (auto split: prod.splits)
      then show ?thesis
        using "1.IH"(2) [of "pp_len xs" qs] 3 app pp_parse_packet [of "xs @ ys" mtu]
        by (auto simp: pp_len_def split: prod.splits)
    next
      case c2: 2
      then show ?thesis using app pp_parse_error [of "xs @ ys" mtu] by simp
    qed (use 2 pp_parse_short [of xs mtu] in auto)
  }
qed

lemma dec_run_parse:
  assumes "dec_waiting d" "length s \<le> length ns" "pp_parse (output_mtu d) (dec_content d @ s) = (qs, False, r)"
  shows "\<exists>d'. dec_run d ns s = (qs, d', []) \<and> dec_content d' = r"
  using assms
proof (induction ns arbitrary: d s qs)
  case Nil
  then show ?case by (auto simp: dec_waiting_def)
next
  case (Cons n ns)
  show ?case
  proof (cases "s = []")
    case True
    then show ?thesis using Cons.prems by (auto simp: dec_waiting_def)
  next
    case False
    define k where "k = min (max 1 n) (min (buf_size d - (buf_start d + buf_used d)) (length s))"
    have k: "0 < k" "k \<le> length s" "length (take k s) \<le> buf_size d - (buf_start d + buf_used d)"
      using False Cons.prems(1) by (auto simp: k_def dec_waiting_def)
    obtain ps c d1 e where r: "dec_receive d (take k s) = (ps, c, d1)"
      "pp_parse (output_mtu d) (dec_content d @ take k s) = (ps, e, dec_content d1)" "dec_waiting d1"
      "output_mtu d1 = output_mtu d"
      using dec_receive_parse [OF Cons.prems(1) k(3)] by blast
    have whole: "(dec_content d @ take k s) @ drop k s = dec_content d @ s" by simp
    have "\<not> e" using pp_parse_append(2) [of "output_mtu d" "dec_content d @ take k s" ps "dec_content d1" "drop k s"] r(2)
        Cons.prems(3) unfolding whole by (cases e) auto
    then obtain qs' where qs': "pp_parse (output_mtu d1) (dec_content d1 @ drop k s) = (qs', False, r)" "qs = ps @ qs'"
      using pp_parse_append(1) [of "output_mtu d" "dec_content d @ take k s" ps "dec_content d1" "drop k s"] r(2,4)
        Cons.prems(3) unfolding whole by (auto split: prod.splits)
    have "length (drop k s) \<le> length ns" using k Cons.prems(2) by simp
    then obtain d' where ih: "dec_run d1 ns (drop k s) = (qs', d', [])" "dec_content d' = r"
      using Cons.IH [OF r(3) _ qs'(1)] by blast
    have "dec_run d (n # ns) s = (case dec_receive d (take k s) of
        (ps, c, d') \<Rightarrow> (case dec_run d' ns (drop k s) of (qs, d'', s') \<Rightarrow> (ps @ qs, d'', s')))"
      by (simp only: dec_run.simps(2) False if_False Let_def k_def)
    then show ?thesis using r(1) ih qs'(2) by simp
  qed
qed

lemma pp_frame_parse:
  assumes "list_all (\<lambda>p. length p \<le> mtu) ps" "mtu \<le> 65535"
  shows "pp_parse mtu (concat (map pp_frame ps)) = (ps, False, [])"
  using assms(1)
proof (induction ps)
  case Nil
  then show ?case by (simp add: pp_parse_short)
next
  case (Cons p ps)
  have "length p < 2 ^ 16" using Cons.prems assms(2) by simp
  then have "unat (of_nat (length p) :: u16) = length p" by (simp add: unsigned_of_nat take_bit_nat_eq_self)
  then have "pp_len (concat (map pp_frame (p # ps))) = length p" by (simp add: pp_len_def pp_frame_def)
  then show ?case
    using pp_parse_packet [of "concat (map pp_frame (p # ps))" mtu] Cons by (simp add: pp_frame_def [of p])
qed

text \<open>The encoder's output for the packet \<open>p\<close>, in a block of memory that can hold it.\<close>

definition encode :: "bytes \<Rightarrow> bytes \<Rightarrow> bytes option" where
  "encode mem p =
     (let (enc, off) = enc_output_handler_recv PacketProtoEncoder_Init mem;
          enc' = enc\<lparr>enc_packet := map_option (\<lambda>m. mem_write m off p) (enc_packet enc)\<rparr>
      in case enc_input_handler_done enc' (length p) of
           None \<Rightarrow> None | Some (_, m, n) \<Rightarrow> Some (mem_read m 0 n))"

lemma encode_frame:
  assumes "PACKETPROTO_ENCLEN (length p) \<le> length mem"
  shows "encode mem p = Some (pp_frame p)"
proof -
  have "mem_write (mem_write mem 2 p) 0 (le16 w) = le16 w @ p @ drop (2 + length p) mem" for w
    using assms by (simp add: mem_write_def PACKETPROTO_ENCLEN_def)
  then show ?thesis
    by (simp add: encode_def enc_output_handler_recv_def enc_input_handler_done_def Let_def PACKETPROTO_ENCLEN_def
        mem_read_def pp_frame_def)
qed

text \<open>The stream takes the offered bytes in pieces of the given sizes, clipped to what is offered.\<close>

fun pss_run :: "pss_call \<times> PacketStreamSender \<Rightarrow> nat list \<Rightarrow> bytes \<times> pss_call" where
  "pss_run (PssDone, s) ns = ([], PssDone)"
| "pss_run (PssSend xs, s) [] = ([], PssSend xs)"
| "pss_run (PssSend xs, s) (n # ns) =
     (let k = min (max 1 n) (length xs)
      in case pss_run (pss_output_handler_done s (int k)) ns of (ys, c) \<Rightarrow> (take k xs @ ys, c))"

lemma pss_run_all:
  assumes "in_len s = int (length (in_data s))" "0 \<le> in_used s" "in_used s \<le> in_len s"
    "length (in_data s) - nat (in_used s) \<le> length ns"
  shows "pss_run (send_data s) ns = (drop (nat (in_used s)) (in_data s), PssDone)"
  using assms
proof (induction ns arbitrary: s)
  case Nil
  then show ?case by (simp add: send_data_def)
next
  case (Cons n ns)
  show ?case
  proof (cases "in_used s < in_len s")
    case False
    then show ?thesis using Cons.prems by (simp add: send_data_def)
  next
    case True
    define i where "i = nat (in_used s)"
    have i: "in_used s = int i" "i < length (in_data s)" using Cons.prems True by (auto simp: i_def)
    let ?xs = "drop i (in_data s)"
    have sd: "send_data s = (PssSend ?xs, s)"
      using True Cons.prems i by (simp add: send_data_def mem_read_def nat_diff_distrib)
    define k where "k = min (max 1 n) (length ?xs)"
    have k: "0 < k" "k \<le> length ?xs" using i by (auto simp: k_def)
    let ?s = "s\<lparr>in_used := in_used s + int k\<rparr>"
    have "pss_run (send_data ?s) ns = (drop (nat (in_used ?s)) (in_data ?s), PssDone)"
      using Cons.prems k i by (intro Cons.IH) auto
    moreover have "nat (in_used ?s) = i + k" using i by simp
    moreover have "take k ?xs @ drop (i + k) (in_data s) = ?xs"
      using append_take_drop_id [of k ?xs] by (simp add: add.commute)
    moreover have "pss_run (PssSend ?xs, s) (n # ns) =
        (case pss_run (pss_output_handler_done s (int k)) ns of (ys, c) \<Rightarrow> (take k ?xs @ ys, c))"
      by (simp only: pss_run.simps(3) Let_def k_def)
    ultimately show ?thesis
      by (simp add: sd pss_output_handler_done_def i_def [symmetric])
  qed
qed

section \<open>Properties\<close>

text \<open>
  C4. Packets survive the stream. Packets of at most the decoder's MTU are framed by the encoder and
  sent back to back over a stream. However the stream cuts the bytes (every delivery gives at least one
  byte and at most what the decoder asked for), the decoder hands out exactly these packets, in order,
  ends with an empty buffer and consumes the whole stream.
\<close>

theorem packetproto_stream_roundtrip:
  assumes "list_all (\<lambda>p. length p \<le> min mtu PACKETPROTO_MAXPAYLOAD) ps"
    "PacketProtoDecoder_Init mtu malloc = Some (c, d)" "\<And>n m. malloc n = Some m \<Longrightarrow> length m = n"
    "length (concat (map pp_frame ps)) \<le> length ns"
  shows "\<exists>d'. dec_run d ns (concat (map (\<lambda>p. the (encode (replicate (PACKETPROTO_ENCLEN (length p)) 0) p)) ps)) = (ps, d', []) \<and>
    dec_content d' = []"
proof -
  let ?s = "concat (map pp_frame ps)"
  have enc: "concat (map (\<lambda>p. the (encode (replicate (PACKETPROTO_ENCLEN (length p)) 0) p)) ps) = ?s"
    by (simp add: encode_frame)
  have d: "dec_waiting d" "dec_content d = []" "output_mtu d = min mtu PACKETPROTO_MAXPAYLOAD"
    using assms(2,3) by (auto simp: PacketProtoDecoder_Init_def Let_def dec_waiting_def dec_ok_def dec_content_def
        PACKETPROTO_ENCLEN_def PACKETPROTO_MAXPAYLOAD_def pp_parse_short split: option.splits)
  have "pp_parse (output_mtu d) (dec_content d @ ?s) = (ps, False, [])"
    using pp_frame_parse [OF assms(1)] d by (simp add: PACKETPROTO_MAXPAYLOAD_def)
  from dec_run_parse [OF d(1) assms(4) this] enc show ?thesis by simp
qed

theorem packetproto_stream_roundtrip_witness:
  "\<exists>c d d'. PacketProtoDecoder_Init 4 (\<lambda>n. Some (replicate n 0)) = Some (c, d) \<and>
    dec_run d (replicate 20 2) (concat (map (\<lambda>p. the (encode (replicate (PACKETPROTO_ENCLEN (length p)) 0) p)) [[1, 2, 3], [], [4]])) =
      ([[1, 2, 3], [], [4]], d', [])"
proof -
  obtain c d where d: "PacketProtoDecoder_Init 4 (\<lambda>n. Some (replicate n 0)) = Some (c, d)"
    by (simp add: PacketProtoDecoder_Init_def Let_def)
  show ?thesis
    using packetproto_stream_roundtrip [OF _ d, of "[[1, 2, 3], [], [4]]" "replicate 20 2"] d
    by (auto simp: PACKETPROTO_MAXPAYLOAD_def pp_frame_def)
qed

text \<open>
  The decoder on any input. From a waiting state, whatever bytes arrive (at most as many as asked
  for), the packets handed out and the bytes kept are those of the reference parser, the error report
  is made exactly when the parser meets an oversized length, and the decoder again waits, asking for at
  least one byte at the end of what it holds: no input makes it stuck or write outside its buffer.
\<close>

theorem decoder_implements_parser:
  assumes "dec_waiting d" "length xs \<le> buf_size d - (buf_start d + buf_used d)"
  shows "\<exists>ps c d' e. dec_receive d xs = (ps, c, d') \<and>
    pp_parse (output_mtu d) (dec_content d @ xs) = (ps, e, dec_content d') \<and> dec_waiting d' \<and> output_mtu d' = output_mtu d \<and> (c = DecErrorRecv 0 (buf_size d') \<longleftrightarrow> e) \<and>
    (\<not> e \<longrightarrow> c = DecRecv (buf_start d' + buf_used d') (buf_size d' - (buf_start d' + buf_used d')))"
  using assms by (rule dec_receive_parse)

theorem decoder_implements_parser_witness:
  "\<exists>ps c d' e. dec_receive \<lparr>output_mtu = 3, buf_size = 5, buf_start = 0, buf_used = 0, dec_buf = replicate 5 0\<rparr> [9, 0, 1] = (ps, c, d') \<and>
    pp_parse 3 [9, 0, 1] = (ps, e, dec_content d') \<and> dec_waiting d'"
  using decoder_implements_parser [of "\<lparr>output_mtu = 3, buf_size = 5, buf_start = 0, buf_used = 0, dec_buf = replicate 5 0\<rparr>" "[9, 0, 1]"]
  by (auto simp: dec_waiting_def dec_ok_def dec_content_def pp_parse_short)

text \<open>
  A packet is sent completely. However few bytes the stream accepts at a time, the sender hands
  over exactly the bytes of the packet, in order, and then reports the packet as done.
\<close>

theorem stream_sender_complete:
  assumes "length p \<le> length ns"
  shows "pss_run (pss_input_handler_send s p) ns = (p, PssDone)"
  using pss_run_all [of "s\<lparr>in_len := int (length p), in_data := p, in_used := 0\<rparr>" ns] assms
  by (simp add: pss_input_handler_send_def)

theorem stream_sender_complete_witness:
  "pss_run (pss_input_handler_send PacketStreamSender_Init [7, 8, 9]) [1, 0, 5] = ([7, 8, 9], PssDone)"
  by (rule stream_sender_complete) simp

end
