(* ===== verification/Chunk_Buffer.thy ===== *)
theory Chunk_Buffer
  imports Tunnel_Prelude
begin

text \<open>
  The packet queue of tun2socks: the circular chunk buffer (\<open>badvpn/structure/ChunkBuffer2.h\<close>) and the
  component that puts it between a packet source and a packet sink (\<open>flow/PacketBuffer.c\<close>).

  A block is a 4-byte \<open>int\<close> in the byte order of the target (little endian). \<open>cb_mem\<close> is the memory of
  the buffer as bytes; \<open>input_dest\<close> and \<open>output_dest\<close> are byte addresses in it, \<^term>\<open>None\<close> for NULL. The
  code is compiled with assertions off; the conditions of \<open>_ChunkBuffer2_assert_buffer\<close> and
  \<open>_ChunkBuffer2_assert_io\<close> are part of the invariant that is proved. The locale \<open>packet_queue\<close> is the
  contract that \<open>PacketBuffer\<close> relies on.
\<close>

definition bdivide_up :: "nat \<Rightarrow> nat \<Rightarrow> nat" where
  "bdivide_up a b = (a + b - 1) div b"

record ChunkBuffer2 =
  cb_mem :: bytes
  cb_size :: nat
  cb_wrap :: nat
  cb_start :: nat
  cb_used :: nat
  cb_mtu :: nat
  input_dest :: "nat option"
  input_avail :: int
  output_dest :: "nat option"
  output_avail :: int

definition INT_MAX :: int where "INT_MAX = 2147483647"

definition cb_end :: "ChunkBuffer2 \<Rightarrow> nat" where
  "cb_end b =
     (if cb_used b \<ge> cb_wrap b - cb_start b then cb_used b - (cb_wrap b - cb_start b)
      else cb_start b + cb_used b)"

text \<open>The field \<open>len\<close> of a block.\<close>

definition block_len :: "ChunkBuffer2 \<Rightarrow> nat \<Rightarrow> int" where
  "block_len b i = sint (of_le32 (mem_read (cb_mem b) (4 * i) 4))"

definition set_block_len :: "ChunkBuffer2 \<Rightarrow> nat \<Rightarrow> nat \<Rightarrow> ChunkBuffer2" where
  "set_block_len b i n = b\<lparr>cb_mem := mem_write (cb_mem b) (4 * i) (le32 (of_nat n))\<rparr>"

definition cb_update_input :: "ChunkBuffer2 \<Rightarrow> ChunkBuffer2" where
  "cb_update_input b =
     (let e = cb_end b
      in if int (cb_size b) - int e - 1 < int (cb_mtu b) then b\<lparr>input_dest := None, input_avail := - 1\<rparr>
         else let free = (if cb_used b \<ge> cb_wrap b - cb_start b then int (cb_start b) - int e else int (cb_size b) - int e)
              in if free > 0 then b\<lparr>input_dest := Some (4 * (e + 1)), input_avail := (free - 1) * 4\<rparr>
                 else b\<lparr>input_dest := None, input_avail := - 1\<rparr>)"

definition cb_update_output :: "ChunkBuffer2 \<Rightarrow> ChunkBuffer2" where
  "cb_update_output b =
     (if cb_used b > 0
      then b\<lparr>output_dest := Some (4 * (cb_start b + 1)), output_avail := block_len b (cb_start b)\<rparr>
      else b\<lparr>output_dest := None, output_avail := - 1\<rparr>)"

definition ChunkBuffer2_calc_blocks :: "nat \<Rightarrow> nat \<Rightarrow> int" where
  "ChunkBuffer2_calc_blocks chunk_len num =
     (let chunk_data_blocks = int (bdivide_up chunk_len 4)
      in if chunk_data_blocks > INT_MAX - 1 then - 1
         else let chunk_blocks = 1 + chunk_data_blocks
              in if int num > INT_MAX - 1 then - 1
                 else let num_chunks = int num + 1
                      in if chunk_blocks > INT_MAX div num_chunks then - 1
                         else chunk_blocks * num_chunks)"

definition ChunkBuffer2_Init :: "bytes \<Rightarrow> nat \<Rightarrow> nat \<Rightarrow> ChunkBuffer2" where
  "ChunkBuffer2_Init mem blocks mtu =
     cb_update_output (cb_update_input
       \<lparr>cb_mem = mem, cb_size = blocks, cb_wrap = blocks, cb_start = 0, cb_used = 0, cb_mtu = bdivide_up mtu 4,
        input_dest = None, input_avail = - 1, output_dest = None, output_avail = - 1\<rparr>)"

definition ChunkBuffer2_SubmitPacket :: "ChunkBuffer2 \<Rightarrow> nat \<Rightarrow> ChunkBuffer2" where
  "ChunkBuffer2_SubmitPacket b len =
     (let e = cb_end b; blocklen = bdivide_up len 4;
          b1 = (set_block_len b e len)\<lparr>cb_used := cb_used b + (1 + blocklen)\<rparr>;
          b2 = (if cb_used b1 \<le> cb_wrap b1 - cb_start b1 \<and>
                   int (cb_mtu b1) > int (cb_size b1) - int (e + 1 + blocklen) - 1
                then b1\<lparr>cb_wrap := e + 1 + blocklen\<rparr> else b1);
          b3 = cb_update_input b2
      in if cb_used b3 = 1 + blocklen then cb_update_output b3 else b3)"

definition ChunkBuffer2_ConsumePacket :: "ChunkBuffer2 \<Rightarrow> ChunkBuffer2" where
  "ChunkBuffer2_ConsumePacket b =
     (let blocklen = bdivide_up (nat (block_len b (cb_start b))) 4;
          data_wrapped = (cb_used b \<ge> cb_wrap b - cb_start b);
          b1 = b\<lparr>cb_start := cb_start b + (1 + blocklen), cb_used := cb_used b - (1 + blocklen)\<rparr>;
          b2 = (if cb_start b1 = cb_wrap b1 then b1\<lparr>cb_start := 0, cb_wrap := cb_size b1\<rparr> else b1);
          b3 = (if data_wrapped then cb_update_input b2 else b2)
      in cb_update_output b3)"

section \<open>The component\<close>

record PacketBuffer =
  pb_buf :: ChunkBuffer2
  pb_input_mtu :: int

text \<open>
  The calls a handler makes on its neighbours: ask the source for a packet at an address, or give the
  sink the packet at an address with its length.
\<close>

datatype pb_call = PbRecv "nat option" | PbSend "nat option" int

definition pb_input_handler_done :: "PacketBuffer \<Rightarrow> nat \<Rightarrow> pb_call list \<times> PacketBuffer" where
  "pb_input_handler_done p in_len =
     (let was_empty = (output_avail (pb_buf p) < 0);
          b = ChunkBuffer2_SubmitPacket (pb_buf p) in_len
      in ((if input_avail b \<ge> pb_input_mtu p then [PbRecv (input_dest b)] else []) @
          (if was_empty then [PbSend (output_dest b) (output_avail b)] else []), p\<lparr>pb_buf := b\<rparr>))"

definition pb_output_handler_done :: "PacketBuffer \<Rightarrow> pb_call list \<times> PacketBuffer" where
  "pb_output_handler_done p =
     (let was_full = (input_avail (pb_buf p) < pb_input_mtu p);
          b = ChunkBuffer2_ConsumePacket (pb_buf p)
      in ((if was_full \<and> input_avail b \<ge> pb_input_mtu p then [PbRecv (input_dest b)] else []) @
          (if output_avail b \<ge> 0 then [PbSend (output_dest b) (output_avail b)] else []), p\<lparr>pb_buf := b\<rparr>))"

text \<open>\<open>alloc\<close> is \<open>BAllocArray\<close> of that many blocks.\<close>

definition PacketBuffer_Init :: "nat \<Rightarrow> nat \<Rightarrow> (nat \<Rightarrow> bytes option) \<Rightarrow> (pb_call list \<times> PacketBuffer) option" where
  "PacketBuffer_Init mtu num_packets alloc =
     (let num_blocks = ChunkBuffer2_calc_blocks mtu num_packets
      in if num_blocks < 0 then None
         else case alloc (nat num_blocks) of
                None \<Rightarrow> None
              | Some mem \<Rightarrow>
                  (let b = ChunkBuffer2_Init mem (nat num_blocks) mtu
                   in Some ([PbRecv (input_dest b)], \<lparr>pb_buf = b, pb_input_mtu = int mtu\<rparr>)))"

section \<open>The buffer as a queue\<close>

definition nblocks :: "bytes \<Rightarrow> nat" where
  "nblocks p = 1 + bdivide_up (length p) 4"

text \<open>Packets stored from block \<open>i\<close> on; every header lies at or below block \<open>lim\<close>.\<close>

fun chunks_at :: "bytes \<Rightarrow> nat \<Rightarrow> nat \<Rightarrow> bytes list \<Rightarrow> bool" where
  "chunks_at mem lim i [] = True"
| "chunks_at mem lim i (p # ps) \<longleftrightarrow> i \<le> lim \<and> length p < 2 ^ 31 \<and>
     mem_read mem (4 * i) 4 = le32 (of_nat (length p)) \<and> mem_read mem (4 * (i + 1)) (length p) = p \<and>
     chunks_at mem lim (i + nblocks p) ps"

definition extent :: "bytes list \<Rightarrow> nat" where
  "extent ps = sum_list (map nblocks ps)"

abbreviation cb_wrapped :: "ChunkBuffer2 \<Rightarrow> bool" where
  "cb_wrapped b \<equiv> cb_used b \<ge> cb_wrap b - cb_start b"

definition cb_data :: "ChunkBuffer2 \<Rightarrow> bytes list \<Rightarrow> bool" where
  "cb_data b q \<longleftrightarrow> length (cb_mem b) = 4 * cb_size b \<and> 1 + cb_mtu b \<le> cb_size b \<and> cb_size b < 2 ^ 29 \<and>
     cb_wrap b \<le> cb_size b \<and> cb_start b < cb_wrap b \<and>
     (if cb_wrapped b
      then \<exists>q1 q2. q = q1 @ q2 \<and> q1 \<noteq> [] \<and> cb_start b + extent q1 = cb_wrap b \<and> extent q2 = cb_end b \<and>
             cb_end b \<le> cb_start b \<and> cb_size b \<le> cb_wrap b + cb_mtu b \<and>
             chunks_at (cb_mem b) (cb_size b - 1 - cb_mtu b) (cb_start b) q1 \<and>
             chunks_at (cb_mem b) (cb_size b - 1 - cb_mtu b) 0 q2
      else cb_wrap b = cb_size b \<and> extent q = cb_used b \<and> cb_start b + cb_used b + 1 + cb_mtu b \<le> cb_size b \<and>
           chunks_at (cb_mem b) (cb_size b - 1 - cb_mtu b) (cb_start b) q)"

definition cb_inv :: "ChunkBuffer2 \<Rightarrow> bytes list \<Rightarrow> bool" where
  "cb_inv b q \<longleftrightarrow> cb_data b q \<and> cb_update_input b = b \<and> cb_update_output b = b"

lemma nblocks_pos: "0 < nblocks p"
  by (simp add: nblocks_def)

lemma nblocks_bytes: "4 + length p \<le> 4 * nblocks p"
  by (simp add: nblocks_def bdivide_up_def)

lemma extent_simps [simp]: "extent [] = 0" "extent (p # ps) = nblocks p + extent ps" "extent (ps @ qs) = extent ps + extent qs"
  by (simp_all add: extent_def)

lemma chunks_at_append [simp]:
  "chunks_at mem lim i (ps @ qs) \<longleftrightarrow> chunks_at mem lim i ps \<and> chunks_at mem lim (i + extent ps) qs"
  by (induction ps arbitrary: i) (auto simp: add.assoc)

lemma chunks_at_write:
  assumes "chunks_at mem lim i ps" "a + length xs \<le> length mem" "a + length xs \<le> 4 * i \<or> 4 * (i + extent ps) \<le> a"
  shows "chunks_at (mem_write mem a xs) lim i ps"
  using assms(1,3)
proof (induction ps arbitrary: i)
  case Nil
  then show ?case by simp
next
  case (Cons p ps)
  have "mem_read (mem_write mem a xs) (4 * i) 4 = mem_read mem (4 * i) 4"
    "mem_read (mem_write mem a xs) (4 * (i + 1)) (length p) = mem_read mem (4 * (i + 1)) (length p)"
    using Cons.prems(2) nblocks_bytes [of p] assms(2) by (intro mem_read_write_disjoint; fastforce)+
  then show ?case using Cons by auto
qed

text \<open>What the two update functions put into the fields.\<close>

definition in_free :: "ChunkBuffer2 \<Rightarrow> int" where
  "in_free b = (if int (cb_size b) - int (cb_end b) - 1 < int (cb_mtu b) then 0
     else if cb_wrapped b then int (cb_start b) - int (cb_end b) else int (cb_size b) - int (cb_end b))"

lemma cb_update_input_eq:
  "cb_update_input b = b\<lparr>input_dest := (if in_free b > 0 then Some (4 * (cb_end b + 1)) else None),
     input_avail := (if in_free b > 0 then (in_free b - 1) * 4 else - 1)\<rparr>"
  by (simp add: cb_update_input_def in_free_def Let_def)

lemma cb_update_output_eq:
  "cb_update_output b = b\<lparr>output_dest := (if cb_used b > 0 then Some (4 * (cb_start b + 1)) else None),
     output_avail := (if cb_used b > 0 then block_len b (cb_start b) else - 1)\<rparr>"
  by (simp add: cb_update_output_def)

lemma io_fields [simp]:
  "in_free (b\<lparr>input_dest := x\<rparr>) = in_free b" "in_free (b\<lparr>input_avail := y\<rparr>) = in_free b"
  "in_free (b\<lparr>output_dest := x\<rparr>) = in_free b" "in_free (b\<lparr>output_avail := y\<rparr>) = in_free b"
  "cb_end (b\<lparr>input_dest := x\<rparr>) = cb_end b" "cb_end (b\<lparr>input_avail := y\<rparr>) = cb_end b"
  "cb_end (b\<lparr>output_dest := x\<rparr>) = cb_end b" "cb_end (b\<lparr>output_avail := y\<rparr>) = cb_end b"
  "block_len (b\<lparr>input_dest := x\<rparr>) i = block_len b i" "block_len (b\<lparr>input_avail := y\<rparr>) i = block_len b i"
  "block_len (b\<lparr>output_dest := x\<rparr>) i = block_len b i" "block_len (b\<lparr>output_avail := y\<rparr>) i = block_len b i"
  "cb_data (b\<lparr>input_dest := x\<rparr>) q = cb_data b q" "cb_data (b\<lparr>input_avail := y\<rparr>) q = cb_data b q"
  "cb_data (b\<lparr>output_dest := x\<rparr>) q = cb_data b q" "cb_data (b\<lparr>output_avail := y\<rparr>) q = cb_data b q"
  by (cases b; simp only: in_free_def cb_end_def block_len_def cb_data_def ChunkBuffer2.simps)+

lemma update_simps [simp]:
  "cb_data (cb_update_input b) q = cb_data b q" "cb_data (cb_update_output b) q = cb_data b q"
  "cb_update_input (cb_update_input b) = cb_update_input b"
  "cb_update_output (cb_update_output b) = cb_update_output b"
  "cb_update_input (cb_update_output b) = cb_update_output (cb_update_input b)"
  by (simp_all add: cb_update_input_eq cb_update_output_eq)

lemma block_len_le32:
  assumes "mem_read (cb_mem b) (4 * i) 4 = le32 (of_nat n)" "n < 2 ^ 31"
  shows "block_len b i = int n"
proof -
  have "unat (of_nat n :: u32) = n" using assms(2) by (simp add: unsigned_of_nat take_bit_nat_eq_self)
  then show ?thesis using assms sint_small [of "of_nat n :: u32"] by (simp add: block_len_def)
qed

lemma cb_data_head:
  assumes "cb_data b (p # q)"
  shows "block_len b (cb_start b) = int (length p)" "mem_read (cb_mem b) (4 * (cb_start b + 1)) (length p) = p"
    "0 < cb_used b"
proof -
  have "chunks_at (cb_mem b) (cb_size b - 1 - cb_mtu b) (cb_start b) [p] \<and> 0 < cb_used b"
  proof (cases "cb_wrapped b")
    case True
    then obtain q1 q2 where "p # q = q1 @ q2" "q1 \<noteq> []"
      "chunks_at (cb_mem b) (cb_size b - 1 - cb_mtu b) (cb_start b) q1" "cb_start b < cb_wrap b"
      using assms by (auto simp: cb_data_def)
    then show ?thesis using True by (cases q1) auto
  next
    case False
    then show ?thesis using assms nblocks_pos [of p] by (auto simp: cb_data_def)
  qed
  then show "block_len b (cb_start b) = int (length p)" "mem_read (cb_mem b) (4 * (cb_start b + 1)) (length p) = p"
    "0 < cb_used b" by (auto simp: block_len_le32)
qed

lemma cb_data_empty: "cb_data b [] \<Longrightarrow> cb_used b = 0"
  by (auto simp: cb_data_def split: if_splits)

lemma cb_output:
  assumes "cb_inv b q"
  shows "output_dest b = (if q = [] then None else Some (4 * (cb_start b + 1)))"
    "output_avail b = (case q of [] \<Rightarrow> - 1 | p # _ \<Rightarrow> int (length p))"
proof -
  have d: "cb_data b q" and u: "cb_update_output b = b" using assms by (auto simp: cb_inv_def)
  have e: "output_dest (cb_update_output b) = output_dest b" "output_avail (cb_update_output b) = output_avail b"
    by (simp_all add: u)
  show "output_dest b = (if q = [] then None else Some (4 * (cb_start b + 1)))"
    "output_avail b = (case q of [] \<Rightarrow> - 1 | p # _ \<Rightarrow> int (length p))"
    using e d cb_data_empty [of b] cb_data_head(1,3) [of b] by (cases q; simp add: cb_update_output_eq split: if_splits)+
qed

lemma cb_input:
  assumes "cb_inv b q" "input_dest b \<noteq> None"
  shows "input_dest b = Some (4 * (cb_end b + 1))" "cb_end b + 1 + cb_mtu b \<le> cb_size b"
    "cb_wrapped b \<Longrightarrow> cb_end b < cb_start b \<and> input_avail b = 4 * (int (cb_start b) - int (cb_end b) - 1)"
    "\<not> cb_wrapped b \<Longrightarrow> input_avail b = 4 * (int (cb_size b) - int (cb_end b) - 1)"
proof -
  have u: "cb_update_input b = b" using assms(1) by (simp add: cb_inv_def)
  have u2: "input_dest (cb_update_input b) = input_dest b" "input_avail (cb_update_input b) = input_avail b"
    by (simp_all add: u)
  show "input_dest b = Some (4 * (cb_end b + 1))" "cb_end b + 1 + cb_mtu b \<le> cb_size b"
    "cb_wrapped b \<Longrightarrow> cb_end b < cb_start b \<and> input_avail b = 4 * (int (cb_start b) - int (cb_end b) - 1)"
    "\<not> cb_wrapped b \<Longrightarrow> input_avail b = 4 * (int (cb_size b) - int (cb_end b) - 1)"
    using u2 assms(2) by (auto simp: cb_update_input_eq in_free_def split: if_splits)
qed

lemma nblocks_le: "int (length p) \<le> 4 * (int n - 1) \<Longrightarrow> nblocks p \<le> n"
  by (simp add: nblocks_def bdivide_up_def)

text \<open>The memory after the source has written \<open>p\<close> at \<open>input_dest\<close> and the header has been set.\<close>

lemma new_chunk:
  assumes "length m = 4 * sz" "e + nblocks p \<le> sz" "e \<le> lim" "sz < 2 ^ 29"
  defines "m' \<equiv> mem_write (mem_write m (4 * (e + 1)) p) (4 * e) (le32 (of_nat (length p)))"
  shows "chunks_at m' lim e [p]" "length m' = length m"
    "chunks_at m lim i ps \<Longrightarrow> i + extent ps \<le> e \<or> e + nblocks p \<le> i \<Longrightarrow> chunks_at m' lim i ps"
proof -
  have fit: "4 * e + 4 + length p \<le> length m" using assms(1,2) nblocks_bytes [of p] by linarith
  have len: "length p < 2 ^ 31" using fit assms(1,4) by simp
  show "chunks_at m' lim e [p]"
    using fit assms(3) len mem_read_write_same [of "4 * (e + 1)" p m]
      mem_read_write_after [of "4 * e" "le32 (of_nat (length p))" "4 * (e + 1)" "mem_write m (4 * (e + 1)) p" "length p"]
      mem_read_write_same [of "4 * e" "le32 (of_nat (length p))" "mem_write m (4 * (e + 1)) p"]
    by (simp add: m'_def)
  show "length m' = length m" using fit by (simp add: m'_def)
  assume c: "chunks_at m lim i ps" "i + extent ps \<le> e \<or> e + nblocks p \<le> i"
  have "chunks_at (mem_write m (4 * (e + 1)) p) lim i ps"
    using c fit nblocks_bytes [of p] by (intro chunks_at_write) auto
  then show "chunks_at m' lim i ps"
    unfolding m'_def using c fit nblocks_bytes [of p] by (intro chunks_at_write) auto
qed

definition cb_put :: "ChunkBuffer2 \<Rightarrow> bytes \<Rightarrow> ChunkBuffer2" where
  "cb_put b p = b\<lparr>cb_mem := mem_write (cb_mem b) (case input_dest b of None \<Rightarrow> 0 | Some a \<Rightarrow> a) p\<rparr>"

definition cb_can :: "ChunkBuffer2 \<Rightarrow> bytes \<Rightarrow> bool" where
  "cb_can b p \<longleftrightarrow> input_dest b \<noteq> None \<and> int (length p) \<le> input_avail b"

definition cb_submit :: "ChunkBuffer2 \<Rightarrow> bytes \<Rightarrow> ChunkBuffer2" where
  "cb_submit b p = ChunkBuffer2_SubmitPacket (cb_put b p) (length p)"

definition cb_front :: "ChunkBuffer2 \<Rightarrow> bytes option" where
  "cb_front b = (case output_dest b of None \<Rightarrow> None | Some a \<Rightarrow> Some (mem_read (cb_mem b) a (nat (output_avail b))))"

lemma submit_data:
  assumes inv: "cb_inv b q" and can: "cb_can b p"
  defines "e \<equiv> cb_end b" and "n \<equiv> nblocks p"
  defines "m \<equiv> mem_write (mem_write (cb_mem b) (4 * (e + 1)) p) (4 * e) (le32 (of_nat (length p)))"
  defines "b1 \<equiv> b\<lparr>cb_mem := m, cb_used := cb_used b + n\<rparr>"
  shows "cb_data (if cb_used b1 \<le> cb_wrap b1 - cb_start b1 \<and> int (cb_mtu b1) > int (cb_size b1) - int (e + n) - 1
      then b1\<lparr>cb_wrap := e + n\<rparr> else b1) (q @ [p])"
proof -
  have d: "cb_data b q" using inv by (simp add: cb_inv_def)
  have dest: "input_dest b \<noteq> None" "int (length p) \<le> input_avail b" using can by (auto simp: cb_can_def)
  note inp = cb_input [OF inv dest(1), folded e_def]
  let ?lim = "cb_size b - 1 - cb_mtu b"
  have lim: "e \<le> ?lim" using inp(2) by linarith
  have base: "length (cb_mem b) = 4 * cb_size b" "cb_size b < 2 ^ 29" "cb_wrap b \<le> cb_size b" "cb_start b < cb_wrap b"
    "1 + cb_mtu b \<le> cb_size b"
    using d by (auto simp: cb_data_def)
  show ?thesis
  proof (cases "cb_wrapped b")
    case True
    obtain q1 q2 where q: "q = q1 @ q2" "q1 \<noteq> []" "cb_start b + extent q1 = cb_wrap b" "extent q2 = e"
      "cb_size b \<le> cb_wrap b + cb_mtu b" "chunks_at (cb_mem b) ?lim (cb_start b) q1" "chunks_at (cb_mem b) ?lim 0 q2"
      using d True by (auto simp: cb_data_def e_def)
    have fit: "e + n \<le> cb_start b" using inp(3) [OF True] dest(2) nblocks_le [of p "cb_start b - e"] by (simp add: n_def)
    then have "e + n \<le> cb_size b" using base by linarith
    note nc = new_chunk [OF base(1) this [unfolded n_def] lim base(2), folded m_def]
    have e': "cb_end b1 = e + n" "cb_wrapped b1"
      using True by (auto simp: b1_def cb_end_def e_def)
    have "chunks_at m ?lim (cb_start b) q1" "chunks_at m ?lim 0 (q2 @ [p])"
      using nc q(4,6,7) fit by (auto simp: n_def)
    then have "\<exists>q1 q2. q @ [p] = q1 @ q2 \<and> q1 \<noteq> [] \<and> cb_start b1 + extent q1 = cb_wrap b1 \<and> extent q2 = cb_end b1 \<and>
        cb_end b1 \<le> cb_start b1 \<and> cb_size b1 \<le> cb_wrap b1 + cb_mtu b1 \<and>
        chunks_at (cb_mem b1) (cb_size b1 - 1 - cb_mtu b1) (cb_start b1) q1 \<and>
        chunks_at (cb_mem b1) (cb_size b1 - 1 - cb_mtu b1) 0 q2"
      using e'(1) fit q by (intro exI [of _ q1] exI [of _ "q2 @ [p]"]) (simp add: b1_def n_def)
    then have "cb_data b1 (q @ [p])"
      unfolding cb_data_def if_P [OF e'(2)] using base nc(2) by (simp add: b1_def)
    moreover have "\<not> cb_used b1 \<le> cb_wrap b1 - cb_start b1"
      using True nblocks_pos [of p] by (simp add: b1_def n_def)
    ultimately show ?thesis by simp
  next
    case False
    have q: "cb_wrap b = cb_size b" "extent q = cb_used b" "chunks_at (cb_mem b) ?lim (cb_start b) q"
      using d False by (auto simp: cb_data_def)
    have e: "e = cb_start b + cb_used b" using False by (simp add: e_def cb_end_def)
    have fit: "e + n \<le> cb_size b"
      using inp(2) inp(4) [OF False] dest(2) nblocks_le [of p "cb_size b - e"] by (simp add: n_def)
    note nc = new_chunk [OF base(1) fit [unfolded n_def] lim base(2), folded m_def]
    have ch: "chunks_at m ?lim (cb_start b) (q @ [p])" using nc q e by simp
    have used: "cb_used b1 \<le> cb_wrap b1 - cb_start b1" using fit q(1) e by (simp add: b1_def)
    show ?thesis
    proof (cases "int (cb_mtu b) > int (cb_size b) - int (e + n) - 1")
      case True
      let ?b = "b1\<lparr>cb_wrap := e + n\<rparr>"
      have w: "cb_wrapped ?b" "cb_end ?b = 0" using e by (auto simp: b1_def cb_end_def)
      have "\<exists>q1 q2. q @ [p] = q1 @ q2 \<and> q1 \<noteq> [] \<and> cb_start ?b + extent q1 = cb_wrap ?b \<and> extent q2 = cb_end ?b \<and>
          cb_end ?b \<le> cb_start ?b \<and> cb_size ?b \<le> cb_wrap ?b + cb_mtu ?b \<and>
          chunks_at (cb_mem ?b) (cb_size ?b - 1 - cb_mtu ?b) (cb_start ?b) q1 \<and>
          chunks_at (cb_mem ?b) (cb_size ?b - 1 - cb_mtu ?b) 0 q2"
        using w(2) q e True ch by (intro exI [of _ "q @ [p]"] exI [of _ "[]"]) (auto simp: b1_def n_def)
      then have "cb_data ?b (q @ [p])"
        unfolding cb_data_def if_P [OF w(1)]
        using base nc(2) fit e nblocks_pos [of p] by (simp add: b1_def n_def)
      then show ?thesis using used True by (simp add: b1_def)
    next
      case c: False
      then have "\<not> cb_wrapped b1" using q(1) e base by (auto simp: b1_def)
      then have "cb_data b1 (q @ [p])"
        unfolding cb_data_def using base nc(2) q fit e c ch by (auto simp: b1_def n_def)
      then show ?thesis using c by (simp add: b1_def)
    qed
  qed
qed

lemma cb_submit_inv:
  assumes inv: "cb_inv b q" and can: "cb_can b p"
  shows "cb_inv (cb_submit b p) (q @ [p])"
proof -
  define e n where "e = cb_end b" and "n = nblocks p"
  define b1 where "b1 = b\<lparr>cb_mem := mem_write (mem_write (cb_mem b) (4 * (e + 1)) p) (4 * e) (le32 (of_nat (length p))),
    cb_used := cb_used b + n\<rparr>"
  define b2 where "b2 = (if cb_used b1 \<le> cb_wrap b1 - cb_start b1 \<and> int (cb_mtu b1) > int (cb_size b1) - int (e + n) - 1
    then b1\<lparr>cb_wrap := e + n\<rparr> else b1)"
  have d2: "cb_data b2 (q @ [p])" unfolding b2_def b1_def e_def n_def by (rule submit_data [OF inv can])
  have dest: "input_dest b = Some (4 * (e + 1))" using cb_input(1) [OF inv] can by (simp add: cb_can_def e_def)
  have put: "cb_end (cb_put b p) = e" by (simp add: cb_put_def cb_end_def e_def)
  have set: "(set_block_len (cb_put b p) e (length p))\<lparr>cb_used := cb_used (cb_put b p) + n\<rparr> = b1"
    by (simp add: set_block_len_def cb_put_def dest b1_def n_def nblocks_def)
  have n: "e + 1 + bdivide_up (length p) 4 = e + n" "1 + bdivide_up (length p) 4 = n" by (simp_all add: n_def nblocks_def)
  have "cb_used (cb_update_input b2) = cb_used b2" by (simp add: cb_update_input_eq)
  then have sub: "cb_submit b p = (if cb_used b2 = nblocks p then cb_update_output (cb_update_input b2) else cb_update_input b2)"
    unfolding cb_submit_def ChunkBuffer2_SubmitPacket_def Let_def put set n b2_def [symmetric] by (simp add: n_def)
  have b2: "cb_start b2 = cb_start b" "cb_used b2 = cb_used b + nblocks p" "output_dest b2 = output_dest b"
    "output_avail b2 = output_avail b"
    by (simp_all add: b2_def b1_def n_def)
  show ?thesis
  proof (cases q)
    case Nil
    then have "cb_used b2 = nblocks p" using inv cb_data_empty [of b] b2(2) by (simp add: cb_inv_def)
    then show ?thesis using d2 Nil by (simp add: sub cb_inv_def)
  next
    case (Cons h q')
    have "cb_data b (h # q')" using inv Cons by (simp add: cb_inv_def)
    note h = cb_data_head [OF this]
    have out: "output_dest b = Some (4 * (cb_start b + 1))" "output_avail b = int (length h)"
      using cb_output [OF inv] Cons by simp_all
    have "block_len b2 (cb_start b2) = int (length h)" using cb_data_head(1) [of b2 h "q' @ [p]"] d2 Cons by simp
    then have "cb_update_output b2 = b2" using out b2 h(3) by (simp add: cb_update_output_eq)
    then have "cb_update_output (cb_update_input b2) = cb_update_input b2"
      using update_simps(5) [of b2] by simp
    then show ?thesis using d2 h(3) b2(2) by (simp add: sub cb_inv_def)
  qed
qed

lemma consume_data:
  assumes d: "cb_data b (p # q)"
  defines "b1 \<equiv> b\<lparr>cb_start := cb_start b + nblocks p, cb_used := cb_used b - nblocks p\<rparr>"
  shows "cb_data (if cb_start b1 = cb_wrap b1 then b1\<lparr>cb_start := 0, cb_wrap := cb_size b1\<rparr> else b1) q"
    "\<not> cb_wrapped b \<Longrightarrow> cb_start b1 \<noteq> cb_wrap b1 \<and> \<not> cb_wrapped b1 \<and> cb_end b1 = cb_end b"
proof -
  let ?lim = "cb_size b - 1 - cb_mtu b"
  have base: "length (cb_mem b) = 4 * cb_size b" "cb_size b < 2 ^ 29" "cb_wrap b \<le> cb_size b" "cb_start b < cb_wrap b"
    "1 + cb_mtu b \<le> cb_size b"
    using d by (auto simp: cb_data_def)
  show "cb_data (if cb_start b1 = cb_wrap b1 then b1\<lparr>cb_start := 0, cb_wrap := cb_size b1\<rparr> else b1) q"
  proof (cases "cb_wrapped b")
    case True
    obtain q1 q2 where q: "p # q = q1 @ q2" "q1 \<noteq> []" "cb_start b + extent q1 = cb_wrap b" "extent q2 = cb_end b"
      "cb_end b \<le> cb_start b" "cb_size b \<le> cb_wrap b + cb_mtu b"
      "chunks_at (cb_mem b) ?lim (cb_start b) q1" "chunks_at (cb_mem b) ?lim 0 q2"
      using d True by (auto simp: cb_data_def)
    obtain q1' where q1': "q1 = p # q1'" "q = q1' @ q2" using q(1,2) by (cases q1) auto
    have e: "cb_end b = cb_used b - (cb_wrap b - cb_start b)" using True by (simp add: cb_end_def)
    show ?thesis
    proof (cases "q1' = []")
      case nil: True
      then have st: "cb_start b1 = cb_wrap b1" "cb_used b1 = cb_end b" "cb_start b \<le> ?lim"
        using q q1' e by (auto simp: b1_def)
      let ?b = "b1\<lparr>cb_start := 0, cb_wrap := cb_size b1\<rparr>"
      have "cb_used ?b = cb_end b" "cb_size ?b = cb_size b" using st(2) by (simp_all add: b1_def)
      then have "\<not> cb_wrapped ?b" using q(5) base by simp
      moreover have "cb_end b + 1 + cb_mtu b \<le> cb_size b" using st(3) q(5) base by linarith
      ultimately have "cb_data ?b q"
        unfolding cb_data_def using base q q1' nil st(2) by (simp add: b1_def)
      then show ?thesis using st(1) by simp
    next
      case cons: False
      then have "0 < extent q1'" using nblocks_pos by (cases q1') auto
      then have st: "cb_start b1 < cb_wrap b1" "cb_start b1 + extent q1' = cb_wrap b1"
        using q(3) q1' by (auto simp: b1_def)
      have w: "cb_wrapped b1" "cb_end b1 = cb_end b" using True q(3) q1' e by (auto simp: b1_def cb_end_def)
      have "\<exists>q1 q2. q = q1 @ q2 \<and> q1 \<noteq> [] \<and> cb_start b1 + extent q1 = cb_wrap b1 \<and> extent q2 = cb_end b1 \<and>
          cb_end b1 \<le> cb_start b1 \<and> cb_size b1 \<le> cb_wrap b1 + cb_mtu b1 \<and>
          chunks_at (cb_mem b1) (cb_size b1 - 1 - cb_mtu b1) (cb_start b1) q1 \<and>
          chunks_at (cb_mem b1) (cb_size b1 - 1 - cb_mtu b1) 0 q2"
        using q q1' cons st(2) w(2) by (intro exI [of _ q1'] exI [of _ q2]) (simp add: b1_def)
      then have "cb_data b1 q" unfolding cb_data_def if_P [OF w(1)] using base st(1) by (simp add: b1_def)
      then show ?thesis using st(1) by simp
    qed
  next
    case False
    then have q: "cb_wrap b = cb_size b" "nblocks p + extent q = cb_used b" "cb_start b + cb_used b + 1 + cb_mtu b \<le> cb_size b"
      "chunks_at (cb_mem b) ?lim (cb_start b) (p # q)"
      using d by (auto simp: cb_data_def)
    then have "\<not> cb_wrapped b1" "cb_start b1 \<noteq> cb_wrap b1" using False by (auto simp: b1_def)
    moreover from this(1) have "cb_data b1 q" unfolding cb_data_def using base q by (auto simp: b1_def)
    ultimately show ?thesis by simp
  qed
  assume u: "\<not> cb_wrapped b"
  then have "nblocks p \<le> cb_used b" using d by (auto simp: cb_data_def)
  then show "cb_start b1 \<noteq> cb_wrap b1 \<and> \<not> cb_wrapped b1 \<and> cb_end b1 = cb_end b"
    using u by (auto simp: b1_def cb_end_def)
qed

lemma cb_consume_inv:
  assumes inv: "cb_inv b (p # q)"
  shows "cb_inv (ChunkBuffer2_ConsumePacket b) q"
proof -
  define b1 where "b1 = b\<lparr>cb_start := cb_start b + nblocks p, cb_used := cb_used b - nblocks p\<rparr>"
  define b2 where "b2 = (if cb_start b1 = cb_wrap b1 then b1\<lparr>cb_start := 0, cb_wrap := cb_size b1\<rparr> else b1)"
  have d: "cb_data b (p # q)" "cb_update_input b = b" using inv by (auto simp: cb_inv_def)
  have d2: "cb_data b2 q" using consume_data(1) [OF d(1)] by (simp only: b2_def b1_def)
  have con: "ChunkBuffer2_ConsumePacket b = cb_update_output (if cb_wrapped b then cb_update_input b2 else b2)"
    using cb_data_head(1) [OF d(1)]
    by (simp add: ChunkBuffer2_ConsumePacket_def Let_def b2_def b1_def nblocks_def)
  have "cb_update_input b2 = b2" if "\<not> cb_wrapped b"
  proof -
    have c: "cb_start b1 \<noteq> cb_wrap b1" "\<not> cb_wrapped b1" "cb_end b1 = cb_end b"
      using consume_data(2) [OF d(1) that] by (simp_all add: b1_def)
    have "in_free b1 = in_free b" using c that by (simp add: in_free_def) (simp add: b1_def)
    then have "cb_update_input b1 = b1\<lparr>input_dest := input_dest (cb_update_input b), input_avail := input_avail (cb_update_input b)\<rparr>"
      using c(3) by (simp add: cb_update_input_eq)
    also have "\<dots> = b1" unfolding d(2) by (simp add: b1_def)
    finally have "cb_update_input b1 = b1" .
    then show ?thesis using c(1) by (simp add: b2_def)
  qed
  then show ?thesis using d2 by (auto simp: con cb_inv_def)
qed

lemma cb_front_head: "cb_inv b q \<Longrightarrow> cb_front b = (case q of [] \<Rightarrow> None | p # _ \<Rightarrow> Some p)"
  using cb_output [of b q] cb_data_head(2) [of b]
  by (cases q) (auto simp: cb_inv_def cb_front_def simp del: mult_Suc_right)

section \<open>The contract of a packet queue\<close>

datatype 'p queue_op = Put 'p | Get

fun puts :: "'p queue_op list \<Rightarrow> 'p list" where
  "puts [] = []"
| "puts (Put p # os) = p # puts os"
| "puts (Get # os) = puts os"

locale packet_queue =
  fixes inv :: "'b \<Rightarrow> 'p list \<Rightarrow> bool"
    and can :: "'b \<Rightarrow> 'p \<Rightarrow> bool"
    and submit :: "'b \<Rightarrow> 'p \<Rightarrow> 'b"
    and consume :: "'b \<Rightarrow> 'b"
    and front :: "'b \<Rightarrow> 'p option"
  assumes submit_inv: "inv b q \<Longrightarrow> can b p \<Longrightarrow> inv (submit b p) (q @ [p])"
    and consume_inv: "inv b (p # q) \<Longrightarrow> inv (consume b) q"
    and front_inv: "inv b q \<Longrightarrow> front b = (case q of [] \<Rightarrow> None | p # _ \<Rightarrow> Some p)"
begin

text \<open>A run of operations; \<^term>\<open>None\<close> when a packet is put that does not fit.\<close>

fun queue_run :: "'b \<Rightarrow> 'p queue_op list \<Rightarrow> ('p list \<times> 'b) option" where
  "queue_run b [] = Some ([], b)"
| "queue_run b (Put p # os) = (if can b p then queue_run (submit b p) os else None)"
| "queue_run b (Get # os) =
     (case front b of
        None \<Rightarrow> queue_run b os
      | Some p \<Rightarrow> (case queue_run (consume b) os of None \<Rightarrow> None | Some (ps, b') \<Rightarrow> Some (p # ps, b')))"

lemma fifo:
  "inv b q \<Longrightarrow> queue_run b os = Some (ps, b') \<Longrightarrow> \<exists>q'. inv b' q' \<and> q @ puts os = ps @ q'"
proof (induction b os arbitrary: q ps rule: queue_run.induct)
  case (2 b p os)
  then show ?case using submit_inv [of b q p] by (force split: if_splits)
next
  case (3 b os)
  show ?case
  proof (cases q)
    case Nil
    then have "front b = None" using front_inv [OF "3.prems"(1)] by simp
    then show ?thesis using "3.IH"(1) [of "[]" ps] "3.prems" Nil by simp
  next
    case (Cons h t)
    then have f: "front b = Some h" using front_inv [OF "3.prems"(1)] by simp
    then obtain ps' where "queue_run (consume b) os = Some (ps', b')" "ps = h # ps'"
      using "3.prems"(2) by (auto split: option.splits)
    then show ?thesis using "3.IH"(2) [OF f _, of t ps'] consume_inv [of b h t] "3.prems"(1) Cons by auto
  qed
qed auto

end

interpretation cq: packet_queue cb_inv cb_can cb_submit ChunkBuffer2_ConsumePacket cb_front
  by unfold_locales (rule cb_submit_inv cb_consume_inv cb_front_head, assumption+)+

section \<open>Capacity\<close>

lemma extent_bound: "list_all (\<lambda>p. nblocks p \<le> n) q \<Longrightarrow> extent q \<le> length q * n"
  by (induction q) auto

lemma cb_room:
  assumes inv: "cb_inv b q" and small: "list_all (\<lambda>p. nblocks p \<le> 1 + cb_mtu b) q"
    and n: "length q < num" "cb_size b = (1 + cb_mtu b) * (num + 1)"
  shows "input_dest b \<noteq> None \<and> 4 * int (cb_mtu b) \<le> input_avail b"
proof -
  have d: "cb_data b q" and u: "cb_update_input b = b" using inv by (auto simp: cb_inv_def)
  have "1 + int (cb_mtu b) \<le> in_free b"
  proof (cases "cb_wrapped b")
    case True
    obtain q1 q2 where q: "q = q1 @ q2" "q1 \<noteq> []" "cb_start b + extent q1 = cb_wrap b" "extent q2 = cb_end b"
      "cb_end b \<le> cb_start b" "cb_size b \<le> cb_wrap b + cb_mtu b"
      "chunks_at (cb_mem b) (cb_size b - 1 - cb_mtu b) (cb_start b) q1" "1 + cb_mtu b \<le> cb_size b"
      using d True by (auto simp: cb_data_def)
    have "cb_start b \<le> cb_size b - 1 - cb_mtu b" using q(2,7) by (cases q1) auto
    then have e: "cb_end b + 1 + cb_mtu b \<le> cb_size b" using q(5,8) by linarith
    have "extent q \<le> length q * (1 + cb_mtu b)" by (rule extent_bound [OF small])
    also have "\<dots> \<le> (num - 1) * (1 + cb_mtu b)" using n(1) by (intro mult_le_mono1) simp
    finally have "extent q + 2 * (1 + cb_mtu b) \<le> cb_size b"
      using n by (cases num) (auto simp: algebra_simps)
    then have "cb_end b + 2 + cb_mtu b \<le> cb_start b" using q(1,3,4,6) by simp
    then show ?thesis using True e by (simp add: in_free_def)
  next
    case False
    then have "cb_start b + cb_used b + 1 + cb_mtu b \<le> cb_size b" using d by (simp add: cb_data_def)
    then show ?thesis using False by (simp add: in_free_def cb_end_def)
  qed
  moreover have "input_dest b = input_dest (cb_update_input b)" "input_avail b = input_avail (cb_update_input b)"
    by (simp_all add: u)
  ultimately show ?thesis by (simp add: cb_update_input_eq)
qed

lemma cb_init_inv:
  assumes "length mem = 4 * blocks" "1 + bdivide_up mtu 4 \<le> blocks" "blocks < 2 ^ 29"
  shows "cb_inv (ChunkBuffer2_Init mem blocks mtu) []"
  using assms by (simp add: cb_inv_def ChunkBuffer2_Init_def) (simp add: cb_data_def)

section \<open>The component between a source and a sink\<close>

text \<open>
  \<open>ps_recv\<close>: the source has been asked for a packet; \<open>ps_send\<close>: the sink has a packet and is not done;
  \<open>ps_out\<close>: the packets given to the sink so far.
\<close>

record pb_sys =
  ps_pb :: PacketBuffer
  ps_recv :: bool
  ps_send :: bool
  ps_out :: "bytes list"

datatype pb_event = Arrive bytes | Finish

fun pb_apply :: "pb_call \<Rightarrow> pb_sys \<Rightarrow> pb_sys" where
  "pb_apply (PbRecv a) s = s\<lparr>ps_recv := True\<rparr>"
| "pb_apply (PbSend a n) s = s\<lparr>ps_send := True,
     ps_out := ps_out s @ [mem_read (cb_mem (pb_buf (ps_pb s))) (case a of None \<Rightarrow> 0 | Some x \<Rightarrow> x) (nat n)]\<rparr>"

fun pb_step :: "pb_sys \<Rightarrow> pb_event \<Rightarrow> pb_sys option" where
  "pb_step s (Arrive p) =
     (if ps_recv s \<and> int (length p) \<le> pb_input_mtu (ps_pb s)
      then (case pb_input_handler_done ((ps_pb s)\<lparr>pb_buf := cb_put (pb_buf (ps_pb s)) p\<rparr>) (length p) of
              (calls, pb) \<Rightarrow> Some (fold pb_apply calls (s\<lparr>ps_pb := pb, ps_recv := False\<rparr>)))
      else None)"
| "pb_step s Finish =
     (if ps_send s
      then (case pb_output_handler_done (ps_pb s) of
              (calls, pb) \<Rightarrow> Some (fold pb_apply calls (s\<lparr>ps_pb := pb, ps_send := False\<rparr>)))
      else None)"

fun pb_exec :: "pb_sys \<Rightarrow> pb_event list \<Rightarrow> pb_sys option" where
  "pb_exec s [] = Some s"
| "pb_exec s (ev # evs) = (case pb_step s ev of None \<Rightarrow> None | Some s' \<Rightarrow> pb_exec s' evs)"

fun arrivals :: "pb_event list \<Rightarrow> bytes list" where
  "arrivals [] = []"
| "arrivals (Arrive p # es) = p # arrivals es"
| "arrivals (Finish # es) = arrivals es"

definition pb_start :: "nat \<Rightarrow> nat \<Rightarrow> (nat \<Rightarrow> bytes option) \<Rightarrow> pb_sys option" where
  "pb_start mtu num alloc =
     (case PacketBuffer_Init mtu num alloc of
        None \<Rightarrow> None
      | Some (calls, pb) \<Rightarrow> Some (fold pb_apply calls \<lparr>ps_pb = pb, ps_recv = False, ps_send = False, ps_out = []\<rparr>))"

definition pb_inv :: "nat \<Rightarrow> nat \<Rightarrow> pb_sys \<Rightarrow> bytes list \<Rightarrow> bytes list \<Rightarrow> bool" where
  "pb_inv mtu num s ins q \<longleftrightarrow> cb_inv (pb_buf (ps_pb s)) q \<and> pb_input_mtu (ps_pb s) = int mtu \<and>
     cb_mtu (pb_buf (ps_pb s)) = bdivide_up mtu 4 \<and>
     cb_size (pb_buf (ps_pb s)) = (1 + bdivide_up mtu 4) * (num + 1) \<and>
     list_all (\<lambda>p. length p \<le> mtu) q \<and>
     (ps_recv s \<longleftrightarrow> input_avail (pb_buf (ps_pb s)) \<ge> int mtu) \<and> (ps_send s \<longleftrightarrow> q \<noteq> []) \<and>
     ins = ps_out s @ tl q"

lemma bdivide_mono: "a \<le> b \<Longrightarrow> bdivide_up a 4 \<le> bdivide_up b 4"
  by (simp add: bdivide_up_def div_le_mono)

lemma consume_keeps [simp]:
  "cb_mtu (ChunkBuffer2_ConsumePacket b) = cb_mtu b" "cb_size (ChunkBuffer2_ConsumePacket b) = cb_size b"
  by (simp_all add: ChunkBuffer2_ConsumePacket_def Let_def cb_update_input_eq cb_update_output_eq)

lemma submit_keeps [simp]:
  "cb_mtu (cb_submit b p) = cb_mtu b" "cb_size (cb_submit b p) = cb_size b"
  by (simp_all add: cb_submit_def ChunkBuffer2_SubmitPacket_def Let_def cb_update_input_eq cb_update_output_eq
      set_block_len_def cb_put_def)

lemma in_avail_dest: "cb_inv b q \<Longrightarrow> input_avail b \<ge> 0 \<Longrightarrow> input_dest b \<noteq> None"
proof -
  assume "cb_inv b q" "input_avail b \<ge> 0"
  then have "input_dest b = input_dest (cb_update_input b)" "input_avail (cb_update_input b) \<ge> 0"
    by (simp_all add: cb_inv_def)
  then show ?thesis by (auto simp: cb_update_input_eq split: if_splits)
qed

lemma in_avail_free: "cb_inv b q \<Longrightarrow> input_avail b = (if in_free b > 0 then (in_free b - 1) * 4 else - 1)"
proof -
  assume "cb_inv b q"
  then have "input_avail b = input_avail (cb_update_input b)" by (simp add: cb_inv_def)
  then show ?thesis by (simp add: cb_update_input_eq)
qed

lemma consume_free:
  assumes inv: "cb_inv b (p # q)"
  shows "in_free b \<le> in_free (ChunkBuffer2_ConsumePacket b)"
proof -
  define b1 where "b1 = b\<lparr>cb_start := cb_start b + nblocks p, cb_used := cb_used b - nblocks p\<rparr>"
  define b2 where "b2 = (if cb_start b1 = cb_wrap b1 then b1\<lparr>cb_start := 0, cb_wrap := cb_size b1\<rparr> else b1)"
  have d: "cb_data b (p # q)" using inv by (simp add: cb_inv_def)
  have "ChunkBuffer2_ConsumePacket b = cb_update_output (if cb_wrapped b then cb_update_input b2 else b2)"
    using cb_data_head(1) [OF d] by (simp add: ChunkBuffer2_ConsumePacket_def Let_def b2_def b1_def nblocks_def)
  then have eq: "in_free (ChunkBuffer2_ConsumePacket b) = in_free b2"
    by (simp add: cb_update_input_eq cb_update_output_eq)
  have "in_free b \<le> in_free b2"
  proof (cases "cb_wrapped b")
    case True
    obtain q1 q2 where q: "p # q = q1 @ q2" "q1 \<noteq> []" "cb_start b + extent q1 = cb_wrap b"
      "cb_end b \<le> cb_start b" "cb_start b < cb_wrap b" "cb_wrap b \<le> cb_size b"
      using d True by (auto simp: cb_data_def)
    have n: "cb_start b + nblocks p \<le> cb_wrap b" using q(1-3) by (cases q1) auto
    have e: "cb_end b = cb_used b - (cb_wrap b - cb_start b)" using True by (simp add: cb_end_def)
    show ?thesis
    proof (cases "cb_start b1 = cb_wrap b1")
      case s: True
      have b2: "b2 = b1\<lparr>cb_start := 0, cb_wrap := cb_size b1\<rparr>" using s by (simp add: b2_def)
      have "cb_used b2 = cb_end b" "cb_size b2 = cb_size b" "cb_start b2 = 0" "cb_wrap b2 = cb_size b" "cb_mtu b2 = cb_mtu b"
        using s e by (auto simp: b2 b1_def)
      then have "cb_end b2 = cb_end b" "\<not> cb_wrapped b2" using q by (auto simp: cb_end_def [of b2])
      then show ?thesis using \<open>cb_size b2 = cb_size b\<close> \<open>cb_mtu b2 = cb_mtu b\<close> q True by (auto simp: in_free_def)
    next
      case False
      then have "b2 = b1" by (simp add: b2_def)
      moreover have "cb_wrapped b1" "cb_end b1 = cb_end b" using True n e by (auto simp: b1_def cb_end_def)
      ultimately show ?thesis using True by (simp add: in_free_def) (simp add: b1_def)
    qed
  next
    case False
    note c = consume_data(2) [OF d False, folded b1_def]
    then have "b2 = b1" by (simp add: b2_def)
    then show ?thesis using c False by (simp add: in_free_def) (simp add: b1_def)
  qed
  then show ?thesis by (simp add: eq)
qed

lemma cb_front_send:
  "cb_inv b (p # q) \<Longrightarrow>
   mem_read (cb_mem b) (case output_dest b of None \<Rightarrow> 0 | Some x \<Rightarrow> x) (nat (output_avail b)) = p"
  using cb_front_head [of b "p # q"] by (auto simp: cb_front_def split: option.splits)

lemma pb_arrive:
  assumes inv: "pb_inv mtu num s ins q" and st: "pb_step s (Arrive p) = Some s'"
  shows "\<exists>q'. pb_inv mtu num s' (ins @ [p]) q'"
proof -
  let ?b = "pb_buf (ps_pb s)"
  have i: "cb_inv ?b q" "ps_recv s" "length p \<le> mtu" "input_avail ?b \<ge> int mtu" "pb_input_mtu (ps_pb s) = int mtu"
    using inv st by (auto simp: pb_inv_def split: if_splits)
  have can: "cb_can ?b p" using i in_avail_dest [OF i(1)] by (simp add: cb_can_def)
  let ?b' = "cb_submit ?b p"
  have inv': "cb_inv ?b' (q @ [p])" by (rule cb_submit_inv [OF i(1) can])
  have oa: "output_avail (cb_put ?b p) < 0 \<longleftrightarrow> q = []"
    using cb_output(2) [OF i(1)] by (cases q) (auto simp: cb_put_def)
  have "pb_input_handler_done ((ps_pb s)\<lparr>pb_buf := cb_put ?b p\<rparr>) (length p) =
      ((if input_avail ?b' \<ge> int mtu then [PbRecv (input_dest ?b')] else []) @
       (if q = [] then [PbSend (output_dest ?b') (output_avail ?b')] else []), (ps_pb s)\<lparr>pb_buf := ?b'\<rparr>)"
    by (simp add: pb_input_handler_done_def Let_def oa i(5) flip: cb_submit_def)
  then have "pb_inv mtu num s' (ins @ [p]) (q @ [p])"
    using inv st inv' i(2,3,5) cb_front_send [of ?b' p "[]"]
    by (cases q; cases "input_avail ?b' \<ge> int mtu") (auto simp: pb_inv_def)
  then show ?thesis ..
qed

lemma pb_finish:
  assumes inv: "pb_inv mtu num s ins q" and st: "pb_step s Finish = Some s'"
  shows "\<exists>q'. pb_inv mtu num s' ins q'"
proof -
  let ?b = "pb_buf (ps_pb s)"
  obtain p q' where q: "q = p # q'" using inv st by (cases q) (auto simp: pb_inv_def)
  have i: "cb_inv ?b (p # q')" "pb_input_mtu (ps_pb s) = int mtu" using inv by (auto simp: pb_inv_def q)
  let ?b' = "ChunkBuffer2_ConsumePacket ?b"
  have inv': "cb_inv ?b' q'" by (rule cb_consume_inv [OF i(1)])
  have oa: "output_avail ?b' \<ge> 0 \<longleftrightarrow> q' \<noteq> []" using cb_output(2) [OF inv'] by (cases q') auto
  have calls: "pb_output_handler_done (ps_pb s) =
      ((if input_avail ?b < int mtu \<and> input_avail ?b' \<ge> int mtu then [PbRecv (input_dest ?b')] else []) @
       (if q' \<noteq> [] then [PbSend (output_dest ?b') (output_avail ?b')] else []), (ps_pb s)\<lparr>pb_buf := ?b'\<rparr>)"
    by (simp add: pb_output_handler_done_def Let_def oa i(2))
  have grow: "input_avail ?b \<ge> int mtu \<Longrightarrow> input_avail ?b' \<ge> int mtu"
    using in_avail_free [OF i(1)] in_avail_free [OF inv'] consume_free [OF i(1)] by (auto split: if_splits)
  have "pb_inv mtu num s' ins q'"
    using inv st inv' calls grow cb_front_send [of ?b']
    by (cases q'; cases "input_avail ?b \<ge> int mtu"; cases "input_avail ?b' \<ge> int mtu") (auto simp: pb_inv_def q)
  then show ?thesis ..
qed

lemma pb_exec_inv:
  "pb_inv mtu num s ins q \<Longrightarrow> pb_exec s evs = Some s' \<Longrightarrow> \<exists>q'. pb_inv mtu num s' (ins @ arrivals evs) q'"
proof (induction evs arbitrary: s ins q)
  case Nil
  then show ?case by auto
next
  case (Cons ev evs)
  obtain s1 where s1: "pb_step s ev = Some s1" "pb_exec s1 evs = Some s'"
    using Cons.prems(2) by (auto split: option.splits)
  show ?case
  proof (cases ev)
    case (Arrive p)
    then obtain q1 where "pb_inv mtu num s1 (ins @ [p]) q1" using pb_arrive [OF Cons.prems(1)] s1(1) by blast
    from Cons.IH [OF this s1(2)] show ?thesis by (simp add: Arrive)
  next
    case Finish
    then obtain q1 where "pb_inv mtu num s1 ins q1" using pb_finish [OF Cons.prems(1)] s1(1) by blast
    from Cons.IH [OF this s1(2)] show ?thesis by (simp add: Finish)
  qed
qed

lemma pb_start_inv:
  assumes "pb_start mtu num alloc = Some s" "\<And>n m. alloc n = Some m \<Longrightarrow> length m = 4 * n"
    "ChunkBuffer2_calc_blocks mtu num < 2 ^ 29" "0 < num"
  shows "pb_inv mtu num s [] []"
proof -
  let ?n = "ChunkBuffer2_calc_blocks mtu num"
  have init: "\<not> ?n < 0" using assms(1) by (auto simp: pb_start_def PacketBuffer_Init_def Let_def split: if_splits)
  then have n: "?n = int ((1 + bdivide_up mtu 4) * (num + 1))"
    by (auto simp: ChunkBuffer2_calc_blocks_def Let_def algebra_simps split: if_splits)
  have nn: "nat ?n = (1 + bdivide_up mtu 4) * (num + 1)" unfolding n by (rule nat_int)
  obtain mem where m: "alloc (nat ?n) = Some mem" and s: "s = fold pb_apply [PbRecv (input_dest (ChunkBuffer2_Init mem (nat ?n) mtu))]
      \<lparr>ps_pb = \<lparr>pb_buf = ChunkBuffer2_Init mem (nat ?n) mtu, pb_input_mtu = int mtu\<rparr>, ps_recv = False, ps_send = False, ps_out = []\<rparr>"
    using assms(1) init by (auto simp: pb_start_def PacketBuffer_Init_def Let_def split: option.splits)
  let ?b = "ChunkBuffer2_Init mem (nat ?n) mtu"
  have inv: "cb_inv ?b []"
  proof (rule cb_init_inv [OF assms(2) [OF m]])
    show "1 + bdivide_up mtu 4 \<le> nat ?n" unfolding nn by simp
    show "nat ?n < 2 ^ 29" using assms(3) by simp
  qed
  have b: "cb_mtu ?b = bdivide_up mtu 4" "cb_size ?b = (1 + bdivide_up mtu 4) * (num + 1)"
    by (simp_all add: ChunkBuffer2_Init_def cb_update_input_eq cb_update_output_eq nn)
  have "int mtu \<le> 4 * int (bdivide_up mtu 4)" by (simp add: bdivide_up_def)
  also have "\<dots> \<le> input_avail ?b" using cb_room [OF inv, of num] b assms(4) by simp
  finally show ?thesis using inv b by (simp add: s pb_inv_def)
qed

section \<open>Properties\<close>

text \<open>
  C11. The chunk buffer is a queue. From a well-formed buffer that holds \<open>q\<close>, any sequence of submits
  that fit and consumes, with whatever wrap-around it causes, returns the packets in the order they
  were put in, unchanged, and ends in a well-formed buffer that holds the rest.
\<close>

theorem chunk_buffer_fifo:
  assumes "cb_inv b q" "cq.queue_run b ops = Some (ps, b')"
  shows "\<exists>q'. cb_inv b' q' \<and> q @ puts ops = ps @ q'"
  using assms by (rule cq.fifo)

theorem chunk_buffer_fifo_witness:
  "\<exists>ps b' q'. cq.queue_run (ChunkBuffer2_Init (replicate 48 0) 12 5) [Put [1, 2, 3, 4, 5], Put [6], Get] = Some (ps, b') \<and>
     cb_inv b' q' \<and> [[1, 2, 3, 4, 5], [6]] = ps @ q'"
proof -
  let ?b = "ChunkBuffer2_Init (replicate 48 0) 12 5"
  have inv: "cb_inv ?b []" by (rule cb_init_inv) (simp_all add: bdivide_up_def)
  have c: "cb_can ?b [1, 2, 3, 4, 5]" "cb_can (cb_submit ?b [1, 2, 3, 4, 5]) [6]" by code_simp+
  have "cb_inv (cb_submit (cb_submit ?b [1, 2, 3, 4, 5]) [6]) [[1, 2, 3, 4, 5], [6]]"
    using cb_submit_inv [OF cb_submit_inv [OF inv c(1)] c(2)] by simp
  from cb_front_head [OF this]
  obtain ps b' where r: "cq.queue_run ?b [Put [1, 2, 3, 4, 5], Put [6], Get] = Some (ps, b')"
    using c by simp
  from chunk_buffer_fifo [OF inv r] r show ?thesis by auto
qed

text \<open>
  The packet buffer between a source and a sink. It is started for \<open>num\<close> packets of at most \<open>mtu\<close>
  bytes; the source delivers packets when asked, the sink finishes the packet it was given, in any
  order. Then the packets given to the sink are a prefix of those that arrived, unchanged and in
  order; when the sink is idle all of them have been given to it and the source has been asked for
  more; and the source is asked whenever fewer than \<open>num\<close> packets are held.
\<close>

theorem packet_buffer_order:
  assumes "pb_start mtu num alloc = Some s" "\<And>n m. alloc n = Some m \<Longrightarrow> length m = 4 * n"
    "ChunkBuffer2_calc_blocks mtu num < 2 ^ 29" "0 < num" "pb_exec s evs = Some s'"
  shows "\<exists>rest. arrivals evs = ps_out s' @ rest \<and> (\<not> ps_send s' \<longrightarrow> rest = [] \<and> ps_recv s') \<and>
    (length rest + (if ps_send s' then 1 else 0) < num \<longrightarrow> ps_recv s')"
proof -
  obtain q where inv: "pb_inv mtu num s' (arrivals evs) q"
    using pb_exec_inv [OF pb_start_inv [OF assms(1-4)] assms(5)] by auto
  let ?b = "pb_buf (ps_pb s')"
  have d: "cb_inv ?b q" "cb_mtu ?b = bdivide_up mtu 4" "cb_size ?b = (1 + cb_mtu ?b) * (num + 1)"
    "list_all (\<lambda>p. length p \<le> mtu) q" "ps_recv s' \<longleftrightarrow> input_avail ?b \<ge> int mtu" "ps_send s' \<longleftrightarrow> q \<noteq> []"
    "arrivals evs = ps_out s' @ tl q"
    using inv by (auto simp: pb_inv_def)
  have small: "list_all (\<lambda>p. nblocks p \<le> 1 + cb_mtu ?b) q"
    using d(2,4) bdivide_mono by (auto simp: list_all_iff nblocks_def)
  have "int mtu \<le> 4 * int (cb_mtu ?b)" by (simp add: d(2) bdivide_up_def)
  then have "length q < num \<Longrightarrow> ps_recv s'" using cb_room [OF d(1) small _ d(3)] d(5) by auto
  moreover have "length (tl q) + (if ps_send s' then 1 else 0) = length q" using d(6) by (cases q) auto
  ultimately show ?thesis using d(6,7) assms(4) by (intro exI [of _ "tl q"]) auto
qed

theorem packet_buffer_order_witness:
  "\<exists>s s' rest. pb_start 5 2 (\<lambda>n. Some (replicate (4 * n) 0)) = Some s \<and> pb_exec s [Arrive [1, 2], Arrive [3], Finish] = Some s' \<and>
     [[1, 2], [3]] = ps_out s' @ rest"
proof -
  obtain s where s: "pb_start 5 2 (\<lambda>n. Some (replicate (4 * n) 0)) = Some s"
    by (simp add: pb_start_def PacketBuffer_Init_def Let_def ChunkBuffer2_calc_blocks_def bdivide_up_def INT_MAX_def)
  have "pb_exec (the (pb_start 5 2 (\<lambda>n. Some (replicate (4 * n) 0)))) [Arrive [1, 2], Arrive [3], Finish] \<noteq> None"
    by code_simp
  then obtain s' where s': "pb_exec s [Arrive [1, 2], Arrive [3], Finish] = Some s'" using s by auto
  show ?thesis
    using packet_buffer_order [OF s _ _ _ s'] s s'
    by (auto simp: ChunkBuffer2_calc_blocks_def bdivide_up_def INT_MAX_def Let_def)
qed

end
