(* ===== verification/Socks_Client.thy ===== *)
theory Socks_Client
  imports Tunnel_Prelude
begin

text \<open>
  The SOCKS5 client of tun2socks (\<open>socksclient/BSocksClient.c\<close>, \<open>misc/socks_proto.h\<close>,
  \<open>misc/bsize.h\<close>). A handler takes the client and returns the call it makes on its environment
  (receive into the buffer, send a message, report an event) and the new client. The allocator is an
  argument: \<open>realloc old n\<close> is the new block, or None for NULL. The assertions of the source are
  compiled out (NDEBUG): a failing one does nothing here either. Addresses and ports are kept as the
  code keeps them, in network byte order in host words; the byte image is that of a little-endian
  host, which every Android ABI is.
\<close>

section \<open>Sizes with overflow\<close>

text \<open>\<open>size_t\<close> of the 32-bit ABIs, the narrower of the two the program is built for.\<close>

definition SIZE_MAX :: nat where
  "SIZE_MAX = 2 ^ 32 - 1"

record bsize =
  is_overflow :: bool
  bs_value :: nat

definition bsize_fromsize :: "nat \<Rightarrow> bsize" where
  "bsize_fromsize v = \<lparr>is_overflow = False, bs_value = v\<rparr>"

definition bsize_add :: "bsize \<Rightarrow> bsize \<Rightarrow> bsize" where
  "bsize_add s1 s2 =
     \<lparr>is_overflow = (is_overflow s1 \<or> is_overflow s2 \<or> bs_value s2 > SIZE_MAX - bs_value s1),
      bs_value = (bs_value s1 + bs_value s2) mod (SIZE_MAX + 1)\<rparr>"

definition bsize_max :: "bsize \<Rightarrow> bsize \<Rightarrow> bsize" where
  "bsize_max s1 s2 =
     \<lparr>is_overflow = (is_overflow s1 \<or> is_overflow s2),
      bs_value = (if bs_value s1 > bs_value s2 then bs_value s1 else bs_value s2)\<rparr>"

definition bsize_mul :: "bsize \<Rightarrow> bsize \<Rightarrow> bsize" where
  "bsize_mul s1 s2 =
     \<lparr>is_overflow = (is_overflow s1 \<or> is_overflow s2 \<or>
        (bs_value s1 \<noteq> 0 \<and> bs_value s2 > SIZE_MAX div bs_value s1)),
      bs_value = (bs_value s1 * bs_value s2) mod (SIZE_MAX + 1)\<rparr>"

section \<open>Addresses\<close>

text \<open>The union of the struct is kept as separate fields; only those selected by the type are read.\<close>

record BAddr =
  addr_type :: nat
  ipv4_ip :: u32
  ipv4_port :: u16
  ipv6_ip :: bytes
  ipv6_port :: u16

definition BADDR_TYPE_IPV4 :: nat where "BADDR_TYPE_IPV4 = 1"
definition BADDR_TYPE_IPV6 :: nat where "BADDR_TYPE_IPV6 = 2"

definition SOCKS_VERSION :: u8 where "SOCKS_VERSION = 5"
definition SOCKS_METHOD_NO_AUTHENTICATION_REQUIRED :: nat where "SOCKS_METHOD_NO_AUTHENTICATION_REQUIRED = 0"
definition SOCKS_METHOD_USERNAME_PASSWORD :: nat where "SOCKS_METHOD_USERNAME_PASSWORD = 2"
definition SOCKS_CMD_CONNECT :: u8 where "SOCKS_CMD_CONNECT = 1"
definition SOCKS_CMD_UDP_ASSOCIATE :: u8 where "SOCKS_CMD_UDP_ASSOCIATE = 3"
definition SOCKS_ATYP_IPV4 :: u8 where "SOCKS_ATYP_IPV4 = 1"
definition SOCKS_ATYP_IPV6 :: u8 where "SOCKS_ATYP_IPV6 = 4"
definition SOCKS_REP_SUCCEEDED :: u8 where "SOCKS_REP_SUCCEEDED = 0"

lemmas socks_consts = BADDR_TYPE_IPV4_def BADDR_TYPE_IPV6_def SOCKS_VERSION_def
  SOCKS_METHOD_NO_AUTHENTICATION_REQUIRED_def SOCKS_METHOD_USERNAME_PASSWORD_def SOCKS_CMD_CONNECT_def
  SOCKS_CMD_UDP_ASSOCIATE_def SOCKS_ATYP_IPV4_def SOCKS_ATYP_IPV6_def SOCKS_REP_SUCCEEDED_def

section \<open>The client\<close>

text \<open>A name and its length are one byte list.\<close>

record auth_info =
  auth_type :: nat
  username :: bytes
  password :: bytes

definition BSocksClient_auth_none :: auth_info where
  "BSocksClient_auth_none =
     \<lparr>auth_type = SOCKS_METHOD_NO_AUTHENTICATION_REQUIRED, username = [], password = []\<rparr>"

definition BSocksClient_auth_password :: "bytes \<Rightarrow> bytes \<Rightarrow> auth_info" where
  "BSocksClient_auth_password u p =
     \<lparr>auth_type = SOCKS_METHOD_USERNAME_PASSWORD, username = u, password = p\<rparr>"

datatype socks_state =
    STATE_CONNECTING | STATE_CONNECTED_HANDLER | STATE_SENDING_HELLO | STATE_SENT_HELLO
  | STATE_SENDING_PASSWORD | STATE_SENT_PASSWORD | STATE_SENDING_REQUEST | STATE_SENT_REQUEST
  | STATE_RECEIVED_REPLY_HEADER | STATE_UP

datatype socks_event =
    BSOCKSCLIENT_EVENT_ERROR | BSOCKSCLIENT_EVENT_UP | BSOCKSCLIENT_EVENT_ERROR_CLOSED
  | BSOCKSCLIENT_EVENT_CONNECTED

text \<open>Which input and output interfaces of the connection are initialised.\<close>

datatype con_io = NoIo | ControlIo | UpIo

record BSocksClient =
  sc_auth_info :: "auth_info list"
  sc_dest_addr :: BAddr
  sc_udp :: bool
  sc_bind_addr :: BAddr
  sc_state :: socks_state
  sc_buffer :: "bytes option"
  sc_con :: bool  \<comment> \<open>the connection object is initialised\<close>
  sc_io :: con_io
  sc_continue_job :: bool
  recv_dest :: nat  \<comment> \<open>an offset of the buffer\<close>
  recv_len :: nat
  recv_total :: nat

datatype sc_call =
    ScRecv nat nat  \<comment> \<open>receive at an offset of the buffer, at most so many bytes\<close>
  | ScSend bytes  \<comment> \<open>send this message\<close>
  | ScEvent socks_event  \<comment> \<open>call the user's handler\<close>
  | ScNothing
  | ScUndefined  \<comment> \<open>the code would send an uninitialised byte\<close>

type_synonym allocator = "bytes option \<Rightarrow> nat \<Rightarrow> bytes option"

definition report_error :: "BSocksClient \<Rightarrow> socks_event \<Rightarrow> sc_call \<times> BSocksClient" where
  "report_error c e = (ScEvent e, c)"

definition init_control_io :: "BSocksClient \<Rightarrow> BSocksClient" where
  "init_control_io c = c\<lparr>sc_io := ControlIo\<rparr>"

definition free_control_io :: "BSocksClient \<Rightarrow> BSocksClient" where
  "free_control_io c = c\<lparr>sc_io := NoIo\<rparr>"

definition init_up_io :: "BSocksClient \<Rightarrow> BSocksClient" where
  "init_up_io c = c\<lparr>sc_io := UpIo\<rparr>"

definition free_up_io :: "BSocksClient \<Rightarrow> BSocksClient" where
  "free_up_io c = c\<lparr>sc_io := NoIo\<rparr>"

definition BRealloc :: "allocator \<Rightarrow> bytes option \<Rightarrow> nat \<Rightarrow> bytes option" where
  "BRealloc realloc m n = (if n = 0 then realloc m 1 else realloc m n)"

definition reserve_buffer :: "allocator \<Rightarrow> BSocksClient \<Rightarrow> bsize \<Rightarrow> BSocksClient option" where
  "reserve_buffer realloc c sz =
     (if is_overflow sz then None
      else case BRealloc realloc (sc_buffer c) (bs_value sz) of
             None \<Rightarrow> None
           | Some b \<Rightarrow> Some (c\<lparr>sc_buffer := Some b\<rparr>))"

definition do_receive :: "BSocksClient \<Rightarrow> sc_call" where
  "do_receive c = ScRecv (recv_dest c + recv_len c) (recv_total c - recv_len c)"

definition start_receive :: "BSocksClient \<Rightarrow> nat \<Rightarrow> nat \<Rightarrow> sc_call \<times> BSocksClient" where
  "start_receive c dest tot =
     (let c1 = c\<lparr>recv_dest := dest, recv_len := 0, recv_total := tot\<rparr> in (do_receive c1, c1))"

text \<open>\<open>con_ok\<close>: whether \<open>BConnection_Init\<close> succeeds.\<close>

definition connector_handler :: "bool \<Rightarrow> BSocksClient \<Rightarrow> bool \<Rightarrow> sc_call \<times> BSocksClient" where
  "connector_handler con_ok c is_error =
     (if is_error then report_error c BSOCKSCLIENT_EVENT_ERROR
      else if \<not> con_ok then report_error c BSOCKSCLIENT_EVENT_ERROR
      else let c1 = init_control_io (c\<lparr>sc_con := True\<rparr>)
           in (ScEvent BSOCKSCLIENT_EVENT_CONNECTED,
               c1\<lparr>sc_state := STATE_CONNECTED_HANDLER, sc_continue_job := True\<rparr>))"

text \<open>\<open>recvclosed\<close>: the event is \<open>BCONNECTION_EVENT_RECVCLOSED\<close>.\<close>

definition connection_handler :: "BSocksClient \<Rightarrow> bool \<Rightarrow> sc_call \<times> BSocksClient" where
  "connection_handler c recvclosed =
     (if sc_state c = STATE_UP \<and> recvclosed then report_error c BSOCKSCLIENT_EVENT_ERROR_CLOSED
      else report_error c BSOCKSCLIENT_EVENT_ERROR)"

fun write_methods :: "bytes \<Rightarrow> nat \<Rightarrow> auth_info list \<Rightarrow> bytes" where
  "write_methods b i [] = b"
| "write_methods b i (a # as) = write_methods (mem_write b (2 + i) [of_nat (auth_type a)]) (i + 1) as"

text \<open>\<open>the (sc_buffer c)\<close>: the block just reserved.\<close>

definition continue_job_handler :: "allocator \<Rightarrow> BSocksClient \<Rightarrow> sc_call \<times> BSocksClient" where
  "continue_job_handler realloc c =
     (let num_auth_info = length (sc_auth_info c)
      in if num_auth_info = 0 \<or> num_auth_info > 255 then report_error c BSOCKSCLIENT_EVENT_ERROR
         else let size = bsize_add (bsize_fromsize 2) (bsize_mul (bsize_fromsize num_auth_info) (bsize_fromsize 1))
              in case reserve_buffer realloc c size of
                   None \<Rightarrow> report_error c BSOCKSCLIENT_EVENT_ERROR
                 | Some c1 \<Rightarrow>
                     (let b1 = mem_write (the (sc_buffer c1)) 0 [SOCKS_VERSION, of_nat num_auth_info];
                          b2 = write_methods b1 0 (sc_auth_info c)
                      in (ScSend (mem_read b2 0 (bs_value size)),
                          c1\<lparr>sc_buffer := Some b2, sc_state := STATE_SENDING_HELLO\<rparr>)))"

text \<open>
  For an address that is neither IPv4 nor IPv6 the source would send an uninitialised type byte.
\<close>

definition auth_finished :: "allocator \<Rightarrow> BSocksClient \<Rightarrow> sc_call \<times> BSocksClient" where
  "auth_finished realloc c =
     (let dest = sc_dest_addr c;
          sz0 = bsize_fromsize 4;
          sz = (if addr_type dest = BADDR_TYPE_IPV4 then bsize_add sz0 (bsize_fromsize 6)
                else if addr_type dest = BADDR_TYPE_IPV6 then bsize_add sz0 (bsize_fromsize 18)
                else sz0)
      in case reserve_buffer realloc c sz of
           None \<Rightarrow> report_error c BSOCKSCLIENT_EVENT_ERROR
         | Some c1 \<Rightarrow>
             (let b = the (sc_buffer c1);
                  cmd = (if sc_udp c then SOCKS_CMD_UDP_ASSOCIATE else SOCKS_CMD_CONNECT)
              in if addr_type dest \<noteq> BADDR_TYPE_IPV4 \<and> addr_type dest \<noteq> BADDR_TYPE_IPV6
                 then (ScUndefined, c1)
                 else let (atyp, addr) =
                            (if addr_type dest = BADDR_TYPE_IPV4
                             then (SOCKS_ATYP_IPV4, le32 (ipv4_ip dest) @ le16 (ipv4_port dest))
                             else (SOCKS_ATYP_IPV6, ipv6_ip dest @ le16 (ipv6_port dest)));
                          b1 = mem_write b 4 addr;
                          b2 = mem_write b1 0 [SOCKS_VERSION, cmd, 0, atyp]
                      in (ScSend (mem_read b2 0 (bs_value sz)),
                          c1\<lparr>sc_buffer := Some b2, sc_state := STATE_SENDING_REQUEST\<rparr>)))"

text \<open>The cases of \<open>recv_handler_done\<close>, entered when the message is complete.\<close>

definition recv_hello :: "allocator \<Rightarrow> BSocksClient \<Rightarrow> sc_call \<times> BSocksClient" where
  "recv_hello realloc c =
     (let b = the (sc_buffer c)
      in if b ! 0 \<noteq> SOCKS_VERSION then report_error c BSOCKSCLIENT_EVENT_ERROR
         else case find (\<lambda>ai. auth_type ai = unat (b ! 1)) (sc_auth_info c) of
                None \<Rightarrow> report_error c BSOCKSCLIENT_EVENT_ERROR
              | Some ai \<Rightarrow>
                  (if auth_type ai = SOCKS_METHOD_NO_AUTHENTICATION_REQUIRED then auth_finished realloc c
                   else if auth_type ai = SOCKS_METHOD_USERNAME_PASSWORD
                   then let ulen = length (username ai); plen = length (password ai)
                        in if ulen = 0 \<or> ulen > 255 \<or> plen = 0 \<or> plen > 255
                           then report_error c BSOCKSCLIENT_EVENT_ERROR
                           else let sz = bsize_fromsize (1 + 1 + ulen + 1 + plen)
                                in case reserve_buffer realloc c sz of
                                     None \<Rightarrow> report_error c BSOCKSCLIENT_EVENT_ERROR
                                   | Some c1 \<Rightarrow>
                                       (let b1 = mem_write (the (sc_buffer c1)) 0 [1];
                                            b2 = mem_write b1 1 [of_nat ulen];
                                            b3 = mem_write b2 2 (username ai);
                                            b4 = mem_write b3 (2 + ulen) [of_nat plen];
                                            b5 = mem_write b4 (3 + ulen) (password ai)
                                        in (ScSend (mem_read b5 0 (bs_value sz)),
                                            c1\<lparr>sc_buffer := Some b5, sc_state := STATE_SENDING_PASSWORD\<rparr>))
                   else (ScNothing, c)))"

definition recv_reply_header :: "BSocksClient \<Rightarrow> sc_call \<times> BSocksClient" where
  "recv_reply_header c =
     (let b = the (sc_buffer c);
          rest = (\<lambda>t n. case start_receive (c\<lparr>sc_bind_addr := (sc_bind_addr c)\<lparr>addr_type := t\<rparr>\<rparr>) 4 n of
                          (call, c1) \<Rightarrow> (call, c1\<lparr>sc_state := STATE_RECEIVED_REPLY_HEADER\<rparr>))
      in if b ! 0 \<noteq> SOCKS_VERSION then report_error c BSOCKSCLIENT_EVENT_ERROR
         else if b ! 1 \<noteq> SOCKS_REP_SUCCEEDED then report_error c BSOCKSCLIENT_EVENT_ERROR
         else if b ! 3 = SOCKS_ATYP_IPV4 then rest BADDR_TYPE_IPV4 6
         else if b ! 3 = SOCKS_ATYP_IPV6 then rest BADDR_TYPE_IPV6 18
         else report_error c BSOCKSCLIENT_EVENT_ERROR)"

definition recv_password :: "allocator \<Rightarrow> BSocksClient \<Rightarrow> sc_call \<times> BSocksClient" where
  "recv_password realloc c =
     (let b = the (sc_buffer c)
      in if b ! 0 \<noteq> 1 then report_error c BSOCKSCLIENT_EVENT_ERROR
         else if b ! 1 \<noteq> 0 then report_error c BSOCKSCLIENT_EVENT_ERROR
         else auth_finished realloc c)"

definition recv_reply_rest :: "BSocksClient \<Rightarrow> sc_call \<times> BSocksClient" where
  "recv_reply_rest c =
     (let b = the (sc_buffer c);
          a = sc_bind_addr c;
          a1 = (if addr_type a = BADDR_TYPE_IPV4
                then a\<lparr>ipv4_ip := of_le32 (mem_read b 4 4), ipv4_port := of_le16 (mem_read b 8 2)\<rparr>
                else if addr_type a = BADDR_TYPE_IPV6
                then a\<lparr>ipv6_ip := mem_read b 4 16, ipv6_port := of_le16 (mem_read b 20 2)\<rparr>
                else a);
          c1 = init_up_io (free_control_io (c\<lparr>sc_bind_addr := a1, sc_buffer := None\<rparr>))
      in (ScEvent BSOCKSCLIENT_EVENT_UP, c1\<lparr>sc_state := STATE_UP\<rparr>))"

definition recv_complete :: "allocator \<Rightarrow> BSocksClient \<Rightarrow> sc_call \<times> BSocksClient" where
  "recv_complete realloc c =
     (case sc_state c of
        STATE_SENT_HELLO \<Rightarrow> recv_hello realloc c
      | STATE_SENT_REQUEST \<Rightarrow> recv_reply_header c
      | STATE_SENT_PASSWORD \<Rightarrow> recv_password realloc c
      | STATE_RECEIVED_REPLY_HEADER \<Rightarrow> recv_reply_rest c
      | _ \<Rightarrow> (ScNothing, c))"

definition recv_handler_done :: "allocator \<Rightarrow> BSocksClient \<Rightarrow> nat \<Rightarrow> sc_call \<times> BSocksClient" where
  "recv_handler_done realloc c data_len =
     (let c1 = c\<lparr>recv_len := recv_len c + data_len\<rparr>
      in if recv_len c1 < recv_total c1 then (do_receive c1, c1) else recv_complete realloc c1)"

definition send_handler_done :: "allocator \<Rightarrow> BSocksClient \<Rightarrow> sc_call \<times> BSocksClient" where
  "send_handler_done realloc c =
     (let receive = (\<lambda>sz n st.
        case reserve_buffer realloc c sz of
          None \<Rightarrow> report_error c BSOCKSCLIENT_EVENT_ERROR
        | Some c1 \<Rightarrow> (case start_receive c1 0 n of (call, c2) \<Rightarrow> (call, c2\<lparr>sc_state := st\<rparr>)))
      in case sc_state c of
           STATE_SENDING_HELLO \<Rightarrow> receive (bsize_fromsize 2) 2 STATE_SENT_HELLO
         | STATE_SENDING_REQUEST \<Rightarrow>
             receive (bsize_add (bsize_fromsize 4) (bsize_max (bsize_fromsize 6) (bsize_fromsize 18))) 4 STATE_SENT_REQUEST
         | STATE_SENDING_PASSWORD \<Rightarrow> receive (bsize_fromsize 2) 2 STATE_SENT_PASSWORD
         | _ \<Rightarrow> (ScNothing, c))"

text \<open>\<open>connector_ok\<close>: whether \<open>BConnector_Init\<close> succeeds; \<open>c0\<close>: the memory of the object before.\<close>

definition BSocksClient_Init :: "BSocksClient \<Rightarrow> auth_info list \<Rightarrow> BAddr \<Rightarrow> bool \<Rightarrow> bool \<Rightarrow> BSocksClient option" where
  "BSocksClient_Init c0 auths dest u connector_ok =
     (let c = c0\<lparr>sc_auth_info := auths, sc_dest_addr := dest, sc_udp := u, sc_buffer := None,
                 sc_continue_job := False, sc_con := False, sc_io := NoIo\<rparr>
      in if \<not> connector_ok then None else Some (c\<lparr>sc_state := STATE_CONNECTING\<rparr>))"

text \<open>What \<open>BSocksClient_Free\<close> releases, in its order.\<close>

datatype sc_res = ResUpIo | ResControlIo | ResConnection | ResConnector | ResContinueJob | ResBuffer

definition BSocksClient_Free :: "BSocksClient \<Rightarrow> sc_res list" where
  "BSocksClient_Free c =
     (if sc_state c \<noteq> STATE_CONNECTING
      then (if sc_state c = STATE_UP then [ResUpIo] else [ResControlIo]) @ [ResConnection]
      else []) @ [ResConnector, ResContinueJob] @ (if sc_buffer c \<noteq> None then [ResBuffer] else [])"

definition BSocksClient_SetDestAddr :: "BSocksClient \<Rightarrow> BAddr \<Rightarrow> BSocksClient" where
  "BSocksClient_SetDestAddr c a = c\<lparr>sc_dest_addr := a\<rparr>"

definition BSocksClient_GetBindAddr :: "BSocksClient \<Rightarrow> BAddr" where
  "BSocksClient_GetBindAddr c = sc_bind_addr c"

section \<open>The protocol as a function of the server's bytes\<close>

datatype sock_addr = IPv4Addr u32 u16 | IPv6Addr bytes u16

definition baddr_abs :: "BAddr \<Rightarrow> sock_addr option" where
  "baddr_abs a =
     (if addr_type a = BADDR_TYPE_IPV4 then Some (IPv4Addr (ipv4_ip a) (ipv4_port a))
      else if addr_type a = BADDR_TYPE_IPV6 then Some (IPv6Addr (ipv6_ip a) (ipv6_port a))
      else None)"

definition addr_ok :: "BAddr \<Rightarrow> bool" where
  "addr_ok a \<longleftrightarrow> addr_type a = BADDR_TYPE_IPV4 \<or> addr_type a = BADDR_TYPE_IPV6 \<and> length (ipv6_ip a) = 16"

definition hello_msg :: "auth_info list \<Rightarrow> bytes" where
  "hello_msg auths = [5, of_nat (length auths)] @ map (\<lambda>a. of_nat (auth_type a)) auths"

definition password_msg :: "auth_info \<Rightarrow> bytes" where
  "password_msg a = [1, of_nat (length (username a))] @ username a @ [of_nat (length (password a))] @ password a"

fun addr_bytes :: "sock_addr \<Rightarrow> bytes" where
  "addr_bytes (IPv4Addr ip port) = le32 ip @ le16 port"
| "addr_bytes (IPv6Addr ip port) = ip @ le16 port"

fun addr_atyp :: "sock_addr \<Rightarrow> u8" where
  "addr_atyp (IPv4Addr ip port) = 1"
| "addr_atyp (IPv6Addr ip port) = 4"

definition request_msg :: "bool \<Rightarrow> sock_addr \<Rightarrow> bytes" where
  "request_msg u a = [5, if u then 3 else 1, 0, addr_atyp a] @ addr_bytes a"

text \<open>
  The outcome on the bytes the server has sent: more are awaited, the client has failed, or it is up
  with the address bound by the server and the bytes that follow the reply.
\<close>

datatype socks_outcome = SpecWait | SpecFail | SpecUp sock_addr bytes

definition spec_reply :: "bytes \<Rightarrow> socks_outcome" where
  "spec_reply xs =
     (if length xs < 4 then SpecWait
      else if xs ! 0 \<noteq> 5 \<or> xs ! 1 \<noteq> 0 then SpecFail
      else if xs ! 3 = 1
      then (if length xs < 10 then SpecWait
            else SpecUp (IPv4Addr (of_le32 (take 4 (drop 4 xs))) (of_le16 (take 2 (drop 8 xs)))) (drop 10 xs))
      else if xs ! 3 = 4
      then (if length xs < 22 then SpecWait
            else SpecUp (IPv6Addr (take 16 (drop 4 xs)) (of_le16 (take 2 (drop 20 xs)))) (drop 22 xs))
      else SpecFail)"

definition spec_password :: "bytes \<Rightarrow> bytes \<Rightarrow> bytes list \<times> socks_outcome" where
  "spec_password req xs =
     (if length xs < 2 then ([], SpecWait)
      else if xs ! 0 \<noteq> 1 \<or> xs ! 1 \<noteq> 0 then ([], SpecFail)
      else ([req], spec_reply (drop 2 xs)))"

definition password_ok :: "auth_info \<Rightarrow> bool" where
  "password_ok a \<longleftrightarrow> length (username a) \<in> {1..255} \<and> length (password a) \<in> {1..255}"

definition spec_hello :: "auth_info list \<Rightarrow> bytes \<Rightarrow> bytes \<Rightarrow> bytes list \<times> socks_outcome" where
  "spec_hello auths req xs =
     (if length xs < 2 then ([], SpecWait)
      else if xs ! 0 \<noteq> 5 then ([], SpecFail)
      else case find (\<lambda>a. auth_type a = unat (xs ! 1)) auths of
             None \<Rightarrow> ([], SpecFail)
           | Some a \<Rightarrow>
               (if auth_type a = 0 then ([req], spec_reply (drop 2 xs))
                else if \<not> password_ok a then ([], SpecFail)
                else case spec_password req (drop 2 xs) of (ms, out) \<Rightarrow> (password_msg a # ms, out)))"

text \<open>The messages the client sends and the outcome.\<close>

definition socks_spec :: "auth_info list \<Rightarrow> bool \<Rightarrow> sock_addr \<Rightarrow> bytes \<Rightarrow> bytes list \<times> socks_outcome" where
  "socks_spec auths u dest xs =
     (if length auths \<notin> {1..255} then ([], SpecFail)
      else case spec_hello auths (request_msg u dest) xs of (ms, out) \<Rightarrow> (hello_msg auths # ms, out))"

text \<open>
  A run against the server's bytes \<open>s\<close>: a message is sent completely and acknowledged; a receive gets
  some of the bytes, at least one and at most what was asked for (the list gives the sizes). The run
  stops when the server's bytes are used up or an event is reported.
\<close>

fun sc_run :: "allocator \<Rightarrow> sc_call \<times> BSocksClient \<Rightarrow> nat list \<Rightarrow> bytes \<Rightarrow> bytes list \<times> sc_call \<times> BSocksClient \<times> bytes" where
  "sc_run ra (call, c) [] s = ([], call, c, s)"
| "sc_run ra (ScSend m, c) (n # ns) s = (case sc_run ra (send_handler_done ra c) ns s of (ms, r) \<Rightarrow> (m # ms, r))"
| "sc_run ra (ScRecv off k, c) (n # ns) s =
     (if s = [] then ([], ScRecv off k, c, s)
      else let j = min (max 1 n) (min k (length s))
           in sc_run ra (recv_handler_done ra (c\<lparr>sc_buffer := Some (mem_write (the (sc_buffer c)) off (take j s))\<rparr>) j)
                ns (drop j s))"
| "sc_run ra (ScEvent e, c) (n # ns) s = ([], ScEvent e, c, s)"
| "sc_run ra (ScNothing, c) (n # ns) s = ([], ScNothing, c, s)"
| "sc_run ra (ScUndefined, c) (n # ns) s = ([], ScUndefined, c, s)"

text \<open>The result of a run agrees with the outcome of the specification.\<close>

fun agrees :: "socks_outcome \<Rightarrow> sc_call \<times> BSocksClient \<times> bytes \<Rightarrow> bool" where
  "agrees SpecWait (call, c, r) \<longleftrightarrow> (\<exists>off k. call = ScRecv off k) \<and> r = []"
| "agrees SpecFail (call, c, r) \<longleftrightarrow> call = ScEvent BSOCKSCLIENT_EVENT_ERROR \<and> sc_state c \<noteq> STATE_UP"
| "agrees (SpecUp a rest) (call, c, r) \<longleftrightarrow> call = ScEvent BSOCKSCLIENT_EVENT_UP \<and> sc_state c = STATE_UP \<and>
     baddr_abs (BSocksClient_GetBindAddr c) = Some a \<and> r = rest"

definition alloc_ok :: "allocator \<Rightarrow> bool" where
  "alloc_ok ra \<longleftrightarrow> (\<forall>m n. \<exists>b. ra m n = Some b \<and> length b = n)"

text \<open>An allocator that may fail, but returns blocks of the size asked for.\<close>

definition alloc_sound :: "allocator \<Rightarrow> bool" where
  "alloc_sound ra \<longleftrightarrow> (\<forall>m n b. ra m n = Some b \<longrightarrow> length b = n)"

section \<open>Receiving a message\<close>

lemma mem_write_append:
  assumes "i + length (xs @ ys) \<le> length m"
  shows "mem_write (mem_write m i xs) (i + length xs) ys = mem_write m i (xs @ ys)"
  using assms by (simp add: mem_write_def add.commute add.left_commute)

text \<open>The client after \<open>j\<close> of the bytes \<open>s\<close> were received.\<close>

definition recv_put :: "BSocksClient \<Rightarrow> bytes \<Rightarrow> nat \<Rightarrow> BSocksClient" where
  "recv_put c s j = c\<lparr>sc_buffer := Some (mem_write (the (sc_buffer c)) (recv_dest c + recv_len c) (take j s)),
     recv_len := recv_len c + j\<rparr>"

lemma recv_put_put:
  assumes "sc_buffer c = Some b" "recv_dest c + recv_len c + k \<le> length b" "j \<le> k" "k \<le> length s"
  shows "recv_put (recv_put c s j) (drop j s) (k - j) = recv_put c s k"
proof -
  have "take k s = take j s @ take (k - j) (drop j s)" using assms(3) by (simp add: take_add [symmetric])
  moreover have "length (take j s) = j" using assms(3,4) by simp
  ultimately have "mem_write (mem_write b (recv_dest c + recv_len c) (take j s)) (recv_dest c + recv_len c + j)
      (take (k - j) (drop j s)) = mem_write b (recv_dest c + recv_len c) (take k s)"
    using mem_write_append [of "recv_dest c + recv_len c" "take j s" "take (k - j) (drop j s)" b] assms by simp
  then show ?thesis using assms(1,3) by (simp add: recv_put_def add.assoc)
qed

lemma recv_step:
  fixes c :: BSocksClient and n :: nat and s :: bytes
  assumes "s \<noteq> []"
  defines "j \<equiv> min (max 1 n) (min (recv_total c - recv_len c) (length s))"
  shows "sc_run ra (do_receive c, c) (n # ns) s =
    sc_run ra (if recv_len c + j < recv_total c then (do_receive (recv_put c s j), recv_put c s j)
      else recv_complete ra (recv_put c s j)) ns (drop j s)"
  using assms by (simp add: do_receive_def Let_def recv_handler_done_def recv_put_def)

lemma recv_phase:
  assumes "sc_buffer c = Some b" "recv_dest c + recv_total c \<le> length b" "recv_len c < recv_total c"
    "length s \<le> length ns"
  shows "(length s < recv_total c - recv_len c \<longrightarrow>
      (\<exists>off k c'. sc_run ra (do_receive c, c) ns s = ([], ScRecv off k, c', []))) \<and>
    (recv_total c - recv_len c \<le> length s \<longrightarrow>
      (\<exists>ns'. length ns \<le> length ns' + (recv_total c - recv_len c) \<and> sc_run ra (do_receive c, c) ns s =
        sc_run ra (recv_complete ra (recv_put c s (recv_total c - recv_len c))) ns' (drop (recv_total c - recv_len c) s)))"
  using assms
proof (induction ns arbitrary: c b s)
  case Nil
  then show ?case by (simp add: do_receive_def)
next
  case (Cons n ns)
  show ?case
  proof (cases "s = []")
    case True
    then show ?thesis using Cons.prems(3) by (simp add: do_receive_def)
  next
    case False
    define d where "d = recv_total c - recv_len c"
    define j where "j = min (max 1 n) (min d (length s))"
    have j: "0 < j" "j \<le> d" "j \<le> length s" using False Cons.prems(3) by (auto simp: j_def d_def)
    let ?c = "recv_put c s j"
    have step: "sc_run ra (do_receive c, c) (n # ns) s =
        sc_run ra (if j < d then (do_receive ?c, ?c) else recv_complete ra ?c) ns (drop j s)"
      using recv_step [OF False, of ra c n ns] Cons.prems(3) unfolding j_def d_def by simp
    have c: "recv_total ?c - recv_len ?c = d - j" "recv_dest ?c + recv_total ?c \<le> length (the (sc_buffer ?c))"
      "sc_buffer ?c = Some (the (sc_buffer ?c))"
      using Cons.prems(1,2,3) j by (simp_all add: recv_put_def d_def)
    show ?thesis
    proof (cases "j < d")
      case True
      have "recv_len ?c < recv_total ?c" "length (drop j s) \<le> length ns"
        using True Cons.prems(4) j by (simp_all add: recv_put_def d_def)
      note ih = Cons.IH [OF c(3,2) this, unfolded c(1)]
      have put: "d \<le> length s \<Longrightarrow> recv_put ?c (drop j s) (d - j) = recv_put c s d"
        using recv_put_put [OF Cons.prems(1), of d j s] Cons.prems(2) j by (simp add: d_def)
      have fuel: "length ns \<le> length ns' + (d - j) \<Longrightarrow> length (n # ns) \<le> length ns' + d" for ns' :: "nat list"
        using j True by simp
      show ?thesis unfolding d_def [symmetric] step
      proof (intro conjI impI)
        assume "length s < d"
        then show "\<exists>off k c'. sc_run ra (if j < d then (do_receive ?c, ?c) else recv_complete ra ?c) ns (drop j s) =
            ([], ScRecv off k, c', [])" using ih True j by auto
      next
        assume d: "d \<le> length s"
        then obtain ns' where "length ns \<le> length ns' + (d - j)" "sc_run ra (do_receive ?c, ?c) ns (drop j s) =
            sc_run ra (recv_complete ra (recv_put c s d)) ns' (drop d s)" using ih True j put by auto
        then show "\<exists>ns'. length (n # ns) \<le> length ns' + d \<and>
            sc_run ra (if j < d then (do_receive ?c, ?c) else recv_complete ra ?c) ns (drop j s) =
            sc_run ra (recv_complete ra (recv_put c s d)) ns' (drop d s)"
          using fuel True by (intro exI [of _ ns']) simp
      qed
    next
      case False
      then have "d = j" using j by simp
      then show ?thesis unfolding d_def [symmetric] step using j by (auto intro!: exI [of _ ns])
    qed
  qed
qed

lemma mem_write_nth: "i + length xs \<le> length m \<Longrightarrow> k < length xs \<Longrightarrow> mem_write m i xs ! (i + k) = xs ! k"
  by (simp add: mem_write_def nth_append)

lemma mem_read_write_in:
  "i + length xs \<le> length m \<Longrightarrow> k + n \<le> length xs \<Longrightarrow> mem_read (mem_write m i xs) (i + k) n = take n (drop k xs)"
  by (simp add: mem_read_def mem_write_def)

section \<open>The phases of the handshake\<close>

definition run_ok :: "allocator \<Rightarrow> sc_call \<times> BSocksClient \<Rightarrow> nat list \<Rightarrow> bytes \<Rightarrow> bytes list \<Rightarrow> socks_outcome \<Rightarrow> bool" where
  "run_ok ra p ns s ms out \<longleftrightarrow> (\<exists>r. sc_run ra p ns s = (ms, r) \<and> agrees out r)"

lemma run_ok_error: "sc_state c \<noteq> STATE_UP \<Longrightarrow> run_ok ra (report_error c BSOCKSCLIENT_EVENT_ERROR) ns s [] SpecFail"
  by (cases ns) (auto simp: run_ok_def report_error_def)

lemma run_ok_send:
  "run_ok ra (send_handler_done ra c) ns s ms out \<Longrightarrow> run_ok ra (ScSend m, c) (n # ns) s (m # ms) out"
  by (auto simp: run_ok_def)

text \<open>A message of \<open>d\<close> bytes is awaited: the run waits, or goes on with the complete message.\<close>

lemma run_ok_recv:
  assumes c: "sc_buffer c = Some b" "recv_dest c + recv_total c \<le> length b" "recv_len c = 0" "0 < recv_total c"
    and ns: "length s + k \<le> length ns"
    and short: "length s < recv_total c \<Longrightarrow> ms = [] \<and> out = SpecWait"
    and full: "\<And>ns'. recv_total c \<le> length s \<Longrightarrow> length (drop (recv_total c) s) + k \<le> length ns' \<Longrightarrow>
      run_ok ra (recv_complete ra (recv_put c s (recv_total c))) ns' (drop (recv_total c) s) ms out"
  shows "run_ok ra (do_receive c, c) ns s ms out"
proof (cases "length s < recv_total c")
  case True
  then show ?thesis using recv_phase [OF c(1,2), of s ns ra] c(3,4) ns short
    by (auto simp: run_ok_def)
next
  case False
  then obtain ns' where ns': "length ns \<le> length ns' + recv_total c"
    "sc_run ra (do_receive c, c) ns s = sc_run ra (recv_complete ra (recv_put c s (recv_total c))) ns' (drop (recv_total c) s)"
    using recv_phase [OF c(1,2), of s ns ra] c(3,4) ns by auto
  then show ?thesis using full [of ns'] False ns by (auto simp: run_ok_def)
qed

lemma alloc_reserve:
  assumes "alloc_ok ra" "\<not> is_overflow sz" "0 < bs_value sz"
  obtains b where "reserve_buffer ra c sz = Some (c\<lparr>sc_buffer := Some b\<rparr>)" "length b = bs_value sz"
proof -
  obtain b where "ra (sc_buffer c) (bs_value sz) = Some b" "length b = bs_value sz"
    using assms(1) unfolding alloc_ok_def by blast
  then show ?thesis using that [of b] assms(2,3) by (simp add: reserve_buffer_def BRealloc_def)
qed

lemmas bsize_defs = bsize_add_def bsize_mul_def bsize_max_def bsize_fromsize_def SIZE_MAX_def

text \<open>The rest of the reply, the address.\<close>

lemma rest_phase:
  assumes b: "sc_buffer c = Some b" "length b = 22" and st: "sc_state c = STATE_RECEIVED_REPLY_HEADER"
    and ty: "addr_type (sc_bind_addr c) = (if v4 then BADDR_TYPE_IPV4 else BADDR_TYPE_IPV6)"
    and rc: "recv_dest c = 4" "recv_len c = 0" "recv_total c = (if v4 then 6 else 18)"
    and ns: "length s \<le> length ns"
  shows "run_ok ra (do_receive c, c) ns s []
    (if length s < (if v4 then 6 else 18) then SpecWait
     else if v4 then SpecUp (IPv4Addr (of_le32 (take 4 s)) (of_le16 (take 2 (drop 4 s)))) (drop 6 s)
     else SpecUp (IPv6Addr (take 16 s) (of_le16 (take 2 (drop 16 s)))) (drop 18 s))"
proof (rule run_ok_recv [where k = 0, OF b(1)])
  fix ns' :: "nat list"
  let ?t = "recv_total c"
  assume s: "?t \<le> length s"
  let ?b = "mem_write b 4 (take ?t s)"
  have buf: "sc_buffer (recv_put c s ?t) = Some ?b" using b rc by (simp add: recv_put_def)
  have rd: "k + n \<le> ?t \<Longrightarrow> mem_read ?b (4 + k) n = take n (drop k (take ?t s))" for k n
    using mem_read_write_in [of 4 "take ?t s" b k n] s b(2) rc(3) by (auto split: if_splits)
  have "recv_complete ra (recv_put c s ?t) = recv_reply_rest (recv_put c s ?t)"
    using st by (simp add: recv_complete_def recv_put_def)
  then show "run_ok ra (recv_complete ra (recv_put c s ?t)) ns' (drop ?t s) []
      (if length s < (if v4 then 6 else 18) then SpecWait
       else if v4 then SpecUp (IPv4Addr (of_le32 (take 4 s)) (of_le16 (take 2 (drop 4 s)))) (drop 6 s)
       else SpecUp (IPv6Addr (take 16 s) (of_le16 (take 2 (drop 16 s)))) (drop 18 s))"
    using s rc(3) ty rd [of 0 4] rd [of 4 2] rd [of 0 16] rd [of 16 2] buf
    by (cases ns') (auto simp: run_ok_def recv_reply_rest_def Let_def init_up_io_def free_control_io_def
        BSocksClient_GetBindAddr_def baddr_abs_def socks_consts recv_put_def drop_take split: if_splits)
qed (use assms in \<open>auto split: if_splits\<close>)

lemma reply_phase:
  assumes ra: "alloc_ok ra" and st: "sc_state c = STATE_SENDING_REQUEST" and ns: "length s \<le> length ns"
  shows "run_ok ra (send_handler_done ra c) ns s [] (spec_reply s)"
proof -
  obtain b where b: "reserve_buffer ra c (bsize_add (bsize_fromsize 4) (bsize_max (bsize_fromsize 6) (bsize_fromsize 18))) =
      Some (c\<lparr>sc_buffer := Some b\<rparr>)" "length b = 22"
    using alloc_reserve [OF ra, of "bsize_add (bsize_fromsize 4) (bsize_max (bsize_fromsize 6) (bsize_fromsize 18))" c]
    by (auto simp: bsize_defs)
  let ?c = "c\<lparr>sc_buffer := Some b, recv_dest := 0, recv_len := 0, recv_total := 4, sc_state := STATE_SENT_REQUEST\<rparr>"
  have send: "send_handler_done ra c = (do_receive ?c, ?c)"
    using b st by (simp add: send_handler_done_def start_receive_def Let_def do_receive_def)
  have "run_ok ra (do_receive ?c, ?c) ns s [] (spec_reply s)"
  proof (rule run_ok_recv [where k = 0 and b = b])
    fix ns' :: "nat list"
    assume s: "recv_total ?c \<le> length s" and ns': "length (drop (recv_total ?c) s) + 0 \<le> length ns'"
    let ?b = "mem_write b 0 (take 4 s)"
    let ?c1 = "recv_put ?c s 4"
    have nth: "k < 4 \<Longrightarrow> ?b ! k = s ! k" for k using mem_write_nth [of 0 "take 4 s" b k] s b(2) by simp
    have c1: "sc_buffer ?c1 = Some ?b" "length ?b = 22" "sc_state ?c1 = STATE_SENT_REQUEST"
      using b(2) s by (simp_all add: recv_put_def)
    have rc: "recv_complete ra ?c1 = recv_reply_header ?c1" using c1(3) by (simp add: recv_complete_def)
    define r where "r = (\<lambda>v4. ?c1\<lparr>sc_bind_addr := (sc_bind_addr ?c1)\<lparr>addr_type := (if v4 then BADDR_TYPE_IPV4 else BADDR_TYPE_IPV6)\<rparr>,
        recv_dest := 4, recv_len := 0, recv_total := (if v4 then 6 else 18), sc_state := STATE_RECEIVED_REPLY_HEADER\<rparr>)"
    have rh: "recv_reply_header ?c1 = (if s ! 0 \<noteq> 5 \<or> s ! 1 \<noteq> 0 then report_error ?c1 BSOCKSCLIENT_EVENT_ERROR
        else if s ! 3 = 1 then (do_receive (r True), r True)
        else if s ! 3 = 4 then (do_receive (r False), r False) else report_error ?c1 BSOCKSCLIENT_EVENT_ERROR)"
      using nth [of 0] nth [of 1] nth [of 3] c1
      by (simp add: recv_reply_header_def Let_def start_receive_def do_receive_def socks_consts r_def)
    have rest: "run_ok ra (do_receive (r v4), r v4) ns' (drop 4 s) []
        (if length (drop 4 s) < (if v4 then 6 else 18) then SpecWait
         else if v4 then SpecUp (IPv4Addr (of_le32 (take 4 (drop 4 s))) (of_le16 (take 2 (drop 4 (drop 4 s))))) (drop 6 (drop 4 s))
         else SpecUp (IPv6Addr (take 16 (drop 4 s)) (of_le16 (take 2 (drop 16 (drop 4 s))))) (drop 18 (drop 4 s)))" for v4
      by (rule rest_phase) (use c1 ns' in \<open>simp_all add: r_def\<close>)
    have l: "length s - 4 < 6 \<longleftrightarrow> length s < 10" "length s - 4 < 18 \<longleftrightarrow> length s < 22" using s by auto
    have "run_ok ra (recv_complete ra ?c1) ns' (drop 4 s) [] (spec_reply s)"
      using s c1 run_ok_error [of ?c1 ra ns' "drop 4 s"] rest [of True] rest [of False]
      unfolding rc rh by (auto simp: spec_reply_def l)
    then show "run_ok ra (recv_complete ra (recv_put ?c s (recv_total ?c))) ns' (drop (recv_total ?c) s) [] (spec_reply s)"
      by simp
  qed (use b ns in \<open>auto simp: spec_reply_def\<close>)
  then show ?thesis unfolding send .
qed

lemma mem_read_all: "length m = n \<Longrightarrow> mem_read m 0 n = m"
  by (simp add: mem_read_def)

lemma auth_finished_sends:
  assumes ra: "alloc_ok ra" and a: "addr_ok (sc_dest_addr c)" "baddr_abs (sc_dest_addr c) = Some dest"
  shows "\<exists>b. auth_finished ra c = (ScSend (request_msg (sc_udp c) dest),
    c\<lparr>sc_buffer := Some b, sc_state := STATE_SENDING_REQUEST\<rparr>)"
proof -
  let ?n = "length (addr_bytes dest)"
  let ?sz = "\<lparr>is_overflow = False, bs_value = 4 + ?n\<rparr>"
  have d: "addr_type (sc_dest_addr c) = BADDR_TYPE_IPV4 \<and> dest = IPv4Addr (ipv4_ip (sc_dest_addr c)) (ipv4_port (sc_dest_addr c)) \<or>
      addr_type (sc_dest_addr c) = BADDR_TYPE_IPV6 \<and> dest = IPv6Addr (ipv6_ip (sc_dest_addr c)) (ipv6_port (sc_dest_addr c)) \<and>
        length (ipv6_ip (sc_dest_addr c)) = 16"
    using a by (auto simp: baddr_abs_def addr_ok_def split: if_splits)
  obtain b where b: "reserve_buffer ra c ?sz = Some (c\<lparr>sc_buffer := Some b\<rparr>)" "length b = 4 + ?n"
    by (rule alloc_reserve [OF ra, of ?sz c]) auto
  have w: "mem_write (mem_write b 4 (addr_bytes dest)) 0 [x, y, z, t] = [x, y, z, t] @ addr_bytes dest" for x y z t
    using b(2) by (simp add: mem_write_def)
  from d show ?thesis
    using b w by (elim disjE) (auto simp: auth_finished_def Let_def bsize_defs socks_consts request_msg_def mem_read_all)
qed

lemma request_phase:
  assumes "alloc_ok ra" "addr_ok (sc_dest_addr c)" "baddr_abs (sc_dest_addr c) = Some dest" "length s < length ns"
  shows "run_ok ra (auth_finished ra c) ns s [request_msg (sc_udp c) dest] (spec_reply s)"
proof -
  obtain b where b: "auth_finished ra c = (ScSend (request_msg (sc_udp c) dest),
      c\<lparr>sc_buffer := Some b, sc_state := STATE_SENDING_REQUEST\<rparr>)" using auth_finished_sends [OF assms(1-3)] by blast
  from assms(4) obtain n ms where ns: "ns = n # ms" by (cases ns) auto
  show ?thesis unfolding b ns by (rule run_ok_send, rule reply_phase) (use assms ns in auto)
qed

text \<open>The two states in which a reply of two bytes is awaited.\<close>

lemma two_byte_phase:
  assumes ra: "alloc_ok ra" and st: "sc_state c = STATE_SENDING_HELLO \<and> st = STATE_SENT_HELLO \<or>
      sc_state c = STATE_SENDING_PASSWORD \<and> st = STATE_SENT_PASSWORD"
    and ns: "length s + k \<le> length ns" and short: "length s < 2 \<Longrightarrow> ms = [] \<and> out = SpecWait"
    and full: "\<And>ns' c1 b. 2 \<le> length s \<Longrightarrow> length (drop 2 s) + k \<le> length ns' \<Longrightarrow> sc_state c1 = st \<Longrightarrow>
      sc_buffer c1 = Some [s ! 0, s ! 1] \<Longrightarrow> sc_dest_addr c1 = sc_dest_addr c \<Longrightarrow> sc_udp c1 = sc_udp c \<Longrightarrow>
      sc_auth_info c1 = sc_auth_info c \<Longrightarrow> run_ok ra (recv_complete ra c1) ns' (drop 2 s) ms out"
  shows "run_ok ra (send_handler_done ra c) ns s ms out"
proof -
  obtain b where b: "reserve_buffer ra c (bsize_fromsize 2) = Some (c\<lparr>sc_buffer := Some b\<rparr>)" "length b = 2"
    using alloc_reserve [OF ra, of "bsize_fromsize 2" c] by (auto simp: bsize_defs)
  let ?c = "c\<lparr>sc_buffer := Some b, recv_dest := 0, recv_len := 0, recv_total := 2, sc_state := st\<rparr>"
  have send: "send_handler_done ra c = (do_receive ?c, ?c)"
    using b st by (auto simp: send_handler_done_def start_receive_def Let_def do_receive_def)
  have "run_ok ra (do_receive ?c, ?c) ns s ms out"
  proof (rule run_ok_recv [where k = k and b = b])
    fix ns' :: "nat list"
    assume s: "recv_total ?c \<le> length s" "length (drop (recv_total ?c) s) + k \<le> length ns'"
    have "mem_write b 0 (take 2 s) = take 2 s" using s b(2) by (simp add: mem_write_def)
    also have "take 2 s = [s ! 0, s ! 1]" using s(1) by (cases s; cases "tl s") auto
    finally have "sc_buffer (recv_put ?c s 2) = Some [s ! 0, s ! 1]" by (simp add: recv_put_def)
    then have "run_ok ra (recv_complete ra (recv_put ?c s 2)) ns' (drop 2 s) ms out"
      using s by (intro full) (simp_all add: recv_put_def)
    then show "run_ok ra (recv_complete ra (recv_put ?c s (recv_total ?c))) ns' (drop (recv_total ?c) s) ms out" by simp
  qed (use b ns short in auto)
  then show ?thesis unfolding send .
qed

lemma password_phase:
  assumes ra: "alloc_ok ra" and st: "sc_state c = STATE_SENDING_PASSWORD"
    and a: "addr_ok (sc_dest_addr c)" "baddr_abs (sc_dest_addr c) = Some dest" and ns: "length s + 1 \<le> length ns"
    and sp: "spec_password (request_msg (sc_udp c) dest) s = (ms, out)"
  shows "run_ok ra (send_handler_done ra c) ns s ms out"
proof (rule two_byte_phase [OF ra _ ns, where st = STATE_SENT_PASSWORD])
  fix ns' :: "nat list" and c1 :: BSocksClient
  assume s: "2 \<le> length s" "length (drop 2 s) + 1 \<le> length ns'" "sc_state c1 = STATE_SENT_PASSWORD"
    "sc_buffer c1 = Some [s ! 0, s ! 1]" and c1: "sc_dest_addr c1 = sc_dest_addr c" "sc_udp c1 = sc_udp c"
  have "run_ok ra (auth_finished ra c1) ns' (drop 2 s) [request_msg (sc_udp c) dest] (spec_reply (drop 2 s))"
    using request_phase [OF ra, of c1 dest "drop 2 s" ns'] a c1 s(2) by simp
  then show "run_ok ra (recv_complete ra c1) ns' (drop 2 s) ms out"
    using sp s run_ok_error [of c1 ra ns' "drop 2 s"]
    by (auto simp: recv_complete_def recv_password_def Let_def spec_password_def split: if_splits)
qed (use st sp in \<open>auto simp: spec_password_def\<close>)

lemma password_written:
  assumes "length b = 3 + length u + length p"
  shows "mem_write (mem_write (mem_write (mem_write (mem_write b 0 [1]) 1 [x]) 2 u) (2 + length u) [y]) (3 + length u) p =
    [1, x] @ u @ [y] @ p"
proof -
  have "mem_write (mem_write b 0 [1]) 1 [x] = mem_write b 0 [1, x]"
    using mem_write_append [of 0 "[1]" "[x]" b] assms by simp
  moreover have "mem_write (mem_write b 0 [1, x]) 2 u = mem_write b 0 ([1, x] @ u)"
    using mem_write_append [of 0 "[1, x]" u b] assms by (simp add: numeral_2_eq_2)
  moreover have "mem_write (mem_write b 0 ([1, x] @ u)) (2 + length u) [y] = mem_write b 0 ([1, x] @ u @ [y])"
    using mem_write_append [of 0 "[1, x] @ u" "[y]" b] assms by simp
  moreover have "mem_write (mem_write b 0 ([1, x] @ u @ [y])) (3 + length u) p = mem_write b 0 ([1, x] @ u @ [y] @ p)"
    using mem_write_append [of 0 "[1, x] @ u @ [y]" p b] assms by (simp add: numeral_3_eq_3)
  moreover have "mem_write b 0 ([1, x] @ u @ [y] @ p) = [1, x] @ u @ [y] @ p"
    using assms by (simp add: mem_write_def)
  ultimately show ?thesis by simp
qed

lemma recv_hello_password:
  assumes ra: "alloc_ok ra" and b: "sc_buffer c = Some [5, m]" and f: "find (\<lambda>ai. auth_type ai = unat m) (sc_auth_info c) = Some ai"
    "auth_type ai = SOCKS_METHOD_USERNAME_PASSWORD" "password_ok ai"
  shows "\<exists>b'. recv_hello ra c = (ScSend (password_msg ai), c\<lparr>sc_buffer := Some b', sc_state := STATE_SENDING_PASSWORD\<rparr>)"
proof -
  let ?sz = "bsize_fromsize (1 + 1 + length (username ai) + 1 + length (password ai))"
  obtain b' where b': "reserve_buffer ra c ?sz = Some (c\<lparr>sc_buffer := Some b'\<rparr>)" "length b' = bs_value ?sz"
    by (rule alloc_reserve [OF ra, of ?sz c]) (auto simp: bsize_defs)
  have "length b' = 3 + length (username ai) + length (password ai)" using b'(2) by (simp add: bsize_fromsize_def)
  note w = password_written [OF this]
  show ?thesis using b f b'(1)
    by (auto simp: recv_hello_def Let_def socks_consts password_ok_def w [simplified] password_msg_def bsize_fromsize_def mem_read_all)
qed

lemma password_bad:
  "length (username a) = 0 \<or> 255 < length (username a) \<or> length (password a) = 0 \<or> 255 < length (password a) \<longleftrightarrow>
   \<not> password_ok a"
  unfolding password_ok_def atLeastAtMost_iff by linarith

lemma hello_phase:
  assumes ra: "alloc_ok ra" and st: "sc_state c = STATE_SENDING_HELLO"
    and a: "addr_ok (sc_dest_addr c)" "baddr_abs (sc_dest_addr c) = Some dest" and ns: "length s + 2 \<le> length ns"
    and au: "list_all (\<lambda>ai. auth_type ai \<in> {0, 2}) (sc_auth_info c)"
    and sp: "spec_hello (sc_auth_info c) (request_msg (sc_udp c) dest) s = (ms, out)"
  shows "run_ok ra (send_handler_done ra c) ns s ms out"
proof (rule two_byte_phase [OF ra _ ns, where st = STATE_SENT_HELLO])
  fix ns' :: "nat list" and c1 :: BSocksClient
  assume s: "2 \<le> length s" "length (drop 2 s) + 2 \<le> length ns'" "sc_state c1 = STATE_SENT_HELLO"
    and buf: "sc_buffer c1 = Some [s ! 0, s ! 1]"
    and c1: "sc_dest_addr c1 = sc_dest_addr c" "sc_udp c1 = sc_udp c" "sc_auth_info c1 = sc_auth_info c"
  have rc: "recv_complete ra c1 = recv_hello ra c1" using s(3) by (simp add: recv_complete_def)
  note err = run_ok_error [of c1 ra ns' "drop 2 s"]
  let ?f = "find (\<lambda>a. auth_type a = unat (s ! 1)) (sc_auth_info c)"
  consider "s ! 0 \<noteq> 5 \<or> ?f = None" | ai where "s ! 0 = 5" "?f = Some ai" by (cases ?f) auto
  then show "run_ok ra (recv_complete ra c1) ns' (drop 2 s) ms out"
  proof cases
    case 1
    then show ?thesis using sp s(1,3) err buf c1(3) unfolding rc
      by (auto simp: recv_hello_def spec_hello_def Let_def SOCKS_VERSION_def)
  next
    case 2
    then have ty: "auth_type ai \<in> {0, 2}" using au by (auto simp: find_Some_iff list_all_length)
    have req: "run_ok ra (auth_finished ra c1) ns' (drop 2 s) [request_msg (sc_udp c) dest] (spec_reply (drop 2 s))"
      using request_phase [OF ra, of c1 dest "drop 2 s" ns'] a c1 s(2) by simp
    show ?thesis
    proof (cases "auth_type ai = 2 \<and> password_ok ai")
      case True
      obtain ms' where sp': "spec_password (request_msg (sc_udp c) dest) (drop 2 s) = (ms', out)" "ms = password_msg ai # ms'"
        using sp s(1) 2 True by (auto simp: spec_hello_def split: prod.splits)
      obtain b' where b': "recv_hello ra c1 = (ScSend (password_msg ai), c1\<lparr>sc_buffer := Some b', sc_state := STATE_SENDING_PASSWORD\<rparr>)"
        using recv_hello_password [OF ra, of c1 "s ! 1" ai] buf 2 c1(3) True by (auto simp: socks_consts)
      obtain n ns1 where ns1: "ns' = n # ns1" using s(2) by (cases ns') auto
      show ?thesis unfolding rc b' ns1 sp'(2)
        by (rule run_ok_send, rule password_phase [OF ra]) (use a c1 s(2) ns1 sp' in auto)
    next
      case False
      then show ?thesis using sp s(1,3) err buf c1(3) 2 ty req unfolding rc recv_hello_def Let_def password_bad by (auto simp: spec_hello_def socks_consts)
    qed
  qed
qed (use st sp in \<open>auto simp: spec_hello_def\<close>)

lemma write_methods_mem:
  "2 + i + length as \<le> length b \<Longrightarrow> write_methods b i as = mem_write b (2 + i) (map (\<lambda>a. of_nat (auth_type a)) as)"
proof (induction as arbitrary: b i)
  case (Cons a as)
  then show ?case
    using mem_write_append [of "2 + i" "[of_nat (auth_type a)]" "map (\<lambda>a. of_nat (auth_type a)) as" b] by simp
qed simp

lemma continue_sends_hello:
  assumes ra: "alloc_ok ra" and n: "length (sc_auth_info c) \<in> {1..255}"
  shows "\<exists>b. continue_job_handler ra c = (ScSend (hello_msg (sc_auth_info c)), c\<lparr>sc_buffer := Some b, sc_state := STATE_SENDING_HELLO\<rparr>)"
proof -
  let ?n = "length (sc_auth_info c)"
  let ?sz = "bsize_add (bsize_fromsize 2) (bsize_mul (bsize_fromsize ?n) (bsize_fromsize 1))"
  have sz: "\<not> is_overflow ?sz" "bs_value ?sz = 2 + ?n"
    using n div_greater_zero_iff [of 4294967295 ?n] by (auto simp: bsize_defs)
  obtain b where b: "reserve_buffer ra c ?sz = Some (c\<lparr>sc_buffer := Some b\<rparr>)" "length b = 2 + ?n"
    using alloc_reserve [OF ra sz(1), of c] sz(2) by auto
  let ?b = "mem_write b 0 [SOCKS_VERSION, of_nat ?n]"
  have "write_methods ?b 0 (sc_auth_info c) = mem_write ?b 2 (map (\<lambda>a. of_nat (auth_type a)) (sc_auth_info c))"
    using write_methods_mem [of 0 "sc_auth_info c" ?b] b(2) by simp
  also have "\<dots> = hello_msg (sc_auth_info c)"
    using b(2) by (simp add: mem_write_def hello_msg_def SOCKS_VERSION_def)
  finally have w: "write_methods ?b 0 (sc_auth_info c) = hello_msg (sc_auth_info c)" .
  have "length (hello_msg (sc_auth_info c)) = 2 + ?n" by (simp add: hello_msg_def)
  then show ?thesis using b(1) n sz(2) w unfolding continue_job_handler_def Let_def by (auto simp: mem_read_all)
qed

section \<open>Reachable states\<close>

text \<open>
  What the client has initialised, in the order in which \<open>BSocksClient_Free\<close> should release it.
\<close>

definition sc_held :: "BSocksClient \<Rightarrow> sc_res list" where
  "sc_held c = (case sc_io c of NoIo \<Rightarrow> [] | ControlIo \<Rightarrow> [ResControlIo] | UpIo \<Rightarrow> [ResUpIo]) @
     (if sc_con c then [ResConnection] else []) @ [ResConnector, ResContinueJob] @
     (if sc_buffer c = None then [] else [ResBuffer])"

text \<open>
  The client together with the last call it made. Every step may use another allocator, which may
  fail. \<open>Stop\<close> of the connection can come in any connected state. After an error event the object is
  freed and there is no further step.
\<close>

inductive sc_reach :: "BSocksClient \<Rightarrow> sc_call \<Rightarrow> bool" where
  init: "BSocksClient_Init c0 auths dest u True = Some c \<Longrightarrow> addr_ok dest \<Longrightarrow>
    list_all (\<lambda>ai. auth_type ai \<in> {0, 2}) auths \<Longrightarrow> sc_reach c ScNothing"
| connector: "sc_reach c call \<Longrightarrow> sc_state c = STATE_CONNECTING \<Longrightarrow> call = ScNothing \<Longrightarrow>
    connector_handler con_ok c is_error = (call', c') \<Longrightarrow> sc_reach c' call'"
| set_dest: "sc_reach c call \<Longrightarrow> sc_state c = STATE_CONNECTING \<and> call = ScNothing \<or> sc_state c = STATE_CONNECTED_HANDLER \<Longrightarrow>
    addr_ok a \<Longrightarrow> sc_reach (BSocksClient_SetDestAddr c a) call"
| continue_job: "sc_reach c call \<Longrightarrow> sc_continue_job c \<Longrightarrow> call = ScEvent BSOCKSCLIENT_EVENT_CONNECTED \<Longrightarrow> alloc_sound ra \<Longrightarrow>
    continue_job_handler ra (c\<lparr>sc_continue_job := False\<rparr>) = (call', c') \<Longrightarrow> sc_reach c' call'"
| sent: "sc_reach c (ScSend m) \<Longrightarrow> alloc_sound ra \<Longrightarrow>
    send_handler_done ra c = (call', c') \<Longrightarrow> sc_reach c' call'"
| received: "sc_reach c (ScRecv off k) \<Longrightarrow> alloc_sound ra \<Longrightarrow> xs \<noteq> [] \<Longrightarrow> length xs \<le> k \<Longrightarrow>
    recv_handler_done ra (c\<lparr>sc_buffer := Some (mem_write (the (sc_buffer c)) off xs)\<rparr>) (length xs) = (call', c') \<Longrightarrow>
    sc_reach c' call'"
| stop: "sc_reach c call \<Longrightarrow> sc_state c \<noteq> STATE_CONNECTING \<Longrightarrow> call \<noteq> ScEvent BSOCKSCLIENT_EVENT_ERROR \<Longrightarrow>
    call \<noteq> ScEvent BSOCKSCLIENT_EVENT_ERROR_CLOSED \<Longrightarrow> connection_handler c closed = (call', c') \<Longrightarrow> sc_reach c' call'"

text \<open>The message that is being received fits the buffer, for each state that receives.\<close>

definition sc_receiving :: "socks_state \<Rightarrow> nat \<Rightarrow> nat \<Rightarrow> nat \<Rightarrow> bool" where
  "sc_receiving st dest tot len \<longleftrightarrow>
     (st = STATE_SENT_HELLO \<or> st = STATE_SENT_PASSWORD) \<and> dest = 0 \<and> tot = 2 \<and> len = 2 \<or>
     st = STATE_SENT_REQUEST \<and> dest = 0 \<and> tot = 4 \<and> len = 22 \<or>
     st = STATE_RECEIVED_REPLY_HEADER \<and> dest = 4 \<and> (tot = 6 \<or> tot = 18) \<and> len = 22"

definition sc_common :: "BSocksClient \<Rightarrow> bool" where
  "sc_common c \<longleftrightarrow> addr_ok (sc_dest_addr c) \<and> list_all (\<lambda>ai. auth_type ai \<in> {0, 2}) (sc_auth_info c) \<and>
     (sc_con c \<longleftrightarrow> sc_state c \<noteq> STATE_CONNECTING) \<and>
     sc_io c = (if sc_state c = STATE_CONNECTING then NoIo else if sc_state c = STATE_UP then UpIo else ControlIo)"

fun sc_call_ok :: "BSocksClient \<Rightarrow> sc_call \<Rightarrow> bool" where
  "sc_call_ok c (ScRecv off k) \<longleftrightarrow>
     (\<exists>b. sc_buffer c = Some b \<and> sc_receiving (sc_state c) (recv_dest c) (recv_total c) (length b) \<and>
        recv_len c < recv_total c \<and> off = recv_dest c + recv_len c \<and> k = recv_total c - recv_len c)"
| "sc_call_ok c (ScSend m) \<longleftrightarrow> sc_buffer c = Some m \<and>
     (sc_state c = STATE_SENDING_HELLO \<or> sc_state c = STATE_SENDING_PASSWORD \<or> sc_state c = STATE_SENDING_REQUEST)"
| "sc_call_ok c (ScEvent e) \<longleftrightarrow> (e = BSOCKSCLIENT_EVENT_UP \<longrightarrow> sc_state c = STATE_UP \<and> sc_buffer c = None) \<and>
     (e = BSOCKSCLIENT_EVENT_CONNECTED \<longrightarrow> sc_state c = STATE_CONNECTED_HANDLER)"
| "sc_call_ok c ScNothing \<longleftrightarrow> sc_state c = STATE_CONNECTING"
| "sc_call_ok c ScUndefined \<longleftrightarrow> False"

definition sc_inv :: "BSocksClient \<Rightarrow> sc_call \<Rightarrow> bool" where
  "sc_inv c call \<longleftrightarrow> sc_common c \<and> sc_call_ok c call"

lemma sc_inv_error [simp]: "sc_common c \<Longrightarrow> sc_inv c (ScEvent BSOCKSCLIENT_EVENT_ERROR)"
  by (simp add: sc_inv_def)

lemma reserve_cases:
  assumes "alloc_sound ra" "0 < bs_value sz"
  obtains "reserve_buffer ra c sz = None" | b where "reserve_buffer ra c sz = Some (c\<lparr>sc_buffer := Some b\<rparr>)" "length b = bs_value sz"
  using assms by (cases "is_overflow sz"; cases "ra (sc_buffer c) (bs_value sz)") (auto simp: reserve_buffer_def BRealloc_def alloc_sound_def)

lemma auth_finished_inv:
  assumes ra: "alloc_sound ra"
    and c: "sc_common c" "sc_state c \<noteq> STATE_CONNECTING" "sc_state c \<noteq> STATE_UP" and r: "auth_finished ra c = (call, c')"
  shows "sc_inv c' call"
proof -
  let ?d = "sc_dest_addr c"
  have d: "addr_type ?d = BADDR_TYPE_IPV4 \<or> addr_type ?d = BADDR_TYPE_IPV6 \<and> length (ipv6_ip ?d) = 16"
    using c(1) by (auto simp: sc_common_def addr_ok_def)
  define n :: nat where "n = (if addr_type ?d = BADDR_TYPE_IPV4 then 6 else 18)"
  define sz where "sz = \<lparr>is_overflow = False, bs_value = 4 + n\<rparr>"
  have sz: "(if addr_type ?d = BADDR_TYPE_IPV4 then bsize_add (bsize_fromsize 4) (bsize_fromsize 6)
      else if addr_type ?d = BADDR_TYPE_IPV6 then bsize_add (bsize_fromsize 4) (bsize_fromsize 18) else bsize_fromsize 4) = sz"
    using d by (auto simp: bsize_defs sz_def n_def)
  show ?thesis
  proof (rule reserve_cases [OF ra, of sz c])
    assume "reserve_buffer ra c sz = None"
    then show ?thesis using r c(1) unfolding auth_finished_def Let_def sz by (auto simp: report_error_def)
  next
    fix b
    assume "reserve_buffer ra c sz = Some (c\<lparr>sc_buffer := Some b\<rparr>)" and "length b = bs_value sz"
    then show ?thesis using r c d unfolding auth_finished_def Let_def sz
      by (auto simp: sc_inv_def sc_common_def sz_def n_def mem_read_all socks_consts)
  qed (auto simp: sz_def)
qed

lemma recv_hello_inv:
  assumes ra: "alloc_sound ra"
    and c: "sc_common c" "sc_state c = STATE_SENT_HELLO" and r: "recv_hello ra c = (call, c')"
  shows "sc_inv c' call"
proof -
  let ?f = "find (\<lambda>ai. auth_type ai = unat (the (sc_buffer c) ! 1)) (sc_auth_info c)"
  have err: "(call, c') = report_error c BSOCKSCLIENT_EVENT_ERROR \<Longrightarrow> ?thesis"
    using c(1) by (simp add: report_error_def)
  consider "the (sc_buffer c) ! 0 \<noteq> SOCKS_VERSION \<or> ?f = None" | ai where "the (sc_buffer c) ! 0 = SOCKS_VERSION" "?f = Some ai"
    by (cases ?f) auto
  then show ?thesis
  proof cases
    case 1
    then have "recv_hello ra c = report_error c BSOCKSCLIENT_EVENT_ERROR" by (auto simp: recv_hello_def Let_def)
    then show ?thesis using r err by simp
  next
    case 2
    then have ty: "auth_type ai = 0 \<or> auth_type ai = 2" using c(1) by (auto simp: sc_common_def find_Some_iff list_all_length)
    let ?sz = "bsize_fromsize (1 + 1 + length (username ai) + 1 + length (password ai))"
    show ?thesis
    proof (rule reserve_cases [OF ra, of ?sz c])
      assume "reserve_buffer ra c ?sz = None"
      then show ?thesis using r err 2 ty auth_finished_inv [OF ra c(1), of call c'] c(2)
        unfolding recv_hello_def Let_def password_bad by (auto simp: socks_consts split: if_splits)
    next
      fix b
      assume b: "reserve_buffer ra c ?sz = Some (c\<lparr>sc_buffer := Some b\<rparr>)" "length b = bs_value ?sz"
      have "length b = 3 + length (username ai) + length (password ai)" using b(2) by (simp add: bsize_fromsize_def)
      then show ?thesis using r err 2 ty auth_finished_inv [OF ra c(1), of call c'] c b(1)
        unfolding recv_hello_def Let_def password_bad
        by (auto simp: socks_consts sc_inv_def sc_common_def bsize_fromsize_def mem_read_all split: if_splits)
    qed (auto simp: bsize_fromsize_def)
  qed
qed

lemma send_done_inv:
  assumes ra: "alloc_sound ra"
    and c: "sc_inv c (ScSend m)" and r: "send_handler_done ra c = (call, c')"
  shows "sc_inv c' call"
proof -
  define sz where "sz = bsize_fromsize (if sc_state c = STATE_SENDING_REQUEST then 22 else 2)"
  have sz22: "bsize_add (bsize_fromsize 4) (bsize_max (bsize_fromsize 6) (bsize_fromsize 18)) = bsize_fromsize 22"
    by (simp add: bsize_defs)
  show ?thesis
  proof (rule reserve_cases [OF ra, of sz c])
    assume "reserve_buffer ra c sz = None"
    then show ?thesis using r c unfolding send_handler_done_def sz22 sz_def
      by (auto simp: sc_inv_def report_error_def Let_def)
  next
    fix b
    assume "reserve_buffer ra c sz = Some (c\<lparr>sc_buffer := Some b\<rparr>)" "length b = bs_value sz"
    then show ?thesis using r c unfolding send_handler_done_def sz22 sz_def
      by (auto simp: sc_inv_def sc_common_def Let_def start_receive_def do_receive_def sc_receiving_def bsize_fromsize_def)
  qed (auto simp: sz_def bsize_fromsize_def)
qed

lemma recv_complete_inv:
  assumes ra: "alloc_sound ra"
    and c: "sc_common c" "sc_buffer c = Some b" "sc_receiving (sc_state c) (recv_dest c) (recv_total c) (length b)"
    and r: "recv_complete ra c = (call, c')"
  shows "sc_inv c' call"
proof -
  consider "sc_state c = STATE_SENT_HELLO" | "sc_state c = STATE_SENT_PASSWORD" | "sc_state c = STATE_SENT_REQUEST"
    | "sc_state c = STATE_RECEIVED_REPLY_HEADER" using c(3) by (auto simp: sc_receiving_def)
  then show ?thesis
  proof cases
    case 1
    then show ?thesis using r by (intro recv_hello_inv [OF ra c(1)]) (simp_all add: recv_complete_def)
  next
    case 2
    then show ?thesis using r c auth_finished_inv [OF ra c(1), of call c']
      by (auto simp: recv_complete_def recv_password_def Let_def report_error_def split: if_splits)
  next
    case 3
    then show ?thesis using r c
      by (auto simp: recv_complete_def recv_reply_header_def Let_def report_error_def sc_inv_def sc_common_def
          start_receive_def do_receive_def sc_receiving_def split: if_splits)
  next
    case 4
    then show ?thesis using r c
      by (auto simp: recv_complete_def recv_reply_rest_def Let_def sc_inv_def sc_common_def init_up_io_def free_control_io_def)
  qed
qed

lemma received_inv:
  assumes ra: "alloc_sound ra"
    and c: "sc_inv c (ScRecv off k)" and xs: "xs \<noteq> []" "length xs \<le> k"
    and r: "recv_handler_done ra (c\<lparr>sc_buffer := Some (mem_write (the (sc_buffer c)) off xs)\<rparr>) (length xs) = (call, c')"
  shows "sc_inv c' call"
proof -
  obtain b where b: "sc_buffer c = Some b" "sc_receiving (sc_state c) (recv_dest c) (recv_total c) (length b)"
    "recv_len c < recv_total c" "off = recv_dest c + recv_len c" "k = recv_total c - recv_len c"
    using c by (auto simp: sc_inv_def)
  let ?c = "c\<lparr>sc_buffer := Some (mem_write b off xs), recv_len := recv_len c + length xs\<rparr>"
  have len: "length (mem_write b off xs) = length b" using b xs(2) by (auto simp: sc_receiving_def)
  have com: "sc_common ?c" using c by (simp add: sc_inv_def sc_common_def)
  show ?thesis
  proof (cases "recv_len ?c < recv_total ?c")
    case True
    then show ?thesis using r b com len by (auto simp: recv_handler_done_def Let_def sc_inv_def do_receive_def)
  next
    case False
    then have "recv_complete ra ?c = (call, c')" using r b(1) by (simp add: recv_handler_done_def Let_def)
    from recv_complete_inv [OF ra com _ _ this] show ?thesis using b len by simp
  qed
qed

lemma continue_inv:
  assumes ra: "alloc_sound ra" and c: "sc_inv c (ScEvent BSOCKSCLIENT_EVENT_CONNECTED)"
    and r: "continue_job_handler ra (c\<lparr>sc_continue_job := False\<rparr>) = (call, c')"
  shows "sc_inv c' call"
proof -
  let ?c = "c\<lparr>sc_continue_job := False\<rparr>"
  let ?n = "length (sc_auth_info c)"
  let ?sz = "bsize_add (bsize_fromsize 2) (bsize_mul (bsize_fromsize ?n) (bsize_fromsize 1))"
  have com: "sc_common ?c" using c by (simp add: sc_inv_def sc_common_def)
  show ?thesis
  proof (cases "?n \<in> {1..255}")
    case True
    then have v: "bs_value ?sz = 2 + ?n" by (simp add: bsize_defs)
    have ok: "\<not> (?n = 0 \<or> ?n > 255)" using True by auto
    show ?thesis
    proof (rule reserve_cases [OF ra, of ?sz ?c])
      assume "reserve_buffer ra ?c ?sz = None"
      then show ?thesis using r com ok unfolding continue_job_handler_def Let_def by (auto simp: report_error_def)
    next
      fix b
      assume b: "reserve_buffer ra ?c ?sz = Some (?c\<lparr>sc_buffer := Some b\<rparr>)" "length b = bs_value ?sz"
      let ?b = "write_methods (mem_write b 0 [SOCKS_VERSION, of_nat ?n]) 0 (sc_auth_info c)"
      have "length ?b = bs_value ?sz" using b(2) v by (simp add: write_methods_mem)
      then show ?thesis using r c ok b unfolding continue_job_handler_def Let_def
        by (auto simp: sc_inv_def sc_common_def mem_read_all)
    qed (use v in simp)
  next
    case False
    then have "?n = 0 \<or> ?n > 255" by (cases ?n) auto
    then show ?thesis using r com by (auto simp: continue_job_handler_def Let_def report_error_def)
  qed
qed

lemma sc_reach_inv: "sc_reach c call \<Longrightarrow> sc_inv c call"
proof (induction rule: sc_reach.induct)
  case (init c0 auths dest u c)
  then show ?case by (auto simp: BSocksClient_Init_def Let_def sc_inv_def sc_common_def)
next
  case (connector c call con_ok is_error call' c')
  then show ?case
    by (auto simp: connector_handler_def report_error_def Let_def init_control_io_def sc_inv_def sc_common_def split: if_splits)
next
  case (set_dest c call a)
  then show ?case by (cases call) (auto simp: BSocksClient_SetDestAddr_def sc_inv_def sc_common_def sc_receiving_def)
next
  case (continue_job c call ra call' c')
  then show ?case using continue_inv by blast
next
  case (sent c m ra call' c')
  then show ?case using send_done_inv by blast
next
  case (received c off k ra xs call' c')
  then show ?case using received_inv by blast
next
  case (stop c call closed call' c')
  then show ?case by (auto simp: connection_handler_def report_error_def sc_inv_def split: if_splits)
qed

lemma socks_run_implements:
  assumes "BSocksClient_Init c0 auths dest u True = Some c" "connector_handler True c False = (call, c1)"
    "alloc_ok ra" "addr_ok dest" "baddr_abs dest = Some a" "list_all (\<lambda>ai. auth_type ai \<in> {0, 2}) auths"
    "length s + 3 \<le> length ns"
  shows "\<exists>ms out r. sc_run ra (continue_job_handler ra c1) ns s = (ms, r) \<and> socks_spec auths u a s = (ms, out) \<and> agrees out r"
proof -
  have c1: "sc_state c1 = STATE_CONNECTED_HANDLER" "sc_auth_info c1 = auths" "sc_dest_addr c1 = dest" "sc_udp c1 = u"
    using assms(1,2) by (auto simp: BSocksClient_Init_def connector_handler_def Let_def init_control_io_def)
  show ?thesis
  proof (cases "length auths \<in> {1..255}")
    case True
    obtain b where b: "continue_job_handler ra c1 = (ScSend (hello_msg auths), c1\<lparr>sc_buffer := Some b, sc_state := STATE_SENDING_HELLO\<rparr>)"
      using continue_sends_hello [OF assms(3), of c1] True c1(2) by auto
    obtain ms out where sp: "spec_hello auths (request_msg u a) s = (ms, out)" by fastforce
    obtain n ns' where ns: "ns = n # ns'" using assms(7) by (cases ns) auto
    have "run_ok ra (continue_job_handler ra c1) ns s (hello_msg auths # ms) out"
      unfolding b ns by (rule run_ok_send, rule hello_phase [OF assms(3)]) (use assms c1 sp ns in auto)
    then show ?thesis using True sp by (auto simp: run_ok_def socks_spec_def)
  next
    case False
    then have "length auths = 0 \<or> length auths > 255" by (cases "length auths") auto
    then have "continue_job_handler ra c1 = report_error c1 BSOCKSCLIENT_EVENT_ERROR"
      using c1(2) by (auto simp: continue_job_handler_def Let_def)
    then show ?thesis using False run_ok_error [of c1 ra ns s] c1(1) by (auto simp: run_ok_def socks_spec_def)
  qed
qed

section \<open>Properties\<close>

definition socks_test_client :: BSocksClient where
  "socks_test_client = \<lparr>sc_auth_info = [], sc_dest_addr = \<lparr>addr_type = 1, ipv4_ip = 0, ipv4_port = 0, ipv6_ip = [], ipv6_port = 0\<rparr>,
     sc_udp = False, sc_bind_addr = \<lparr>addr_type = 0, ipv4_ip = 0, ipv4_port = 0, ipv6_ip = [], ipv6_port = 0\<rparr>,
     sc_state = STATE_UP, sc_buffer = None, sc_con = False, sc_io = NoIo, sc_continue_job = False,
     recv_dest = 0, recv_len = 0, recv_total = 0\<rparr>"

definition socks_test_addr :: BAddr where
  "socks_test_addr = \<lparr>addr_type = 1, ipv4_ip = 0x0100007F, ipv4_port = 0x5000, ipv6_ip = [], ipv6_port = 0\<rparr>"

text \<open>
  C9. The client implements the SOCKS5 handshake. Started for a list of methods (none or
  user name and password) and an IPv4 or IPv6 destination, connected, and run against any bytes of
  the server however they are cut, the client sends exactly the messages the protocol prescribes and
  ends as prescribed: it waits for more, it reports an error, or it is up with the address the server
  has bound, and the bytes after the reply are left for the user.
\<close>

theorem socks_client_implements:
  assumes "BSocksClient_Init c0 auths dest u True = Some c" "connector_handler True c False = (call, c1)"
    "alloc_ok ra" "addr_ok dest" "baddr_abs dest = Some a" "list_all (\<lambda>ai. auth_type ai \<in> {0, 2}) auths"
    "length s + 3 \<le> length ns"
  shows "\<exists>ms out r. sc_run ra (continue_job_handler ra c1) ns s = (ms, r) \<and> socks_spec auths u a s = (ms, out) \<and> agrees out r"
  using assms by (rule socks_run_implements)

theorem socks_client_implements_witness:
  "\<exists>c call c1 ms out r. BSocksClient_Init socks_test_client [BSocksClient_auth_none] socks_test_addr False True = Some c \<and>
     connector_handler True c False = (call, c1) \<and>
     sc_run (\<lambda>m n. Some (replicate n 0)) (continue_job_handler (\<lambda>m n. Some (replicate n 0)) c1) (replicate 20 1) [5, 0, 5, 0, 0, 1, 10, 0, 0, 1, 0, 80] = (ms, r) \<and>
     socks_spec [BSocksClient_auth_none] False (IPv4Addr 0x0100007F 0x5000) [5, 0, 5, 0, 0, 1, 10, 0, 0, 1, 0, 80] = (ms, out) \<and> agrees out r"
proof -
  obtain c where c: "BSocksClient_Init socks_test_client [BSocksClient_auth_none] socks_test_addr False True = Some c"
    by (simp add: BSocksClient_Init_def)
  obtain call c1 where c1: "connector_handler True c False = (call, c1)" by fastforce
  show ?thesis
    using socks_client_implements [OF c c1, of "\<lambda>m n. Some (replicate n 0)" "IPv4Addr 0x0100007F 0x5000"
        "[5, 0, 5, 0, 0, 1, 10, 0, 0, 1, 0, 80]" "replicate 20 1"] c c1
    by (auto simp: alloc_ok_def addr_ok_def baddr_abs_def socks_test_addr_def socks_consts BSocksClient_auth_none_def)
qed

text \<open>
  C38. A connection succeeds. Against a server that chooses password authentication, accepts the
  password and reports success with the bound address \<open>b\<close>, the client sends hello, credentials and
  request, goes up with exactly that address, and leaves the bytes that follow unread.
\<close>

theorem socks_password_connects:
  assumes "BSocksClient_Init c0 [BSocksClient_auth_password usr pwd] dest u True = Some c" "connector_handler True c False = (call, c1)"
    "alloc_ok ra" "addr_ok dest" "baddr_abs dest = Some a" "length usr \<in> {1..255}" "length pwd \<in> {1..255}"
    "length (addr_bytes b) = (if addr_atyp b = 1 then 6 else 18)"
    "s = [5, 2] @ [1, 0] @ [5, 0, rsv, addr_atyp b] @ addr_bytes b @ rest" "length s + 3 \<le> length ns"
  shows "\<exists>c2. sc_run ra (continue_job_handler ra c1) ns s =
      ([[5, 1, 2], [1, of_nat (length usr)] @ usr @ [of_nat (length pwd)] @ pwd, request_msg u a],
       ScEvent BSOCKSCLIENT_EVENT_UP, c2, rest) \<and>
    sc_state c2 = STATE_UP \<and> baddr_abs (BSocksClient_GetBindAddr c2) = Some b"
proof -
  have rep: "spec_reply ([5, 0, rsv, addr_atyp b] @ addr_bytes b @ rest) = SpecUp b rest"
    using assms(8) by (cases b) (auto simp: spec_reply_def)
  let ?au = "[BSocksClient_auth_password usr pwd]"
  have "socks_spec ?au u a s = ([hello_msg ?au, password_msg (hd ?au), request_msg u a], SpecUp b rest)"
    using assms(6,7) rep
    by (simp add: assms(9) socks_spec_def spec_hello_def spec_password_def BSocksClient_auth_password_def password_ok_def socks_consts)
  moreover have "hello_msg ?au = [5, 1, 2]"
    "password_msg (hd ?au) = [1, of_nat (length usr)] @ usr @ [of_nat (length pwd)] @ pwd"
    by (simp_all add: hello_msg_def password_msg_def BSocksClient_auth_password_def socks_consts)
  moreover have "list_all (\<lambda>ai. auth_type ai \<in> {0, 2}) ?au" by (simp add: BSocksClient_auth_password_def socks_consts)
  note socks_run_implements [OF assms(1-5) this assms(10)]
  ultimately show ?thesis by auto
qed

theorem socks_password_connects_witness:
  "\<exists>c call c1 c2. BSocksClient_Init socks_test_client [BSocksClient_auth_password [117] [112, 119]] socks_test_addr True True = Some c \<and>
     connector_handler True c False = (call, c1) \<and>
     sc_run (\<lambda>m n. Some (replicate n 0)) (continue_job_handler (\<lambda>m n. Some (replicate n 0)) c1) (replicate 20 1)
       ([5, 2] @ [1, 0] @ [5, 0, 0, addr_atyp (IPv4Addr 1 2)] @ addr_bytes (IPv4Addr 1 2) @ [77]) =
      ([[5, 1, 2], [1, 1, 117, 2, 112, 119], request_msg True (IPv4Addr 0x0100007F 0x5000)], ScEvent BSOCKSCLIENT_EVENT_UP, c2, [77]) \<and>
     baddr_abs (BSocksClient_GetBindAddr c2) = Some (IPv4Addr 1 2)"
proof -
  obtain c where c: "BSocksClient_Init socks_test_client [BSocksClient_auth_password [117] [112, 119]] socks_test_addr True True = Some c"
    by (simp add: BSocksClient_Init_def)
  obtain call c1 where c1: "connector_handler True c False = (call, c1)" by fastforce
  have ad: "addr_ok socks_test_addr" "baddr_abs socks_test_addr = Some (IPv4Addr 0x0100007F 0x5000)"
    "alloc_ok (\<lambda>m n. Some (replicate n 0))"
    by (simp_all add: alloc_ok_def addr_ok_def baddr_abs_def socks_test_addr_def socks_consts)
  show ?thesis
    using socks_password_connects [OF c c1 ad(3,1,2), of "IPv4Addr 1 2"
        "[5, 2] @ [1, 0] @ [5, 0, 0, addr_atyp (IPv4Addr 1 2)] @ addr_bytes (IPv4Addr 1 2) @ [77]" 0 "[77]" "replicate 20 1"] c c1
    by auto
qed

text \<open>
  C27. Memory safety and resources. In every state the client can reach, whatever the server sends,
  allocations failing at any point and the connection closing at any point: a receive is inside the
  allocated buffer and not empty, a message sent is the whole buffer, no branch the code assumes
  impossible is taken, the client is up when it says so, and \<open>BSocksClient_Free\<close> releases exactly
  what has been initialised.
\<close>

theorem socks_client_safe:
  assumes "sc_reach c call"
  shows "(\<forall>off k. call = ScRecv off k \<longrightarrow> (\<exists>b. sc_buffer c = Some b \<and> 0 < k \<and> off + k \<le> length b)) \<and>
    (\<forall>m. call = ScSend m \<longrightarrow> sc_buffer c = Some m) \<and> call \<noteq> ScUndefined \<and>
    (call = ScNothing \<longrightarrow> sc_state c = STATE_CONNECTING) \<and>
    (call = ScEvent BSOCKSCLIENT_EVENT_UP \<longrightarrow> sc_state c = STATE_UP) \<and> BSocksClient_Free c = sc_held c"
proof -
  have inv: "sc_common c" "sc_call_ok c call" using sc_reach_inv [OF assms] by (auto simp: sc_inv_def)
  have "call = ScRecv off k \<Longrightarrow> \<exists>b. sc_buffer c = Some b \<and> 0 < k \<and> off + k \<le> length b" for off k
    using inv(2) by (auto simp: sc_receiving_def)
  moreover have "BSocksClient_Free c = sc_held c" using inv(1) by (auto simp: BSocksClient_Free_def sc_held_def sc_common_def)
  ultimately show ?thesis using inv(2) by (cases call) auto
qed

theorem socks_client_safe_witness:
  "\<exists>c call. BSocksClient_Init socks_test_client [BSocksClient_auth_none] socks_test_addr False True = Some c \<and>
     sc_reach c call \<and> call \<noteq> ScUndefined \<and> BSocksClient_Free c = sc_held c"
proof -
  obtain c where c: "BSocksClient_Init socks_test_client [BSocksClient_auth_none] socks_test_addr False True = Some c"
    by (simp add: BSocksClient_Init_def)
  have "sc_reach c ScNothing"
    by (rule sc_reach.init [OF c]) (auto simp: addr_ok_def socks_test_addr_def socks_consts BSocksClient_auth_none_def)
  from socks_client_safe [OF this] this c show ?thesis by blast
qed

end
