(* ===== verification/Tcp_Relay.thy ===== *)
theory Tcp_Relay
  imports Socks_Client
begin

text \<open>
  The TCP relay of tun2socks (\<open>tun2socks/tun2socks.c\<close>, from \<open>listener_accept_func\<close> to
  \<open>client_sent_func\<close>): one \<open>struct tcp_client\<close> per connection that lwIP accepted on the TUN side,
  which copies bytes between lwIP's connection and a SOCKS connection, in both directions, with a
  bounded buffer for each.

  lwIP and the reactor are the environment. What lwIP answers to \<open>tcp_close\<close>, \<open>tcp_sndbuf\<close>, \<open>tcp_write\<close>
  and \<open>tcp_output\<close> is an argument of the handlers. The log, which the code does not have, records the
  calls made on lwIP and on the SOCKS client and the data that came in; the properties speak of it.
  \<open>free\<close> is a flag. \<open>send_offer\<close> and \<open>recv_busy\<close> say which operations on the stream interfaces of the
  SOCKS connection are in progress, and the three flags \<open>cb_err\<close>, \<open>cb_recv\<close>, \<open>cb_sent\<close> which callbacks
  are set on the connection of lwIP.
\<close>

section \<open>The client\<close>

definition TCP_WND :: nat where
  "TCP_WND = 4 * 1460"

definition CLIENT_SOCKS_RECV_BUF_SIZE :: nat where
  "CLIENT_SOCKS_RECV_BUF_SIZE = 8192"

datatype err_t = ERR_OK | ERR_MEM | ERR_ABRT | ERR_OTHER

datatype tc_act =
    FromClient bytes  \<comment> \<open>lwIP delivered data, which was accepted\<close>
  | ToSocks bytes  \<comment> \<open>the SOCKS connection took data\<close>
  | FromSocks bytes  \<comment> \<open>the SOCKS connection delivered data\<close>
  | TcpWrite bytes  \<comment> \<open>\<open>tcp_write\<close> accepted data\<close>
  | TcpRecved nat
  | TcpOutput
  | TcpClose
  | TcpAbort
  | TcpLost  \<comment> \<open>lwIP freed the connection itself and called the error callback\<close>
  | SocksFree
  | Dealloc
  | ClientEof  \<comment> \<open>lwIP delivered the end of the client's stream\<close>
  | Stopped  \<comment> \<open>the SOCKS client failed or was closed by its peer, or the program quits\<close>

record tcp_client =
  aborted :: bool
  dead_aborted :: int
  client_closed :: bool
  tc_buf :: bytes
  tc_used :: nat
  socks_up :: bool
  socks_closed :: bool
  socks_recv_buf :: bytes
  socks_recv_buf_used :: int
  socks_recv_buf_sent :: nat
  socks_recv_waiting :: bool
  socks_recv_tcp_pending :: nat
  cb_err :: bool
  cb_recv :: bool
  cb_sent :: bool
  send_offer :: nat
  recv_busy :: bool
  freed :: bool
  tc_log :: "tc_act list"

text \<open>What lwIP answers: \<open>tcp_close\<close> succeeds; \<open>tcp_sndbuf\<close> and \<open>tcp_write\<close> at the i-th turn of the
  sending loop; \<open>tcp_output\<close>.\<close>

record lwip_env =
  close_ok :: bool
  sndbuf :: "nat \<Rightarrow> nat"
  write_err :: "nat \<Rightarrow> err_t"
  output_err :: err_t

definition tc_note :: "tc_act \<Rightarrow> tcp_client \<Rightarrow> tcp_client" where
  "tc_note a c = c\<lparr>tc_log := tc_log c @ [a]\<rparr>"

definition tc_no_callbacks :: "tcp_client \<Rightarrow> tcp_client" where
  "tc_no_callbacks c = c\<lparr>cb_err := False, cb_recv := False, cb_sent := False\<rparr>"

section \<open>Closing\<close>

definition client_abort_pcb :: "tcp_client \<Rightarrow> tcp_client" where
  "client_abort_pcb c = (tc_note TcpAbort c)\<lparr>aborted := True, dead_aborted := 1\<rparr>"

definition client_dealloc :: "tcp_client \<Rightarrow> tcp_client" where
  "client_dealloc c =
     (let c1 = (if \<not> aborted c then c\<lparr>dead_aborted := -1\<rparr> else c) in tc_note Dealloc (c1\<lparr>freed := True\<rparr>))"

function (sequential) client_handle_freed_client :: "lwip_env \<Rightarrow> tcp_client \<Rightarrow> tcp_client"
  and client_free_client :: "lwip_env \<Rightarrow> tcp_client \<Rightarrow> tcp_client"
  and client_free_socks :: "lwip_env \<Rightarrow> tcp_client \<Rightarrow> tcp_client" where
  "client_handle_freed_client e c =
     (let c1 = c\<lparr>client_closed := True\<rparr>
      in if tc_used c1 > 0 \<and> \<not> socks_closed c1 then c1
         else if \<not> socks_closed c1 then client_free_socks e c1 else client_dealloc c1)"
| "client_free_client e c =
     (let c1 = tc_no_callbacks c
      in client_handle_freed_client e (if close_ok e then tc_note TcpClose c1 else client_abort_pcb c1))"
| "client_free_socks e c =
     (let c1 = (if socks_up c \<and> \<not> client_closed c then c\<lparr>cb_recv := False\<rparr> else c);
          c2 = (tc_note SocksFree c1)\<lparr>send_offer := 0, recv_busy := False, socks_closed := True\<rparr>
      in if socks_up c2 \<and> (socks_recv_buf_used c2 \<ge> 0 \<or> socks_recv_tcp_pending c2 > 0) \<and> \<not> client_closed c2 then c2
         else if \<not> client_closed c2 then client_free_client e c2 else client_dealloc c2)"
  by pat_completeness auto
termination
  by (relation "measure (\<lambda>x. case x of
        Inl (e, c) \<Rightarrow> if socks_closed c then 0 else 2
      | Inr (Inl (e, c)) \<Rightarrow> if socks_closed c then 1 else 3
      | Inr (Inr (e, c)) \<Rightarrow> if client_closed c then 1 else 2)")
    (auto simp: tc_no_callbacks_def tc_note_def client_abort_pcb_def)

declare client_handle_freed_client.simps [simp del] client_free_client.simps [simp del] client_free_socks.simps [simp del]

definition client_abort_client :: "lwip_env \<Rightarrow> tcp_client \<Rightarrow> tcp_client" where
  "client_abort_client e c = client_handle_freed_client e (client_abort_pcb (tc_no_callbacks c))"

definition client_murder :: "tcp_client \<Rightarrow> tcp_client" where
  "client_murder c =
     (let c1 = (if \<not> client_closed c then (client_abort_pcb (tc_no_callbacks c))\<lparr>client_closed := True\<rparr> else c);
          c2 = (if \<not> socks_closed c1 then (tc_note SocksFree c1)\<lparr>send_offer := 0, recv_busy := False, socks_closed := True\<rparr> else c1)
      in client_dealloc c2)"

text \<open>lwIP has freed the connection, so its callbacks are gone.\<close>

definition client_err_func :: "lwip_env \<Rightarrow> tcp_client \<Rightarrow> tcp_client" where
  "client_err_func e c = client_handle_freed_client e (tc_note TcpLost (tc_no_callbacks c))"

section \<open>From the client to SOCKS\<close>

definition client_send_to_socks :: "tcp_client \<Rightarrow> tcp_client" where
  "client_send_to_socks c = c\<lparr>send_offer := tc_used c\<rparr>"

definition client_socks_send_handler_done :: "lwip_env \<Rightarrow> tcp_client \<Rightarrow> nat \<Rightarrow> tcp_client" where
  "client_socks_send_handler_done e c data_len =
     (let c1 = c\<lparr>tc_buf := mem_write (tc_buf c) 0 (mem_read (tc_buf c) data_len (tc_used c - data_len)),
                 tc_used := tc_used c - data_len\<rparr>;
          c2 = (if \<not> client_closed c1 then tc_note (TcpRecved data_len) c1 else c1)
      in if tc_used c2 > 0 then c2\<lparr>send_offer := tc_used c2\<rparr>
         else if client_closed c2 then client_free_socks e c2 else c2)"

section \<open>From SOCKS to the client\<close>

definition client_socks_recv_initiate :: "tcp_client \<Rightarrow> tcp_client" where
  "client_socks_recv_initiate c = c\<lparr>recv_busy := True\<rparr>"

text \<open>The loop of \<open>client_socks_recv_send_out\<close>; True: the client was aborted.\<close>

function send_out_loop :: "lwip_env \<Rightarrow> nat \<Rightarrow> tcp_client \<Rightarrow> bool \<times> tcp_client" where
  "send_out_loop e i c =
     (let to_write = nat (min (socks_recv_buf_used c - int (socks_recv_buf_sent c)) (int (sndbuf e i)))
      in if to_write = 0 then (False, c)
         else if write_err e i = ERR_MEM then (False, c)
         else if write_err e i \<noteq> ERR_OK then (True, client_abort_client e c)
         else let c1 = (tc_note (TcpWrite (mem_read (socks_recv_buf c) (socks_recv_buf_sent c) to_write)) c)
                    \<lparr>socks_recv_buf_sent := socks_recv_buf_sent c + to_write,
                     socks_recv_tcp_pending := socks_recv_tcp_pending c + to_write\<rparr>
              in if int (socks_recv_buf_sent c1) < socks_recv_buf_used c1 then send_out_loop e (i + 1) c1 else (False, c1))"
  by pat_completeness auto
termination
  by (relation "measure (\<lambda>(e, i, c). nat (socks_recv_buf_used c - int (socks_recv_buf_sent c)))") (auto simp: tc_note_def)

declare send_out_loop.simps [simp del]

text \<open>True: the result is -1.\<close>

definition client_socks_recv_send_out :: "lwip_env \<Rightarrow> tcp_client \<Rightarrow> bool \<times> tcp_client" where
  "client_socks_recv_send_out e c =
     (case send_out_loop e 0 c of
        (True, c1) \<Rightarrow> (True, c1)
      | (False, c1) \<Rightarrow>
          (let c2 = tc_note TcpOutput c1
           in if output_err e \<noteq> ERR_OK then (True, client_abort_client e c2)
              else if int (socks_recv_buf_sent c2) < socks_recv_buf_used c2
              then (if socks_recv_tcp_pending c2 = 0 then (True, client_abort_client e c2)
                    else (False, c2\<lparr>socks_recv_waiting := True\<rparr>))
              else (False, c2\<lparr>socks_recv_buf_used := -1\<rparr>)))"

definition client_socks_recv_handler_done :: "lwip_env \<Rightarrow> tcp_client \<Rightarrow> nat \<Rightarrow> tcp_client" where
  "client_socks_recv_handler_done e c data_len =
     (if client_closed c then c
      else case client_socks_recv_send_out e
             (c\<lparr>socks_recv_buf_used := int data_len, socks_recv_buf_sent := 0, socks_recv_waiting := False\<rparr>) of
             (True, c1) \<Rightarrow> c1
           | (False, c1) \<Rightarrow> if socks_recv_buf_used c1 = -1 then client_socks_recv_initiate c1 else c1)"

definition client_socks_handler :: "lwip_env \<Rightarrow> tcp_client \<Rightarrow> socks_event \<Rightarrow> tcp_client" where
  "client_socks_handler e c ev =
     (case ev of
        BSOCKSCLIENT_EVENT_ERROR \<Rightarrow> client_free_socks e c
      | BSOCKSCLIENT_EVENT_UP \<Rightarrow>
          (let c1 = c\<lparr>socks_recv_buf_used := -1, socks_recv_tcp_pending := 0\<rparr>;
               c2 = (if \<not> client_closed c1 then c1\<lparr>cb_sent := True\<rparr> else c1);
               c3 = c2\<lparr>socks_up := True\<rparr>;
               c4 = (if tc_used c3 > 0 then client_send_to_socks c3 else c3)
           in if \<not> client_closed c4 then client_socks_recv_initiate c4 else c4)
      | BSOCKSCLIENT_EVENT_ERROR_CLOSED \<Rightarrow> client_free_socks e c
      | BSOCKSCLIENT_EVENT_CONNECTED \<Rightarrow> c)"

section \<open>Jobs and callbacks\<close>

text \<open>
  What the reactor can run for a client: a send or a receive on the SOCKS connection is done, or the
  SOCKS client reports an event. The interface has then finished its operation, and the receive has
  written its data to the buffer.
\<close>

datatype tc_job =
    JSendDone lwip_env nat
  | JRecvDone lwip_env bytes
  | JSocks lwip_env socks_event

fun job_enabled :: "tcp_client \<Rightarrow> tc_job \<Rightarrow> bool" where
  "job_enabled c (JSendDone e n) \<longleftrightarrow> \<not> freed c \<and> 0 < n \<and> n \<le> send_offer c"
| "job_enabled c (JRecvDone e xs) \<longleftrightarrow> \<not> freed c \<and> recv_busy c \<and> xs \<noteq> [] \<and> length xs \<le> CLIENT_SOCKS_RECV_BUF_SIZE"
| "job_enabled c (JSocks e ev) \<longleftrightarrow> \<not> freed c \<and> \<not> socks_closed c \<and> (ev = BSOCKSCLIENT_EVENT_UP \<longrightarrow> \<not> socks_up c) \<and>
     (ev = BSOCKSCLIENT_EVENT_ERROR_CLOSED \<longrightarrow> socks_up c)"

fun do_job :: "tc_job \<Rightarrow> tcp_client \<Rightarrow> tcp_client" where
  "do_job (JSendDone e n) c =
     client_socks_send_handler_done e ((tc_note (ToSocks (mem_read (tc_buf c) 0 n)) c)\<lparr>send_offer := 0\<rparr>) n"
| "do_job (JRecvDone e xs) c =
     client_socks_recv_handler_done e
       ((tc_note (FromSocks xs) c)\<lparr>recv_busy := False, socks_recv_buf := mem_write (socks_recv_buf c) 0 xs\<rparr>) (length xs)"
| "do_job (JSocks e ev) c =
     client_socks_handler e
       (if ev = BSOCKSCLIENT_EVENT_ERROR \<or> ev = BSOCKSCLIENT_EVENT_ERROR_CLOSED then tc_note Stopped c else c) ev"

text \<open>\<open>SYNC_COMMIT\<close>: the reactor runs the jobs that are pending.\<close>

fun run_jobs :: "tc_job list \<Rightarrow> tcp_client \<Rightarrow> tcp_client" where
  "run_jobs [] c = c"
| "run_jobs (j # js) c = (if job_enabled c j then run_jobs js (do_job j c) else c)"

text \<open>\<open>DEAD_LEAVE2\<close> and the result of a callback.\<close>

definition callback_result :: "tcp_client \<Rightarrow> err_t \<times> tcp_client" where
  "callback_result c = (if dead_aborted c > 0 then ERR_ABRT else ERR_OK, c)"

text \<open>\<open>p\<close> is None for NULL: the peer has closed.\<close>

definition client_recv_func :: "lwip_env \<Rightarrow> tc_job list \<Rightarrow> tcp_client \<Rightarrow> bytes option \<Rightarrow> err_t \<times> tcp_client" where
  "client_recv_func e js c p =
     (let c0 = c\<lparr>dead_aborted := 0\<rparr>
      in case p of
           None \<Rightarrow> callback_result (client_free_client e (tc_note ClientEof c0))
         | Some xs \<Rightarrow>
             (if length xs > length (tc_buf c0) - tc_used c0 then (ERR_MEM, c0)
              else let c1 = (tc_note (FromClient xs) c0)
                         \<lparr>tc_buf := mem_write (tc_buf c0) (tc_used c0) xs, tc_used := tc_used c0 + length xs\<rparr>
                   in callback_result
                        (if tc_used c1 = length xs \<and> socks_up c1 then run_jobs js (client_send_to_socks c1) else c1)))"

definition client_sent_func :: "lwip_env \<Rightarrow> tc_job list \<Rightarrow> tcp_client \<Rightarrow> nat \<Rightarrow> err_t \<times> tcp_client" where
  "client_sent_func e js c len =
     (let c1 = c\<lparr>dead_aborted := 0, socks_recv_tcp_pending := socks_recv_tcp_pending c - len\<rparr>
      in callback_result
           (if socks_recv_buf_used c1 > 0
            then case client_socks_recv_send_out e (c1\<lparr>socks_recv_waiting := False\<rparr>) of
                   (True, c2) \<Rightarrow> c2
                 | (False, c2) \<Rightarrow>
                     if socks_recv_buf_used c2 = -1 \<and> \<not> socks_closed c2
                     then run_jobs js (client_socks_recv_initiate c2) else c2
            else if socks_closed c1 \<and> socks_recv_tcp_pending c1 = 0 then client_free_client e c1
            else c1))"

text \<open>
  \<open>mem\<close>: the memory \<open>malloc\<close> returned, or None; \<open>name_ok\<close>: the user name with the source address could
  be built, or need not be; \<open>init_ok\<close>: \<open>BSocksClient_Init\<close> succeeded.
\<close>

definition listener_accept_func :: "tc_job list \<Rightarrow> tcp_client option \<Rightarrow> bool \<Rightarrow> bool \<Rightarrow> err_t \<times> tcp_client option" where
  "listener_accept_func js mem name_ok init_ok =
     (case mem of
        None \<Rightarrow> (ERR_MEM, None)
      | Some m \<Rightarrow>
          if \<not> name_ok then (ERR_MEM, None)
          else if \<not> init_ok then (ERR_MEM, None)
          else let c = m\<lparr>aborted := False, dead_aborted := 0, client_closed := False, cb_err := True, cb_recv := True,
                         tc_used := 0, socks_up := False, socks_closed := False, cb_sent := False, send_offer := 0,
                         recv_busy := False, freed := False, tc_log := []\<rparr>
               in case callback_result (run_jobs js c) of (r, c1) \<Rightarrow> (r, Some c1))"

section \<open>What the log says\<close>

definition up_in :: "tc_act list \<Rightarrow> bytes" where
  "up_in L = concat (map (\<lambda>a. case a of FromClient xs \<Rightarrow> xs | _ \<Rightarrow> []) L)"

definition up_out :: "tc_act list \<Rightarrow> bytes" where
  "up_out L = concat (map (\<lambda>a. case a of ToSocks xs \<Rightarrow> xs | _ \<Rightarrow> []) L)"

definition down_in :: "tc_act list \<Rightarrow> bytes" where
  "down_in L = concat (map (\<lambda>a. case a of FromSocks xs \<Rightarrow> xs | _ \<Rightarrow> []) L)"

definition down_out :: "tc_act list \<Rightarrow> bytes" where
  "down_out L = concat (map (\<lambda>a. case a of TcpWrite xs \<Rightarrow> xs | _ \<Rightarrow> []) L)"

definition recved :: "tc_act list \<Rightarrow> nat" where
  "recved L = sum_list (map (\<lambda>a. case a of TcpRecved n \<Rightarrow> n | _ \<Rightarrow> 0) L)"

lemma log_simps [simp]:
  "up_in [] = []" "up_in (L @ M) = up_in L @ up_in M" "up_in (a # M) = (case a of FromClient xs \<Rightarrow> xs | _ \<Rightarrow> []) @ up_in M"
  "up_out [] = []" "up_out (L @ M) = up_out L @ up_out M" "up_out (a # M) = (case a of ToSocks xs \<Rightarrow> xs | _ \<Rightarrow> []) @ up_out M"
  "down_in [] = []" "down_in (L @ M) = down_in L @ down_in M" "down_in (a # M) = (case a of FromSocks xs \<Rightarrow> xs | _ \<Rightarrow> []) @ down_in M"
  "down_out [] = []" "down_out (L @ M) = down_out L @ down_out M" "down_out (a # M) = (case a of TcpWrite xs \<Rightarrow> xs | _ \<Rightarrow> []) @ down_out M"
  "recved [] = 0" "recved (L @ M) = recved L + recved M" "recved (a # M) = (case a of TcpRecved n \<Rightarrow> n | _ \<Rightarrow> 0) + recved M"
  by (auto simp: up_in_def up_out_def down_in_def down_out_def recved_def split: tc_act.splits)

definition pcb_freed :: "tc_act \<Rightarrow> bool" where
  "pcb_freed a \<longleftrightarrow> a = TcpClose \<or> a = TcpAbort \<or> a = TcpLost"

text \<open>The connection of lwIP was given up by lwIP's side or because of an error.\<close>

definition client_gone :: "tc_act list \<Rightarrow> bool" where
  "client_gone L \<longleftrightarrow> ClientEof \<in> set L \<or> TcpAbort \<in> set L \<or> TcpLost \<in> set L"

lemma client_gone_simps [simp]:
  "\<not> client_gone []" "client_gone (L @ M) \<longleftrightarrow> client_gone L \<or> client_gone M"
  "client_gone (a # M) \<longleftrightarrow> a = ClientEof \<or> a = TcpAbort \<or> a = TcpLost \<or> client_gone M"
  by (auto simp: client_gone_def)

section \<open>The invariant\<close>

text \<open>The bytes received from SOCKS that are not yet given to lwIP.\<close>

definition unsent :: "tcp_client \<Rightarrow> bytes" where
  "unsent c = (if socks_recv_buf_used c < 0 then []
     else mem_read (socks_recv_buf c) (socks_recv_buf_sent c) (nat (socks_recv_buf_used c) - socks_recv_buf_sent c))"

definition tc_data :: "tcp_client \<Rightarrow> bool" where
  "tc_data c \<longleftrightarrow> length (tc_buf c) = TCP_WND \<and> tc_used c \<le> TCP_WND \<and>
     length (socks_recv_buf c) = CLIENT_SOCKS_RECV_BUF_SIZE \<and>
     (\<exists>r. up_in (tc_log c) = up_out (tc_log c) @ r) \<and>
     (\<not> socks_closed c \<longrightarrow> up_in (tc_log c) = up_out (tc_log c) @ mem_read (tc_buf c) 0 (tc_used c)) \<and>
     (\<exists>r. down_in (tc_log c) = down_out (tc_log c) @ r) \<and>
     (\<not> socks_up c \<longrightarrow> down_in (tc_log c) = []) \<and>
     (socks_up c \<and> \<not> client_closed c \<longrightarrow> down_in (tc_log c) = down_out (tc_log c) @ unsent c) \<and>
     (\<not> client_closed c \<and> \<not> socks_closed c \<longrightarrow> recved (tc_log c) + tc_used c = length (up_in (tc_log c))) \<and>
     (socks_closed c \<and> Stopped \<notin> set (tc_log c) \<longrightarrow> up_in (tc_log c) = up_out (tc_log c)) \<and>
     (client_closed c \<and> \<not> client_gone (tc_log c) \<longrightarrow> socks_closed c \<and> down_in (tc_log c) = down_out (tc_log c))"

definition tc_count :: "tcp_client \<Rightarrow> nat \<Rightarrow> bool" where
  "tc_count c k \<longleftrightarrow> length (filter pcb_freed (tc_log c)) = k \<and>
     count_list (tc_log c) SocksFree = (if socks_closed c then 1 else 0) \<and>
     count_list (tc_log c) Dealloc = (if freed c then 1 else 0) \<and>
     (aborted c \<longleftrightarrow> TcpAbort \<in> set (tc_log c)) \<and> (dead_aborted c > 0 \<longleftrightarrow> aborted c)"

text \<open>The send to SOCKS and the receive from it, when the data is in the buffers as they say.\<close>

definition tc_sending :: "tcp_client \<Rightarrow> bool" where
  "tc_sending c \<longleftrightarrow> (send_offer c > 0 \<longleftrightarrow> socks_up c \<and> \<not> socks_closed c \<and> tc_used c > 0) \<and> send_offer c \<le> tc_used c"

definition tc_waiting :: "tcp_client \<Rightarrow> bool" where
  "tc_waiting c \<longleftrightarrow> socks_recv_buf_used c \<le> int CLIENT_SOCKS_RECV_BUF_SIZE \<and>
     int (socks_recv_buf_sent c) < socks_recv_buf_used c \<and> socks_recv_waiting c \<and> socks_recv_tcp_pending c > 0 \<and> \<not> recv_busy c"

definition tc_receiving :: "tcp_client \<Rightarrow> bool" where
  "tc_receiving c \<longleftrightarrow> socks_recv_buf_used c = -1 \<and> (\<not> socks_closed c \<longrightarrow> recv_busy c) \<or> tc_waiting c"

definition tc_live :: "tcp_client \<Rightarrow> bool" where
  "tc_live c \<longleftrightarrow> \<not> freed c \<and> \<not> (client_closed c \<and> socks_closed c) \<and>
     (cb_err c \<longleftrightarrow> \<not> client_closed c) \<and> (cb_recv c \<longleftrightarrow> \<not> client_closed c \<and> \<not> socks_closed c) \<and>
     (cb_sent c \<longleftrightarrow> socks_up c \<and> \<not> client_closed c) \<and> tc_sending c \<and>
     (recv_busy c \<longrightarrow> socks_up c \<and> \<not> socks_closed c) \<and> (socks_up c \<and> \<not> client_closed c \<longrightarrow> tc_receiving c) \<and>
     (socks_closed c \<longrightarrow> socks_up c \<and> socks_recv_tcp_pending c > 0) \<and> (client_closed c \<longrightarrow> tc_used c > 0)"

definition tc_dead :: "tcp_client \<Rightarrow> bool" where
  "tc_dead c \<longleftrightarrow> freed c \<and> client_closed c \<and> socks_closed c \<and> send_offer c = 0 \<and> \<not> recv_busy c \<and>
     \<not> cb_err c \<and> \<not> cb_recv c \<and> \<not> cb_sent c"

definition tc_inv :: "tcp_client \<Rightarrow> bool" where
  "tc_inv c \<longleftrightarrow> tc_data c \<and> tc_count c (if client_closed c then 1 else 0) \<and> (tc_live c \<or> tc_dead c)"

section \<open>Closing keeps the invariant\<close>

lemmas close_defs = tc_note_def client_abort_pcb_def client_dealloc_def tc_no_callbacks_def Let_def

text \<open>The client is being closed: lwIP's connection is gone and its callbacks with it.\<close>

definition tc_closing :: "tcp_client \<Rightarrow> bool" where
  "tc_closing c \<longleftrightarrow> tc_data c \<and> tc_count c 1 \<and> \<not> freed c \<and> \<not> client_closed c \<and> \<not> cb_err c \<and> \<not> cb_recv c \<and> \<not> cb_sent c \<and>
     tc_sending c \<and> (recv_busy c \<longrightarrow> socks_up c \<and> \<not> socks_closed c)"

definition socks_gone :: "tcp_client \<Rightarrow> tcp_client" where
  "socks_gone c = (tc_note SocksFree c)\<lparr>send_offer := 0, recv_busy := False, socks_closed := True\<rparr>"

lemma handle_freed_eq:
  "client_handle_freed_client e c =
     (if tc_used c > 0 \<and> \<not> socks_closed c then c\<lparr>client_closed := True\<rparr>
      else if \<not> socks_closed c then client_dealloc (socks_gone (c\<lparr>client_closed := True\<rparr>))
      else client_dealloc (c\<lparr>client_closed := True\<rparr>))"
  by (simp add: client_handle_freed_client.simps client_free_socks.simps socks_gone_def tc_note_def Let_def)

lemma free_socks_eq:
  "client_free_socks e c =
     (let c1 = (if socks_up c \<and> \<not> client_closed c then c\<lparr>cb_recv := False\<rparr> else c)
      in if socks_up c \<and> (socks_recv_buf_used c \<ge> 0 \<or> socks_recv_tcp_pending c > 0) \<and> \<not> client_closed c then socks_gone c1
         else if \<not> client_closed c then client_free_client e (socks_gone c1) else client_dealloc (socks_gone c1))"
  by (simp add: client_free_socks.simps [of e c] socks_gone_def tc_note_def Let_def)

text \<open>The data is kept by what only closes, notes or changes control fields.\<close>

lemma tc_data_close:
  assumes "tc_data c" "tc_buf d = tc_buf c" "tc_used d = tc_used c" "socks_recv_buf d = socks_recv_buf c"
    "socks_recv_buf_used d = socks_recv_buf_used c" "socks_recv_buf_sent d = socks_recv_buf_sent c"
    "socks_up d = socks_up c" "socks_closed c \<longrightarrow> socks_closed d" "client_closed c \<longrightarrow> client_closed d"
    "up_in (tc_log d) = up_in (tc_log c)" "up_out (tc_log d) = up_out (tc_log c)"
    "down_in (tc_log d) = down_in (tc_log c)" "down_out (tc_log d) = down_out (tc_log c)"
    "recved (tc_log d) = recved (tc_log c)" "set (tc_log c) \<subseteq> set (tc_log d)"
    "socks_closed d \<longrightarrow> socks_closed c \<or> Stopped \<in> set (tc_log d) \<or> up_in (tc_log c) = up_out (tc_log c)"
    "client_closed d \<longrightarrow> client_closed c \<or> client_gone (tc_log d) \<or> socks_closed d \<and> down_in (tc_log c) = down_out (tc_log c)"
  shows "tc_data d"
proof -
  have u: "unsent d = unsent c" by (simp add: unsent_def assms(4-6))
  have "client_gone (tc_log c) \<Longrightarrow> client_gone (tc_log d)" using assms(15) by (auto simp: client_gone_def)
  moreover have "Stopped \<in> set (tc_log c) \<Longrightarrow> Stopped \<in> set (tc_log d)" using assms(15) by auto
  ultimately show ?thesis using assms(1,8,9,16,17) unfolding tc_data_def u assms(2-7,10-14) by metis
qed

text \<open>The connection of lwIP may be closed: it is gone, or SOCKS is closed and all data was passed on.\<close>

definition tc_may_close :: "tcp_client \<Rightarrow> bool" where
  "tc_may_close c \<longleftrightarrow> client_gone (tc_log c) \<or> socks_closed c \<and> down_in (tc_log c) = down_out (tc_log c)"

lemma handle_freed_inv:
  assumes "tc_closing c" "tc_may_close c"
  shows "tc_inv (client_handle_freed_client e c)"
proof -
  have d: "tc_data (client_handle_freed_client e c)"
    by (rule tc_data_close [of c])
      (use assms in \<open>auto simp: tc_closing_def tc_may_close_def client_gone_def tc_data_def handle_freed_eq socks_gone_def close_defs\<close>)
  have k: "tc_count (client_handle_freed_client e c) 1"
    using assms by (auto simp: tc_closing_def tc_count_def handle_freed_eq socks_gone_def close_defs pcb_freed_def)
  have l: "tc_live (client_handle_freed_client e c) \<or> tc_dead (client_handle_freed_client e c)"
    using assms
    by (auto simp: tc_closing_def tc_live_def tc_dead_def tc_sending_def handle_freed_eq socks_gone_def close_defs)
  have "client_closed (client_handle_freed_client e c)" by (simp add: handle_freed_eq socks_gone_def close_defs)
  then show ?thesis using d k l by (simp add: tc_inv_def)
qed

text \<open>A client whose connection to lwIP is still there and may be closed.\<close>

definition tc_open :: "tcp_client \<Rightarrow> bool" where
  "tc_open c \<longleftrightarrow> tc_data c \<and> tc_count c 0 \<and> \<not> freed c \<and> \<not> client_closed c \<and> tc_sending c \<and>
     (recv_busy c \<longrightarrow> socks_up c \<and> \<not> socks_closed c)"

lemma close_inv:
  assumes "tc_open c"
  shows "tc_may_close c \<Longrightarrow> tc_inv (client_free_client e c)" "tc_inv (client_abort_client e c)" "tc_inv (client_err_func e c)"
proof -
  have n: "tc_data (tc_note a (tc_no_callbacks c))" if "pcb_freed a" for a
    by (rule tc_data_close [of c]) (use assms that in \<open>auto simp: tc_open_def close_defs pcb_freed_def\<close>)
  have n2: "tc_data (client_abort_pcb (tc_no_callbacks c))"
    by (rule tc_data_close [of c]) (use assms in \<open>auto simp: tc_open_def close_defs\<close>)
  have nt: "tc_closing (tc_note a (tc_no_callbacks c))" if "a = TcpClose \<or> a = TcpLost" for a
    using assms that n [of a]
    by (auto simp: tc_closing_def tc_open_def tc_count_def tc_sending_def tc_note_def tc_no_callbacks_def pcb_freed_def)
  have ab: "tc_closing (client_abort_pcb (tc_no_callbacks c))"
    using assms n2
    by (auto simp: tc_closing_def tc_open_def tc_count_def tc_sending_def close_defs pcb_freed_def)
  have m: "tc_may_close (client_abort_pcb (tc_no_callbacks c))" "tc_may_close (tc_note TcpLost (tc_no_callbacks c))"
    "tc_may_close c \<Longrightarrow> tc_may_close (tc_note TcpClose (tc_no_callbacks c))"
    by (auto simp: tc_may_close_def client_gone_def close_defs)
  show "tc_may_close c \<Longrightarrow> tc_inv (client_free_client e c)"
    using handle_freed_inv [OF nt m(3)] handle_freed_inv [OF ab m(1)] by (simp add: client_free_client.simps Let_def)
  show "tc_inv (client_abort_client e c)" using handle_freed_inv [OF ab m(1)] by (simp add: client_abort_client_def)
  show "tc_inv (client_err_func e c)" using handle_freed_inv [OF nt m(2)] by (simp add: client_err_func_def)
qed

lemma tc_live_open: "tc_inv c \<Longrightarrow> \<not> freed c \<Longrightarrow> \<not> client_closed c \<Longrightarrow> tc_open c"
  by (auto simp: tc_inv_def tc_live_def tc_dead_def tc_open_def)

lemma socks_gone_simps [simp]:
  "socks_closed (socks_gone c)" "client_closed (socks_gone c) = client_closed c" "freed (socks_gone c) = freed c"
  "send_offer (socks_gone c) = 0" "\<not> recv_busy (socks_gone c)" "tc_log (socks_gone c) = tc_log c @ [SocksFree]"
  by (simp_all add: socks_gone_def tc_note_def)

lemma free_socks_inv:
  assumes d: "tc_data c" and k: "tc_count c (if client_closed c then 1 else 0)" and o: "\<not> freed c" "\<not> socks_closed c"
    and cb: "cb_err c \<longleftrightarrow> \<not> client_closed c" "cb_sent c \<longleftrightarrow> socks_up c \<and> \<not> client_closed c" "cb_recv c \<longleftrightarrow> \<not> client_closed c"
    and r: "socks_up c \<and> \<not> client_closed c \<longrightarrow> tc_receiving c" and st: "Stopped \<in> set (tc_log c) \<or> tc_used c = 0"
  shows "tc_inv (client_free_socks e c)"
proof -
  define c1 where "c1 = socks_gone (if socks_up c \<and> \<not> client_closed c then c\<lparr>cb_recv := False\<rparr> else c)"
  have d1: "tc_data c1"
    by (rule tc_data_close [OF d]) (use d o st in \<open>auto simp: c1_def socks_gone_def tc_note_def tc_data_def\<close>)
  have k1: "tc_count c1 (if client_closed c then 1 else 0)"
    using k o by (auto simp: c1_def socks_gone_def tc_note_def tc_count_def pcb_freed_def)
  have f: "client_free_socks e c =
      (if socks_up c \<and> (socks_recv_buf_used c \<ge> 0 \<or> socks_recv_tcp_pending c > 0) \<and> \<not> client_closed c then c1
       else if \<not> client_closed c then client_free_client e c1 else client_dealloc c1)"
    by (auto simp: free_socks_eq c1_def Let_def)
  consider "socks_up c \<and> (socks_recv_buf_used c \<ge> 0 \<or> socks_recv_tcp_pending c > 0) \<and> \<not> client_closed c"
    | "\<not> (socks_up c \<and> (socks_recv_buf_used c \<ge> 0 \<or> socks_recv_tcp_pending c > 0))" "\<not> client_closed c" | "client_closed c" by argo
  then show ?thesis
  proof cases
    case 1
    then have "tc_live c1" using o cb r
      by (auto simp: tc_live_def tc_sending_def tc_receiving_def tc_waiting_def c1_def socks_gone_def tc_note_def)
    then show ?thesis using 1 f d1 k1 by (simp add: tc_inv_def c1_def split: if_splits)
  next
    case 2
    then have "tc_open c1" using d1 k1 o by (simp add: tc_open_def c1_def tc_sending_def)
    moreover have "tc_may_close c1" using 2 d
      by (auto simp: tc_may_close_def tc_data_def c1_def socks_gone_def tc_note_def unsent_def)
    ultimately show ?thesis using 2 f close_inv(1) by auto
  next
    case 3
    then have e: "client_free_socks e c = client_dealloc c1" using f by simp
    have "tc_data (client_dealloc c1)" by (rule tc_data_close [OF d1]) (auto simp: close_defs)
    moreover have "tc_count (client_dealloc c1) 1" "tc_dead (client_dealloc c1)" "client_closed (client_dealloc c1)"
      using k1 o 3 cb by (auto simp: tc_count_def tc_dead_def client_dealloc_def tc_note_def Let_def c1_def socks_gone_def pcb_freed_def split: if_splits)
    ultimately show ?thesis unfolding e by (simp add: tc_inv_def)
  qed
qed

section \<open>The handlers keep the invariant\<close>

lemma relay_send_inv:
  assumes inv: "tc_inv c" and en: "job_enabled c (JSendDone e n)"
  shows "tc_inv (do_job (JSendDone e n) c)"
proof -
  have live: "tc_live c" using inv en by (auto simp: tc_inv_def tc_dead_def)
  have s: "socks_up c" "\<not> socks_closed c" "0 < n" "n \<le> tc_used c" "\<not> freed c"
    using live en by (auto simp: tc_live_def tc_sending_def)
  have d: "tc_data c" and k: "tc_count c (if client_closed c then 1 else 0)" using inv by (simp_all add: tc_inv_def)
  let ?b = "mem_write (tc_buf c) 0 (mem_read (tc_buf c) n (tc_used c - n))"
  define c2 where "c2 = (if client_closed c then id else tc_note (TcpRecved n))
    (c\<lparr>tc_log := tc_log c @ [ToSocks (mem_read (tc_buf c) 0 n)], send_offer := 0, tc_buf := ?b, tc_used := tc_used c - n\<rparr>)"
  have bl: "tc_used c \<le> length (tc_buf c)" using d by (simp add: tc_data_def)
  have "length (mem_read (tc_buf c) n (tc_used c - n)) = tc_used c - n" using bl s by simp
  then have b: "length ?b = length (tc_buf c)" "mem_read ?b 0 (tc_used c - n) = mem_read (tc_buf c) n (tc_used c - n)"
    using bl mem_read_write_same [of 0 "mem_read (tc_buf c) n (tc_used c - n)" "tc_buf c"] by auto
  have split: "mem_read (tc_buf c) 0 (tc_used c) = mem_read (tc_buf c) 0 n @ mem_read (tc_buf c) n (tc_used c - n)"
    using mem_read_split [of "tc_buf c" 0 n "tc_used c - n"] s by simp
  have d2: "tc_data c2" using d s b split by (auto simp: tc_data_def c2_def tc_note_def unsent_def)
  have k2: "tc_count c2 (if client_closed c then 1 else 0)" using k by (auto simp: c2_def tc_count_def tc_note_def pcb_freed_def)
  have f: "do_job (JSendDone e n) c = (if tc_used c2 > 0 then c2\<lparr>send_offer := tc_used c2\<rparr>
      else if client_closed c2 then client_free_socks e c2 else c2)"
    by (simp add: client_socks_send_handler_done_def c2_def tc_note_def Let_def)
  show ?thesis
  proof (cases "tc_used c2 > 0 \<or> \<not> client_closed c")
    case True
    let ?c = "if tc_used c2 > 0 then c2\<lparr>send_offer := tc_used c2\<rparr> else c2"
    have "tc_data ?c" by (rule tc_data_close [OF d2]) auto
    moreover have "tc_count ?c (if client_closed c then 1 else 0)" using k2 by (auto simp: tc_count_def)
    moreover have "tc_live ?c" using live s True
      by (auto simp: tc_live_def tc_sending_def tc_receiving_def tc_waiting_def c2_def tc_note_def)
    moreover have "client_closed ?c = client_closed c" by (simp add: c2_def tc_note_def)
    moreover have "do_job (JSendDone e n) c = ?c" using f True by (auto simp: c2_def tc_note_def)
    ultimately show ?thesis by (simp add: tc_inv_def)
  next
    case False
    moreover have "client_closed c2 = client_closed c" by (simp add: c2_def tc_note_def)
    ultimately have "do_job (JSendDone e n) c = client_free_socks e c2" unfolding f by simp
    moreover have "tc_inv (client_free_socks e c2)"
      by (rule free_socks_inv) (use d2 k2 live s False in \<open>auto simp: c2_def tc_live_def\<close>)
    ultimately show ?thesis by simp
  qed
qed

text \<open>Data from SOCKS is being given to lwIP.\<close>

definition tc_push :: "tcp_client \<Rightarrow> bool" where
  "tc_push c \<longleftrightarrow> tc_open c \<and> socks_up c \<and> \<not> recv_busy c \<and> cb_err c \<and> cb_sent c \<and> (cb_recv c \<longleftrightarrow> \<not> socks_closed c) \<and>
     int (socks_recv_buf_sent c) \<le> socks_recv_buf_used c \<and> socks_recv_buf_used c \<le> int CLIENT_SOCKS_RECV_BUF_SIZE"

text \<open>What the loop leaves, when it does not abort.\<close>

definition tc_pushed :: "tcp_client \<Rightarrow> tcp_client \<Rightarrow> bool" where
  "tc_pushed c c' \<longleftrightarrow> tc_push c' \<and> socks_closed c' = socks_closed c \<and> socks_recv_buf_used c' = socks_recv_buf_used c \<and>
     socks_recv_tcp_pending c \<le> socks_recv_tcp_pending c' \<and>
     (socks_recv_buf_sent c < socks_recv_buf_sent c' \<longrightarrow> 0 < socks_recv_tcp_pending c')"

lemma tc_push_write:
  assumes p: "tc_push c" and w: "w \<le> nat (socks_recv_buf_used c) - socks_recv_buf_sent c"
  shows "tc_push ((tc_note (TcpWrite (mem_read (socks_recv_buf c) (socks_recv_buf_sent c) w)) c)
      \<lparr>socks_recv_buf_sent := socks_recv_buf_sent c + w, socks_recv_tcp_pending := socks_recv_tcp_pending c + w\<rparr>)" (is "tc_push ?c")
proof -
  let ?r = "socks_recv_buf c" and ?s = "socks_recv_buf_sent c" and ?n = "nat (socks_recv_buf_used c) - socks_recv_buf_sent c"
  have u: "\<not> socks_recv_buf_used c < 0" using p by (auto simp: tc_push_def)
  have "mem_read ?r ?s ?n = mem_read ?r ?s w @ mem_read ?r (?s + w) (?n - w)"
    using mem_read_split [of ?r ?s w "?n - w"] unfolding le_add_diff_inverse [OF w] .
  then have "unsent c = mem_read ?r ?s w @ unsent ?c" using u w by (simp add: unsent_def tc_note_def)
  then have "tc_data ?c" using p by (auto simp: tc_push_def tc_open_def tc_data_def tc_note_def)
  then show ?thesis using p w u
    by (auto simp: tc_push_def tc_open_def tc_count_def tc_sending_def tc_note_def pcb_freed_def)
qed

lemma send_out_loop_inv:
  "tc_push c \<Longrightarrow> send_out_loop e i c = (b, c') \<Longrightarrow> (if b then tc_inv c' else tc_pushed c c')"
proof (induction e i c arbitrary: b c' rule: send_out_loop.induct)
  case (1 e i c)
  define w where "w = nat (min (socks_recv_buf_used c - int (socks_recv_buf_sent c)) (int (sndbuf e i)))"
  define c1 where "c1 = (tc_note (TcpWrite (mem_read (socks_recv_buf c) (socks_recv_buf_sent c) w)) c)
      \<lparr>socks_recv_buf_sent := socks_recv_buf_sent c + w, socks_recv_tcp_pending := socks_recv_tcp_pending c + w\<rparr>"
  have eq: "send_out_loop e i c = (if w = 0 then (False, c) else if write_err e i = ERR_MEM then (False, c)
      else if write_err e i \<noteq> ERR_OK then (True, client_abort_client e c)
      else if int (socks_recv_buf_sent c1) < socks_recv_buf_used c1 then send_out_loop e (i + 1) c1 else (False, c1))"
    by (subst send_out_loop.simps) (simp only: Let_def w_def c1_def)
  have p1: "tc_push c1" unfolding c1_def by (rule tc_push_write [OF "1.prems"(1)]) (auto simp: w_def)
  have same: "tc_pushed c c" using "1.prems"(1) by (simp add: tc_pushed_def)
  have pc: "w \<noteq> 0 \<Longrightarrow> tc_pushed c1 d \<Longrightarrow> tc_pushed c d" for d by (auto simp: tc_pushed_def c1_def tc_note_def)
  show ?case
  proof (cases "w = 0 \<or> write_err e i \<noteq> ERR_OK")
    case True
    then show ?thesis using "1.prems" same close_inv(2) [of c e] unfolding eq
      by (auto simp: tc_push_def split: if_splits)
  next
    case False
    show ?thesis
    proof (cases "int (socks_recv_buf_sent c1) < socks_recv_buf_used c1")
      case True
      then have r: "send_out_loop e (i + 1) c1 = (b, c')" using "1.prems"(2) False unfolding eq by simp
      have "if b then tc_inv c' else tc_pushed c1 c'"
        by (rule "1.IH" [OF w_def _ _ _ c1_def _ p1 r]) (use False True in auto)
      then show ?thesis using pc False by auto
    next
      case f: False
      then have "(b, c') = (False, c1)" using "1.prems"(2) False unfolding eq by simp
      moreover have "tc_pushed c1 c1" using p1 by (simp add: tc_pushed_def)
      ultimately show ?thesis using pc False by auto
    qed
  qed
qed

lemma send_out_inv:
  assumes p: "tc_push c" "int (socks_recv_buf_sent c) < socks_recv_buf_used c"
    and r: "client_socks_recv_send_out e c = (b, c')"
  shows "if b then tc_inv c' else tc_open c' \<and> socks_up c' \<and> \<not> recv_busy c' \<and> cb_err c' \<and> cb_sent c' \<and>
    (cb_recv c' \<longleftrightarrow> \<not> socks_closed c') \<and> socks_closed c' = socks_closed c \<and> 0 < socks_recv_tcp_pending c' \<and>
    (socks_recv_buf_used c' = -1 \<or> tc_waiting c')"
proof -
  obtain b1 c1 where l: "send_out_loop e 0 c = (b1, c1)" by fastforce
  note i = send_out_loop_inv [OF p(1) l]
  show ?thesis
  proof (cases b1)
    case True
    then show ?thesis using r l i by (simp add: client_socks_recv_send_out_def)
  next
    case False
    let ?c = "tc_note TcpOutput c1"
    have i1: "tc_push c1" "socks_closed c1 = socks_closed c" "socks_recv_buf_used c1 = socks_recv_buf_used c"
      "socks_recv_buf_sent c < socks_recv_buf_sent c1 \<Longrightarrow> 0 < socks_recv_tcp_pending c1"
      using i False by (auto simp: tc_pushed_def)
    have "tc_data ?c" by (rule tc_data_close [of c1]) (use i1 in \<open>auto simp: tc_push_def tc_open_def tc_note_def\<close>)
    then have o: "tc_open ?c" using i1(1) by (auto simp: tc_push_def tc_open_def tc_count_def tc_sending_def tc_note_def pcb_freed_def)
    have o2: "tc_open (?c\<lparr>socks_recv_waiting := True\<rparr>)"
      using o tc_data_close [of ?c "?c\<lparr>socks_recv_waiting := True\<rparr>"] by (auto simp: tc_open_def tc_count_def tc_sending_def)
    have o3: "tc_open (?c\<lparr>socks_recv_buf_used := -1\<rparr>)" if "\<not> int (socks_recv_buf_sent c1) < socks_recv_buf_used c1"
      using that o i1(1) by (auto simp: tc_open_def tc_data_def tc_count_def tc_sending_def tc_push_def tc_note_def unsent_def)
    have "client_socks_recv_send_out e c = (if output_err e \<noteq> ERR_OK then (True, client_abort_client e ?c)
        else if int (socks_recv_buf_sent c1) < socks_recv_buf_used c1
        then (if socks_recv_tcp_pending c1 = 0 then (True, client_abort_client e ?c) else (False, ?c\<lparr>socks_recv_waiting := True\<rparr>))
        else (False, ?c\<lparr>socks_recv_buf_used := -1\<rparr>))"
      using l False by (simp add: client_socks_recv_send_out_def Let_def tc_note_def)
    then show ?thesis using r close_inv(2) [OF o] o2 o3 i1 p(2)
      by (auto simp: tc_push_def tc_waiting_def tc_note_def split: if_splits)
  qed
qed

lemma recv_done_inv:
  assumes inv: "tc_inv c" and en: "job_enabled c (JRecvDone e xs)"
  shows "tc_inv (do_job (JRecvDone e xs) c)"
proof -
  have live: "tc_live c" and d: "tc_data c" and k: "tc_count c (if client_closed c then 1 else 0)"
    using inv en by (auto simp: tc_inv_def tc_dead_def)
  have s: "socks_up c" "\<not> socks_closed c" "recv_busy c" "\<not> freed c" using live en by (auto simp: tc_live_def)
  let ?r = "mem_write (socks_recv_buf c) 0 xs"
  have rl: "length ?r = CLIENT_SOCKS_RECV_BUF_SIZE" using d en by (auto simp: tc_data_def)
  have rr: "mem_read ?r 0 (length xs) = xs" using d en by (auto simp: tc_data_def mem_read_write_same)
  define c0 where "c0 = (tc_note (FromSocks xs) c)\<lparr>recv_busy := False, socks_recv_buf := ?r\<rparr>"
  define c1 where "c1 = c0\<lparr>socks_recv_buf_used := int (length xs), socks_recv_buf_sent := 0, socks_recv_waiting := False\<rparr>"
  show ?thesis
  proof (cases "client_closed c")
    case True
    then have "do_job (JRecvDone e xs) c = c0" by (simp add: c0_def client_socks_recv_handler_done_def tc_note_def)
    moreover have "tc_data c0" using d s True rl by (auto simp: c0_def tc_note_def tc_data_def)
    moreover have "tc_count c0 1" using k True by (auto simp: c0_def tc_note_def tc_count_def pcb_freed_def)
    moreover have "tc_live c0" using live s True by (auto simp: tc_live_def tc_sending_def c0_def tc_note_def)
    ultimately show ?thesis using True by (simp add: tc_inv_def c0_def tc_note_def)
  next
    case False
    then have w: "socks_recv_buf_used c = -1" using live s by (auto simp: tc_live_def tc_receiving_def tc_waiting_def)
    have "tc_data c1" using d s False rl rr w by (auto simp: c1_def c0_def tc_note_def tc_data_def unsent_def)
    then have p: "tc_push c1" using live s False en k
      by (auto simp: tc_push_def tc_open_def tc_live_def c1_def c0_def tc_note_def tc_count_def tc_sending_def pcb_freed_def)
    obtain b c2 where r: "client_socks_recv_send_out e c1 = (b, c2)" by fastforce
    have job: "do_job (JRecvDone e xs) c = (if b then c2 else if socks_recv_buf_used c2 = -1 then client_socks_recv_initiate c2 else c2)"
      using False r by (simp add: client_socks_recv_handler_done_def c1_def c0_def tc_note_def split: bool.splits)
    note i = send_out_inv [OF p _ r]
    have lt: "int (socks_recv_buf_sent c1) < socks_recv_buf_used c1" using en by (simp add: c1_def)
    show ?thesis
    proof (cases b)
      case True
      then show ?thesis using i [OF lt] job by simp
    next
      case nb: False
      have j: "tc_open c2" "socks_up c2" "\<not> recv_busy c2" "cb_err c2" "cb_sent c2" "cb_recv c2 \<longleftrightarrow> \<not> socks_closed c2"
        "\<not> socks_closed c2" "0 < socks_recv_tcp_pending c2" "socks_recv_buf_used c2 = -1 \<or> tc_waiting c2"
        using i [OF lt] nb s by (auto simp: c1_def c0_def tc_note_def)
      let ?c = "if socks_recv_buf_used c2 = -1 then client_socks_recv_initiate c2 else c2"
      have "tc_data ?c" by (rule tc_data_close [of c2]) (use j in \<open>auto simp: tc_open_def client_socks_recv_initiate_def\<close>)
      then have "tc_inv ?c" using j
        by (auto simp: tc_inv_def tc_live_def tc_open_def tc_count_def tc_sending_def tc_receiving_def tc_waiting_def client_socks_recv_initiate_def)
      then show ?thesis using job nb by simp
    qed
  qed
qed

lemma socks_event_inv:
  assumes inv: "tc_inv c" and en: "job_enabled c (JSocks e ev)"
  shows "tc_inv (do_job (JSocks e ev) c)"
proof -
  have live: "tc_live c" and d: "tc_data c" and k: "tc_count c (if client_closed c then 1 else 0)"
    and s: "\<not> socks_closed c" "\<not> freed c"
    using inv en by (auto simp: tc_inv_def tc_dead_def)
  show ?thesis
  proof (cases "ev = BSOCKSCLIENT_EVENT_UP")
    case True
    then have up: "\<not> socks_up c" using en by simp
    let ?c = "do_job (JSocks e ev) c"
    have "tc_data ?c" using d up True
      by (auto simp: client_socks_handler_def client_send_to_socks_def client_socks_recv_initiate_def Let_def tc_data_def unsent_def)
    moreover have "tc_count ?c (if client_closed c then 1 else 0)" using k True
      by (auto simp: client_socks_handler_def client_send_to_socks_def client_socks_recv_initiate_def Let_def tc_count_def)
    moreover have "tc_live ?c" "client_closed ?c = client_closed c" using live s up True
      by (auto simp: client_socks_handler_def client_send_to_socks_def client_socks_recv_initiate_def Let_def
          tc_live_def tc_sending_def tc_receiving_def)
    ultimately show ?thesis by (simp add: tc_inv_def)
  next
    case False
    have "tc_data (tc_note Stopped c)" by (rule tc_data_close [OF d]) (auto simp: tc_note_def)
    moreover have "tc_count (tc_note Stopped c) (if client_closed c then 1 else 0)"
      using k by (auto simp: tc_count_def tc_note_def pcb_freed_def)
    ultimately have "tc_inv (client_free_socks e (tc_note Stopped c))"
      by (intro free_socks_inv) (use live s in \<open>auto simp: tc_live_def tc_note_def tc_receiving_def tc_waiting_def\<close>)
    then show ?thesis using False inv by (cases ev) (auto simp: client_socks_handler_def)
  qed
qed

lemma do_job_inv: "tc_inv c \<Longrightarrow> job_enabled c j \<Longrightarrow> tc_inv (do_job j c)"
  using relay_send_inv recv_done_inv socks_event_inv by (cases j) blast+

lemma run_jobs_inv: "tc_inv c \<Longrightarrow> tc_inv (run_jobs js c)"
  by (induction js arbitrary: c) (auto simp: do_job_inv)

section \<open>The callbacks keep the invariant\<close>

lemma tc_inv_enter:
  assumes "tc_inv c" "\<not> freed c" "\<not> client_closed c"
  shows "tc_inv (c\<lparr>dead_aborted := 0\<rparr>)" "\<not> aborted c"
proof -
  have "length (filter pcb_freed (tc_log c)) = 0" "aborted c \<longleftrightarrow> TcpAbort \<in> set (tc_log c)"
    using assms by (auto simp: tc_inv_def tc_count_def)
  then show a: "\<not> aborted c" by (auto simp: filter_empty_conv pcb_freed_def)
  have "tc_data (c\<lparr>dead_aborted := 0\<rparr>)" by (rule tc_data_close [of c]) (use assms in \<open>auto simp: tc_inv_def\<close>)
  then show "tc_inv (c\<lparr>dead_aborted := 0\<rparr>)" using assms a
    by (auto simp: tc_inv_def tc_count_def tc_live_def tc_dead_def tc_sending_def tc_receiving_def tc_waiting_def)
qed

lemma recv_func_inv:
  assumes inv: "tc_inv c" and cb: "cb_recv c" and p: "\<And>xs. p = Some xs \<Longrightarrow> xs \<noteq> [] \<and> tc_used c + length xs \<le> TCP_WND"
  shows "tc_inv (snd (client_recv_func e js c p))"
proof -
  define c0 where "c0 = c\<lparr>dead_aborted := 0\<rparr>"
  have o: "\<not> freed c" "\<not> client_closed c" "\<not> socks_closed c" using inv cb by (auto simp: tc_inv_def tc_live_def tc_dead_def)
  have inv0: "tc_inv c0" unfolding c0_def by (rule tc_inv_enter(1) [OF inv o(1,2)])
  have o0: "\<not> freed c0" "\<not> client_closed c0" "\<not> socks_closed c0" "tc_used c0 = tc_used c" "tc_log c0 = tc_log c"
    using o by (simp_all add: c0_def)
  have live: "tc_live c0" and d: "tc_data c0" and k: "tc_count c0 0" using inv0 o0 by (auto simp: tc_inv_def tc_dead_def)
  show ?thesis
  proof (cases p)
    case None
    have "tc_data (tc_note ClientEof c0)" by (rule tc_data_close [OF d]) (auto simp: tc_note_def)
    then have "tc_open (tc_note ClientEof c0)" using tc_live_open [OF inv0 o0(1,2)]
      by (auto simp: tc_open_def tc_count_def tc_sending_def tc_note_def pcb_freed_def)
    moreover have "tc_may_close (tc_note ClientEof c0)" by (simp add: tc_may_close_def tc_note_def)
    ultimately have "tc_inv (client_free_client e (tc_note ClientEof c0))" by (rule close_inv(1))
    then show ?thesis using None by (simp add: client_recv_func_def c0_def callback_result_def Let_def)
  next
    case (Some xs)
    have x: "xs \<noteq> []" "tc_used c0 + length xs \<le> TCP_WND" using p [OF Some] o0 by auto
    have bl: "length (tc_buf c0) = TCP_WND" using d by (simp add: tc_data_def)
    define c1 where "c1 = (tc_note (FromClient xs) c0)\<lparr>tc_buf := mem_write (tc_buf c0) (tc_used c0) xs, tc_used := tc_used c0 + length xs\<rparr>"
    define c2 where "c2 = (if tc_used c0 = 0 \<and> socks_up c0 then client_send_to_socks c1 else c1)"
    have "mem_read (mem_write (tc_buf c0) (tc_used c0) xs) 0 (tc_used c0 + length xs) = mem_read (tc_buf c0) 0 (tc_used c0) @ xs"
      using mem_read_append_write [of 0 "tc_used c0" xs "tc_buf c0"] x(2) bl by simp
    then have "tc_data c2" using d x bl o0(2,3)
      by (auto simp: tc_data_def c2_def c1_def tc_note_def unsent_def client_send_to_socks_def)
    moreover have "tc_count c2 0" using k by (auto simp: c2_def c1_def tc_count_def tc_note_def pcb_freed_def client_send_to_socks_def)
    moreover have "tc_live c2" "\<not> client_closed c2" using live o0 x(1)
      by (auto simp: tc_live_def tc_sending_def tc_receiving_def tc_waiting_def c2_def c1_def tc_note_def client_send_to_socks_def)
    ultimately have i2: "tc_inv c2" by (simp add: tc_inv_def)
    have "snd (client_recv_func e js c p) = (if tc_used c0 = 0 \<and> socks_up c0 then run_jobs js c2 else c2)"
      using Some x bl by (simp add: client_recv_func_def c0_def callback_result_def Let_def c2_def c1_def tc_note_def)
    then show ?thesis using i2 run_jobs_inv by simp
  qed
qed

lemma sent_func_inv:
  assumes inv: "tc_inv c" and cb: "cb_sent c" and len: "0 < len" "len \<le> socks_recv_tcp_pending c"
  shows "tc_inv (snd (client_sent_func e js c len))"
proof -
  define c1 where "c1 = c\<lparr>dead_aborted := 0, socks_recv_tcp_pending := socks_recv_tcp_pending c - len\<rparr>"
  have o: "\<not> freed c" "\<not> client_closed c" "socks_up c" using inv cb by (auto simp: tc_inv_def tc_live_def tc_dead_def)
  have inv0: "tc_inv (c\<lparr>dead_aborted := 0\<rparr>)" by (rule tc_inv_enter(1) [OF inv o(1,2)])
  have live: "tc_live c" using inv o by (auto simp: tc_inv_def tc_dead_def)
  have "tc_data (c\<lparr>dead_aborted := 0\<rparr>)" using inv0 by (simp add: tc_inv_def)
  then have "tc_data c1" by (rule tc_data_close) (auto simp: c1_def)
  then have open1: "tc_open c1" using tc_live_open [OF inv0] o by (auto simp: tc_open_def c1_def tc_count_def tc_sending_def)
  have rcv: "tc_receiving c" using live o by (simp add: tc_live_def)
  show ?thesis
  proof (cases "socks_recv_buf_used c > 0")
    case True
    define c2 where "c2 = c1\<lparr>socks_recv_waiting := False\<rparr>"
    have w: "tc_waiting c" using rcv True by (auto simp: tc_receiving_def)
    have "tc_data c2" by (rule tc_data_close [of c1]) (use open1 in \<open>auto simp: tc_open_def c2_def\<close>)
    then have p: "tc_push c2" using w open1 live o
      by (auto simp: tc_push_def tc_open_def tc_count_def tc_sending_def c2_def c1_def tc_live_def tc_waiting_def)
    have lt: "int (socks_recv_buf_sent c2) < socks_recv_buf_used c2" using w by (simp add: c2_def c1_def tc_waiting_def)
    obtain b c3 where r: "client_socks_recv_send_out e c2 = (b, c3)" by fastforce
    note i = send_out_inv [OF p lt r]
    have f: "snd (client_sent_func e js c len) = (if b then c3
        else if socks_recv_buf_used c3 = -1 \<and> \<not> socks_closed c3 then run_jobs js (client_socks_recv_initiate c3) else c3)"
      using True r by (simp add: client_sent_func_def c2_def c1_def callback_result_def Let_def split: bool.splits)
    show ?thesis
    proof (cases b)
      case False
      let ?c = "if socks_recv_buf_used c3 = -1 \<and> \<not> socks_closed c3 then client_socks_recv_initiate c3 else c3"
      have "tc_data ?c" by (rule tc_data_close [of c3]) (use i False in \<open>auto simp: tc_open_def client_socks_recv_initiate_def\<close>)
      then have "tc_inv ?c" using i False
        by (auto simp: tc_inv_def tc_live_def tc_open_def tc_count_def tc_sending_def tc_receiving_def tc_waiting_def client_socks_recv_initiate_def)
      then show ?thesis using f False run_jobs_inv by (auto split: if_splits)
    qed (use i f in simp)
  next
    case False
    then have u: "socks_recv_buf_used c = -1" using rcv by (auto simp: tc_receiving_def tc_waiting_def)
    have f: "snd (client_sent_func e js c len) =
        (if socks_closed c1 \<and> socks_recv_tcp_pending c1 = 0 then client_free_client e c1 else c1)"
      using False by (simp add: client_sent_func_def c1_def callback_result_def Let_def)
    show ?thesis
    proof (cases "socks_closed c1 \<and> socks_recv_tcp_pending c1 = 0")
      case True
      then have "tc_may_close c1" using open1 u o
        by (auto simp: tc_may_close_def tc_open_def tc_data_def unsent_def c1_def)
      then show ?thesis using f True close_inv(1) [OF open1] by simp
    next
      case False
      then have "tc_inv c1" using open1 live u o
        by (auto simp: tc_inv_def tc_open_def tc_live_def tc_receiving_def tc_waiting_def c1_def)
      then show ?thesis using f False by auto
    qed
  qed
qed

lemma err_func_inv: "tc_inv c \<Longrightarrow> cb_err c \<Longrightarrow> tc_inv (client_err_func e c)"
  by (rule close_inv(3), rule tc_live_open) (auto simp: tc_inv_def tc_live_def tc_dead_def)

lemma murder_inv:
  assumes "tc_inv c" "\<not> freed c"
  shows "tc_inv (client_murder (tc_note Stopped c))"
proof -
  have live: "tc_live c" and d: "tc_data c" and k: "tc_count c (if client_closed c then 1 else 0)"
    using assms by (auto simp: tc_inv_def tc_dead_def)
  have "tc_data (client_murder (tc_note Stopped c))"
    by (rule tc_data_close [OF d]) (auto simp: client_murder_def close_defs)
  moreover have "tc_count (client_murder (tc_note Stopped c)) 1"
    using k assms(2) by (auto simp: client_murder_def close_defs tc_count_def pcb_freed_def)
  moreover have "tc_dead (client_murder (tc_note Stopped c))"
    using live by (auto simp: tc_live_def tc_dead_def tc_sending_def client_murder_def close_defs)
  ultimately show ?thesis by (simp add: tc_inv_def tc_dead_def)
qed

section \<open>Runs\<close>

text \<open>
  The events of a client. lwIP calls a callback only while it is set; it delivers data only inside the
  window it has announced, which is \<^term>\<open>TCP_WND\<close> less what was delivered and not yet confirmed with
  \<open>tcp_recved\<close>; and it confirms at most the data that was written.
\<close>

datatype tc_event =
    ERecv lwip_env "tc_job list" "bytes option"
  | ESent lwip_env "tc_job list" nat
  | EErr lwip_env
  | EJob tc_job
  | EMurder

fun ev_enabled :: "tcp_client \<Rightarrow> tc_event \<Rightarrow> bool" where
  "ev_enabled c (ERecv e js p) \<longleftrightarrow> cb_recv c \<and>
     (case p of None \<Rightarrow> True
      | Some xs \<Rightarrow> xs \<noteq> [] \<and> length (up_in (tc_log c)) + length xs \<le> TCP_WND + recved (tc_log c))"
| "ev_enabled c (ESent e js len) \<longleftrightarrow> cb_sent c \<and> 0 < len \<and> len \<le> socks_recv_tcp_pending c"
| "ev_enabled c (EErr e) \<longleftrightarrow> cb_err c"
| "ev_enabled c (EJob j) \<longleftrightarrow> job_enabled c j"
| "ev_enabled c EMurder \<longleftrightarrow> \<not> freed c"

fun ev_do :: "tc_event \<Rightarrow> tcp_client \<Rightarrow> tcp_client" where
  "ev_do (ERecv e js p) c = snd (client_recv_func e js c p)"
| "ev_do (ESent e js len) c = snd (client_sent_func e js c len)"
| "ev_do (EErr e) c = client_err_func e c"
| "ev_do (EJob j) c = do_job j c"
| "ev_do EMurder c = client_murder (tc_note Stopped c)"

fun tc_run :: "tcp_client \<Rightarrow> tc_event list \<Rightarrow> tcp_client option" where
  "tc_run c [] = Some c"
| "tc_run c (ev # evs) = (if ev_enabled c ev then tc_run (ev_do ev c) evs else None)"

lemma window_fits:
  assumes "tc_inv c" "ev_enabled c (ERecv e js (Some xs))"
  shows "tc_used c + length xs \<le> TCP_WND"
proof -
  have "\<not> client_closed c" "\<not> socks_closed c" using assms by (auto simp: tc_inv_def tc_live_def tc_dead_def)
  then have "recved (tc_log c) + tc_used c = length (up_in (tc_log c))" using assms(1) by (auto simp: tc_inv_def tc_data_def)
  then show ?thesis using assms(2) by simp
qed

lemma ev_inv: "tc_inv c \<Longrightarrow> ev_enabled c ev \<Longrightarrow> tc_inv (ev_do ev c)"
proof (cases ev)
  case (ERecv e js p)
  assume "tc_inv c" "ev_enabled c ev"
  then show ?thesis using ERecv window_fits [of c e js] by (auto intro!: recv_func_inv)
qed (auto intro: sent_func_inv err_func_inv do_job_inv murder_inv)

lemma tc_run_inv: "tc_inv c \<Longrightarrow> tc_run c evs = Some c' \<Longrightarrow> tc_inv c'"
proof (induction evs arbitrary: c)
  case (Cons ev evs)
  then show ?case using ev_inv [of c ev] by (simp split: if_splits)
qed simp

text \<open>The memory of a client: its two buffers have their sizes.\<close>

definition tc_mem_ok :: "tcp_client \<Rightarrow> bool" where
  "tc_mem_ok m \<longleftrightarrow> length (tc_buf m) = TCP_WND \<and> length (socks_recv_buf m) = CLIENT_SOCKS_RECV_BUF_SIZE"

lemma accept_inv:
  assumes "listener_accept_func js (Some m) name_ok init_ok = (r, Some c)" "tc_mem_ok m"
  shows "tc_inv c"
proof -
  define c0 where "c0 = m\<lparr>aborted := False, dead_aborted := 0, client_closed := False, cb_err := True, cb_recv := True,
      tc_used := 0, socks_up := False, socks_closed := False, cb_sent := False, send_offer := 0,
      recv_busy := False, freed := False, tc_log := []\<rparr>"
  have "tc_inv c0" using assms(2)
    by (simp add: c0_def tc_mem_ok_def tc_inv_def tc_data_def tc_count_def tc_live_def tc_sending_def)
  moreover have "c = run_jobs js c0" using assms(1)
    by (auto simp: listener_accept_func_def callback_result_def Let_def c0_def split: if_splits)
  ultimately show ?thesis using run_jobs_inv by simp
qed

definition tc_started :: "tcp_client \<Rightarrow> bool" where
  "tc_started c \<longleftrightarrow> (\<exists>js m r. tc_mem_ok m \<and> listener_accept_func js (Some m) True True = (r, Some c))"

lemma tc_started_inv: "tc_started c \<Longrightarrow> tc_run c evs = Some c' \<Longrightarrow> tc_inv c'"
  using accept_inv tc_run_inv unfolding tc_started_def by blast

section \<open>Properties\<close>

text \<open>
  C3. The relay keeps the streams. Over any run of an accepted client, with any answers of lwIP and any
  order of callbacks and jobs: the bytes SOCKS has taken are a prefix of the bytes lwIP delivered, and
  what is missing is in the buffer until SOCKS is closed; the bytes given to lwIP are a prefix of the
  bytes SOCKS delivered, and what is missing is in the other buffer until the client is closed. SOCKS is
  closed with all of the client's data passed on unless it failed, was closed by its peer or the program
  quits; the client is closed with all of the server's data passed on unless its stream ended, its
  connection failed or was aborted.
\<close>

theorem relay_streams:
  assumes "tc_started c" "tc_run c evs = Some c'"
  shows "\<exists>u d. up_in (tc_log c') = up_out (tc_log c') @ u \<and> down_in (tc_log c') = down_out (tc_log c') @ d \<and>
    (\<not> socks_closed c' \<longrightarrow> u = mem_read (tc_buf c') 0 (tc_used c')) \<and>
    (socks_up c' \<and> \<not> client_closed c' \<longrightarrow> d = unsent c') \<and>
    (socks_closed c' \<and> Stopped \<notin> set (tc_log c') \<longrightarrow> u = []) \<and>
    (client_closed c' \<and> \<not> client_gone (tc_log c') \<longrightarrow> d = [])"
proof -
  have "tc_data c'" using tc_started_inv [OF assms] by (simp add: tc_inv_def)
  then obtain u d where "up_in (tc_log c') = up_out (tc_log c') @ u" "down_in (tc_log c') = down_out (tc_log c') @ d"
    by (auto simp: tc_data_def)
  moreover have "\<not> socks_closed c' \<Longrightarrow> up_in (tc_log c') = up_out (tc_log c') @ mem_read (tc_buf c') 0 (tc_used c')"
    "socks_up c' \<and> \<not> client_closed c' \<Longrightarrow> down_in (tc_log c') = down_out (tc_log c') @ unsent c'"
    "socks_closed c' \<and> Stopped \<notin> set (tc_log c') \<Longrightarrow> up_in (tc_log c') = up_out (tc_log c') @ []"
    "client_closed c' \<and> \<not> client_gone (tc_log c') \<Longrightarrow> down_in (tc_log c') = down_out (tc_log c') @ []"
    using \<open>tc_data c'\<close> by (simp_all add: tc_data_def)
  ultimately show ?thesis unfolding same_append_eq by metis
qed

definition relay_test_mem :: tcp_client where
  "relay_test_mem = \<lparr>aborted = True, dead_aborted = 5, client_closed = True, tc_buf = replicate TCP_WND 0, tc_used = 7,
     socks_up = True, socks_closed = True, socks_recv_buf = replicate CLIENT_SOCKS_RECV_BUF_SIZE 0, socks_recv_buf_used = 3,
     socks_recv_buf_sent = 0, socks_recv_waiting = False, socks_recv_tcp_pending = 0, cb_err = False, cb_recv = False,
     cb_sent = False, send_offer = 0, recv_busy = False, freed = False, tc_log = []\<rparr>"

definition relay_test_env :: lwip_env where
  "relay_test_env = \<lparr>close_ok = True, sndbuf = (\<lambda>i. 2), write_err = (\<lambda>i. ERR_OK), output_err = ERR_OK\<rparr>"

lemma relay_test_mem_ok: "tc_mem_ok relay_test_mem"
  by (simp add: tc_mem_ok_def relay_test_mem_def)

theorem relay_streams_witness:
  "\<exists>c c' u d. tc_started c \<and> tc_run c [EJob (JSocks relay_test_env BSOCKSCLIENT_EVENT_UP),
      ERecv relay_test_env [JSendDone relay_test_env 2] (Some [1, 2, 3])] = Some c' \<and>
    up_in (tc_log c') = up_out (tc_log c') @ u \<and> up_in (tc_log c') = [1, 2, 3] \<and> up_out (tc_log c') = [1, 2] \<and>
    down_in (tc_log c') = down_out (tc_log c') @ d"
proof -
  obtain r c where c: "listener_accept_func [] (Some relay_test_mem) True True = (r, Some c)"
    by (simp add: listener_accept_func_def Let_def callback_result_def)
  let ?evs = "[EJob (JSocks relay_test_env BSOCKSCLIENT_EVENT_UP), ERecv relay_test_env [JSendDone relay_test_env 2] (Some [1, 2, 3])]"
  obtain c' where c': "tc_run c ?evs = Some c'" and l: "up_in (tc_log c') = [1, 2, 3]" "up_out (tc_log c') = [1, 2]"
    using c by (auto simp: listener_accept_func_def Let_def callback_result_def relay_test_mem_def client_socks_handler_def
        client_socks_recv_initiate_def client_recv_func_def client_send_to_socks_def client_socks_send_handler_done_def tc_note_def
        TCP_WND_def mem_read_def mem_write_def)
  have "tc_started c" using c relay_test_mem_ok unfolding tc_started_def by blast
  with relay_streams [OF this c'] c' l show ?thesis by blast
qed

lemma recv_func_result:
  "(\<And>xs. p = Some xs \<Longrightarrow> tc_used c + length xs \<le> length (tc_buf c)) \<Longrightarrow> \<exists>d. client_recv_func e js c p = callback_result d"
  by (cases p) (auto simp: client_recv_func_def Let_def)

text \<open>
  C28. What the callbacks answer. As long as lwIP keeps to the window it announced, the buffer has room
  for every delivery (\<open>client_recv_func\<close> never answers that memory is short), and both callbacks answer
  ERR_ABRT exactly when the connection was aborted inside them, including by the jobs they ran.
\<close>

theorem callback_answers:
  assumes "tc_started c" "tc_run c evs = Some c'"
  shows "(ev_enabled c' (ERecv e js p) \<longrightarrow> TcpAbort \<notin> set (tc_log c') \<and> fst (client_recv_func e js c' p) =
      (if TcpAbort \<in> set (tc_log (snd (client_recv_func e js c' p))) then ERR_ABRT else ERR_OK)) \<and>
    (ev_enabled c' (ESent e js len) \<longrightarrow> TcpAbort \<notin> set (tc_log c') \<and> fst (client_sent_func e js c' len) =
      (if TcpAbort \<in> set (tc_log (snd (client_sent_func e js c' len))) then ERR_ABRT else ERR_OK))"
proof -
  have inv: "tc_inv c'" by (rule tc_started_inv [OF assms])
  have no: "TcpAbort \<notin> set (tc_log c')" if "cb_recv c' \<or> cb_sent c'"
    using tc_inv_enter(2) [OF inv] that inv by (auto simp: tc_inv_def tc_live_def tc_dead_def tc_count_def)
  have dead: "0 < dead_aborted d \<longleftrightarrow> TcpAbort \<in> set (tc_log d)" if "tc_inv d" for d
    using that by (auto simp: tc_inv_def tc_count_def)
  have r: "fst (client_recv_func e js c' p) = (if TcpAbort \<in> set (tc_log (snd (client_recv_func e js c' p))) then ERR_ABRT else ERR_OK)"
    if en: "ev_enabled c' (ERecv e js p)"
  proof -
    have b: "length (tc_buf c') = TCP_WND" using inv by (simp add: tc_inv_def tc_data_def)
    have "tc_used c' + length xs \<le> length (tc_buf c')" if "p = Some xs" for xs
      using window_fits [OF inv en [unfolded that]] b by simp
    from recv_func_result [OF this] obtain d where d: "client_recv_func e js c' p = callback_result d" by blast
    then show ?thesis using ev_inv [OF inv en] dead [of d] by (simp add: callback_result_def)
  qed
  have "fst (client_sent_func e js c' len) = (if TcpAbort \<in> set (tc_log (snd (client_sent_func e js c' len))) then ERR_ABRT else ERR_OK)"
    if en: "ev_enabled c' (ESent e js len)"
    using dead ev_inv [OF inv en] by (simp add: client_sent_func_def callback_result_def Let_def)
  then show ?thesis using r no by auto
qed

theorem callback_answers_witness:
  "\<exists>c. tc_started c \<and> ev_enabled c (ERecv relay_test_env [] (Some [1, 2, 3])) \<and>
    fst (client_recv_func relay_test_env [] c (Some [1, 2, 3])) =
      (if TcpAbort \<in> set (tc_log (snd (client_recv_func relay_test_env [] c (Some [1, 2, 3])))) then ERR_ABRT else ERR_OK)"
proof -
  obtain r c where c: "listener_accept_func [] (Some relay_test_mem) True True = (r, Some c)"
    by (simp add: listener_accept_func_def Let_def callback_result_def)
  have st: "tc_started c" using c relay_test_mem_ok unfolding tc_started_def by blast
  have "ev_enabled c (ERecv relay_test_env [] (Some [1, 2, 3]))"
    using c by (auto simp: listener_accept_func_def Let_def callback_result_def TCP_WND_def)
  with st callback_answers [OF st, of "[]" c relay_test_env "[]" "Some [1, 2, 3]"] show ?thesis by auto
qed

text \<open>
  C25. Life cycle. In every state a client can reach: the SOCKS client, the connection of lwIP and the
  memory are released exactly once, the memory exactly when both sides are closed; and a client that is
  not freed is not forgotten: data for SOCKS is being sent, a receive is in progress or lwIP owes a
  confirmation, and a client that is closed on one side still has data to pass on to the other.
\<close>

theorem relay_life_cycle:
  assumes "tc_started c" "tc_run c evs = Some c'"
  shows "count_list (tc_log c') SocksFree = (if socks_closed c' then 1 else 0) \<and>
    length (filter pcb_freed (tc_log c')) = (if client_closed c' then 1 else 0) \<and>
    count_list (tc_log c') Dealloc = (if freed c' then 1 else 0) \<and>
    (freed c' \<longleftrightarrow> client_closed c' \<and> socks_closed c') \<and>
    (socks_up c' \<and> \<not> socks_closed c' \<and> 0 < tc_used c' \<longrightarrow> 0 < send_offer c') \<and>
    (socks_up c' \<and> \<not> client_closed c' \<longrightarrow> recv_busy c' \<or> cb_sent c' \<and> 0 < socks_recv_tcp_pending c') \<and>
    (client_closed c' \<and> \<not> freed c' \<longrightarrow> 0 < tc_used c')"
proof -
  have inv: "tc_data c'" "tc_count c' (if client_closed c' then 1 else 0)" "tc_live c' \<or> tc_dead c'"
    using tc_started_inv [OF assms] by (auto simp: tc_inv_def)
  then have "freed c' \<longleftrightarrow> client_closed c' \<and> socks_closed c'"
    "socks_up c' \<and> \<not> socks_closed c' \<and> 0 < tc_used c' \<longrightarrow> 0 < send_offer c'"
    "socks_up c' \<and> \<not> client_closed c' \<longrightarrow> recv_busy c' \<or> cb_sent c' \<and> 0 < socks_recv_tcp_pending c'"
    "client_closed c' \<and> \<not> freed c' \<longrightarrow> 0 < tc_used c'"
    by (auto simp: tc_live_def tc_dead_def tc_sending_def tc_receiving_def tc_waiting_def)
  moreover have "count_list (tc_log c') SocksFree = (if socks_closed c' then 1 else 0)"
    "length (filter pcb_freed (tc_log c')) = (if client_closed c' then 1 else 0)"
    "count_list (tc_log c') Dealloc = (if freed c' then 1 else 0)"
    using inv(2) by (simp_all only: tc_count_def)
  ultimately show ?thesis by (intro conjI)
qed

theorem relay_life_cycle_witness:
  "\<exists>c c'. tc_started c \<and> tc_run c [EJob (JSocks relay_test_env BSOCKSCLIENT_EVENT_ERROR)] = Some c' \<and>
    freed c' \<and> count_list (tc_log c') SocksFree = 1 \<and> length (filter pcb_freed (tc_log c')) = 1 \<and> count_list (tc_log c') Dealloc = 1"
proof -
  obtain r c where c: "listener_accept_func [] (Some relay_test_mem) True True = (r, Some c)"
    by (simp add: listener_accept_func_def Let_def callback_result_def)
  have st: "tc_started c" using c relay_test_mem_ok unfolding tc_started_def by blast
  have cf: "\<not> freed c" "\<not> socks_closed c" "\<not> client_closed c" "\<not> socks_up c"
    using c by (auto simp: listener_accept_func_def Let_def callback_result_def)
  define c' where "c' = client_free_socks relay_test_env (tc_note Stopped c)"
  have c': "tc_run c [EJob (JSocks relay_test_env BSOCKSCLIENT_EVENT_ERROR)] = Some c'"
    using cf by (simp add: c'_def client_socks_handler_def)
  have "freed c'" using cf
    by (simp add: c'_def free_socks_eq client_free_client.simps handle_freed_eq relay_test_env_def socks_gone_def close_defs)
  moreover note lc = relay_life_cycle [OF st c']
  ultimately have "socks_closed c'" "client_closed c'" "freed c'" by simp_all
  with lc have "count_list (tc_log c') SocksFree = 1 \<and> length (filter pcb_freed (tc_log c')) = 1 \<and> count_list (tc_log c') Dealloc = 1"
    by simp
  with st c' \<open>freed c'\<close> show ?thesis by blast
qed

end
