(* ===== verification/Inet_Checksum.thy ===== *)
theory Inet_Checksum
  imports Tunnel_Prelude
begin

text \<open>
  The Internet checksum that both programs compute: the loop which folds a 32 bit sum to 16 bits, and the one's complement sum of RFC 1071 as the
  reference. The header code of tun2socks (\<open>Udp_Packet\<close>) and \<open>ip_checksum\<close> of OpenVPN (\<open>Ip_Header\<close>) use both.
\<close>

section \<open>Folding the carries\<close>

text \<open>The loop \<open>while (t >> 16)\<close>.\<close>

function checksum_fold :: "u32 \<Rightarrow> u32" where
  "checksum_fold t = (if drop_bit 16 t = 0 then t else checksum_fold ((t AND 0xFFFF) + drop_bit 16 t))"
  by pat_completeness auto

lemma unat_drop_bit16: "unat (drop_bit 16 t) = unat (t :: u32) div 65536"
proof -
  have "unat t < 2 ^ 32" using unsigned_less [of t, where 'a = nat] by simp
  then show ?thesis by (simp only: unsigned_drop_bit_eq) (simp add: drop_bit_eq_div take_bit_eq_mod)
qed

lemma fold_step:
  fixes t :: u32
  shows "unat ((t AND 0xFFFF) + drop_bit 16 t) = unat t mod 65536 + unat t div 65536"
proof -
  have a: "unat (t AND 0xFFFF) = unat t mod 65536"
  proof -
    have "t AND 0xFFFF = take_bit 16 t" by (simp add: take_bit_eq_mask mask_eq_exp_minus_1)
    then show ?thesis by (simp only: unsigned_take_bit_eq) (simp add: take_bit_eq_mod)
  qed
  note d = unat_drop_bit16 [of t]
  have "unat t < 2 ^ 32" using unsigned_less [of t, where 'a = nat] by simp
  then have "unat t mod 65536 + unat t div 65536 < 2 ^ 32" by (simp add: div_less_dividend less_mult_imp_div_less)
  then show ?thesis by (simp add: unat_word_ariths a d)
qed

lemma fold_done: "drop_bit 16 (t :: u32) = 0 \<longleftrightarrow> unat t < 65536"
  using unat_drop_bit16 [of t] by (metis div_eq_0_iff unat_eq_zero zero_neq_numeral)

lemma fold_shrinks: "65536 \<le> n \<Longrightarrow> n mod 65536 + n div 65536 < (n :: nat)"
proof -
  assume "65536 \<le> n"
  then have "0 < n div 65536" by (simp add: div_greater_zero_iff)
  moreover have "n = 65536 * (n div 65536) + n mod 65536" by simp
  ultimately show ?thesis by linarith
qed

termination checksum_fold
proof (relation "measure unat")
  fix t :: u32
  assume "drop_bit 16 t \<noteq> 0"
  then have "65536 \<le> unat t" by (simp add: fold_done)
  then show "((t AND 0xFFFF) + drop_bit 16 t, t) \<in> measure unat"
    using fold_shrinks [of "unat t"] by (simp add: fold_step)
qed simp

declare checksum_fold.simps [simp del]

text \<open>A 32-bit sum is folded after at most two turns of the loop, which gives an equation to compute with.\<close>

definition fold_once :: "u32 \<Rightarrow> u32" where
  "fold_once t = (t AND 0xFFFF) + drop_bit 16 t"

lemma fold_once_small: "unat t < 65536 \<Longrightarrow> fold_once t = t"
  by (simp add: word_unat_eq_iff fold_once_def fold_step)

lemma checksum_fold_code [code]: "checksum_fold t = fold_once (fold_once t)"
proof (cases "unat t < 65536")
  case True
  then show ?thesis by (subst checksum_fold.simps) (simp add: fold_done fold_once_small)
next
  case False
  have "unat t < 2 ^ 32" using unsigned_less [of t, where 'a = nat] by simp
  then have "unat t div 65536 \<le> 65535" by (simp add: less_mult_imp_div_less Suc_le_eq)
  moreover have "unat t mod 65536 < 65536" by simp
  ultimately have o: "unat (fold_once t) \<le> 131070" unfolding fold_once_def fold_step by linarith
  have go: "\<not> unat u < 65536 \<Longrightarrow> checksum_fold u = checksum_fold (fold_once u)"
    "unat u < 65536 \<Longrightarrow> checksum_fold u = u" for u
    by (subst checksum_fold.simps, simp add: fold_done fold_once_def)+
  show ?thesis
  proof (cases "unat (fold_once t) < 65536")
    case True
    then show ?thesis using go False by (simp add: fold_once_small)
  next
    case big: False
    then have "unat (fold_once t) div 65536 = 1" using o by (simp add: div_nat_eqI)
    moreover have "unat (fold_once t) mod 65536 = unat (fold_once t) - 65536" using o big by (simp add: mod_nat_eqI)
    ultimately have "unat (fold_once (fold_once t)) < 65536"
      unfolding fold_once_def [of "fold_once t"] fold_step using o big by linarith
    then show ?thesis using go False big by simp
  qed
qed

section \<open>The checksum of RFC 1071\<close>

fun word_sum :: "bytes \<Rightarrow> nat" where
  "word_sum (a # b # xs) = 256 * unat a + unat b + word_sum xs"
| "word_sum [a] = 256 * unat a"
| "word_sum [] = 0"

text \<open>The one's complement sum of the 16-bit words, and its complement.\<close>

definition ones_sum :: "nat \<Rightarrow> nat" where
  "ones_sum s = (if s = 0 then 0 else (s - 1) mod 65535 + 1)"

definition rfc_checksum :: "bytes \<Rightarrow> nat" where
  "rfc_checksum xs = 65535 - ones_sum (word_sum xs)"

lemma word_sum_append: "even (length xs) \<Longrightarrow> word_sum (xs @ ys) = word_sum xs + word_sum ys"
  by (induction xs rule: word_sum.induct) auto

lemma word_sum_bound: "word_sum xs \<le> 65535 * ((length xs + 1) div 2)"
proof (induction xs rule: word_sum.induct)
  case (1 a b xs)
  have "unat a \<le> 255" "unat b \<le> 255" using unsigned_less [of a, where 'a = nat] unsigned_less [of b, where 'a = nat] by simp_all
  then show ?case using 1 by simp
next
  case (2 a)
  have "unat a \<le> 255" using unsigned_less [of a, where 'a = nat] by simp
  then show ?case by simp
qed simp

lemma unat_of_be16: "unat (of_be16 [a, b]) = 256 * unat a + unat b"
proof -
  have dis: "push_bit 8 (ucast a :: u16) OR ucast b = push_bit 8 (ucast a) + ucast b"
    by (rule disjunctive_add [symmetric]) (auto simp: bit_simps dest!: bit_imp_le_length)
  have "unat a \<le> 255" "unat b \<le> 255" using unsigned_less [of a, where 'a = nat] unsigned_less [of b, where 'a = nat] by simp_all
  moreover from this have "unat (push_bit 8 (ucast a :: u16)) = 256 * unat a"
    by (simp add: push_bit_eq_mult unat_word_ariths unsigned_ucast_eq take_bit_nat_eq_self)
  ultimately show ?thesis by (simp add: dis unat_word_ariths unsigned_ucast_eq take_bit_nat_eq_self)
qed

lemma checksum_fold_value: "unat (checksum_fold t) = ones_sum (unat t)"
proof (induction t rule: checksum_fold.induct)
  case (1 t)
  show ?case
  proof (cases "drop_bit 16 t = 0")
    case True
    then have "unat t < 65536" by (simp add: fold_done)
    then show ?thesis using True by (subst checksum_fold.simps) (auto simp: ones_sum_def)
  next
    case False
    let ?n = "unat t"
    have "65536 \<le> ?n" using False by (simp add: fold_done)
    then have q: "0 < ?n div 65536" by (simp add: div_greater_zero_iff)
    have "?n = 65536 * (?n div 65536) + ?n mod 65536" by simp
    then have "?n - 1 = (?n mod 65536 + ?n div 65536 - 1) + 65535 * (?n div 65536)" using q by linarith
    then have "(?n - 1) mod 65535 = (?n mod 65536 + ?n div 65536 - 1) mod 65535" by (metis mod_mult_self2)
    then have "ones_sum (unat ((t AND 0xFFFF) + drop_bit 16 t)) = ones_sum ?n"
      using q by (simp add: ones_sum_def fold_step)
    then show ?thesis using 1 False by (subst checksum_fold.simps) simp
  qed
qed

lemma ones_sum_le: "ones_sum s \<le> 65535"
  by (simp add: ones_sum_def Suc_le_eq)

lemma complement_fold: "unat (ucast (NOT (checksum_fold t)) :: u16) = 65535 - ones_sum (unat t)"
proof -
  let ?f = "checksum_fold t"
  have f: "unat ?f \<le> 65535" using ones_sum_le by (simp add: checksum_fold_value)
  have "(ucast (NOT ?f) :: u16) = NOT (ucast ?f)" by (rule bit_word_eqI) (simp add: bit_simps)
  also have "unat \<dots> = 65535 - unat (ucast ?f :: u16)"
  proof -
    have "NOT w = - 1 - w" for w :: u16 by (simp add: not_eq_complement)
    moreover have "unat (- 1 - w) = unat (- 1 :: u16) - unat w" for w :: u16 by (rule unat_sub) simp
    ultimately show ?thesis by (simp add: unsigned_minus_1_eq_mask mask_eq_exp_minus_1)
  qed
  also have "unat (ucast ?f :: u16) = unat ?f" using f by (simp add: unsigned_ucast_eq take_bit_nat_eq_self)
  finally show ?thesis by (simp add: checksum_fold_value)
qed

end
