(* ===== verification/Udp_Packet.thy ===== *)
theory Udp_Packet
  imports Socks_Client Inet_Checksum
begin

text \<open>
  UDP packets of the TUN device (\<open>misc/ipv4_proto.h\<close>, \<open>misc/ipv6_proto.h\<close>, \<open>misc/udp_proto.h\<close> and, of
  \<open>tun2socks/tun2socks.c\<close>, \<open>process_device_udp_packet\<close> and \<open>udpgw_client_handler_received\<close>): parsing and
  checking a packet that comes from the device, and building the packet that answers it. Header fields
  are kept as the code keeps them, words in network byte order on a little-endian host; \<open>hton16\<close> swaps
  their bytes, and the image of a header is its bytes in memory.
\<close>

section \<open>Byte order\<close>

definition hton16 :: "u16 \<Rightarrow> u16" where
  "hton16 x = push_bit 8 x OR drop_bit 8 x"

definition hton32 :: "u32 \<Rightarrow> u32" where
  "hton32 x = of_be32 (le32 x)"

lemma le16_hton16 [simp]: "le16 (hton16 x) = be16 x"
  by (auto simp: le16_def be16_def hton16_def bit_simps intro!: bit_word_eqI)

lemma hton16_hton16 [simp]: "hton16 (hton16 x) = x"
  by (rule bit_word_eqI) (auto simp: hton16_def bit_simps dest: bit_imp_le_length)

lemma u8_high [simp]: "\<not> bit (a :: u8) (8 + n)" "\<not> bit (a :: u8) (16 + n)" "\<not> bit (a :: u8) (24 + n)"
  by (auto dest: bit_imp_le_length)

lemma le16_of_le16 [simp]: "length xs = 2 \<Longrightarrow> le16 (of_le16 xs) = xs"
  by (cases xs rule: of_le16.cases) (auto simp: le16_def bit_simps intro!: bit_word_eqI dest: bit_imp_le_length)

lemma le32_of_le32 [simp]: "length xs = 4 \<Longrightarrow> le32 (of_le32 xs) = xs"
  by (cases xs rule: of_le32.cases) (auto simp: le32_def bit_simps intro!: bit_word_eqI dest: bit_imp_le_length)

lemma hton32_rev: "hton32 x = of_le32 (rev (le32 x))"
  by (simp add: hton32_def le32_def)

lemma hton32_hton32 [simp]: "hton32 (hton32 x) = x"
  by (simp add: hton32_rev)

section \<open>Headers\<close>

record ipv4_header =
  version4_ihl4 :: u8
  ds :: u8
  total_length :: u16
  identification :: u16
  flags3_fragmentoffset13 :: u16
  ttl :: u8
  protocol :: u8
  ip_checksum :: u16
  source_address :: u32
  destination_address :: u32

definition ipv4_image :: "ipv4_header \<Rightarrow> bytes" where
  "ipv4_image h = [version4_ihl4 h, ds h] @ le16 (total_length h) @ le16 (identification h) @
     le16 (flags3_fragmentoffset13 h) @ [ttl h, protocol h] @ le16 (ip_checksum h) @
     le32 (source_address h) @ le32 (destination_address h)"

definition ipv4_of_image :: "bytes \<Rightarrow> ipv4_header" where
  "ipv4_of_image d =
     \<lparr>version4_ihl4 = d ! 0, ds = d ! 1, total_length = of_le16 (mem_read d 2 2), identification = of_le16 (mem_read d 4 2),
      flags3_fragmentoffset13 = of_le16 (mem_read d 6 2), ttl = d ! 8, protocol = d ! 9, ip_checksum = of_le16 (mem_read d 10 2),
      source_address = of_le32 (mem_read d 12 4), destination_address = of_le32 (mem_read d 16 4)\<rparr>"

record ipv6_header =
  version4_tc4 :: u8
  tc4_fl4 :: u8
  fl :: u16
  payload_length :: u16
  next_header :: u8
  hop_limit :: u8
  ip6_source :: bytes
  ip6_destination :: bytes

definition ipv6_image :: "ipv6_header \<Rightarrow> bytes" where
  "ipv6_image h = [version4_tc4 h, tc4_fl4 h] @ le16 (fl h) @ le16 (payload_length h) @ [next_header h, hop_limit h] @
     ip6_source h @ ip6_destination h"

definition ipv6_of_image :: "bytes \<Rightarrow> ipv6_header" where
  "ipv6_of_image d =
     \<lparr>version4_tc4 = d ! 0, tc4_fl4 = d ! 1, fl = of_le16 (mem_read d 2 2), payload_length = of_le16 (mem_read d 4 2),
      next_header = d ! 6, hop_limit = d ! 7, ip6_source = mem_read d 8 16, ip6_destination = mem_read d 24 16\<rparr>"

record udp_header =
  source_port :: u16
  dest_port :: u16
  udp_len :: u16
  udp_sum :: u16

definition udp_image :: "udp_header \<Rightarrow> bytes" where
  "udp_image h = le16 (source_port h) @ le16 (dest_port h) @ le16 (udp_len h) @ le16 (udp_sum h)"

definition udp_of_image :: "bytes \<Rightarrow> udp_header" where
  "udp_of_image d =
     \<lparr>source_port = of_le16 (mem_read d 0 2), dest_port = of_le16 (mem_read d 2 2), udp_len = of_le16 (mem_read d 4 2),
      udp_sum = of_le16 (mem_read d 6 2)\<rparr>"

section \<open>Checksums\<close>

text \<open>The sum of the big-endian 16-bit words of a block of even length.\<close>

fun udp_checksum_summer :: "bytes \<Rightarrow> u32" where
  "udp_checksum_summer (a # b # xs) = ucast (of_be16 [a, b]) + udp_checksum_summer xs"
| "udp_checksum_summer _ = 0"

definition ipv4_checksum :: "ipv4_header \<Rightarrow> bytes \<Rightarrow> u16" where
  "ipv4_checksum h extra =
     (let t = udp_checksum_summer (ipv4_image h) + udp_checksum_summer extra
      in hton16 (ucast (NOT (checksum_fold t))))"

text \<open>\<open>payload_len\<close> is a \<open>uint16_t\<close>. An odd last byte is summed as the high byte of a word.\<close>

definition payload_len :: "bytes \<Rightarrow> nat" where
  "payload_len p = unat (of_nat (length p) :: u16)"

definition payload_sum :: "bytes \<Rightarrow> u32" where
  "payload_sum p =
     (let n = payload_len p
      in if n mod 2 = 0 then udp_checksum_summer (take n p)
         else udp_checksum_summer (take (n - 1) p) + udp_checksum_summer (le16 (hton16 (push_bit 8 (ucast (p ! (n - 1)))))))"

text \<open>The end of both checksums: fold, complement in 32 bits, replace zero, swap.\<close>

definition checksum_finish :: "u32 \<Rightarrow> u16" where
  "checksum_finish t0 =
     (let t = NOT (checksum_fold t0); t' = (if t = 0 then 0xFFFF else t) in hton16 (ucast t'))"

definition udp_checksum :: "udp_header \<Rightarrow> bytes \<Rightarrow> u32 \<Rightarrow> u32 \<Rightarrow> u16" where
  "udp_checksum h p src dst =
     checksum_finish
       (udp_checksum_summer (le32 src) + udp_checksum_summer (le32 dst) + udp_checksum_summer (le16 (hton16 17)) +
        udp_checksum_summer (le16 (hton16 (of_nat (8 + payload_len p)))) + udp_checksum_summer (udp_image h) + payload_sum p)"

definition udp_ip6_checksum :: "udp_header \<Rightarrow> bytes \<Rightarrow> bytes \<Rightarrow> bytes \<Rightarrow> u16" where
  "udp_ip6_checksum h p src dst =
     checksum_finish
       (udp_checksum_summer (take 16 src) + udp_checksum_summer (take 16 dst) +
        udp_checksum_summer (le32 (hton32 (of_nat (8 + payload_len p)))) + udp_checksum_summer (le32 (hton32 17)) +
        udp_checksum_summer (udp_image h) + payload_sum p)"

section \<open>Parsing\<close>

definition ipv4_check :: "bytes \<Rightarrow> (ipv4_header \<times> bytes) option" where
  "ipv4_check data =
     (if length data < 20 then None
      else let h = ipv4_of_image data;
               header_len = 4 * unat (version4_ihl4 h AND 0x0F);
               tot = unat (hton16 (total_length h))
           in if drop_bit 4 (version4_ihl4 h AND 0xF0) \<noteq> 4 then None
              else if header_len < 20 then None
              else if header_len > length data then None
              else if tot < header_len then None
              else if tot > length data then None
              else if ip_checksum h \<noteq> ipv4_checksum (h\<lparr>ip_checksum := hton16 0\<rparr>) (mem_read data 20 (header_len - 20)) then None
              else Some (h, mem_read data header_len (tot - header_len)))"

definition ipv6_check :: "bytes \<Rightarrow> (ipv6_header \<times> bytes) option" where
  "ipv6_check data =
     (if length data < 40 then None
      else let h = ipv6_of_image data; n = unat (hton16 (payload_length h))
           in if drop_bit 4 (version4_tc4 h) \<noteq> 6 then None
              else if n > length data - 40 then None
              else Some (h, mem_read data 40 n))"

definition udp_check :: "bytes \<Rightarrow> (udp_header \<times> bytes) option" where
  "udp_check data =
     (if length data < 8 then None
      else let h = udp_of_image data; n = unat (hton16 (udp_len h))
           in if n < 8 then None
              else if n > 8 + (length data - 8) then None
              else Some (h, mem_read data 8 (n - 8)))"

text \<open>A DNS query: no response bit, no error, no answer and no authority entries (\<open>DnsHeader\<close>).\<close>

definition dns_query :: "bytes \<Rightarrow> bool" where
  "dns_query data \<longleftrightarrow> \<not> (length data < 12) \<and> \<not> bit (data ! 2) 7 \<and> data ! 3 AND 0x0F = 0 \<and>
     of_le16 (mem_read data 6 2) = 0 \<and> of_le16 (mem_read data 8 2) = 0"

record tun_options =
  udpgw_on :: bool
  ip6_on :: bool
  dnsgw_on :: bool
  udp_mtu :: int

definition BAddr_MakeIPv4 :: "u32 \<Rightarrow> u16 \<Rightarrow> BAddr" where
  "BAddr_MakeIPv4 ip port = \<lparr>addr_type = BADDR_TYPE_IPV4, ipv4_ip = ip, ipv4_port = port, ipv6_ip = [], ipv6_port = 0\<rparr>"

definition BAddr_MakeIPv6 :: "bytes \<Rightarrow> u16 \<Rightarrow> BAddr" where
  "BAddr_MakeIPv6 ip port = \<lparr>addr_type = BADDR_TYPE_IPV6, ipv4_ip = 0, ipv4_port = 0, ipv6_ip = take 16 ip, ipv6_port = port\<rparr>"

text \<open>What is submitted to udpgw: local and remote address, whether it is DNS, and the payload.\<close>

type_synonym udp_submit = "BAddr \<times> BAddr \<times> bool \<times> bytes"

definition device_udp4 :: "tun_options \<Rightarrow> bytes \<Rightarrow> udp_submit option" where
  "device_udp4 opt data =
     (if length data < 20 \<or> data ! 9 \<noteq> 17 then None
      else case ipv4_check data of
             None \<Rightarrow> None
           | Some (ip, d1) \<Rightarrow>
               (case udp_check d1 of
                  None \<Rightarrow> None
                | Some (u, d2) \<Rightarrow>
                    if udp_sum u \<noteq> udp_checksum (u\<lparr>udp_sum := 0\<rparr>) d2 (source_address ip) (destination_address ip) then None
                    else Some (BAddr_MakeIPv4 (source_address ip) (source_port u),
                               BAddr_MakeIPv4 (destination_address ip) (dest_port u),
                               dnsgw_on opt \<and> dest_port u = hton16 53 \<and> dns_query d2, d2)))"

definition device_udp6 :: "tun_options \<Rightarrow> bytes \<Rightarrow> udp_submit option" where
  "device_udp6 opt data =
     (if \<not> ip6_on opt then None
      else if length data < 40 \<or> data ! 6 \<noteq> 17 then None
      else case ipv6_check data of
             None \<Rightarrow> None
           | Some (ip, d1) \<Rightarrow>
               (case udp_check d1 of
                  None \<Rightarrow> None
                | Some (u, d2) \<Rightarrow>
                    if udp_sum u \<noteq> udp_ip6_checksum (u\<lparr>udp_sum := 0\<rparr>) d2 (ip6_source ip) (ip6_destination ip) then None
                    else Some (BAddr_MakeIPv6 (ip6_source ip) (source_port u),
                               BAddr_MakeIPv6 (ip6_destination ip) (dest_port u), False, d2)))"

text \<open>None: the result is 0, and the packet goes to lwIP.\<close>

definition process_device_udp_packet :: "tun_options \<Rightarrow> bytes \<Rightarrow> udp_submit option" where
  "process_device_udp_packet opt data =
     (if \<not> udpgw_on opt then None
      else let ip_version = (if length data > 0 then drop_bit 4 (data ! 0) else 0);
               r = (if ip_version = 4 then device_udp4 opt data else if ip_version = 6 then device_udp6 opt data else None)
           in case r of
                None \<Rightarrow> None
              | Some (l, rm, dns, d) \<Rightarrow> if int (length d) > udp_mtu opt then None else Some (l, rm, dns, d))"

section \<open>Building\<close>

definition udpgw_build4 :: "BAddr \<Rightarrow> BAddr \<Rightarrow> bytes \<Rightarrow> bytes" where
  "udpgw_build4 l rm data =
     (let iph0 = \<lparr>version4_ihl4 = of_nat (20 div 4) + push_bit 4 4, ds = 0, total_length = hton16 (of_nat (20 + 8 + length data)),
                  identification = hton16 0, flags3_fragmentoffset13 = hton16 0, ttl = 64, protocol = 17,
                  ip_checksum = hton16 0, source_address = ipv4_ip rm, destination_address = ipv4_ip l\<rparr>;
          iph = iph0\<lparr>ip_checksum := ipv4_checksum iph0 []\<rparr>;
          udph0 = \<lparr>source_port = ipv4_port rm, dest_port = ipv4_port l, udp_len = hton16 (of_nat (8 + length data)),
                   udp_sum = hton16 0\<rparr>;
          udph = udph0\<lparr>udp_sum := udp_checksum udph0 data (source_address iph) (destination_address iph)\<rparr>
      in ipv4_image iph @ udp_image udph @ data)"

definition udpgw_build6 :: "BAddr \<Rightarrow> BAddr \<Rightarrow> bytes \<Rightarrow> bytes" where
  "udpgw_build6 l rm data =
     (let iph = \<lparr>version4_tc4 = push_bit 4 6, tc4_fl4 = 0, fl = hton16 0, payload_length = hton16 (of_nat (8 + length data)),
                 next_header = 17, hop_limit = 64, ip6_source = ipv6_ip rm, ip6_destination = ipv6_ip l\<rparr>;
          udph0 = \<lparr>source_port = ipv6_port rm, dest_port = ipv6_port l, udp_len = hton16 (of_nat (8 + length data)),
                   udp_sum = hton16 0\<rparr>;
          udph = udph0\<lparr>udp_sum := udp_ip6_checksum udph0 data (ip6_source iph) (ip6_destination iph)\<rparr>
      in ipv6_image iph @ udp_image udph @ data)"

text \<open>The packet given to \<open>BTap_Send\<close>, or None when it is dropped; \<open>mtu\<close> is that of the device.\<close>

definition udpgw_client_handler_received :: "tun_options \<Rightarrow> int \<Rightarrow> BAddr \<Rightarrow> BAddr \<Rightarrow> bytes \<Rightarrow> bytes option" where
  "udpgw_client_handler_received opt mtu l rm data =
     (if addr_type l = BADDR_TYPE_IPV4
      then if length data > 65535 - (20 + 8) \<or> int (length data) > mtu - (20 + 8) then None
           else Some (udpgw_build4 l rm data)
      else if addr_type l = BADDR_TYPE_IPV6
      then if \<not> ip6_on opt then None
           else if length data > 65535 - 8 \<or> int (length data) > mtu - (40 + 8) then None
           else Some (udpgw_build6 l rm data)
      else Some [])"

section \<open>The checksum of RFC 1071\<close>

lemma summer_word_sum: "even (length xs) \<Longrightarrow> udp_checksum_summer xs = of_nat (word_sum xs)"
proof (induction xs rule: udp_checksum_summer.induct)
  case (1 a b xs)
  have "(ucast (of_be16 [a, b]) :: u32) = of_nat (unat (of_be16 [a, b]))" by (simp del: of_be16.simps)
  then show ?case using 1 by (simp del: of_be16.simps add: unat_of_be16)
qed auto

lemma checksum_finish_value: "unat (hton16 (checksum_finish t)) = 65535 - ones_sum (unat t)"
proof -
  have "unat (checksum_fold t) \<le> 65535" using ones_sum_le by (simp add: checksum_fold_value)
  then have "checksum_fold t \<noteq> - 1" by (auto simp: unsigned_minus_1_eq_mask mask_eq_exp_minus_1)
  then have "NOT (checksum_fold t) \<noteq> 0" by (metis bit.compl_zero bit.double_compl)
  then show ?thesis by (simp add: checksum_finish_def Let_def complement_fold)
qed

text \<open>What the UDP checksum is computed over.\<close>

definition udp4_covered :: "udp_header \<Rightarrow> bytes \<Rightarrow> u32 \<Rightarrow> u32 \<Rightarrow> bytes" where
  "udp4_covered h p src dst = le32 src @ le32 dst @ be16 17 @ be16 (of_nat (8 + length p)) @ udp_image h @ p"

lemma payload_len_eq [simp]: "length p < 65536 \<Longrightarrow> payload_len p = length p"
  by (simp add: payload_len_def unsigned_of_nat take_bit_nat_eq_self)

lemma payload_sum_word: "length p < 65536 \<Longrightarrow> payload_sum p = of_nat (word_sum p)"
proof (cases "even (length p)")
  case False
  assume l: "length p < 65536"
  from False obtain q x where p: "p = q @ [x]" "even (length q)" by (cases p rule: rev_cases) auto
  have "be16 (push_bit 8 (ucast x)) = [x, 0]" by (auto simp: be16_def bit_simps intro!: bit_word_eqI)
  then have "udp_checksum_summer (le16 (hton16 (push_bit 8 (ucast x)))) = of_nat (word_sum [x])"
    using summer_word_sum [of "[x, 0]"] by simp
  moreover have "\<not> length p mod 2 = 0" using l False by (simp add: even_iff_mod_2_eq_zero)
  ultimately show ?thesis using p l
    by (simp add: payload_sum_def Let_def summer_word_sum word_sum_append del: udp_checksum_summer.simps)
qed (simp add: payload_sum_def Let_def summer_word_sum even_iff_mod_2_eq_zero)

lemma udp_sum_covered:
  assumes "length p \<le> 65507"
  shows "unat (udp_checksum_summer (le32 src) + udp_checksum_summer (le32 dst) + udp_checksum_summer (le16 (hton16 17)) +
      udp_checksum_summer (le16 (hton16 (of_nat (8 + payload_len p)))) + udp_checksum_summer (udp_image h) + payload_sum p) =
    word_sum (udp4_covered h p src dst)"
proof -
  have "word_sum (udp4_covered h p src dst) \<le> 65535 * ((length (udp4_covered h p src dst) + 1) div 2)" by (rule word_sum_bound)
  also have "\<dots> < 2 ^ 32" using assms by (simp add: udp4_covered_def udp_image_def)
  finally have b: "word_sum (udp4_covered h p src dst) < 2 ^ 32" .
  have "udp_checksum_summer (le32 src) + udp_checksum_summer (le32 dst) + udp_checksum_summer (le16 (hton16 17)) +
      udp_checksum_summer (le16 (hton16 (of_nat (8 + payload_len p)))) + udp_checksum_summer (udp_image h) + payload_sum p =
    of_nat (word_sum (udp4_covered h p src dst))"
    using assms by (simp add: payload_sum_word summer_word_sum udp4_covered_def word_sum_append udp_image_def)
  then show ?thesis using b by (simp add: unsigned_of_nat take_bit_nat_eq_self)
qed

section \<open>A packet built is a packet parsed\<close>

lemmas image_defs = le16_def le32_def mem_read_def

lemma ipv4_image_inverse: "ipv4_of_image (ipv4_image h @ xs) = h"
  using of_le16_le16 [unfolded le16_def] of_le32_le32 [unfolded le32_def]
  by (simp add: ipv4_of_image_def ipv4_image_def image_defs del: of_le16.simps of_le32.simps)

lemma udp_image_inverse: "udp_of_image (udp_image h @ xs) = h"
  using of_le16_le16 [unfolded le16_def]
  by (simp add: udp_of_image_def udp_image_def image_defs del: of_le16.simps)

lemma ipv6_image_inverse:
  assumes "length (ip6_source h) = 16" "length (ip6_destination h) = 16"
  shows "ipv6_of_image (ipv6_image h @ xs) = h"
  using assms of_le16_le16 [unfolded le16_def]
  by (simp add: ipv6_of_image_def ipv6_image_def image_defs del: of_le16.simps)

lemma image_lengths [simp]: "length (ipv4_image h) = 20" "length (udp_image u) = 8"
  "length (ip6_source i) = 16 \<Longrightarrow> length (ip6_destination i) = 16 \<Longrightarrow> length (ipv6_image i) = 40"
  by (simp_all add: ipv4_image_def udp_image_def ipv6_image_def)

lemma of_nat_hton [simp]: "n < 65536 \<Longrightarrow> unat (hton16 (hton16 (of_nat n))) = n"
  by (simp add: unsigned_of_nat take_bit_nat_eq_self)

lemma mem_read_append [simp]: "length xs = n \<Longrightarrow> mem_read (xs @ ys) n (length ys) = ys"
  by (simp add: mem_read_def)

lemma udp_check_image:
  assumes "udp_len h = hton16 (of_nat (8 + length d))" "length d \<le> 65527"
  shows "udp_check (udp_image h @ d) = Some (h, d)"
proof -
  have "unat (hton16 (udp_len h)) = 8 + length d" unfolding assms(1) by (rule of_nat_hton) (use assms(2) in simp)
  then show ?thesis by (simp add: udp_check_def udp_image_inverse Let_def)
qed

lemma ipv4_check_image:
  assumes "version4_ihl4 h = 0x45" "total_length h = hton16 (of_nat (20 + length d))" "length d \<le> 65515"
    "ip_checksum h = ipv4_checksum (h\<lparr>ip_checksum := hton16 0\<rparr>) []"
  shows "ipv4_check (ipv4_image h @ d) = Some (h, d)"
proof -
  have "unat (hton16 (total_length h)) = 20 + length d" unfolding assms(2) by (rule of_nat_hton) (use assms(3) in simp)
  moreover have "drop_bit 4 (version4_ihl4 h AND 0xF0) = 4" "4 * unat (version4_ihl4 h AND 0x0F) = 20"
    unfolding assms(1) by code_simp+
  ultimately show ?thesis using assms(4) by (simp add: ipv4_check_def ipv4_image_inverse Let_def)
qed

lemma ipv6_check_image:
  assumes "version4_tc4 h = 0x60" "payload_length h = hton16 (of_nat (length d))" "length d \<le> 65535"
    "length (ip6_source h) = 16" "length (ip6_destination h) = 16"
  shows "ipv6_check (ipv6_image h @ d) = Some (h, d)"
proof -
  have "unat (hton16 (payload_length h)) = length d" unfolding assms(2) by (rule of_nat_hton) (use assms(3) in simp)
  moreover have "drop_bit 4 (version4_tc4 h) = 6" unfolding assms(1) by code_simp
  ultimately show ?thesis using assms(4,5) by (simp add: ipv6_check_def ipv6_image_inverse Let_def)
qed

lemma hton16_zero [simp]: "hton16 0 = 0"
  by (simp add: hton16_def)

lemma device_udp4_build:
  assumes "length data \<le> 65507"
  shows "\<exists>dns. device_udp4 opt (udpgw_build4 l rm data) =
      Some (BAddr_MakeIPv4 (ipv4_ip rm) (ipv4_port rm), BAddr_MakeIPv4 (ipv4_ip l) (ipv4_port l), dns, data)"
    "length (udpgw_build4 l rm data) = 28 + length data" "drop_bit 4 (udpgw_build4 l rm data ! 0) = 4"
proof -
  define iph0 where "iph0 = \<lparr>version4_ihl4 = 0x45, ds = 0, total_length = hton16 (of_nat (20 + 8 + length data)),
      identification = hton16 0, flags3_fragmentoffset13 = hton16 0, ttl = 64, protocol = 17,
      ip_checksum = hton16 0, source_address = ipv4_ip rm, destination_address = ipv4_ip l\<rparr>"
  define iph where "iph = iph0\<lparr>ip_checksum := ipv4_checksum iph0 []\<rparr>"
  define udph0 where "udph0 = \<lparr>source_port = ipv4_port rm, dest_port = ipv4_port l, udp_len = hton16 (of_nat (8 + length data)),
      udp_sum = hton16 0\<rparr>"
  define udph where "udph = udph0\<lparr>udp_sum := udp_checksum udph0 data (source_address iph) (destination_address iph)\<rparr>"
  have "(of_nat (20 div 4) + push_bit 4 4 :: u8) = 0x45" by code_simp
  then have b: "udpgw_build4 l rm data = ipv4_image iph @ udp_image udph @ data"
    unfolding udpgw_build4_def Let_def udph_def udph0_def iph_def iph0_def by (rule ssubst) (rule refl)
  have ip: "ipv4_check (ipv4_image iph @ udp_image udph @ data) = Some (iph, udp_image udph @ data)"
    by (rule ipv4_check_image) (use assms in \<open>simp_all add: iph_def iph0_def\<close>)
  have udp: "udp_check (udp_image udph @ data) = Some (udph, data)"
    by (rule udp_check_image) (use assms in \<open>simp_all add: udph_def udph0_def\<close>)
  have "udph\<lparr>udp_sum := 0\<rparr> = udph0" by (simp add: udph_def udph0_def)
  then have "udp_sum udph = udp_checksum (udph\<lparr>udp_sum := 0\<rparr>) data (source_address iph) (destination_address iph)"
    by (simp add: udph_def)
  moreover have nth: "(ipv4_image iph @ xs) ! 9 = 17" "(ipv4_image iph @ xs) ! 0 = 0x45" for xs
    by (simp_all add: ipv4_image_def iph_def iph0_def le16_def)
  ultimately have "\<exists>dns. device_udp4 opt (udpgw_build4 l rm data) =
      Some (BAddr_MakeIPv4 (source_address iph) (source_port udph), BAddr_MakeIPv4 (destination_address iph) (dest_port udph), dns, data)"
    unfolding b device_udp4_def using ip udp by simp
  then show "\<exists>dns. device_udp4 opt (udpgw_build4 l rm data) =
      Some (BAddr_MakeIPv4 (ipv4_ip rm) (ipv4_port rm), BAddr_MakeIPv4 (ipv4_ip l) (ipv4_port l), dns, data)"
    by (simp add: iph_def iph0_def udph_def udph0_def)
  show "length (udpgw_build4 l rm data) = 28 + length data" by (simp add: b)
  have "drop_bit 4 (0x45 :: u8) = 4" by code_simp
  then show "drop_bit 4 (udpgw_build4 l rm data ! 0) = 4" unfolding b nth(2) .
qed

lemma device_udp6_build:
  assumes "length data \<le> 65527" "length (ipv6_ip l) = 16" "length (ipv6_ip rm) = 16" "ip6_on opt"
  shows "device_udp6 opt (udpgw_build6 l rm data) =
      Some (BAddr_MakeIPv6 (ipv6_ip rm) (ipv6_port rm), BAddr_MakeIPv6 (ipv6_ip l) (ipv6_port l), False, data)"
    "length (udpgw_build6 l rm data) = 48 + length data" "drop_bit 4 (udpgw_build6 l rm data ! 0) = 6"
proof -
  define iph where "iph = \<lparr>version4_tc4 = 0x60, tc4_fl4 = 0, fl = hton16 0, payload_length = hton16 (of_nat (8 + length data)),
      next_header = 17, hop_limit = 64, ip6_source = ipv6_ip rm, ip6_destination = ipv6_ip l\<rparr>"
  define udph0 where "udph0 = \<lparr>source_port = ipv6_port rm, dest_port = ipv6_port l, udp_len = hton16 (of_nat (8 + length data)),
      udp_sum = hton16 0\<rparr>"
  define udph where "udph = udph0\<lparr>udp_sum := udp_ip6_checksum udph0 data (ip6_source iph) (ip6_destination iph)\<rparr>"
  have "(push_bit 4 6 :: u8) = 0x60" by code_simp
  then have b: "udpgw_build6 l rm data = ipv6_image iph @ udp_image udph @ data"
    unfolding udpgw_build6_def Let_def udph_def udph0_def iph_def by (rule ssubst) (rule refl)
  have ip: "ipv6_check (ipv6_image iph @ udp_image udph @ data) = Some (iph, udp_image udph @ data)"
    by (rule ipv6_check_image) (use assms in \<open>simp_all add: iph_def\<close>)
  have udp: "udp_check (udp_image udph @ data) = Some (udph, data)"
    by (rule udp_check_image) (use assms in \<open>simp_all add: udph_def udph0_def\<close>)
  have "udph\<lparr>udp_sum := 0\<rparr> = udph0" by (simp add: udph_def udph0_def)
  then have sum: "udp_sum udph = udp_ip6_checksum (udph\<lparr>udp_sum := 0\<rparr>) data (ip6_source iph) (ip6_destination iph)"
    by (simp add: udph_def)
  have nth: "(ipv6_image iph @ xs) ! 6 = 17" "(ipv6_image iph @ xs) ! 0 = 0x60" for xs
    by (simp_all add: ipv6_image_def iph_def le16_def)
  have len: "length (ipv6_image iph) = 40" using assms by (simp add: iph_def)
  show "length (udpgw_build6 l rm data) = 48 + length data" by (simp add: b len)
  have "device_udp6 opt (udpgw_build6 l rm data) =
      Some (BAddr_MakeIPv6 (ip6_source iph) (source_port udph), BAddr_MakeIPv6 (ip6_destination iph) (dest_port udph), False, data)"
    unfolding b device_udp6_def using ip udp sum nth len assms(4) by simp
  then show "device_udp6 opt (udpgw_build6 l rm data) =
      Some (BAddr_MakeIPv6 (ipv6_ip rm) (ipv6_port rm), BAddr_MakeIPv6 (ipv6_ip l) (ipv6_port l), False, data)"
    by (simp add: iph_def udph_def udph0_def)
  have "drop_bit 4 (0x60 :: u8) = 6" by code_simp
  then show "drop_bit 4 (udpgw_build6 l rm data ! 0) = 6" unfolding b nth(2) .
qed

lemma make_abs [simp]:
  "baddr_abs (BAddr_MakeIPv4 ip p) = Some (IPv4Addr ip p)"
  "length a = 16 \<Longrightarrow> baddr_abs (BAddr_MakeIPv6 a p) = Some (IPv6Addr a p)"
  by (simp_all add: baddr_abs_def BAddr_MakeIPv4_def BAddr_MakeIPv6_def socks_consts)

lemma udp_check_bounds:
  "udp_check d = Some (u, p) \<Longrightarrow> p = mem_read d 8 (length p) \<and> 8 + length p \<le> length d"
  by (auto simp: udp_check_def Let_def split: if_splits)

lemma ipv4_check_bounds:
  "ipv4_check d = Some (h, p) \<Longrightarrow> \<exists>off. 20 \<le> off \<and> p = mem_read d off (length p) \<and> off + length p \<le> length d"
  by (auto simp: ipv4_check_def Let_def split: if_splits intro!: exI [of _ "4 * unat (version4_ihl4 (ipv4_of_image d) AND 0x0F)"])

lemma ipv6_check_bounds:
  "ipv6_check d = Some (h, p) \<Longrightarrow> p = mem_read d 40 (length p) \<and> 40 + length p \<le> length d"
  by (auto simp: ipv6_check_def Let_def split: if_splits)

lemma mem_read_mem_read: "i + n \<le> k \<Longrightarrow> mem_read (mem_read d off k) i n = mem_read d (off + i) n"
  by (simp add: mem_read_def drop_take add.commute)

lemma nested_read:
  assumes "q = mem_read d off (length q)" "off + length q \<le> length d" "p = mem_read q 8 (length p)" "8 + length p \<le> length q"
  shows "p = mem_read d (off + 8) (length p) \<and> off + 8 + length p \<le> length d"
proof -
  have "p = mem_read (mem_read d off (length q)) 8 (length p)" using assms(1,3) by simp
  then show ?thesis using mem_read_mem_read [of 8 "length p" "length q" d off] assms(2,4) by simp
qed

lemma built_packet_parses:
  assumes "udpgw_client_handler_received opt mtu l rm data = Some pkt" "addr_ok l" "addr_ok rm" "addr_type l = addr_type rm"
    "udpgw_on opt" "int (length data) \<le> udp_mtu opt"
  shows "int (length pkt) \<le> mtu \<and> (\<exists>src dst dns. process_device_udp_packet opt pkt = Some (src, dst, dns, data) \<and>
    baddr_abs src = baddr_abs rm \<and> baddr_abs dst = baddr_abs l)"
proof (cases "addr_type l = BADDR_TYPE_IPV4")
  case True
  then have p: "pkt = udpgw_build4 l rm data" "length data \<le> 65507" "int (length data) \<le> mtu - 28"
    using assms(1) by (auto simp: udpgw_client_handler_received_def split: if_splits)
  note b = device_udp4_build [OF p(2)]
  obtain dns where "process_device_udp_packet opt pkt =
      Some (BAddr_MakeIPv4 (ipv4_ip rm) (ipv4_port rm), BAddr_MakeIPv4 (ipv4_ip l) (ipv4_port l), dns, data)"
    using b(1) [of opt l rm] b(2,3) [of l rm] p(1) assms(5,6) by (auto simp: process_device_udp_packet_def)
  moreover have "int (length pkt) \<le> mtu" using b(2) [of l rm] p by simp
  moreover have "baddr_abs rm = Some (IPv4Addr (ipv4_ip rm) (ipv4_port rm))" "baddr_abs l = Some (IPv4Addr (ipv4_ip l) (ipv4_port l))"
    using True assms(4) by (simp_all add: baddr_abs_def)
  ultimately show ?thesis by simp
next
  case False
  then have t: "addr_type l = BADDR_TYPE_IPV6" "length (ipv6_ip l) = 16" "length (ipv6_ip rm) = 16" "BADDR_TYPE_IPV6 \<noteq> BADDR_TYPE_IPV4"
    using assms(2-4) by (auto simp: addr_ok_def socks_consts)
  then have p: "pkt = udpgw_build6 l rm data" "length data \<le> 65527" "int (length data) \<le> mtu - 48" "ip6_on opt"
    using assms(1) by (auto simp: udpgw_client_handler_received_def split: if_splits)
  note b = device_udp6_build [OF p(2) t(2,3) p(4)]
  have "process_device_udp_packet opt pkt =
      Some (BAddr_MakeIPv6 (ipv6_ip rm) (ipv6_port rm), BAddr_MakeIPv6 (ipv6_ip l) (ipv6_port l), False, data)"
    using b p(1) assms(5,6) by (simp add: process_device_udp_packet_def)
  moreover have "int (length pkt) \<le> mtu" using b(2) p by simp
  moreover have "baddr_abs rm = Some (IPv6Addr (ipv6_ip rm) (ipv6_port rm))" "baddr_abs l = Some (IPv6Addr (ipv6_ip l) (ipv6_port l))"
    using t assms(4) by (simp_all add: baddr_abs_def)
  ultimately show ?thesis using t by auto
qed

lemma accepted_packet_bounds:
  assumes "process_device_udp_packet opt data = Some (l, rm, dns, d)"
  shows "\<exists>off. 28 \<le> off \<and> off + length d \<le> length data \<and> d = mem_read data off (length d) \<and>
    int (length d) \<le> udp_mtu opt \<and> udpgw_on opt \<and> addr_ok l \<and> addr_ok rm \<and> addr_type l = addr_type rm"
proof -
  have o: "udpgw_on opt" "int (length d) \<le> udp_mtu opt" "device_udp4 opt data = Some (l, rm, dns, d) \<or> device_udp6 opt data = Some (l, rm, dns, d)"
    using assms by (auto simp: process_device_udp_packet_def Let_def split: if_splits option.splits prod.splits)
  from o(3) show ?thesis
  proof
    assume "device_udp4 opt data = Some (l, rm, dns, d)"
    then obtain ip d1 u where r: "ipv4_check data = Some (ip, d1)" "udp_check d1 = Some (u, d)"
      "addr_ok l \<and> addr_ok rm \<and> addr_type l = addr_type rm"
      by (auto simp: device_udp4_def addr_ok_def BAddr_MakeIPv4_def split: if_splits option.splits prod.splits)
    obtain off where off: "20 \<le> off" "d1 = mem_read data off (length d1)" "off + length d1 \<le> length data"
      using ipv4_check_bounds [OF r(1)] by blast
    show ?thesis using nested_read [OF off(2,3)] udp_check_bounds [OF r(2)] r(3) o(1,2) off(1)
      by (intro exI [of _ "off + 8"]) auto
  next
    assume d6: "device_udp6 opt data = Some (l, rm, dns, d)"
    then obtain ip d1 u where r: "ipv6_check data = Some (ip, d1)" "udp_check d1 = Some (u, d)"
      "l = BAddr_MakeIPv6 (ip6_source ip) (source_port u)" "rm = BAddr_MakeIPv6 (ip6_destination ip) (dest_port u)"
      by (auto simp: device_udp6_def split: if_splits option.splits prod.splits)
    have "length (ip6_source ip) = 16" "length (ip6_destination ip) = 16"
      using r(1) by (auto simp: ipv6_check_def ipv6_of_image_def Let_def split: if_splits)
    then have "addr_ok l" "addr_ok rm" "addr_type l = addr_type rm" using r(3,4) by (simp_all add: addr_ok_def BAddr_MakeIPv6_def)
    then show ?thesis using nested_read [of d1 data 40 d] ipv6_check_bounds [OF r(1)] udp_check_bounds [OF r(2)] o(1,2)
      by (intro exI [of _ 48]) auto
  qed
qed

section \<open>Properties\<close>

text \<open>
  C13. A packet built is a packet parsed. What \<open>udpgw_client_handler_received\<close> writes to the device for
  data from the remote address to the local one fits the device's MTU and passes all checks of
  \<open>process_device_udp_packet\<close>, IPv4 and IPv6, for every payload: headers, lengths and both checksums; it
  is read as a packet from that remote to that local address with exactly the payload.
\<close>

theorem udp_packet_roundtrip:
  assumes "udpgw_client_handler_received opt mtu l rm data = Some pkt" "addr_ok l" "addr_ok rm" "addr_type l = addr_type rm"
    "udpgw_on opt" "int (length data) \<le> udp_mtu opt"
  shows "int (length pkt) \<le> mtu \<and> (\<exists>src dst dns. process_device_udp_packet opt pkt = Some (src, dst, dns, data) \<and>
    baddr_abs src = baddr_abs rm \<and> baddr_abs dst = baddr_abs l)"
  using built_packet_parses [OF assms] .

theorem udp_packet_roundtrip_witness:
  "\<exists>pkt src dst dns. udpgw_client_handler_received \<lparr>udpgw_on = True, ip6_on = False, dnsgw_on = False, udp_mtu = 1472\<rparr> 1500
      socks_test_addr socks_test_addr [104, 105, 33] = Some pkt \<and> int (length pkt) \<le> 1500 \<and>
    process_device_udp_packet \<lparr>udpgw_on = True, ip6_on = False, dnsgw_on = False, udp_mtu = 1472\<rparr> pkt = Some (src, dst, dns, [104, 105, 33]) \<and>
    baddr_abs src = Some (IPv4Addr 0x0100007F 0x5000)"
proof -
  let ?o = "\<lparr>udpgw_on = True, ip6_on = False, dnsgw_on = False, udp_mtu = 1472\<rparr>"
  have ad: "addr_ok socks_test_addr" "baddr_abs socks_test_addr = Some (IPv4Addr 0x0100007F 0x5000)"
    by (simp_all add: addr_ok_def baddr_abs_def socks_test_addr_def socks_consts)
  obtain pkt where p: "udpgw_client_handler_received ?o 1500 socks_test_addr socks_test_addr [104, 105, 33] = Some pkt"
    by (simp add: udpgw_client_handler_received_def socks_test_addr_def socks_consts)
  from udp_packet_roundtrip [OF p ad(1) ad(1)] p ad(2) show ?thesis by auto
qed



text \<open>
  C30. The UDP checksum. For every header and payload the code's loop over 32-bit sums, with its separate
  treatment of the pseudo header and of an odd last byte, computes the complement of the one's complement
  sum of RFC 1071 over pseudo header, header and zero-padded payload.
\<close>

theorem udp_checksum_rfc1071:
  assumes "length p \<le> 65507"
  shows "unat (hton16 (udp_checksum h p src dst)) = rfc_checksum (udp4_covered h p src dst)"
  unfolding udp_checksum_def checksum_finish_value udp_sum_covered [OF assms] rfc_checksum_def ..

theorem udp_checksum_rfc1071_witness:
  "unat (hton16 (udp_checksum \<lparr>source_port = hton16 1, dest_port = hton16 2, udp_len = hton16 9, udp_sum = 0\<rparr> [9] 0x0100000A 0x0200000A)) =
    rfc_checksum (udp4_covered \<lparr>source_port = hton16 1, dest_port = hton16 2, udp_len = hton16 9, udp_sum = 0\<rparr> [9] 0x0100000A 0x0200000A)"
  by (rule udp_checksum_rfc1071) simp


end
