(* ===== verification/Udpgw_Client.thy ===== *)
theory Udpgw_Client
  imports Udp_Packet
begin

text \<open>
  The udpgw client (\<open>udpgw_client/UdpGwClient.c\<close>, \<open>protocol/udpgw_proto.h\<close>): it carries UDP packets over one
  connection to a udpgw server. Each pair of local and remote address has a connection with a 16-bit
  number; there is a bounded number of connections, and when all are in use the least recently used one
  is taken over.

  A connection is allocated memory: a pointer is a natural number, and the store maps pointers to
  connections. The two AVL trees are maps from their keys to pointers, the linked list is a list of
  pointers; the code keeps the three consistent, which is the invariant. \<open>BAddr_CompareOrder\<close> compares
  type, address and port, so that a key is the abstract address. The packet queues behind a connection
  are \<open>Packet_Proto\<close> and \<open>Chunk_Buffer\<close>; here a packet that is put into the connection's writer is an
  action, and whether the writer has a free buffer is an argument.
\<close>

definition UDPGW_CLIENT_FLAG_KEEPALIVE :: u8 where "UDPGW_CLIENT_FLAG_KEEPALIVE = push_bit 0 1"
definition UDPGW_CLIENT_FLAG_REBIND :: u8 where "UDPGW_CLIENT_FLAG_REBIND = push_bit 1 1"
definition UDPGW_CLIENT_FLAG_DNS :: u8 where "UDPGW_CLIENT_FLAG_DNS = push_bit 2 1"
definition UDPGW_CLIENT_FLAG_IPV6 :: u8 where "UDPGW_CLIENT_FLAG_IPV6 = push_bit 3 1"

definition bsize_fromint :: "int \<Rightarrow> bsize" where
  "bsize_fromint v = \<lparr>is_overflow = (v < 0 \<or> v > int SIZE_MAX), bs_value = nat (v mod (int SIZE_MAX + 1))\<rparr>"

definition bsize_toint :: "bsize \<Rightarrow> int option" where
  "bsize_toint s = (if is_overflow s \<or> int (bs_value s) > 2147483647 then None else Some (int (bs_value s)))"

text \<open>The Android variant, whose header is the four bytes of \<open>socks_udp_header\<close>.\<close>

definition udpgw_compute_mtu :: "int \<Rightarrow> int" where
  "udpgw_compute_mtu dgram_mtu =
     (let bs = bsize_add (bsize_fromsize 4)
                 (bsize_add (bsize_max (bsize_fromsize 6) (bsize_fromsize 18)) (bsize_fromint dgram_mtu))
      in case bsize_toint bs of None \<Rightarrow> -1 | Some s \<Rightarrow> s)"

section \<open>State\<close>

record conaddr =
  ca_local :: BAddr
  ca_remote :: BAddr

type_synonym conkey = "sock_addr option \<times> sock_addr option"

text \<open>The order of the trees: type, address, port; the remote address first.\<close>

definition B_COMPARE :: "'a::linorder \<Rightarrow> 'a \<Rightarrow> int" where
  "B_COMPARE a b = (if a > b then 1 else 0) - (if a < b then 1 else 0)"

text \<open>The sign of \<open>memcmp\<close> on arrays of one length.\<close>

fun memcmp_sign :: "bytes \<Rightarrow> bytes \<Rightarrow> int" where
  "memcmp_sign (x # xs) (y # ys) = (if x = y then memcmp_sign xs ys else B_COMPARE x y)"
| "memcmp_sign _ _ = 0"

definition BAddr_CompareOrder :: "BAddr \<Rightarrow> BAddr \<Rightarrow> int" where
  "BAddr_CompareOrder a b =
     (let c = B_COMPARE (addr_type a) (addr_type b)
      in if c \<noteq> 0 then c
         else if addr_type a = BADDR_TYPE_IPV4
         then let c = B_COMPARE (hton32 (ipv4_ip a)) (hton32 (ipv4_ip b))
              in if c \<noteq> 0 then c else B_COMPARE (hton16 (ipv4_port a)) (hton16 (ipv4_port b))
         else if addr_type a = BADDR_TYPE_IPV6
         then let c = memcmp_sign (ipv6_ip a) (ipv6_ip b)
              in if c \<noteq> 0 then B_COMPARE c 0 else B_COMPARE (hton16 (ipv6_port a)) (hton16 (ipv6_port b))
         else 0)"

definition conaddr_comparator :: "conaddr \<Rightarrow> conaddr \<Rightarrow> int" where
  "conaddr_comparator a b =
     (let r = BAddr_CompareOrder (ca_remote a) (ca_remote b)
      in if r \<noteq> 0 then r else BAddr_CompareOrder (ca_local a) (ca_local b))"

definition uint16_comparator :: "u16 \<Rightarrow> u16 \<Rightarrow> int" where
  "uint16_comparator a b = B_COMPARE a b"

definition conaddr_key :: "conaddr \<Rightarrow> conkey" where
  "conaddr_key a = (baddr_abs (ca_remote a), baddr_abs (ca_local a))"

record ug_connection =
  ug_conaddr :: conaddr
  first_flags :: u8
  first_data :: bytes
  ug_conid :: u16
  first_job :: bool

record UdpGwClient =
  ug_udp_mtu :: int
  max_connections :: int
  udpgw_mtu :: int
  pp_mtu :: int
  ug_store :: "nat \<rightharpoonup> ug_connection"
  tree_by_conaddr :: "conkey \<rightharpoonup> nat"
  tree_by_conid :: "u16 \<rightharpoonup> nat"
  connections_list :: "nat list"
  num_connections :: int
  next_conid :: int
  keepalive_sending :: bool
  have_server :: bool

datatype ug_act =
    UgSend nat bytes  \<comment> \<open>a packet for the writer of a connection\<close>
  | UgReceived BAddr BAddr bytes  \<comment> \<open>\<open>handler_received\<close>: local address, remote address, data\<close>
  | UgKeepalive bytes
  | UgServerError

section \<open>Connections\<close>

definition find_connection_by_conaddr :: "UdpGwClient \<Rightarrow> conaddr \<Rightarrow> nat option" where
  "find_connection_by_conaddr g a = tree_by_conaddr g (conaddr_key a)"

definition find_connection_by_conid :: "UdpGwClient \<Rightarrow> u16 \<Rightarrow> nat option" where
  "find_connection_by_conid g i = tree_by_conid g i"

text \<open>\<open>BAVL_Insert\<close> does nothing when the key is there; \<open>BAVL_Remove\<close> takes the node out.\<close>

definition avl_insert :: "'k \<Rightarrow> nat \<Rightarrow> ('k \<rightharpoonup> nat) \<Rightarrow> ('k \<rightharpoonup> nat)" where
  "avl_insert k p t = (if t k = None then t(k \<mapsto> p) else t)"

definition avl_remove :: "'k \<Rightarrow> ('k \<rightharpoonup> nat) \<Rightarrow> ('k \<rightharpoonup> nat)" where
  "avl_remove k t = t(k := None)"

text \<open>The loop may run for ever in a state that is not well formed: then it has no result.\<close>

partial_function (option) find_unused_conid :: "UdpGwClient \<Rightarrow> (u16 \<times> UdpGwClient) option" where
  "find_unused_conid g =
     (if find_connection_by_conid g (of_int (next_conid g)) = None then Some (of_int (next_conid g), g)
      else find_unused_conid
             (g\<lparr>next_conid := (if next_conid g = max_connections g - 1 then 0 else next_conid g + 1)\<rparr>))"

text \<open>\<open>mem\<close>: what \<open>malloc\<close> returned; \<open>flow_ok\<close>: whether \<open>PacketProtoFlow_Init\<close> succeeds.\<close>

definition connection_init :: "nat option \<Rightarrow> bool \<Rightarrow> UdpGwClient \<Rightarrow> conaddr \<Rightarrow> u8 \<Rightarrow> bytes \<Rightarrow> UdpGwClient option" where
  "connection_init mem flow_ok g a flags data =
     (case mem of
        None \<Rightarrow> Some g
      | Some p \<Rightarrow>
          (case find_unused_conid g of
             None \<Rightarrow> None
           | Some (i, g1) \<Rightarrow>
               if \<not> flow_ok then Some g1
               else let con = \<lparr>ug_conaddr = a, first_flags = flags, first_data = data, ug_conid = i, first_job = True\<rparr>
                    in Some (g1\<lparr>ug_store := (ug_store g1)(p \<mapsto> con),
                                tree_by_conaddr := avl_insert (conaddr_key a) p (tree_by_conaddr g1),
                                tree_by_conid := avl_insert i p (tree_by_conid g1),
                                connections_list := connections_list g1 @ [p],
                                num_connections := num_connections g1 + 1\<rparr>)))"

definition connection_free :: "UdpGwClient \<Rightarrow> nat \<Rightarrow> UdpGwClient" where
  "connection_free g p =
     (let con = the (ug_store g p)
      in g\<lparr>num_connections := num_connections g - 1,
           connections_list := remove1 p (connections_list g),
           tree_by_conid := avl_remove (ug_conid con) (tree_by_conid g),
           tree_by_conaddr := avl_remove (conaddr_key (ug_conaddr con)) (tree_by_conaddr g),
           ug_store := (ug_store g)(p := None)\<rparr>)"

text \<open>The message of a connection.\<close>

definition udpgw_message :: "ug_connection \<Rightarrow> u8 \<Rightarrow> bytes \<Rightarrow> bytes" where
  "udpgw_message con flags data =
     (let rm = ca_remote (ug_conaddr con);
          fl = (if addr_type rm = BADDR_TYPE_IPV6 then flags OR UDPGW_CLIENT_FLAG_IPV6 else flags);
          addr = (if addr_type rm = BADDR_TYPE_IPV4 then le32 (ipv4_ip rm) @ le16 (ipv4_port rm)
                  else if addr_type rm = BADDR_TYPE_IPV6 then ipv6_ip rm @ le16 (ipv6_port rm) else [])
      in [fl] @ le16 (ug_conid con) @ addr @ data)"

definition ug_connection_send :: "bool \<Rightarrow> UdpGwClient \<Rightarrow> nat \<Rightarrow> u8 \<Rightarrow> bytes \<Rightarrow> ug_act list" where
  "ug_connection_send ready g p flags data =
     (if \<not> ready then [] else [UgSend p (udpgw_message (the (ug_store g p)) flags data)])"

definition ug_first_job_handler :: "bool \<Rightarrow> UdpGwClient \<Rightarrow> nat \<Rightarrow> ug_act list \<times> UdpGwClient" where
  "ug_first_job_handler ready g p =
     (let con = the (ug_store g p)
      in (ug_connection_send ready g p (UDPGW_CLIENT_FLAG_REBIND OR first_flags con) (first_data con),
          g\<lparr>ug_store := (ug_store g)(p \<mapsto> con\<lparr>first_job := False\<rparr>)\<rparr>))"

definition reuse_connection :: "UdpGwClient \<Rightarrow> conaddr \<Rightarrow> nat \<times> UdpGwClient" where
  "reuse_connection g a =
     (let p = hd (connections_list g); con = the (ug_store g p)
      in (p, g\<lparr>tree_by_conaddr := avl_insert (conaddr_key a) p (avl_remove (conaddr_key (ug_conaddr con)) (tree_by_conaddr g)),
               ug_store := (ug_store g)(p \<mapsto> con\<lparr>ug_conaddr := a\<rparr>)\<rparr>))"

definition move_to_end :: "nat \<Rightarrow> UdpGwClient \<Rightarrow> UdpGwClient" where
  "move_to_end p g = g\<lparr>connections_list := remove1 p (connections_list g) @ [p]\<rparr>"

section \<open>The interface\<close>

definition UdpGwClient_Init :: "int \<Rightarrow> int \<Rightarrow> bool \<Rightarrow> UdpGwClient option" where
  "UdpGwClient_Init mtu max_con queue_ok =
     (let m = udpgw_compute_mtu mtu
      in if \<not> queue_ok then None
         else Some \<lparr>ug_udp_mtu = mtu, max_connections = (if max_con > 65535 + 1 then 65535 + 1 else max_con),
                    udpgw_mtu = m, pp_mtu = m + 2, ug_store = Map.empty, tree_by_conaddr = Map.empty,
                    tree_by_conid = Map.empty, connections_list = [], num_connections = 0, next_conid = 0,
                    keepalive_sending = False, have_server = False\<rparr>)"

definition UdpGwClient_SubmitPacket ::
    "nat option \<Rightarrow> bool \<Rightarrow> bool \<Rightarrow> UdpGwClient \<Rightarrow> BAddr \<Rightarrow> BAddr \<Rightarrow> bool \<Rightarrow> bytes \<Rightarrow> (ug_act list \<times> UdpGwClient) option" where
  "UdpGwClient_SubmitPacket mem flow_ok ready g l rm is_dns data =
     (let a = \<lparr>ca_local = l, ca_remote = rm\<rparr>;
          con = find_connection_by_conaddr g a;
          flags = (if is_dns then 0 OR UDPGW_CLIENT_FLAG_DNS else 0);
          (con1, g1, flags1) =
            (if con = None \<and> num_connections g = max_connections g
             then case reuse_connection g a of (p, g') \<Rightarrow> (Some p, g', flags OR UDPGW_CLIENT_FLAG_REBIND)
             else (con, g, flags))
      in case con1 of
           None \<Rightarrow> map_option (\<lambda>g2. ([], g2)) (connection_init mem flow_ok g1 a flags1 data)
         | Some p \<Rightarrow> Some (ug_connection_send ready (move_to_end p g1) p flags1 data, move_to_end p g1))"

definition ug_recv_handler_send :: "UdpGwClient \<Rightarrow> bytes \<Rightarrow> ug_act list \<times> UdpGwClient" where
  "ug_recv_handler_send g data =
     (if length data < 3 then ([], g)
      else let flags = data ! 0; i = of_le16 (mem_read data 1 2); d1 = drop 3 data;
               v6 = flags AND UDPGW_CLIENT_FLAG_IPV6 \<noteq> 0;
               n = (if v6 then 18 else 6)
           in if length d1 < n then ([], g)
              else let rm = (if v6 then BAddr_MakeIPv6 (mem_read d1 0 16) (of_le16 (mem_read d1 16 2))
                             else BAddr_MakeIPv4 (of_le32 (mem_read d1 0 4)) (of_le16 (mem_read d1 4 2)));
                       d2 = drop n d1
                   in if int (length d2) > ug_udp_mtu g then ([], g)
                      else case find_connection_by_conid g i of
                             None \<Rightarrow> ([], g)
                           | Some p \<Rightarrow>
                               (let con = the (ug_store g p)
                                in if BAddr_CompareOrder (ca_remote (ug_conaddr con)) rm \<noteq> 0 then ([], g)
                                   else ([UgReceived (ca_local (ug_conaddr con)) (ca_remote (ug_conaddr con)) d2], move_to_end p g)))"

definition ug_send_monitor_handler :: "UdpGwClient \<Rightarrow> ug_act list \<times> UdpGwClient" where
  "ug_send_monitor_handler g =
     (if keepalive_sending g then ([], g)
      else ([UgKeepalive (le16 3 @ [UDPGW_CLIENT_FLAG_KEEPALIVE, 0, 0])], g\<lparr>keepalive_sending := True\<rparr>))"

definition keepalive_if_handler_done :: "UdpGwClient \<Rightarrow> UdpGwClient" where
  "keepalive_if_handler_done g = g\<lparr>keepalive_sending := False\<rparr>"

definition decoder_handler_error :: "UdpGwClient \<Rightarrow> ug_act list \<times> UdpGwClient" where
  "decoder_handler_error g = ([UgServerError], g)"

definition UdpGwClient_ConnectServer :: "bool \<Rightarrow> UdpGwClient \<Rightarrow> bool \<times> UdpGwClient" where
  "UdpGwClient_ConnectServer decoder_ok g = (if \<not> decoder_ok then (False, g) else (True, g\<lparr>have_server := True\<rparr>))"

definition UdpGwClient_DisconnectServer :: "UdpGwClient \<Rightarrow> UdpGwClient" where
  "UdpGwClient_DisconnectServer g = g\<lparr>have_server := False\<rparr>"

text \<open>The loop of \<open>UdpGwClient_Free\<close>.\<close>

function ug_free_connections :: "UdpGwClient \<Rightarrow> UdpGwClient" where
  "ug_free_connections g =
     (if connections_list g = [] then g else ug_free_connections (connection_free g (hd (connections_list g))))"
  by pat_completeness auto
termination
  by (relation "measure (\<lambda>g. length (connections_list g))")
    (auto simp: connection_free_def Let_def length_remove1)

declare ug_free_connections.simps [simp del]

section \<open>The order of the trees\<close>

lemma B_COMPARE_simps [simp]: "B_COMPARE a b = 0 \<longleftrightarrow> a = b" "0 < B_COMPARE a b \<longleftrightarrow> b < a" "B_COMPARE a b < 0 \<longleftrightarrow> a < b"
  by (auto simp: B_COMPARE_def)

lemma memcmp_sign_eq: "length xs = length ys \<Longrightarrow> memcmp_sign xs ys = 0 \<longleftrightarrow> xs = ys"
  by (induction xs ys rule: memcmp_sign.induct) auto

lemma hton32_inj [simp]: "hton32 a = hton32 b \<longleftrightarrow> a = b"
  by (metis hton32_hton32)

lemma hton16_inj [simp]: "hton16 a = hton16 b \<longleftrightarrow> a = b"
  by (metis hton16_hton16)

lemma BAddr_CompareOrder_eq:
  "addr_ok a \<Longrightarrow> addr_ok b \<Longrightarrow> BAddr_CompareOrder a b = 0 \<longleftrightarrow> baddr_abs a = baddr_abs b"
  by (auto simp: BAddr_CompareOrder_def Let_def addr_ok_def baddr_abs_def memcmp_sign_eq BADDR_TYPE_IPV4_def BADDR_TYPE_IPV6_def)

lemma conaddr_comparator_eq:
  "addr_ok (ca_local a) \<Longrightarrow> addr_ok (ca_remote a) \<Longrightarrow> addr_ok (ca_local b) \<Longrightarrow> addr_ok (ca_remote b) \<Longrightarrow>
    conaddr_comparator a b = 0 \<longleftrightarrow> conaddr_key a = conaddr_key b"
  by (simp add: conaddr_comparator_def Let_def conaddr_key_def BAddr_CompareOrder_eq)

section \<open>The connection table\<close>

text \<open>The list, the two trees and the store hold the same connections, each under its own keys.\<close>

definition con_indexed :: "UdpGwClient \<Rightarrow> nat \<Rightarrow> ug_connection \<Rightarrow> bool" where
  "con_indexed g p con \<longleftrightarrow> tree_by_conid g (ug_conid con) = Some p \<and> tree_by_conaddr g (conaddr_key (ug_conaddr con)) = Some p \<and>
     int (unat (ug_conid con)) < max_connections g \<and> addr_ok (ca_local (ug_conaddr con)) \<and> addr_ok (ca_remote (ug_conaddr con))"

definition ug_inv :: "UdpGwClient \<Rightarrow> bool" where
  "ug_inv g \<longleftrightarrow> distinct (connections_list g) \<and> int (length (connections_list g)) = num_connections g \<and>
     num_connections g \<le> max_connections g \<and> 0 < max_connections g \<and> max_connections g \<le> 65536 \<and>
     0 \<le> next_conid g \<and> next_conid g < max_connections g \<and>
     dom (ug_store g) = set (connections_list g) \<and>
     (\<forall>p con. ug_store g p = Some con \<longrightarrow> con_indexed g p con) \<and>
     (\<forall>i p. tree_by_conid g i = Some p \<longrightarrow> (\<exists>con. ug_store g p = Some con \<and> ug_conid con = i)) \<and>
     (\<forall>k p. tree_by_conaddr g k = Some p \<longrightarrow> (\<exists>con. ug_store g p = Some con \<and> conaddr_key (ug_conaddr con) = k))"

lemma ug_invD:
  assumes "ug_inv g"
  shows "distinct (connections_list g)" "int (length (connections_list g)) = num_connections g"
    "num_connections g \<le> max_connections g" "0 < max_connections g" "max_connections g \<le> 65536"
    "0 \<le> next_conid g" "next_conid g < max_connections g" "dom (ug_store g) = set (connections_list g)"
    "ug_store g p = Some con \<Longrightarrow> con_indexed g p con"
    "tree_by_conid g i = Some p \<Longrightarrow> \<exists>con. ug_store g p = Some con \<and> ug_conid con = i"
    "tree_by_conaddr g k = Some p \<Longrightarrow> \<exists>con. ug_store g p = Some con \<and> conaddr_key (ug_conaddr con) = k"
  using assms unfolding ug_inv_def by blast+

lemma ug_inv_indexed:
  assumes "ug_inv g" "ug_store g q = Some c"
  shows "tree_by_conid g (ug_conid c) = Some q" "tree_by_conaddr g (conaddr_key (ug_conaddr c)) = Some q"
    "int (unat (ug_conid c)) < max_connections g" "addr_ok (ca_local (ug_conaddr c))" "addr_ok (ca_remote (ug_conaddr c))"
  using ug_invD(9) [OF assms] by (auto simp: con_indexed_def)

lemma ug_inv_store: "ug_inv g \<Longrightarrow> p \<in> set (connections_list g) \<Longrightarrow> \<exists>con. ug_store g p = Some con"
  using ug_invD(8) [of g] by blast

lemma unat_conid: "0 \<le> n \<Longrightarrow> n < 65536 \<Longrightarrow> unat (of_int n :: u16) = nat n"
  by (simp add: unsigned_of_int take_bit_int_eq_self nat_less_iff)

text \<open>Sizes: the message of any packet fits the packets of the protocol.\<close>

definition ug_sized :: "int \<Rightarrow> UdpGwClient \<Rightarrow> bool" where
  "ug_sized mtu g \<longleftrightarrow> ug_udp_mtu g = mtu \<and> udpgw_mtu g = udpgw_compute_mtu mtu \<and>
     (\<forall>p con. ug_store g p = Some con \<longrightarrow> int (length (first_data con)) \<le> mtu)"

lemma ug_sizedD: "ug_sized mtu g \<Longrightarrow> ug_store g p = Some con \<Longrightarrow> int (length (first_data con)) \<le> mtu"
  "ug_sized mtu g \<Longrightarrow> ug_udp_mtu g = mtu" "ug_sized mtu g \<Longrightarrow> udpgw_mtu g = udpgw_compute_mtu mtu"
  by (auto simp: ug_sized_def)

text \<open>Fewer connections than numbers: some number is free.\<close>

lemma free_conid:
  assumes "ug_inv g" "num_connections g < max_connections g"
  shows "\<exists>j. 0 \<le> j \<and> j < max_connections g \<and> tree_by_conid g (of_int j) = None"
proof (rule ccontr)
  assume "\<not> ?thesis"
  then have used: "\<exists>p. tree_by_conid g (of_int j) = Some p" if "0 \<le> j" "j < max_connections g" for j
    using that by (metis not_None_eq)
  define f where "f j = the (tree_by_conid g (of_int (int j)))" for j
  let ?A = "{..<nat (max_connections g)}"
  have f: "tree_by_conid g (of_int (int j)) = Some (f j)" if "j \<in> ?A" for j using used [of "int j"] that by (auto simp: f_def)
  have in_list: "f j \<in> set (connections_list g)" if "j \<in> ?A" for j
    using ug_invD(10) [OF assms(1) f [OF that]] ug_invD(8) [OF assms(1)] by auto
  have "inj_on f ?A"
  proof (rule inj_onI)
    fix a b assume ab: "a \<in> ?A" "b \<in> ?A" "f a = f b"
    obtain c d where "ug_store g (f a) = Some c" "ug_conid c = of_int (int a)" "ug_store g (f b) = Some d" "ug_conid d = of_int (int b)"
      using ug_invD(10) [OF assms(1)] f ab(1,2) by blast
    then have "(of_int (int a) :: u16) = of_int (int b)" using ab(3) by simp
    then have "unat (of_int (int a) :: u16) = unat (of_int (int b) :: u16)" by simp
    moreover have "int a < 65536" "int b < 65536" using ab(1,2) ug_invD(5) [OF assms(1)] by auto
    ultimately show "a = b" using unat_conid [of "int a"] unat_conid [of "int b"] by simp
  qed
  then have "card ?A \<le> card (set (connections_list g))" using in_list by (intro card_inj_on_le [of f]) auto
  then show False using assms(2) ug_invD(1,2,4) [OF assms(1)] by (simp add: distinct_card)
qed

lemma find_unused_loop:
  assumes "0 \<le> j" "j < max_connections g" "tree_by_conid g (of_int j) = None"
    "0 \<le> next_conid g" "next_conid g < max_connections g"
    "int d = (if next_conid g \<le> j then j - next_conid g else j - next_conid g + max_connections g)"
  shows "\<exists>n. 0 \<le> n \<and> n < max_connections g \<and> tree_by_conid g (of_int n) = None \<and>
    find_unused_conid g = Some (of_int n, g\<lparr>next_conid := n\<rparr>)"
  using assms
proof (induction d arbitrary: g)
  case 0
  then have "j = next_conid g" by (simp split: if_splits)
  then show ?case using 0 by (intro exI [of _ j]) (simp add: find_unused_conid.simps find_connection_by_conid_def)
next
  case (Suc d)
  show ?case
  proof (cases "tree_by_conid g (of_int (next_conid g)) = None")
    case True
    then show ?thesis using Suc.prems
      by (intro exI [of _ "next_conid g"]) (simp add: find_unused_conid.simps find_connection_by_conid_def)
  next
    case False
    define m where "m = (if next_conid g = max_connections g - 1 then 0 else next_conid g + 1)"
    have step: "find_unused_conid g = find_unused_conid (g\<lparr>next_conid := m\<rparr>)"
      unfolding find_unused_conid.simps [of g] find_connection_by_conid_def m_def by (rule if_not_P [OF False])
    have "\<exists>n. 0 \<le> n \<and> n < max_connections (g\<lparr>next_conid := m\<rparr>) \<and> tree_by_conid (g\<lparr>next_conid := m\<rparr>) (of_int n) = None \<and>
        find_unused_conid (g\<lparr>next_conid := m\<rparr>) = Some (of_int n, (g\<lparr>next_conid := m\<rparr>)\<lparr>next_conid := n\<rparr>)"
      by (rule Suc.IH) (use Suc.prems False in \<open>auto simp: m_def split: if_splits\<close>)
    then show ?thesis unfolding step by simp
  qed
qed

lemma find_unused_conid_returns:
  assumes "ug_inv g" "num_connections g < max_connections g"
  shows "\<exists>i. find_unused_conid g = Some (i, g\<lparr>next_conid := int (unat i)\<rparr>) \<and> tree_by_conid g i = None \<and>
    int (unat i) < max_connections g"
proof -
  note D = ug_invD [OF assms(1)]
  obtain j where j: "0 \<le> j" "j < max_connections g" "tree_by_conid g (of_int j) = None" using free_conid [OF assms] by blast
  have d: "int (nat (if next_conid g \<le> j then j - next_conid g else j - next_conid g + max_connections g)) =
      (if next_conid g \<le> j then j - next_conid g else j - next_conid g + max_connections g)"
    using j(1) D(7) by auto
  obtain n where n: "0 \<le> n" "n < max_connections g" "tree_by_conid g (of_int n) = None"
    "find_unused_conid g = Some (of_int n, g\<lparr>next_conid := n\<rparr>)"
    using find_unused_loop [OF j D(6,7) d] by blast
  then show ?thesis using unat_conid [of n] D(5) by (intro exI [of _ "of_int n"]) simp
qed

text \<open>Every operation keeps the table well formed.\<close>

lemma ug_inv_next_conid:
  assumes "ug_inv g" "0 \<le> n" "n < max_connections g"
  shows "ug_inv (g\<lparr>next_conid := n\<rparr>)"
  using assms by (simp add: ug_inv_def con_indexed_def)

lemma ug_inv_insert:
  assumes inv: "ug_inv g" and room: "num_connections g < max_connections g" and p: "p \<notin> dom (ug_store g)"
    and i: "tree_by_conid g (ug_conid con) = None" "int (unat (ug_conid con)) < max_connections g"
    and k: "tree_by_conaddr g (conaddr_key (ug_conaddr con)) = None"
    and ok: "addr_ok (ca_local (ug_conaddr con))" "addr_ok (ca_remote (ug_conaddr con))"
  shows "ug_inv (g\<lparr>ug_store := (ug_store g)(p \<mapsto> con),
      tree_by_conaddr := avl_insert (conaddr_key (ug_conaddr con)) p (tree_by_conaddr g),
      tree_by_conid := avl_insert (ug_conid con) p (tree_by_conid g),
      connections_list := connections_list g @ [p], num_connections := num_connections g + 1\<rparr>)"
proof -
  note D = ug_invD [OF inv]
  have new: "p \<notin> set (connections_list g)" "ug_store g p = None" using p D(8) by auto
  note idx = ug_inv_indexed [OF inv]
  show ?thesis unfolding ug_inv_def
    using D(1-8) new room i k ok idx D(10,11) by (auto simp: con_indexed_def avl_insert_def) (metis option.distinct(1))+
qed

lemma ug_inv_free:
  assumes inv: "ug_inv g" and p: "ug_store g p = Some con"
  shows "ug_inv (connection_free g p)"
proof -
  note D = ug_invD [OF inv]
  have pl: "p \<in> set (connections_list g)" using p D(8) by auto
  then have len: "int (length (remove1 p (connections_list g))) = num_connections g - 1"
    using D(2) by (simp add: length_remove1) (metis Suc_pred length_pos_if_in_set of_nat_Suc add_diff_cancel_left')
  note idx = ug_inv_indexed [OF inv]
  have other: "ug_conid c \<noteq> ug_conid con" "conaddr_key (ug_conaddr c) \<noteq> conaddr_key (ug_conaddr con)"
    if "ug_store g q = Some c" "q \<noteq> p" for q c using idx(1,2) [OF that(1)] idx(1,2) [OF p] that(2) by auto
  show ?thesis unfolding ug_inv_def connection_free_def
    using D(1-8) pl len other idx D(10,11) p by (auto simp: con_indexed_def avl_remove_def Let_def split: if_splits) (metis option.inject)+
qed

lemma ug_inv_move_to_end:
  assumes "ug_inv g" "ug_store g p = Some con"
  shows "ug_inv (move_to_end p g)"
proof -
  have p: "p \<in> set (connections_list g)" using assms(2) ug_invD(8) [OF assms(1)] by auto
  then have len: "int (length (remove1 p (connections_list g) @ [p])) = int (length (connections_list g))"
    by (simp add: length_remove1) (metis Suc_pred length_pos_if_in_set of_nat_Suc)
  show ?thesis using assms(1) p len unfolding ug_inv_def move_to_end_def
    by (auto simp: con_indexed_def)
qed

lemma ug_inv_reuse:
  assumes inv: "ug_inv g" and full: "num_connections g = max_connections g" and k: "tree_by_conaddr g (conaddr_key a) = None"
    and ok: "addr_ok (ca_local a)" "addr_ok (ca_remote a)"
  obtains p con where "connections_list g = p # tl (connections_list g)" "ug_store g p = Some con"
    "reuse_connection g a = (p, snd (reuse_connection g a))" "ug_inv (snd (reuse_connection g a))"
    "ug_store (snd (reuse_connection g a)) = (ug_store g)(p \<mapsto> con\<lparr>ug_conaddr := a\<rparr>)"
    "connections_list (snd (reuse_connection g a)) = connections_list g"
    "max_connections (snd (reuse_connection g a)) = max_connections g"
    "\<And>mtu. ug_sized mtu g \<Longrightarrow> ug_sized mtu (snd (reuse_connection g a))"
proof -
  note D = ug_invD [OF inv]
  note idx = ug_inv_indexed [OF inv]
  have ne: "connections_list g \<noteq> []" using D(2,4) full by auto
  then obtain p where p: "connections_list g = p # tl (connections_list g)" by (metis list.collapse)
  then have "p \<in> set (connections_list g)" by (metis list.set_intros(1))
  then obtain con where con: "ug_store g p = Some con" using D(8) by auto
  have hd: "hd (connections_list g) = p" by (metis p list.sel(1))
  have other: "ug_conid c \<noteq> ug_conid con" "conaddr_key (ug_conaddr c) \<noteq> conaddr_key (ug_conaddr con)"
    "conaddr_key (ug_conaddr c) \<noteq> conaddr_key a"
    if "ug_store g q = Some c" "q \<noteq> p" for q c using idx(1,2) [OF that(1)] idx(1,2) [OF con] that(2) k by auto
  have key: "conaddr_key a \<noteq> conaddr_key (ug_conaddr con)" using k idx(2) [OF con] by auto
  have ev: "reuse_connection g a = (p, g\<lparr>tree_by_conaddr := (tree_by_conaddr g)
      (conaddr_key (ug_conaddr con) := None, conaddr_key a \<mapsto> p), ug_store := (ug_store g)(p \<mapsto> con\<lparr>ug_conaddr := a\<rparr>)\<rparr>)"
    using k hd con by (simp add: reuse_connection_def Let_def avl_insert_def avl_remove_def)
  have "ug_inv (snd (reuse_connection g a))" unfolding ug_inv_def ev
    using D(1-8) other key ok idx D(10,11) con
    by (auto simp: con_indexed_def) (metis option.inject)+
  moreover have "ug_sized mtu (snd (reuse_connection g a))" if "ug_sized mtu g" for mtu
    using that con by (auto simp: ev ug_sized_def)
  ultimately show thesis using that [OF p con] ev by simp
qed

lemma connection_init_returns:
  assumes inv: "ug_inv g" and room: "num_connections g < max_connections g" and k: "tree_by_conaddr g (conaddr_key a) = None"
    and fresh: "\<And>p. mem = Some p \<Longrightarrow> p \<notin> dom (ug_store g)" and ok: "addr_ok (ca_local a)" "addr_ok (ca_remote a)"
  shows "\<exists>g'. connection_init mem flow_ok g a flags data = Some g' \<and> ug_inv g' \<and> max_connections g' = max_connections g \<and>
    (\<forall>mtu. ug_sized mtu g \<longrightarrow> int (length data) \<le> mtu \<longrightarrow> ug_sized mtu g') \<and>
    (if mem \<noteq> None \<and> flow_ok
     then \<exists>i. connections_list g' = connections_list g @ [the mem] \<and> ug_store g' = (ug_store g)(the mem \<mapsto>
            \<lparr>ug_conaddr = a, first_flags = flags, first_data = data, ug_conid = i, first_job = True\<rparr>)
     else connections_list g' = connections_list g \<and> ug_store g' = ug_store g)"
proof (cases mem)
  case None
  then show ?thesis using inv by (simp add: connection_init_def)
next
  case (Some p)
  obtain i where i: "find_unused_conid g = Some (i, g\<lparr>next_conid := int (unat i)\<rparr>)" "tree_by_conid g i = None"
    "int (unat i) < max_connections g"
    using find_unused_conid_returns [OF inv room] by blast
  let ?g1 = "g\<lparr>next_conid := int (unat i)\<rparr>"
  have inv1: "ug_inv ?g1" using ug_inv_next_conid [OF inv _ i(3)] by simp
  let ?con = "\<lparr>ug_conaddr = a, first_flags = flags, first_data = data, ug_conid = i, first_job = True\<rparr>"
  have p: "p \<notin> dom (ug_store ?g1)" using fresh [OF Some] by simp
  have "ug_inv (?g1\<lparr>ug_store := (ug_store ?g1)(p \<mapsto> ?con),
      tree_by_conaddr := avl_insert (conaddr_key (ug_conaddr ?con)) p (tree_by_conaddr ?g1),
      tree_by_conid := avl_insert (ug_conid ?con) p (tree_by_conid ?g1),
      connections_list := connections_list ?g1 @ [p], num_connections := num_connections ?g1 + 1\<rparr>)"
    by (rule ug_inv_insert [OF inv1 _ p]) (use room k i ok in simp_all)
  then show ?thesis using Some i(1) inv1 by (auto simp: connection_init_def Let_def ug_sized_def)
qed

section \<open>Runs\<close>

text \<open>What happens to a client: packets from the device, the job of a new connection, messages from the
  server, the keepalive timer and its transmission, the server connection coming and going. The caller's
  preconditions are those asserted by the code; \<open>malloc\<close> returns memory that is not in use.\<close>

datatype ug_event =
    USubmit "nat option" bool bool BAddr BAddr bool bytes
  | UFirst bool nat
  | UReceive bytes
  | UMonitor
  | UKeepDone
  | UConnect bool
  | UDisconnect
  | UDecoderError

fun ug_event_ok :: "UdpGwClient \<Rightarrow> ug_event \<Rightarrow> bool" where
  "ug_event_ok g (USubmit mem flow_ok ready l rm dns data) \<longleftrightarrow>
     (case mem of None \<Rightarrow> True | Some p \<Rightarrow> ug_store g p = None) \<and> addr_ok l \<and> addr_ok rm \<and> int (length data) \<le> ug_udp_mtu g"
| "ug_event_ok g (UFirst ready p) \<longleftrightarrow> (case ug_store g p of None \<Rightarrow> False | Some con \<Rightarrow> first_job con)"
| "ug_event_ok g (UReceive data) \<longleftrightarrow> have_server g \<and> int (length data) \<le> udpgw_mtu g"
| "ug_event_ok g UKeepDone \<longleftrightarrow> keepalive_sending g"
| "ug_event_ok g (UConnect ok) \<longleftrightarrow> \<not> have_server g"
| "ug_event_ok g UDisconnect \<longleftrightarrow> have_server g"
| "ug_event_ok g UDecoderError \<longleftrightarrow> have_server g"
| "ug_event_ok g UMonitor \<longleftrightarrow> True"

fun ug_step :: "UdpGwClient \<Rightarrow> ug_event \<Rightarrow> (ug_act list \<times> UdpGwClient) option" where
  "ug_step g (USubmit mem flow_ok ready l rm dns data) = UdpGwClient_SubmitPacket mem flow_ok ready g l rm dns data"
| "ug_step g (UFirst ready p) = Some (ug_first_job_handler ready g p)"
| "ug_step g (UReceive data) = Some (ug_recv_handler_send g data)"
| "ug_step g UMonitor = Some (ug_send_monitor_handler g)"
| "ug_step g UKeepDone = Some ([], keepalive_if_handler_done g)"
| "ug_step g (UConnect ok) = Some ([], snd (UdpGwClient_ConnectServer ok g))"
| "ug_step g UDisconnect = Some ([], UdpGwClient_DisconnectServer g)"
| "ug_step g UDecoderError = Some (decoder_handler_error g)"

inductive ug_reach :: "int \<Rightarrow> int \<Rightarrow> UdpGwClient \<Rightarrow> bool" for mtu max_con where
  ug_reach_init: "UdpGwClient_Init mtu max_con True = Some g \<Longrightarrow> ug_reach mtu max_con g"
| ug_reach_step: "ug_reach mtu max_con g \<Longrightarrow> ug_event_ok g e \<Longrightarrow> ug_step g e = Some (acts, g') \<Longrightarrow> ug_reach mtu max_con g'"

lemma ug_inv_flag [simp]:
  "ug_inv (g\<lparr>keepalive_sending := b\<rparr>) = ug_inv g" "ug_inv (g\<lparr>have_server := b\<rparr>) = ug_inv g"
  "ug_sized mtu (g\<lparr>keepalive_sending := b\<rparr>) = ug_sized mtu g" "ug_sized mtu (g\<lparr>have_server := b\<rparr>) = ug_sized mtu g"
  "ug_sized mtu (move_to_end p g) = ug_sized mtu g"
  by (simp_all add: ug_inv_def con_indexed_def ug_sized_def move_to_end_def)

lemma ug_inv_first_job:
  assumes "ug_inv g" "ug_store g p = Some con"
  shows "ug_inv (g\<lparr>ug_store := (ug_store g)(p \<mapsto> con\<lparr>first_job := b\<rparr>)\<rparr>)"
  using ug_invD [OF assms(1)] assms(2) ug_inv_indexed [OF assms] unfolding ug_inv_def con_indexed_def
  by auto (metis option.inject)+

section \<open>The table as a list of least recently used pairs\<close>

definition ug_keys :: "UdpGwClient \<Rightarrow> conkey list" where
  "ug_keys g = map (\<lambda>p. conaddr_key (ug_conaddr (the (ug_store g p)))) (connections_list g)"

text \<open>The specification: a bounded list of keys in the order of their last use. \<open>ok\<close>: a new entry can be made.\<close>

definition lru_touch :: "int \<Rightarrow> bool \<Rightarrow> 'k \<Rightarrow> 'k list \<Rightarrow> 'k list" where
  "lru_touch n ok k ks =
     (if k \<in> set ks then remove1 k ks @ [k]
      else if int (length ks) = n then tl ks @ [k]
      else if ok then ks @ [k] else ks)"

lemma length_ug_keys [simp]: "length (ug_keys g) = length (connections_list g)"
  by (simp add: ug_keys_def)

lemma ug_keys_tree:
  assumes "ug_inv g"
  shows "k \<in> set (ug_keys g) \<longleftrightarrow> tree_by_conaddr g k \<noteq> None"
proof
  assume "k \<in> set (ug_keys g)"
  then obtain p con where "ug_store g p = Some con" "k = conaddr_key (ug_conaddr con)"
    using ug_inv_store [OF assms] by (fastforce simp: ug_keys_def)
  then show "tree_by_conaddr g k \<noteq> None" using ug_inv_indexed(2) [OF assms] by simp
next
  assume "tree_by_conaddr g k \<noteq> None"
  then obtain p con where "ug_store g p = Some con" "conaddr_key (ug_conaddr con) = k" using ug_invD(11) [OF assms] by blast
  then show "k \<in> set (ug_keys g)" using ug_invD(8) [OF assms] by (force simp: ug_keys_def)
qed

lemma ug_keys_inj:
  assumes "ug_inv g"
  shows "inj_on (\<lambda>p. conaddr_key (ug_conaddr (the (ug_store g p)))) (set (connections_list g))"
proof (rule inj_onI)
  fix p q
  assume pq: "p \<in> set (connections_list g)" "q \<in> set (connections_list g)"
    "conaddr_key (ug_conaddr (the (ug_store g p))) = conaddr_key (ug_conaddr (the (ug_store g q)))"
  obtain c d where "ug_store g p = Some c" "ug_store g q = Some d" using pq(1,2) ug_inv_store [OF assms] by blast
  then show "p = q" using ug_inv_indexed(2) [OF assms, of p c] ug_inv_indexed(2) [OF assms, of q d] pq(3) by simp
qed

lemma map_remove1_inj:
  "inj_on f (set xs) \<Longrightarrow> x \<in> set xs \<Longrightarrow> map f (remove1 x xs) = remove1 (f x) (map f xs)"
  by (induction xs) (auto simp: inj_on_def)

lemma ug_keys_move_to_end:
  assumes "ug_inv g" "ug_store g p = Some con"
  shows "ug_keys (move_to_end p g) = remove1 (conaddr_key (ug_conaddr con)) (ug_keys g) @ [conaddr_key (ug_conaddr con)]"
proof -
  have "p \<in> set (connections_list g)" using assms(2) ug_invD(8) [OF assms(1)] by auto
  from map_remove1_inj [OF ug_keys_inj [OF assms(1)] this] show ?thesis
    using assms(2) by (simp add: ug_keys_def move_to_end_def)
qed

text \<open>What a submitted packet does: the table is touched, and the packet goes to the connection of its
  addresses, at once or as the first packet of a new connection.\<close>

definition submit_post :: "int \<Rightarrow> nat option \<Rightarrow> bool \<Rightarrow> bool \<Rightarrow> UdpGwClient \<Rightarrow> conaddr \<Rightarrow> u8 \<Rightarrow> bytes \<Rightarrow> ug_act list \<Rightarrow> UdpGwClient \<Rightarrow> bool" where
  "submit_post mtu mem flow_ok ready g a fg data acts g' \<longleftrightarrow> ug_inv g' \<and> ug_sized mtu g' \<and>
    ug_keys g' = lru_touch (max_connections g) (mem \<noteq> None \<and> flow_ok) (conaddr_key a) (ug_keys g) \<and>
    (if conaddr_key a \<in> set (ug_keys g) \<or> int (length (ug_keys g)) = max_connections g
     then \<exists>p con. ug_store g' p = Some con \<and> conaddr_key (ug_conaddr con) = conaddr_key a \<and>
            acts = ug_connection_send ready g' p
              (if conaddr_key a \<in> set (ug_keys g) then fg else fg OR UDPGW_CLIENT_FLAG_REBIND) data
     else acts = [] \<and> (mem \<noteq> None \<and> flow_ok \<longrightarrow> (\<exists>p con. ug_store g' p = Some con \<and>
            conaddr_key (ug_conaddr con) = conaddr_key a \<and> first_data con = data \<and> first_flags con = fg \<and> first_job con)))"

abbreviation dns_flag :: "bool \<Rightarrow> u8" where
  "dns_flag dns \<equiv> if dns then UDPGW_CLIENT_FLAG_DNS else 0"

lemma submit_existing:
  assumes inv: "ug_inv g" and size: "ug_sized mtu g" and p: "tree_by_conaddr g (conaddr_key \<lparr>ca_local = l, ca_remote = rm\<rparr>) = Some p"
  shows "\<exists>acts g'. UdpGwClient_SubmitPacket mem flow_ok ready g l rm dns data = Some (acts, g') \<and>
    submit_post mtu mem flow_ok ready g \<lparr>ca_local = l, ca_remote = rm\<rparr> (dns_flag dns) data acts g'"
proof -
  let ?a = "\<lparr>ca_local = l, ca_remote = rm\<rparr>"
  obtain con where con: "ug_store g p = Some con" "conaddr_key (ug_conaddr con) = conaddr_key ?a"
    using ug_invD(11) [OF inv p] by blast
  have k: "conaddr_key ?a \<in> set (ug_keys g)" using ug_keys_tree [OF inv] p by simp
  have ev: "UdpGwClient_SubmitPacket mem flow_ok ready g l rm dns data =
      Some (ug_connection_send ready (move_to_end p g) p (dns_flag dns) data, move_to_end p g)"
    using p by (simp add: UdpGwClient_SubmitPacket_def Let_def find_connection_by_conaddr_def)
  have st: "ug_store (move_to_end p g) = ug_store g" by (simp add: move_to_end_def)
  show ?thesis unfolding ev submit_post_def
    using ug_inv_move_to_end [OF inv con(1)] size ug_keys_move_to_end [OF inv con(1)] con k st
    by (auto simp: lru_touch_def)
qed

lemma submit_reuse:
  assumes inv: "ug_inv g" and size: "ug_sized mtu g" and none: "tree_by_conaddr g (conaddr_key \<lparr>ca_local = l, ca_remote = rm\<rparr>) = None"
    and full: "num_connections g = max_connections g" and ok: "addr_ok l" "addr_ok rm"
  shows "\<exists>acts g'. UdpGwClient_SubmitPacket mem flow_ok ready g l rm dns data = Some (acts, g') \<and>
    submit_post mtu mem flow_ok ready g \<lparr>ca_local = l, ca_remote = rm\<rparr> (dns_flag dns) data acts g'"
proof -
  let ?a = "\<lparr>ca_local = l, ca_remote = rm\<rparr>"
  have ok': "addr_ok (ca_local ?a)" "addr_ok (ca_remote ?a)" using ok by simp_all
  obtain p con where r: "connections_list g = p # tl (connections_list g)" "ug_store g p = Some con"
    "reuse_connection g ?a = (p, snd (reuse_connection g ?a))" "ug_inv (snd (reuse_connection g ?a))"
    "ug_store (snd (reuse_connection g ?a)) = (ug_store g)(p \<mapsto> con\<lparr>ug_conaddr := ?a\<rparr>)"
    "connections_list (snd (reuse_connection g ?a)) = connections_list g" "ug_sized mtu (snd (reuse_connection g ?a))"
    using ug_inv_reuse [OF inv full none ok'] size by (metis (no_types))
  define g1 where "g1 = snd (reuse_connection g ?a)"
  note r = r [folded g1_def]
  have st: "ug_store g1 p = Some (con\<lparr>ug_conaddr := ?a\<rparr>)" "ug_store (move_to_end p g1) = ug_store g1"
    using r(5) by (simp_all add: move_to_end_def)
  obtain ps where ps: "connections_list g = p # ps" using r(1) by blast
  then have "p \<notin> set ps" using ug_invD(1) [OF inv] by simp
  then have keys: "ug_keys (move_to_end p g1) = tl (ug_keys g) @ [conaddr_key ?a]"
    using r(5,6) ps by (auto simp: ug_keys_def move_to_end_def)
  have k: "conaddr_key ?a \<notin> set (ug_keys g)" using ug_keys_tree [OF inv] none by simp
  have ev: "UdpGwClient_SubmitPacket mem flow_ok ready g l rm dns data =
      Some (ug_connection_send ready (move_to_end p g1) p (dns_flag dns OR UDPGW_CLIENT_FLAG_REBIND) data, move_to_end p g1)"
    using none full r(3) by (simp add: UdpGwClient_SubmitPacket_def Let_def find_connection_by_conaddr_def)
  have "ug_inv (move_to_end p g1)" "ug_sized mtu (move_to_end p g1)"
    using ug_inv_move_to_end [OF r(4) st(1)] r(7) by simp_all
  then show ?thesis unfolding ev submit_post_def
    using k full ug_invD(2) [OF inv] keys st by (auto simp: lru_touch_def intro!: exI [of _ p])
qed

lemma submit_new:
  assumes inv: "ug_inv g" and size: "ug_sized mtu g" and none: "tree_by_conaddr g (conaddr_key \<lparr>ca_local = l, ca_remote = rm\<rparr>) = None"
    and room: "num_connections g < max_connections g" and ok: "ug_event_ok g (USubmit mem flow_ok ready l rm dns data)"
  shows "\<exists>acts g'. UdpGwClient_SubmitPacket mem flow_ok ready g l rm dns data = Some (acts, g') \<and>
    submit_post mtu mem flow_ok ready g \<lparr>ca_local = l, ca_remote = rm\<rparr> (dns_flag dns) data acts g'"
proof -
  let ?a = "\<lparr>ca_local = l, ca_remote = rm\<rparr>"
  have okE: "\<And>p. mem = Some p \<Longrightarrow> p \<notin> dom (ug_store g)" "addr_ok (ca_local ?a)" "addr_ok (ca_remote ?a)" "int (length data) \<le> mtu"
    using ok ug_sizedD(2) [OF size] by auto
  obtain g' where g': "connection_init mem flow_ok g ?a (dns_flag dns) data = Some g'" "ug_inv g'" "ug_sized mtu g'"
    "if mem \<noteq> None \<and> flow_ok
      then \<exists>i. connections_list g' = connections_list g @ [the mem] \<and> ug_store g' = (ug_store g)(the mem \<mapsto>
        \<lparr>ug_conaddr = ?a, first_flags = dns_flag dns, first_data = data, ug_conid = i, first_job = True\<rparr>)
      else connections_list g' = connections_list g \<and> ug_store g' = ug_store g"
    using connection_init_returns [OF inv room none okE(1-3), where flags = "dns_flag dns" and data = data and flow_ok = flow_ok]
      size okE(4) by blast
  have k: "conaddr_key ?a \<notin> set (ug_keys g)" using ug_keys_tree [OF inv] none by simp
  have ev: "UdpGwClient_SubmitPacket mem flow_ok ready g l rm dns data = Some ([], g')"
    using none room g'(1) by (cases dns) (simp_all add: UdpGwClient_SubmitPacket_def Let_def find_connection_by_conaddr_def)
  have keys: "ug_keys g' = (if mem \<noteq> None \<and> flow_ok then ug_keys g @ [conaddr_key ?a] else ug_keys g)"
    using g'(4) okE(1) ug_invD(8) [OF inv] by (auto simp: ug_keys_def split: if_splits)
  show ?thesis unfolding ev submit_post_def
    using k room ug_invD(2) [OF inv] keys g'(2-4) by (auto simp: lru_touch_def split: if_splits)
qed

lemma submit_spec:
  assumes inv: "ug_inv g" and size: "ug_sized mtu g" and ok: "ug_event_ok g (USubmit mem flow_ok ready l rm dns data)"
  shows "\<exists>acts g'. UdpGwClient_SubmitPacket mem flow_ok ready g l rm dns data = Some (acts, g') \<and>
    submit_post mtu mem flow_ok ready g \<lparr>ca_local = l, ca_remote = rm\<rparr> (dns_flag dns) data acts g'"
proof (cases "tree_by_conaddr g (conaddr_key \<lparr>ca_local = l, ca_remote = rm\<rparr>)")
  case None
  show ?thesis
  proof (cases "num_connections g = max_connections g")
    case True
    then show ?thesis using submit_reuse [OF inv size None] ok by simp
  next
    case False
    then show ?thesis using submit_new [OF inv size None _ ok] ug_invD(3) [OF inv] by simp
  qed
qed (rule submit_existing [OF inv size])

section \<open>Reachable clients\<close>

lemma UdpGwClient_Init_inv:
  assumes "UdpGwClient_Init mtu max_con True = Some g" "0 < max_con"
  shows "ug_inv g \<and> ug_sized mtu g"
  using assms by (auto simp: UdpGwClient_Init_def Let_def ug_inv_def con_indexed_def ug_sized_def)

lemma ug_recv_cases:
  "ug_recv_handler_send g data = ([], g) \<or>
    (\<exists>p d. tree_by_conid g (of_le16 (mem_read data 1 2)) = Some p \<and> ug_recv_handler_send g data =
      ([UgReceived (ca_local (ug_conaddr (the (ug_store g p)))) (ca_remote (ug_conaddr (the (ug_store g p)))) d], move_to_end p g))"
  unfolding ug_recv_handler_send_def Let_def find_connection_by_conid_def by (simp split: option.split)

lemma ug_step_inv:
  assumes inv: "ug_inv g" and size: "ug_sized mtu g" and ok: "ug_event_ok g e"
  shows "\<exists>acts g'. ug_step g e = Some (acts, g') \<and> ug_inv g' \<and> ug_sized mtu g'"
proof (cases e)
  case (USubmit mem flow_ok ready l rm dns data)
  then show ?thesis using submit_spec [OF inv size ok [unfolded USubmit]] by (auto simp: submit_post_def)
next
  case (UFirst ready p)
  then obtain con where con: "ug_store g p = Some con" using ok by (auto split: option.splits)
  have "ug_sized mtu (g\<lparr>ug_store := (ug_store g)(p \<mapsto> con\<lparr>first_job := False\<rparr>)\<rparr>)"
    using size con by (auto simp: ug_sized_def)
  then show ?thesis using UFirst con ug_inv_first_job [OF inv con] by (simp add: ug_first_job_handler_def Let_def)
next
  case (UReceive data)
  consider "ug_recv_handler_send g data = ([], g)" | p d where "tree_by_conid g (of_le16 (mem_read data 1 2)) = Some p"
    "ug_recv_handler_send g data =
      ([UgReceived (ca_local (ug_conaddr (the (ug_store g p)))) (ca_remote (ug_conaddr (the (ug_store g p)))) d], move_to_end p g)"
    using ug_recv_cases [of g data] by blast
  then show ?thesis
  proof cases
    case 1
    then show ?thesis using UReceive inv size by simp
  next
    case 2
    obtain c where "ug_store g p = Some c" using ug_invD(10) [OF inv 2(1)] by blast
    then show ?thesis using UReceive 2(2) ug_inv_move_to_end [OF inv] size by simp
  qed
qed (use inv size in \<open>simp_all add: ug_send_monitor_handler_def keepalive_if_handler_done_def UdpGwClient_ConnectServer_def
    UdpGwClient_DisconnectServer_def decoder_handler_error_def\<close>)

lemma ug_reach_inv:
  assumes "ug_reach mtu max_con g" "0 < max_con"
  shows "ug_inv g \<and> ug_sized mtu g"
  using assms
proof induction
  case (ug_reach_step g e acts g')
  then show ?case using ug_step_inv [of g mtu e] by auto
qed (rule UdpGwClient_Init_inv)

lemma ug_free_connections_empty:
  assumes "ug_inv g"
  shows "connections_list (ug_free_connections g) = [] \<and> ug_store (ug_free_connections g) = Map.empty \<and>
    tree_by_conaddr (ug_free_connections g) = Map.empty \<and> tree_by_conid (ug_free_connections g) = Map.empty \<and>
    num_connections (ug_free_connections g) = 0"
  using assms
proof (induction g rule: ug_free_connections.induct)
  case (1 g)
  note D = ug_invD [OF 1(2)]
  show ?case
  proof (cases "connections_list g = []")
    case True
    then have "ug_store g = Map.empty" using D(8) by simp
    moreover have "tree_by_conid g i = None" "tree_by_conaddr g k = None" for i k
      using D(10) [of i] D(11) [of k] \<open>ug_store g = Map.empty\<close> by (metis not_None_eq option.distinct(1))+
    ultimately show ?thesis using True D(2) by (simp add: ug_free_connections.simps fun_eq_iff)
  next
    case False
    then obtain con where "ug_store g (hd (connections_list g)) = Some con" using ug_inv_store [OF 1(2)] by (metis hd_in_set)
    from 1(1) [OF False ug_inv_free [OF 1(2) this]] show ?thesis using False by (simp add: ug_free_connections.simps [of g])
  qed
qed

lemma udpgw_compute_mtu_value:
  assumes "0 \<le> m" "0 \<le> udpgw_compute_mtu m"
  shows "udpgw_compute_mtu m = m + 22"
proof (cases "m \<le> 4294967273")
  case True
  then have "m mod 4294967296 = m" "nat m \<le> 4294967273" using assms(1) by auto
  then show ?thesis using assms
    by (simp add: udpgw_compute_mtu_def Let_def bsize_toint_def bsize_defs bsize_fromint_def split: if_splits)
next
  case False
  have "is_overflow (bsize_add (bsize_fromsize 4) (bsize_add (bsize_fromsize 18) (bsize_fromint m)))"
  proof (cases "m > 4294967295")
    case True
    then show ?thesis by (simp add: bsize_defs bsize_fromint_def)
  next
    case small: False
    then have v: "m mod 4294967296 = m" using assms(1) by simp
    have "nat m \<ge> 4294967274" "nat m \<le> 4294967295" using False small by auto
    then have "4294967277 < nat m \<or> (18 + nat m) mod 4294967296 = 18 + nat m" by (auto simp: not_less intro!: mod_less)
    then show ?thesis using v \<open>nat m \<ge> 4294967274\<close> by (elim disjE) (simp_all add: bsize_defs bsize_fromint_def)
  qed
  then have "udpgw_compute_mtu m = -1"
    by (simp add: udpgw_compute_mtu_def Let_def bsize_toint_def bsize_max_def bsize_fromsize_def)
  then show ?thesis using assms(2) by simp
qed

lemma length_udpgw_message:
  "addr_ok (ca_remote (ug_conaddr con)) \<Longrightarrow> length (udpgw_message con flags data) \<le> 21 + length data"
  by (auto simp: udpgw_message_def Let_def addr_ok_def)

text \<open>The receiver reads back what the sender wrote.\<close>

lemma recv_udpgw_message:
  assumes inv: "ug_inv g" and con: "ug_store g p = Some con" and fl: "flags AND UDPGW_CLIENT_FLAG_IPV6 = 0"
    and len: "int (length data) \<le> ug_udp_mtu g"
  shows "ug_recv_handler_send g (udpgw_message con flags data) =
    ([UgReceived (ca_local (ug_conaddr con)) (ca_remote (ug_conaddr con)) data], move_to_end p g)"
proof -
  note idx = ug_inv_indexed [OF inv con]
  let ?rm = "ca_remote (ug_conaddr con)"
  have v6: "(flags OR UDPGW_CLIENT_FLAG_IPV6) AND UDPGW_CLIENT_FLAG_IPV6 \<noteq> 0"
    by (simp add: UDPGW_CLIENT_FLAG_IPV6_def bit.conj_disj_distrib2)
  have find: "find_connection_by_conid g (ug_conid con) = Some p" using idx(1) by (simp add: find_connection_by_conid_def)
  consider "addr_type ?rm = BADDR_TYPE_IPV4" | "addr_type ?rm = BADDR_TYPE_IPV6" "length (ipv6_ip ?rm) = 16"
    using idx(5) by (auto simp: addr_ok_def)
  then show ?thesis
  proof cases
    case 1
    have m: "udpgw_message con flags data = [flags] @ le16 (ug_conid con) @ (le32 (ipv4_ip ?rm) @ le16 (ipv4_port ?rm)) @ data"
      using 1 by (simp add: udpgw_message_def Let_def BADDR_TYPE_IPV4_def BADDR_TYPE_IPV6_def)
    have "BAddr_CompareOrder ?rm (BAddr_MakeIPv4 (ipv4_ip ?rm) (ipv4_port ?rm)) = 0"
      using 1 by (simp add: BAddr_CompareOrder_def BAddr_MakeIPv4_def)
    then show ?thesis using fl len con find
      by (simp add: m ug_recv_handler_send_def Let_def mem_read_def)
  next
    case 2
    have m: "udpgw_message con flags data =
        [flags OR UDPGW_CLIENT_FLAG_IPV6] @ le16 (ug_conid con) @ (ipv6_ip ?rm @ le16 (ipv6_port ?rm)) @ data"
      using 2 by (simp add: udpgw_message_def Let_def BADDR_TYPE_IPV4_def BADDR_TYPE_IPV6_def)
    have "BAddr_CompareOrder ?rm (BAddr_MakeIPv6 (ipv6_ip ?rm) (ipv6_port ?rm)) = 0"
      using 2 memcmp_sign_eq [of "ipv6_ip ?rm" "ipv6_ip ?rm"]
      by (simp add: BAddr_CompareOrder_def BAddr_MakeIPv6_def BADDR_TYPE_IPV4_def BADDR_TYPE_IPV6_def)
    then show ?thesis using v6 len con find 2(2)
      by (simp add: m ug_recv_handler_send_def Let_def mem_read_def)
  qed
qed

lemma ug_received:
  assumes inv: "ug_inv g" and r: "ug_recv_handler_send g data = (acts, g')" "UgReceived l rm d \<in> set acts"
  shows "(baddr_abs rm, baddr_abs l) \<in> set (ug_keys g) \<and> int (length d) \<le> ug_udp_mtu g \<and> (\<exists>n. d = drop n data \<and> 9 \<le> n)"
proof -
  have "\<exists>p. tree_by_conid g (of_le16 (mem_read data 1 2)) = Some p \<and> l = ca_local (ug_conaddr (the (ug_store g p))) \<and>
      rm = ca_remote (ug_conaddr (the (ug_store g p))) \<and> int (length d) \<le> ug_udp_mtu g \<and> (\<exists>n. d = drop n data \<and> 9 \<le> n)"
    using r unfolding ug_recv_handler_send_def Let_def find_connection_by_conid_def
    by (auto split: if_splits option.splits)
  then obtain p where p: "tree_by_conid g (of_le16 (mem_read data 1 2)) = Some p" "l = ca_local (ug_conaddr (the (ug_store g p)))"
    "rm = ca_remote (ug_conaddr (the (ug_store g p)))" "int (length d) \<le> ug_udp_mtu g" "\<exists>n. d = drop n data \<and> 9 \<le> n" by blast
  obtain con where con: "ug_store g p = Some con" using ug_invD(10) [OF inv p(1)] by blast
  then have "(baddr_abs rm, baddr_abs l) = conaddr_key (ug_conaddr con)" using p(2,3) by (simp add: conaddr_key_def)
  then show ?thesis using ug_keys_tree [OF inv, of "(baddr_abs rm, baddr_abs l)"] ug_inv_indexed(2) [OF inv con] p(4,5) by simp
qed

lemma ug_sent_connection:
  assumes inv: "ug_inv g" and size: "ug_sized mtu g" and ok: "ug_event_ok g e" and step: "ug_step g e = Some (acts, g')"
    and m: "UgSend p m \<in> set acts"
  shows "\<exists>con flags data. ug_store g' p = Some con \<and> addr_ok (ca_remote (ug_conaddr con)) \<and>
    m = udpgw_message con flags data \<and> int (length data) \<le> mtu"
proof (cases e)
  case (USubmit mem flow_ok ready l rm dns data)
  have "submit_post mtu mem flow_ok ready g \<lparr>ca_local = l, ca_remote = rm\<rparr> (dns_flag dns) data acts g'"
    using submit_spec [OF inv size ok [unfolded USubmit]] step USubmit by simp
  moreover have "int (length data) \<le> mtu" using ok USubmit ug_sizedD(2) [OF size] by simp
  ultimately show ?thesis using m ug_inv_indexed(5) [of g']
    by (fastforce simp: submit_post_def ug_connection_send_def split: if_splits)
next
  case (UFirst ready q)
  then obtain con where con: "ug_store g q = Some con" using ok by (auto split: option.splits)
  have "udpgw_message (con\<lparr>first_job := False\<rparr>) = udpgw_message con" by (simp add: udpgw_message_def fun_eq_iff Let_def)
  then show ?thesis using UFirst step m con ug_sizedD(1) [OF size con] ug_inv_indexed(5) [OF inv con]
    by (auto simp: ug_first_job_handler_def ug_connection_send_def Let_def split: if_splits) blast
next
  case (UReceive data)
  then show ?thesis using ug_recv_cases [of g data] step m by auto
qed (use step m in \<open>auto simp: ug_send_monitor_handler_def decoder_handler_error_def split: if_splits\<close>)

section \<open>A small client\<close>

text \<open>A client with room for one connection, without and with a connection.\<close>

definition ug_test0 :: UdpGwClient where
  "ug_test0 = \<lparr>ug_udp_mtu = 100, max_connections = 1, udpgw_mtu = udpgw_compute_mtu 100, pp_mtu = udpgw_compute_mtu 100 + 2,
     ug_store = Map.empty, tree_by_conaddr = Map.empty, tree_by_conid = Map.empty, connections_list = [], num_connections = 0,
     next_conid = 0, keepalive_sending = False, have_server = False\<rparr>"

definition ug_test_con :: ug_connection where
  "ug_test_con = \<lparr>ug_conaddr = \<lparr>ca_local = socks_test_addr, ca_remote = socks_test_addr\<rparr>, first_flags = 0, first_data = [1, 2],
     ug_conid = 0, first_job = True\<rparr>"

definition ug_test1 :: UdpGwClient where
  "ug_test1 = ug_test0\<lparr>ug_store := [7 \<mapsto> ug_test_con], tree_by_conaddr := [conaddr_key (ug_conaddr ug_test_con) \<mapsto> 7],
     tree_by_conid := [0 \<mapsto> 7], connections_list := [7], num_connections := 1\<rparr>"

lemma socks_test_addr_ok: "addr_ok socks_test_addr"
  by (simp add: addr_ok_def socks_test_addr_def socks_consts)

lemma ug_test0_reach: "ug_reach 100 1 ug_test0"
  by (rule ug_reach_init) (simp add: UdpGwClient_Init_def ug_test0_def Let_def)

lemma ug_test0_submit:
  "UdpGwClient_SubmitPacket (Some 7) True True ug_test0 socks_test_addr socks_test_addr False [1, 2] = Some ([], ug_test1)"
  by (simp add: UdpGwClient_SubmitPacket_def ug_test0_def ug_test1_def ug_test_con_def find_connection_by_conaddr_def connection_init_def
    find_unused_conid.simps find_connection_by_conid_def avl_insert_def Let_def)

lemma ug_test1_reach: "ug_reach 100 1 ug_test1"
  by (rule ug_reach_step [OF ug_test0_reach, where e = "USubmit (Some 7) True True socks_test_addr socks_test_addr False [1, 2]"])
    (simp_all add: ug_test0_submit socks_test_addr_ok, simp add: ug_test0_def)

section \<open>Properties\<close>

text \<open>
  C12. In every state that a client can reach (any order of packets, jobs, server messages, keepalives and
  server connections, with \<open>malloc\<close> and the flow initialisation failing at will) the list, both trees and the
  store hold the same connections, at most \<open>max_connections\<close> of them and each under its own number and
  address pair; every further operation returns; and freeing the client releases every connection.
\<close>

theorem udpgw_table_consistent:
  assumes "ug_reach mtu max_con g" "0 < max_con"
  shows "ug_inv g \<and> (ug_event_ok g e \<longrightarrow> (\<exists>acts g'. ug_step g e = Some (acts, g') \<and> ug_inv g')) \<and>
    ug_store (ug_free_connections g) = Map.empty \<and> tree_by_conid (ug_free_connections g) = Map.empty \<and>
    tree_by_conaddr (ug_free_connections g) = Map.empty \<and> connections_list (ug_free_connections g) = []"
  using ug_reach_inv [OF assms] ug_free_connections_empty [of g] ug_step_inv [of g mtu e] by blast

theorem udpgw_table_consistent_witness:
  "ug_inv ug_test1 \<and> num_connections ug_test1 = 1 \<and> (\<exists>acts g'. ug_step ug_test1 (UFirst True 7) = Some (acts, g') \<and> ug_inv g') \<and>
    ug_store (ug_free_connections ug_test1) = Map.empty"
  using udpgw_table_consistent [OF ug_test1_reach, of "UFirst True 7"] by (simp add: ug_test1_def ug_test_con_def)

text \<open>
  C37. The search for a connection number ends whenever there are fewer connections than the maximum, with a
  number below the maximum that no connection has; nothing but the position of the search changes.
\<close>

theorem conid_search_ends:
  assumes "ug_reach mtu max_con g" "0 < max_con" "num_connections g < max_connections g"
  shows "\<exists>i. find_unused_conid g = Some (i, g\<lparr>next_conid := int (unat i)\<rparr>) \<and> find_connection_by_conid g i = None \<and>
    int (unat i) < max_connections g"
  using find_unused_conid_returns [of g] ug_reach_inv [OF assms(1,2)] assms(3) by (auto simp: find_connection_by_conid_def)

theorem conid_search_ends_witness:
  "ug_reach 100 1 ug_test0 \<and> num_connections ug_test0 < max_connections ug_test0 \<and>
    (\<exists>i. find_unused_conid ug_test0 = Some (i, ug_test0\<lparr>next_conid := int (unat i)\<rparr>) \<and>
      find_connection_by_conid ug_test0 i = None \<and> int (unat i) < max_connections ug_test0)"
proof -
  have r: "num_connections ug_test0 < max_connections ug_test0" by (simp add: ug_test0_def)
  from conid_search_ends [OF ug_test0_reach _ r] show ?thesis using r ug_test0_reach by simp
qed

text \<open>
  C14. The connection table is a bounded list of address pairs in the order of their last use: a packet moves its
  pair to the end; when the table is full a packet of a new pair takes over the connection of the pair that was
  used least recently, telling the server to rebind; otherwise a connection is made, whose first packet is
  this one. The packet always goes to the connection of its own pair.
\<close>

theorem udpgw_least_recently_used:
  assumes "ug_reach mtu max_con g" "0 < max_con" "ug_event_ok g (USubmit mem flow_ok ready l rm dns data)"
  defines "k \<equiv> conaddr_key \<lparr>ca_local = l, ca_remote = rm\<rparr>"
  shows "\<exists>acts g'. UdpGwClient_SubmitPacket mem flow_ok ready g l rm dns data = Some (acts, g') \<and>
    ug_keys g' = lru_touch (max_connections g) (mem \<noteq> None \<and> flow_ok) k (ug_keys g) \<and>
    (if k \<in> set (ug_keys g) \<or> int (length (ug_keys g)) = max_connections g
     then \<exists>p con. ug_store g' p = Some con \<and> conaddr_key (ug_conaddr con) = k \<and>
            acts = ug_connection_send ready g' p (if k \<in> set (ug_keys g) then dns_flag dns else dns_flag dns OR UDPGW_CLIENT_FLAG_REBIND) data
     else acts = [] \<and> (mem \<noteq> None \<and> flow_ok \<longrightarrow> (\<exists>p con. ug_store g' p = Some con \<and>
            conaddr_key (ug_conaddr con) = k \<and> first_data con = data \<and> first_flags con = dns_flag dns \<and> first_job con)))"
  using submit_spec [OF conjunct1 [OF ug_reach_inv [OF assms(1,2)]] conjunct2 [OF ug_reach_inv [OF assms(1,2)]] assms(3)]
  unfolding submit_post_def k_def by blast

theorem udpgw_least_recently_used_witness:
  "\<exists>acts g'. UdpGwClient_SubmitPacket None True True ug_test1 socks_test_addr (socks_test_addr\<lparr>ipv4_port := 9\<rparr>) True [3] = Some (acts, g') \<and>
    ug_keys g' = [conaddr_key \<lparr>ca_local = socks_test_addr, ca_remote = socks_test_addr\<lparr>ipv4_port := 9\<rparr>\<rparr>]"
proof -
  let ?r = "socks_test_addr\<lparr>ipv4_port := 9\<rparr>"
  have keys: "ug_keys ug_test1 = [conaddr_key \<lparr>ca_local = socks_test_addr, ca_remote = socks_test_addr\<rparr>]" "max_connections ug_test1 = 1"
    by (simp_all add: ug_keys_def ug_test1_def ug_test_con_def ug_test0_def)
  have ok: "ug_event_ok ug_test1 (USubmit None True True socks_test_addr ?r True [3])"
    using socks_test_addr_ok by (simp add: addr_ok_def ug_test1_def ug_test0_def)
  have "conaddr_key \<lparr>ca_local = socks_test_addr, ca_remote = ?r\<rparr> \<noteq> conaddr_key \<lparr>ca_local = socks_test_addr, ca_remote = socks_test_addr\<rparr>"
    by (simp add: conaddr_key_def baddr_abs_def socks_test_addr_def socks_consts)
  then show ?thesis using udpgw_least_recently_used [OF ug_test1_reach _ ok] keys by (auto simp: lru_touch_def)
qed

text \<open>
  A reply finds its way back. A message with the number and the address of a live connection, with any payload up
  to the MTU, is passed to the user with exactly that payload and with the local and remote address of this
  connection, which becomes the most recently used one. Whatever else arrives, nothing is passed on unless
  its address pair is in the table, and what is passed on is the end of the message behind its headers.
\<close>

theorem udpgw_reply_routed:
  assumes "ug_reach mtu max_con g" "0 < max_con"
  shows "(ug_store g p = Some con \<and> flags AND UDPGW_CLIENT_FLAG_IPV6 = 0 \<and> int (length data) \<le> mtu \<longrightarrow>
      ug_recv_handler_send g (udpgw_message con flags data) =
        ([UgReceived (ca_local (ug_conaddr con)) (ca_remote (ug_conaddr con)) data], move_to_end p g)) \<and>
    (ug_recv_handler_send g msg = (acts, g') \<and> UgReceived l rm d \<in> set acts \<longrightarrow>
      (baddr_abs rm, baddr_abs l) \<in> set (ug_keys g) \<and> int (length d) \<le> mtu \<and> (\<exists>n. d = drop n msg \<and> 9 \<le> n))"
proof -
  have i: "ug_inv g" "ug_udp_mtu g = mtu" using ug_reach_inv [OF assms] ug_sizedD(2) by blast+
  show ?thesis using recv_udpgw_message [OF i(1), of p con flags data] ug_received [OF i(1), of msg acts g' l rm d] i(2) by auto
qed

theorem udpgw_reply_routed_witness:
  "ug_recv_handler_send ug_test1 (udpgw_message ug_test_con 0 [4, 5, 6]) =
    ([UgReceived socks_test_addr socks_test_addr [4, 5, 6]], move_to_end 7 ug_test1)"
proof -
  have "ug_store ug_test1 7 = Some ug_test_con" by (simp add: ug_test1_def)
  then show ?thesis using udpgw_reply_routed [OF ug_test1_reach, of 7 ug_test_con 0 "[4, 5, 6]"] by (simp add: ug_test_con_def)
qed

text \<open>
  Every message that a client sends fits: with an MTU that the code can represent, no message is longer
  than the packets of the protocol (\<open>udpgw_mtu\<close>), so that the buffer it is written to is never overrun.
\<close>

theorem udpgw_messages_fit:
  assumes "ug_reach mtu max_con g" "0 < max_con" "0 \<le> mtu" "0 \<le> udpgw_compute_mtu mtu"
    "ug_event_ok g e" "ug_step g e = Some (acts, g')" "UgSend p m \<in> set acts"
  shows "int (length m) \<le> udpgw_mtu g \<and> udpgw_mtu g = mtu + 22"
proof -
  have i: "ug_inv g" "ug_sized mtu g" using ug_reach_inv [OF assms(1,2)] by simp_all
  obtain con flags data where c: "addr_ok (ca_remote (ug_conaddr con))" "m = udpgw_message con flags data" "int (length data) \<le> mtu"
    using ug_sent_connection [OF i assms(5-7)] by blast
  have "udpgw_mtu g = mtu + 22" using udpgw_compute_mtu_value [OF assms(3,4)] ug_sizedD(3) [OF i(2)] by simp
  then show ?thesis using length_udpgw_message [OF c(1), of flags data] c(2,3) by auto
qed

theorem udpgw_messages_fit_witness:
  "\<exists>m g'. ug_step ug_test1 (UFirst True 7) = Some ([UgSend 7 m], g') \<and> int (length m) \<le> udpgw_mtu ug_test1 \<and> udpgw_mtu ug_test1 = 122"
proof -
  obtain m g' where s: "ug_step ug_test1 (UFirst True 7) = Some ([UgSend 7 m], g')"
    by (simp add: ug_first_job_handler_def ug_connection_send_def ug_test1_def Let_def)
  have "0 \<le> udpgw_compute_mtu 100"
    by (simp add: udpgw_compute_mtu_def Let_def bsize_toint_def bsize_defs bsize_fromint_def)
  then show ?thesis using udpgw_messages_fit [OF ug_test1_reach _ _ _ _ s, of 7 m] s by (auto simp: ug_test1_def ug_test_con_def)
qed

end
