(* ===== verification/Socks_Udpgw.thy ===== *)
theory Socks_Udpgw
  imports Udpgw_Client
begin

text \<open>
  The udpgw client behind a SOCKS server (\<open>tun2socks/SocksUdpGwClient.c\<close>, the variant built for Android). It owns a
  \<open>UdpGwClient\<close>, whose server it reaches through a SOCKS client that is connected again after every error, and a
  table of datagram sockets for DNS: a DNS packet goes straight to the DNS gateway, on the socket of its local
  address.

  The socket connections are modelled as in \<open>Udpgw_Client\<close>: pointers, a store, a tree that maps local addresses to
  pointers, and the list in the order of use. The pending jobs of new connections are a list of pointers of its own,
  because \<open>connection_free\<close> does not withdraw the job of the connection. Results of \<open>malloc\<close>, of the socket
  calls and of the buffer allocations, and whether the writer has a free buffer, are arguments.
\<close>

section \<open>State\<close>

record su_connection =
  su_conaddr :: conaddr
  su_first_data :: bytes
  is_dns :: bool
  udp_send_addr :: BAddr

record SocksUdpGwClient =
  su_udp_mtu :: int
  socks_server_addr :: BAddr
  dnsgw :: BAddr
  su_udpgw_mtu :: int
  su_num_connections :: int
  su_max_connections :: int
  su_tree :: "sock_addr option \<rightharpoonup> nat"
  su_connections_list :: "nat list"
  su_store :: "nat \<rightharpoonup> su_connection"
  su_jobs :: "nat list"
  udpgw_client :: UdpGwClient
  reconnect_timer :: bool
  have_socks :: bool
  socks_up :: bool

datatype su_act =
    SuSend nat bytes  \<comment> \<open>a datagram for the writer of a connection\<close>
  | SuReceived BAddr BAddr bytes  \<comment> \<open>\<open>handler_received\<close>\<close>
  | SuUdpgw ug_act

section \<open>Datagram connections\<close>

definition su_conaddr_comparator :: "conaddr \<Rightarrow> conaddr \<Rightarrow> int" where
  "su_conaddr_comparator a b = BAddr_CompareOrder (ca_local a) (ca_local b)"

definition su_key :: "su_connection \<Rightarrow> sock_addr option" where
  "su_key con = baddr_abs (ca_local (su_conaddr con))"

text \<open>The test behind the lookup reads \<open>!con && con->is_dns != is_dns\<close>; a connection that was found is not \<open>NULL\<close>.\<close>

definition find_connection :: "SocksUdpGwClient \<Rightarrow> conaddr \<Rightarrow> bool \<Rightarrow> nat option" where
  "find_connection o' a dns =
     (case su_tree o' (baddr_abs (ca_local a)) of
        None \<Rightarrow> None
      | Some p \<Rightarrow> if False \<and> is_dns (the (su_store o' p)) \<noteq> dns then None else Some p)"

definition su_connection_free :: "SocksUdpGwClient \<Rightarrow> nat \<Rightarrow> SocksUdpGwClient" where
  "su_connection_free o' p =
     (let con = the (su_store o' p)
      in o'\<lparr>su_num_connections := su_num_connections o' - 1,
            su_connections_list := remove1 p (su_connections_list o'),
            su_tree := avl_remove (su_key con) (su_tree o'),
            su_store := (su_store o')(p := None)\<rparr>)"

definition remove_lru_connection :: "SocksUdpGwClient \<Rightarrow> SocksUdpGwClient" where
  "remove_lru_connection o' = su_connection_free o' (hd (su_connections_list o'))"

definition reset_connection :: "SocksUdpGwClient \<Rightarrow> nat \<Rightarrow> conaddr \<Rightarrow> bool \<Rightarrow> SocksUdpGwClient" where
  "reset_connection o' p a dns =
     o'\<lparr>su_store := (su_store o')(p \<mapsto> (the (su_store o' p))\<lparr>su_conaddr := a, is_dns := dns\<rparr>)\<rparr>"

text \<open>The datagram: the payload alone for DNS, a SOCKS UDP header in front of it otherwise.\<close>

definition su_message :: "su_connection \<Rightarrow> bytes \<Rightarrow> bytes" where
  "su_message con data =
     (let rm = ca_remote (su_conaddr con)
      in (if is_dns con then []
          else [0, 0, 0, if addr_type rm = BADDR_TYPE_IPV4 then SOCKS_ATYP_IPV4 else SOCKS_ATYP_IPV6] @
               (if addr_type rm = BADDR_TYPE_IPV4 then le32 (ipv4_ip rm) @ le16 (ipv4_port rm)
                else if addr_type rm = BADDR_TYPE_IPV6 then ipv6_ip rm @ le16 (ipv6_port rm) else [])) @ data)"

text \<open>The result is 1 when the writer has no free buffer.\<close>

definition su_connection_send :: "bool \<Rightarrow> SocksUdpGwClient \<Rightarrow> nat \<Rightarrow> bytes \<Rightarrow> su_act list \<times> int" where
  "su_connection_send ready o' p data =
     (if \<not> ready then ([], 1) else ([SuSend p (su_message (the (su_store o' p)) data)], 0))"

definition su_first_job_handler :: "bool \<Rightarrow> SocksUdpGwClient \<Rightarrow> nat \<Rightarrow> su_act list \<times> SocksUdpGwClient" where
  "su_first_job_handler ready o' p =
     (fst (su_connection_send ready o' p (su_first_data (the (su_store o' p)))), o'\<lparr>su_jobs := remove1 p (su_jobs o')\<rparr>)"

text \<open>\<open>mem\<close>: the result of \<open>malloc\<close>; the other arguments: the datagram socket, \<open>SO_REUSEADDR\<close>, the send buffer and
  the receive buffer could be set up.\<close>

definition su_connection_init ::
    "nat option \<Rightarrow> bool \<times> bool \<times> bool \<times> bool \<Rightarrow> SocksUdpGwClient \<Rightarrow> conaddr \<Rightarrow> bytes \<Rightarrow> bool \<Rightarrow> nat option \<times> SocksUdpGwClient" where
  "su_connection_init mem oks o' a data dns =
     (case mem of
        None \<Rightarrow> (None, o')
      | Some p \<Rightarrow>
          (case oks of (dgram_ok, reuse_ok, sbuf_ok, rbuf_ok) \<Rightarrow>
             if \<not> dgram_ok then (None, o')
             else if \<not> reuse_ok then (None, o')
             else let con = \<lparr>su_conaddr = a, su_first_data = data, is_dns = dns,
                             udp_send_addr = (if dns then dnsgw o' else socks_server_addr o')\<rparr>
                  in if \<not> sbuf_ok then (None, o')
                     else if \<not> rbuf_ok then (None, o')
                     else (Some p, o'\<lparr>su_store := (su_store o')(p \<mapsto> con), su_jobs := p # su_jobs o',
                                      su_tree := avl_insert (su_key con) p (su_tree o'),
                                      su_connections_list := su_connections_list o' @ [p],
                                      su_num_connections := su_num_connections o' + 1\<rparr>)))"

definition dgram_handler_received :: "SocksUdpGwClient \<Rightarrow> nat \<Rightarrow> bytes \<Rightarrow> su_act list \<times> SocksUdpGwClient" where
  "dgram_handler_received o' p data =
     (let con = the (su_store o' p);
          deliver = (\<lambda>con' o1 d. if int (length d) > su_udp_mtu o1 then ([], o1)
                       else ([SuReceived (ca_local (su_conaddr con')) (ca_remote (su_conaddr con')) d], o1))
      in if is_dns con then deliver con o' data
         else if length data < 4 then ([], o')
         else let frag = data ! 2; atyp = data ! 3; d1 = drop 4 data; v6 = (atyp = SOCKS_ATYP_IPV6); n = (if v6 then 18 else 6)
              in if frag \<noteq> 0 then ([], o')
                 else if length d1 < n then ([], o')
                 else let rm = (if v6 then BAddr_MakeIPv6 (mem_read d1 0 16) (of_le16 (mem_read d1 16 2))
                                else BAddr_MakeIPv4 (of_le32 (mem_read d1 0 4)) (of_le16 (mem_read d1 4 2)));
                          con1 = con\<lparr>su_conaddr := (su_conaddr con)\<lparr>ca_remote := rm\<rparr>\<rparr>
                      in deliver con1 (o'\<lparr>su_store := (su_store o')(p \<mapsto> con1)\<rparr>) (drop n d1))"

section \<open>The connection to the server\<close>

definition free_socks :: "SocksUdpGwClient \<Rightarrow> SocksUdpGwClient" where
  "free_socks o' =
     (if socks_up o' then o'\<lparr>udpgw_client := UdpGwClient_DisconnectServer (udpgw_client o'), have_socks := False\<rparr>
      else o'\<lparr>have_socks := False\<rparr>)"

definition try_connect :: "bool \<Rightarrow> SocksUdpGwClient \<Rightarrow> SocksUdpGwClient" where
  "try_connect socks_ok o' =
     (if \<not> socks_ok then o'\<lparr>reconnect_timer := True\<rparr> else o'\<lparr>have_socks := True, socks_up := False\<rparr>)"

text \<open>The timer has expired, and is not running when its handler is called.\<close>

definition reconnect_timer_handler :: "bool \<Rightarrow> SocksUdpGwClient \<Rightarrow> SocksUdpGwClient" where
  "reconnect_timer_handler socks_ok o' = try_connect socks_ok (o'\<lparr>reconnect_timer := False\<rparr>)"

text \<open>The default case of the switch is an assertion, which does nothing in the build.\<close>

definition socks_client_handler :: "bool \<Rightarrow> SocksUdpGwClient \<Rightarrow> socks_event \<Rightarrow> SocksUdpGwClient" where
  "socks_client_handler connect_ok o' ev =
     (case ev of
        BSOCKSCLIENT_EVENT_UP \<Rightarrow>
          (case UdpGwClient_ConnectServer connect_ok (udpgw_client o') of
             (True, g) \<Rightarrow> o'\<lparr>udpgw_client := g, socks_up := True\<rparr>
           | (False, g) \<Rightarrow> (free_socks (o'\<lparr>udpgw_client := g\<rparr>))\<lparr>reconnect_timer := True\<rparr>)
      | BSOCKSCLIENT_EVENT_ERROR \<Rightarrow> (free_socks o')\<lparr>reconnect_timer := True\<rparr>
      | BSOCKSCLIENT_EVENT_ERROR_CLOSED \<Rightarrow> (free_socks o')\<lparr>reconnect_timer := True\<rparr>
      | BSOCKSCLIENT_EVENT_CONNECTED \<Rightarrow> o')"

definition udpgw_handler_servererror :: "SocksUdpGwClient \<Rightarrow> SocksUdpGwClient" where
  "udpgw_handler_servererror o' = (free_socks o')\<lparr>reconnect_timer := True\<rparr>"

definition udpgw_handler_received :: "BAddr \<Rightarrow> BAddr \<Rightarrow> bytes \<Rightarrow> su_act" where
  "udpgw_handler_received l rm data = SuReceived l rm data"

text \<open>What the handlers make of the calls of the udpgw client.\<close>

fun su_udpgw_act :: "ug_act \<Rightarrow> su_act list \<times> SocksUdpGwClient \<Rightarrow> su_act list \<times> SocksUdpGwClient" where
  "su_udpgw_act (UgReceived l rm d) (acts, o') = (acts @ [udpgw_handler_received l rm d], o')"
| "su_udpgw_act UgServerError (acts, o') = (acts, udpgw_handler_servererror o')"
| "su_udpgw_act a (acts, o') = (acts @ [SuUdpgw a], o')"

definition su_after_udpgw :: "SocksUdpGwClient \<Rightarrow> ug_act list \<times> UdpGwClient \<Rightarrow> su_act list \<times> SocksUdpGwClient" where
  "su_after_udpgw o' r = (case r of (acts, g) \<Rightarrow> fold su_udpgw_act acts ([], o'\<lparr>udpgw_client := g\<rparr>))"

section \<open>The interface\<close>

text \<open>\<open>num\<close>: what \<open>num_connections\<close> held before, as the function does not set it.\<close>

definition SocksUdpGwClient_Init :: "int \<Rightarrow> int \<Rightarrow> int \<Rightarrow> BAddr \<Rightarrow> BAddr \<Rightarrow> bool \<Rightarrow> bool \<Rightarrow> SocksUdpGwClient option" where
  "SocksUdpGwClient_Init num mtu max_con server dns queue_ok socks_ok =
     (case UdpGwClient_Init mtu max_con queue_ok of
        None \<Rightarrow> None
      | Some g \<Rightarrow>
          Some (try_connect socks_ok
            \<lparr>su_udp_mtu = mtu, socks_server_addr = server, dnsgw = dns, su_udpgw_mtu = udpgw_compute_mtu mtu,
             su_num_connections = num, su_max_connections = (if max_con > 65535 + 1 then 65535 + 1 else max_con),
             su_tree = Map.empty, su_connections_list = [], su_store = Map.empty, su_jobs = [], udpgw_client = g,
             reconnect_timer = False, have_socks = False, socks_up = False\<rparr>))"

definition su_move_to_end :: "nat \<Rightarrow> SocksUdpGwClient \<Rightarrow> SocksUdpGwClient" where
  "su_move_to_end p o' = o'\<lparr>su_connections_list := remove1 p (su_connections_list o') @ [p]\<rparr>"

definition SocksUdpGwClient_SubmitPacket ::
    "nat option \<Rightarrow> bool \<times> bool \<times> bool \<times> bool \<Rightarrow> bool \<Rightarrow> bool \<Rightarrow> SocksUdpGwClient \<Rightarrow> BAddr \<Rightarrow> BAddr \<Rightarrow> bool \<Rightarrow> bytes \<Rightarrow>
     (su_act list \<times> SocksUdpGwClient) option" where
  "SocksUdpGwClient_SubmitPacket mem oks flow_ok ready o' l rm dns data =
     (if dns
      then let a = \<lparr>ca_local = l, ca_remote = rm\<rparr>;
               con = find_connection o' a dns;
               o1 = (if con = None \<and> su_num_connections o' = su_max_connections o' then remove_lru_connection o' else o')
           in case con of
                None \<Rightarrow> Some ([], snd (su_connection_init mem oks o1 a data dns))
              | Some p \<Rightarrow>
                  (let o2 = reset_connection o1 p a dns;
                       (acts, res) = su_connection_send ready o2 p data
                   in Some (acts, if res = 1 then o2 else su_move_to_end p o2))
      else map_option (su_after_udpgw o')
             (UdpGwClient_SubmitPacket mem flow_ok ready (udpgw_client o') l rm dns data))"

text \<open>The loop of \<open>SocksUdpGwClient_Free\<close>, and the function.\<close>

function su_free_connections :: "SocksUdpGwClient \<Rightarrow> SocksUdpGwClient" where
  "su_free_connections o' =
     (if su_connections_list o' = [] then o' else su_free_connections (su_connection_free o' (hd (su_connections_list o'))))"
  by pat_completeness auto
termination
  by (relation "measure (\<lambda>o'. length (su_connections_list o'))")
    (auto simp: su_connection_free_def Let_def length_remove1)

declare su_free_connections.simps [simp del]

definition SocksUdpGwClient_Free :: "SocksUdpGwClient \<Rightarrow> SocksUdpGwClient" where
  "SocksUdpGwClient_Free o' =
     (let o1 = su_free_connections o';
          o2 = (if have_socks o1 then free_socks o1 else o1)
      in o2\<lparr>reconnect_timer := False, udpgw_client := ug_free_connections (udpgw_client o2)\<rparr>)"

section \<open>Tables\<close>

text \<open>A store, a tree and a list that hold the same entries, each under its key.\<close>

definition tab_ok :: "('c \<Rightarrow> 'k) \<Rightarrow> (nat \<rightharpoonup> 'c) \<Rightarrow> ('k \<rightharpoonup> nat) \<Rightarrow> nat list \<Rightarrow> bool" where
  "tab_ok key st tr ps \<longleftrightarrow> distinct ps \<and> dom st = set ps \<and> (\<forall>p c. st p = Some c \<longrightarrow> tr (key c) = Some p) \<and>
     (\<forall>k p. tr k = Some p \<longrightarrow> (\<exists>c. st p = Some c \<and> key c = k))"

definition tab_keys :: "('c \<Rightarrow> 'k) \<Rightarrow> (nat \<rightharpoonup> 'c) \<Rightarrow> nat list \<Rightarrow> 'k list" where
  "tab_keys key st ps = map (\<lambda>p. key (the (st p))) ps"

lemma tab_okD:
  assumes "tab_ok key st tr ps"
  shows "distinct ps" "dom st = set ps" "st p = Some c \<Longrightarrow> tr (key c) = Some p" "tr k = Some p \<Longrightarrow> \<exists>c. st p = Some c \<and> key c = k"
    "p \<in> set ps \<Longrightarrow> \<exists>c. st p = Some c"
  using assms unfolding tab_ok_def by blast+

lemma tab_ok_insert:
  assumes t: "tab_ok key st tr ps" and p: "st p = None" and k: "tr (key c) = None"
  shows "tab_ok key (st(p \<mapsto> c)) (avl_insert (key c) p tr) (ps @ [p])"
proof -
  note D = tab_okD [OF t]
  have n: "p \<notin> set ps" using D(2) p by auto
  have "tr (key d) = Some q \<and> key d \<noteq> key c" if "st q = Some d" for q d using D(3) [OF that] k by auto
  then show ?thesis using D(1,2,4) n p k unfolding tab_ok_def by (auto simp: avl_insert_def) (metis option.distinct(1))+
qed

lemma tab_ok_remove:
  assumes t: "tab_ok key st tr ps" and p: "st p = Some c"
  shows "tab_ok key (st(p := None)) (avl_remove (key c) tr) (remove1 p ps)"
proof -
  note D = tab_okD [OF t]
  have "tr (key d) = Some q \<and> key d \<noteq> key c" if "st q = Some d" "q \<noteq> p" for q d
    using D(3) [OF that(1)] D(3) [OF p] that(2) by auto
  moreover have "key c = k" if "tr k = Some p" for k using D(4) [OF that] p by auto
  ultimately show ?thesis using D(1,2,4) p unfolding tab_ok_def by (auto simp: avl_remove_def)
qed

lemma tab_ok_update:
  assumes t: "tab_ok key st tr ps" and p: "st p = Some c" and k: "key d = key c"
  shows "tab_ok key (st(p \<mapsto> d)) tr ps"
proof -
  note D = tab_okD [OF t]
  have "key c = k" if "tr k = Some p" for k using D(4) [OF that] p by auto
  then show ?thesis using D(1-4) p k unfolding tab_ok_def by (auto simp: domI insert_absorb)
qed

lemma tab_ok_move:
  assumes t: "tab_ok key st tr ps" and p: "st p = Some c"
  shows "tab_ok key st tr (remove1 p ps @ [p])" "length (remove1 p ps @ [p]) = length ps"
proof -
  have i: "p \<in> set ps" using tab_okD(2) [OF t] p by auto
  then show "tab_ok key st tr (remove1 p ps @ [p])" using t unfolding tab_ok_def by auto
  show "length (remove1 p ps @ [p]) = length ps" using i by (simp add: length_remove1) (metis Suc_pred length_pos_if_in_set)
qed

lemma tab_keys_inj:
  assumes t: "tab_ok key st tr ps"
  shows "inj_on (\<lambda>p. key (the (st p))) (set ps)"
proof (rule inj_onI)
  fix p q assume "p \<in> set ps" "q \<in> set ps" and e: "key (the (st p)) = key (the (st q))"
  then obtain c d where "st p = Some c" "st q = Some d" using tab_okD(5) [OF t] by blast
  then show "p = q" using tab_okD(3) [OF t, of p c] tab_okD(3) [OF t, of q d] e by simp
qed

lemma tab_keys_tree:
  assumes t: "tab_ok key st tr ps"
  shows "k \<in> set (tab_keys key st ps) \<longleftrightarrow> tr k \<noteq> None"
proof
  assume "k \<in> set (tab_keys key st ps)"
  then obtain p c where "st p = Some c" "k = key c" using tab_okD(5) [OF t] by (fastforce simp: tab_keys_def)
  then show "tr k \<noteq> None" using tab_okD(3) [OF t] by simp
next
  assume "tr k \<noteq> None"
  then obtain p c where "st p = Some c" "key c = k" using tab_okD(4) [OF t] by blast
  then show "k \<in> set (tab_keys key st ps)" using tab_okD(2) [OF t] by (force simp: tab_keys_def)
qed

lemma tab_keys_move:
  assumes t: "tab_ok key st tr ps" and p: "st p = Some c"
  shows "tab_keys key st (remove1 p ps @ [p]) = remove1 (key c) (tab_keys key st ps) @ [key c]"
proof -
  have "p \<in> set ps" using tab_okD(2) [OF t] p by auto
  from map_remove1_inj [OF tab_keys_inj [OF t] this] show ?thesis using p by (simp add: tab_keys_def)
qed

section \<open>Runs\<close>

text \<open>Packets from the device, the job of a new connection, datagrams, the reconnect timer, events of the SOCKS client
  and events of the udpgw client. A packet comes from the reactor, which has run all jobs before. The
  preconditions are those the code asserts.\<close>

datatype su_event =
    SSubmit "nat option" "bool \<times> bool \<times> bool \<times> bool" bool bool BAddr BAddr bool bytes
  | SFirst bool nat
  | SDgram nat bytes
  | STimer bool
  | SSocks bool socks_event
  | SUdpgw ug_event

fun udpgw_own_event :: "ug_event \<Rightarrow> bool" where
  "udpgw_own_event (UFirst _ _) = True"
| "udpgw_own_event (UReceive _) = True"
| "udpgw_own_event UMonitor = True"
| "udpgw_own_event UKeepDone = True"
| "udpgw_own_event UDecoderError = True"
| "udpgw_own_event _ = False"

fun su_event_ok :: "SocksUdpGwClient \<Rightarrow> su_event \<Rightarrow> bool" where
  "su_event_ok o' (SSubmit mem oks flow_ok ready l rm dns data) \<longleftrightarrow> su_jobs o' = [] \<and>
     (case mem of None \<Rightarrow> True | Some p \<Rightarrow> su_store o' p = None \<and> ug_store (udpgw_client o') p = None) \<and>
     addr_ok l \<and> addr_ok rm \<and> int (length data) \<le> su_udp_mtu o'"
| "su_event_ok o' (SFirst ready p) \<longleftrightarrow> p \<in> set (su_jobs o')"
| "su_event_ok o' (SDgram p data) \<longleftrightarrow> su_store o' p \<noteq> None \<and> int (length data) \<le> su_udpgw_mtu o'"
| "su_event_ok o' (STimer ok) \<longleftrightarrow> reconnect_timer o'"
| "su_event_ok o' (SSocks ok ev) \<longleftrightarrow> have_socks o' \<and> (ev = BSOCKSCLIENT_EVENT_UP \<longrightarrow> \<not> socks_up o')"
| "su_event_ok o' (SUdpgw e) \<longleftrightarrow> udpgw_own_event e \<and> ug_event_ok (udpgw_client o') e"

fun su_step :: "SocksUdpGwClient \<Rightarrow> su_event \<Rightarrow> (su_act list \<times> SocksUdpGwClient) option" where
  "su_step o' (SSubmit mem oks flow_ok ready l rm dns data) = SocksUdpGwClient_SubmitPacket mem oks flow_ok ready o' l rm dns data"
| "su_step o' (SFirst ready p) = Some (su_first_job_handler ready o' p)"
| "su_step o' (SDgram p data) = Some (dgram_handler_received o' p data)"
| "su_step o' (STimer ok) = Some ([], reconnect_timer_handler ok o')"
| "su_step o' (SSocks ok ev) = Some ([], socks_client_handler ok o' ev)"
| "su_step o' (SUdpgw e) = map_option (su_after_udpgw o') (ug_step (udpgw_client o') e)"

inductive su_reach :: "int \<Rightarrow> int \<Rightarrow> BAddr \<Rightarrow> BAddr \<Rightarrow> SocksUdpGwClient \<Rightarrow> bool" for mtu max_con server dns where
  su_reach_init: "SocksUdpGwClient_Init 0 mtu max_con server dns True socks_ok = Some o' \<Longrightarrow> su_reach mtu max_con server dns o'"
| su_reach_step: "su_reach mtu max_con server dns o' \<Longrightarrow> su_event_ok o' e \<Longrightarrow> su_step o' e = Some (acts, o1) \<Longrightarrow>
    su_reach mtu max_con server dns o1"

section \<open>Invariants\<close>

definition su_con_ok :: "int \<Rightarrow> BAddr \<Rightarrow> su_connection \<Rightarrow> bool" where
  "su_con_ok mtu dns con \<longleftrightarrow> is_dns con \<and> udp_send_addr con = dns \<and> addr_ok (ca_local (su_conaddr con)) \<and>
     int (length (su_first_data con)) \<le> mtu"

definition su_tab :: "int \<Rightarrow> BAddr \<Rightarrow> SocksUdpGwClient \<Rightarrow> bool" where
  "su_tab mtu dns o' \<longleftrightarrow> tab_ok su_key (su_store o') (su_tree o') (su_connections_list o') \<and>
     int (length (su_connections_list o')) = su_num_connections o' \<and> su_num_connections o' \<le> su_max_connections o' \<and>
     0 < su_max_connections o' \<and> dnsgw o' = dns \<and> su_udp_mtu o' = mtu \<and> set (su_jobs o') \<subseteq> dom (su_store o') \<and>
     (\<forall>p con. su_store o' p = Some con \<longrightarrow> su_con_ok mtu dns con)"

text \<open>Either a SOCKS client exists or the timer runs; the udpgw client has a server exactly while SOCKS is up.\<close>

definition su_life :: "int \<Rightarrow> SocksUdpGwClient \<Rightarrow> bool" where
  "su_life mtu o' \<longleftrightarrow> (have_socks o' \<longleftrightarrow> \<not> reconnect_timer o') \<and> (have_server (udpgw_client o') \<longleftrightarrow> have_socks o' \<and> socks_up o') \<and>
     ug_inv (udpgw_client o') \<and> ug_sized mtu (udpgw_client o')"

lemma su_tabD:
  assumes "su_tab mtu dns o'"
  shows "tab_ok su_key (su_store o') (su_tree o') (su_connections_list o')"
    "int (length (su_connections_list o')) = su_num_connections o'" "su_num_connections o' \<le> su_max_connections o'"
    "0 < su_max_connections o'" "dnsgw o' = dns" "su_udp_mtu o' = mtu" "set (su_jobs o') \<subseteq> dom (su_store o')"
    "su_store o' p = Some con \<Longrightarrow> su_con_ok mtu dns con"
  using assms unfolding su_tab_def by blast+

lemma su_tab_frame [simp]:
  "su_tab mtu dns (o'\<lparr>udpgw_client := g\<rparr>) = su_tab mtu dns o'" "su_tab mtu dns (o'\<lparr>reconnect_timer := b\<rparr>) = su_tab mtu dns o'"
  "su_tab mtu dns (o'\<lparr>have_socks := b\<rparr>) = su_tab mtu dns o'" "su_tab mtu dns (o'\<lparr>socks_up := b\<rparr>) = su_tab mtu dns o'"
  by (simp_all add: su_tab_def)

lemma su_life_frame [simp]:
  "su_life mtu (o'\<lparr>su_store := st\<rparr>) = su_life mtu o'" "su_life mtu (o'\<lparr>su_jobs := js\<rparr>) = su_life mtu o'"
  "su_life mtu (o'\<lparr>su_tree := t\<rparr>) = su_life mtu o'" "su_life mtu (o'\<lparr>su_connections_list := ps\<rparr>) = su_life mtu o'"
  "su_life mtu (o'\<lparr>su_num_connections := n\<rparr>) = su_life mtu o'"
  by (simp_all add: su_life_def)

lemma DisconnectServer_simps [simp]: "have_server (UdpGwClient_DisconnectServer g) = False"
  "ug_inv (UdpGwClient_DisconnectServer g) = ug_inv g" "ug_sized mtu (UdpGwClient_DisconnectServer g) = ug_sized mtu g"
  by (simp_all add: UdpGwClient_DisconnectServer_def)

text \<open>The life of the connection to the server.\<close>

lemma su_life_free_socks:
  assumes "su_life mtu o'" "have_socks o'"
  shows "su_life mtu ((free_socks o')\<lparr>reconnect_timer := True\<rparr>)" "su_tab m d ((free_socks o')\<lparr>reconnect_timer := True\<rparr>) = su_tab m d o'"
  using assms by (auto simp: su_life_def free_socks_def)

lemma su_life_timer:
  "su_life mtu o' \<Longrightarrow> reconnect_timer o' \<Longrightarrow> su_life mtu (reconnect_timer_handler ok o')"
  by (auto simp: su_life_def reconnect_timer_handler_def try_connect_def)

lemma su_tab_timer [simp]: "su_tab mtu dns (reconnect_timer_handler ok o') = su_tab mtu dns o'"
  by (simp add: reconnect_timer_handler_def try_connect_def su_tab_def)

lemma su_life_socks:
  assumes "su_life mtu o'" "have_socks o'" "ev = BSOCKSCLIENT_EVENT_UP \<longrightarrow> \<not> socks_up o'"
  shows "su_life mtu (socks_client_handler ok o' ev) \<and> su_tab m d (socks_client_handler ok o' ev) = su_tab m d o'"
proof (cases ev)
  case BSOCKSCLIENT_EVENT_UP
  then show ?thesis using assms
    by (cases ok) (auto simp: socks_client_handler_def UdpGwClient_ConnectServer_def su_life_def free_socks_def)
qed (use assms su_life_free_socks in \<open>simp_all add: socks_client_handler_def\<close>)

lemma su_after_udpgw_plain:
  assumes "UgServerError \<notin> set acts"
  shows "\<exists>acts'. su_after_udpgw o' (acts, g) = (acts', o'\<lparr>udpgw_client := g\<rparr>)"
proof -
  have "\<exists>a2. fold su_udpgw_act acts (a1, s) = (a2, s)" if "UgServerError \<notin> set acts" for acts a1 s
    using that
  proof (induction acts arbitrary: a1)
    case (Cons a acts)
    then show ?case by (cases a) auto
  qed simp
  then show ?thesis using assms by (simp add: su_after_udpgw_def)
qed

section \<open>The table of DNS connections\<close>

definition su_keys :: "SocksUdpGwClient \<Rightarrow> sock_addr option list" where
  "su_keys o' = tab_keys su_key (su_store o') (su_connections_list o')"

definition su_init_ok :: "nat option \<Rightarrow> bool \<times> bool \<times> bool \<times> bool \<Rightarrow> bool" where
  "su_init_ok mem oks \<longleftrightarrow> mem \<noteq> None \<and> oks = (True, True, True, True)"

text \<open>The specification: the local addresses in the order of their last successful use; a full table gives up its oldest
  entry before a new one is made. \<open>ok\<close>: a new entry can be made, \<open>ready\<close>: the writer has a free buffer.\<close>

definition dns_touch :: "int \<Rightarrow> bool \<Rightarrow> bool \<Rightarrow> 'k \<Rightarrow> 'k list \<Rightarrow> 'k list" where
  "dns_touch n ok ready k ks =
     (if k \<in> set ks then if ready then remove1 k ks @ [k] else ks
      else let ks1 = (if int (length ks) = n then tl ks else ks) in if ok then ks1 @ [k] else ks1)"

lemma length_su_keys [simp]: "length (su_keys o') = length (su_connections_list o')"
  by (simp add: su_keys_def tab_keys_def)

lemma su_tab_remove_lru:
  assumes t: "su_tab mtu dns o'" and full: "su_num_connections o' = su_max_connections o'" and j: "su_jobs o' = []"
  shows "su_tab mtu dns (remove_lru_connection o')" "su_keys (remove_lru_connection o') = tl (su_keys o')"
    "su_num_connections (remove_lru_connection o') < su_max_connections (remove_lru_connection o')"
    "\<And>p. su_store o' p = None \<Longrightarrow> su_store (remove_lru_connection o') p = None" "su_jobs (remove_lru_connection o') = []"
    "\<And>m. su_life m (remove_lru_connection o') = su_life m o'"
    "\<And>k. su_tree o' k = None \<Longrightarrow> su_tree (remove_lru_connection o') k = None"
proof -
  note D = su_tabD [OF t]
  obtain p ps where ps: "su_connections_list o' = p # ps" using D(2,4) full by (cases "su_connections_list o'") auto
  obtain con where con: "su_store o' p = Some con" using tab_okD(5) [OF D(1), of p] ps by auto
  have e: "remove_lru_connection o' = o'\<lparr>su_num_connections := su_num_connections o' - 1, su_connections_list := ps,
      su_tree := avl_remove (su_key con) (su_tree o'), su_store := (su_store o')(p := None)\<rparr>"
    using ps con by (simp add: remove_lru_connection_def su_connection_free_def Let_def)
  have "p \<notin> set ps" using tab_okD(1) [OF D(1)] ps by simp
  then show "su_keys (remove_lru_connection o') = tl (su_keys o')" by (simp add: e su_keys_def tab_keys_def ps)
  show "su_tab mtu dns (remove_lru_connection o')" unfolding su_tab_def e
    using D(2-8) ps j tab_ok_remove [OF D(1) con] by auto
  show "su_num_connections (remove_lru_connection o') < su_max_connections (remove_lru_connection o')"
    "su_jobs (remove_lru_connection o') = []" "\<And>m. su_life m (remove_lru_connection o') = su_life m o'"
    "\<And>p. su_store o' p = None \<Longrightarrow> su_store (remove_lru_connection o') p = None"
    "\<And>k. su_tree o' k = None \<Longrightarrow> su_tree (remove_lru_connection o') k = None"
    using full j by (simp_all add: e avl_remove_def)
qed

lemma su_tab_init:
  assumes t: "su_tab mtu dns o'" and room: "su_num_connections o' < su_max_connections o'"
    and k: "su_tree o' (baddr_abs (ca_local a)) = None" and mem: "\<And>p. mem = Some p \<Longrightarrow> su_store o' p = None"
    and ok: "addr_ok (ca_local a)" "int (length data) \<le> mtu"
  shows "su_tab mtu dns (snd (su_connection_init mem oks o' a data True)) \<and>
    su_keys (snd (su_connection_init mem oks o' a data True)) =
      (if su_init_ok mem oks then su_keys o' @ [baddr_abs (ca_local a)] else su_keys o') \<and>
    su_life m (snd (su_connection_init mem oks o' a data True)) = su_life m o' \<and>
    (su_init_ok mem oks \<longrightarrow> su_jobs (snd (su_connection_init mem oks o' a data True)) = the mem # su_jobs o' \<and>
      (\<exists>con. su_store (snd (su_connection_init mem oks o' a data True)) (the mem) = Some con \<and> su_conaddr con = a \<and> su_first_data con = data))"
proof (cases "su_init_ok mem oks")
  case True
  note D = su_tabD [OF t]
  obtain p where p: "mem = Some p" "oks = (True, True, True, True)" using True by (auto simp: su_init_ok_def)
  define con where "con = \<lparr>su_conaddr = a, su_first_data = data, is_dns = True, udp_send_addr = dnsgw o'\<rparr>"
  have e: "snd (su_connection_init mem oks o' a data True) = o'\<lparr>su_store := (su_store o')(p \<mapsto> con), su_jobs := p # su_jobs o',
      su_tree := avl_insert (su_key con) p (su_tree o'), su_connections_list := su_connections_list o' @ [p],
      su_num_connections := su_num_connections o' + 1\<rparr>"
    using p by (simp add: su_connection_init_def con_def Let_def)
  have kc: "su_key con = baddr_abs (ca_local a)" by (simp add: su_key_def con_def)
  have pn: "su_store o' p = None" using mem [OF p(1)] .
  have "p \<notin> set (su_connections_list o')" using tab_okD(2) [OF D(1)] pn by auto
  then have keys: "su_keys (snd (su_connection_init mem oks o' a data True)) = su_keys o' @ [baddr_abs (ca_local a)]"
    by (auto simp: e su_keys_def tab_keys_def kc)
  have c: "su_con_ok mtu dns con" using ok D(5) by (simp add: su_con_ok_def con_def)
  have k': "su_tree o' (su_key con) = None" using k kc by simp
  have "su_tab mtu dns (snd (su_connection_init mem oks o' a data True))" unfolding su_tab_def e
    using D(2-8) room c tab_ok_insert [of su_key, OF D(1) pn k'] by auto
  then show ?thesis using keys True unfolding e by (simp add: con_def p(1))
next
  case False
  have "snd (su_connection_init mem oks o' a data True) = o'"
    using False by (auto simp: su_connection_init_def su_init_ok_def Let_def split: option.splits prod.splits)
  then show ?thesis using t False by simp
qed

text \<open>A DNS packet on a known and on a new local address.\<close>

lemma su_submit_known:
  fixes l rm :: BAddr
  assumes t: "su_tab mtu dns o'" and ok: "addr_ok l" and p: "su_tree o' (baddr_abs l) = Some p"
  defines "a \<equiv> \<lparr>ca_local = l, ca_remote = rm\<rparr>"
  shows "\<exists>o1 con. SocksUdpGwClient_SubmitPacket mem oks flow_ok ready o' l rm True data = Some (if ready then [SuSend p data] else [], o1) \<and>
    su_tab mtu dns o1 \<and> su_keys o1 = (if ready then remove1 (baddr_abs l) (su_keys o') @ [baddr_abs l] else su_keys o') \<and>
    su_life m o1 = su_life m o' \<and> su_store o1 p = Some con \<and> su_conaddr con = a"
proof -
  note D = su_tabD [OF t]
  obtain c where c: "su_store o' p = Some c" "su_key c = baddr_abs l" using tab_okD(4) [OF D(1) p] by blast
  define con where "con = c\<lparr>su_conaddr := a, is_dns := True\<rparr>"
  define o2 where "o2 = o'\<lparr>su_store := (su_store o')(p \<mapsto> con)\<rparr>"
  have kc: "su_key con = su_key c" using c(2) by (simp add: su_key_def con_def a_def)
  have tab2: "tab_ok su_key (su_store o2) (su_tree o2) (su_connections_list o2)"
    using tab_ok_update [OF D(1) c(1) kc] by (simp add: o2_def)
  have st: "su_store o2 p = Some con" by (simp add: o2_def)
  have co: "su_con_ok mtu dns con" using D(8) [OF c(1)] ok by (simp add: su_con_ok_def con_def a_def)
  have t2: "su_tab mtu dns o2" using tab2 D(2-8) c(1) co unfolding su_tab_def by (auto simp: o2_def)
  have k2: "su_keys o2 = su_keys o'" using kc c(1) by (simp add: su_keys_def tab_keys_def o2_def)
  have t3: "su_tab mtu dns (su_move_to_end p o2)" using t2 tab_ok_move [OF tab2 st] unfolding su_tab_def
    by (simp add: su_move_to_end_def)
  have k3: "su_keys (su_move_to_end p o2) = remove1 (baddr_abs l) (su_keys o') @ [baddr_abs l]"
    using tab_keys_move [OF tab2 st] k2 kc c(2) by (simp add: su_keys_def su_move_to_end_def)
  have f: "find_connection o' a True = Some p" using p by (simp add: find_connection_def a_def)
  have "reset_connection o' p a True = o2" using c(1) by (simp add: reset_connection_def o2_def con_def)
  moreover have "su_connection_send ready o2 p data = (if ready then ([SuSend p data], 0) else ([], 1))"
    by (simp add: su_connection_send_def su_message_def st con_def)
  ultimately have "SocksUdpGwClient_SubmitPacket mem oks flow_ok ready o' l rm True data =
      Some (if ready then [SuSend p data] else [], if ready then su_move_to_end p o2 else o2)"
    unfolding SocksUdpGwClient_SubmitPacket_def Let_def a_def [symmetric] f by simp
  then show ?thesis using t2 t3 k2 k3 st
    by (cases ready) (auto simp: o2_def con_def su_move_to_end_def)
qed

lemma su_submit_new:
  fixes l rm :: BAddr
  assumes t: "su_tab mtu dns o'" and ok: "su_event_ok o' (SSubmit mem oks flow_ok ready l rm True data)"
    and p: "su_tree o' (baddr_abs l) = None"
  defines "a \<equiv> \<lparr>ca_local = l, ca_remote = rm\<rparr>"
  shows "\<exists>o1. SocksUdpGwClient_SubmitPacket mem oks flow_ok ready o' l rm True data = Some ([], o1) \<and> su_tab mtu dns o1 \<and>
    su_keys o1 = (let ks = (if su_num_connections o' = su_max_connections o' then tl (su_keys o') else su_keys o')
      in if su_init_ok mem oks then ks @ [baddr_abs l] else ks) \<and> su_life m o1 = su_life m o' \<and>
    (su_init_ok mem oks \<longrightarrow> su_jobs o1 = [the mem] \<and>
      (\<exists>con. su_store o1 (the mem) = Some con \<and> su_conaddr con = a \<and> su_first_data con = data))"
proof -
  note D = su_tabD [OF t]
  have okE: "su_jobs o' = []" "\<And>p. mem = Some p \<Longrightarrow> su_store o' p = None" "addr_ok (ca_local a)" "int (length data) \<le> mtu"
    using ok D(6) by (auto simp: a_def)
  define o2 where "o2 = (if su_num_connections o' = su_max_connections o' then remove_lru_connection o' else o')"
  have r: "su_tab mtu dns o2" "su_keys o2 = (if su_num_connections o' = su_max_connections o' then tl (su_keys o') else su_keys o')"
    "su_num_connections o2 < su_max_connections o2" "\<And>p. mem = Some p \<Longrightarrow> su_store o2 p = None" "su_jobs o2 = []"
    "su_life m o2 = su_life m o'" "su_tree o2 (baddr_abs (ca_local a)) = None"
    using su_tab_remove_lru [OF t _ okE(1)] t okE(1,2) D(3) p by (auto simp: o2_def a_def)
  have e: "SocksUdpGwClient_SubmitPacket mem oks flow_ok ready o' l rm True data = Some ([], snd (su_connection_init mem oks o2 a data True))"
    using p by (simp add: SocksUdpGwClient_SubmitPacket_def find_connection_def Let_def a_def o2_def)
  have ca: "ca_local a = l" by (simp add: a_def)
  show ?thesis unfolding e using su_tab_init [of mtu dns o2 a mem data oks m, OF r(1,3,7,4) okE(3,4)] r(2,5,6) ca by (auto simp: Let_def)
qed

lemma connection_init_server: "connection_init mem f g a fg data = Some g' \<Longrightarrow> ug_inv g \<Longrightarrow> num_connections g < max_connections g \<Longrightarrow>
    have_server g' = have_server g"
  using find_unused_conid_returns [of g]
  by (auto simp: connection_init_def Let_def split: option.splits if_splits)

lemma submit_quiet:
  assumes "UdpGwClient_SubmitPacket mem f r g l rm d data = Some (acts, g')" "ug_inv g"
  shows "UgServerError \<notin> set acts \<and> have_server g' = have_server g"
proof (cases "find_connection_by_conaddr g \<lparr>ca_local = l, ca_remote = rm\<rparr> = None \<and> num_connections g \<noteq> max_connections g")
  case True
  then show ?thesis using assms ug_invD(3) [OF assms(2)] connection_init_server [of mem f g _ _ data]
    by (auto simp: UdpGwClient_SubmitPacket_def Let_def split: if_splits)
next
  case False
  then show ?thesis using assms(1)
    by (auto simp: UdpGwClient_SubmitPacket_def Let_def reuse_connection_def move_to_end_def ug_connection_send_def split: if_splits)
qed

lemma ug_step_quiet:
  assumes s: "ug_step g e = Some (acts, g')" and ok: "ug_event_ok g e" and i: "ug_inv g" "ug_sized mtu g"
    and e: "udpgw_own_event e \<or> (\<exists>mem f r l rm d data. e = USubmit mem f r l rm d data)" and n: "e \<noteq> UDecoderError"
  shows "UgServerError \<notin> set acts \<and> have_server g' = have_server g"
proof (cases e)
  case (USubmit mem f r l rm d data)
  then show ?thesis using submit_quiet s i(1) by auto
next
  case (UReceive data)
  then show ?thesis using ug_recv_cases [of g data] s by (auto simp: move_to_end_def)
qed (use s e n in \<open>auto simp: ug_first_job_handler_def ug_connection_send_def Let_def ug_send_monitor_handler_def keepalive_if_handler_done_def
    split: if_splits\<close>)

text \<open>Whatever the udpgw client reports, its life and the connection to the server stay in step.\<close>

lemma su_udpgw_step:
  assumes life: "su_life mtu o'" and e: "udpgw_own_event e \<or> (\<exists>mem f r l rm d data. e = USubmit mem f r l rm d data)"
    and ok: "ug_event_ok (udpgw_client o') e"
  shows "\<exists>acts o1. map_option (su_after_udpgw o') (ug_step (udpgw_client o') e) = Some (acts, o1) \<and> su_life mtu o1 \<and>
    (\<forall>m d. su_tab m d o1 = su_tab m d o') \<and> su_keys o1 = su_keys o'"
proof -
  let ?g = "udpgw_client o'"
  have i: "ug_inv ?g" "ug_sized mtu ?g" using life by (auto simp: su_life_def)
  obtain acts g where s: "ug_step ?g e = Some (acts, g)" "ug_inv g" "ug_sized mtu g" using ug_step_inv [OF i ok] by blast
  show ?thesis
  proof (cases "e = UDecoderError")
    case True
    then have "acts = [UgServerError]" "g = ?g" "have_socks o'" using s(1) ok life by (auto simp: decoder_handler_error_def su_life_def)
    then have "su_after_udpgw o' (acts, g) = ([], (free_socks o')\<lparr>reconnect_timer := True\<rparr>)"
      by (simp add: su_after_udpgw_def udpgw_handler_servererror_def)
    then show ?thesis using s(1) su_life_free_socks [OF life \<open>have_socks o'\<close>]
      by (simp add: su_keys_def free_socks_def)
  next
    case False
    have "UgServerError \<notin> set acts \<and> have_server g = have_server ?g" using ug_step_quiet [OF s(1) ok i e False] .
    then show ?thesis using su_after_udpgw_plain [of acts o' g] s life by (auto simp: su_life_def su_keys_def)
  qed
qed

section \<open>Reachable clients\<close>

lemma dgram_dns:
  assumes "su_tab mtu dns o'" "su_store o' p = Some con"
  shows "dgram_handler_received o' p data =
    (if int (length data) > mtu then [] else [SuReceived (ca_local (su_conaddr con)) (ca_remote (su_conaddr con)) data], o')"
  using su_tabD(6,8) [OF assms(1)] assms(2) by (simp add: dgram_handler_received_def Let_def su_con_ok_def)

lemma su_submit_step:
  assumes t: "su_tab mtu dns o'" and life: "su_life mtu o'" and ok: "su_event_ok o' (SSubmit mem oks flow_ok ready l rm d data)"
  shows "\<exists>acts o1. SocksUdpGwClient_SubmitPacket mem oks flow_ok ready o' l rm d data = Some (acts, o1) \<and> su_tab mtu dns o1 \<and> su_life mtu o1"
proof (cases d)
  case True
  show ?thesis
  proof (cases "su_tree o' (baddr_abs l)")
    case None
    then show ?thesis using su_submit_new [OF t _ None, of mem oks flow_ok ready rm data mtu] ok life True by auto
  next
    case (Some p)
    have "addr_ok l" using ok by simp
    from su_submit_known [OF t this Some, of mem oks flow_ok ready rm data mtu] show ?thesis using life True by auto
  qed
next
  case False
  have "ug_event_ok (udpgw_client o') (USubmit mem flow_ok ready l rm d data)"
    using ok su_tabD(6) [OF t] life ug_sizedD(2) by (auto simp: su_life_def split: option.splits)
  from su_udpgw_step [OF life _ this] show ?thesis using t False by (fastforce simp: SocksUdpGwClient_SubmitPacket_def)
qed

lemma su_step_inv:
  assumes t: "su_tab mtu dns o'" and life: "su_life mtu o'" and ok: "su_event_ok o' e"
  shows "\<exists>acts o1. su_step o' e = Some (acts, o1) \<and> su_tab mtu dns o1 \<and> su_life mtu o1"
proof (cases e)
  case (SSubmit mem oks flow_ok ready l rm d data)
  then show ?thesis using su_submit_step [OF t life] ok by simp
next
  case (SFirst ready p)
  have "su_tab mtu dns (o'\<lparr>su_jobs := remove1 p (su_jobs o')\<rparr>)"
    using t set_remove1_subset [of p "su_jobs o'"] by (auto simp: su_tab_def)
  then show ?thesis using SFirst life by (simp add: su_first_job_handler_def)
next
  case (SDgram p data)
  then obtain con where "su_store o' p = Some con" using ok by auto
  then show ?thesis using SDgram dgram_dns [OF t] t life by simp
next
  case (STimer b)
  then show ?thesis using su_life_timer [OF life] ok t by simp
next
  case (SSocks b ev)
  then show ?thesis using su_life_socks [OF life, of ev b mtu dns] ok t by simp
next
  case (SUdpgw e')
  then show ?thesis using su_udpgw_step [OF life, of e'] ok t by fastforce
qed

lemma su_reach_inv:
  assumes "su_reach mtu max_con server dns o'" "0 < max_con"
  shows "su_tab mtu dns o' \<and> su_life mtu o'"
  using assms
proof induction
  case (su_reach_init ok o')
  obtain g where g: "UdpGwClient_Init mtu max_con True = Some g" by (simp add: UdpGwClient_Init_def Let_def)
  have "have_server g = False" using g by (auto simp: UdpGwClient_Init_def Let_def)
  then show ?case using su_reach_init UdpGwClient_Init_inv [OF g] g
    by (cases ok) (simp_all add: SocksUdpGwClient_Init_def try_connect_def su_tab_def su_life_def tab_ok_def, force+)
next
  case (su_reach_step o' e acts o1)
  then show ?case using su_step_inv [of mtu dns o' e] by auto
qed

lemma su_after_udpgw_no_send:
  assumes "su_after_udpgw o' r = (acts, o1)"
  shows "SuSend p d \<notin> set acts"
proof -
  have "SuSend p d \<notin> set (fst (fold su_udpgw_act us (as, s)))" if "SuSend p d \<notin> set as" for us as s
    using that
  proof (induction us arbitrary: as s)
    case (Cons u us)
    then show ?case by (cases u) (auto simp: udpgw_handler_received_def)
  qed simp
  from this [of "[]" "fst r" "o'\<lparr>udpgw_client := snd r\<rparr>"] show ?thesis using assms by (cases r) (simp add: su_after_udpgw_def)
qed

lemma su_sent:
  assumes t: "su_tab mtu dns o'" and life: "su_life mtu o'" and ok: "su_event_ok o' e" and step: "su_step o' e = Some (acts, o1)"
    and m: "SuSend p d \<in> set acts"
  shows "\<exists>con. su_store o1 p = Some con \<and> is_dns con \<and> udp_send_addr con = dns \<and> int (length d) \<le> mtu"
proof -
  have t1: "su_tab mtu dns o1" using su_step_inv [OF t life ok] step by simp
  have "su_store o1 p \<noteq> None \<and> int (length d) \<le> mtu"
  proof (cases e)
    case (SSubmit mem oks flow_ok ready l rm q data)
    show ?thesis
    proof (cases q)
      case True
      show ?thesis
      proof (cases "su_tree o' (baddr_abs l)")
        case None
        then show ?thesis using su_submit_new [OF t _ None, of mem oks flow_ok ready rm data mtu] ok step m SSubmit True by auto
      next
        case (Some p')
        then show ?thesis using su_submit_known [OF t _ Some, of mem oks flow_ok ready rm data mtu] ok step m SSubmit True su_tabD(6) [OF t]
          by (auto split: if_splits)
      qed
    next
      case False
      then show ?thesis using step m SSubmit by (auto simp: SocksUdpGwClient_SubmitPacket_def dest: su_after_udpgw_no_send)
    qed
  next
    case (SFirst ready p')
    then obtain con where "su_store o' p' = Some con" using ok su_tabD(7) [OF t] by auto
    then show ?thesis using SFirst step m su_tabD(8) [OF t]
      by (auto simp: su_first_job_handler_def su_connection_send_def su_message_def su_con_ok_def split: if_splits)
  next
    case (SDgram p' data)
    then show ?thesis using ok step m dgram_dns [OF t, of p' _ data] by (auto split: if_splits)
  next
    case (SUdpgw e')
    then show ?thesis using step m by (auto dest: su_after_udpgw_no_send)
  qed (use step m in auto)
  then show ?thesis using su_tabD(8) [OF t1, of p] by (auto simp: su_con_ok_def)
qed

section \<open>A small client\<close>

definition su_test0 :: SocksUdpGwClient where
  "su_test0 = \<lparr>su_udp_mtu = 100, socks_server_addr = socks_test_addr, dnsgw = socks_test_addr, su_udpgw_mtu = udpgw_compute_mtu 100,
     su_num_connections = 0, su_max_connections = 1, su_tree = Map.empty, su_connections_list = [], su_store = Map.empty, su_jobs = [],
     udpgw_client = ug_test0, reconnect_timer = False, have_socks = True, socks_up = False\<rparr>"

lemma su_test0_reach: "su_reach 100 1 socks_test_addr socks_test_addr su_test0"
proof (rule su_reach_init)
  have "UdpGwClient_Init 100 1 True = Some ug_test0" by (simp add: UdpGwClient_Init_def ug_test0_def Let_def)
  then show "SocksUdpGwClient_Init 0 100 1 socks_test_addr socks_test_addr True True = Some su_test0"
    by (simp add: SocksUdpGwClient_Init_def try_connect_def su_test0_def)
qed

section \<open>Properties\<close>

text \<open>
  C26. In every reachable state either a SOCKS client exists or the reconnect timer runs, so that a lost server is
  always tried again and never twice at once; the udpgw client is attached to a server exactly while the SOCKS
  connection is up, so that it is attached and detached only when the code may do so; its connection
  table is well formed, and so is that of the DNS sockets; and every allowed event has a result.
\<close>

theorem udpgw_server_life_cycle:
  assumes "su_reach mtu max_con server dns o'" "0 < max_con"
  shows "(have_socks o' \<longleftrightarrow> \<not> reconnect_timer o') \<and> (have_server (udpgw_client o') \<longleftrightarrow> have_socks o' \<and> socks_up o') \<and>
    ug_inv (udpgw_client o') \<and> su_tab mtu dns o' \<and> (su_event_ok o' e \<longrightarrow> su_step o' e \<noteq> None)"
  using su_reach_inv [OF assms] su_step_inv [of mtu dns o' e] by (auto simp: su_life_def)

theorem udpgw_server_life_cycle_witness:
  "have_socks su_test0 \<and> \<not> reconnect_timer su_test0 \<and> ug_inv (udpgw_client su_test0) \<and>
    su_step su_test0 (SSocks True BSOCKSCLIENT_EVENT_UP) \<noteq> None"
  using udpgw_server_life_cycle [OF su_test0_reach, of "SSocks True BSOCKSCLIENT_EVENT_UP"] by (simp add: su_test0_def)

text \<open>
  DNS packets use one socket for each local address, in a bounded table in the order of the last successful use: a
  packet of a known address is sent, as it is, on its socket, unless the writer is full; a packet of a
  new address gets a new socket, for which a full table gives up the socket used least recently.
\<close>

theorem dns_sockets_least_recently_used:
  assumes "su_reach mtu max_con server dns o'" "0 < max_con" "su_event_ok o' (SSubmit mem oks flow_ok ready l rm True data)"
  shows "\<exists>acts o1. SocksUdpGwClient_SubmitPacket mem oks flow_ok ready o' l rm True data = Some (acts, o1) \<and>
    su_keys o1 = dns_touch (su_max_connections o') (su_init_ok mem oks) ready (baddr_abs l) (su_keys o') \<and>
    (baddr_abs l \<in> set (su_keys o') \<longrightarrow> (\<exists>p con. acts = (if ready then [SuSend p data] else []) \<and> su_store o1 p = Some con \<and>
      su_conaddr con = \<lparr>ca_local = l, ca_remote = rm\<rparr>)) \<and>
    (baddr_abs l \<notin> set (su_keys o') \<and> su_init_ok mem oks \<longrightarrow> (\<exists>p con. acts = [] \<and> su_jobs o1 = [p] \<and> su_store o1 p = Some con \<and>
      su_conaddr con = \<lparr>ca_local = l, ca_remote = rm\<rparr> \<and> su_first_data con = data))"
proof -
  have t: "su_tab mtu dns o'" using su_reach_inv [OF assms(1,2)] by simp
  have k: "baddr_abs l \<in> set (su_keys o') \<longleftrightarrow> su_tree o' (baddr_abs l) \<noteq> None"
    unfolding su_keys_def by (rule tab_keys_tree [OF su_tabD(1) [OF t]])
  show ?thesis
  proof (cases "su_tree o' (baddr_abs l)")
    case None
    from su_submit_new [OF t assms(3) None, of mtu] show ?thesis using None k su_tabD(2) [OF t] by (auto simp: dns_touch_def)
  next
    case (Some p)
    from su_submit_known [OF t _ Some, of mem oks flow_ok ready rm data mtu] show ?thesis using Some k assms(3)
      by (cases ready) (fastforce simp: dns_touch_def)+
  qed
qed

theorem dns_sockets_least_recently_used_witness:
  "\<exists>acts o1. SocksUdpGwClient_SubmitPacket (Some 5) (True, True, True, True) True True su_test0 socks_test_addr socks_test_addr True [1, 2] =
      Some (acts, o1) \<and> su_keys o1 = [baddr_abs socks_test_addr] \<and> su_jobs o1 = [5]"
proof -
  have e: "su_event_ok su_test0 (SSubmit (Some 5) (True, True, True, True) True True socks_test_addr socks_test_addr True [1, 2])"
    "su_keys su_test0 = []" "su_max_connections su_test0 = 1"
    using socks_test_addr_ok by (simp_all add: su_test0_def su_keys_def tab_keys_def ug_test0_def)
  obtain acts o1 p where w: "SocksUdpGwClient_SubmitPacket (Some 5) (True, True, True, True) True True su_test0 socks_test_addr socks_test_addr True [1, 2] =
      Some (acts, o1)" "su_keys o1 = [baddr_abs socks_test_addr]" "su_jobs o1 = [p]"
    using dns_sockets_least_recently_used [OF su_test0_reach _ e(1)] e(2,3) by (auto simp: dns_touch_def su_init_ok_def)
  have "su_jobs (snd (the (SocksUdpGwClient_SubmitPacket (Some 5) (True, True, True, True) True True su_test0 socks_test_addr socks_test_addr True [1, 2]))) = [5]"
    by (simp add: SocksUdpGwClient_SubmitPacket_def find_connection_def su_connection_init_def su_test0_def Let_def)
  then show ?thesis using w by simp
qed

text \<open>
  Every datagram that a client sends goes to the DNS gateway, from a connection that is in use, and is no longer than the
  buffer it is written to; no SOCKS header is put in front of it, although the code has a branch that
  does so and would overrun the buffer. A datagram that arrives on a socket is passed to the local address of this
  socket unchanged, unless it is too long.
\<close>

theorem dns_datagrams_safe:
  assumes "su_reach mtu max_con server dns o'" "0 < max_con"
  shows "(su_event_ok o' e \<and> su_step o' e = Some (acts, o1) \<and> SuSend p d \<in> set acts \<longrightarrow>
      (\<exists>con. su_store o1 p = Some con \<and> is_dns con \<and> udp_send_addr con = dns \<and> int (length d) \<le> mtu)) \<and>
    (su_store o' q = Some con \<longrightarrow> dgram_handler_received o' q data =
      (if int (length data) > mtu then [] else [SuReceived (ca_local (su_conaddr con)) (ca_remote (su_conaddr con)) data], o'))"
  using su_reach_inv [OF assms] su_sent [of mtu dns o' e acts o1 p d] dgram_dns [of mtu dns o' q con data] by blast

theorem dns_datagrams_safe_witness:
  "\<exists>o1 o2 con. su_step su_test0 (SSubmit (Some 5) (True, True, True, True) True True socks_test_addr socks_test_addr True [1, 2]) = Some ([], o1) \<and>
    su_step o1 (SFirst True 5) = Some ([SuSend 5 [1, 2]], o2) \<and> su_store o2 5 = Some con \<and> udp_send_addr con = socks_test_addr"
proof -
  let ?e = "SSubmit (Some 5) (True, True, True, True) True True socks_test_addr socks_test_addr True [1, 2]"
  define o1 where "o1 = snd (the (su_step su_test0 ?e))"
  have s1: "su_step su_test0 ?e = Some ([], o1)" "5 \<in> set (su_jobs o1)" "\<exists>o2. su_step o1 (SFirst True 5) = Some ([SuSend 5 [1, 2]], o2)"
    by (simp_all add: o1_def SocksUdpGwClient_SubmitPacket_def find_connection_def su_connection_init_def su_test0_def Let_def
      su_first_job_handler_def su_connection_send_def su_message_def)
  have ok: "su_event_ok su_test0 ?e" using socks_test_addr_ok by (simp add: su_test0_def ug_test0_def)
  obtain o2 where s2: "su_step o1 (SFirst True 5) = Some ([SuSend 5 [1, 2]], o2)" using s1(3) by blast
  have "\<exists>con. su_store o2 5 = Some con \<and> udp_send_addr con = socks_test_addr"
    using conjunct1 [OF dns_datagrams_safe [OF su_reach_step [OF su_test0_reach ok s1(1)], of "SFirst True 5" "[SuSend 5 [1, 2]]" o2 5 "[1, 2]"]]
      s1(2) s2 by auto
  then show ?thesis using s1(1) s2 by auto
qed

end
