(* ===== verification/Fragment.thy ===== *)
theory Fragment
  imports Mtu
begin

text \<open>
  OpenVPN's datagram fragmentation (\<open>fragment.c\<close>, \<open>fragment.h\<close>): a datagram that is larger than a fragment may be is cut
  into up to 32 numbered parts, and the receiver joins the parts of a datagram, whose order it does not rely on, in one of
  25 buffers of a sliding window over the 256 sequence numbers.

  Buffers are those of \<open>Ovpn_Buffer\<close>. The datagram that \<open>fragment_incoming\<close> returns and the part that
  \<open>fragment_ready_to_send\<close> returns share the memory of a buffer of the component; here they are copies, which the
  properties justify: what is joined next does not depend on the old bytes of the buffer. An assertion that
  fails is \<^term>\<open>None\<close>. The event timer that calls \<open>fragment_wakeup\<close> is not modelled.
\<close>

section \<open>State\<close>

definition N_FRAG_BUF :: int where "N_FRAG_BUF = 25"
definition FRAG_TTL_SEC :: int where "FRAG_TTL_SEC = 10"
definition FRAG_MAP_MASK :: u32 where "FRAG_MAP_MASK = 0xFFFFFFFF"
definition MAX_FRAGS :: int where "MAX_FRAGS = 32"
definition N_SEQ_ID :: int where "N_SEQ_ID = 256"

definition FRAG_TYPE_MASK :: u32 where "FRAG_TYPE_MASK = 0x00000003"
definition FRAG_TYPE_SHIFT :: nat where "FRAG_TYPE_SHIFT = 0"
definition FRAG_WHOLE :: u32 where "FRAG_WHOLE = 0"
definition FRAG_YES_NOTLAST :: u32 where "FRAG_YES_NOTLAST = 1"
definition FRAG_YES_LAST :: u32 where "FRAG_YES_LAST = 2"
definition FRAG_TEST :: u32 where "FRAG_TEST = 3"
definition FRAG_SEQ_ID_MASK :: u32 where "FRAG_SEQ_ID_MASK = 0x000000ff"
definition FRAG_SEQ_ID_SHIFT :: nat where "FRAG_SEQ_ID_SHIFT = 2"
definition FRAG_ID_MASK :: u32 where "FRAG_ID_MASK = 0x0000001f"
definition FRAG_ID_SHIFT :: nat where "FRAG_ID_SHIFT = 10"
definition FRAG_SIZE_MASK :: u32 where "FRAG_SIZE_MASK = 0x00003fff"
definition FRAG_SIZE_SHIFT :: nat where "FRAG_SIZE_SHIFT = 15"
definition FRAG_SIZE_ROUND_SHIFT :: nat where "FRAG_SIZE_ROUND_SHIFT = 2"
definition FRAG_SIZE_ROUND_MASK :: int where "FRAG_SIZE_ROUND_MASK = push_bit FRAG_SIZE_ROUND_SHIFT 1 - 1"

lemmas frag_consts = N_FRAG_BUF_def FRAG_TTL_SEC_def FRAG_MAP_MASK_def MAX_FRAGS_def N_SEQ_ID_def FRAG_TYPE_MASK_def
  FRAG_TYPE_SHIFT_def FRAG_WHOLE_def FRAG_YES_NOTLAST_def FRAG_YES_LAST_def FRAG_TEST_def FRAG_SEQ_ID_MASK_def
  FRAG_SEQ_ID_SHIFT_def FRAG_ID_MASK_def FRAG_ID_SHIFT_def FRAG_SIZE_MASK_def FRAG_SIZE_SHIFT_def
  FRAG_SIZE_ROUND_SHIFT_def FRAG_SIZE_ROUND_MASK_def

record fragment =
  fr_defined :: bool
  max_frag_size :: int
  fr_map :: u32
  fr_timestamp :: int
  fr_buf :: buffer

record fragment_list =
  fl_seq_id :: int
  fl_index :: int
  fragments :: "fragment list"

record fragment_master =
  outgoing_seq_id :: int
  outgoing_frag_size :: int
  outgoing_frag_id :: int
  outgoing :: buffer
  outgoing_return :: buffer
  incoming :: fragment_list

datatype frag_error =
    FLAGS_NOT_FOUND | SPURIOUS_WHOLE | BAD_FRAGMENT_SIZE | FRAGMENT_OVERFLOW | TEST_NOT_IMPLEMENTED
  | UNKNOWN_TYPE | TOO_MANY_FRAGMENTS

section \<open>Setting up\<close>

definition fragment_list_buf_init :: "fragment_list \<Rightarrow> frame \<Rightarrow> fragment_list option" where
  "fragment_list_buf_init l fr =
     (case alloc_buf (nat (BUF_SIZE fr)) of
        None \<Rightarrow> None | Some b \<Rightarrow> Some (l\<lparr>fragments := map (\<lambda>x. x\<lparr>fr_buf := b\<rparr>) (fragments l)\<rparr>))"

text \<open>\<open>rnd\<close>: the random number; the structure starts cleared.\<close>

definition fragment_init :: "u32 \<Rightarrow> fragment_master" where
  "fragment_init rnd =
     \<lparr>outgoing_seq_id = sint rnd AND (N_SEQ_ID - 1), outgoing_frag_size = 0, outgoing_frag_id = 0, outgoing = clear_buf,
      outgoing_return = clear_buf,
      incoming = \<lparr>fl_seq_id = 0, fl_index = 0, fragments = replicate (nat N_FRAG_BUF)
        \<lparr>fr_defined = False, max_frag_size = 0, fr_map = 0, fr_timestamp = 0, fr_buf = clear_buf\<rparr>\<rparr>\<rparr>"

definition fragment_frame_init :: "fragment_master \<Rightarrow> frame \<Rightarrow> fragment_master option" where
  "fragment_frame_init f fr =
     (case fragment_list_buf_init (incoming f) fr of
        None \<Rightarrow> None
      | Some l \<Rightarrow>
          (case alloc_buf (nat (BUF_SIZE fr)) of
             None \<Rightarrow> None
           | Some b \<Rightarrow> Some (f\<lparr>incoming := l, outgoing := b, outgoing_return := b\<rparr>)))"

section \<open>Incoming fragments\<close>

definition undefine :: "nat \<Rightarrow> fragment list \<Rightarrow> fragment list" where
  "undefine i xs = xs[i := (xs ! i)\<lparr>fr_defined := False\<rparr>]"

text \<open>The loop that moves the window on.\<close>

primrec get_buf_loop :: "nat \<Rightarrow> fragment_list \<Rightarrow> fragment_list option" where
  "get_buf_loop 0 l = Some l"
| "get_buf_loop (Suc d) l =
     (case modulo_add (fl_index l) 1 N_FRAG_BUF of
        None \<Rightarrow> None
      | Some i \<Rightarrow>
          (case modulo_add (fl_seq_id l) 1 N_SEQ_ID of
             None \<Rightarrow> None
           | Some s \<Rightarrow> get_buf_loop d (l\<lparr>fragments := undefine (nat i) (fragments l), fl_index := i, fl_seq_id := s\<rparr>)))"

text \<open>The buffer of a sequence number, as an index.\<close>

definition fragment_list_get_buf :: "fragment_list \<Rightarrow> int \<Rightarrow> (nat \<times> fragment_list) option" where
  "fragment_list_get_buf l seq =
     (case modulo_subtract seq (fl_seq_id l) N_SEQ_ID of
        None \<Rightarrow> None
      | Some d \<Rightarrow>
          (let (diff, l1) = (if \<bar>d\<bar> \<ge> N_FRAG_BUF
                             then (0, l\<lparr>fragments := map (\<lambda>x. x\<lparr>fr_defined := False\<rparr>) (fragments l), fl_index := 0, fl_seq_id := seq\<rparr>)
                             else (d, l))
           in case get_buf_loop (nat diff) l1 of
                None \<Rightarrow> None
              | Some l2 \<Rightarrow> map_option (\<lambda>i. (nat i, l2)) (modulo_add (fl_index l2) (if diff > 0 then 0 else diff) N_FRAG_BUF)))"

text \<open>A fragment with its header read: \<open>seq\<close>, \<open>n\<close> and \<open>size\<close> from the header, \<open>buf\<close> its payload.\<close>

definition fragment_join ::
    "fragment_master \<Rightarrow> buffer \<Rightarrow> frame \<Rightarrow> int \<Rightarrow> bool \<Rightarrow> int \<Rightarrow> int \<Rightarrow> int \<Rightarrow> (frag_error option \<times> buffer \<times> fragment_master) option" where
  "fragment_join f buf fr now is_last seq n sz =
     (case fragment_list_get_buf (incoming f) seq of
        None \<Rightarrow> None
      | Some (i, l) \<Rightarrow>
          (let put = (\<lambda>x. f\<lparr>incoming := l\<lparr>fragments := (fragments l)[i := x]\<rparr>\<rparr>); frag = fragments l ! i
           in if sz AND FRAG_SIZE_ROUND_MASK \<noteq> 0 then Some (Some BAD_FRAGMENT_SIZE, buf\<lparr>b_len := 0\<rparr>, f\<lparr>incoming := l\<rparr>)
              else case (if \<not> fr_defined frag \<or> max_frag_size frag \<noteq> sz
                         then map_option (\<lambda>b. frag\<lparr>fr_defined := True, max_frag_size := sz, fr_map := 0, fr_buf := b\<rparr>)
                                (buf_init (fr_buf frag) (headroom fr))
                         else Some frag) of
                     None \<Rightarrow> None
                   | Some frag1 \<Rightarrow>
                       (case buf_copy_range (fr_buf frag1) (n * sz) buf 0 (b_len buf) of
                          None \<Rightarrow> Some (Some FRAGMENT_OVERFLOW, buf\<lparr>b_len := 0\<rparr>, put frag1)
                        | Some b \<Rightarrow>
                            (let frag2 = frag1\<lparr>fr_buf := b, fr_timestamp := now,
                                   fr_map := fr_map frag1 OR push_bit (nat n) (if is_last then FRAG_MAP_MASK else 1)\<rparr>
                             in if fr_map frag2 AND FRAG_MAP_MASK = FRAG_MAP_MASK
                                then Some (None, b, put (frag2\<lparr>fr_defined := False\<rparr>))
                                else Some (None, buf\<lparr>b_len := 0\<rparr>, put frag2)))))"

definition fragment_incoming :: "fragment_master \<Rightarrow> buffer \<Rightarrow> frame \<Rightarrow> int \<Rightarrow> (frag_error option \<times> buffer \<times> fragment_master) option" where
  "fragment_incoming f buf fr now =
     (if b_len buf > 0
      then case buf_read buf 4 of
             (None, buf1) \<Rightarrow> Some (Some FLAGS_NOT_FOUND, buf1\<lparr>b_len := 0\<rparr>, f)
           | (Some xs, buf1) \<Rightarrow>
               (let flags = of_be32 xs;
                    frag_type = drop_bit FRAG_TYPE_SHIFT flags AND FRAG_TYPE_MASK
                in if frag_type = FRAG_WHOLE
                   then if flags AND (FRAG_SEQ_ID_MASK OR FRAG_ID_MASK) \<noteq> 0
                        then Some (Some SPURIOUS_WHOLE, buf1\<lparr>b_len := 0\<rparr>, f) else Some (None, buf1, f)
                   else if frag_type = FRAG_YES_NOTLAST \<or> frag_type = FRAG_YES_LAST
                   then let seq = uint (drop_bit FRAG_SEQ_ID_SHIFT flags AND FRAG_SEQ_ID_MASK);
                            n = uint (drop_bit FRAG_ID_SHIFT flags AND FRAG_ID_MASK);
                            sz = (if frag_type = FRAG_YES_LAST
                                  then sint (push_bit FRAG_SIZE_ROUND_SHIFT (drop_bit FRAG_SIZE_SHIFT flags AND FRAG_SIZE_MASK))
                                  else b_len buf1)
                        in fragment_join f buf1 fr now (frag_type = FRAG_YES_LAST) seq n sz
                   else if frag_type = FRAG_TEST then Some (Some TEST_NOT_IMPLEMENTED, buf1\<lparr>b_len := 0\<rparr>, f)
                   else Some (Some UNKNOWN_TYPE, buf1\<lparr>b_len := 0\<rparr>, f))
      else Some (None, buf, f))"

section \<open>Outgoing fragments\<close>

definition fragment_flags :: "u32 \<Rightarrow> int \<Rightarrow> int \<Rightarrow> int \<Rightarrow> u32" where
  "fragment_flags type seq frag_id frag_size =
     (let flags = push_bit FRAG_TYPE_SHIFT (type AND FRAG_TYPE_MASK) OR
                  push_bit FRAG_SEQ_ID_SHIFT (word_of_int seq AND FRAG_SEQ_ID_MASK) OR
                  push_bit FRAG_ID_SHIFT (word_of_int frag_id AND FRAG_ID_MASK)
      in if type = FRAG_WHOLE \<or> type = FRAG_YES_NOTLAST then flags
         else flags OR push_bit FRAG_SIZE_SHIFT (word_of_int (drop_bit FRAG_SIZE_ROUND_SHIFT frag_size) AND FRAG_SIZE_MASK))"

definition fragment_prepend_flags :: "buffer \<Rightarrow> u32 \<Rightarrow> int \<Rightarrow> int \<Rightarrow> int \<Rightarrow> buffer option" where
  "fragment_prepend_flags buf type seq frag_id frag_size = buf_write_prepend buf (be32 (fragment_flags type seq frag_id frag_size))"

text \<open>A division by zero is \<^term>\<open>None\<close>. The operands are not negative where the function is called.\<close>

definition optimal_fragment_size :: "int \<Rightarrow> int \<Rightarrow> int option" where
  "optimal_fragment_size len mfs =
     (let mfs_aligned = mfs AND NOT FRAG_SIZE_ROUND_MASK
      in if mfs_aligned = 0 then None
         else let d = len div mfs_aligned; m = len mod mfs_aligned
              in Some (if d > 0 \<and> m > 0 \<and> m < mfs_aligned * 3 div 4
                       then min_int mfs_aligned ((mfs - ((mfs - m) div (d + 1)) + FRAG_SIZE_ROUND_MASK) AND NOT FRAG_SIZE_ROUND_MASK)
                       else mfs_aligned))"

definition fragment_outgoing_defined :: "fragment_master \<Rightarrow> bool" where
  "fragment_outgoing_defined f \<longleftrightarrow> b_len (outgoing f) > 0"

definition fragment_ready_to_send :: "fragment_master \<Rightarrow> buffer \<Rightarrow> frame \<Rightarrow> (bool \<times> buffer \<times> fragment_master) option" where
  "fragment_ready_to_send f buf fr =
     (if fragment_outgoing_defined f
      then let is_last = (b_len (outgoing f) \<le> outgoing_frag_size f);
               sz = (if is_last then b_len (outgoing f) else outgoing_frag_size f)
           in case buf_init (outgoing_return f) (headroom fr) of
                None \<Rightarrow> None
              | Some b \<Rightarrow>
                  (case buf_copy_n b (outgoing f) sz of
                     (False, _, _) \<Rightarrow> None
                   | (True, b1, out1) \<Rightarrow>
                       (case fragment_prepend_flags b1 (if is_last then FRAG_YES_LAST else FRAG_YES_NOTLAST)
                               (outgoing_seq_id f) (outgoing_frag_id f) (outgoing_frag_size f) of
                          None \<Rightarrow> None
                        | Some b2 \<Rightarrow>
                            if \<not> is_last \<or> b_len out1 = 0
                            then Some (True, b2, f\<lparr>outgoing := out1, outgoing_frag_id := outgoing_frag_id f + 1\<rparr>)
                            else None))
      else Some (False, buf, f))"

definition fragment_outgoing :: "fragment_master \<Rightarrow> buffer \<Rightarrow> frame \<Rightarrow> (frag_error option \<times> buffer \<times> fragment_master) option" where
  "fragment_outgoing f buf fr =
     (if b_len buf > 0
      then if b_len buf > max_fragment_size fr
           then case optimal_fragment_size (b_len buf) (max_fragment_size fr) of
                  None \<Rightarrow> None
                | Some s \<Rightarrow>
                    (let f1 = f\<lparr>outgoing_frag_size := s\<rparr>
                     in if b_len buf > s * MAX_FRAGS then Some (Some TOO_MANY_FRAGMENTS, buf\<lparr>b_len := 0\<rparr>, f1)
                        else case buf_init (outgoing f1) (headroom fr) of
                               None \<Rightarrow> None
                             | Some out \<Rightarrow>
                                 (case buf_copy out buf of
                                    None \<Rightarrow> None
                                  | Some out1 \<Rightarrow>
                                      (case modulo_add (outgoing_seq_id f1) 1 N_SEQ_ID of
                                         None \<Rightarrow> None
                                       | Some q \<Rightarrow>
                                           (case fragment_ready_to_send
                                                   (f1\<lparr>outgoing := out1, outgoing_seq_id := q, outgoing_frag_id := 0\<rparr>)
                                                   (buf\<lparr>b_len := 0\<rparr>) fr of
                                              Some (True, b, f2) \<Rightarrow> Some (None, b, f2)
                                            | _ \<Rightarrow> None))))
           else map_option (\<lambda>b. (None, b, f)) (fragment_prepend_flags buf FRAG_WHOLE 0 0 0)
      else Some (None, buf, f))"

section \<open>Housekeeping\<close>

definition fragment_ttl_reap :: "int \<Rightarrow> fragment_master \<Rightarrow> fragment_master" where
  "fragment_ttl_reap now f =
     f\<lparr>incoming := (incoming f)\<lparr>fragments :=
       map (\<lambda>x. if fr_defined x \<and> fr_timestamp x + FRAG_TTL_SEC \<le> now then x\<lparr>fr_defined := False\<rparr> else x) (fragments (incoming f))\<rparr>\<rparr>"

definition fragment_wakeup :: "int \<Rightarrow> fragment_master \<Rightarrow> fragment_master" where
  "fragment_wakeup now f = fragment_ttl_reap now f"

section \<open>The header\<close>

lemma frag_masks: "FRAG_TYPE_MASK = mask 2" "FRAG_SEQ_ID_MASK = mask 8" "FRAG_ID_MASK = mask 5" "FRAG_SIZE_MASK = mask 14"
  "FRAG_MAP_MASK = mask 32" "FRAG_SIZE_ROUND_MASK = mask 2"
  by (simp_all add: frag_consts mask_eq_exp_minus_1 push_bit_eq_mult)

lemma bit_word_of_int_small: "0 \<le> k \<Longrightarrow> k < 2 ^ n \<Longrightarrow> n \<le> m \<Longrightarrow> \<not> bit (word_of_int k :: u32) m"
  by (simp add: bit_simps) (metis bit_take_bit_iff linorder_not_less take_bit_int_eq_self)

lemma fragment_flags_type:
  "t \<in> {FRAG_YES_NOTLAST, FRAG_YES_LAST} \<Longrightarrow> drop_bit FRAG_TYPE_SHIFT (fragment_flags t q n sz) AND FRAG_TYPE_MASK = t"
proof -
  assume "t \<in> {FRAG_YES_NOTLAST, FRAG_YES_LAST}"
  then have t: "take_bit 2 t = t" by (auto simp: frag_consts)
  have "drop_bit FRAG_TYPE_SHIFT (fragment_flags t q n sz) AND FRAG_TYPE_MASK = take_bit 2 t"
    by (rule bit_word_eqI) (auto simp: fragment_flags_def Let_def frag_masks FRAG_TYPE_SHIFT_def FRAG_SEQ_ID_SHIFT_def FRAG_ID_SHIFT_def
      FRAG_SIZE_SHIFT_def bit_simps)
  then show ?thesis using t by simp
qed

lemma fragment_flags_seq:
  assumes "0 \<le> q" "q < 256"
  shows "uint (drop_bit FRAG_SEQ_ID_SHIFT (fragment_flags t q n sz) AND FRAG_SEQ_ID_MASK) = q"
proof -
  have "drop_bit FRAG_SEQ_ID_SHIFT (fragment_flags t q n sz) AND FRAG_SEQ_ID_MASK = take_bit 8 (word_of_int q)"
    by (rule bit_word_eqI) (auto simp: fragment_flags_def Let_def frag_masks FRAG_TYPE_SHIFT_def FRAG_SEQ_ID_SHIFT_def FRAG_ID_SHIFT_def
      FRAG_SIZE_SHIFT_def bit_simps)
  then show ?thesis using assms by (simp add: unsigned_take_bit_eq take_bit_int_eq_self unsigned_of_int)
qed

lemma fragment_flags_id:
  assumes "0 \<le> n" "n < 32"
  shows "uint (drop_bit FRAG_ID_SHIFT (fragment_flags t q n sz) AND FRAG_ID_MASK) = n"
proof -
  have "drop_bit FRAG_ID_SHIFT (fragment_flags t q n sz) AND FRAG_ID_MASK = take_bit 5 (word_of_int n)"
    by (rule bit_word_eqI) (auto simp: fragment_flags_def Let_def frag_masks FRAG_TYPE_SHIFT_def FRAG_SEQ_ID_SHIFT_def FRAG_ID_SHIFT_def
      FRAG_SIZE_SHIFT_def bit_simps)
  then show ?thesis using assms by (simp add: unsigned_take_bit_eq take_bit_int_eq_self unsigned_of_int)
qed

lemma fragment_flags_size:
  assumes "0 \<le> sz" "sz < 65536" "sz mod 4 = 0"
  shows "sint (push_bit FRAG_SIZE_ROUND_SHIFT (drop_bit FRAG_SIZE_SHIFT (fragment_flags FRAG_YES_LAST q n sz) AND FRAG_SIZE_MASK)) = sz"
proof -
  have "drop_bit FRAG_SIZE_SHIFT (fragment_flags FRAG_YES_LAST q n sz) AND FRAG_SIZE_MASK = take_bit 14 (word_of_int (drop_bit 2 sz))"
    by (rule bit_word_eqI) (auto simp: fragment_flags_def Let_def frag_masks FRAG_TYPE_SHIFT_def FRAG_SEQ_ID_SHIFT_def FRAG_ID_SHIFT_def
      FRAG_SIZE_SHIFT_def FRAG_SIZE_ROUND_SHIFT_def FRAG_YES_LAST_def FRAG_WHOLE_def FRAG_YES_NOTLAST_def bit_simps)
  also have "drop_bit 2 sz = sz div 4" by (simp add: drop_bit_eq_div)
  also have "take_bit 14 (word_of_int (sz div 4) :: u32) = word_of_int (sz div 4)"
    using assms by (simp add: word_uint_eq_iff unsigned_take_bit_eq unsigned_of_int take_bit_int_eq_self)
  finally have "push_bit FRAG_SIZE_ROUND_SHIFT (drop_bit FRAG_SIZE_SHIFT (fragment_flags FRAG_YES_LAST q n sz) AND FRAG_SIZE_MASK) =
      (word_of_int (sz div 4 * 4) :: u32)"
    by (simp only: FRAG_SIZE_ROUND_SHIFT_def push_bit_eq_mult of_int_mult) simp
  moreover have "sz div 4 * 4 = sz" using assms(3) by presburger
  ultimately show ?thesis using assms by (simp add: signed_of_int signed_take_bit_int_eq_self)
qed

section \<open>The size of the fragments\<close>

lemma and_not_mask_div: "(a :: int) AND NOT (mask n) = a div 2 ^ n * 2 ^ n"
proof -
  have "a AND NOT (mask n) = push_bit n (drop_bit n a)" by (rule bit_eqI) (auto simp: bit_simps)
  then show ?thesis by (simp add: push_bit_eq_mult drop_bit_eq_div)
qed

lemma frag_align: "a AND NOT FRAG_SIZE_ROUND_MASK = a div 4 * 4"
  by (simp add: frag_masks and_not_mask_div)

lemma frag_round: "FRAG_SIZE_ROUND_MASK = 3"
  by (simp add: frag_consts push_bit_eq_mult)

text \<open>The number of parts of a length, and that a smaller size needs no more of them.\<close>

definition frag_count :: "int \<Rightarrow> int \<Rightarrow> int" where
  "frag_count len s = (len + s - 1) div s"

lemma frag_count_eq:
  assumes "0 < s" "(k - 1) * s < len" "len \<le> k * s"
  shows "frag_count len s = k"
proof -
  have e: "len + s - 1 = s * k + (len - 1 - (k - 1) * s)" by (simp add: algebra_simps)
  show ?thesis unfolding frag_count_def by (rule int_div_pos_eq [OF e]) (use assms in \<open>simp_all add: algebra_simps\<close>)
qed

lemma optimal_fragment_size_ok:
  assumes len: "0 < len" and mfs: "4 \<le> mfs"
  shows "\<exists>s. optimal_fragment_size len mfs = Some s \<and> 4 \<le> s \<and> s \<le> mfs \<and> s mod 4 = 0 \<and> frag_count len s = frag_count len (mfs div 4 * 4)"
proof -
  define a where "a = mfs div 4 * 4"
  have a: "4 \<le> a" "a \<le> mfs" "a mod 4 = 0" using mfs unfolding a_def by presburger+
  define d m where "d = len div a" and "m = len mod a"
  have dm: "len = d * a + m" "0 \<le> m" "m < a" "0 \<le> d" using a len by (simp_all add: d_def m_def pos_imp_zdiv_nonneg_iff)
  have ev: "optimal_fragment_size len mfs = Some (if d > 0 \<and> m > 0 \<and> m < a * 3 div 4
      then min_int a ((mfs - (mfs - m) div (d + 1) + 3) div 4 * 4) else a)"
    unfolding optimal_fragment_size_def Let_def frag_align unfolding frag_round a_def [symmetric] d_def [symmetric] m_def [symmetric]
    using a by simp
  show ?thesis
  proof (cases "d > 0 \<and> m > 0 \<and> m < a * 3 div 4")
    case False
    then have "optimal_fragment_size len mfs = Some a" unfolding ev by (rule arg_cong [OF if_not_P])
    then show ?thesis using a by (simp add: a_def)
  next
    case True
    define v where "v = mfs - (mfs - m) div (d + 1)"
    define s where "s = min a ((v + 3) div 4 * 4)"
    have q: "0 \<le> (mfs - m) div (d + 1)" "(mfs - m) div (d + 1) * (d + 1) \<le> mfs - m"
      using True dm a by (simp_all add: pos_imp_zdiv_nonneg_iff) (metis mod_div_mult_eq le_add_same_cancel1 pos_mod_sign add_pos_pos zero_less_one add.commute)
    have "(mfs - m) div (d + 1) \<le> (mfs - m) div (d + 1) * (d + 1)" using q(1) dm(4) by (simp add: mult_le_cancel_left1)
    then have v: "0 < v" "v \<le> mfs" using q True by (simp_all add: v_def)
    have "(d + 1) * v = (d + 1) * mfs - (mfs - m) div (d + 1) * (d + 1)" by (simp add: v_def algebra_simps)
    then have "d * mfs + m \<le> (d + 1) * v" using q(2) by (simp add: algebra_simps)
    moreover have "d * a \<le> d * mfs" using a(2) dm(4) by (simp add: mult_left_mono)
    ultimately have fit_v: "len \<le> (d + 1) * v" using dm(1) by linarith
    have vr: "v \<le> (v + 3) div 4 * 4" by presburger
    have fit: "len \<le> (d + 1) * s"
    proof (cases "a \<le> (v + 3) div 4 * 4")
      case True
      then show ?thesis using dm by (simp add: s_def algebra_simps)
    next
      case False
      have "(d + 1) * v \<le> (d + 1) * ((v + 3) div 4 * 4)" using vr dm(4) by (simp add: mult_left_mono)
      then show ?thesis using False fit_v by (simp add: s_def)
    qed
    have "4 \<le> (v + 3) div 4 * 4" "(v + 3) div 4 * 4 mod 4 = 0" using v(1) by presburger+
    then have sp: "4 \<le> s" "s \<le> a" "s mod 4 = 0" using a by (auto simp: s_def min_def)
    have less: "d * s < len" using sp dm True mult_left_mono [OF sp(2) dm(4)] by linarith
    have "frag_count len s = d + 1" by (rule frag_count_eq) (use sp less fit in simp_all)
    moreover have "frag_count len a = d + 1" by (rule frag_count_eq) (use a dm True in \<open>simp_all add: algebra_simps\<close>)
    moreover have "optimal_fragment_size len mfs = Some s"
      unfolding ev if_P [OF True] by (simp add: s_def v_def min_int_def min_def)
    ultimately show ?thesis using sp a by (auto simp: a_def)
  qed
qed

section \<open>Well-formed states\<close>

definition frame_ok :: "frame \<Rightarrow> bool" where
  "frame_ok fr \<longleftrightarrow> 4 \<le> headroom fr \<and> 0 \<le> payload_size fr \<and> 0 \<le> tailroom fr \<and> BUF_SIZE fr < int BUF_SIZE_MAX \<and>
     4 \<le> max_fragment_size fr \<and> max_fragment_size fr < 65536"

definition buf_for :: "frame \<Rightarrow> buffer \<Rightarrow> bool" where
  "buf_for fr b \<longleftrightarrow> buf_ok b \<and> b_capacity b = BUF_SIZE fr"

definition frag_ok :: "frame \<Rightarrow> fragment \<Rightarrow> bool" where
  "frag_ok fr x \<longleftrightarrow> buf_for fr (fr_buf x) \<and> (fr_defined x \<longrightarrow> b_offset (fr_buf x) = headroom fr)"

definition list_ok :: "frame \<Rightarrow> fragment_list \<Rightarrow> bool" where
  "list_ok fr l \<longleftrightarrow> length (fragments l) = 25 \<and> 0 \<le> fl_seq_id l \<and> fl_seq_id l < 256 \<and> 0 \<le> fl_index l \<and> fl_index l < 25 \<and>
     (\<forall>i < 25. frag_ok fr (fragments l ! i))"

definition master_ok :: "frame \<Rightarrow> fragment_master \<Rightarrow> bool" where
  "master_ok fr f \<longleftrightarrow> buf_for fr (outgoing f) \<and> buf_for fr (outgoing_return f) \<and> 0 \<le> outgoing_seq_id f \<and> outgoing_seq_id f < 256 \<and>
     list_ok fr (incoming f)"

lemma frame_okD:
  assumes "frame_ok fr"
  shows "4 \<le> headroom fr" "0 \<le> payload_size fr" "0 \<le> tailroom fr" "BUF_SIZE fr < 1000000" "4 \<le> max_fragment_size fr"
    "max_fragment_size fr < 65536" "headroom fr \<le> BUF_SIZE fr"
  using assms by (auto simp: frame_ok_def BUF_SIZE_def BUF_SIZE_MAX_def)

lemma fragment_init_ok:
  assumes "frame_ok fr"
  shows "\<exists>f. fragment_frame_init (fragment_init rnd) fr = Some f \<and> master_ok fr f \<and> \<not> fragment_outgoing_defined f"
proof -
  note F = frame_okD [OF assms]
  have "nat (BUF_SIZE fr) < 1000000" using F by simp
  then obtain b where b: "alloc_buf (nat (BUF_SIZE fr)) = Some b" by (simp add: alloc_buf_def buf_size_valid_def BUF_SIZE_MAX_def)
  then have ok: "buf_for fr b" "b_len b = 0" using alloc_buf_ok [OF b] F by (auto simp: buf_for_def alloc_buf_def split: if_splits)
  have "0 \<le> sint rnd AND 255 \<and> sint rnd AND 255 < (256 :: int)"
    using take_bit_nonnegative [of 8 "sint rnd"] take_bit_int_less_exp [of 8 "sint rnd"] by (simp add: take_bit_eq_mask mask_eq_exp_minus_1)
  then show ?thesis using b ok
    by (simp add: fragment_frame_init_def fragment_init_def fragment_list_buf_init_def master_ok_def list_ok_def frag_ok_def N_FRAG_BUF_def N_SEQ_ID_def
      fragment_outgoing_defined_def)
qed

section \<open>The sender\<close>

definition chunk :: "nat \<Rightarrow> bytes \<Rightarrow> nat \<Rightarrow> bytes" where
  "chunk sz pkt n = take sz (drop (n * sz) pkt)"

text \<open>Part \<open>n\<close> of a datagram as it is sent.\<close>

definition frag_packet :: "int \<Rightarrow> nat \<Rightarrow> bytes \<Rightarrow> nat \<Rightarrow> bytes" where
  "frag_packet q sz pkt n =
     be32 (fragment_flags (if length pkt \<le> (n + 1) * sz then FRAG_YES_LAST else FRAG_YES_NOTLAST) q (int n) (int sz)) @ chunk sz pkt n"

definition sender_inv :: "frame \<Rightarrow> int \<Rightarrow> nat \<Rightarrow> bytes \<Rightarrow> nat \<Rightarrow> fragment_master \<Rightarrow> bool" where
  "sender_inv fr q sz pkt n f \<longleftrightarrow> master_ok fr f \<and> outgoing_seq_id f = q \<and> outgoing_frag_size f = int sz \<and> outgoing_frag_id f = int n \<and>
     buf_content (outgoing f) = drop (n * sz) pkt"

lemma prepend_flags:
  assumes "buf_ok b" "4 \<le> b_offset b"
  shows "\<exists>b'. fragment_prepend_flags b t q n s = Some b' \<and> buf_ok b' \<and> buf_content b' = be32 (fragment_flags t q n s) @ buf_content b"
  using buf_prepend_succeeds [OF assms(1), of "be32 (fragment_flags t q n s)"] buf_prepend_content [OF assms(1)] assms(2)
  by (fastforce simp: fragment_prepend_flags_def)

lemma ready_to_send_step:
  assumes fr: "frame_ok fr" and s: "sender_inv fr q sz pkt n f" and n: "n * sz < length pkt" and sz: "0 < sz"
    and len: "int (length pkt - n * sz) \<le> payload_size fr + tailroom fr"
  shows "\<exists>b f'. fragment_ready_to_send f buf fr = Some (True, b, f') \<and> buf_ok b \<and> buf_content b = frag_packet q sz pkt n \<and>
    sender_inv fr q sz pkt (n + 1) f'"
proof -
  note F = frame_okD [OF fr]
  have m: "buf_ok (outgoing f)" "buf_ok (outgoing_return f)" "b_capacity (outgoing_return f) = BUF_SIZE fr"
    "buf_content (outgoing f) = drop (n * sz) pkt" "outgoing_frag_size f = int sz"
    using s by (auto simp: sender_inv_def master_ok_def buf_for_def)
  have bl: "b_len (outgoing f) = int (length pkt - n * sz)" using length_buf_content [OF m(1)] m(4) by simp
  then have bp: "0 < b_len (outgoing f)" using n by (simp only: of_nat_0_less_iff zero_less_diff)
  define k where "k = min sz (length pkt - n * sz)"
  have last: "(b_len (outgoing f) \<le> outgoing_frag_size f) = (length pkt \<le> (n + 1) * sz)"
    unfolding bl m(5) of_nat_le_iff using n by auto
  have ksz: "(if b_len (outgoing f) \<le> outgoing_frag_size f then b_len (outgoing f) else outgoing_frag_size f) = int k"
    using bl m(5) by (auto simp: k_def)
  obtain b where b: "buf_init (outgoing_return f) (headroom fr) = Some b" "buf_ok b" "buf_content b = []" "b_offset b = headroom fr"
    "b_capacity b = BUF_SIZE fr" using buf_init_ok [OF m(2), of "headroom fr"] F m(3) by auto
  have kl: "k \<le> length (buf_content (outgoing f))" using m(4) by (simp add: k_def)
  have k1: "k < BUF_SIZE_MAX" "b_offset b + int (length (buf_content b)) + int k \<le> b_capacity b"
    using len F b by (auto simp: k_def BUF_SIZE_MAX_def BUF_SIZE_def)
  obtain b1 out1 where c: "buf_copy_n b (outgoing f) (int k) = (True, b1, out1)" "buf_ok b1" "buf_content b1 = take k (drop (n * sz) pkt)"
    "b_offset b1 = headroom fr" "buf_ok out1" "buf_content out1 = drop k (drop (n * sz) pkt)" "b_capacity out1 = b_capacity (outgoing f)"
    using buf_copy_n_content [OF b(2) m(1) kl k1] b m(4) by auto
  have ck: "take k (drop (n * sz) pkt) = chunk sz pkt n" by (simp add: chunk_def k_def min_def)
  have dk: "drop k (drop (n * sz) pkt) = drop ((n + 1) * sz) pkt" using n by (auto simp: k_def min_def add.commute)
  have o4: "4 \<le> b_offset b1" using c(4) F by simp
  define t where "t = (if length pkt \<le> (n + 1) * sz then FRAG_YES_LAST else FRAG_YES_NOTLAST)"
  obtain b2 where p: "fragment_prepend_flags b1 t q (int n) (int sz) = Some b2" "buf_ok b2"
    "buf_content b2 = be32 (fragment_flags t q (int n) (int sz)) @ chunk sz pkt n"
    using prepend_flags [OF c(2) o4, of t q "int n" "int sz"] c(3) ck by auto
  have fin: "length pkt \<le> (n + 1) * sz \<longrightarrow> b_len out1 = 0"
    using length_buf_content [OF c(5)] unfolding c(6) dk by auto
  have "fragment_ready_to_send f buf fr = Some (True, b2, f\<lparr>outgoing := out1, outgoing_frag_id := outgoing_frag_id f + 1\<rparr>)"
    using bp b(1) c(1) p(1) fin s m(5)
    unfolding fragment_ready_to_send_def Let_def ksz unfolding last fragment_outgoing_defined_def
    by (simp add: sender_inv_def t_def)
  moreover have "sender_inv fr q sz pkt (n + 1) (f\<lparr>outgoing := out1, outgoing_frag_id := outgoing_frag_id f + 1\<rparr>)"
    using s c(5-7) dk by (auto simp: sender_inv_def master_ok_def buf_for_def)
  ultimately show ?thesis using p(2,3) by (auto simp: frag_packet_def t_def)
qed

text \<open>Calling \<open>fragment_ready_to_send\<close> until nothing is left, at most \<open>k\<close> times.\<close>

primrec fragment_drain :: "nat \<Rightarrow> fragment_master \<Rightarrow> frame \<Rightarrow> (buffer list \<times> fragment_master) option" where
  "fragment_drain 0 f fr = Some ([], f)"
| "fragment_drain (Suc k) f fr =
     (case fragment_ready_to_send f clear_buf fr of
        None \<Rightarrow> None
      | Some (False, _, f1) \<Rightarrow> Some ([], f1)
      | Some (True, b, f1) \<Rightarrow> map_option (\<lambda>(bs, f2). (b # bs, f2)) (fragment_drain k f1 fr))"

lemma fragment_drain_parts:
  assumes fr: "frame_ok fr" and sz: "0 < sz" and len: "int (length pkt) \<le> payload_size fr + tailroom fr"
    and c: "length pkt \<le> c * sz" "(c - 1) * sz < length pkt" "n \<le> c"
    and s: "sender_inv fr q sz pkt n f" and k: "c - n \<le> k"
  shows "\<exists>bs f'. fragment_drain k f fr = Some (bs, f') \<and> \<not> fragment_outgoing_defined f' \<and> sender_inv fr q sz pkt c f' \<and>
    map buf_content bs = map (frag_packet q sz pkt) [n..<c] \<and> (\<forall>b \<in> set bs. buf_ok b)"
  using s k c(3)
proof (induction k arbitrary: n f)
  case 0
  have "buf_ok (outgoing f)" "buf_content (outgoing f) = []" using 0 c(1) by (auto simp: sender_inv_def master_ok_def buf_for_def)
  then have "\<not> fragment_outgoing_defined f" using length_buf_content [of "outgoing f"] by (simp add: fragment_outgoing_defined_def)
  then show ?case using 0 by simp
next
  case (Suc k)
  show ?case
  proof (cases "n = c")
    case True
    have "buf_ok (outgoing f)" "buf_content (outgoing f) = []" using Suc.prems True c(1) by (auto simp: sender_inv_def master_ok_def buf_for_def)
    then have "\<not> fragment_outgoing_defined f" using length_buf_content [of "outgoing f"] by (simp add: fragment_outgoing_defined_def)
    then show ?thesis using Suc.prems True by (simp add: fragment_ready_to_send_def)
  next
    case False
    then have "n \<le> c - 1" using Suc.prems(3) by simp
    then have n: "n * sz < length pkt" using c(2) mult_le_mono1 [of n "c - 1" sz] by linarith
    have rest: "int (length pkt - n * sz) \<le> payload_size fr + tailroom fr" using len by linarith
    obtain b f1 where r: "fragment_ready_to_send f clear_buf fr = Some (True, b, f1)" "buf_ok b" "buf_content b = frag_packet q sz pkt n"
      "sender_inv fr q sz pkt (n + 1) f1"
      using ready_to_send_step [OF fr Suc.prems(1) n sz rest, of clear_buf] by (elim exE conjE)
    obtain bs f' where i: "fragment_drain k f1 fr = Some (bs, f')" "\<not> fragment_outgoing_defined f'" "sender_inv fr q sz pkt c f'"
      "map buf_content bs = map (frag_packet q sz pkt) [n + 1..<c]" "\<forall>b \<in> set bs. buf_ok b"
      using Suc.IH [OF r(4)] Suc.prems(2,3) False by fastforce
    have "[n..<c] = n # [n + 1..<c]" using False Suc.prems(3) by (simp add: upt_conv_Cons)
    then show ?thesis using r i by simp
  qed
qed

text \<open>A datagram that has to be cut: refused, or cut into the parts of one size.\<close>

lemma fragment_size_choice:
  assumes len: "mfs < int len" and mfs: "4 \<le> mfs"
  shows "\<exists>sz c. optimal_fragment_size (int len) mfs = Some (int sz) \<and> 4 \<le> sz \<and> int sz \<le> mfs \<and> sz mod 4 = 0 \<and>
    len \<le> c * sz \<and> (c - 1) * sz < len \<and> 2 \<le> c \<and> int c = frag_count (int len) (mfs div 4 * 4) \<and> (int len > int sz * MAX_FRAGS \<longleftrightarrow> 32 < c)"
proof -
  have pos: "0 < int len" using assms by linarith
  obtain s where s: "optimal_fragment_size (int len) mfs = Some s" "4 \<le> s" "s \<le> mfs" "s mod 4 = 0"
    "frag_count (int len) s = frag_count (int len) (mfs div 4 * 4)"
    using optimal_fragment_size_ok [OF pos mfs] by (elim exE conjE)
  define sz c where "sz = nat s" and "c = nat (frag_count (int len) s)"
  have sz: "s = int sz" using s(2) by (simp add: sz_def)
  have sz4: "4 \<le> sz" "sz mod 4 = 0" using s(2,4) unfolding sz by presburger+
  have cp: "0 < frag_count (int len) s" using s(2) pos by (simp add: frag_count_def pos_imp_zdiv_pos_iff)
  then have ci: "frag_count (int len) s = int c" by (simp add: c_def)
  have q: "(int len + s - 1) div s = int c" using ci by (simp add: frag_count_def)
  have sp: "0 < s" using s(2) by simp
  note e = div_mult_mod_eq [of "int len + s - 1" s, unfolded q]
  have "int len \<le> int c * s" using e pos_mod_bound [OF sp, of "int len + s - 1"] by linarith
  then have up: "len \<le> c * sz" unfolding sz by (metis of_nat_le_iff of_nat_mult)
  have "(int c - 1) * s < int len"
    using e pos_mod_sign [OF sp, of "int len + s - 1"] by (simp add: algebra_simps)
  then have lo: "(c - 1) * sz < len" using cp ci unfolding sz by (metis of_nat_1 of_nat_diff of_nat_less_iff of_nat_mult of_nat_0_less_iff Suc_leI One_nat_def)
  have "c \<noteq> 1" using up s(3) len unfolding sz by auto
  then have c2: "2 \<le> c" using cp ci by simp
  have "int len > int sz * MAX_FRAGS \<longleftrightarrow> 32 * sz < len" by (auto simp: MAX_FRAGS_def)
  also have "\<dots> \<longleftrightarrow> 32 < c"
  proof
    assume "32 * sz < len"
    then have "32 * sz < c * sz" using up by linarith
    then show "32 < c" by simp
  next
    assume "32 < c"
    then have "32 * sz \<le> (c - 1) * sz" by (intro mult_le_mono1) simp
    then show "32 * sz < len" using lo by linarith
  qed
  finally show ?thesis using s(1,3,5) sz sz4 up lo c2 ci by (intro exI [of _ sz] exI [of _ c]) simp
qed

lemma fragment_outgoing_sends:
  assumes fr: "frame_ok fr" and f: "master_ok fr f" and b: "buf_ok buf" "buf_content buf = pkt"
    and len: "max_fragment_size fr < int (length pkt)" "int (length pkt) \<le> payload_size fr + tailroom fr"
    and s: "optimal_fragment_size (int (length pkt)) (max_fragment_size fr) = Some (int sz)" "4 \<le> sz" "int (length pkt) \<le> int sz * MAX_FRAGS"
  shows "\<exists>b0 f1. fragment_outgoing f buf fr = Some (None, b0, f1) \<and> buf_ok b0 \<and>
       buf_content b0 = frag_packet ((outgoing_seq_id f + 1) mod 256) sz pkt 0 \<and>
       sender_inv fr ((outgoing_seq_id f + 1) mod 256) sz pkt 1 f1"
proof -
  note F = frame_okD [OF fr]
  let ?q = "(outgoing_seq_id f + 1) mod 256"
  have bl: "b_len buf = int (length pkt)" using length_buf_content [OF b(1)] b(2) by simp
  have pos: "0 < length pkt" using len F by linarith
  have q0: "modulo_add (outgoing_seq_id f) 1 N_SEQ_ID = Some ?q"
    using f by (simp add: modulo_add_mod master_ok_def N_SEQ_ID_def)
  have ob: "buf_ok (outgoing f)" "b_capacity (outgoing f) = BUF_SIZE fr" using f by (auto simp: master_ok_def buf_for_def)
  obtain out where o: "buf_init (outgoing f) (headroom fr) = Some out" "buf_ok out" "buf_content out = []" "b_offset out = headroom fr"
    "b_capacity out = BUF_SIZE fr" using buf_init_ok [OF ob(1), of "headroom fr"] F ob(2) by auto
  have "length pkt < BUF_SIZE_MAX" "b_offset out + int (length (buf_content out)) + int (length pkt) \<le> b_capacity out"
    using len F o by (auto simp: BUF_SIZE_MAX_def BUF_SIZE_def)
  then obtain out1 where o1: "buf_write out pkt = Some out1" "buf_ok out1" "buf_content out1 = pkt" "b_capacity out1 = BUF_SIZE fr"
    using buf_write_fits [OF o(2), of pkt] o by auto
  have cp: "buf_copy out buf = Some out1" using o1(1) b bl buf_ok_valid [OF b(1)] by (simp add: buf_copy_def BLEN_def buf_content_def)
  let ?f = "f\<lparr>outgoing_frag_size := int sz, outgoing := out1, outgoing_seq_id := ?q, outgoing_frag_id := 0\<rparr>"
  have si: "sender_inv fr ?q sz pkt 0 ?f" using f o1 by (simp add: sender_inv_def master_ok_def buf_for_def)
  have p0: "0 * sz < length pkt" "0 < sz" using pos s(2) by simp_all
  obtain b0 f1 where r: "fragment_ready_to_send ?f (buf\<lparr>b_len := 0\<rparr>) fr = Some (True, b0, f1)" "buf_ok b0"
    "buf_content b0 = frag_packet ?q sz pkt 0" "sender_inv fr ?q sz pkt (0 + 1) f1"
    using ready_to_send_step [OF fr si p0, of "buf\<lparr>b_len := 0\<rparr>"] len(2) by auto
  have "fragment_outgoing f buf fr = Some (None, b0, f1)"
    using bl pos len(1) s o(1) cp q0 r(1) by (simp add: fragment_outgoing_def Let_def)
  then show ?thesis using r by simp
qed

section \<open>The window of the receiver\<close>

text \<open>While the sequence numbers stay near each other, number \<open>b + k\<close> has its buffer at \<open>c + k\<close>, modulo the number of
  buffers, where neither \<open>b\<close> nor \<open>c\<close> changes.\<close>

definition slot :: "int \<Rightarrow> int \<Rightarrow> nat" where
  "slot c k = nat ((c + k) mod 25)"

lemma slot_less [simp]: "slot c k < 25"
  by (simp add: slot_def nat_less_iff)

lemma slot_inj:
  assumes "j \<noteq> k" "\<bar>j - k\<bar> < 25"
  shows "slot c j \<noteq> slot c k"
proof
  assume "slot c j = slot c k"
  then have "(c + j) mod 25 = (c + k) mod 25" by (simp add: slot_def eq_nat_nat_iff)
  then have "25 dvd (c + j) - (c + k)" by (simp add: mod_eq_dvd_iff)
  then have "25 dvd j - k" by simp
  then show False using assms zdvd_imp_le [of 25 "\<bar>j - k\<bar>"] by simp
qed

lemma list_okD: "list_ok fr l \<Longrightarrow> length (fragments l) = 25" "list_ok fr l \<Longrightarrow> i < 25 \<Longrightarrow> frag_ok fr (fragments l ! i)"
  by (auto simp: list_ok_def)

lemma list_ok_set:
  assumes "list_ok fr l" "frag_ok fr x" "0 \<le> s" "s < 256" "0 \<le> i" "i < 25"
  shows "list_ok fr (l\<lparr>fragments := (fragments l)[j := x], fl_index := i, fl_seq_id := s\<rparr>)" "list_ok fr (l\<lparr>fragments := (fragments l)[j := x]\<rparr>)"
proof -
  have "frag_ok fr ((fragments l)[j := x] ! m)" if "m < 25" for m
    using assms(1,2) that by (cases "m = j") (simp_all add: list_ok_def)
  then show "list_ok fr (l\<lparr>fragments := (fragments l)[j := x], fl_index := i, fl_seq_id := s\<rparr>)" "list_ok fr (l\<lparr>fragments := (fragments l)[j := x]\<rparr>)"
    using assms by (simp_all add: list_ok_def)
qed

lemma get_buf_loop_range:
  assumes "list_ok fr l" "fl_seq_id l = (b + t) mod 256" "fl_index l = (c + t) mod 25" "d \<le> 24"
  shows "\<exists>l'. get_buf_loop d l = Some l' \<and> list_ok fr l' \<and> fl_seq_id l' = (b + t + int d) mod 256 \<and> fl_index l' = (c + t + int d) mod 25 \<and>
    (\<forall>j. t + int d - 24 \<le> j \<and> j \<le> t \<longrightarrow> fragments l' ! slot c j = fragments l ! slot c j) \<and>
    (\<forall>j. t < j \<and> j \<le> t + int d \<longrightarrow> \<not> fr_defined (fragments l' ! slot c j))"
  using assms
proof (induction d arbitrary: l t)
  case 0
  then show ?case by auto
next
  case (Suc d)
  let ?i = "(c + (t + 1)) mod 25" and ?s = "(b + (t + 1)) mod 256"
  define l1 where "l1 = l\<lparr>fragments := undefine (nat ?i) (fragments l), fl_index := ?i, fl_seq_id := ?s\<rparr>"
  have m: "modulo_add (fl_index l) 1 N_FRAG_BUF = Some ?i" "modulo_add (fl_seq_id l) 1 N_SEQ_ID = Some ?s"
    using Suc.prems by (simp_all add: modulo_add_mod list_ok_def frag_consts mod_simps add.assoc)
  have "frag_ok fr ((fragments l ! nat ?i)\<lparr>fr_defined := False\<rparr>)"
    using list_okD(2) [OF Suc.prems(1), of "nat ?i"] by (simp add: frag_ok_def nat_less_iff)
  from list_ok_set(1) [OF Suc.prems(1) this] have ok: "list_ok fr l1" by (simp add: l1_def undefine_def)
  obtain l' where l': "get_buf_loop d l1 = Some l'" "list_ok fr l'" "fl_seq_id l' = (b + (t + 1) + int d) mod 256"
    "fl_index l' = (c + (t + 1) + int d) mod 25"
    "\<forall>j. t + 1 + int d - 24 \<le> j \<and> j \<le> t + 1 \<longrightarrow> fragments l' ! slot c j = fragments l1 ! slot c j"
    "\<forall>j. t + 1 < j \<and> j \<le> t + 1 + int d \<longrightarrow> \<not> fr_defined (fragments l' ! slot c j)"
    using Suc.IH [OF ok, of "t + 1"] Suc.prems(4) by (auto simp: l1_def)
  have e: "get_buf_loop (Suc d) l = Some l'" using m l'(1) by (simp add: l1_def)
  have new: "\<not> fr_defined (fragments l1 ! slot c (t + 1))" "slot c (t + 1) = nat ?i"
    using list_okD(1) [OF Suc.prems(1)] by (simp_all add: l1_def undefine_def slot_def nat_less_iff)
  have same: "fragments l' ! slot c j = fragments l ! slot c j" if "t + int (Suc d) - 24 \<le> j" "j \<le> t" for j
  proof -
    have "slot c (t + 1) \<noteq> slot c j" by (rule slot_inj) (use that in auto)
    then have "fragments l1 ! slot c j = fragments l ! slot c j" using new(2) by (simp add: l1_def undefine_def)
    then show ?thesis using l'(5) that by auto
  qed
  have undef: "\<not> fr_defined (fragments l' ! slot c j)" if "t < j" "j \<le> t + int (Suc d)" for j
    using that l'(5,6) new(1) Suc.prems(4) by (cases "j = t + 1") auto
  show ?case using e l'(2-4) same undef by (auto simp: add.assoc add.commute [of 1])
qed

lemma modulo_subtract_near:
  assumes "\<bar>k - t\<bar> \<le> 24"
  shows "modulo_subtract ((b + k) mod 256) ((b + t) mod 256) 256 = Some (k - t)"
proof -
  obtain d where d: "modulo_subtract ((b + k) mod 256) ((b + t) mod 256) 256 = Some d" by (simp add: modulo_subtract_def Let_def)
  have "((b + t) mod 256 + d) mod 256 = (b + k) mod 256" "2 * \<bar>d\<bar> \<le> 256" using modulo_subtract_cong [OF d] by auto
  then have "(b + t + d) mod 256 = (b + k) mod 256" by (simp add: mod_simps)
  then have "256 dvd (b + t + d) - (b + k)" by (simp add: mod_eq_dvd_iff)
  then have "256 dvd d - (k - t)" by (simp add: algebra_simps)
  moreover have "\<bar>d - (k - t)\<bar> < 256" using \<open>2 * \<bar>d\<bar> \<le> 256\<close> assms by linarith
  ultimately have "d - (k - t) = 0" using zdvd_imp_le [of 256 "\<bar>d - (k - t)\<bar>"] by fastforce
  then show ?thesis using d by simp
qed

lemma get_buf_range:
  assumes ok: "list_ok fr l" "fl_seq_id l = (b + t) mod 256" "fl_index l = (c + t) mod 25" and k: "\<bar>k - t\<bar> \<le> 24"
  shows "\<exists>l'. fragment_list_get_buf l ((b + k) mod 256) = Some (slot c k, l') \<and> list_ok fr l' \<and>
    fl_seq_id l' = (b + max t k) mod 256 \<and> fl_index l' = (c + max t k) mod 25 \<and>
    (\<forall>j. max t k - 24 \<le> j \<and> j \<le> t \<longrightarrow> fragments l' ! slot c j = fragments l ! slot c j) \<and>
    (\<forall>j. t < j \<and> j \<le> k \<longrightarrow> \<not> fr_defined (fragments l' ! slot c j))"
proof -
  let ?d = "nat (k - t)"
  have d24: "?d \<le> 24" using k by simp
  have mx: "t + int ?d = max t k" by simp
  obtain l' where l': "get_buf_loop ?d l = Some l'" "list_ok fr l'" "fl_seq_id l' = (b + max t k) mod 256" "fl_index l' = (c + max t k) mod 25"
    "\<forall>j. max t k - 24 \<le> j \<and> j \<le> t \<longrightarrow> fragments l' ! slot c j = fragments l ! slot c j"
    "\<forall>j. t < j \<and> j \<le> max t k \<longrightarrow> \<not> fr_defined (fragments l' ! slot c j)"
    using get_buf_loop_range [OF ok d24] unfolding add.assoc mx by (elim exE conjE)
  have "modulo_add (fl_index l') (if k - t > 0 then 0 else k - t) 25 = Some ((c + max t k + (if k - t > 0 then 0 else k - t)) mod 25)"
    using l'(2,4) k by (subst modulo_add_mod) (auto simp: list_ok_def mod_simps)
  moreover have "c + max t k + (if k - t > 0 then 0 else k - t) = c + k" by auto
  ultimately have "fragment_list_get_buf l ((b + k) mod 256) = Some (slot c k, l')"
    using modulo_subtract_near [OF k, of b] l'(1) k ok(2) by (simp add: fragment_list_get_buf_def frag_consts slot_def)
  then show ?thesis using l'(2-6) by auto
qed

text \<open>A number that is far away empties the window.\<close>

lemma get_buf_far:
  assumes ok: "list_ok fr l" and s: "0 \<le> s" "s < 256" and far: "modulo_subtract s (fl_seq_id l) 256 = Some d" "25 \<le> \<bar>d\<bar>"
  shows "\<exists>l'. fragment_list_get_buf l s = Some (0, l') \<and> list_ok fr l' \<and> fl_seq_id l' = s \<and> fl_index l' = 0 \<and>
    (\<forall>i < 25. \<not> fr_defined (fragments l' ! i))"
proof -
  let ?l = "l\<lparr>fragments := map (\<lambda>x. x\<lparr>fr_defined := False\<rparr>) (fragments l), fl_index := 0, fl_seq_id := s\<rparr>"
  have "fragment_list_get_buf l s = Some (0, ?l)" using far
    by (simp add: fragment_list_get_buf_def frag_consts modulo_add_def)
  moreover have "list_ok fr ?l" using ok s by (auto simp: list_ok_def frag_ok_def)
  ultimately show ?thesis using list_okD(1) [OF ok] by auto
qed

lemma get_buf_ok:
  assumes ok: "list_ok fr l" and s: "0 \<le> s" "s < 256"
  shows "\<exists>i l'. fragment_list_get_buf l s = Some (i, l') \<and> i < 25 \<and> list_ok fr l'"
proof -
  obtain d where d: "modulo_subtract s (fl_seq_id l) 256 = Some d" using ok s by (auto simp: modulo_subtract_def list_ok_def Let_def)
  show ?thesis
  proof (cases "25 \<le> \<bar>d\<bar>")
    case True
    then show ?thesis using get_buf_far [OF ok s d] by fastforce
  next
    case False
    have q: "(fl_seq_id l + d) mod 256 = s" using modulo_subtract_cong(1) [OF d] .
    have l: "fl_seq_id l = (fl_seq_id l + 0) mod 256" "fl_index l = (fl_index l + 0) mod 25" using ok by (simp_all add: list_ok_def)
    show ?thesis using get_buf_range [OF ok l, of d] False q by (fastforce intro: slot_less)
  qed
qed

section \<open>Joining the parts\<close>

text \<open>How a datagram is cut: \<open>K + 1\<close> parts of size \<open>sz\<close>, the last one possibly shorter.\<close>

definition cut_ok :: "frame \<Rightarrow> nat \<Rightarrow> bytes \<Rightarrow> nat \<Rightarrow> bool" where
  "cut_ok fr sz pkt K \<longleftrightarrow> 0 < sz \<and> sz < 65536 \<and> sz mod 4 = 0 \<and> K < 32 \<and> K * sz < length pkt \<and> length pkt \<le> (K + 1) * sz \<and>
     int (length pkt) \<le> payload_size fr + tailroom fr"

text \<open>A buffer into which the parts \<open>S\<close> have been copied.\<close>

definition filling :: "frame \<Rightarrow> nat \<Rightarrow> bytes \<Rightarrow> nat \<Rightarrow> nat set \<Rightarrow> fragment \<Rightarrow> bool" where
  "filling fr sz pkt K S x \<longleftrightarrow> fr_defined x \<and> frag_ok fr x \<and> max_frag_size x = int sz \<and> S \<subseteq> {..K} \<and>
     (\<forall>i < 32. bit (fr_map x) i \<longleftrightarrow> i \<in> S \<and> i < K \<or> K \<in> S \<and> K \<le> i) \<and>
     (\<forall>n \<in> S. mem_read (the (b_data (fr_buf x))) (nat (headroom fr) + n * sz) (length (chunk sz pkt n)) = chunk sz pkt n) \<and>
     b_len (fr_buf x) \<le> int (length pkt) \<and> (\<forall>n \<in> S. int (n * sz + length (chunk sz pkt n)) \<le> b_len (fr_buf x))"

definition slot_inv :: "frame \<Rightarrow> nat \<Rightarrow> bytes \<Rightarrow> nat \<Rightarrow> nat set \<Rightarrow> fragment \<Rightarrow> bool" where
  "slot_inv fr sz pkt K S x \<longleftrightarrow> frag_ok fr x \<and> (if S = {} then \<not> fr_defined x else filling fr sz pkt K S x)"

lemma length_chunk: "cut_ok fr sz pkt K \<Longrightarrow> n \<le> K \<Longrightarrow> n * sz + length (chunk sz pkt n) \<le> length pkt \<and> length (chunk sz pkt n) \<le> sz"
proof -
  assume a: "cut_ok fr sz pkt K" "n \<le> K"
  have "n * sz \<le> K * sz" using a(2) by (rule mult_le_mono1)
  also have "K * sz < length pkt" using a(1) by (simp add: cut_ok_def)
  finally have "n * sz < length pkt" .
  then show ?thesis by (auto simp: chunk_def min_def)
qed

lemma chunk_last: "cut_ok fr sz pkt K \<Longrightarrow> K * sz + length (chunk sz pkt K) = length pkt"
  by (auto simp: cut_ok_def chunk_def)

lemma filling_start:
  assumes fr: "frame_ok fr" and x: "slot_inv fr sz pkt K S x"
  shows "\<exists>x1. (if \<not> fr_defined x \<or> max_frag_size x \<noteq> int sz
      then map_option (\<lambda>b. x\<lparr>fr_defined := True, max_frag_size := int sz, fr_map := 0, fr_buf := b\<rparr>) (buf_init (fr_buf x) (headroom fr))
      else Some x) = Some x1 \<and> filling fr sz pkt K S x1"
proof (cases "S = {}")
  case True
  have b: "buf_ok (fr_buf x)" "b_capacity (fr_buf x) = BUF_SIZE fr" using x by (auto simp: slot_inv_def frag_ok_def buf_for_def)
  obtain b' where b': "buf_init (fr_buf x) (headroom fr) = Some b'" "buf_ok b'" "buf_content b' = []" "b_offset b' = headroom fr" "b_capacity b' = BUF_SIZE fr"
    using buf_init_ok [OF b(1), of "headroom fr"] b(2) frame_okD [OF fr] by auto
  have "b_len b' = 0" using length_buf_content [OF b'(2)] b'(3) by simp
  then show ?thesis using True x b' by (simp add: slot_inv_def filling_def frag_ok_def buf_for_def)
next
  case False
  then have "filling fr sz pkt K S x" using x by (simp add: slot_inv_def)
  then show ?thesis by (simp add: filling_def)
qed

lemma filling_copy:
  assumes fr: "frame_ok fr" and cut: "cut_ok fr sz pkt K" and x: "filling fr sz pkt K S x" and n: "n \<le> K"
    and b: "buf_ok buf" "buf_content buf = chunk sz pkt n"
  shows "\<exists>b'. buf_copy_range (fr_buf x) (int n * int sz) buf 0 (b_len buf) = Some b' \<and>
    filling fr sz pkt K (insert n S)
      (x\<lparr>fr_buf := b', fr_timestamp := now, fr_map := fr_map x OR push_bit (nat (int n)) (if n = K then FRAG_MAP_MASK else 1)\<rparr>)"
proof -
  note F = frame_okD [OF fr]
  have fb: "buf_ok (fr_buf x)" "b_capacity (fr_buf x) = BUF_SIZE fr" "b_offset (fr_buf x) = headroom fr"
    using x by (auto simp: filling_def frag_ok_def buf_for_def)
  obtain m where m: "b_data (fr_buf x) = Some m" "int (length m) = BUF_SIZE fr" using fb by (auto simp: buf_ok_def)
  have bl: "b_len buf = int (length (chunk sz pkt n))" using length_buf_content [OF b(1)] b(2) by simp
  note c = length_chunk [OF cut n]
  have cap: "int (length pkt) + headroom fr \<le> BUF_SIZE fr" using cut by (simp add: cut_ok_def BUF_SIZE_def)
  have fit: "b_offset (fr_buf x) + int n * int sz + b_len buf \<le> b_capacity (fr_buf x)"
    using c cap fb bl by (simp flip: of_nat_mult of_nat_add)
  define a where "a = nat (headroom fr) + n * sz"
  have ai: "nat (b_offset (fr_buf x) + int n * int sz) = a" using F fb by (simp add: a_def nat_add_distrib nat_mult_distrib)
  have "int (nat (headroom fr)) = headroom fr" using F(1) by simp
  then have am: "a + length (chunk sz pkt n) \<le> length m" using c cap m(2) unfolding a_def by linarith
  define b' where "b' = (fr_buf x)\<lparr>b_data := Some (mem_write m a (chunk sz pkt n)), b_len := max (b_len (fr_buf x)) (int n * int sz + b_len buf)\<rparr>"
  have r: "buf_copy_range (fr_buf x) (int n * int sz) buf 0 (b_len buf) = Some b'"
    using buf_copy_range_store [OF fb(1) m(1) b(1), of "int n * int sz"] fit ai b(2) by (simp add: b'_def)
  have ok': "buf_for fr b'" "b_offset b' = headroom fr"
    using fb fit am m x by (auto simp: b'_def buf_for_def buf_ok_def)
  have mem: "mem_read (mem_write m a (chunk sz pkt n)) (nat (headroom fr) + j * sz) (length (chunk sz pkt j)) = chunk sz pkt j"
    if "j \<in> insert n S" for j
  proof (cases "j = n")
    case True
    then show ?thesis using mem_read_write_same [OF am] by (simp add: a_def)
  next
    case False
    have j: "j \<in> S" "j \<le> K" using that False x by (auto simp: filling_def)
    have "j * sz + sz \<le> n * sz \<or> n * sz + sz \<le> j * sz"
      using False mult_le_mono1 [of "j + 1" n sz] mult_le_mono1 [of "n + 1" j sz] by (cases "j < n") auto
    then have "nat (headroom fr) + j * sz + length (chunk sz pkt j) \<le> a \<or> a + length (chunk sz pkt n) \<le> nat (headroom fr) + j * sz"
      using length_chunk [OF cut j(2)] c by (auto simp: a_def)
    then show ?thesis using mem_read_write_disjoint [OF am] j(1) x m(1) by (simp add: filling_def)
  qed
  have bits: "bit (fr_map x OR push_bit (nat (int n)) (if n = K then FRAG_MAP_MASK else 1)) i \<longleftrightarrow>
      i \<in> insert n S \<and> i < K \<or> K \<in> insert n S \<and> K \<le> i" if "i < 32" for i
    using that n x by (auto simp: filling_def frag_masks bit_simps)
  have "filling fr sz pkt K (insert n S)
      (x\<lparr>fr_buf := b', fr_timestamp := now, fr_map := fr_map x OR push_bit (nat (int n)) (if n = K then FRAG_MAP_MASK else 1)\<rparr>)"
    unfolding filling_def using x n ok' mem bits c bl
    by (auto simp: filling_def frag_ok_def b'_def simp flip: of_nat_mult of_nat_add)
  then show ?thesis using r by blast
qed

lemma filling_full:
  assumes "filling fr sz pkt K S x" "K < 32"
  shows "fr_map x AND FRAG_MAP_MASK = FRAG_MAP_MASK \<longleftrightarrow> S = {..K}"
proof -
  have "fr_map x AND FRAG_MAP_MASK = FRAG_MAP_MASK \<longleftrightarrow> (\<forall>i < 32. bit (fr_map x) i)"
    by (auto simp: bit_eq_iff frag_masks bit_simps)
  also have "\<dots> \<longleftrightarrow> (\<forall>i < 32. i \<in> S \<and> i < K \<or> K \<in> S \<and> K \<le> i)" using assms(1) by (auto simp: filling_def)
  also have "\<dots> \<longleftrightarrow> {..K} \<subseteq> S" (is "?l \<longleftrightarrow> ?r")
  proof
    assume l: ?l
    then have "K \<in> S" using assms(2) by auto
    moreover have "i \<in> S" if "i < K" for i using l that assms(2) by (metis less_trans not_less)
    ultimately show ?r by (auto simp: le_less)
  next
    assume ?r
    then show ?l by (auto simp: le_less subset_iff)
  qed
  also have "\<dots> \<longleftrightarrow> S = {..K}" using assms(1) by (auto simp: filling_def)
  finally show ?thesis .
qed

lemma filling_content:
  assumes fr: "frame_ok fr" and cut: "cut_ok fr sz pkt K" and x: "filling fr sz pkt K {..K} x"
  shows "buf_content (fr_buf x) = pkt"
proof -
  have fb: "buf_ok (fr_buf x)" "b_offset (fr_buf x) = headroom fr" using x by (auto simp: filling_def frag_ok_def buf_for_def)
  obtain m where m: "b_data (fr_buf x) = Some m" using fb by (auto simp: buf_ok_def)
  have len: "b_len (fr_buf x) = int (length pkt)" 
  proof -
    have "int (K * sz + length (chunk sz pkt K)) \<le> b_len (fr_buf x)" "b_len (fr_buf x) \<le> int (length pkt)" using x by (auto simp: filling_def)
    then show ?thesis using chunk_last [OF cut] by linarith
  qed
  let ?h = "nat (headroom fr)"
  have part: "mem_read m (?h + n * sz) (length (chunk sz pkt n)) = chunk sz pkt n" if "n \<le> K" for n
    using x m that by (simp add: filling_def)
  have "mem_read m ?h (n * sz) = take (n * sz) pkt" if "n \<le> K" for n
    using that
  proof (induction n)
    case (Suc n)
    have "(n + 1) * sz \<le> K * sz" using Suc.prems by (intro mult_le_mono1) simp
    then have "length (chunk sz pkt n) = sz" using cut by (auto simp: chunk_def cut_ok_def)
    then have "mem_read m (?h + n * sz) sz = take sz (drop (n * sz) pkt)" using part [of n] Suc.prems by (simp add: chunk_def)
    then show ?case using Suc mem_read_split [of m ?h "n * sz" sz] take_add [of "n * sz" sz pkt] by (simp add: add.commute [of sz])
  qed simp
  then have "mem_read m ?h (K * sz + length (chunk sz pkt K)) = take (K * sz) pkt @ chunk sz pkt K"
    using part [of K] by (simp add: mem_read_split)
  also have "\<dots> = pkt" using cut by (simp add: chunk_def cut_ok_def flip: take_add)
  finally show ?thesis using chunk_last [OF cut] fb(2) m len by (simp add: buf_content_def buf_load_def)
qed

lemma list_ok_update: "list_ok fr l \<Longrightarrow> frag_ok fr x \<Longrightarrow> list_ok fr (l\<lparr>fragments := (fragments l)[j := x]\<rparr>)"
  using list_ok_set(2) [of fr l x 0 0] by simp

lemma join_part:
  assumes fr: "frame_ok fr" and cut: "cut_ok fr sz pkt K" and n: "n \<le> K" and b: "buf_ok buf" "buf_content buf = chunk sz pkt n"
    and g: "fragment_list_get_buf (incoming f) q = Some (i, l)" "i < 25" "list_ok fr l" "slot_inv fr sz pkt K S (fragments l ! i)"
  shows "\<exists>x out. fragment_join f buf fr now (n = K) q (int n) (int sz) = Some (None, out, f\<lparr>incoming := l\<lparr>fragments := (fragments l)[i := x]\<rparr>\<rparr>) \<and>
    frag_ok fr x \<and> (if insert n S = {..K} then \<not> fr_defined x \<and> buf_ok out \<and> buf_content out = pkt
      else out = buf\<lparr>b_len := 0\<rparr> \<and> slot_inv fr sz pkt K (insert n S) x)"
proof -
  obtain x1 where x1: "(if \<not> fr_defined (fragments l ! i) \<or> max_frag_size (fragments l ! i) \<noteq> int sz
      then map_option (\<lambda>b. (fragments l ! i)\<lparr>fr_defined := True, max_frag_size := int sz, fr_map := 0, fr_buf := b\<rparr>)
        (buf_init (fr_buf (fragments l ! i)) (headroom fr))
      else Some (fragments l ! i)) = Some x1" "filling fr sz pkt K S x1"
    using filling_start [OF fr g(4)] by (elim exE conjE)
  define mk where "mk b' = x1\<lparr>fr_buf := b', fr_timestamp := now, fr_map := fr_map x1 OR push_bit (nat (int n)) (if n = K then FRAG_MAP_MASK else 1)\<rparr>" for b'
  obtain b' where b': "buf_copy_range (fr_buf x1) (int n * int sz) buf 0 (b_len buf) = Some b'" "filling fr sz pkt K (insert n S) (mk b')"
    using filling_copy [OF fr cut x1(2) n b, of now] unfolding mk_def by (elim exE conjE)
  have al: "int sz AND FRAG_SIZE_ROUND_MASK = 0"
    using cut by (simp add: frag_masks take_bit_eq_mask [symmetric] take_bit_eq_mod cut_ok_def) presburger
  have full: "fr_map (mk b') AND FRAG_MAP_MASK = FRAG_MAP_MASK \<longleftrightarrow> insert n S = {..K}"
    using filling_full [OF b'(2)] cut by (simp add: cut_ok_def)
  have j: "fragment_join f buf fr now (n = K) q (int n) (int sz) =
      (if insert n S = {..K} then Some (None, b', f\<lparr>incoming := l\<lparr>fragments := (fragments l)[i := (mk b')\<lparr>fr_defined := False\<rparr>]\<rparr>\<rparr>)
       else Some (None, buf\<lparr>b_len := 0\<rparr>, f\<lparr>incoming := l\<lparr>fragments := (fragments l)[i := mk b']\<rparr>\<rparr>))"
    unfolding full [symmetric] unfolding fragment_join_def g(1) using al x1(1) b'(1) by (simp add: Let_def mk_def)
  have fok: "frag_ok fr (mk b')" using b'(2) by (simp add: filling_def)
  show ?thesis
  proof (cases "insert n S = {..K}")
    case True
    have "buf_content (fr_buf (mk b')) = pkt" using filling_content [OF fr cut, of "mk b'"] b'(2) True by simp
    then have "buf_content b' = pkt" by (simp add: mk_def)
    then show ?thesis using j True fok by (auto simp: frag_ok_def mk_def buf_for_def intro!: exI [of _ "(mk b')\<lparr>fr_defined := False\<rparr>"])
  next
    case False
    then show ?thesis using j fok b'(2) by (auto simp: slot_inv_def intro!: exI [of _ "mk b'"])
  qed
qed

text \<open>The sequence number that a datagram carries if it is a fragment.\<close>

definition frag_seq :: "bytes \<Rightarrow> int option" where
  "frag_seq xs =
     (if length xs < 4 then None
      else let flags = of_be32 (take 4 xs); t = drop_bit FRAG_TYPE_SHIFT flags AND FRAG_TYPE_MASK
           in if t = FRAG_YES_NOTLAST \<or> t = FRAG_YES_LAST then Some (uint (drop_bit FRAG_SEQ_ID_SHIFT flags AND FRAG_SEQ_ID_MASK)) else None)"

lemma incoming_part:
  assumes cut: "cut_ok fr sz pkt K" and n: "n \<le> K" and b: "buf_ok buf" "buf_content buf = frag_packet q sz pkt n" and q: "0 \<le> q" "q < 256"
  shows "\<exists>buf1. buf_ok buf1 \<and> buf_content buf1 = chunk sz pkt n \<and>
    fragment_incoming f buf fr now = fragment_join f buf1 fr now (n = K) q (int n) (int sz)"
proof -
  define t where "t = (if length pkt \<le> (n + 1) * sz then FRAG_YES_LAST else FRAG_YES_NOTLAST)"
  have c: "buf_content buf = be32 (fragment_flags t q (int n) (int sz)) @ chunk sz pkt n" using b(2) by (simp add: frag_packet_def t_def)
  obtain buf1 where r: "buf_read buf 4 = (Some (be32 (fragment_flags t q (int n) (int sz))), buf1)" "buf_ok buf1" "buf_content buf1 = chunk sz pkt n"
    using ob.rd_field [OF b(1) c] by auto
  have nK: "length pkt \<le> (n + 1) * sz \<longleftrightarrow> n = K"
  proof
    assume l: "length pkt \<le> (n + 1) * sz"
    have "K * sz < (n + 1) * sz" using l cut by (simp add: cut_ok_def)
    then have "K < n + 1" by (rule mult_less_cancel2 [THEN iffD1, THEN conjunct2])
    then show "n = K" using n by simp
  qed (use cut in \<open>simp add: cut_ok_def\<close>)
  have t': "t = (if n = K then FRAG_YES_LAST else FRAG_YES_NOTLAST)" using nK by (simp add: t_def)
  have ty: "drop_bit FRAG_TYPE_SHIFT (fragment_flags t q (int n) (int sz)) AND FRAG_TYPE_MASK = t"
    by (rule fragment_flags_type) (simp add: t')
  have sq: "uint (drop_bit FRAG_SEQ_ID_SHIFT (fragment_flags t q (int n) (int sz)) AND FRAG_SEQ_ID_MASK) = q" by (rule fragment_flags_seq [OF q])
  have id: "uint (drop_bit FRAG_ID_SHIFT (fragment_flags t q (int n) (int sz)) AND FRAG_ID_MASK) = int n"
    by (rule fragment_flags_id) (use n cut in \<open>auto simp: cut_ok_def\<close>)
  have szl: "sint (push_bit FRAG_SIZE_ROUND_SHIFT (drop_bit FRAG_SIZE_SHIFT (fragment_flags t q (int n) (int sz)) AND FRAG_SIZE_MASK)) = int sz" if "n = K"
    unfolding t' if_P [OF that] by (rule fragment_flags_size) (use cut in \<open>auto simp: cut_ok_def zmod_int [symmetric]\<close>)
  have szn: "b_len buf1 = int sz" if "n \<noteq> K"
  proof -
    have "(n + 1) * sz < length pkt" using nK that by simp
    then show ?thesis using length_buf_content [OF r(2)] r(3) by (simp add: chunk_def)
  qed
  have pos: "0 < b_len buf" using length_buf_content [OF b(1)] c by simp
  have k: "FRAG_YES_LAST \<noteq> FRAG_WHOLE" "FRAG_YES_NOTLAST \<noteq> FRAG_WHOLE" "FRAG_YES_LAST \<noteq> FRAG_YES_NOTLAST" by (simp_all add: frag_consts)
  have "fragment_incoming f buf fr now = fragment_join f buf1 fr now (n = K) q (int n) (int sz)"
    unfolding fragment_incoming_def using pos r(1) ty sq id szl szn k by (auto simp: Let_def t')
  then show ?thesis using r(2,3) by blast
qed

text \<open>Any datagram at all: the receiver does not fail, keeps its state well formed, and touches only the buffer of the
  sequence number.\<close>

lemma join_any:
  assumes fr: "frame_ok fr" and b: "buf_ok buf" and p: "0 \<le> n" "0 \<le> sz"
    and g: "fragment_list_get_buf (incoming f) q = Some (i, l)" "i < 25" "list_ok fr l"
  shows "\<exists>err out x. fragment_join f buf fr now lst q n sz = Some (err, out, f\<lparr>incoming := l\<lparr>fragments := (fragments l)[i := x]\<rparr>\<rparr>) \<and>
    buf_ok out \<and> frag_ok fr x"
proof (cases "sz AND FRAG_SIZE_ROUND_MASK = 0")
  case False
  have "f\<lparr>incoming := l\<rparr> = f\<lparr>incoming := l\<lparr>fragments := (fragments l)[i := fragments l ! i]\<rparr>\<rparr>" by simp
  moreover have "buf_ok (buf\<lparr>b_len := 0\<rparr>)" using b by (auto simp: buf_ok_def)
  ultimately show ?thesis using False g list_okD(2) [OF g(3,2)] by (auto simp: fragment_join_def Let_def simp del: list_update_id)
next
  case True
  let ?x = "fragments l ! i"
  have fx: "frag_ok fr ?x" using list_okD(2) [OF g(3,2)] .
  define x1 where "x1 = (if \<not> fr_defined ?x \<or> max_frag_size ?x \<noteq> sz
      then ?x\<lparr>fr_defined := True, max_frag_size := sz, fr_map := 0, fr_buf := the (buf_init (fr_buf ?x) (headroom fr))\<rparr> else ?x)"
  obtain b1 where b1: "buf_init (fr_buf ?x) (headroom fr) = Some b1" "buf_for fr b1" "b_offset b1 = headroom fr"
    using buf_init_ok [of "fr_buf ?x" "headroom fr"] fx frame_okD [OF fr] by (auto simp: frag_ok_def buf_for_def)
  have ok1: "frag_ok fr x1" "fr_defined x1" using fx b1 by (auto simp: x1_def frag_ok_def)
  have e1: "(if \<not> fr_defined ?x \<or> max_frag_size ?x \<noteq> sz
      then map_option (\<lambda>b. ?x\<lparr>fr_defined := True, max_frag_size := sz, fr_map := 0, fr_buf := b\<rparr>) (buf_init (fr_buf ?x) (headroom fr))
      else Some ?x) = Some x1" using b1(1) by (simp add: x1_def)
  have bo: "buf_ok (fr_buf x1)" using ok1 by (simp add: frag_ok_def buf_for_def)
  then obtain m where m: "b_data (fr_buf x1) = Some m" by (auto simp: buf_ok_def)
  note cr = buf_copy_range_store [OF bo m b, of "n * sz"]
  have pn: "0 \<le> n * sz" using p by simp
  show ?thesis
  proof (cases "buf_copy_range (fr_buf x1) (n * sz) buf 0 (b_len buf)")
    case None
    have "buf_ok (buf\<lparr>b_len := 0\<rparr>)" using b by (auto simp: buf_ok_def)
    then show ?thesis using True g e1 None ok1(1) by (auto simp: fragment_join_def Let_def)
  next
    case (Some b2)
    have "buf_for fr b2" "b_offset b2 = b_offset (fr_buf x1)"
      using Some cr [OF pn] ok1 m b pn length_buf_content [OF b]
      by (auto simp: frag_ok_def buf_for_def buf_ok_def split: if_splits)
    then have ok2: "frag_ok fr (x1\<lparr>fr_buf := b2, fr_timestamp := t, fr_map := mp, fr_defined := d\<rparr>)"
      "frag_ok fr (x1\<lparr>fr_buf := b2, fr_timestamp := t, fr_map := mp\<rparr>)" "buf_ok b2" "buf_ok (buf\<lparr>b_len := 0\<rparr>)" for t mp d
      using ok1 b by (auto simp: frag_ok_def buf_for_def buf_ok_def)
    define x2 where "x2 = x1\<lparr>fr_buf := b2, fr_timestamp := now, fr_map := fr_map x1 OR push_bit (nat n) (if lst then FRAG_MAP_MASK else 1)\<rparr>"
    have "fragment_join f buf fr now lst q n sz = (if fr_map x2 AND FRAG_MAP_MASK = FRAG_MAP_MASK
        then Some (None, b2, f\<lparr>incoming := l\<lparr>fragments := (fragments l)[i := x2\<lparr>fr_defined := False\<rparr>]\<rparr>\<rparr>)
        else Some (None, buf\<lparr>b_len := 0\<rparr>, f\<lparr>incoming := l\<lparr>fragments := (fragments l)[i := x2]\<rparr>\<rparr>))"
      unfolding fragment_join_def g(1) using True e1 Some by (simp add: Let_def x2_def)
    moreover have "frag_ok fr x2" "frag_ok fr (x2\<lparr>fr_defined := False\<rparr>)" using ok2 by (simp_all add: x2_def)
    ultimately show ?thesis using ok2(3,4) by (cases "fr_map x2 AND FRAG_MAP_MASK = FRAG_MAP_MASK") (simp, blast)+
  qed
qed

lemma sint_not_negative: "\<not> bit (w :: u32) 31 \<Longrightarrow> 0 \<le> sint w"
  using bit_last_iff [of w] by simp

lemma incoming_any:
  assumes fr: "frame_ok fr" and f: "list_ok fr (incoming f)" and b: "buf_ok buf"
  shows "\<exists>err out f'. fragment_incoming f buf fr now = Some (err, out, f') \<and> buf_ok out \<and>
    (case frag_seq (buf_content buf) of
       None \<Rightarrow> f' = f
     | Some q \<Rightarrow> 0 \<le> q \<and> q < 256 \<and> (\<exists>i l x. fragment_list_get_buf (incoming f) q = Some (i, l) \<and> i < 25 \<and> list_ok fr l \<and> frag_ok fr x \<and>
         f' = f\<lparr>incoming := l\<lparr>fragments := (fragments l)[i := x]\<rparr>\<rparr>))"
proof -
  have z: "buf_ok (c\<lparr>b_len := 0\<rparr>)" if "buf_ok c" for c :: buffer using that by (auto simp: buf_ok_def)
  have bl: "b_len buf = int (length (buf_content buf))" using length_buf_content [OF b] by simp
  show ?thesis
  proof (cases "4 \<le> length (buf_content buf)")
    case False
    then have "frag_seq (buf_content buf) = None" "buf_read buf 4 = (None, buf)" using buf_read_short [OF b] by (simp_all add: frag_seq_def)
    then show ?thesis using b z [OF b] by (auto simp: fragment_incoming_def)
  next
    case True
    obtain buf1 where r: "buf_read buf 4 = (Some (take 4 (buf_content buf)), buf1)" "buf_ok buf1"
      using buf_read_content [OF b True] by blast
    define flags where "flags = of_be32 (take 4 (buf_content buf))"
    define t where "t = drop_bit FRAG_TYPE_SHIFT flags AND FRAG_TYPE_MASK"
    define q where "q = uint (drop_bit FRAG_SEQ_ID_SHIFT flags AND FRAG_SEQ_ID_MASK)"
    have sq: "frag_seq (buf_content buf) = (if t = FRAG_YES_NOTLAST \<or> t = FRAG_YES_LAST then Some q else None)"
      using True by (simp add: frag_seq_def Let_def flags_def t_def q_def)
    have pos: "0 < b_len buf" using bl True by linarith
    show ?thesis
    proof (cases "t = FRAG_YES_NOTLAST \<or> t = FRAG_YES_LAST")
      case False
      then show ?thesis using pos r sq z [OF r(2)] unfolding fragment_incoming_def
        by (simp add: Let_def flags_def [symmetric] t_def [symmetric])
    next
      case frag: True
      let ?n = "uint (drop_bit FRAG_ID_SHIFT flags AND FRAG_ID_MASK)"
      let ?z = "if t = FRAG_YES_LAST then sint (push_bit FRAG_SIZE_ROUND_SHIFT (drop_bit FRAG_SIZE_SHIFT flags AND FRAG_SIZE_MASK)) else b_len buf1"
      have q: "0 \<le> q" "q < 256" using take_bit_int_less_exp [of 8 "uint (drop_bit FRAG_SEQ_ID_SHIFT flags)"]
        by (simp_all add: q_def frag_masks take_bit_eq_mask [symmetric] unsigned_take_bit_eq)
      have zp: "0 \<le> ?z"
      proof (cases "t = FRAG_YES_LAST")
        case True
        have "\<not> bit (push_bit FRAG_SIZE_ROUND_SHIFT (drop_bit FRAG_SIZE_SHIFT flags AND FRAG_SIZE_MASK)) 31"
          by (simp add: frag_masks FRAG_SIZE_ROUND_SHIFT_def bit_simps)
        from sint_not_negative [OF this] show ?thesis using True by (simp only: if_P)
      qed (use r(2) in \<open>simp add: buf_ok_def\<close>)
      obtain i l where g: "fragment_list_get_buf (incoming f) q = Some (i, l)" "i < 25" "list_ok fr l" using get_buf_ok [OF f q] by blast
      have np: "0 \<le> ?n" by simp
      obtain err out x where j: "fragment_join f buf1 fr now (t = FRAG_YES_LAST) q ?n ?z =
          Some (err, out, f\<lparr>incoming := l\<lparr>fragments := (fragments l)[i := x]\<rparr>\<rparr>)" "buf_ok out" "frag_ok fr x"
        using join_any [OF fr r(2) np zp g] by blast
      have w: "t \<noteq> FRAG_WHOLE" using frag by (auto simp: frag_consts)
      have "fragment_incoming f buf fr now = fragment_join f buf1 fr now (t = FRAG_YES_LAST) q ?n ?z"
        unfolding fragment_incoming_def using pos r(1) frag w
        by (simp add: Let_def flags_def [symmetric] t_def [symmetric] q_def [symmetric])
      then show ?thesis using j g q sq frag by auto
    qed
  qed
qed

lemma incoming_any_ok:
  assumes "frame_ok fr" "list_ok fr (incoming f)" "buf_ok buf"
  shows "\<exists>err out f'. fragment_incoming f buf fr now = Some (err, out, f') \<and> list_ok fr (incoming f')"
  using incoming_any [OF assms, of now] assms(2) list_ok_update by (auto split: option.splits)

section \<open>Reassembly\<close>

text \<open>Sequence numbers in a range that the window can hold.\<close>

definition near :: "int \<Rightarrow> int \<Rightarrow> bool" where
  "near b s \<longleftrightarrow> (\<exists>k. 0 \<le> k \<and> k \<le> 24 \<and> s = (b + k) mod 256)"

text \<open>What a receiver gets: parts of one datagram, in any order and any number of times, as long as they do not complete it, and
  between them any other datagrams, fragments with other near sequence numbers included.\<close>

inductive frag_recv :: "frame \<Rightarrow> int \<Rightarrow> int \<Rightarrow> bytes list \<Rightarrow> fragment_master \<Rightarrow> nat set \<Rightarrow> fragment_master \<Rightarrow> bool" for fr b q parts g where
  recv_start: "frag_recv fr b q parts g {} g"
| recv_part: "frag_recv fr b q parts g S g1 \<Longrightarrow> n < length parts \<Longrightarrow> buf_ok buf \<Longrightarrow> buf_content buf = parts ! n \<Longrightarrow>
    insert n S \<noteq> {..<length parts} \<Longrightarrow> fragment_incoming g1 buf fr now = Some (err, out, g2) \<Longrightarrow> frag_recv fr b q parts g (insert n S) g2"
| recv_other: "frag_recv fr b q parts g S g1 \<Longrightarrow> buf_ok buf \<Longrightarrow>
    (case frag_seq (buf_content buf) of None \<Rightarrow> True | Some s \<Rightarrow> s \<noteq> q \<and> near b s) \<Longrightarrow>
    fragment_incoming g1 buf fr now = Some (err, out, g2) \<Longrightarrow> frag_recv fr b q parts g S g2"

text \<open>The window stands in the range or is far from it, and the buffer of the number is free.\<close>

definition far :: "int \<Rightarrow> fragment_list \<Rightarrow> bool" where
  "far b l \<longleftrightarrow> (\<forall>k d. 0 \<le> k \<and> k \<le> 24 \<and> modulo_subtract ((b + k) mod 256) (fl_seq_id l) 256 = Some d \<longrightarrow> 25 \<le> \<bar>d\<bar>)"

definition window_free :: "int \<Rightarrow> int \<Rightarrow> fragment_list \<Rightarrow> bool" where
  "window_free b q l \<longleftrightarrow> (near b (fl_seq_id l) \<or> far b l) \<and>
     (\<forall>i l'. fragment_list_get_buf l q = Some (i, l') \<longrightarrow> \<not> fr_defined (fragments l' ! i))"

definition win :: "frame \<Rightarrow> int \<Rightarrow> fragment_list \<Rightarrow> int \<Rightarrow> int \<Rightarrow> bool" where
  "win fr b l c t \<longleftrightarrow> list_ok fr l \<and> 0 \<le> t \<and> t \<le> 24 \<and> fl_seq_id l = (b + t) mod 256 \<and> fl_index l = (c + t) mod 25"

text \<open>The buffer of number \<open>b + k\<close> holds the parts \<open>S\<close>; a number ahead of the window has none.\<close>

definition holds :: "frame \<Rightarrow> nat \<Rightarrow> bytes \<Rightarrow> nat \<Rightarrow> int \<Rightarrow> nat set \<Rightarrow> fragment_list \<Rightarrow> int \<Rightarrow> int \<Rightarrow> bool" where
  "holds fr sz pkt K k S l c t \<longleftrightarrow> (if k \<le> t then slot_inv fr sz pkt K S (fragments l ! slot c k) else S = {})"

definition window_inv :: "frame \<Rightarrow> int \<Rightarrow> nat \<Rightarrow> bytes \<Rightarrow> nat \<Rightarrow> int \<Rightarrow> nat set \<Rightarrow> fragment_list \<Rightarrow> bool" where
  "window_inv fr b sz pkt K k S l \<longleftrightarrow> (\<exists>c t. win fr b l c t \<and> holds fr sz pkt K k S l c t) \<or> list_ok fr l \<and> S = {} \<and> far b l"

lemma window_inv_get:
  assumes w: "window_inv fr b sz pkt K k S l" and k: "0 \<le> k" "k \<le> 24" and j: "0 \<le> j" "j \<le> 24"
  shows "\<exists>l' c t. fragment_list_get_buf l ((b + j) mod 256) = Some (slot c j, l') \<and> win fr b l' c t \<and> j \<le> t \<and> holds fr sz pkt K k S l' c t"
  using w unfolding window_inv_def
proof (elim disjE exE conjE)
  fix c t assume l: "win fr b l c t" "holds fr sz pkt K k S l c t"
  have d: "list_ok fr l" "fl_seq_id l = (b + t) mod 256" "fl_index l = (c + t) mod 25" "\<bar>j - t\<bar> \<le> 24" using l(1) j by (auto simp: win_def)
  obtain l' where l': "fragment_list_get_buf l ((b + j) mod 256) = Some (slot c j, l')" "list_ok fr l'" "fl_seq_id l' = (b + max t j) mod 256"
    "fl_index l' = (c + max t j) mod 25" "\<forall>i. max t j - 24 \<le> i \<and> i \<le> t \<longrightarrow> fragments l' ! slot c i = fragments l ! slot c i"
    "\<forall>i. t < i \<and> i \<le> j \<longrightarrow> \<not> fr_defined (fragments l' ! slot c i)"
    using get_buf_range [OF d] by (elim exE conjE)
  have t: "0 \<le> t" "t \<le> 24" using l(1) by (auto simp: win_def)
  then have w': "win fr b l' c (max t j)" using l'(2-4) j by (auto simp: win_def)
  have "holds fr sz pkt K k S l' c (max t j)"
  proof (cases "k \<le> t")
    case True
    then show ?thesis using l(2) l'(5) k t j by (auto simp: holds_def)
  next
    case False
    then show ?thesis using l(2) l'(6) list_okD(2) [OF l'(2) slot_less] by (auto simp: holds_def slot_inv_def)
  qed
  then show ?thesis using l'(1) w' by fastforce
next
  assume l: "list_ok fr l" "S = {}" "far b l"
  have s: "0 \<le> (b + j) mod 256" "(b + j) mod 256 < 256" by simp_all
  obtain d where d: "modulo_subtract ((b + j) mod 256) (fl_seq_id l) 256 = Some d" using l(1) s
    by (auto simp: modulo_subtract_def list_ok_def Let_def)
  have "25 \<le> \<bar>d\<bar>" using l(3) d j unfolding far_def by blast
  then obtain l' where l': "fragment_list_get_buf l ((b + j) mod 256) = Some (0, l')" "list_ok fr l'" "fl_seq_id l' = (b + j) mod 256" "fl_index l' = 0"
    "\<forall>i < 25. \<not> fr_defined (fragments l' ! i)" using get_buf_far [OF l(1) s d] by blast
  have "slot (- j) j = 0" by (simp add: slot_def)
  moreover have "win fr b l' (- j) j" using l'(2-4) j by (simp add: win_def)
  moreover have "holds fr sz pkt K k S l' (- j) j" using l(2) l'(2,5) list_okD(2) by (auto simp: holds_def slot_inv_def)
  ultimately show ?thesis using l'(1) by fastforce
qed

lemma window_inv_part:
  assumes fr: "frame_ok fr" and cut: "cut_ok fr sz pkt K" and w: "window_inv fr b sz pkt K k S (incoming g)" and k: "0 \<le> k" "k \<le> 24"
    and n: "n \<le> K" and x: "buf_ok x" "buf_content x = frag_packet ((b + k) mod 256) sz pkt n"
  shows "\<exists>out g'. fragment_incoming g x fr now = Some (None, out, g') \<and>
    (if insert n S = {..K} then buf_ok out \<and> buf_content out = pkt \<and> window_inv fr b sz pkt K k {} (incoming g')
     else b_len out = 0 \<and> window_inv fr b sz pkt K k (insert n S) (incoming g'))"
proof -
  have q: "0 \<le> (b + k) mod 256" "(b + k) mod 256 < 256" by simp_all
  obtain x1 where x1: "buf_ok x1" "buf_content x1 = chunk sz pkt n"
    "fragment_incoming g x fr now = fragment_join g x1 fr now (n = K) ((b + k) mod 256) (int n) (int sz)"
    using incoming_part [OF cut n x q, of g now] by (elim exE conjE)
  obtain l c t where l: "fragment_list_get_buf (incoming g) ((b + k) mod 256) = Some (slot c k, l)" "win fr b l c t" "k \<le> t"
    "holds fr sz pkt K k S l c t" using window_inv_get [OF w k k] by (elim exE conjE)
  have ok: "list_ok fr l" "slot_inv fr sz pkt K S (fragments l ! slot c k)" using l(2-4) by (simp_all add: win_def holds_def)
  obtain y out where j: "fragment_join g x1 fr now (n = K) ((b + k) mod 256) (int n) (int sz) =
      Some (None, out, g\<lparr>incoming := l\<lparr>fragments := (fragments l)[slot c k := y]\<rparr>\<rparr>)" "frag_ok fr y"
    "if insert n S = {..K} then \<not> fr_defined y \<and> buf_ok out \<and> buf_content out = pkt
     else out = x1\<lparr>b_len := 0\<rparr> \<and> slot_inv fr sz pkt K (insert n S) y"
    using join_part [OF fr cut n x1(1,2) l(1) slot_less ok, of now] by (elim exE conjE)
  let ?l = "l\<lparr>fragments := (fragments l)[slot c k := y]\<rparr>"
  have "win fr b ?l c t" using l(2) list_ok_update [OF ok(1) j(2)] by (simp add: win_def)
  moreover have "holds fr sz pkt K k T ?l c t" if "slot_inv fr sz pkt K T y" for T
    using list_okD(1) [OF ok(1)] l(3) that by (simp add: holds_def)
  ultimately have "window_inv fr b sz pkt K k T ?l" if "slot_inv fr sz pkt K T y" for T
    using that unfolding window_inv_def by blast
  then show ?thesis using x1(3) j by (auto simp: slot_inv_def split: if_splits)
qed

lemma window_inv_other:
  assumes fr: "frame_ok fr" and w: "window_inv fr b sz pkt K k S (incoming g)" and k: "0 \<le> k" "k \<le> 24" and x: "buf_ok x"
    and s: "case frag_seq (buf_content x) of None \<Rightarrow> True | Some s \<Rightarrow> s \<noteq> (b + k) mod 256 \<and> near b s"
    and r: "fragment_incoming g x fr now = Some (err, out, g')"
  shows "window_inv fr b sz pkt K k S (incoming g')"
proof -
  have lo: "list_ok fr (incoming g)" using w by (auto simp: window_inv_def win_def)
  show ?thesis
  proof (cases "frag_seq (buf_content x)")
    case None
    then show ?thesis using incoming_any [OF fr lo x, of now] r w by auto
  next
    case (Some q)
    then obtain j where j: "0 \<le> j" "j \<le> 24" "q = (b + j) mod 256" "j \<noteq> k" using s by (auto simp: near_def)
    obtain l c t where l: "fragment_list_get_buf (incoming g) q = Some (slot c j, l)" "win fr b l c t" "holds fr sz pkt K k S l c t"
      using window_inv_get [OF w k j(1,2)] j(3) by blast
    obtain y where y: "frag_ok fr y" "g' = g\<lparr>incoming := l\<lparr>fragments := (fragments l)[slot c j := y]\<rparr>\<rparr>"
      using incoming_any [OF fr lo x, of now] r Some l(1) by auto
    have "slot c j \<noteq> slot c k" by (rule slot_inj) (use j k in auto)
    then have "holds fr sz pkt K k S (incoming g') c t" using l(3) y(2) by (simp add: holds_def)
    moreover have "win fr b (incoming g') c t" using l(2) list_ok_update [OF _ y(1)] y(2) by (simp add: win_def)
    ultimately show ?thesis unfolding window_inv_def by blast
  qed
qed

lemma window_free_inv:
  assumes l: "list_ok fr l" and q: "0 \<le> k" "k \<le> 24" and w: "window_free b ((b + k) mod 256) l"
  shows "window_inv fr b sz pkt K k {} l"
proof (cases "far b l")
  case True
  then show ?thesis using l by (simp add: window_inv_def)
next
  case False
  then obtain t where t: "0 \<le> t" "t \<le> 24" "fl_seq_id l = (b + t) mod 256" using w by (auto simp: window_free_def near_def)
  define c where "c = fl_index l - t"
  have ix: "fl_index l = (c + t) mod 25" using l by (simp add: c_def list_ok_def)
  have "slot_inv fr sz pkt K {} (fragments l ! slot c k)" if "k \<le> t"
  proof -
    have d: "\<bar>k - t\<bar> \<le> 24" using t q by auto
    obtain l' where l': "fragment_list_get_buf l ((b + k) mod 256) = Some (slot c k, l')"
      "\<forall>j. max t k - 24 \<le> j \<and> j \<le> t \<longrightarrow> fragments l' ! slot c j = fragments l ! slot c j"
      using get_buf_range [OF l t(3) ix d] by (elim exE conjE)
    moreover have "fragments l' ! slot c k = fragments l ! slot c k" using l'(2) that t q by auto
    ultimately have "fragment_list_get_buf l ((b + k) mod 256) = Some (slot c k, l')" "fragments l' ! slot c k = fragments l ! slot c k" by simp_all
    then have "\<not> fr_defined (fragments l ! slot c k)" using w unfolding window_free_def by metis
    then show ?thesis using list_okD(2) [OF l slot_less] by (simp add: slot_inv_def)
  qed
  then have "holds fr sz pkt K k {} l c t" by (simp add: holds_def)
  moreover have "win fr b l c t" using l t ix by (simp add: win_def)
  ultimately show ?thesis unfolding window_inv_def by (intro disjI1 exI conjI)
qed

lemma recv_window_inv:
  assumes "frag_recv fr b ((b + k) mod 256) (map (frag_packet ((b + k) mod 256) sz pkt) [0..<K + 1]) g S g1"
    and fr: "frame_ok fr" and cut: "cut_ok fr sz pkt K" and k: "0 \<le> k" "k \<le> 24" and g: "window_inv fr b sz pkt K k {} (incoming g)"
  shows "window_inv fr b sz pkt K k S (incoming g1)"
  using assms(1)
proof induction
  case recv_start
  show ?case using g .
next
  case (recv_part S g1 n buf now err out g2)
  have n: "n \<le> K" "buf_content buf = frag_packet ((b + k) mod 256) sz pkt n" using recv_part.hyps by (simp_all del: upt_Suc)
  have "insert n S \<noteq> {..K}" using recv_part.hyps(5) by (simp add: lessThan_Suc_atMost)
  then show ?case using window_inv_part [OF fr cut recv_part.IH k n(1) recv_part.hyps(3) n(2), of now] recv_part.hyps(6) by auto
next
  case (recv_other S g1 buf now err out g2)
  then show ?case using window_inv_other [OF fr _ k] by blast
qed

section \<open>All operations\<close>

text \<open>What can happen to the component, and that every operation keeps its state well formed.\<close>

datatype frag_event = FragIn buffer int | FragOut buffer | FragReady | FragWake int

fun frag_event_ok :: "frame \<Rightarrow> frag_event \<Rightarrow> bool" where
  "frag_event_ok fr (FragIn buf now) \<longleftrightarrow> buf_ok buf"
| "frag_event_ok fr (FragOut buf) \<longleftrightarrow> buf_ok buf \<and> 4 \<le> b_offset buf \<and> b_len buf \<le> payload_size fr + tailroom fr"
| "frag_event_ok fr FragReady \<longleftrightarrow> True"
| "frag_event_ok fr (FragWake now) \<longleftrightarrow> True"

fun frag_step :: "frame \<Rightarrow> fragment_master \<Rightarrow> frag_event \<Rightarrow> (buffer \<times> fragment_master) option" where
  "frag_step fr f (FragIn buf now) = map_option (\<lambda>(e, b, g). (b, g)) (fragment_incoming f buf fr now)"
| "frag_step fr f (FragOut buf) = map_option (\<lambda>(e, b, g). (b, g)) (fragment_outgoing f buf fr)"
| "frag_step fr f FragReady = map_option (\<lambda>(e, b, g). (b, g)) (fragment_ready_to_send f clear_buf fr)"
| "frag_step fr f (FragWake now) = Some (clear_buf, fragment_wakeup now f)"

primrec frag_run :: "frame \<Rightarrow> fragment_master \<Rightarrow> frag_event list \<Rightarrow> (buffer list \<times> fragment_master) option" where
  "frag_run fr f [] = Some ([], f)"
| "frag_run fr f (e # es) =
     (case frag_step fr f e of
        None \<Rightarrow> None | Some (b, g) \<Rightarrow> map_option (\<lambda>(bs, h). (b # bs, h)) (frag_run fr g es))"

definition frag_master_inv :: "frame \<Rightarrow> fragment_master \<Rightarrow> bool" where
  "frag_master_inv fr f \<longleftrightarrow> master_ok fr f \<and> (fragment_outgoing_defined f \<longrightarrow>
     b_len (outgoing f) \<le> payload_size fr + tailroom fr \<and> 0 < outgoing_frag_size f \<and> 0 \<le> outgoing_frag_id f)"

lemma sender_inv_master:
  assumes "sender_inv fr q sz pkt n f" "0 < sz" "int (length pkt - n * sz) \<le> payload_size fr + tailroom fr"
  shows "frag_master_inv fr f"
proof -
  have b: "buf_ok (outgoing f)" "buf_content (outgoing f) = drop (n * sz) pkt" using assms(1) by (auto simp: sender_inv_def master_ok_def buf_for_def)
  have "b_len (outgoing f) = int (length pkt - n * sz)" using length_buf_content [OF b(1)] b(2) by simp
  then show ?thesis using assms by (simp add: frag_master_inv_def sender_inv_def)
qed

lemma ready_any:
  assumes fr: "frame_ok fr" and f: "frag_master_inv fr f"
  shows "\<exists>r b g. fragment_ready_to_send f buf fr = Some (r, b, g) \<and> frag_master_inv fr g"
proof (cases "fragment_outgoing_defined f")
  case False
  then show ?thesis using f by (auto simp: fragment_ready_to_send_def)
next
  case True
  define sz n where "sz = nat (outgoing_frag_size f)" and "n = nat (outgoing_frag_id f)"
  define pkt where "pkt = replicate (n * sz) 0 @ buf_content (outgoing f)"
  have o: "buf_ok (outgoing f)" using f by (simp add: frag_master_inv_def master_ok_def buf_for_def)
  have len: "length pkt = n * sz + nat (b_len (outgoing f))" using length_buf_content [OF o] by (simp add: pkt_def)
  have s: "sender_inv fr (outgoing_seq_id f) sz pkt n f" using f True by (simp add: sender_inv_def frag_master_inv_def sz_def n_def pkt_def)
  have p: "n * sz < length pkt" "0 < sz" "int (length pkt - n * sz) \<le> payload_size fr + tailroom fr"
    using f True len by (auto simp: frag_master_inv_def sz_def fragment_outgoing_defined_def)
  obtain b g where g: "fragment_ready_to_send f buf fr = Some (True, b, g)" "sender_inv fr (outgoing_seq_id f) sz pkt (n + 1) g"
    using ready_to_send_step [OF fr s p, of buf] by (elim exE conjE)
  have "length pkt - (n + 1) * sz \<le> length pkt - n * sz" by (intro diff_le_mono2 mult_le_mono1) simp
  then have "int (length pkt - (n + 1) * sz) \<le> payload_size fr + tailroom fr" using p(3) by linarith
  then show ?thesis using g sender_inv_master [OF g(2) p(2)] by blast
qed

lemma frag_step_inv:
  assumes fr: "frame_ok fr" and f: "frag_master_inv fr f" and e: "frag_event_ok fr e"
  shows "\<exists>b g. frag_step fr f e = Some (b, g) \<and> frag_master_inv fr g"
proof (cases e)
  case (FragIn buf now)
  have l: "list_ok fr (incoming f)" and b: "buf_ok buf" using f e FragIn by (simp_all add: frag_master_inv_def master_ok_def)
  obtain err out g where r: "fragment_incoming f buf fr now = Some (err, out, g)" "case frag_seq (buf_content buf) of None \<Rightarrow> g = f
      | Some q \<Rightarrow> 0 \<le> q \<and> q < 256 \<and> (\<exists>i l x. fragment_list_get_buf (incoming f) q = Some (i, l) \<and> i < 25 \<and> list_ok fr l \<and> frag_ok fr x \<and>
         g = f\<lparr>incoming := l\<lparr>fragments := (fragments l)[i := x]\<rparr>\<rparr>)" using incoming_any [OF fr l b, of now] by (elim exE conjE)
  then have "frag_master_inv fr g" using f list_ok_update
    by (auto simp: frag_master_inv_def master_ok_def fragment_outgoing_defined_def split: option.splits)
  then show ?thesis using r(1) FragIn by simp
next
  case (FragOut buf)
  then have b: "buf_ok buf" "4 \<le> b_offset buf" "b_len buf \<le> payload_size fr + tailroom fr" using e by simp_all
  have m: "master_ok fr f" using f by (simp add: frag_master_inv_def)
  have bl: "b_len buf = int (length (buf_content buf))" using length_buf_content [OF b(1)] by simp
  have len: "int (length (buf_content buf)) \<le> payload_size fr + tailroom fr" using b(3) bl by simp
  show ?thesis
  proof (cases "max_fragment_size fr < int (length (buf_content buf))")
    case False
    then show ?thesis using prepend_flags [OF b(1,2), of FRAG_WHOLE 0 0 0] f FragOut bl by (auto simp: fragment_outgoing_def)
  next
    case True
    obtain sz c where s: "optimal_fragment_size (int (length (buf_content buf))) (max_fragment_size fr) = Some (int sz)" "4 \<le> sz"
      using fragment_size_choice [OF True frame_okD(5) [OF fr]] by (elim exE conjE)
    show ?thesis
    proof (cases "int (length (buf_content buf)) \<le> int sz * MAX_FRAGS")
      case True: True
      from fragment_outgoing_sends [OF fr m b(1) refl \<open>max_fragment_size fr < _\<close> len s True] obtain b0 f1 where
        "fragment_outgoing f buf fr = Some (None, b0, f1)" "sender_inv fr ((outgoing_seq_id f + 1) mod 256) sz (buf_content buf) 1 f1" by (elim exE conjE)
      moreover have "int (length (buf_content buf) - 1 * sz) \<le> payload_size fr + tailroom fr" using len by linarith
      ultimately show ?thesis using sender_inv_master [of fr _ sz] s(2) FragOut by fastforce
    next
      case many: False
      have "fragment_outgoing f buf fr = Some (Some TOO_MANY_FRAGMENTS, buf\<lparr>b_len := 0\<rparr>, f\<lparr>outgoing_frag_size := int sz\<rparr>)"
        unfolding fragment_outgoing_def bl using True many s(1) frame_okD(5) [OF fr] by (simp only: Let_def) auto
      moreover have "frag_master_inv fr (f\<lparr>outgoing_frag_size := int sz\<rparr>)"
        using f s(2) by (simp add: frag_master_inv_def master_ok_def fragment_outgoing_defined_def)
      ultimately show ?thesis using FragOut by simp
    qed
  qed
next
  case FragReady
  then show ?thesis using ready_any [OF fr f, of clear_buf] by auto
next
  case (FragWake now)
  then show ?thesis using f
    by (auto simp: frag_master_inv_def master_ok_def list_ok_def frag_ok_def fragment_wakeup_def fragment_ttl_reap_def fragment_outgoing_defined_def)
qed

section \<open>What is sent\<close>

lemma concat_chunks: "concat (map (chunk sz pkt) [0..<c]) = take (c * sz) pkt"
proof (induction c)
  case (Suc c)
  have "take (c * sz + sz) pkt = take (c * sz) pkt @ take sz (drop (c * sz) pkt)" by (rule take_add)
  then show ?case using Suc by (simp add: chunk_def add.commute)
qed simp

lemma fragment_whole:
  assumes b: "buf_ok buf" "4 \<le> b_offset buf" "0 < b_len buf"
  shows "\<exists>b'. fragment_prepend_flags buf FRAG_WHOLE 0 0 0 = Some b' \<and>
    (\<forall>g now. \<exists>out. fragment_incoming g b' fr now = Some (None, out, g) \<and> buf_content out = buf_content buf)"
proof -
  obtain b' where b': "fragment_prepend_flags buf FRAG_WHOLE 0 0 0 = Some b'" "buf_ok b'" "buf_content b' = be32 (fragment_flags FRAG_WHOLE 0 0 0) @ buf_content buf"
    using prepend_flags [OF b(1,2), of FRAG_WHOLE 0 0 0] by (elim exE conjE)
  have z: "fragment_flags FRAG_WHOLE 0 0 0 = 0" by (simp add: fragment_flags_def FRAG_WHOLE_def)
  obtain out where r: "buf_read b' 4 = (Some (be32 0), out)" "buf_content out = buf_content buf"
    using ob.rd_field [OF b'(2,3)] z by auto
  have "0 < b_len b'" using length_buf_content [OF b'(2)] b'(3) by simp
  then have "fragment_incoming g b' fr now = Some (None, out, g)" for g now
    using r(1) by (simp add: fragment_incoming_def Let_def FRAG_WHOLE_def)
  then show ?thesis using b'(1) r(2) by blast
qed

text \<open>A datagram that has to be cut: the fragments in full.\<close>

lemma fragment_cut_parts:
  assumes fr: "frame_ok fr" and f: "master_ok fr f" and b: "buf_ok buf" "buf_content buf = pkt"
    and len: "max_fragment_size fr < int (length pkt)" "int (length pkt) \<le> payload_size fr + tailroom fr"
    and s: "optimal_fragment_size (int (length pkt)) (max_fragment_size fr) = Some (int sz)" "4 \<le> sz" "int sz \<le> max_fragment_size fr"
    and c: "length pkt \<le> c * sz" "(c - 1) * sz < length pkt" "2 \<le> c" "c \<le> 32"
  shows "\<exists>b0 f1 bs f2. fragment_outgoing f buf fr = Some (None, b0, f1) \<and> fragment_drain 31 f1 fr = Some (bs, f2) \<and>
    map buf_content (b0 # bs) = map (frag_packet ((outgoing_seq_id f + 1) mod 256) sz pkt) [0..<c] \<and>
    (\<forall>b \<in> set (b0 # bs). buf_ok b) \<and> \<not> fragment_outgoing_defined f2 \<and> master_ok fr f2"
proof -
  let ?q = "(outgoing_seq_id f + 1) mod 256"
  have "c * sz \<le> 32 * sz" using c(4) by (rule mult_le_mono1)
  then have "length pkt \<le> 32 * sz" using c(1) by linarith
  then have few: "int (length pkt) \<le> int sz * MAX_FRAGS" by (simp add: MAX_FRAGS_def)
  obtain b0 f1 where o: "fragment_outgoing f buf fr = Some (None, b0, f1)" "buf_content b0 = frag_packet ?q sz pkt 0" "sender_inv fr ?q sz pkt 1 f1" "buf_ok b0"
    using fragment_outgoing_sends [OF fr f b len s(1,2) few] by (elim exE conjE)
  have z: "0 < sz" "1 \<le> c" "c - 1 \<le> 31" using s(2) c by simp_all
  obtain bs f2 where d: "fragment_drain 31 f1 fr = Some (bs, f2)" "\<not> fragment_outgoing_defined f2" "sender_inv fr ?q sz pkt c f2"
    "map buf_content bs = map (frag_packet ?q sz pkt) [1..<c]" "\<forall>b \<in> set bs. buf_ok b"
    using fragment_drain_parts [OF fr z(1) len(2) c(1,2) z(2) o(3) z(3)] by (elim exE conjE)
  have "[0..<c] = 0 # [1..<c]" using c(3) by (simp add: upt_conv_Cons)
  then show ?thesis using o d by (simp add: sender_inv_def)
qed

lemma fragment_cut:
  assumes fr: "frame_ok fr" and f: "master_ok fr f" and b: "buf_ok buf" "buf_content buf = pkt"
    and len: "max_fragment_size fr < int (length pkt)" "int (length pkt) \<le> payload_size fr + tailroom fr"
  shows "if 32 < frag_count (int (length pkt)) (max_fragment_size fr div 4 * 4)
    then \<exists>b g. fragment_outgoing f buf fr = Some (Some TOO_MANY_FRAGMENTS, b, g) \<and> b_len b = 0
    else \<exists>b0 f1 bs f2. fragment_outgoing f buf fr = Some (None, b0, f1) \<and> fragment_drain 31 f1 fr = Some (bs, f2) \<and>
      int (length (b0 # bs)) = frag_count (int (length pkt)) (max_fragment_size fr div 4 * 4) \<and>
      concat (map (\<lambda>b. drop 4 (buf_content b)) (b0 # bs)) = pkt \<and>
      (\<forall>b \<in> set (b0 # bs). int (length (buf_content b)) \<le> 4 + max_fragment_size fr) \<and> \<not> fragment_outgoing_defined f2 \<and> master_ok fr f2"
proof -
  obtain sz c where s: "optimal_fragment_size (int (length pkt)) (max_fragment_size fr) = Some (int sz)" "4 \<le> sz" "int sz \<le> max_fragment_size fr"
    and c: "length pkt \<le> c * sz" "(c - 1) * sz < length pkt" "2 \<le> c" "int c = frag_count (int (length pkt)) (max_fragment_size fr div 4 * 4)"
      "int (length pkt) > int sz * MAX_FRAGS \<longleftrightarrow> 32 < c"
    using fragment_size_choice [OF len(1) frame_okD(5) [OF fr]] by (elim exE conjE)
  have bl: "b_len buf = int (length pkt)" using length_buf_content [OF b(1)] b(2) by simp
  show ?thesis
  proof (cases "32 < c")
    case True
    then have "fragment_outgoing f buf fr = Some (Some TOO_MANY_FRAGMENTS, buf\<lparr>b_len := 0\<rparr>, f\<lparr>outgoing_frag_size := int sz\<rparr>)"
      unfolding fragment_outgoing_def bl using c(5) s(1) len(1) frame_okD(5) [OF fr] by (simp only: Let_def) auto
    then show ?thesis using True by (simp flip: c(4))
  next
    case False
    then have c32: "c \<le> 32" by simp
    obtain b0 f1 bs f2 where p: "fragment_outgoing f buf fr = Some (None, b0, f1)" "fragment_drain 31 f1 fr = Some (bs, f2)"
      "map buf_content (b0 # bs) = map (frag_packet ((outgoing_seq_id f + 1) mod 256) sz pkt) [0..<c]"
      "\<not> fragment_outgoing_defined f2" "master_ok fr f2" using fragment_cut_parts [OF fr f b len s c(1-3) c32] by (elim exE conjE)
    have "length (b0 # bs) = c" using arg_cong [OF p(3), of length] by simp
    moreover have "concat (map (drop 4) (map buf_content (b0 # bs))) = pkt"
      unfolding p(3) using concat_chunks [of sz pkt c] c(1) by (simp add: frag_packet_def comp_def)
    moreover have "int (length (buf_content b)) \<le> 4 + max_fragment_size fr" if "b \<in> set (b0 # bs)" for b
    proof -
      have "buf_content b \<in> set (map buf_content (b0 # bs))" unfolding set_map using that by (rule imageI)
      then show ?thesis unfolding p(3) using s(3) by (auto simp: frag_packet_def chunk_def)
    qed
    ultimately show ?thesis using False p by (simp add: comp_def flip: c(4))
  qed
qed

lemma fragment_cut_seen:
  assumes fs: "frame_ok fs" and f: "master_ok fs f" and b: "buf_ok buf" "buf_content buf = pkt"
    and len: "max_fragment_size fs < int (length pkt)" "int (length pkt) \<le> payload_size fs + tailroom fs"
    and r: "fragment_outgoing f buf fs = Some (None, b0, f1)" "fragment_drain 31 f1 fs = Some (bs, f2)"
    and fit: "int (length pkt) \<le> payload_size fr + tailroom fr"
  shows "\<exists>sz K. cut_ok fr sz pkt K \<and> map buf_content (b0 # bs) = map (frag_packet ((outgoing_seq_id f + 1) mod 256) sz pkt) [0..<K + 1]"
proof -
  obtain sz c where s: "optimal_fragment_size (int (length pkt)) (max_fragment_size fs) = Some (int sz)" "4 \<le> sz" "int sz \<le> max_fragment_size fs" "sz mod 4 = 0"
    and c: "length pkt \<le> c * sz" "(c - 1) * sz < length pkt" "2 \<le> c" "int (length pkt) > int sz * MAX_FRAGS \<longleftrightarrow> 32 < c"
    using fragment_size_choice [OF len(1) frame_okD(5) [OF fs]] by (elim exE conjE)
  have bl: "b_len buf = int (length pkt)" using length_buf_content [OF b(1)] b(2) by simp
  have c32: "c \<le> 32"
  proof (rule ccontr)
    assume "\<not> c \<le> 32"
    then have "fragment_outgoing f buf fs = Some (Some TOO_MANY_FRAGMENTS, buf\<lparr>b_len := 0\<rparr>, f\<lparr>outgoing_frag_size := int sz\<rparr>)"
      unfolding fragment_outgoing_def bl using c(4) s(1) len(1) frame_okD(5) [OF fs] by (simp only: Let_def) auto
    then show False using r(1) by simp
  qed
  have "map buf_content (b0 # bs) = map (frag_packet ((outgoing_seq_id f + 1) mod 256) sz pkt) [0..<c]"
    using fragment_cut_parts [OF fs f b len s(1-3) c(1-3) c32] r by auto
  moreover have "cut_ok fr sz pkt (c - 1)" using s c c32 fit frame_okD(6) [OF fs] by (simp add: cut_ok_def)
  moreover have "c - 1 + 1 = c" using c(3) by simp
  ultimately show ?thesis by (intro exI [of _ sz] exI [of _ "c - 1"]) simp
qed

section \<open>A small example\<close>

definition frag_test_frame :: frame where
  "frag_test_frame = \<lparr>payload_size = 20, headroom = 4, tailroom = 0, mss_fix = 0, max_fragment_size = 8, tun_mtu = 1500, tun_max_mtu = 1600, extra_tun = 0\<rparr>"

lemma frag_test_frame_ok: "frame_ok frag_test_frame"
  by (simp add: frag_test_frame_def frame_ok_def BUF_SIZE_def BUF_SIZE_MAX_def)

definition frag_test_pkt :: bytes where
  "frag_test_pkt = [1, 2, 3, 4, 5, 6, 7, 8, 9, 10, 11, 12, 13, 14, 15, 16, 17, 18, 19, 20]"

definition frag_test_buf :: buffer where
  "frag_test_buf = \<lparr>b_capacity = 24, b_offset = 4, b_len = 20, b_data = Some ([0, 0, 0, 0] @ frag_test_pkt)\<rparr>"

lemma frag_test_buf_ok: "buf_ok frag_test_buf" "buf_content frag_test_buf = frag_test_pkt" "length frag_test_pkt = 20"
  by (simp_all add: frag_test_buf_def frag_test_pkt_def buf_ok_def buf_content_def buf_load_def mem_read_def)

section \<open>Properties\<close>

text \<open>
  C23. From its initialisation on, for any sequence of datagrams from the network (whatever their bytes), datagrams to send, calls for
  the next fragment and wake-ups, no operation fails an assertion, and the state stays well formed: every buffer within its block and
  of the size of the frame, 25 fragment buffers, and sequence numbers and indices within their ranges.
\<close>

theorem fragment_state_well_formed:
  assumes "frame_ok fr" "fragment_frame_init (fragment_init rnd) fr = Some f" "\<forall>e \<in> set es. frag_event_ok fr e"
  shows "\<exists>bs g. frag_run fr f es = Some (bs, g) \<and> frag_master_inv fr g"
proof -
  have run: "\<exists>bs g. frag_run fr f es = Some (bs, g) \<and> frag_master_inv fr g" if "frag_master_inv fr f" "\<forall>e \<in> set es. frag_event_ok fr e" for f es
    using that
  proof (induction es arbitrary: f)
    case (Cons e es)
    obtain b g where s: "frag_step fr f e = Some (b, g)" "frag_master_inv fr g" using frag_step_inv [OF assms(1) Cons.prems(1)] Cons.prems(2) by fastforce
    then show ?case using Cons.IH [OF s(2)] Cons.prems(2) by fastforce
  qed simp
  have "frag_master_inv fr f" using fragment_init_ok [OF assms(1), of rnd] assms(2) by (simp add: frag_master_inv_def)
  then show ?thesis using run assms(3) by blast
qed

theorem fragment_state_well_formed_witness:
  "\<exists>f bs g. fragment_frame_init (fragment_init 5) frag_test_frame = Some f \<and>
    frag_run frag_test_frame f [FragOut frag_test_buf, FragReady, FragIn frag_test_buf 0, FragWake 20] = Some (bs, g) \<and> frag_master_inv frag_test_frame g"
proof -
  obtain f where f: "fragment_frame_init (fragment_init 5) frag_test_frame = Some f" using fragment_init_ok [OF frag_test_frame_ok] by blast
  have "\<forall>e \<in> set [FragOut frag_test_buf, FragReady, FragIn frag_test_buf 0, FragWake 20]. frag_event_ok frag_test_frame e"
    using frag_test_buf_ok(1) by (simp add: frag_test_buf_def frag_test_frame_def)
  from fragment_state_well_formed [OF frag_test_frame_ok f this] f show ?thesis by blast
qed

text \<open>
  What the sender makes of a datagram. A datagram that fits is sent whole, and a receiver reads it back. A larger one is refused if it
  would need more than 32 fragments of the largest aligned size; otherwise it is sent as exactly as many fragments as that size needs,
  although the size may be chosen smaller; none carries more than the maximum, together they carry the datagram, and nothing is
  left to send.
\<close>

theorem fragment_sender_parts:
  assumes "frame_ok fr" "master_ok fr f" "buf_ok buf" "4 \<le> b_offset buf" "0 < b_len buf" "b_len buf \<le> payload_size fr + tailroom fr"
  defines "c \<equiv> frag_count (b_len buf) (max_fragment_size fr div 4 * 4)"
  shows "if b_len buf \<le> max_fragment_size fr
    then \<exists>b. fragment_outgoing f buf fr = Some (None, b, f) \<and> (\<forall>g now. \<exists>out. fragment_incoming g b fr now = Some (None, out, g) \<and> buf_content out = buf_content buf)
    else if 32 < c then \<exists>b g. fragment_outgoing f buf fr = Some (Some TOO_MANY_FRAGMENTS, b, g) \<and> b_len b = 0
    else \<exists>b0 f1 bs f2. fragment_outgoing f buf fr = Some (None, b0, f1) \<and> fragment_drain 31 f1 fr = Some (bs, f2) \<and>
      int (length (b0 # bs)) = c \<and> concat (map (\<lambda>b. drop 4 (buf_content b)) (b0 # bs)) = buf_content buf \<and>
      (\<forall>b \<in> set (b0 # bs). int (length (buf_content b)) \<le> 4 + max_fragment_size fr) \<and> \<not> fragment_outgoing_defined f2 \<and> master_ok fr f2"
proof -
  have bl: "b_len buf = int (length (buf_content buf))" using length_buf_content [OF assms(3)] by simp
  show ?thesis
  proof (cases "b_len buf \<le> max_fragment_size fr")
    case True
    then show ?thesis using fragment_whole [OF assms(3-5)] assms(5) by (auto simp: fragment_outgoing_def)
  next
    case False
    then have big: "max_fragment_size fr < int (length (buf_content buf))" using bl by simp
    have len: "int (length (buf_content buf)) \<le> payload_size fr + tailroom fr" using assms(6) bl by simp
    from fragment_cut [OF assms(1-3) refl big len] False show ?thesis unfolding c_def bl by (auto split: if_splits)
  qed
qed

theorem fragment_sender_parts_witness:
  "\<exists>f b0 f1 bs f2. fragment_frame_init (fragment_init 5) frag_test_frame = Some f \<and>
    fragment_outgoing f frag_test_buf frag_test_frame = Some (None, b0, f1) \<and> fragment_drain 31 f1 frag_test_frame = Some (bs, f2) \<and>
    length bs = 2 \<and> concat (map (\<lambda>b. drop 4 (buf_content b)) (b0 # bs)) = frag_test_pkt"
proof -
  obtain f where f: "fragment_frame_init (fragment_init 5) frag_test_frame = Some f" "master_ok frag_test_frame f"
    using fragment_init_ok [OF frag_test_frame_ok] by blast
  have c: "frag_count (b_len frag_test_buf) (max_fragment_size frag_test_frame div 4 * 4) = 3"
    by (simp add: frag_count_def frag_test_buf_def frag_test_frame_def)
  have h: "4 \<le> b_offset frag_test_buf" "0 < b_len frag_test_buf" "b_len frag_test_buf \<le> payload_size frag_test_frame + tailroom frag_test_frame"
    "\<not> b_len frag_test_buf \<le> max_fragment_size frag_test_frame" by (simp_all add: frag_test_buf_def frag_test_frame_def)
  from fragment_sender_parts [OF frag_test_frame_ok f(2) frag_test_buf_ok(1) h(1-3)] show ?thesis
    using f(1) frag_test_buf_ok(2) by (auto simp: c h(4))
qed

text \<open>
  C8. Fragmentation and reassembly are inverse over a network that reorders and repeats. Let a sender cut a datagram into fragments, and let a
  receiver, whose window is free for the sequence number, get the fragments in any order and with any repetitions, mixed with any other
  datagrams, whole or fragments of other datagrams with any contents, whose sequence numbers lie with this one in a range of 25.
  Then the fragment that is the last one missing makes the receiver return exactly the datagram.
\<close>

theorem fragments_reassemble:
  assumes sender: "frame_ok fs" "master_ok fs f" "buf_ok buf" "max_fragment_size fs < b_len buf" "b_len buf \<le> payload_size fs + tailroom fs"
      "fragment_outgoing f buf fs = Some (None, b0, f1)" "fragment_drain 31 f1 fs = Some (bs, f2)"
    and receiver: "frame_ok fr" "list_ok fr (incoming g)" "b_len buf \<le> payload_size fr + tailroom fr"
      "near b ((outgoing_seq_id f + 1) mod 256)" "window_free b ((outgoing_seq_id f + 1) mod 256) (incoming g)"
      "frag_recv fr b ((outgoing_seq_id f + 1) mod 256) (map buf_content (b0 # bs)) g S g1"
    and part: "n < length (b0 # bs)" "insert n S = {..<length (b0 # bs)}" "buf_ok x" "buf_content x = buf_content ((b0 # bs) ! n)"
  shows "\<exists>out g2. fragment_incoming g1 x fr now = Some (None, out, g2) \<and> buf_content out = buf_content buf"
proof -
  have bl: "b_len buf = int (length (buf_content buf))" using length_buf_content [OF sender(3)] by simp
  obtain k where k: "0 \<le> k" "k \<le> 24" "(outgoing_seq_id f + 1) mod 256 = (b + k) mod 256" using receiver(4) by (auto simp: near_def)
  obtain sz K where cut: "cut_ok fr sz (buf_content buf) K"
      "map buf_content (b0 # bs) = map (frag_packet ((b + k) mod 256) sz (buf_content buf)) [0..<K + 1]"
    using fragment_cut_seen [OF sender(1-3) refl sender(4) [unfolded bl] sender(5) [unfolded bl] sender(6,7), of fr] receiver(3) bl k(3) by auto
  have lK: "length (b0 # bs) = K + 1" using arg_cong [OF cut(2), of length] by simp
  have "window_inv fr b sz (buf_content buf) K k {} (incoming g)" using window_free_inv [OF receiver(2) k(1,2)] receiver(5) k(3) by simp
  then have w: "window_inv fr b sz (buf_content buf) K k S (incoming g1)"
    using recv_window_inv [OF _ receiver(1) cut(1) k(1,2)] receiver(6) cut(2) k(3) by simp
  have n: "n \<le> K" "insert n S = {..K}" using part(1,2) lK by (simp_all add: lessThan_Suc_atMost)
  have "map buf_content (b0 # bs) ! n = frag_packet ((b + k) mod 256) sz (buf_content buf) n" unfolding cut(2) using n(1) by (simp del: upt_Suc)
  then have xc: "buf_content x = frag_packet ((b + k) mod 256) sz (buf_content buf) n" unfolding part(4) nth_map [OF part(1)] .
  show ?thesis using window_inv_part [OF receiver(1) cut(1) w k(1,2) n(1) part(3) xc, of now] n(2) by auto
qed

theorem fragments_reassemble_witness:
  "\<exists>f b0 b1 b2 f1 f2 g1 out g2. fragment_frame_init (fragment_init 5) frag_test_frame = Some f \<and>
    fragment_outgoing f frag_test_buf frag_test_frame = Some (None, b0, f1) \<and> fragment_drain 31 f1 frag_test_frame = Some ([b1, b2], f2) \<and>
    frag_recv frag_test_frame 0 6 (map buf_content [b0, b1, b2]) f {2, 1} g1 \<and>
    fragment_incoming g1 b0 frag_test_frame 0 = Some (None, out, g2) \<and> buf_content out = frag_test_pkt"
proof -
  let ?fr = frag_test_frame
  note frok = frag_test_frame_ok
  obtain f where f: "fragment_frame_init (fragment_init 5) ?fr = Some f" "master_ok ?fr f" using fragment_init_ok [OF frok] by blast
  have sq: "outgoing_seq_id f = 5" "fl_seq_id (incoming f) = 0" "fl_index (incoming f) = 0" using f(1)
    by (auto simp: fragment_frame_init_def fragment_init_def fragment_list_buf_init_def N_SEQ_ID_def split: option.splits)
  have l: "list_ok ?fr (incoming f)" using f(2) by (simp add: master_ok_def)
  have len: "max_fragment_size ?fr < int (length frag_test_pkt)" "int (length frag_test_pkt) \<le> payload_size ?fr + tailroom ?fr"
    by (simp_all add: frag_test_buf_ok(3) frag_test_frame_def)
  have opt: "optimal_fragment_size (int (length frag_test_pkt)) (max_fragment_size ?fr) = Some (int 8)"
    unfolding frag_test_buf_ok(3) by (simp add: optimal_fragment_size_def frag_test_frame_def frag_align frag_round min_int_def)
  have c: "(4 :: nat) \<le> 8" "int 8 \<le> max_fragment_size ?fr" "length frag_test_pkt \<le> 3 * 8" "(3 - 1) * 8 < length frag_test_pkt" "(2 :: nat) \<le> 3" "(3 :: nat) \<le> 32"
    by (simp_all add: frag_test_buf_ok(3) frag_test_frame_def)
  obtain b0 f1 bs f2 where p: "fragment_outgoing f frag_test_buf ?fr = Some (None, b0, f1)" "fragment_drain 31 f1 ?fr = Some (bs, f2)"
    "map buf_content (b0 # bs) = map (frag_packet ((outgoing_seq_id f + 1) mod 256) 8 frag_test_pkt) [0..<3]"
    "\<forall>b \<in> set (b0 # bs). buf_ok b"
    using fragment_cut_parts [OF frok f(2) frag_test_buf_ok(1,2) len opt c] by (elim exE conjE)
  have "length (b0 # bs) = 3" using arg_cong [OF p(3), of length] by simp
  then obtain b1 b2 where bs: "bs = [b1, b2]" by (auto simp: length_Suc_conv numeral_3_eq_3)
  have bok: "buf_ok b0" "buf_ok b1" "buf_ok b2" using p(4) bs by auto
  let ?parts = "map buf_content [b0, b1, b2]"
  obtain e1 o1 h1 where r1: "fragment_incoming f b1 ?fr 0 = Some (e1, o1, h1)" "list_ok ?fr (incoming h1)"
    using incoming_any_ok [OF frok l bok(2)] by blast
  obtain e2 o2 h2 where r2: "fragment_incoming h1 b2 ?fr 0 = Some (e2, o2, h2)" using incoming_any_ok [OF frok r1(2) bok(3)] by blast
  have ne: "S \<noteq> {..<Suc (Suc (Suc 0))}" if "0 \<notin> S" for S using that by auto
  have one: "frag_recv ?fr 0 6 ?parts f (insert 1 {}) h1"
    by (rule recv_part [OF recv_start _ bok(2) _ _ r1(1)]) (simp_all add: ne del: list.map)
  have two: "frag_recv ?fr 0 6 ?parts f (insert 2 (insert 1 {})) h2"
    by (rule recv_part [OF one _ bok(3) _ _ r2]) (simp_all add: ne del: list.map)
  have nr: "near 0 ((outgoing_seq_id f + 1) mod 256)" by (auto simp: sq near_def intro!: exI [of _ 6])
  have "\<exists>l'. fragment_list_get_buf (incoming f) 6 = Some (slot 0 6, l') \<and> \<not> fr_defined (fragments l' ! slot 0 6)"
    using get_buf_range [OF l, of 0 0 0 6] by (auto simp: sq)
  then have wf: "window_free 0 ((outgoing_seq_id f + 1) mod 256) (incoming f)" by (auto simp: window_free_def near_def sq)
  have bl: "max_fragment_size ?fr < b_len frag_test_buf" "b_len frag_test_buf \<le> payload_size ?fr + tailroom ?fr"
    by (simp_all add: frag_test_buf_def frag_test_frame_def)
  have two': "frag_recv ?fr 0 ((outgoing_seq_id f + 1) mod 256) (map buf_content (b0 # [b1, b2])) f {2, 1} h2" using two by (simp add: sq)
  have "\<exists>out g2. fragment_incoming h2 b0 ?fr 0 = Some (None, out, g2) \<and> buf_content out = buf_content frag_test_buf"
    by (rule fragments_reassemble [OF frok f(2) frag_test_buf_ok(1) bl p(1) p(2) [unfolded bs] frok l bl(2) nr wf two', of 0])
      (use bok in \<open>auto simp: numeral_3_eq_3 numeral_2_eq_2\<close>)
  then show ?thesis using f(1) p(1,2) bs two frag_test_buf_ok(2) by auto
qed

end
