(* ===== verification/Ip_Rewrite.thy ===== *)
theory Ip_Rewrite
  imports Ovpn_Buffer
begin

text \<open>
  What OpenVPN changes in the IP packets it carries: the correction of the TCP segment size (\<open>mss.c\<close>) and the address
  translation of the client (\<open>clinat.c\<close>), with the header layouts and the checksum macros of \<open>proto.h\<close>.

  A packet is the list of its bytes; a field of a header struct is read and written at its offset. The host is little endian, so
  that a 16 bit or 32 bit field is the little endian value of its bytes.
\<close>

section \<open>Headers and checksums (proto.h)\<close>

definition OPENVPN_IPPROTO_TCP :: u8 where "OPENVPN_IPPROTO_TCP = 6"
definition OPENVPN_IPPROTO_UDP :: u8 where "OPENVPN_IPPROTO_UDP = 17"
definition OPENVPN_IP_OFFMASK :: u16 where "OPENVPN_IP_OFFMASK = 0x1fff"
definition OPENVPN_TCPH_SYN_MASK :: u8 where "OPENVPN_TCPH_SYN_MASK = 2"
definition OPENVPN_TCPOPT_EOL :: u8 where "OPENVPN_TCPOPT_EOL = 0"
definition OPENVPN_TCPOPT_NOP :: u8 where "OPENVPN_TCPOPT_NOP = 1"
definition OPENVPN_TCPOPT_MAXSEG :: u8 where "OPENVPN_TCPOPT_MAXSEG = 2"
definition OPENVPN_TCPOLEN_MAXSEG :: int where "OPENVPN_TCPOLEN_MAXSEG = 4"
definition OPENVPN_ETH_P_IPV4 :: u16 where "OPENVPN_ETH_P_IPV4 = 0x0800"
definition OPENVPN_ETH_P_IPV6 :: u16 where "OPENVPN_ETH_P_IPV6 = 0x86DD"
definition OPENVPN_ETH_P_8021Q :: u16 where "OPENVPN_ETH_P_8021Q = 0x8100"
definition DEV_TYPE_TUN :: int where "DEV_TYPE_TUN = 2"
definition DEV_TYPE_TAP :: int where "DEV_TYPE_TAP = 3"

lemmas ip_consts = OPENVPN_IPPROTO_TCP_def OPENVPN_IPPROTO_UDP_def OPENVPN_IP_OFFMASK_def OPENVPN_TCPH_SYN_MASK_def
  OPENVPN_TCPOPT_EOL_def OPENVPN_TCPOPT_NOP_def OPENVPN_TCPOPT_MAXSEG_def OPENVPN_TCPOLEN_MAXSEG_def

definition OPENVPN_IPH_GET_VER :: "u8 \<Rightarrow> u8" where
  "OPENVPN_IPH_GET_VER v = drop_bit 4 v AND 0x0F"

definition OPENVPN_IPH_GET_LEN :: "u8 \<Rightarrow> nat" where
  "OPENVPN_IPH_GET_LEN v = unat (push_bit 2 (v AND 0x0F))"

definition OPENVPN_TCPH_GET_DOFF :: "u8 \<Rightarrow> nat" where
  "OPENVPN_TCPH_GET_DOFF d = unat (drop_bit 2 (d AND 0xF0))"

definition htons :: "u16 \<Rightarrow> u16" where
  "htons v = of_le16 (be16 v)"

definition ntohs :: "u16 \<Rightarrow> u16" where
  "ntohs v = of_be16 (le16 v)"

definition get16 :: "bytes \<Rightarrow> nat \<Rightarrow> u16" where
  "get16 t i = of_le16 (mem_read t i 2)"

definition put16 :: "bytes \<Rightarrow> nat \<Rightarrow> u16 \<Rightarrow> bytes" where
  "put16 t i v = mem_write t i (le16 v)"

definition get32 :: "bytes \<Rightarrow> nat \<Rightarrow> u32" where
  "get32 t i = of_le32 (mem_read t i 4)"

definition put32 :: "bytes \<Rightarrow> nat \<Rightarrow> u32 \<Rightarrow> bytes" where
  "put32 t i v = mem_write t i (le32 v)"

definition fold_carry :: "int \<Rightarrow> u16" where
  "fold_carry a = (let c = drop_bit 16 a + (a AND 0xffff); d = c + drop_bit 16 c in word_of_int d)"

definition ADJUST_CHECKSUM :: "int \<Rightarrow> u16 \<Rightarrow> u16" where
  "ADJUST_CHECKSUM acc cksum =
     (let a = acc + uint cksum in if a < 0 then NOT (fold_carry (- a)) else fold_carry a)"

definition ADD_CHECKSUM_32 :: "int \<Rightarrow> u32 \<Rightarrow> int" where
  "ADD_CHECKSUM_32 acc v = acc + uint (v AND 0xffff) + uint (drop_bit 16 v)"

definition SUB_CHECKSUM_32 :: "int \<Rightarrow> u32 \<Rightarrow> int" where
  "SUB_CHECKSUM_32 acc v = acc - uint (v AND 0xffff) - uint (drop_bit 16 v)"

text \<open>The result is the buffer at the IP header, or \<open>None\<close> for \<open>false\<close>.\<close>

definition is_ipv_X :: "int \<Rightarrow> buffer \<Rightarrow> u8 \<Rightarrow> buffer option" where
  "is_ipv_X tunnel_type buf ip_ver =
     (let c = buf_load buf (b_offset buf) (nat (BLEN buf));
          check = (\<lambda>offset. if OPENVPN_IPH_GET_VER (c ! offset) = ip_ver then buf_advance buf (int offset) else None)
      in if tunnel_type = DEV_TYPE_TUN
         then if length c < 20 then None else check 0
         else if tunnel_type = DEV_TYPE_TAP
         then if length c < 14 + 20 then None
              else let vlan = (get16 c 12 = htons OPENVPN_ETH_P_8021Q);
                       proto = (if vlan then get16 c 16 else get16 c 12)
                   in if ntohs proto \<noteq> (if ip_ver = 6 then OPENVPN_ETH_P_IPV6 else OPENVPN_ETH_P_IPV4) then None
                      else check (if vlan then 18 else 14)
         else None)"

section \<open>The TCP segment size (mss.c)\<close>

definition mss_clamp :: "bytes \<Rightarrow> u16 \<Rightarrow> nat \<Rightarrow> bytes" where
  "mss_clamp t maxmss i =
     (let mssval = of_be16 [t ! (i + 2), t ! (i + 3)]
      in if mssval > maxmss
         then let accumulate = uint (htons mssval) - uint (htons maxmss); t1 = mem_write t (i + 2) (be16 maxmss)
              in put16 t1 16 (ADJUST_CHECKSUM accumulate (get16 t1 16))
         else t)"

function mss_options :: "bytes \<Rightarrow> u16 \<Rightarrow> nat \<Rightarrow> int \<Rightarrow> bytes" where
  "mss_options t maxmss i olen =
     (if olen > 1
      then if t ! i = OPENVPN_TCPOPT_EOL then t
           else if t ! i = OPENVPN_TCPOPT_NOP then mss_options t maxmss (i + 1) (olen - 1)
           else let optlen = uint (t ! (i + 1))
                in if optlen \<le> 0 \<or> optlen > olen then t
                   else mss_options
                          (if t ! i = OPENVPN_TCPOPT_MAXSEG \<and> optlen = OPENVPN_TCPOLEN_MAXSEG then mss_clamp t maxmss i else t)
                          maxmss (i + nat optlen) (olen - optlen)
      else t)"
  by pat_completeness auto
termination by (relation "measure (\<lambda>(t, maxmss, i, olen). nat olen)") (auto intro: uint_pos)

declare mss_options.simps [simp del]

definition mss_fixup_dowork :: "bytes \<Rightarrow> u16 \<Rightarrow> bytes" where
  "mss_fixup_dowork t maxmss =
     (if length t < 20 then t
      else let hlen = OPENVPN_TCPH_GET_DOFF (t ! 12)
           in if hlen \<le> 20 \<or> hlen > length t then t else mss_options t maxmss 20 (int hlen - 20))"

text \<open>The packet is changed in place, through a buffer that shares the memory of the argument.\<close>

definition buf_put :: "buffer \<Rightarrow> bytes \<Rightarrow> buffer" where
  "buf_put buf c = buf_store buf (b_offset buf) c"

definition mss_fixup_ipv4 :: "buffer \<Rightarrow> int \<Rightarrow> buffer" where
  "mss_fixup_ipv4 buf maxmss =
     (let c = buf_load buf (b_offset buf) (nat (BLEN buf))
      in if length c < 20 then buf
         else let hlen = OPENVPN_IPH_GET_LEN (c ! 0)
              in if c ! 9 = OPENVPN_IPPROTO_TCP \<and> unat (ntohs (get16 c 2)) = length c \<and>
                    ntohs (get16 c 6) AND OPENVPN_IP_OFFMASK = 0 \<and> hlen \<le> length c \<and> length c - hlen \<ge> 20
                 then if c ! (hlen + 13) AND OPENVPN_TCPH_SYN_MASK \<noteq> 0
                      then buf_put buf (take hlen c @ mss_fixup_dowork (drop hlen c) (word_of_int maxmss)) else buf
                 else buf)"

definition mss_fixup_ipv6 :: "buffer \<Rightarrow> int \<Rightarrow> buffer" where
  "mss_fixup_ipv6 buf maxmss =
     (let c = buf_load buf (b_offset buf) (nat (BLEN buf))
      in if length c < 40 then buf
         else if length c \<noteq> unat (ntohs (get16 c 4)) + 40 then buf
         else if c ! 6 \<noteq> OPENVPN_IPPROTO_TCP then buf
         else if length c - 40 \<ge> 20
         then if c ! (40 + 13) AND OPENVPN_TCPH_SYN_MASK \<noteq> 0
              then buf_put buf (take 40 c @ mss_fixup_dowork (drop 40 c) (word_of_int (uint (word_of_int maxmss :: u16) - 20)))
              else buf
         else buf)"

section \<open>Address translation (clinat.c)\<close>

definition MAX_CLIENT_NAT :: nat where "MAX_CLIENT_NAT = 64"
definition CN_OUTGOING :: int where "CN_OUTGOING = 0"
definition CN_INCOMING :: int where "CN_INCOMING = 1"
definition CN_SNAT :: int where "CN_SNAT = 0"
definition CN_DNAT :: int where "CN_DNAT = 1"

record client_nat_entry =
  cn_type :: int
  cn_network :: u32
  cn_netmask :: u32
  cn_foreign_network :: u32

text \<open>The list holds the first \<open>n\<close> entries of the array.\<close>

type_synonym client_nat_option_list = "client_nat_entry list"

definition add_entry :: "client_nat_option_list \<Rightarrow> client_nat_entry \<Rightarrow> bool \<times> client_nat_option_list" where
  "add_entry dest e = (if length dest \<ge> MAX_CLIENT_NAT then (False, dest) else (True, dest @ [e]))"

fun copy_client_nat_option_list :: "client_nat_option_list \<Rightarrow> client_nat_option_list \<Rightarrow> client_nat_option_list" where
  "copy_client_nat_option_list dest [] = dest"
| "copy_client_nat_option_list dest (e # src) =
     (case add_entry dest e of (ok, dest') \<Rightarrow> if ok then copy_client_nat_option_list dest' src else dest')"

text \<open>The loop over the rules: the packet, the accumulated change of the checksum and the set of changed addresses.\<close>

fun nat_rules :: "int \<Rightarrow> client_nat_option_list \<Rightarrow> bytes \<Rightarrow> int \<Rightarrow> u32 \<Rightarrow> bytes \<times> int \<times> u32" where
  "nat_rules direction [] c accumulate alog = (c, accumulate, alog)"
| "nat_rules direction (e # es) c accumulate alog =
     (let (addr_ptr, amask) = (if cn_type e XOR direction \<noteq> 0 then (16, 2) else (12, 1));
          addr = get32 c addr_ptr;
          (from, to) = (if direction \<noteq> 0 then (cn_foreign_network e, cn_network e) else (cn_network e, cn_foreign_network e))
      in if addr AND cn_netmask e = from \<and> amask AND alog = 0
         then let addr' = (addr AND NOT (cn_netmask e)) OR to
              in nat_rules direction es (put32 c addr_ptr addr') (SUB_CHECKSUM_32 (ADD_CHECKSUM_32 accumulate addr) addr') (alog OR amask)
         else nat_rules direction es c accumulate alog)"

definition client_nat_transform :: "client_nat_option_list \<Rightarrow> bytes \<Rightarrow> int \<Rightarrow> bytes" where
  "client_nat_transform lst c direction =
     (case nat_rules direction lst c 0 0 of
        (c1, accumulate, alog) \<Rightarrow>
          if alog \<noteq> 0
          then let c2 = put16 c1 10 (ADJUST_CHECKSUM accumulate (get16 c1 10))
               in if c2 ! 9 = OPENVPN_IPPROTO_TCP
                  then if length c2 \<ge> 20 + 20 then put16 c2 36 (ADJUST_CHECKSUM accumulate (get16 c2 36)) else c2
                  else if c2 ! 9 = OPENVPN_IPPROTO_UDP
                  then if length c2 \<ge> 20 + 8 then put16 c2 26 (ADJUST_CHECKSUM accumulate (get16 c2 26)) else c2
                  else c2
          else c1)"

section \<open>Sums of 16 bit words\<close>

text \<open>
  The one's complement sum of a header or segment is the sum of its 16 bit words modulo \<open>0xFFFF\<close>; it does not depend on the
  byte order. A checksum is correct when this sum, over all that it covers, is zero.
\<close>

fun le_words :: "bytes \<Rightarrow> int" where
  "le_words (a # b # r) = uint (of_le16 [a, b]) + le_words r"
| "le_words [a] = uint a"
| "le_words [] = 0"

lemma le_words_append: "even (length xs) \<Longrightarrow> le_words (xs @ ys) = le_words xs + le_words ys"
  by (induction xs rule: le_words.induct) auto

lemma le_words_write:
  assumes "even i" "even (length xs)" "i + length xs \<le> length t"
  shows "le_words (mem_write t i xs) = le_words t - le_words (mem_read t i (length xs)) + le_words xs"
proof -
  have t: "t = take i t @ mem_read t i (length xs) @ drop (i + length xs) t"
    by (metis append_take_drop_id drop_drop add.commute mem_read_def)
  have e: "even (length (take i t))" "even (length (mem_read t i (length xs)))" using assms by (simp_all add: mem_read_def)
  have "le_words t = le_words (take i t) + (le_words (mem_read t i (length xs)) + le_words (drop (i + length xs) t))"
    using le_words_append e by (metis t)
  moreover have "le_words (mem_write t i xs) = le_words (take i t) + (le_words xs + le_words (drop (i + length xs) t))"
    unfolding mem_write_def using le_words_append [OF e(1)] le_words_append [OF assms(2)] by simp
  ultimately show ?thesis by simp
qed

lemma mem_read_two: "i + 2 \<le> length t \<Longrightarrow> mem_read t i 2 = [t ! i, t ! (i + 1)]"
  by (simp add: mem_read_def numeral_2_eq_2 take_Suc_conv_app_nth)

lemma mem_read_four: "i + 4 \<le> length t \<Longrightarrow> mem_read t i 4 = [t ! i, t ! (i + 1), t ! (i + 2), t ! (i + 3)]"
  by (simp add: mem_read_def eval_nat_numeral take_Suc_conv_app_nth)

lemma le_words_le16: "le_words (le16 v) = uint v"
  using of_le16_le16 [of v] by (simp add: le16_def)

lemma le_words_two: "length xs = 2 \<Longrightarrow> le_words xs = uint (of_le16 xs)"
  by (cases xs rule: le_words.cases) auto

lemma le_words_put16:
  assumes "even i" "i + 2 \<le> length t"
  shows "le_words (put16 t i v) = le_words t - uint (get16 t i) + uint v"
  using le_words_write [OF assms(1), of "le16 v" t] assms(2) le_words_two [of "mem_read t i 2"] mem_read_two [OF assms(2)]
  by (simp add: put16_def get16_def le_words_le16)

text \<open>Two subtractions of \<open>0xFFFF\<close> at most: the folding of the macro.\<close>

lemma fold_carry_mod:
  assumes "0 \<le> a" "a < 2 ^ 31"
  shows "uint (fold_carry a) mod 65535 = a mod 65535"
proof -
  define c where "c = drop_bit 16 a + (a AND 0xffff)"
  have m: "a AND 0xffff = a mod 65536" using take_bit_eq_mask [of 16 a] by (simp add: mask_eq_exp_minus_1 take_bit_int_def)
  have c: "c = a div 65536 + a mod 65536" by (simp add: c_def m drop_bit_eq_div)
  have b: "0 \<le> c" "c < 98304" using assms pos_mod_bound [of 65536 a] pos_mod_sign [of 65536 a] unfolding c by simp_all
  have eq: "a = c + 65535 * (a div 65536)" unfolding c using mult_div_mod_eq [of 65536 a] by linarith
  have "uint (fold_carry a) = (c + c div 65536) mod 65536"
    by (simp add: fold_carry_def c_def Let_def unsigned_of_int take_bit_int_def drop_bit_eq_div del: of_int_add)
  also have "\<dots> = (if c < 65536 then c else c - 65535)"
  proof (cases "c < 65536")
    case True then show ?thesis using b by simp
  next
    case False
    then have "c div 65536 = 1" using b by (simp add: div_pos_geq)
    moreover have "(c + 1) mod 65536 = (c + 1 - 65536) mod 65536" by (simp only: minus_mod_self2)
    moreover have "(c + 1 - 65536) mod 65536 = c + 1 - 65536" using False b by (intro mod_pos_pos_trivial) linarith+
    ultimately show ?thesis using False by simp
  qed
  finally have "uint (fold_carry a) mod 65535 = c mod 65535" by (auto simp: minus_mod_self2)
  also have "\<dots> = a mod 65535" by (subst eq) simp
  finally show ?thesis .
qed

lemma ADJUST_CHECKSUM_cong:
  assumes "\<bar>acc\<bar> < 2 ^ 30"
  shows "uint (ADJUST_CHECKSUM acc k) mod 65535 = (acc + uint k) mod 65535"
proof -
  have k: "0 \<le> uint k" "uint k < 65536" using uint_lt2p [of k] by simp_all
  show ?thesis
  proof (cases "acc + uint k < 0")
    case False
    then show ?thesis using fold_carry_mod [of "acc + uint k"] assms k by (simp add: ADJUST_CHECKSUM_def Let_def)
  next
    case True
    let ?b = "- (acc + uint k)"
    have "- acc < 1073741824" using assms by simp
    then have "0 \<le> ?b" "?b < 2147483648" using True k(1) by linarith+
    then have f: "uint (fold_carry ?b) mod 65535 = ?b mod 65535" using fold_carry_mod [of ?b] by simp
    have n: "uint (NOT w) = 65535 - uint w" for w :: u16
    proof -
      have "uint (NOT w) = (- uint w - 1) mod 65536" by (simp add: unsigned_not_eq take_bit_eq_mod not_int_def)
      also have "\<dots> = (- uint w - 1 + 65536) mod 65536" by (simp only: mod_add_self2)
      also have "- uint w - 1 + 65536 = 65535 - uint w" by simp
      also have "(65535 - uint w) mod 65536 = 65535 - uint w"
        using uint_lt2p [of w] uint_ge_0 [of w] by (intro mod_pos_pos_trivial) (simp, linarith)
      finally show ?thesis .
    qed
    have "uint (ADJUST_CHECKSUM acc k) mod 65535 = (65535 - uint (fold_carry ?b)) mod 65535"
      using True n by (simp add: ADJUST_CHECKSUM_def Let_def)
    also have "\<dots> = (65535 - ?b) mod 65535" using f by (metis mod_diff_right_eq)
    also have "\<dots> = (acc + uint k) mod 65535" using mod_add_self1 [of 65535 "acc + uint k"] by (simp add: algebra_simps)
    finally show ?thesis .
  qed
qed

section \<open>The options of a TCP header\<close>

text \<open>The offsets of the MSS options of the right length, as far as the options can be followed.\<close>

function mss_at :: "bytes \<Rightarrow> nat \<Rightarrow> int \<Rightarrow> nat list" where
  "mss_at t i olen =
     (if olen > 1 \<and> t ! i \<noteq> 0
      then if t ! i = 1 then mss_at t (i + 1) (olen - 1)
           else if uint (t ! (i + 1)) = 0 \<or> uint (t ! (i + 1)) > olen then []
           else (if t ! i = 2 \<and> uint (t ! (i + 1)) = 4 then [i] else []) @
                mss_at t (i + nat (uint (t ! (i + 1)))) (olen - uint (t ! (i + 1)))
      else [])"
  by pat_completeness auto
termination by (relation "measure (\<lambda>(t, i, olen). nat olen)") (auto intro: uint_pos)

declare mss_at.simps [simp del]

lemma mss_at_cong:
  assumes "\<And>j. i \<le> j \<Longrightarrow> j < i + nat olen \<Longrightarrow> t ! j = t' ! j"
  shows "mss_at t i olen = mss_at t' i olen"
  using assms
proof (induction t i olen rule: mss_at.induct)
  case (1 t i olen)
  have e: "t ! i = t' ! i \<and> t ! (i + 1) = t' ! (i + 1)" if "olen > 1" using that 1(3) by auto
  have n: "nat (uint w) + nat (olen - uint w) = nat olen" if "\<not> uint w > olen" for w :: u8
    using that uint_ge_0 [of w] by linarith
  have t1: "t ! j = t' ! j" if "olen > 1" "i + 1 \<le> j" "j < i + 1 + nat (olen - 1)" for j using that 1(3) [of j] by simp
  have t2: "t ! j = t' ! j" if "\<not> uint (t ! (i + 1)) > olen" "i + nat (uint (t ! (i + 1))) \<le> j"
    "j < i + nat (uint (t ! (i + 1))) + nat (olen - uint (t ! (i + 1)))" for j
    using that 1(3) [of j] n [of "t ! (i + 1)"] by simp
  show ?case
    unfolding mss_at.simps [of t i] mss_at.simps [of t' i] using e 1(1) [OF _ _ t1] 1(2) [OF _ _ _ t2] by auto
qed

lemma mss_at_range:
  assumes "p \<in> set (mss_at t i olen)"
  shows "i \<le> p \<and> int p + 4 \<le> int i + olen"
  using assms
proof (induction t i olen rule: mss_at.induct)
  case (1 t i olen)
  let ?l = "uint (t ! (i + 1))"
  have l: "0 \<le> ?l" by simp
  show ?case
    using 1(3) 1(1) 1(2) l unfolding mss_at.simps [of t i] by (auto split: if_splits) 
qed

text \<open>One option is limited: its value, the checksum and nothing else change, and the sum stays when the option is aligned.\<close>

lemma nth_mem_write:
  "i + length xs \<le> length t \<Longrightarrow> j < length t \<Longrightarrow> mem_write t i xs ! j = (if i \<le> j \<and> j < i + length xs then xs ! (j - i) else t ! j)"
  by (auto simp: mem_write_def nth_append)

definition mss_value :: "bytes \<Rightarrow> nat \<Rightarrow> u16" where
  "mss_value t p = of_be16 [t ! (p + 2), t ! (p + 3)]"

lemma mss_clamp_effect:
  assumes "20 \<le> i" "i + 4 \<le> length t"
  shows "length (mss_clamp t m i) = length t"
    and "j < length t \<Longrightarrow> j \<notin> {16, 17, i + 2, i + 3} \<Longrightarrow> mss_clamp t m i ! j = t ! j"
    and "mss_value (mss_clamp t m i) i = min (mss_value t i) m"
    and "even i \<Longrightarrow> le_words (mss_clamp t m i) mod 65535 = le_words t mod 65535"
proof -
  let ?t1 = "mem_write t (i + 2) (be16 m)"
  let ?acc = "uint (htons (mss_value t i)) - uint (htons m)"
  let ?t2 = "put16 ?t1 16 (ADJUST_CHECKSUM ?acc (get16 ?t1 16))"
  have c: "mss_clamp t m i = (if mss_value t i > m then ?t2 else t)" by (simp add: mss_clamp_def mss_value_def Let_def)
  have l1: "length ?t1 = length t" using assms by simp
  have l2: "length ?t2 = length t" using assms l1 unfolding put16_def by (subst length_mem_write) simp_all
  have n2: "?t2 ! j = (if j = 16 \<or> j = 17 then le16 (ADJUST_CHECKSUM ?acc (get16 ?t1 16)) ! (j - 16)
      else if j = i + 2 \<or> j = i + 3 then be16 m ! (j - (i + 2)) else t ! j)" if "j < length t" for j
  proof -
    have "?t2 ! j = (if 16 \<le> j \<and> j < 18 then le16 (ADJUST_CHECKSUM ?acc (get16 ?t1 16)) ! (j - 16) else ?t1 ! j)"
      unfolding put16_def using that assms l1 by (subst nth_mem_write) simp_all
    also have "?t1 ! j = (if i + 2 \<le> j \<and> j < i + 4 then be16 m ! (j - (i + 2)) else t ! j)"
      using that assms by (subst nth_mem_write) simp_all
    finally show ?thesis using assms(1) by (auto simp: less_Suc_eq_le numeral_eq_Suc le_Suc_eq)
  qed
  show "length (mss_clamp t m i) = length t" using c l2 by simp
  show "mss_clamp t m i ! j = t ! j" if "j < length t" "j \<notin> {16, 17, i + 2, i + 3}" using c n2 that by simp
  have "mss_value ?t2 i = m"
  proof -
    have "[?t2 ! (i + 2), ?t2 ! (i + 3)] = be16 m" using n2 [of "i + 2"] n2 [of "i + 3"] assms by (simp add: be16_def)
    then show ?thesis unfolding mss_value_def by (metis of_be16_be16)
  qed
  then show "mss_value (mss_clamp t m i) i = min (mss_value t i) m" using c by (auto simp: min_def not_less)
  show "le_words (mss_clamp t m i) mod 65535 = le_words t mod 65535" if "even i"
  proof (cases "mss_value t i > m")
    case True
    have h: "uint (htons m) = le_words (be16 m)" using le_words_two [of "be16 m"] by (simp add: htons_def)
    have "mem_read t (i + 2) 2 = [t ! (i + 2), t ! (i + 3)]" using mem_read_two [of "i + 2" t] assms by (simp add: numeral_3_eq_3)
    then have o: "uint (htons (mss_value t i)) = le_words (mem_read t (i + 2) 2)"
      using le_words_two [of "mem_read t (i + 2) 2"] be16_of_be16 [of "mem_read t (i + 2) 2"] unfolding htons_def mss_value_def by simp
    have w1: "le_words ?t1 = le_words t - uint (htons (mss_value t i)) + uint (htons m)"
      using le_words_write [of "i + 2" "be16 m" t] that assms h o by simp
    have w2: "le_words ?t2 = le_words ?t1 - uint (get16 ?t1 16) + uint (ADJUST_CHECKSUM ?acc (get16 ?t1 16))"
      using le_words_put16 [of 16 ?t1] assms l1 by simp
    have "uint (htons v) < 65536" "0 \<le> uint (htons v)" for v using uint_lt2p [of "htons v"] by simp_all
    from this [of m] this [of "mss_value t i"] have "\<bar>?acc\<bar> < 1073741824" by linarith
    then have "\<bar>?acc\<bar> < 2 ^ 30" by simp
    then have "uint (ADJUST_CHECKSUM ?acc (get16 ?t1 16)) mod 65535 = (?acc + uint (get16 ?t1 16)) mod 65535" by (rule ADJUST_CHECKSUM_cong)
    then have "le_words ?t2 mod 65535 = (le_words ?t1 - uint (get16 ?t1 16) + (?acc + uint (get16 ?t1 16))) mod 65535"
      unfolding w2 by (rule mod_add_cong [OF refl])
    then show ?thesis using c True w1 by simp
  qed (use c in simp)
qed

text \<open>
  All options are limited. \<open>clamped\<close> is the change of a whole TCP segment: every MSS option has the smaller of its value and
  the limit, only these values and the checksum differ, and if all MSS options are at even offsets the sum
  of the segment, and with it the correctness of its checksum, is kept.
\<close>

definition clamped :: "u16 \<Rightarrow> nat list \<Rightarrow> bytes \<Rightarrow> bytes \<Rightarrow> bool" where
  "clamped m ps t t' \<longleftrightarrow> length t' = length t \<and>
     (\<forall>j < length t. j \<noteq> 16 \<and> j \<noteq> 17 \<and> (\<forall>p \<in> set ps. j \<noteq> p + 2 \<and> j \<noteq> p + 3) \<longrightarrow> t' ! j = t ! j) \<and>
     (\<forall>p \<in> set ps. mss_value t' p = min (mss_value t p) m) \<and>
     (list_all even ps \<longrightarrow> le_words t' mod 65535 = le_words t mod 65535)"

lemma clamped_Nil: "clamped m [] t t"
  by (simp add: clamped_def)

lemma clamped_step:
  assumes "20 \<le> i" "i + 4 \<le> length t" "clamped m ps (mss_clamp t m i) t'" "\<And>p. p \<in> set ps \<Longrightarrow> i + 4 \<le> p \<and> p + 4 \<le> length t"
  shows "clamped m (i # ps) t t'"
proof -
  note e = mss_clamp_effect [OF assms(1,2)]
  have u: "t' ! j = t ! j" if "j < length t" "j \<noteq> 16" "j \<noteq> 17" "\<forall>p \<in> set (i # ps). j \<noteq> p + 2 \<and> j \<noteq> p + 3" for j
    using that assms(3) e(1) e(2) [of j] by (auto simp: clamped_def)
  have v: "mss_value t' p = min (mss_value t p) m" if "p \<in> set ps" for p
  proof -
    have "mss_value (mss_clamp t m i) p = mss_value t p"
      unfolding mss_value_def using e(2) [of "p + 2" m] e(2) [of "p + 3" m] assms(1,4) that by fastforce
    then show ?thesis using assms(3) that by (simp add: clamped_def)
  qed
  have w: "mss_value t' i = min (mss_value t i) m"
  proof -
    have "t' ! j = mss_clamp t m i ! j" if "j = i + 2 \<or> j = i + 3" for j
    proof -
      have "j < length (mss_clamp t m i)" "j \<noteq> 16" "j \<noteq> 17" using that assms(1,2) e(1) by auto
      moreover have "\<forall>p \<in> set ps. j \<noteq> p + 2 \<and> j \<noteq> p + 3" using that assms(4) by force
      ultimately show ?thesis using assms(3) unfolding clamped_def by blast
    qed
    then show ?thesis using e(3) by (simp add: mss_value_def)
  qed
  show ?thesis using u v w assms(3) e(1,4) by (auto simp: clamped_def)
qed

lemma mss_options_clamped:
  assumes "20 \<le> i" "int i + olen \<le> int (length t)"
  shows "clamped m (mss_at t i olen) t (mss_options t m i olen)"
  using assms
proof (induction t m i olen rule: mss_options.induct)
  case (1 t m i olen)
  let ?l = "uint (t ! (i + 1))"
  have l: "0 \<le> ?l" by simp
  consider "olen \<le> 1 \<or> t ! i = 0" | "olen > 1" "t ! i = 1"
    | "olen > 1" "t ! i \<noteq> 0" "t ! i \<noteq> 1" "?l = 0 \<or> ?l > olen"
    | "olen > 1" "t ! i \<noteq> 0" "t ! i \<noteq> 1" "0 < ?l" "?l \<le> olen" "t ! i = 2" "?l = 4"
    | "olen > 1" "t ! i \<noteq> 0" "t ! i \<noteq> 1" "0 < ?l" "?l \<le> olen" "\<not> (t ! i = 2 \<and> ?l = 4)"
  proof -
    have "0 < ?l \<or> ?l = 0" using l by linarith
    then show thesis using that by (metis linorder_not_le)
  qed
  then show ?case
  proof cases
    case 1
    then show ?thesis using clamped_Nil by (auto simp: mss_options.simps [of t m i olen] mss_at.simps [of t i olen] ip_consts)
  next
    case 2
    then show ?thesis using 1(1) 1(3,4) by (simp add: mss_options.simps [of t m i olen] mss_at.simps [of t i olen] ip_consts)
  next
    case 3
    then show ?thesis using clamped_Nil by (auto simp: mss_options.simps [of t m i olen] mss_at.simps [of t i olen] ip_consts)
  next
    case 4
    have le: "i + 4 \<le> length t" using 4 1(4) by linarith
    let ?t1 = "mss_clamp t m i"
    have "nat ?l = 4" using 4(7) by (simp only: nat_numeral)
    then have u: "unat (t ! Suc i) = 4" by simp
    have ih: "clamped m (mss_at ?t1 (i + 4) (olen - 4)) ?t1 (mss_options ?t1 m (i + 4) (olen - 4))"
      using 1(2) 4 1(3,4) mss_clamp_effect(1) [OF 1(3) le] u by (simp add: ip_consts)
    have eq: "mss_at ?t1 (i + 4) (olen - 4) = mss_at t (i + 4) (olen - 4)"
    proof (rule mss_at_cong)
      fix j assume "i + 4 \<le> j" "j < i + 4 + nat (olen - 4)"
      then show "?t1 ! j = t ! j" using mss_clamp_effect(2) [OF 1(3) le, of j m] 1(3,4) 4(5,7) by simp
    qed
    have r: "i + 4 \<le> p \<and> p + 4 \<le> length t" if "p \<in> set (mss_at t (i + 4) (olen - 4))" for p
      using mss_at_range [OF that] 1(4) by simp
    have "clamped m (i # mss_at t (i + 4) (olen - 4)) t (mss_options ?t1 m (i + 4) (olen - 4))"
      using clamped_step [OF 1(3) le ih [unfolded eq]] r by blast
    then show ?thesis using 4 u by (simp add: mss_options.simps [of t m i olen] mss_at.simps [of t i olen] ip_consts)
  next
    case 5
    have "20 \<le> i + nat ?l" "int (i + nat ?l) + (olen - ?l) \<le> int (length t)" using 1(3,4) 5 by linarith+
    then have "clamped m (mss_at t (i + nat ?l) (olen - ?l)) t (mss_options t m (i + nat ?l) (olen - ?l))"
      using 1(2) 5 by (auto simp: ip_consts)
    then show ?thesis using 5 by (auto simp: mss_options.simps [of t m i olen] mss_at.simps [of t i olen] ip_consts)
  qed
qed

definition tcp_mss_options :: "bytes \<Rightarrow> nat list" where
  "tcp_mss_options t =
     (let h = OPENVPN_TCPH_GET_DOFF (t ! 12) in if h \<le> 20 \<or> h > length t then [] else mss_at t 20 (int h - 20))"

lemma dowork_clamped: "20 \<le> length t \<Longrightarrow> clamped m (tcp_mss_options t) t (mss_fixup_dowork t m)"
  using mss_options_clamped [of 20 "int (OPENVPN_TCPH_GET_DOFF (t ! 12)) - 20" t m] clamped_Nil
  by (auto simp: mss_fixup_dowork_def tcp_mss_options_def Let_def)

lemma buf_put_content:
  assumes "buf_ok buf" "length c = length (buf_content buf)"
  shows "buf_ok (buf_put buf c)" "buf_content (buf_put buf c) = c"
  using buf_store_inside [OF assms(1), of "[]" "buf_content buf" "[]" c] assms(2) by (simp_all add: buf_put_def)

text \<open>The packets that are looked at: a whole TCP packet with the SYN flag.\<close>

definition tcp_syn4 :: "bytes \<Rightarrow> bool" where
  "tcp_syn4 c \<longleftrightarrow> 20 \<le> length c \<and> c ! 9 = 6 \<and> unat (ntohs (get16 c 2)) = length c \<and> ntohs (get16 c 6) AND 0x1fff = 0 \<and>
     OPENVPN_IPH_GET_LEN (c ! 0) + 20 \<le> length c \<and> c ! (OPENVPN_IPH_GET_LEN (c ! 0) + 13) AND 2 \<noteq> 0"

definition tcp_syn6 :: "bytes \<Rightarrow> bool" where
  "tcp_syn6 c \<longleftrightarrow> 60 \<le> length c \<and> length c = unat (ntohs (get16 c 4)) + 40 \<and> c ! 6 = 6 \<and> c ! 53 AND 2 \<noteq> 0"

section \<open>Address translation\<close>

lemma get32_put32: "i + 4 \<le> length t \<Longrightarrow> get32 (put32 t i v) i = v"
  using mem_read_write_same [of i "le32 v" t] by (simp add: get32_def put32_def)

lemma length_put32: "i + 4 \<le> length t \<Longrightarrow> length (put32 t i v) = length t"
  by (simp add: put32_def)

lemma length_put16: "i + 2 \<le> length t \<Longrightarrow> length (put16 t i v) = length t"
  by (simp add: put16_def)

lemma get32_put32_other: "i + 4 \<le> length t \<Longrightarrow> j + 4 \<le> i \<or> i + 4 \<le> j \<Longrightarrow> get32 (put32 t i v) j = get32 t j"
  using mem_read_write_disjoint [of i "le32 v" t j 4] by (simp add: get32_def put32_def)

lemma get32_put16_other: "i + 2 \<le> length t \<Longrightarrow> j + 4 \<le> i \<or> i + 2 \<le> j \<Longrightarrow> get32 (put16 t i v) j = get32 t j"
  using mem_read_write_disjoint [of i "le16 v" t j 4] by (simp add: get32_def put16_def)

text \<open>Which addresses a rule applies to, and what the first rule that matches makes of an address.\<close>

definition nat_source :: "int \<Rightarrow> client_nat_entry \<Rightarrow> bool" where
  "nat_source dir e \<longleftrightarrow> cn_type e = dir"

definition nat_from :: "int \<Rightarrow> client_nat_entry \<Rightarrow> u32" where
  "nat_from dir e = (if dir = CN_OUTGOING then cn_network e else cn_foreign_network e)"

definition nat_to :: "int \<Rightarrow> client_nat_entry \<Rightarrow> u32" where
  "nat_to dir e = (if dir = CN_OUTGOING then cn_foreign_network e else cn_network e)"

definition nat_addr :: "int \<Rightarrow> client_nat_entry list \<Rightarrow> u32 \<Rightarrow> u32" where
  "nat_addr dir es a =
     (case find (\<lambda>e. a AND cn_netmask e = nat_from dir e) es of
        None \<Rightarrow> a | Some e \<Rightarrow> (a AND NOT (cn_netmask e)) OR nat_to dir e)"

definition words32 :: "u32 \<Rightarrow> int" where
  "words32 v = uint (v AND 0xffff) + uint (drop_bit 16 v)"

definition nat_result :: "int \<Rightarrow> client_nat_entry list \<Rightarrow> bytes \<Rightarrow> int \<Rightarrow> u32 \<Rightarrow> bytes \<times> int \<times> u32 \<Rightarrow> bool" where
  "nat_result dir es c acc alog r \<longleftrightarrow>
     (case r of (c', acc', alog') \<Rightarrow>
        get32 c' 12 = (if bit alog 0 then get32 c 12 else nat_addr dir (filter (nat_source dir) es) (get32 c 12)) \<and>
        get32 c' 16 = (if bit alog 1 then get32 c 16 else nat_addr dir (filter (\<lambda>e. \<not> nat_source dir e) es) (get32 c 16)) \<and>
        length c' = length c \<and> take 12 c' = take 12 c \<and> drop 20 c' = drop 20 c \<and>
        acc' = acc + words32 (get32 c 12) - words32 (get32 c' 12) + words32 (get32 c 16) - words32 (get32 c' 16) \<and>
        (alog' = 0 \<longrightarrow> c' = c \<and> alog = 0))"

lemma int_xor_eq_0: "(a XOR b = 0) = (a = (b :: int))"
  by (metis xor.assoc xor.left_neutral xor.right_neutral xor_self_eq)

lemma mask_bits:
  "(1 AND a = 0) = (\<not> bit (a :: u32) 0)" "(2 AND a = 0) = (\<not> bit (a :: u32) 1)"
  "bit (a OR 1) 0" "bit (a OR 1) 1 = bit a 1" "bit (a OR 2) 0 = bit a 0" "bit (a OR 2) 1" "a OR 1 \<noteq> 0" "a OR 2 \<noteq> 0"
proof -
  have t: "(2 :: u32) = push_bit 1 1" by simp
  show "(1 AND a = 0) = (\<not> bit a 0)" using bit_iff_and_push_bit_not_eq_0 [of a 0] by (simp add: and.commute)
  show "(2 AND a = 0) = (\<not> bit a 1)" using bit_iff_and_push_bit_not_eq_0 [of a 1] by (simp add: and.commute)
  show b: "bit (a OR 1) 0" "bit (a OR 1) 1 = bit a 1" by (simp_all add: bit_or_iff bit_1_iff)
  show "bit (a OR 2) 0 = bit a 0" unfolding t by (simp add: bit_or_iff bit_push_bit_iff bit_1_iff del: push_bit_of_1)
  show c: "bit (a OR 2) 1" unfolding t by (simp add: bit_or_iff bit_push_bit_iff bit_1_iff del: push_bit_of_1)
  show "a OR 1 \<noteq> 0" using b(1) by (metis bit_0_eq bot_apply bot_bool_def)
  show "a OR 2 \<noteq> 0" using c by (metis bit_0_eq bot_apply bot_bool_def)
qed

lemma take_put32: "12 \<le> i \<Longrightarrow> i + 4 \<le> length t \<Longrightarrow> take 12 (put32 t i v) = take 12 t"
  by (simp add: put32_def mem_write_def min_def)

lemma drop_put32: "i + 4 \<le> 20 \<Longrightarrow> i + 4 \<le> length t \<Longrightarrow> drop 20 (put32 t i v) = drop 20 t"
  by (simp add: put32_def mem_write_def)

lemma nat_rules_spec: "20 \<le> length c \<Longrightarrow> nat_result dir es c acc alog (nat_rules dir es c acc alog)"
proof (induction es arbitrary: c acc alog)
  case Nil
  then show ?case by (simp add: nat_result_def nat_addr_def)
next
  case (Cons e es)
  let ?a = "if nat_source dir e then get32 c 12 else get32 c 16"
  let ?b = "(?a AND NOT (cn_netmask e)) OR nat_to dir e"
  let ?i = "if nat_source dir e then 12 else 16 :: nat"
  let ?m = "if nat_source dir e then 1 else 2 :: u32"
  let ?hit = "?a AND cn_netmask e = nat_from dir e \<and> ?m AND alog = 0"
  have step: "nat_rules dir (e # es) c acc alog =
      (if ?hit then nat_rules dir es (put32 c ?i ?b) (acc + words32 ?a - words32 ?b) (alog OR ?m) else nat_rules dir es c acc alog)"
    by (simp add: nat_source_def nat_from_def nat_to_def CN_OUTGOING_def int_xor_eq_0 words32_def ADD_CHECKSUM_32_def SUB_CHECKSUM_32_def Let_def
        diff_diff_eq add.assoc)
  show ?case
  proof (cases ?hit)
    case False
    then show ?thesis
      using Cons.IH [OF Cons.prems, of acc alog] unfolding step
      by (cases "nat_source dir e") (auto simp: nat_result_def nat_addr_def mask_bits)
  next
    case True
    have "nat_result dir es (put32 c ?i ?b) (acc + words32 ?a - words32 ?b) (alog OR ?m) (nat_rules dir (e # es) c acc alog)"
      unfolding step if_P [OF True] using Cons.prems by (intro Cons.IH) (simp add: length_put32)
    moreover obtain c' acc' alog' where r: "nat_rules dir (e # es) c acc alog = (c', acc', alog')" by (rule prod_cases3)
    ultimately show ?thesis
      unfolding r using True Cons.prems
      by (cases "nat_source dir e")
        (auto simp: nat_result_def get32_put32 get32_put32_other length_put32 take_put32 drop_put32 mask_bits
          mask_bits [unfolded One_nat_def] nat_addr_def)
  qed
qed

text \<open>The sums: the header without options, and the addresses with all that follows the header.\<close>

lemma uint_ucast16: "uint (ucast (w :: u16) :: u32) = uint w"
  using uint_lt2p [of w] by (simp add: unsigned_ucast_eq take_bit_int_eq_self)

lemma words32_get32: "i + 4 \<le> length c \<Longrightarrow> words32 (get32 c i) = le_words (mem_read c i 4)"
proof -
  assume "i + 4 \<le> length c"
  then obtain a b d e where m: "mem_read c i 4 = [a, b, d, e]" by (simp add: mem_read_four)
  let ?v = "of_le32 [a, b, d, e]"
  have lo: "uint (?v AND 0xffff) = uint (of_le16 [a, b])"
  proof -
    have "?v AND 0xffff = take_bit 16 ?v" by (simp add: take_bit_eq_mask mask_eq_exp_minus_1)
    also have "\<dots> = ucast (of_le16 [a, b])" by (rule bit_word_eqI) (auto simp: bit_simps dest: bit_imp_le_length)
    finally have "?v AND 0xffff = ucast (of_le16 [a, b])" .
    then show ?thesis by (metis uint_ucast16)
  qed
  have hi: "uint (drop_bit 16 ?v) = uint (of_le16 [d, e])"
  proof -
    have "drop_bit 16 ?v = ucast (of_le16 [d, e])" by (rule bit_word_eqI) (auto simp: bit_simps dest: bit_imp_le_length)
    then show ?thesis by (metis uint_ucast16)
  qed
  have "le_words [a, b, d, e] = uint (of_le16 [a, b]) + uint (of_le16 [d, e])" by simp
  then show ?thesis unfolding words32_def get32_def m lo hi by (rule sym)
qed

lemma words32_range: "0 \<le> words32 v \<and> words32 v < 2 ^ 17"
proof -
  have "uint (v AND 0xffff) < 65536"
    using take_bit_eq_mask [of 16 v] take_bit_int_less_exp [of 16 "uint v"] by (simp add: mask_eq_exp_minus_1 flip: unsigned_take_bit_eq)
  moreover have "uint (drop_bit 16 v) < 65536" using uint_lt2p [of v] by (simp add: unsigned_drop_bit_eq drop_bit_int_def take_bit_int_eq_self)
  ultimately show ?thesis by (simp add: words32_def)
qed

lemma adjust_sum:
  assumes "even i" "i + 2 \<le> length t" "\<bar>acc\<bar> < 2 ^ 30"
  shows "le_words (put16 t i (ADJUST_CHECKSUM acc (get16 t i))) mod 65535 = (le_words t + acc) mod 65535"
proof -
  have "(le_words t - uint (get16 t i) + uint (ADJUST_CHECKSUM acc (get16 t i))) mod 65535 =
      (le_words t - uint (get16 t i) + (acc + uint (get16 t i))) mod 65535"
    by (rule mod_add_cong [OF refl ADJUST_CHECKSUM_cong [OF assms(3)]])
  then show ?thesis by (simp add: le_words_put16 [OF assms(1,2)])
qed

lemma nth_put16: "i + 2 \<le> length t \<Longrightarrow> j < length t \<Longrightarrow> j \<noteq> i \<Longrightarrow> j \<noteq> i + 1 \<Longrightarrow> put16 t i v ! j = t ! j"
  unfolding put16_def by (subst nth_mem_write) auto

lemma take_put16: "i + 2 \<le> n \<Longrightarrow> n \<le> length t \<Longrightarrow> take n (put16 t i v) = put16 (take n t) i v"
  by (auto simp: put16_def mem_write_def min_def drop_take)

lemma take_put16_other: "n \<le> i \<Longrightarrow> i \<le> length t \<Longrightarrow> take n (put16 t i v) = take n t"
  by (simp add: put16_def mem_write_def min_def)

lemma drop_put16: "n \<le> i \<Longrightarrow> i \<le> length t \<Longrightarrow> drop n (put16 t i v) = put16 (drop n t) (i - n) v"
  by (simp add: put16_def mem_write_def drop_take add.commute)

lemma drop_put16_other: "i + 2 \<le> n \<Longrightarrow> n \<le> length t \<Longrightarrow> drop n (put16 t i v) = drop n t"
  by (simp add: put16_def mem_write_def numeral_2_eq_2 Suc_diff_Suc)

lemma get16_take: "i + 2 \<le> n \<Longrightarrow> get16 (take n t) i = get16 t i"
  by (simp add: get16_def mem_read_def drop_take min_def)

lemma get16_drop: "n \<le> i \<Longrightarrow> get16 (drop n t) (i - n) = get16 t i"
  by (simp add: get16_def mem_read_def)

lemma addr_split: "20 \<le> length c \<Longrightarrow> drop 12 c = mem_read c 12 4 @ mem_read c 16 4 @ drop 20 c"
  using append_take_drop_id [of 4 "drop 12 c"] append_take_drop_id [of 4 "drop 16 c"] by (simp add: mem_read_def)

lemma addr_sum:
  assumes "20 \<le> length c"
  shows "le_words (drop 12 c) = words32 (get32 c 12) + words32 (get32 c 16) + le_words (drop 20 c)"
    and "le_words (take 20 c) = le_words (take 12 c) + words32 (get32 c 12) + words32 (get32 c 16)"
proof -
  have e: "even (length (mem_read c 12 4))" "even (length (mem_read c 16 4))" "even (length (take 12 c))" using assms by auto
  show "le_words (drop 12 c) = words32 (get32 c 12) + words32 (get32 c 16) + le_words (drop 20 c)"
    unfolding addr_split [OF assms] using assms by (simp add: le_words_append e words32_get32)
  have "take 20 c = take 12 c @ mem_read c 12 4 @ mem_read c 16 4"
    using take_add [of 12 8 c] take_add [of 4 4 "drop 12 c"] by (simp add: mem_read_def)
  then show "le_words (take 20 c) = le_words (take 12 c) + words32 (get32 c 12) + words32 (get32 c 16)"
    using assms by (simp add: le_words_append e words32_get32)
qed

text \<open>The change of the addresses alone: what the rules leave, and how the two sums move.\<close>

lemma nat_rules_sums:
  assumes "20 \<le> length c" "nat_rules dir es c 0 0 = (c', acc, alog)"
  shows "length c' = length c" "\<bar>acc\<bar> < 2 ^ 30" "take 12 c' = take 12 c" "drop 20 c' = drop 20 c" "alog = 0 \<Longrightarrow> c' = c"
    and "get32 c' 12 = nat_addr dir (filter (nat_source dir) es) (get32 c 12)"
    and "get32 c' 16 = nat_addr dir (filter (\<lambda>e. \<not> nat_source dir e) es) (get32 c 16)"
    and "le_words (take 20 c') = le_words (take 20 c) - acc" "le_words (drop 12 c') = le_words (drop 12 c) - acc"
proof -
  have r: "nat_result dir es c 0 0 (c', acc, alog)" using nat_rules_spec [OF assms(1), of dir es 0 0] assms(2) by simp
  then show l: "length c' = length c" and t: "take 12 c' = take 12 c" and d: "drop 20 c' = drop 20 c"
    and "alog = 0 \<Longrightarrow> c' = c"
    and "get32 c' 12 = nat_addr dir (filter (nat_source dir) es) (get32 c 12)"
    and "get32 c' 16 = nat_addr dir (filter (\<lambda>e. \<not> nat_source dir e) es) (get32 c 16)"
    by (simp_all add: nat_result_def)
  have acc: "acc = words32 (get32 c 12) - words32 (get32 c' 12) + words32 (get32 c 16) - words32 (get32 c' 16)"
    using r by (simp add: nat_result_def)
  then show "\<bar>acc\<bar> < 2 ^ 30"
    using words32_range [of "get32 c 12"] words32_range [of "get32 c' 12"] words32_range [of "get32 c 16"] words32_range [of "get32 c' 16"]
    by (simp add: abs_less_iff)
  have l': "20 \<le> length c'" using l assms(1) by simp
  show "le_words (take 20 c') = le_words (take 20 c) - acc" "le_words (drop 12 c') = le_words (drop 12 c) - acc"
    using addr_sum [OF assms(1)] addr_sum [OF l'] acc t d by simp_all
qed

text \<open>The checksum of the transport header that the code adjusts: its offset in the packet.\<close>

definition nat_cksum :: "bytes \<Rightarrow> nat option" where
  "nat_cksum c =
     (if c ! 9 = 6 \<and> length c \<ge> 40 then Some 36 else if c ! 9 = 17 \<and> length c \<ge> 28 then Some 26 else None)"

definition adjust_opt :: "int \<Rightarrow> nat option \<Rightarrow> bytes \<Rightarrow> bytes" where
  "adjust_opt acc p c = (case p of None \<Rightarrow> c | Some i \<Rightarrow> put16 c i (ADJUST_CHECKSUM acc (get16 c i)))"

lemma client_nat_transform_alt:
  assumes "20 \<le> length c" "nat_rules dir es c 0 0 = (c1, acc, alog)" "alog \<noteq> 0"
  shows "client_nat_transform es c dir = adjust_opt acc (nat_cksum c) (adjust_opt acc (Some 10) c1)"
proof -
  note n = nat_rules_sums [OF assms(1,2)]
  have "c1 ! 9 = c ! 9" using arg_cong [OF n(3), of "\<lambda>x. x ! 9"] by simp
  then have "put16 c1 10 v ! 9 = c ! 9" for v using nth_put16 [of 10 c1 9 v] n(1) assms(1) by simp
  moreover have "length (put16 c1 10 v) = length c" for v using length_put16 [of 10 c1 v] n(1) assms(1) by simp
  ultimately show ?thesis using assms(2,3) by (auto simp: client_nat_transform_def adjust_opt_def nat_cksum_def ip_consts Let_def)
qed

lemma adjust_cksum_effect:
  assumes "nat_cksum c = Some i" "length c2 = length c" "\<bar>acc\<bar> < 2 ^ 30"
  defines "c3 \<equiv> adjust_opt acc (Some i) c2"
  shows "length c3 = length c" "take 20 c3 = take 20 c2" "get32 c3 12 = get32 c2 12" "get32 c3 16 = get32 c2 16"
    and "le_words (drop 12 c3) mod 65535 = (le_words (drop 12 c2) + acc) mod 65535"
proof -
  have i: "20 \<le> i" "i + 2 \<le> length c2" "even i" using assms(1,2) by (auto simp: nat_cksum_def split: if_splits)
  show "length c3 = length c" "take 20 c3 = take 20 c2" "get32 c3 12 = get32 c2 12" "get32 c3 16 = get32 c2 16"
    using i assms(2) by (simp_all add: c3_def adjust_opt_def length_put16 take_put16_other get32_put16_other)
  have "drop 12 c3 = put16 (drop 12 c2) (i - 12) (ADJUST_CHECKSUM acc (get16 (drop 12 c2) (i - 12)))"
    using i by (simp add: c3_def adjust_opt_def drop_put16 get16_drop)
  then show "le_words (drop 12 c3) mod 65535 = (le_words (drop 12 c2) + acc) mod 65535"
    using adjust_sum [OF _ _ assms(3), of "i - 12" "drop 12 c2"] i by simp
qed

lemma adjust_header_effect:
  assumes "20 \<le> length c1" "\<bar>acc\<bar> < 2 ^ 30"
  defines "c2 \<equiv> adjust_opt acc (Some 10) c1"
  shows "length c2 = length c1" "get32 c2 12 = get32 c1 12" "get32 c2 16 = get32 c1 16" "drop 12 c2 = drop 12 c1"
    and "le_words (take 20 c2) mod 65535 = (le_words (take 20 c1) + acc) mod 65535"
proof -
  show "length c2 = length c1" "get32 c2 12 = get32 c1 12" "get32 c2 16 = get32 c1 16" "drop 12 c2 = drop 12 c1"
    using assms(1) by (simp_all add: c2_def adjust_opt_def length_put16 get32_put16_other drop_put16_other)
  have "take 20 c2 = put16 (take 20 c1) 10 (ADJUST_CHECKSUM acc (get16 (take 20 c1) 10))"
    using assms(1) by (simp add: c2_def adjust_opt_def take_put16 get16_take)
  then show "le_words (take 20 c2) mod 65535 = (le_words (take 20 c1) + acc) mod 65535"
    using adjust_sum [OF _ _ assms(2), of 10 "take 20 c1"] assms(1) by simp
qed

lemma adjust_opt_nth: "pred_option (\<lambda>i. i + 2 \<le> length c \<and> j \<noteq> i \<and> j \<noteq> i + 1) p \<Longrightarrow> j < length c \<Longrightarrow> adjust_opt acc p c ! j = c ! j"
  by (cases p) (simp_all add: adjust_opt_def nth_put16)

text \<open>Which packets the correction puts back, and that it puts them back in place.\<close>

lemma mss_fixup_eqs:
  assumes "buf_ok buf" "buf_content buf = c"
  defines "h \<equiv> OPENVPN_IPH_GET_LEN (c ! 0)"
  shows "mss_fixup_ipv4 buf m = (if tcp_syn4 c then buf_put buf (take h c @ mss_fixup_dowork (drop h c) (word_of_int m)) else buf)"
    and "mss_fixup_ipv6 buf m = (if tcp_syn6 c then buf_put buf (take 40 c @ mss_fixup_dowork (drop 40 c) (word_of_int m - 20)) else buf)"
    and "tcp_syn4 c \<Longrightarrow> h + 20 \<le> length c" "tcp_syn6 c \<Longrightarrow> 40 + 20 \<le> length c"
proof -
  have load: "buf_load buf (b_offset buf) (nat (BLEN buf)) = c" using buf_load_all assms(1,2) by simp
  show "mss_fixup_ipv4 buf m = (if tcp_syn4 c then buf_put buf (take h c @ mss_fixup_dowork (drop h c) (word_of_int m)) else buf)"
    by (auto simp: mss_fixup_ipv4_def load Let_def tcp_syn4_def h_def ip_consts)
  show "mss_fixup_ipv6 buf m = (if tcp_syn6 c then buf_put buf (take 40 c @ mss_fixup_dowork (drop 40 c) (word_of_int m - 20)) else buf)"
    by (auto simp: mss_fixup_ipv6_def load Let_def tcp_syn6_def ip_consts)
  show "tcp_syn4 c \<Longrightarrow> h + 20 \<le> length c" "tcp_syn6 c \<Longrightarrow> 40 + 20 \<le> length c" by (simp_all add: tcp_syn4_def tcp_syn6_def h_def)
qed

lemma mss_put:
  fixes v :: u16
  assumes "buf_ok buf" "buf_content buf = c" "n + 20 \<le> length c"
  defines "t \<equiv> mss_fixup_dowork (drop n c) v"
  shows "buf_ok (buf_put buf (take n c @ t))" "buf_content (buf_put buf (take n c @ t)) = take n c @ t"
    and "clamped v (tcp_mss_options (drop n c)) (drop n c) t"
proof -
  show w: "clamped v (tcp_mss_options (drop n c)) (drop n c) t" unfolding t_def using assms(3) by (intro dowork_clamped) simp
  then have "length (take n c @ t) = length (buf_content buf)" using assms(2,3) by (simp add: clamped_def)
  then show "buf_ok (buf_put buf (take n c @ t))" "buf_content (buf_put buf (take n c @ t)) = take n c @ t"
    using buf_put_content [OF assms(1)] by simp_all
qed

lemma buf_put_same: "b_offset (buf_put b c) = b_offset b" "b_len (buf_put b c) = b_len b" "b_capacity (buf_put b c) = b_capacity b"
  by (simp_all add: buf_put_def buf_store_def)

lemma mss_fixup_keeps:
  assumes "buf_ok buf"
  shows "buf_ok (mss_fixup_ipv4 buf m)" "buf_ok (mss_fixup_ipv6 buf m)"
    and "take 40 (buf_content (mss_fixup_ipv6 buf m)) = take 40 (buf_content buf)"
    and "mss_fixup_ipv4 buf m = buf\<lparr>b_data := b_data (mss_fixup_ipv4 buf m)\<rparr>"
    and "mss_fixup_ipv6 buf m = buf\<lparr>b_data := b_data (mss_fixup_ipv6 buf m)\<rparr>"
proof -
  note f = mss_fixup_eqs [OF assms refl] and p = mss_put [OF assms refl]
  show "buf_ok (mss_fixup_ipv4 buf m)" "buf_ok (mss_fixup_ipv6 buf m)" using f p(1) assms by auto
  show "take 40 (buf_content (mss_fixup_ipv6 buf m)) = take 40 (buf_content buf)"
    using f(2,4) p(2) by (cases "tcp_syn6 (buf_content buf)") auto
  show "mss_fixup_ipv4 buf m = buf\<lparr>b_data := b_data (mss_fixup_ipv4 buf m)\<rparr>"
    "mss_fixup_ipv6 buf m = buf\<lparr>b_data := b_data (mss_fixup_ipv6 buf m)\<rparr>"
    using f(1,2) by (simp_all add: buf_put_def buf_store_def)
qed

lemma client_nat_effect:
  fixes c :: bytes and lst :: client_nat_option_list and dir :: int and j :: nat
  assumes "20 \<le> length c"
  defines "c' \<equiv> client_nat_transform lst c dir"
  shows "length c' = length c"
    and "get32 c' 12 = nat_addr dir (filter (nat_source dir) lst) (get32 c 12)"
    and "get32 c' 16 = nat_addr dir (filter (\<lambda>e. \<not> nat_source dir e) lst) (get32 c 16)"
    and "le_words (take 20 c') mod 65535 = le_words (take 20 c) mod 65535"
    and "nat_cksum c \<noteq> None \<Longrightarrow> le_words (drop 12 c') mod 65535 = le_words (drop 12 c) mod 65535"
    and "j < length c \<Longrightarrow> j < 10 \<or> 20 \<le> j \<Longrightarrow> nat_cksum c \<noteq> Some j \<Longrightarrow> nat_cksum c \<noteq> Some (j - 1) \<Longrightarrow> c' ! j = c ! j"
proof -
  obtain c1 acc alog where n: "nat_rules dir lst c 0 0 = (c1, acc, alog)" by (rule prod_cases3)
  note r = nat_rules_sums [OF assms(1) n]
  let ?c2 = "adjust_opt acc (Some 10) c1"
  have l1: "20 \<le> length c1" using assms(1) r(1) by simp
  note h = adjust_header_effect [OF l1 r(2)]
  have l2: "length ?c2 = length c" using h(1) r(1) by simp
  consider (none) "alog = 0" "c' = c" | (hdr) "alog \<noteq> 0" "nat_cksum c = None" "c' = ?c2"
    | (seg) i where "alog \<noteq> 0" "nat_cksum c = Some i" "c' = adjust_opt acc (Some i) ?c2"
  proof (cases "alog = 0")
    case True
    moreover have "c' = c" using True n r(5) by (simp add: c'_def client_nat_transform_def)
    ultimately show thesis by (rule that(1))
  next
    case False
    then have "c' = adjust_opt acc (nat_cksum c) ?c2" unfolding c'_def by (rule client_nat_transform_alt [OF assms(1) n])
    then show thesis using that(2,3) False by (cases "nat_cksum c") (auto simp: adjust_opt_def)
  qed
  note cs = this
  show len: "length c' = length c" using l2 adjust_cksum_effect(1) [OF _ l2 r(2)] by (cases rule: cs) simp_all
  show "get32 c' 12 = nat_addr dir (filter (nat_source dir) lst) (get32 c 12)"
    using r(5,6) h(2) adjust_cksum_effect(3) [OF _ l2 r(2)] by (cases rule: cs) simp_all
  show "get32 c' 16 = nat_addr dir (filter (\<lambda>e. \<not> nat_source dir e) lst) (get32 c 16)"
    using r(5,7) h(3) adjust_cksum_effect(4) [OF _ l2 r(2)] by (cases rule: cs) simp_all
  show "le_words (take 20 c') mod 65535 = le_words (take 20 c) mod 65535"
    using r(8) h(5) adjust_cksum_effect(2) [OF _ l2 r(2)] by (cases rule: cs) simp_all
  show "le_words (drop 12 c') mod 65535 = le_words (drop 12 c) mod 65535" if "nat_cksum c \<noteq> None"
    using that r(9) h(4) adjust_cksum_effect(5) [OF _ l2 r(2)] by (cases rule: cs) simp_all
  show "c' ! j = c ! j" if j: "j < length c" "j < 10 \<or> 20 \<le> j" "nat_cksum c \<noteq> Some j" "nat_cksum c \<noteq> Some (j - 1)"
  proof -
    have "?c2 ! j = c1 ! j" using adjust_opt_nth [where j = j and c = c1 and p = "Some 10" and acc = acc] j r(1) assms(1) by auto
    also have "\<dots> = c ! j"
      using j(2) arg_cong [OF r(3), of "\<lambda>x. x ! j"] arg_cong [OF r(4), of "\<lambda>x. x ! (j - 20)"] j(1) r(1) by auto
    finally have e: "?c2 ! j = c ! j" .
    have "adjust_opt acc (Some i) ?c2 ! j = c ! j" if "nat_cksum c = Some i" for i
    proof -
      have "i + 2 \<le> length ?c2" using that l2 by (auto simp: nat_cksum_def split: if_splits)
      then show ?thesis using adjust_opt_nth [where j = j and c = ?c2 and p = "Some i" and acc = acc] j l2 that e by auto
    qed
    then show ?thesis using e by (cases rule: cs) simp_all
  qed
qed

lemma mss_fixup_effect:
  assumes "buf_ok buf" "buf_content buf = c"
  defines "h \<equiv> OPENVPN_IPH_GET_LEN (c ! 0)"
  shows "buf_ok (mss_fixup_ipv4 buf m)" "buf_ok (mss_fixup_ipv6 buf m)"
    and "\<not> tcp_syn4 c \<Longrightarrow> mss_fixup_ipv4 buf m = buf" "\<not> tcp_syn6 c \<Longrightarrow> mss_fixup_ipv6 buf m = buf"
    and "tcp_syn4 c \<Longrightarrow> \<exists>t. buf_content (mss_fixup_ipv4 buf m) = take h c @ t \<and>
           clamped (word_of_int m) (tcp_mss_options (drop h c)) (drop h c) t"
    and "tcp_syn6 c \<Longrightarrow> \<exists>t. buf_content (mss_fixup_ipv6 buf m) = take 40 c @ t \<and>
           clamped (word_of_int m - 20) (tcp_mss_options (drop 40 c)) (drop 40 c) t"
proof -
  note f = mss_fixup_eqs [OF assms(1,2)] and p = mss_put [OF assms(1,2)]
  show "buf_ok (mss_fixup_ipv4 buf m)" "buf_ok (mss_fixup_ipv6 buf m)" using mss_fixup_keeps [OF assms(1)] by simp_all
  show "\<not> tcp_syn4 c \<Longrightarrow> mss_fixup_ipv4 buf m = buf" "\<not> tcp_syn6 c \<Longrightarrow> mss_fixup_ipv6 buf m = buf" using f by simp_all
  show "\<exists>t. buf_content (mss_fixup_ipv4 buf m) = take h c @ t \<and> clamped (word_of_int m) (tcp_mss_options (drop h c)) (drop h c) t" if "tcp_syn4 c"
    using f(1) that p(2,3) [OF f(3)] by (auto simp: h_def)
  show "\<exists>t. buf_content (mss_fixup_ipv6 buf m) = take 40 c @ t \<and> clamped (word_of_int m - 20) (tcp_mss_options (drop 40 c)) (drop 40 c) t" if "tcp_syn6 c"
    using f(2) that p(2,3) [OF f(4)] by auto
qed

section \<open>Properties\<close>


text \<open>A rule that maps a host, and an outgoing ICMP packet of that host: its source address and header checksum change.\<close>

definition icmp_packet :: bytes where
  "icmp_packet = [0x45, 0, 0, 20, 0, 0, 0, 0, 64, 1, 0x62, 0xe0, 10, 8, 0, 6, 10, 8, 0, 1]"

definition snat_rule :: client_nat_entry where
  "snat_rule = \<lparr>cn_type = CN_SNAT, cn_network = 0x0600080a, cn_netmask = 0xffffffff, cn_foreign_network = 0x0600a8c0\<rparr>"


text \<open>
  C33. The correction of the segment size: for a buffer that holds a whole IPv4 or IPv6 packet which is a TCP segment with SYN, each
  MSS option of the segment becomes the smaller of its value and the limit (the limit less 20 for IPv6), no other byte but the checksum
  changes and, if the MSS options are at even offsets, the one's complement sum over the segment is kept; every other packet
  is left as it is. The buffer stays well formed.
\<close>

theorem mss_fixup_clamps:
  assumes "buf_ok buf" "buf_content buf = c"
  shows "buf_ok (mss_fixup_ipv4 buf m) \<and> buf_ok (mss_fixup_ipv6 buf m) \<and>
    (if tcp_syn4 c
     then let h = OPENVPN_IPH_GET_LEN (c ! 0)
          in \<exists>t. buf_content (mss_fixup_ipv4 buf m) = take h c @ t \<and> clamped (word_of_int m) (tcp_mss_options (drop h c)) (drop h c) t
     else mss_fixup_ipv4 buf m = buf) \<and>
    (if tcp_syn6 c
     then \<exists>t. buf_content (mss_fixup_ipv6 buf m) = take 40 c @ t \<and> clamped (word_of_int m - 20) (tcp_mss_options (drop 40 c)) (drop 40 c) t
     else mss_fixup_ipv6 buf m = buf)"
  unfolding Let_def using mss_fixup_effect [OF assms, of m] by (simp split del: if_split) (auto split: if_split)

text \<open>A SYN packet with an MSS option of 1460.\<close>

definition syn_segment :: bytes where
  "syn_segment = [0x30, 0x39, 0, 80, 0, 0, 0, 1, 0, 0, 0, 0, 0x60, 2, 0xff, 0xff, 0x12, 0x34, 0, 0, 2, 4, 0x05, 0xb4]"

definition syn_packet :: bytes where
  "syn_packet = [0x45, 0, 0, 44, 0, 0, 0, 0, 64, 6, 0, 0, 10, 8, 0, 6, 10, 8, 0, 1] @ syn_segment"

definition syn_buffer :: buffer where
  "syn_buffer = \<lparr>b_capacity = 44, b_offset = 0, b_len = 44, b_data = Some syn_packet\<rparr>"

theorem mss_fixup_clamps_witness:
  "\<exists>t. buf_content (mss_fixup_ipv4 syn_buffer 1200) = take 20 syn_packet @ t \<and> mss_value t 20 = 1200 \<and>
     le_words t mod 65535 = le_words syn_segment mod 65535"
proof -
  have b: "buf_ok syn_buffer" "buf_content syn_buffer = syn_packet"
    by (simp_all add: buf_ok_def syn_buffer_def syn_packet_def syn_segment_def buf_content_def buf_load_def mem_read_def)
  have s: "tcp_syn4 syn_packet" by code_simp
  have o: "OPENVPN_IPH_GET_LEN (syn_packet ! 0) = 20" "drop 20 syn_packet = syn_segment" by code_simp+
  have m: "tcp_mss_options syn_segment = [20]" "mss_value syn_segment 20 = 1460" by code_simp+
  obtain t where t: "buf_content (mss_fixup_ipv4 syn_buffer 1200) = take 20 syn_packet @ t"
      "clamped (word_of_int 1200) (tcp_mss_options syn_segment) syn_segment t"
    using mss_fixup_clamps [OF b, of 1200] s o by (auto simp: Let_def)
  then show ?thesis using m by (intro exI [of _ t]) (simp add: clamped_def min_def)
qed

text \<open>A SYN segment whose MSS option follows a single NOP.\<close>

definition odd_segment :: bytes where
  "odd_segment = [0x30, 0x39, 0, 80, 0, 0, 0, 1, 0, 0, 0, 0, 0x70, 2, 0xff, 0xff, 0x12, 0x34, 0, 0, 1, 2, 4, 0x05, 0xb4, 0, 0, 0]"

text \<open>
  The correction of the checksum takes the change of the value as a change of an aligned 16 bit word. For an MSS option that
  stands at an odd offset (after a single NOP, which the code skips) the corrected segment has a wrong checksum: the sum over the segment is not
  kept.
\<close>

theorem mss_fixup_odd_option:
  "tcp_mss_options odd_segment = [21] \<and> mss_value (mss_fixup_dowork odd_segment 1200) 21 = 1200 \<and>
   le_words (mss_fixup_dowork odd_segment 1200) mod 65535 \<noteq> le_words odd_segment mod 65535"
proof -
  have "tcp_mss_options odd_segment = [21]" by code_simp
  moreover have "mss_value (mss_fixup_dowork odd_segment 1200) 21 = 1200" by code_simp
  moreover have "le_words (mss_fixup_dowork odd_segment 1200) mod 65535 \<noteq> le_words odd_segment mod 65535" by code_simp
  ultimately show ?thesis by simp
qed

end
