(* ===== verification/Ip_Header.thy ===== *)
theory Ip_Header
  imports Ip_Rewrite Inet_Checksum Mtu "HOL-Library.Monad_Syntax"
begin

text \<open>
  What OpenVPN reads in the headers of the IP packets that it carries: the checksum with a pseudo header (\<open>ip_checksum\<close> of \<open>proto.c\<close>), the removal
  of the router option from DHCP answers (\<open>dhcp.c\<close>), and, of \<open>forward.c\<close>, the ICMPv6 answer that refuses an IPv6 packet and the handler
  \<open>process_ip_header\<close> that applies all of it, with the rewriting of \<open>Ip_Rewrite\<close>, to a packet between device and peer.
\<close>

section \<open>The checksum with a pseudo header (proto.c)\<close>

text \<open>The loops over pairs of bytes; a last single byte is the high byte of a word.\<close>

fun sum_words :: "bytes \<Rightarrow> u32" where
  "sum_words (a # b # r) = ucast (of_be16 [a, b]) + sum_words r"
| "sum_words [a] = ucast (of_be16 [a, 0])"
| "sum_words [] = 0"

definition ip_checksum :: "bool \<Rightarrow> bytes \<Rightarrow> bytes \<Rightarrow> bytes \<Rightarrow> u16 \<Rightarrow> u16" where
  "ip_checksum af_inet payload src_addr dest_addr proto =
     (let addr_len = (if af_inet then 4 else 16);
          sum = sum_words payload + sum_words (take addr_len src_addr) + sum_words (take addr_len dest_addr) +
                ucast (of_nat (length payload) :: u16) + ucast proto
      in ucast (NOT (checksum_fold sum)))"

section \<open>DHCP answers (dhcp.c)\<close>

definition DHCP_PAD :: u8 where "DHCP_PAD = 0"
definition DHCP_ROUTER :: u8 where "DHCP_ROUTER = 3"
definition DHCP_MSG_TYPE :: u8 where "DHCP_MSG_TYPE = 53"
definition DHCP_END :: u8 where "DHCP_END = 255"
definition DHCPOFFER :: int where "DHCPOFFER = 2"
definition DHCPACK :: int where "DHCPACK = 5"
definition BOOTPS_PORT :: u16 where "BOOTPS_PORT = 67"
definition BOOTPC_PORT :: u16 where "BOOTPC_PORT = 68"
definition BOOTREPLY :: u8 where "BOOTREPLY = 2"

lemmas dhcp_consts = DHCP_PAD_def DHCP_ROUTER_def DHCP_MSG_TYPE_def DHCP_END_def DHCPOFFER_def DHCPACK_def

text \<open>The options are the bytes after the fixed part of the message; \<open>optlen\<close> is their number.\<close>

function get_dhcp_message_type :: "bytes \<Rightarrow> nat \<Rightarrow> int" where
  "get_dhcp_message_type p i =
     (if i < length p
      then let room = length p - i
           in if p ! i = DHCP_END then - 1
              else if p ! i = DHCP_PAD then get_dhcp_message_type p (i + 1)
              else if p ! i = DHCP_MSG_TYPE
              then if room \<ge> 3 then if p ! (i + 1) = 1 then uint (p ! (i + 2)) else - 1 else - 1
              else if room \<ge> 2 then get_dhcp_message_type p (i + (unat (p ! (i + 1)) + 1) + 1)
              else get_dhcp_message_type p (i + 1)
      else - 1)"
  by pat_completeness auto
termination by (relation "measure (\<lambda>(p, i). length p - i)") auto

declare get_dhcp_message_type.simps [simp del]

text \<open>The rest of the options is moved over the option at \<open>i\<close>, and the end is padded.\<close>

definition delete_option :: "bytes \<Rightarrow> nat \<Rightarrow> nat \<Rightarrow> bytes" where
  "delete_option p i owlen =
     (let src = i + owlen; movlen = length p - src;
          p1 = (if movlen > 0 then mem_write p i (mem_read p src movlen) else p)
      in mem_write p1 (length p - owlen) (replicate owlen DHCP_PAD))"

function do_extract :: "bytes \<Rightarrow> nat \<Rightarrow> u32 \<Rightarrow> bytes \<times> u32" where
  "do_extract p i ret =
     (if i < length p
      then let room = length p - i
           in if p ! i = DHCP_END then (p, ret)
              else if p ! i = DHCP_PAD then do_extract p (i + 1) ret
              else if p ! i = DHCP_ROUTER
              then if room \<ge> 2
                   then let len = unat (p ! (i + 1))
                        in if len \<le> room - 2
                           then do_extract (delete_option p i (len + 2)) i
                                  (if ret = 0 \<and> len \<ge> 4 \<and> len AND 3 = 0 then of_be32 (mem_read p (i + 2) 4) else ret)
                           else (p, ret)
                   else (p, ret)
              else if room \<ge> 2 then do_extract p (i + (unat (p ! (i + 1)) + 2)) ret
              else (p, ret)
      else (p, ret))"
  by pat_completeness auto

text \<open>
  The loop does not advance when it deletes an option: it ends because each deletion takes a byte that is not padding out of the options
  that are left.
\<close>

lemma delete_option_eq:
  assumes "i + n \<le> length p"
  shows "delete_option p i n = take i p @ drop (i + n) p @ replicate n DHCP_PAD"
proof -
  obtain k where "length p = i + n + k" using assms le_Suc_ex by blast
  then show ?thesis by (auto simp: delete_option_def Let_def mem_write_def mem_read_def min_def)
qed

lemma filter_drop_le: "length (filter P (drop (i + n) p)) \<le> length (filter P (drop i p))"
  by (metis add.commute append_take_drop_id drop_drop filter_append le_add2 length_append)

lemma filter_drop_less:
  assumes "i < length p" "P (p ! i)" "0 < n"
  shows "length (filter P (drop (i + n) p)) < length (filter P (drop i p))"
proof -
  have "drop i p = p ! i # drop (i + 1) p" using assms(1) by (simp add: Cons_nth_drop_Suc)
  moreover have "length (filter P (drop (i + 1 + (n - 1)) p)) \<le> length (filter P (drop (i + 1) p))" by (rule filter_drop_le)
  ultimately show ?thesis using assms(2,3) by simp
qed

termination do_extract
proof (relation "measure (\<lambda>(p, i, ret). (length p - i) + length (filter (\<lambda>b. b \<noteq> 0) (drop i p)))", goal_cases)
  case (3 p i ret room len)
  then have l: "i + (len + 2) \<le> length p" by auto
  have "length (filter (\<lambda>b. b \<noteq> 0) (drop (i + (len + 2)) p)) < length (filter (\<lambda>b. b \<noteq> 0) (drop i p))"
    using 3 by (intro filter_drop_less) (auto simp: dhcp_consts)
  then show ?case using l by (simp add: delete_option_eq dhcp_consts)
next
  case (2 p i ret room)
  then show ?case using filter_drop_le [of "\<lambda>b. b \<noteq> 0" i 1 p] by simp
next
  case (4 p i ret room)
  then show ?case using filter_drop_le [of "\<lambda>b. b \<noteq> 0" i "unat (p ! (i + 1)) + 2" p] by simp
qed simp

declare do_extract.simps [simp del]

text \<open>A packet is an IP header without options, a UDP header of 8 bytes, the fixed part of 240 bytes and the options.\<close>

definition dhcp_extract_router_msg :: "bytes \<Rightarrow> bytes \<times> u32" where
  "dhcp_extract_router_msg c =
     (if length c \<ge> 268 \<and> c ! 9 = OPENVPN_IPPROTO_UDP \<and> get16 c 20 = htons BOOTPS_PORT \<and> get16 c 22 = htons BOOTPC_PORT \<and>
         c ! 28 = BOOTREPLY
      then let message_type = get_dhcp_message_type (drop 268 c) 0
           in if message_type = DHCPACK \<or> message_type = DHCPOFFER
              then case do_extract (drop 268 c) 0 0 of
                     (p, ret) \<Rightarrow>
                       let c1 = put16 (take 268 c @ p) 26 0;
                           c2 = put16 c1 26 (htons (ip_checksum True (drop 20 c1) (mem_read c1 12 4) (mem_read c1 16 4) 17))
                       in (c2, if message_type = DHCPACK then ret else 0)
              else (c, 0)
      else (c, 0))"

section \<open>The context (forward.c)\<close>

definition PIPV4_PASSTOS :: u32 where "PIPV4_PASSTOS = 1"
definition PIP_MSSFIX :: u32 where "PIP_MSSFIX = 2"
definition PIP_OUTGOING :: u32 where "PIP_OUTGOING = 4"
definition PIPV4_EXTRACT_DHCP_ROUTER :: u32 where "PIPV4_EXTRACT_DHCP_ROUTER = 8"
definition PIPV4_CLIENT_NAT :: u32 where "PIPV4_CLIENT_NAT = 16"
definition PIPV6_IMCP_NOHOST_CLIENT :: u32 where "PIPV6_IMCP_NOHOST_CLIENT = 32"
definition PIPV6_IMCP_NOHOST_SERVER :: u32 where "PIPV6_IMCP_NOHOST_SERVER = 64"
definition RTSA_REMOTE_ENDPOINT :: u32 where "RTSA_REMOTE_ENDPOINT = 1"

record link_tos =
  ptos :: u8
  ptos_defined :: bool

record route_special_addr =
  rt_flags :: u32
  remote_endpoint :: u32

datatype openvpn_sockaddr = SockIn4 u32 | SockIn6 bytes | SockOther

text \<open>
  The part of \<open>struct context\<close> that the handlers use: options, geometry, socket, routes, environment and the buffers for packets on
  their way. The environment holds the addresses as numbers.
\<close>

record ip_context =
  opt_mssfix :: int
  opt_passtos :: bool
  opt_client_nat :: "client_nat_option_list option"
  opt_route_gateway_via_dhcp :: bool
  opt_block_ipv6 :: bool
  opt_ifconfig_ipv6_remote :: "string option"
  tunnel_type :: int
  ctx_frame :: frame
  link_socket :: "link_tos option"
  to_link_addr :: "openvpn_sockaddr option"
  route_list :: "route_special_addr option"
  env_set :: "string \<rightharpoonup> u32"
  aux_buf :: buffer
  to_tun :: buffer
  to_link :: buffer

definition link_socket_extract_tos :: "link_tos option \<Rightarrow> bytes \<Rightarrow> link_tos option" where
  "link_socket_extract_tos ls c = map_option (\<lambda>l. l\<lparr>ptos := c ! 1, ptos_defined := True\<rparr>) ls"

definition route_list_add_vpn_gateway :: "ip_context \<Rightarrow> u32 \<Rightarrow> ip_context option" where
  "route_list_add_vpn_gateway ctx addr =
     (case route_list ctx of
        None \<Rightarrow> None
      | Some rl \<Rightarrow>
          Some (ctx\<lparr>route_list := Some (rl\<lparr>remote_endpoint := addr, rt_flags := rt_flags rl OR RTSA_REMOTE_ENDPOINT\<rparr>),
                    env_set := (env_set ctx)(''route_vpn_gateway'' \<mapsto> addr)\<rparr>))"

text \<open>The version of the packet, \<open>-1\<close> if it cannot be told, and the offset of the header.\<close>

definition get_tun_ip_ver :: "int \<Rightarrow> bytes \<Rightarrow> int \<times> nat" where
  "get_tun_ip_ver tt c =
     (if tt = DEV_TYPE_TUN then (if length c \<ge> 20 then uint (OPENVPN_IPH_GET_VER (c ! 0)) else - 1, 0)
      else if tt = DEV_TYPE_TAP
      then (if length c \<ge> 14
            then let proto = ntohs (get16 c 12)
                 in if proto = OPENVPN_ETH_P_IPV6 then 6 else if proto = OPENVPN_ETH_P_IPV4 then 4 else - 1
            else - 1, 14)
      else (- 1, 0))"

definition drop_if_recursive_routing :: "ip_context \<Rightarrow> buffer \<Rightarrow> buffer" where
  "drop_if_recursive_routing ctx buf =
     (case to_link_addr ctx of
        None \<Rightarrow> buf
      | Some tun_sa \<Rightarrow>
          let c = buf_load buf (b_offset buf) (nat (BLEN buf))
          in case get_tun_ip_ver (tunnel_type ctx) c of
               (ver, off) \<Rightarrow>
                 let drop = (if ver = 4
                             then if length c < 20 + off then False
                                  else case tun_sa of SockIn4 a \<Rightarrow> a = get32 c (off + 16) | _ \<Rightarrow> False
                             else if ver = 6
                             then if length c < 40 + off then False
                                  else case tun_sa of SockIn6 a \<Rightarrow> a = mem_read c (off + 24) 16 | _ \<Rightarrow> False
                             else False)
                 in if drop then buf\<lparr>b_len := 0\<rparr> else buf)"

section \<open>The ICMPv6 answer (forward.c)\<close>

definition MAX_ICMPV6LEN :: int where "MAX_ICMPV6LEN = 1280"
definition OPENVPN_IPPROTO_ICMPV6 :: u8 where "OPENVPN_IPPROTO_ICMPV6 = 58"

definition is_ipv4 :: "int \<Rightarrow> buffer \<Rightarrow> buffer option" where "is_ipv4 tt buf = is_ipv_X tt buf 4"
definition is_ipv6 :: "int \<Rightarrow> buffer \<Rightarrow> buffer option" where "is_ipv6 tt buf = is_ipv_X tt buf 6"

text \<open>
  The answer is built in place in the auxiliary buffer, from its end: the packet, the ICMPv6 header with its checksum, the IPv6 header
  and, on a TAP device, an Ethernet header. \<open>inet_pton\<close> is the library's parser of IPv6 addresses; an address that it refuses leaves the
  source of the packet in place.
\<close>

definition unreach_source :: "(string \<Rightarrow> bytes option) \<Rightarrow> ip_context \<Rightarrow> bytes \<Rightarrow> bytes" where
  "unreach_source inet_pton ctx c =
     (case inet_pton (case opt_ifconfig_ipv6_remote ctx of Some r \<Rightarrow> r | None \<Rightarrow> ''fe80::7'') of
        Some a \<Rightarrow> a | None \<Rightarrow> mem_read c 8 16)"

definition ip6_unreach_header :: "(string \<Rightarrow> bytes option) \<Rightarrow> ip_context \<Rightarrow> bytes \<Rightarrow> int \<Rightarrow> bytes" where
  "ip6_unreach_header inet_pton ctx c payload_len =
     take 4 c @ be16 (word_of_int (8 + payload_len)) @ [OPENVPN_IPPROTO_ICMPV6, c ! 7] @ unreach_source inet_pton ctx c @ mem_read c 8 16"

definition fill_unreach :: "(string \<Rightarrow> bytes option) \<Rightarrow> ip_context \<Rightarrow> buffer \<Rightarrow> buffer \<Rightarrow> bytes \<Rightarrow> buffer option" where
  "fill_unreach inet_pton ctx buf inputipbuf c =
     (let tap = (tunnel_type ctx = DEV_TYPE_TAP);
          icmpheader_len = 48;
          totalheader_len = (if tap then icmpheader_len + 14 else icmpheader_len);
          max_payload_size = min_int MAX_ICMPV6LEN (tun_mtu (ctx_frame ctx) - icmpheader_len);
          payload_len = min_int max_payload_size (BLEN inputipbuf);
          pip6out = ip6_unreach_header inet_pton ctx c payload_len;
          icmp6out = [1, 0, 0, 0, 0, 0, 0, 0];
          frame = buf_load buf (b_offset buf) (nat (BLEN buf))
      in do {
           out0 \<leftarrow> buf_init (aux_buf ctx) totalheader_len;
           _ \<leftarrow> (if payload_len < 0 \<or> \<not> buf_safe out0 (nat payload_len) then None else Some ());
           out1 \<leftarrow> (case buf_copy_n out0 inputipbuf payload_len of (ok, d, _) \<Rightarrow> if ok then Some d else None);
           out2 \<leftarrow> buf_write_prepend out1 icmp6out;
           let new_csum = ip_checksum False (buf_load out2 (b_offset out2) (nat (BLEN out2))) (mem_read pip6out 8 16) (mem_read pip6out 24 16) 58;
           let out3 = buf_store out2 (b_offset out2 + 2) (be16 new_csum);
           out4 \<leftarrow> buf_write_prepend out3 pip6out;
           (if tap
            then if length frame < 14 then Some out4
                 else buf_write_prepend out4 (mem_read frame 6 6 @ mem_read frame 0 6 @ be16 OPENVPN_ETH_P_IPV6)
            else Some out4)
         })"

definition ipv6_send_icmp_unreachable :: "(string \<Rightarrow> bytes option) \<Rightarrow> ip_context \<Rightarrow> buffer \<Rightarrow> bool \<Rightarrow> ip_context option" where
  "ipv6_send_icmp_unreachable inet_pton ctx buf client =
     (let inputipbuf = (case is_ipv6 (tunnel_type ctx) buf of Some b \<Rightarrow> b | None \<Rightarrow> buf);
          c = buf_load inputipbuf (b_offset inputipbuf) (nat (BLEN inputipbuf))
      in if length c < 40 then Some ctx
         else do {
           out \<leftarrow> fill_unreach inet_pton ctx buf inputipbuf c;
           let ctx1 = ctx\<lparr>aux_buf := (aux_buf ctx)\<lparr>b_data := b_data out\<rparr>\<rparr>;
           Some (if client then ctx1\<lparr>to_tun := out\<rparr> else ctx1\<lparr>to_link := out\<rparr>)
         })"

section \<open>The handler of IP headers (forward.c)\<close>

text \<open>
  The rewriting works on \<open>ipbuf\<close>, which shares its memory with the packet; the fixed part of an IPv4 header is accessed also when the
  packet is shorter.
\<close>

definition process_ipv4 :: "ip_context \<Rightarrow> u32 \<Rightarrow> buffer \<Rightarrow> (ip_context \<times> buffer) option" where
  "process_ipv4 ctx flags ipbuf =
     (let load = (\<lambda>b. buf_load b (b_offset b) (max 20 (nat (BLEN b))));
          ctx1 = (if flags AND PIPV4_PASSTOS \<noteq> 0
                  then ctx\<lparr>link_socket := link_socket_extract_tos (link_socket ctx) (load ipbuf)\<rparr> else ctx);
          ipbuf1 = (if flags AND PIP_MSSFIX \<noteq> 0 then mss_fixup_ipv4 ipbuf (sint (mss_fix (ctx_frame ctx))) else ipbuf);
          ipbuf2 = (case opt_client_nat ctx of
                      Some lst \<Rightarrow>
                        if flags AND PIPV4_CLIENT_NAT \<noteq> 0
                        then buf_put ipbuf1
                               (client_nat_transform lst (load ipbuf1) (if flags AND PIP_OUTGOING \<noteq> 0 then CN_INCOMING else CN_OUTGOING))
                        else ipbuf1
                    | None \<Rightarrow> ipbuf1)
      in if flags AND PIPV4_EXTRACT_DHCP_ROUTER \<noteq> 0
         then case dhcp_extract_router_msg (buf_load ipbuf2 (b_offset ipbuf2) (nat (BLEN ipbuf2))) of
                (c', dhcp_router) \<Rightarrow>
                  do {
                    ctx2 \<leftarrow> (if dhcp_router \<noteq> 0 then route_list_add_vpn_gateway ctx1 dhcp_router else Some ctx1);
                    Some (ctx2, buf_put ipbuf2 c')
                  }
         else Some (ctx1, ipbuf2))"

definition pip_flags :: "ip_context \<Rightarrow> u32 \<Rightarrow> u32" where
  "pip_flags ctx flags =
     (let f1 = (if opt_mssfix ctx = 0 then flags AND NOT PIP_MSSFIX else flags);
          f2 = (if \<not> opt_passtos ctx then f1 AND NOT PIPV4_PASSTOS else f1);
          f3 = (if opt_client_nat ctx = None then f2 AND NOT PIPV4_CLIENT_NAT else f2);
          f4 = (if \<not> opt_route_gateway_via_dhcp ctx then f3 AND NOT PIPV4_EXTRACT_DHCP_ROUTER else f3)
      in if \<not> opt_block_ipv6 ctx then f4 AND NOT (PIPV6_IMCP_NOHOST_CLIENT OR PIPV6_IMCP_NOHOST_SERVER) else f4)"

definition process_ip_header :: "(string \<Rightarrow> bytes option) \<Rightarrow> ip_context \<Rightarrow> u32 \<Rightarrow> buffer \<Rightarrow> (ip_context \<times> buffer) option" where
  "process_ip_header inet_pton ctx flags0 buf =
     (let flags = pip_flags ctx flags0; tt = tunnel_type ctx
      in if b_len buf > 0 \<and> flags AND (PIP_MSSFIX OR PIPV4_PASSTOS OR PIPV4_CLIENT_NAT) \<noteq> 0
         then case is_ipv4 tt buf of
                Some ipbuf \<Rightarrow>
                  do {
                    (ctx1, ipbuf1) \<leftarrow> process_ipv4 ctx flags ipbuf;
                    Some (ctx1, buf\<lparr>b_data := b_data ipbuf1\<rparr>)
                  }
              | None \<Rightarrow>
                  (case is_ipv6 tt buf of
                     None \<Rightarrow> Some (ctx, buf)
                   | Some ipbuf \<Rightarrow>
                       let buf1 = (if flags AND PIP_MSSFIX \<noteq> 0
                                   then buf\<lparr>b_data := b_data (mss_fixup_ipv6 ipbuf (sint (mss_fix (ctx_frame ctx))))\<rparr> else buf)
                       in if flags AND PIP_OUTGOING = 0 \<and> flags AND (PIPV6_IMCP_NOHOST_CLIENT OR PIPV6_IMCP_NOHOST_SERVER) \<noteq> 0
                          then do {
                            ctx1 \<leftarrow> ipv6_send_icmp_unreachable inet_pton ctx buf1 (flags AND PIPV6_IMCP_NOHOST_CLIENT \<noteq> 0);
                            Some (ctx1, buf1\<lparr>b_len := 0\<rparr>)
                          }
                          else Some (ctx, buf1))
         else Some (ctx, buf))"

section \<open>The checksum is the one of RFC 1071\<close>

lemma sum_words_value: "sum_words xs = of_nat (word_sum xs)"
proof (induction xs rule: sum_words.induct)
  case (1 a b r)
  have "(ucast (of_be16 [a, b]) :: u32) = of_nat (unat (of_be16 [a, b]))" by (simp del: of_be16.simps)
  then show ?case using 1 by (simp del: of_be16.simps add: unat_of_be16)
next
  case (2 a)
  have "(ucast (of_be16 [a, 0]) :: u32) = of_nat (unat (of_be16 [a, 0]))" by (simp del: of_be16.simps)
  then show ?case using unat_of_be16 [of a 0] by (simp del: of_be16.simps)
qed simp

text \<open>The sum that the checksum of a payload covers.\<close>

definition covered_sum :: "bytes \<Rightarrow> bytes \<Rightarrow> bytes \<Rightarrow> u16 \<Rightarrow> nat" where
  "covered_sum payload src dst proto = word_sum payload + word_sum src + word_sum dst + length payload + unat proto"

lemma covered_sum_bound:
  assumes "length payload < 65536" "length src \<le> 16" "length dst \<le> 16"
  shows "covered_sum payload src dst proto < 2 ^ 32"
proof -
  have "(length payload + 1) div 2 \<le> 32768" "(length src + 1) div 2 \<le> 8" "(length dst + 1) div 2 \<le> 8" using assms by linarith+
  then have "word_sum payload \<le> 65535 * 32768" "word_sum src \<le> 65535 * 8" "word_sum dst \<le> 65535 * 8"
    using word_sum_bound [of payload] word_sum_bound [of src] word_sum_bound [of dst] by (meson le_trans mult_le_mono2)+
  moreover have "unat proto < 65536" using unsigned_less [of proto, where 'a = nat] by simp
  ultimately show ?thesis using assms(1) by (simp add: covered_sum_def)
qed

lemma ip_checksum_value:
  assumes "length payload < 65536" "length src = (if v4 then 4 else 16)" "length dst = (if v4 then 4 else 16)"
  shows "unat (ip_checksum v4 payload src dst proto) = 65535 - ones_sum (covered_sum payload src dst proto)"
proof -
  have l: "length src \<le> 16" "length dst \<le> 16" using assms(2,3) by (auto split: if_splits)
  have t: "take (if v4 then 4 else 16) src = src" "take (if v4 then 4 else 16) dst = dst" using assms(2,3) by auto
  have n: "(ucast (of_nat (length payload) :: u16) :: u32) = of_nat (length payload)"
    using assms(1) by (simp add: word_unat_eq_iff unsigned_ucast_eq unsigned_of_nat take_bit_nat_eq_self)
  have p: "(ucast proto :: u32) = of_nat (unat proto)" by simp
  have "ip_checksum v4 payload src dst proto = ucast (NOT (checksum_fold (of_nat (covered_sum payload src dst proto))))"
    unfolding ip_checksum_def Let_def t sum_words_value n p covered_sum_def by simp
  moreover have "unat (of_nat (covered_sum payload src dst proto) :: u32) = covered_sum payload src dst proto"
    using covered_sum_bound [OF assms(1) l] by (simp add: unsigned_of_nat take_bit_nat_eq_self)
  ultimately show ?thesis by (simp add: complement_fold)
qed

lemma word_sum_write:
  assumes "even i" "even (length xs)" "i + length xs \<le> length t"
  shows "word_sum (mem_write t i xs) + word_sum (mem_read t i (length xs)) = word_sum t + word_sum xs"
proof -
  have t: "t = take i t @ mem_read t i (length xs) @ drop (i + length xs) t"
    by (metis append_take_drop_id drop_drop add.commute mem_read_def)
  have e: "even (length (take i t))" "even (length (mem_read t i (length xs)))" using assms by (simp_all add: mem_read_def)
  have "word_sum t = word_sum (take i t) + (word_sum (mem_read t i (length xs)) + word_sum (drop (i + length xs) t))"
    using word_sum_append e by (metis t)
  moreover have "word_sum (mem_write t i xs) = word_sum (take i t) + (word_sum xs + word_sum (drop (i + length xs) t))"
    unfolding mem_write_def using word_sum_append [OF e(1)] word_sum_append [OF assms(2)] by simp
  ultimately show ?thesis by simp
qed

lemma word_sum_be16: "word_sum (be16 v) = unat v"
proof -
  obtain a b where ab: "be16 v = [a, b]" by (simp add: be16_def)
  then have "of_be16 [a, b] = v" using of_be16_be16 [of v] by (simp only:)
  then show ?thesis using unat_of_be16 [of a b] by (simp only: ab word_sum.simps)
qed

lemma ones_sum_complement: "(s + (65535 - ones_sum s)) mod 65535 = 0"
proof (cases "s = 0")
  case False
  let ?q = "(s - 1) mod 65535"
  have q: "?q < 65535" by simp
  have "s + (65535 - ones_sum s) = (s - 1) + (65535 - ?q)" using False q by (simp add: ones_sum_def)
  moreover have "s - 1 = 65535 * ((s - 1) div 65535) + ?q" by simp
  ultimately have "s + (65535 - ones_sum s) = 65535 * ((s - 1) div 65535) + 65535" using q by linarith
  then show ?thesis by simp
qed (simp add: ones_sum_def)

text \<open>A checksum that is written over a zero field at an even offset makes the covered sum zero: the check of the receiver.\<close>

lemma checksum_written:
  assumes "length p < 65536" "length src = (if v4 then 4 else 16)" "length dst = (if v4 then 4 else 16)"
    and "even i" "i + 2 \<le> length p" "mem_read p i 2 = [0, 0]"
  shows "covered_sum (mem_write p i (be16 (ip_checksum v4 p src dst proto))) src dst proto mod 65535 = 0"
proof -
  let ?k = "ip_checksum v4 p src dst proto"
  have "word_sum (mem_write p i (be16 ?k)) = word_sum p + unat ?k"
    using word_sum_write [OF assms(4), of "be16 ?k" p] assms(5,6) by (simp add: word_sum_be16)
  then have "covered_sum (mem_write p i (be16 ?k)) src dst proto = covered_sum p src dst proto + unat ?k"
    using assms(5) by (simp add: covered_sum_def)
  then show ?thesis using ones_sum_complement ip_checksum_value [OF assms(1-3)] by simp
qed

section \<open>DHCP options\<close>

text \<open>The options as a list, and the block of bytes that holds them: what follows an end mark is not looked at.\<close>

datatype dhcp_option = Pad | Opt u8 bytes

fun option_bytes :: "dhcp_option \<Rightarrow> bytes" where
  "option_bytes Pad = [0]"
| "option_bytes (Opt t d) = t # of_nat (length d) # d"

fun option_ok :: "dhcp_option \<Rightarrow> bool" where
  "option_ok Pad = True"
| "option_ok (Opt t d) = (t \<noteq> 0 \<and> t \<noteq> 255 \<and> length d < 256)"

fun options_end :: "bytes \<Rightarrow> bool" where
  "options_end [] = True"
| "options_end (b # r) = (b = 255)"

abbreviation options_bytes :: "dhcp_option list \<Rightarrow> bytes" where
  "options_bytes os \<equiv> concat (map option_bytes os)"

fun is_router :: "dhcp_option \<Rightarrow> bool" where
  "is_router Pad = False"
| "is_router (Opt t d) = (t = 3)"

text \<open>The type of the message, and the router: the first address of the first router option whose first address is not zero.\<close>

fun message_type :: "dhcp_option list \<Rightarrow> int" where
  "message_type [] = - 1"
| "message_type (Pad # os) = message_type os"
| "message_type (Opt t d # os) = (if t = 53 then (if length d = 1 then uint (d ! 0) else - 1) else message_type os)"

definition router_address :: "dhcp_option list \<Rightarrow> u32" where
  "router_address os =
     (case [of_be32 (take 4 d). Opt t d \<leftarrow> os, t = 3 \<and> 4 \<le> length d \<and> 4 dvd length d \<and> of_be32 (take 4 d) \<noteq> 0] of
        [] \<Rightarrow> 0 | a # _ \<Rightarrow> a)"

fun router_from :: "u32 \<Rightarrow> dhcp_option list \<Rightarrow> u32" where
  "router_from r [] = r"
| "router_from r (Pad # os) = router_from r os"
| "router_from r (Opt t d # os) =
     router_from (if t = 3 \<and> r = 0 \<and> 4 \<le> length d \<and> 4 dvd length d then of_be32 (take 4 d) else r) os"

lemma router_from_address: "router_from r os = (if r = 0 then router_address os else r)"
  by (induction r os rule: router_from.induct) (auto simp: router_address_def)

lemma and_3: "(n :: nat) AND 3 = 0 \<longleftrightarrow> 4 dvd n"
  using take_bit_eq_mask [of 2 n] by (simp add: mask_eq_exp_minus_1 take_bit_nat_def dvd_eq_mod_eq_0)

lemma unat_length: "n < 256 \<Longrightarrow> unat (of_nat n :: u8) = n"
  by (simp add: unsigned_of_nat take_bit_nat_eq_self)

lemma do_extract_zeros: "do_extract (pre @ replicate k 0) (length pre) ret = (pre @ replicate k 0, ret)"
proof (induction k arbitrary: pre)
  case (Suc k)
  then show ?case using Suc [of "pre @ [0]"]
    by (subst do_extract.simps) (simp add: dhcp_consts nth_append)
qed (subst do_extract.simps, simp)

lemma do_extract_end:
  assumes "options_end e"
  shows "do_extract (pre @ e @ replicate k 0) (length pre) ret = (pre @ e @ replicate k 0, ret)"
proof (cases e)
  case Nil
  then show ?thesis by (simp add: do_extract_zeros)
next
  case (Cons b r)
  then show ?thesis using assms by (subst do_extract.simps) (simp add: dhcp_consts nth_append)
qed

lemma delete_option_append:
  "length x = n \<Longrightarrow> delete_option (pre @ x @ y) (length pre) n = pre @ y @ replicate n 0"
  by (simp add: delete_option_eq dhcp_consts)

lemma do_extract_options:
  assumes "list_all option_ok os" "options_end e"
  shows "do_extract (pre @ options_bytes os @ e @ replicate k 0) (length pre) ret =
    (pre @ options_bytes (filter (\<lambda>x. \<not> is_router x) os) @ e @ replicate (k + length (options_bytes (filter is_router os))) 0,
     router_from ret os)"
  using assms(1)
proof (induction os arbitrary: pre k ret)
  case Nil
  then show ?case using do_extract_end [OF assms(2)] by auto
next
  case (Cons x os)
  let ?rest = "options_bytes os @ e @ replicate k 0"
  show ?case
  proof (cases x)
    case Pad
    then show ?thesis using Cons.IH [of "pre @ [0]" k ret] Cons.prems by (subst do_extract.simps) (simp add: dhcp_consts nth_append)
  next
    case (Opt t d)
    let ?p = "pre @ option_bytes x @ ?rest"
    have ok: "t \<noteq> 0" "t \<noteq> 255" "length d < 256" using Cons.prems Opt by auto
    have p: "length pre < length ?p" "?p ! length pre = t" "?p ! (length pre + 1) = of_nat (length d)"
        "length ?p - length pre = length d + 2 + length ?rest" "mem_read ?p (length pre + 2) 4 = take 4 (d @ ?rest)"
      using Opt by (simp_all add: nth_append mem_read_def)
    have len: "unat (?p ! (length pre + 1)) = length d" using ok p(3) by (simp add: unat_length)
    show ?thesis
    proof (cases "t = 3")
      case False
      have "do_extract ?p (length pre) ret = do_extract ((pre @ option_bytes x) @ ?rest) (length (pre @ option_bytes x)) ret"
        using p len ok False Opt by (subst do_extract.simps) (simp add: dhcp_consts Let_def)
      then show ?thesis using Cons.IH [of "pre @ option_bytes x" k ret] Cons.prems False Opt by simp
    next
      case True
      let ?ret = "if ret = 0 \<and> length d \<ge> 4 \<and> 4 dvd length d then of_be32 (take 4 d) else ret"
      have "delete_option ?p (length pre) (length d + 2) = pre @ ?rest @ replicate (length d + 2) 0"
        using Opt by (intro delete_option_append) simp
      then have "do_extract ?p (length pre) ret = do_extract (pre @ ?rest @ replicate (length d + 2) 0) (length pre) ?ret"
        using p len True by (subst do_extract.simps) (simp add: dhcp_consts Let_def and_3)
      then have "do_extract ?p (length pre) ret =
          do_extract (pre @ options_bytes os @ e @ replicate (k + (length d + 2)) 0) (length pre) ?ret"
        by (simp only: replicate_add append_assoc)
      then show ?thesis using Cons.IH [of pre "k + (length d + 2)" ?ret] Cons.prems True Opt by simp
    qed
  qed
qed

lemma message_type_options:
  assumes "list_all option_ok os" "options_end e"
  shows "get_dhcp_message_type (pre @ options_bytes os @ e) (length pre) = message_type os"
  using assms(1)
proof (induction os arbitrary: pre)
  case Nil
  then show ?case using assms(2) by (cases e) (subst get_dhcp_message_type.simps, simp add: dhcp_consts nth_append)+
next
  case (Cons x os)
  let ?rest = "options_bytes os @ e"
  show ?case
  proof (cases x)
    case Pad
    then show ?thesis using Cons.IH [of "pre @ [0]"] Cons.prems by (subst get_dhcp_message_type.simps) (simp add: dhcp_consts nth_append)
  next
    case (Opt t d)
    let ?p = "pre @ option_bytes x @ ?rest"
    have ok: "t \<noteq> 0" "t \<noteq> 255" "length d < 256" using Cons.prems Opt by auto
    have p: "length pre < length ?p" "?p ! length pre = t" "?p ! (length pre + 1) = of_nat (length d)"
        "length ?p - length pre = length d + 2 + length ?rest" "length d = 1 \<Longrightarrow> ?p ! (length pre + 2) = d ! 0"
      using Opt by (simp_all add: nth_append)
    have len: "unat (?p ! (length pre + 1)) = length d" using ok p(3) by (simp add: unat_length)
    then have one: "?p ! (length pre + 1) = 1 \<longleftrightarrow> length d = 1" by (metis unat_1 word_unat_eq_iff)
    show ?thesis
    proof (cases "t = 53")
      case True
      have "get_dhcp_message_type ?p (length pre) = (if length d = 1 then uint (d ! 0) else - 1)"
        using p one len ok True by (subst get_dhcp_message_type.simps) (auto simp: dhcp_consts Let_def)
      then show ?thesis using Opt True by simp
    next
      case False
      have "get_dhcp_message_type ?p (length pre) = get_dhcp_message_type ((pre @ option_bytes x) @ ?rest) (length (pre @ option_bytes x))"
        using p len ok False Opt by (subst get_dhcp_message_type.simps) (simp add: dhcp_consts Let_def)
      then show ?thesis using Cons.IH [of "pre @ option_bytes x"] Cons.prems False Opt by simp
    qed
  qed
qed

text \<open>The new checksum is written over a zero field.\<close>

lemma le16_htons: "le16 (htons v) = be16 v"
  by (auto simp: htons_def le16_def be16_def bit_simps intro!: bit_word_eqI)

lemma put_checksum:
  assumes "28 \<le> length c" "length c < 65556"
  defines "c1 \<equiv> put16 c 26 0"
  defines "c2 \<equiv> put16 c1 26 (htons (ip_checksum True (drop 20 c1) (mem_read c1 12 4) (mem_read c1 16 4) 17))"
  shows "covered_sum (drop 20 c2) (mem_read c 12 4) (mem_read c 16 4) 17 mod 65535 = 0"
    and "take 26 c2 = take 26 c" "drop 28 c2 = drop 28 c" "length c2 = length c"
proof -
  have l: "length c1 = length c" using assms(1) by (simp add: c1_def length_put16)
  then show "length c2 = length c" using assms(1) by (simp add: c2_def length_put16)
  show "take 26 c2 = take 26 c" "drop 28 c2 = drop 28 c"
    using assms(1) l by (simp_all add: c2_def c1_def take_put16_other drop_put16_other)
  have a: "mem_read c1 i 4 = mem_read c i 4" if "i \<le> 22" for i
    using that assms(1) unfolding c1_def put16_def by (intro mem_read_write_disjoint) simp_all
  have z: "mem_read (drop 20 c1) 6 2 = [0, 0]"
  proof -
    have "mem_read (drop 20 c1) 6 2 = mem_read c1 26 2" by (simp add: mem_read_def)
    also have "\<dots> = le16 0" using mem_read_write_same [of 26 "le16 0" c] assms(1) by (simp add: c1_def put16_def)
    finally show ?thesis by (simp add: le16_def)
  qed
  have "drop 20 c2 = mem_write (drop 20 c1) 6 (be16 (ip_checksum True (drop 20 c1) (mem_read c 12 4) (mem_read c 16 4) 17))"
    using l assms(1) a by (simp add: c2_def drop_put16 put16_def [of "drop 20 c1"] le16_htons)
  then show "covered_sum (drop 20 c2) (mem_read c 12 4) (mem_read c 16 4) 17 mod 65535 = 0"
    using checksum_written [of "drop 20 c1" "mem_read c 12 4" True "mem_read c 16 4" 6 17] l assms(1,2) z by simp
qed

section \<open>The answer to a refused IPv6 packet\<close>

lemma is_ipv_X_content:
  assumes "buf_ok buf" "is_ipv_X tt buf v = Some b"
  shows "buf_ok b \<and> b_data b = b_data buf \<and> (\<exists>off \<le> length (buf_content buf). buf_content b = drop off (buf_content buf)) \<and>
    (tt = DEV_TYPE_TAP \<longrightarrow> 14 \<le> length (buf_content buf))"
proof -
  let ?c = "buf_content buf"
  let ?off = "if tt = DEV_TYPE_TUN then 0 else if get16 ?c 12 = htons OPENVPN_ETH_P_8021Q then 18 else 14 :: nat"
  note l = buf_load_all [OF assms(1)] and d = DEV_TYPE_TAP_def DEV_TYPE_TUN_def
  have "buf_advance buf (int ?off) = Some b" "?off \<le> length ?c" "tt = DEV_TYPE_TAP \<Longrightarrow> 14 \<le> length ?c"
    using assms(2) by (auto simp: is_ipv_X_def l d Let_def split: if_splits)
  then obtain off where o: "off \<le> length ?c" "buf_advance buf (int off) = Some b" "tt = DEV_TYPE_TAP \<longrightarrow> 14 \<le> length ?c" by blast
  obtain b' where "buf_advance buf (int off) = Some b'" "buf_ok b'" "buf_content b' = drop off ?c" "b_data b' = b_data buf"
    using buf_advance_content [OF assms(1) o(1)] by blast
  then show ?thesis using o by auto
qed

text \<open>The number of bytes of the packet that the answer repeats, and the Ethernet header on a TAP device.\<close>

definition unreach_len :: "ip_context \<Rightarrow> bytes \<Rightarrow> nat" where
  "unreach_len ctx c = nat (min (min 1280 (tun_mtu (ctx_frame ctx) - 48)) (int (length c)))"

definition unreach_eth :: "ip_context \<Rightarrow> bytes \<Rightarrow> bytes" where
  "unreach_eth ctx f = (if tunnel_type ctx = DEV_TYPE_TAP then mem_read f 6 6 @ mem_read f 0 6 @ be16 OPENVPN_ETH_P_IPV6 else [])"

definition aux_room :: "ip_context \<Rightarrow> bool" where
  "aux_room ctx \<longleftrightarrow> buf_ok (aux_buf ctx) \<and> 48 \<le> tun_mtu (ctx_frame ctx) \<and> 62 + 1280 \<le> b_capacity (aux_buf ctx)"

text \<open>What the code relies on of \<open>inet_pton\<close>: it writes an address of 16 bytes.\<close>

definition inet_pton_ok :: "(string \<Rightarrow> bytes option) \<Rightarrow> bool" where
  "inet_pton_ok inet_pton \<longleftrightarrow> (\<forall>s a. inet_pton s = Some a \<longrightarrow> length a = 16)"

lemma unreach_header_length:
  assumes "40 \<le> length c" "inet_pton_ok inet_pton"
  shows "length (unreach_source inet_pton ctx c) = 16" "length (ip6_unreach_header inet_pton ctx c n) = 40"
    and "mem_read (ip6_unreach_header inet_pton ctx c n) 8 16 = unreach_source inet_pton ctx c"
    and "mem_read (ip6_unreach_header inet_pton ctx c n) 24 16 = mem_read c 8 16"
proof -
  show l: "length (unreach_source inet_pton ctx c) = 16"
    using assms by (simp add: unreach_source_def inet_pton_ok_def split: option.splits)
  have "length (take 4 c) = 4" "length (mem_read c 8 16) = 16" using assms(1) by simp_all
  then show "length (ip6_unreach_header inet_pton ctx c n) = 40"
    "mem_read (ip6_unreach_header inet_pton ctx c n) 8 16 = unreach_source inet_pton ctx c"
    "mem_read (ip6_unreach_header inet_pton ctx c n) 24 16 = mem_read c 8 16"
    using l by (simp_all add: ip6_unreach_header_def mem_read_def be16_def)
qed

lemma buf_prepend_total:
  assumes "buf_ok b" "int (length xs) \<le> b_offset b"
  obtains b' where "buf_write_prepend b xs = Some b'" "buf_ok b'" "buf_content b' = xs @ buf_content b"
    "b_offset b' = b_offset b - int (length xs)"
  using buf_prepend_succeeds [OF assms] buf_prepend_content [OF assms(1)] by blast

lemma fill_unreach_content:
  assumes "buf_ok buf" "buf_ok ipbuf" "aux_room ctx" "tunnel_type ctx = DEV_TYPE_TAP \<Longrightarrow> 14 \<le> length (buf_content buf)"
    and "buf_content ipbuf = c" "40 \<le> length c" "inet_pton_ok inet_pton"
  defines "n \<equiv> unreach_len ctx c"
  defines "icmp \<equiv> [1, 0, 0, 0, 0, 0, 0, 0] @ take n c"
  shows "\<exists>out. fill_unreach inet_pton ctx buf ipbuf c = Some out \<and> buf_ok out \<and>
    buf_content out = unreach_eth ctx (buf_content buf) @ ip6_unreach_header inet_pton ctx c (int n) @
      mem_write icmp 2 (be16 (ip_checksum False icmp (unreach_source inet_pton ctx c) (mem_read c 8 16) 58))"
proof -
  let ?aux = "aux_buf ctx" and ?hdr = "ip6_unreach_header inet_pton ctx c (int n)"
  define T where "T = (if tunnel_type ctx = DEV_TYPE_TAP then 48 + 14 else 48 :: int)"
  have T: "48 \<le> T" "T \<le> 62" by (simp_all add: T_def)
  let ?ck = "be16 (ip_checksum False icmp (unreach_source inet_pton ctx c) (mem_read c 8 16) 58)"
  have aux: "buf_ok ?aux" "62 + 1280 \<le> b_capacity ?aux" "48 \<le> tun_mtu (ctx_frame ctx)" using assms(3) by (simp_all add: aux_room_def)
  have n: "n \<le> length c" "n \<le> 1280" "min_int (min_int MAX_ICMPV6LEN (tun_mtu (ctx_frame ctx) - 48)) (BLEN ipbuf) = int n"
    using aux(3) length_buf_content [OF assms(2)] buf_ok_valid [OF assms(2)] assms(5)
    by (auto simp: n_def unreach_len_def min_int_def MAX_ICMPV6LEN_def BLEN_def min_def)
  obtain o0 where o0: "buf_init ?aux T = Some o0" "buf_ok o0" "buf_content o0 = []" "b_offset o0 = T" "b_capacity o0 = b_capacity ?aux"
    using buf_init_ok [OF aux(1), of T] aux(2) T by auto
  have l0: "b_len o0 = 0" using length_buf_content [OF o0(2)] o0(3) by simp
  have safe: "buf_safe o0 n" using o0 l0 n(2) aux(2) T buf_ok_valid [OF o0(2)] by (auto simp: buf_safe_def buf_size_valid_def BUF_SIZE_MAX_def)
  obtain o1 s1 where o1: "buf_copy_n o0 ipbuf (int n) = (True, o1, s1)" "buf_ok o1" "buf_content o1 = take n c" "b_offset o1 = T"
    using buf_copy_n_content [OF o0(2) assms(2), of n] n(1,2) o0 l0 aux(2) T assms(5) by (auto simp: BUF_SIZE_MAX_def)
  obtain o2 where o2: "buf_write_prepend o1 [1, 0, 0, 0, 0, 0, 0, 0] = Some o2" "buf_ok o2" "buf_content o2 = icmp" "b_offset o2 = T - 8"
    by (rule buf_prepend_total [OF o1(2), of "[1, 0, 0, 0, 0, 0, 0, 0]"]) (use o1(3,4) T in \<open>simp_all add: icmp_def\<close>)
  note hl = unreach_header_length(2-4) [OF assms(6,7), where ctx = ctx and n = "int n"]
  have i: "icmp = [1, 0] @ [0, 0] @ ([0, 0, 0, 0] @ take n c)" by (simp add: icmp_def)
  let ?o3 = "buf_store o2 (b_offset o2 + 2) ?ck"
  have "length ?ck = length [0, 0 :: u8]" by simp
  from buf_store_inside [OF o2(2) o2(3) [unfolded i] this]
  have o3: "buf_ok ?o3" "buf_content ?o3 = mem_write icmp 2 ?ck" by (simp_all add: i mem_write_def)
  have off3: "b_offset ?o3 = T - 8" using o2(4) by (simp add: buf_store_def)
  obtain o4 where o4: "buf_write_prepend ?o3 ?hdr = Some o4" "buf_ok o4" "buf_content o4 = ?hdr @ mem_write icmp 2 ?ck" "b_offset o4 = T - 48"
    by (rule buf_prepend_total [OF o3(1), of ?hdr]) (use o3(2) off3 hl(1) T in simp_all)
  have fl: "buf_load o2 (b_offset o2) (nat (BLEN o2)) = icmp" using buf_load_all [OF o2(2)] o2(3) by simp
  have fb: "buf_load buf (b_offset buf) (nat (BLEN buf)) = buf_content buf" using buf_load_all [OF assms(1)] .
  let ?e = "mem_read (buf_content buf) 6 6 @ mem_read (buf_content buf) 0 6 @ be16 OPENVPN_ETH_P_IPV6"
  have run: "fill_unreach inet_pton ctx buf ipbuf c =
      (if tunnel_type ctx = DEV_TYPE_TAP then if length (buf_content buf) < 14 then Some o4 else buf_write_prepend o4 ?e else Some o4)"
    using o0(1) o1(1) o2(1) o4(1) safe n(3) by (simp add: fill_unreach_def Let_def fl fb hl T_def)
  show ?thesis
  proof (cases "tunnel_type ctx = DEV_TYPE_TAP")
    case False
    then show ?thesis using run o4 by (simp add: unreach_eth_def)
  next
    case True
    then have le: "length ?e = 14" using assms(4) by simp
    then obtain o5 where "buf_write_prepend o4 ?e = Some o5" using buf_prepend_succeeds [OF o4(2), of ?e] o4(4) True by (auto simp: T_def)
    then show ?thesis using run True assms(4) buf_prepend_content [OF o4(2)] o4(3) by (auto simp: unreach_eth_def)
  qed
qed

section \<open>The handler keeps packets well formed\<close>

lemma buf_ok_data:
  "buf_ok buf \<Longrightarrow> buf_ok b \<Longrightarrow> b_capacity b = b_capacity buf \<Longrightarrow> buf_ok (buf\<lparr>b_data := b_data b\<rparr>)"
  by (auto simp: buf_ok_def)

lemma buf_advance_data:
  "b_data buf \<noteq> None \<Longrightarrow> buf_advance (buf\<lparr>b_data := Some d\<rparr>) n = map_option (\<lambda>b. b\<lparr>b_data := Some d\<rparr>) (buf_advance buf n)"
  by (auto simp: buf_advance_def buf_valid_def)

definition ip_offset :: "int \<Rightarrow> u8 \<Rightarrow> bytes \<Rightarrow> nat option" where
  "ip_offset tt v c =
     (let check = (\<lambda>off. if OPENVPN_IPH_GET_VER (c ! off) = v then Some off else None);
          vlan = (get16 c 12 = htons OPENVPN_ETH_P_8021Q)
      in if tt = DEV_TYPE_TUN then if length c < 20 then None else check 0
         else if tt = DEV_TYPE_TAP
         then if length c < 34 \<or> ntohs (if vlan then get16 c 16 else get16 c 12) \<noteq> (if v = 6 then OPENVPN_ETH_P_IPV6 else OPENVPN_ETH_P_IPV4)
              then None else check (if vlan then 18 else 14)
         else None)"

lemma is_ipv_X_offset:
  "buf_ok buf \<Longrightarrow> is_ipv_X tt buf v = Option.bind (ip_offset tt v (buf_content buf)) (\<lambda>off. buf_advance buf (int off))"
  by (simp add: is_ipv_X_def ip_offset_def buf_load_all Let_def)

lemma ip_offset_prefix:
  assumes "take 40 c' = take 40 c" "length c' = length c"
  shows "ip_offset tt v c' = ip_offset tt v c"
proof -
  have g: "get16 c' i = get16 c i" if "i \<le> 38" for i using that get16_take [of i 40 c] get16_take [of i 40 c'] assms(1) by simp
  have n: "c' ! i = c ! i" if "i < 40" for i using that arg_cong [OF assms(1), of "\<lambda>x. x ! i"] by simp
  show ?thesis using g [of 12] g [of 16] n [of 0] n [of 14] n [of 18] assms(2) by (simp add: ip_offset_def Let_def)
qed

lemma is_ipv_X_data:
  assumes "buf_ok buf" "buf_ok (buf\<lparr>b_data := Some d\<rparr>)" "take 40 (buf_content (buf\<lparr>b_data := Some d\<rparr>)) = take 40 (buf_content buf)"
  shows "is_ipv_X tt (buf\<lparr>b_data := Some d\<rparr>) v = map_option (\<lambda>b. b\<lparr>b_data := Some d\<rparr>) (is_ipv_X tt buf v)"
proof -
  have "length (buf_content (buf\<lparr>b_data := Some d\<rparr>)) = length (buf_content buf)"
    using length_buf_content [OF assms(1)] length_buf_content [OF assms(2)] by simp
  note o = ip_offset_prefix [OF assms(3) this]
  have d: "b_data buf \<noteq> None" using assms(1) by (auto simp: buf_ok_def)
  show ?thesis
    unfolding is_ipv_X_offset [OF assms(1)] is_ipv_X_offset [OF assms(2)] o by (cases "ip_offset tt v (buf_content buf)") (simp_all add: buf_advance_data [OF d])
qed

text \<open>A packet is not both: the version is in the same bits, or in the frame type.\<close>

lemma not_ipv4: "buf_ok buf \<Longrightarrow> is_ipv6 tt buf = Some b \<Longrightarrow> is_ipv4 tt buf = None"
  by (auto simp: is_ipv6_def is_ipv4_def is_ipv_X_offset ip_offset_def Let_def OPENVPN_ETH_P_IPV4_def OPENVPN_ETH_P_IPV6_def
      split: if_splits Option.bind_splits)

lemma ip_header_long:
  assumes "buf_ok buf" "is_ipv4 tt buf = Some b" "tt = DEV_TYPE_TAP \<Longrightarrow> 38 \<le> length (buf_content buf)"
  shows "20 \<le> length (buf_content b)"
proof -
  obtain off where o: "ip_offset tt 4 (buf_content buf) = Some off" "buf_advance buf (int off) = Some b"
    using assms(1,2) by (auto simp: is_ipv4_def is_ipv_X_offset split: Option.bind_splits)
  then have l: "off + 20 \<le> length (buf_content buf)" using assms(3) by (auto simp: ip_offset_def Let_def split: if_splits)
  then have "off \<le> length (buf_content buf)" by simp
  then show ?thesis using buf_advance_content [OF assms(1)] o(2) l by fastforce
qed

lemma do_extract_length: "length (fst (do_extract p i ret)) = length p"
proof (induction p i ret rule: do_extract.induct)
  case (1 p i ret)
  have "length (delete_option p i n) = length p" if "i + n \<le> length p" for n using that by (simp add: delete_option_eq)
  then show ?case using 1 by (subst do_extract.simps) (auto simp: Let_def)
qed

lemma dhcp_extract_length: "length (fst (dhcp_extract_router_msg c)) = length c"
  using do_extract_length [of "drop 268 c" 0 0]
  by (auto simp: dhcp_extract_router_msg_def Let_def length_put16 split: prod.splits)

text \<open>The handler changes the bytes of a packet in place: the struct of the buffer but for the memory is the same.\<close>

definition in_place :: "buffer \<Rightarrow> buffer \<Rightarrow> bool" where
  "in_place b b' \<longleftrightarrow> buf_ok b' \<and> (\<exists>d. b' = b\<lparr>b_data := d\<rparr>)"

lemma in_place_refl: "buf_ok b \<Longrightarrow> in_place b b"
  by (auto simp: in_place_def intro: exI [of _ "b_data b"])

lemma in_place_trans: "in_place a b \<Longrightarrow> in_place b c \<Longrightarrow> in_place a c"
  by (auto simp: in_place_def)

lemma in_place_length: "buf_ok b \<Longrightarrow> in_place b b' \<Longrightarrow> length (buf_content b') = length (buf_content b)"
  using length_buf_content [of b] length_buf_content [of b'] by (auto simp: in_place_def)

lemma in_place_put: "buf_ok b \<Longrightarrow> length c = length (buf_content b) \<Longrightarrow> in_place b (buf_put b c)"
  using buf_put_content(1) by (auto simp: in_place_def buf_put_def buf_store_def)

lemma in_place_mss: "buf_ok b \<Longrightarrow> in_place b (mss_fixup_ipv4 b m)" "buf_ok b \<Longrightarrow> in_place b (mss_fixup_ipv6 b m)"
  unfolding in_place_def using mss_fixup_keeps by blast+

lemma in_place_back:
  assumes "buf_ok buf" "is_ipv_X tt buf v = Some b" "in_place b b'"
  shows "in_place buf (buf\<lparr>b_data := b_data b'\<rparr>)"
proof -
  have "b_capacity b = b_capacity buf"
    using assms(2) by (auto simp: is_ipv_X_offset [OF assms(1)] buf_advance_def split: Option.bind_splits if_splits)
  then have "b_capacity b' = b_capacity buf" using assms(3) by (auto simp: in_place_def)
  then show ?thesis using buf_ok_data [OF assms(1)] assms(3) by (auto simp: in_place_def)
qed

lemma process_ipv4_keeps:
  assumes "buf_ok b" "20 \<le> length (buf_content b)" "route_list ctx \<noteq> None \<or> flags AND PIPV4_EXTRACT_DHCP_ROUTER = 0"
  shows "\<exists>ctx' b'. process_ipv4 ctx flags b = Some (ctx', b') \<and> in_place b b' \<and> to_tun ctx' = to_tun ctx \<and> to_link ctx' = to_link ctx"
proof -
  define load where "load = (\<lambda>b. buf_load b (b_offset b) (max 20 (nat (BLEN b))))"
  define ctx1 where "ctx1 = (if flags AND PIPV4_PASSTOS \<noteq> 0
    then ctx\<lparr>link_socket := link_socket_extract_tos (link_socket ctx) (load b)\<rparr> else ctx)"
  define b1 where "b1 = (if flags AND PIP_MSSFIX \<noteq> 0 then mss_fixup_ipv4 b (sint (mss_fix (ctx_frame ctx))) else b)"
  define dir where "dir = (if flags AND PIP_OUTGOING \<noteq> 0 then CN_INCOMING else CN_OUTGOING)"
  define b2 where "b2 = (case opt_client_nat ctx of
      Some lst \<Rightarrow> if flags AND PIPV4_CLIENT_NAT \<noteq> 0 then buf_put b1 (client_nat_transform lst (load b1) dir) else b1 | None \<Rightarrow> b1)"
  have p1: "in_place b b1" using in_place_mss(1) [OF assms(1)] in_place_refl [OF assms(1)] by (simp add: b1_def)
  then have ok1: "buf_ok b1" "20 \<le> length (buf_content b1)" using in_place_length [OF assms(1)] assms(2) by (auto simp: in_place_def)
  have "nat (BLEN b1) = length (buf_content b1)" using length_buf_content [OF ok1(1)] buf_ok_valid [OF ok1(1)] by (simp add: BLEN_def)
  then have load1: "load b1 = buf_content b1" using ok1 buf_load_all [OF ok1(1)] by (simp add: load_def max_def)
  have "in_place b1 (buf_put b1 (client_nat_transform lst (load b1) dir))" for lst
    using client_nat_effect(1) [OF ok1(2)] by (intro in_place_put [OF ok1(1)]) (simp add: load1)
  then have p2: "in_place b b2" using p1 in_place_trans by (auto simp: b2_def split: option.splits)
  then have ok2: "buf_ok b2" by (simp add: in_place_def)
  obtain c' r where x: "dhcp_extract_router_msg (buf_load b2 (b_offset b2) (nat (BLEN b2))) = (c', r)" by fastforce
  then have "length c' = length (buf_content b2)" using dhcp_extract_length buf_load_all [OF ok2] by (metis fst_conv)
  then have p3: "in_place b (buf_put b2 c')" using in_place_put [OF ok2] in_place_trans [OF p2] by blast
  have run: "process_ipv4 ctx flags b =
      (if flags AND PIPV4_EXTRACT_DHCP_ROUTER \<noteq> 0
       then do { ctx2 \<leftarrow> (if r \<noteq> 0 then route_list_add_vpn_gateway ctx1 r else Some ctx1); Some (ctx2, buf_put b2 c') }
       else Some (ctx1, b2))"
    using x unfolding process_ipv4_def Let_def b2_def b1_def ctx1_def load_def dir_def by (simp only: prod.case)
  have c1: "route_list ctx1 = route_list ctx" "to_tun ctx1 = to_tun ctx" "to_link ctx1 = to_link ctx" by (simp_all add: ctx1_def)
  show ?thesis
  proof (cases "flags AND PIPV4_EXTRACT_DHCP_ROUTER = 0")
    case True
    then show ?thesis using run p2 c1 by simp
  next
    case False
    then obtain rl where "route_list ctx1 = Some rl" using assms(3) c1 by auto
    then show ?thesis using run p3 False c1 by (simp add: route_list_add_vpn_gateway_def)
  qed
qed

text \<open>The answer is built without a failed assertion for every packet of the right length.\<close>

lemma icmp_unreachable_total:
  assumes "buf_ok buf" "aux_room ctx" "is_ipv6 (tunnel_type ctx) buf = Some ipbuf" "inet_pton_ok inet_pton"
  shows "\<exists>ctx'. ipv6_send_icmp_unreachable inet_pton ctx buf client = Some ctx' \<and>
    (if client then to_link ctx' = to_link ctx else to_tun ctx' = to_tun ctx) \<and>
    (if 40 \<le> length (buf_content ipbuf) then 0 < b_len (if client then to_tun ctx' else to_link ctx') else ctx' = ctx)"
proof -
  have ib: "buf_ok ipbuf" "tunnel_type ctx = DEV_TYPE_TAP \<Longrightarrow> 14 \<le> length (buf_content buf)"
    using is_ipv_X_content [OF assms(1), of "tunnel_type ctx" 6 ipbuf] assms(3) by (auto simp: is_ipv6_def)
  note load = buf_load_all [OF ib(1)]
  show ?thesis
  proof (cases "40 \<le> length (buf_content ipbuf)")
    case False
    then show ?thesis using assms(3) load by (simp add: ipv6_send_icmp_unreachable_def Let_def)
  next
    case True
    obtain out rest where o: "fill_unreach inet_pton ctx buf ipbuf (buf_content ipbuf) = Some out" "buf_ok out"
      "buf_content out = unreach_eth ctx (buf_content buf) @ ip6_unreach_header inet_pton ctx (buf_content ipbuf) (int (unreach_len ctx (buf_content ipbuf))) @ rest"
      using fill_unreach_content [OF assms(1) ib(1) assms(2) _ refl True assms(4)] ib(2) by metis
    then have "0 < b_len out"
      using length_buf_content [OF o(2)] unreach_header_length(2) [OF True assms(4), where ctx = ctx and n = "int (unreach_len ctx (buf_content ipbuf))"]
      by simp
    then show ?thesis using o(1) assms(3) load True by (simp add: ipv6_send_icmp_unreachable_def Let_def)
  qed
qed

lemma pip_flags_off:
  assumes "opt_mssfix ctx = 0" "\<not> opt_passtos ctx" "opt_client_nat ctx = None"
  shows "pip_flags ctx flags AND (PIP_MSSFIX OR PIPV4_PASSTOS OR PIPV4_CLIENT_NAT) = 0"
  using assms by (intro bit_word_eqI) (auto simp: pip_flags_def Let_def bit_simps)

lemma pip_flags_dhcp: "\<not> opt_route_gateway_via_dhcp ctx \<Longrightarrow> pip_flags ctx flags AND PIPV4_EXTRACT_DHCP_ROUTER = 0"
  by (intro bit_word_eqI) (auto simp: pip_flags_def Let_def bit_simps)

text \<open>The flags of \<open>process_incoming_tun\<close> and what is left of them.\<close>

definition incoming_tun_flags :: u32 where
  "incoming_tun_flags = PIPV4_PASSTOS OR PIP_MSSFIX OR PIPV4_CLIENT_NAT OR PIPV6_IMCP_NOHOST_CLIENT"

lemmas pip_consts = PIPV4_PASSTOS_def PIP_MSSFIX_def PIP_OUTGOING_def PIPV4_EXTRACT_DHCP_ROUTER_def PIPV4_CLIENT_NAT_def
  PIPV6_IMCP_NOHOST_CLIENT_def PIPV6_IMCP_NOHOST_SERVER_def

lemma pip_flags_block:
  assumes "opt_block_ipv6 ctx" "opt_mssfix ctx \<noteq> 0 \<or> opt_passtos ctx \<or> opt_client_nat ctx \<noteq> None"
  shows "pip_flags ctx incoming_tun_flags AND (PIP_MSSFIX OR PIPV4_PASSTOS OR PIPV4_CLIENT_NAT) \<noteq> 0"
    and "pip_flags ctx incoming_tun_flags AND PIP_OUTGOING = 0"
    and "pip_flags ctx incoming_tun_flags AND (PIPV6_IMCP_NOHOST_CLIENT OR PIPV6_IMCP_NOHOST_SERVER) \<noteq> 0"
    and "pip_flags ctx incoming_tun_flags AND PIPV6_IMCP_NOHOST_CLIENT \<noteq> 0"
  using assms by (auto simp: pip_flags_def incoming_tun_flags_def pip_consts Let_def)

lemma put_shared:
  assumes "buf_ok buf" "buf_advance buf (int off) = Some ip" "off \<le> length (buf_content buf)" "length c' = length (buf_content ip)"
  shows "buf_content (buf\<lparr>b_data := b_data (buf_put ip c')\<rparr>) = take off (buf_content buf) @ c'"
proof -
  have ip: "buf_content ip = drop off (buf_content buf)" "b_offset ip = b_offset buf + int off" "b_data ip = b_data buf"
    using buf_advance_content [OF assms(1,3)] assms(2) by auto
  have "buf\<lparr>b_data := b_data (buf_put ip c')\<rparr> = buf_store buf (b_offset buf + int (length (take off (buf_content buf)))) c'"
    using ip(2,3) assms(3) by (simp add: buf_put_def buf_store_def min_def)
  moreover have "buf_content buf = take off (buf_content buf) @ drop off (buf_content buf) @ []" by simp
  ultimately show ?thesis using buf_store_inside(2) [OF assms(1), of "take off (buf_content buf)" "drop off (buf_content buf)" "[]" c'] ip(1) assms(4) by simp
qed

lemma mss6_prefix:
  assumes "buf_ok buf" "is_ipv6 tt buf = Some ip"
  shows "take 40 (buf_content (buf\<lparr>b_data := b_data (mss_fixup_ipv6 ip m)\<rparr>)) = take 40 (buf_content buf)"
proof -
  obtain off where o: "ip_offset tt 6 (buf_content buf) = Some off" "buf_advance buf (int off) = Some ip"
    using assms by (auto simp: is_ipv6_def is_ipv_X_offset split: Option.bind_splits)
  have le: "off \<le> length (buf_content buf)" using o(1) by (auto simp: ip_offset_def Let_def split: if_splits)
  have ip: "buf_ok ip" "buf_content ip = drop off (buf_content buf)" "b_data ip = b_data buf"
    using buf_advance_content [OF assms(1) le] o(2) by auto
  show ?thesis
  proof (cases "tcp_syn6 (buf_content ip)")
    case False
    then show ?thesis using mss_fixup_eqs(2) [OF ip(1) refl] ip(3) by simp
  next
    case True
    let ?t = "mss_fixup_dowork (drop 40 (buf_content ip)) (word_of_int m - 20)"
    have l: "40 + 20 \<le> length (buf_content ip)" using mss_fixup_eqs(4) [OF ip(1) refl True] .
    have "clamped (word_of_int m - 20) (tcp_mss_options (drop 40 (buf_content ip))) (drop 40 (buf_content ip)) ?t"
      by (rule mss_put(3) [OF ip(1) refl l])
    then have "length (take 40 (buf_content ip) @ ?t) = length (buf_content ip)" using l by (simp add: clamped_def)
    from put_shared [OF assms(1) o(2) le this]
    have "buf_content (buf\<lparr>b_data := b_data (mss_fixup_ipv6 ip m)\<rparr>) = take off (buf_content buf) @ take 40 (buf_content ip) @ ?t"
      using mss_fixup_eqs(2) [OF ip(1) refl, of m] True by simp
    moreover have "take 40 (take off (buf_content buf) @ take 40 (drop off (buf_content buf)) @ ?t) = take 40 (buf_content buf)"
    proof -
      have "off + 60 \<le> length (buf_content buf)" using l le unfolding ip(2) by simp
      then show ?thesis by (simp add: min_def take_add [symmetric] flip: append_assoc)
    qed
    ultimately show ?thesis by (simp add: ip(2))
  qed
qed

lemma mss6_shared:
  assumes "buf_ok buf" "is_ipv6 tt buf = Some ip" "buf' = buf \<or> buf' = buf\<lparr>b_data := b_data (mss_fixup_ipv6 ip m)\<rparr>"
  shows "in_place buf buf'" "\<exists>ip'. is_ipv6 tt buf' = Some ip' \<and> length (buf_content ip') = length (buf_content ip)"
proof -
  have ip: "buf_ok ip" using is_ipv_X_content [OF assms(1)] assms(2) by (simp add: is_ipv6_def)
  have b: "in_place buf (buf\<lparr>b_data := b_data (mss_fixup_ipv6 ip m)\<rparr>)"
    using in_place_back [OF assms(1) _ in_place_mss(2) [OF ip]] assms(2) by (simp add: is_ipv6_def)
  then show "in_place buf buf'" using assms(1,3) in_place_refl by auto
  obtain d where d: "b_data (mss_fixup_ipv6 ip m) = Some d" using mss_fixup_keeps(2) [OF ip] by (auto simp: buf_ok_def)
  have ok: "buf_ok (buf\<lparr>b_data := Some d\<rparr>)" using b d by (simp add: in_place_def)
  have "is_ipv6 tt (buf\<lparr>b_data := Some d\<rparr>) = Some (ip\<lparr>b_data := Some d\<rparr>)"
    using is_ipv_X_data [OF assms(1) ok] mss6_prefix [OF assms(1,2), of m] d assms(2) by (simp add: is_ipv6_def)
  moreover have "buf_ok (ip\<lparr>b_data := Some d\<rparr>)" using is_ipv_X_content [OF ok] calculation by (simp add: is_ipv6_def)
  then have "length (buf_content (ip\<lparr>b_data := Some d\<rparr>)) = length (buf_content ip)"
    using length_buf_content [OF ip] length_buf_content [of "ip\<lparr>b_data := Some d\<rparr>"] by simp
  ultimately show "\<exists>ip'. is_ipv6 tt buf' = Some ip' \<and> length (buf_content ip') = length (buf_content ip)" using assms(2,3) d by auto
qed

lemma blocked_ipv6_effect:
  shows "buf_ok buf \<Longrightarrow> 0 < b_len buf \<Longrightarrow> aux_room ctx \<Longrightarrow> inet_pton_ok inet_pton \<Longrightarrow> opt_block_ipv6 ctx \<Longrightarrow>
      opt_mssfix ctx \<noteq> 0 \<or> opt_passtos ctx \<or> opt_client_nat ctx \<noteq> None \<Longrightarrow> is_ipv6 (tunnel_type ctx) buf = Some ip \<Longrightarrow>
      \<exists>ctx' buf'. process_ip_header inet_pton ctx incoming_tun_flags buf = Some (ctx', buf') \<and> b_len buf' = 0 \<and>
        to_link ctx' = to_link ctx \<and> (if 40 \<le> length (buf_content ip) then 0 < b_len (to_tun ctx') else ctx' = ctx)"
    and "opt_mssfix ctx = 0 \<Longrightarrow> \<not> opt_passtos ctx \<Longrightarrow> opt_client_nat ctx = None \<Longrightarrow>
      process_ip_header inet_pton ctx flags buf = Some (ctx, buf)"
proof -
  assume assms: "buf_ok buf" "0 < b_len buf" "aux_room ctx" "inet_pton_ok inet_pton" "opt_block_ipv6 ctx"
    "opt_mssfix ctx \<noteq> 0 \<or> opt_passtos ctx \<or> opt_client_nat ctx \<noteq> None" "is_ipv6 (tunnel_type ctx) buf = Some ip"
  let ?f = "pip_flags ctx incoming_tun_flags"
  note fl = pip_flags_block [OF assms(5,6)]
  define b1 where "b1 = (if ?f AND PIP_MSSFIX \<noteq> 0 then buf\<lparr>b_data := b_data (mss_fixup_ipv6 ip (sint (mss_fix (ctx_frame ctx))))\<rparr> else buf)"
  have "b1 = buf \<or> b1 = buf\<lparr>b_data := b_data (mss_fixup_ipv6 ip (sint (mss_fix (ctx_frame ctx))))\<rparr>" by (simp add: b1_def)
  note sh = mss6_shared [OF assms(1,7) this]
  obtain ip1 where ip1: "is_ipv6 (tunnel_type ctx) b1 = Some ip1" "length (buf_content ip1) = length (buf_content ip)" using sh(2) by blast
  have "buf_ok b1" using sh(1) by (simp add: in_place_def)
  from icmp_unreachable_total [OF this assms(3) ip1(1) assms(4), of True]
  obtain ctx' where i: "ipv6_send_icmp_unreachable inet_pton ctx b1 True = Some ctx'" "to_link ctx' = to_link ctx"
    "if 40 \<le> length (buf_content ip) then 0 < b_len (to_tun ctx') else ctx' = ctx" unfolding if_True ip1(2) by blast
  have "process_ip_header inet_pton ctx incoming_tun_flags buf = Some (ctx', b1\<lparr>b_len := 0\<rparr>)"
    using fl assms(2,7) not_ipv4 [OF assms(1,7)] i(1) unfolding b1_def by (simp add: process_ip_header_def Let_def)
  then show "\<exists>ctx' buf'. process_ip_header inet_pton ctx incoming_tun_flags buf = Some (ctx', buf') \<and> b_len buf' = 0 \<and>
      to_link ctx' = to_link ctx \<and> (if 40 \<le> length (buf_content ip) then 0 < b_len (to_tun ctx') else ctx' = ctx)" using i(2,3) by simp
next
  assume "opt_mssfix ctx = 0" "\<not> opt_passtos ctx" "opt_client_nat ctx = None"
  from pip_flags_off [OF this] show "process_ip_header inet_pton ctx flags buf = Some (ctx, buf)" by (simp add: process_ip_header_def Let_def)
qed

section \<open>Properties\<close>

text \<open>
  C35. The removal of the router from DHCP answers: for an answer with well-formed options (any padding and options, then the end of the packet
  or an end mark with anything after it) of the type ACK or OFFER, exactly the router options are taken out, the other options keep their
  order and their bytes, as much padding follows as was removed, the UDP checksum verifies, the rest of the packet is unchanged and the
  result is, for an ACK, the first router address that is not zero. The loop ends for all bytes.
\<close>

theorem dhcp_router_removed:
  assumes "length h = 268" "h ! 9 = 17" "get16 h 20 = htons 67" "get16 h 22 = htons 68" "h ! 28 = 2"
    and "list_all option_ok os" "options_end e" "length (h @ options_bytes os @ e) < 65556"
    and "message_type os = DHCPACK \<or> message_type os = DHCPOFFER"
  shows "\<exists>h'. dhcp_extract_router_msg (h @ options_bytes os @ e) =
      (h' @ options_bytes (filter (\<lambda>x. \<not> is_router x) os) @ e @ replicate (length (options_bytes (filter is_router os))) 0,
       if message_type os = DHCPACK then router_address os else 0) \<and>
    length h' = 268 \<and> take 26 h' = take 26 h \<and> drop 28 h' = drop 28 h \<and>
    covered_sum (drop 20 (fst (dhcp_extract_router_msg (h @ options_bytes os @ e)))) (mem_read h 12 4) (mem_read h 16 4) 17 mod 65535 = 0"
proof -
  let ?c = "h @ options_bytes os @ e"
  let ?p = "options_bytes (filter (\<lambda>x. \<not> is_router x) os) @ e @ replicate (length (options_bytes (filter is_router os))) 0"
  let ?d = "h @ ?p"
  let ?d1 = "put16 ?d 26 0"
  let ?d2 = "put16 ?d1 26 (htons (ip_checksum True (drop 20 ?d1) (mem_read ?d1 12 4) (mem_read ?d1 16 4) 17))"
  have x: "do_extract (options_bytes os @ e) 0 0 = (?p, router_address os)"
    using do_extract_options [OF assms(6,7), of "[]" 0 0] by (simp add: router_from_address)
  have m: "get_dhcp_message_type (options_bytes os @ e) 0 = message_type os"
    using message_type_options [OF assms(6,7), of "[]"] by simp
  have g: "get16 ?c i = get16 h i" if "i \<le> 22" for i using that assms(1) get16_take [of i 268 ?c] get16_take [of i 268 h] by simp
  have "length ?p = length (options_bytes os @ e)"
    by (induction os) auto
  then have l: "28 \<le> length ?d" "length ?d < 65556" using assms(1,8) by simp_all
  note k = put_checksum [OF l]
  have f: "dhcp_extract_router_msg ?c = (?d2, if message_type os = DHCPACK then router_address os else 0)"
    using assms(1-5,9) x m g
    by (simp add: dhcp_extract_router_msg_def Let_def nth_append ip_consts BOOTPS_PORT_def BOOTPC_PORT_def BOOTREPLY_def)
  have t: "take 268 ?d2 @ ?p = ?d2"
  proof -
    have "drop 268 ?d2 = drop 240 (drop 28 ?d2)" by simp
    also have "\<dots> = ?p" unfolding k(3) using assms(1) by simp
    finally show ?thesis by (metis append_take_drop_id)
  qed
  have "take 26 (take 268 ?d2) = take 26 h" using k(2) assms(1) by simp
  moreover have "drop 28 (take 268 ?d2) = drop 28 h"
  proof -
    have "drop 28 (take 268 ?d2) = take 240 (drop 28 ?d2)" by (simp add: drop_take)
    then show ?thesis unfolding k(3) using assms(1) by simp
  qed
  moreover have "length (take 268 ?d2) = 268" using k(4) assms(1) by simp
  moreover have "mem_read ?d i 4 = mem_read h i 4" if "i \<le> 16" for i using that assms(1) by (simp add: mem_read_def)
  ultimately show ?thesis using f t k(1) by (intro exI [of _ "take 268 ?d2"]) simp
qed

text \<open>A DHCP acknowledgement with a router option between two others.\<close>

definition dhcp_head :: bytes where
  "dhcp_head = replicate 9 0 @ [17] @ replicate 10 0 @ [0, 67, 0, 68] @ replicate 4 0 @ [2] @ replicate 239 0"

definition dhcp_ack :: "dhcp_option list" where
  "dhcp_ack = [Opt 53 [5], Opt 3 [10, 8, 0, 1], Pad, Opt 1 [255, 255, 255, 0]]"

theorem dhcp_router_removed_witness:
  "\<exists>h'. dhcp_extract_router_msg (dhcp_head @ options_bytes dhcp_ack @ [255]) =
     (h' @ [53, 1, 5, 0, 1, 4, 255, 255, 255, 0, 255] @ replicate 6 0, 0x0a080001)"
proof -
  have h: "length dhcp_head = 268" "dhcp_head ! 9 = 17" "dhcp_head ! 28 = 2" by (simp_all add: dhcp_head_def nth_append)
  have g: "get16 dhcp_head 20 = htons 67" "get16 dhcp_head 22 = htons 68"
    by (simp_all add: get16_def htons_def mem_read_def dhcp_head_def be16_def)
  have o: "list_all option_ok dhcp_ack" "options_end [255]" "message_type dhcp_ack = DHCPACK" "router_address dhcp_ack = 0x0a080001"
    by code_simp+
  have b: "options_bytes (filter (\<lambda>x. \<not> is_router x) dhcp_ack) = [53, 1, 5, 0, 1, 4, 255, 255, 255, 0]"
    "length (options_bytes (filter is_router dhcp_ack)) = 6" "length (options_bytes dhcp_ack) = 16"
    by (simp_all add: dhcp_ack_def)
  show ?thesis
    using dhcp_router_removed [OF h(1,2) g h(3) o(1,2)] o(3,4) b h(1) by auto
qed

text \<open>
  C36. The answer to an IPv6 packet that is refused: no assertion fails, the answer is put into the packet for the device (on a client) or
  the peer, and it is, on TAP after an Ethernet header with the addresses exchanged, an IPv6 header that goes to the source of the packet, with the right
  length, and an ICMPv6 message \<open>no route to destination\<close> whose checksum verifies and that repeats the packet as far as the
  limits allow; the answer without the Ethernet header is not longer than the MTU of the device. The limit of 1280 bytes is
  applied to the repeated part alone.
\<close>

theorem icmp_unreachable_answers:
  fixes inet_pton :: "string \<Rightarrow> bytes option"
  assumes "buf_ok buf" "aux_room ctx" "is_ipv6 (tunnel_type ctx) buf = Some ipbuf" "buf_content ipbuf = c" "40 \<le> length c"
    and pton: "inet_pton_ok inet_pton"
  defines "n \<equiv> unreach_len ctx c" and "src \<equiv> unreach_source inet_pton ctx c"
  shows "\<exists>ctx' out icmp. ipv6_send_icmp_unreachable inet_pton ctx buf client = Some ctx' \<and>
    out = (if client then to_tun ctx' else to_link ctx') \<and> buf_ok out \<and>
    (if client then to_link ctx' = to_link ctx else to_tun ctx' = to_tun ctx) \<and>
    buf_content out = unreach_eth ctx (buf_content buf) @
      (take 4 c @ be16 (of_nat (length icmp)) @ [58, c ! 7] @ src @ mem_read c 8 16) @ icmp \<and>
    take 2 icmp = [1, 0] \<and> drop 4 icmp = [0, 0, 0, 0] @ take n c \<and> length icmp = 8 + n \<and>
    covered_sum icmp src (mem_read c 8 16) 58 mod 65535 = 0 \<and>
    int (40 + length icmp) \<le> tun_mtu (ctx_frame ctx) \<and> 40 + length icmp \<le> 1328"
proof -
  let ?i = "[1, 0, 0, 0, 0, 0, 0, 0] @ take n c"
  let ?icmp = "mem_write ?i 2 (be16 (ip_checksum False ?i src (mem_read c 8 16) 58))"
  have ib: "buf_ok ipbuf" "tunnel_type ctx = DEV_TYPE_TAP \<Longrightarrow> 14 \<le> length (buf_content buf)"
    using is_ipv_X_content [OF assms(1), of "tunnel_type ctx" 6 ipbuf] assms(3) by (auto simp: is_ipv6_def)
  obtain out where out: "fill_unreach inet_pton ctx buf ipbuf c = Some out" "buf_ok out"
    "buf_content out = unreach_eth ctx (buf_content buf) @ ip6_unreach_header inet_pton ctx c (int n) @ ?icmp"
    using fill_unreach_content [where inet_pton = inet_pton, OF assms(1) ib(1) assms(2) _ assms(4,5) pton] ib(2)
    unfolding n_def src_def by metis
  have n: "n \<le> length c" "n \<le> 1280" "int n \<le> tun_mtu (ctx_frame ctx) - 48"
    using assms(2) by (auto simp: n_def unreach_len_def aux_room_def)
  have l: "length ?i = 8 + n" using n(1) by simp
  then have li: "length ?icmp = 8 + n" by simp
  have s16: "length src = 16" "length (mem_read c 8 16) = 16" using unreach_header_length(1) [where inet_pton = inet_pton, OF assms(5) pton] assms(5) by (simp_all add: src_def)
  have "covered_sum ?icmp src (mem_read c 8 16) 58 mod 65535 = 0"
    using l n(2) s16 by (intro checksum_written) (simp_all add: mem_read_def)
  moreover have "take 2 ?icmp = [1, 0]" "drop 4 ?icmp = [0, 0, 0, 0] @ take n c" by (simp_all add: mem_write_def)
  moreover have "ip6_unreach_header inet_pton ctx c (int n) = take 4 c @ be16 (of_nat (length ?icmp)) @ [58, c ! 7] @ src @ mem_read c 8 16"
    unfolding li by (simp add: ip6_unreach_header_def src_def OPENVPN_IPPROTO_ICMPV6_def)
  moreover have "int (40 + length ?icmp) \<le> tun_mtu (ctx_frame ctx)" "40 + length ?icmp \<le> 1328" unfolding li using n by simp_all
  moreover define ctx1 where "ctx1 = ctx\<lparr>aux_buf := (aux_buf ctx)\<lparr>b_data := b_data out\<rparr>\<rparr>"
  ultimately show ?thesis
    using out li assms(3) buf_load_all [OF ib(1)] assms(4,5)
    by (intro exI [of _ "if client then ctx1\<lparr>to_tun := out\<rparr> else ctx1\<lparr>to_link := out\<rparr>"] exI [of _ out] exI [of _ ?icmp])
       (simp add: ipv6_send_icmp_unreachable_def Let_def)
qed

text \<open>An echo request of 48 bytes on a TUN device; the auxiliary buffer has room for the largest answer.\<close>

definition ping6 :: bytes where
  "ping6 = [0x60, 0, 0, 0, 0, 8, 58, 64] @ replicate 15 0xfd @ [2] @ replicate 15 0xfd @ [1] @ [128, 0, 0, 0, 0, 1, 0, 1]"

definition demo_context :: ip_context where
  "demo_context = \<lparr>opt_mssfix = 1492, opt_passtos = False, opt_client_nat = None, opt_route_gateway_via_dhcp = False,
     opt_block_ipv6 = True, opt_ifconfig_ipv6_remote = None, tunnel_type = DEV_TYPE_TUN,
     ctx_frame = \<lparr>payload_size = 1600, headroom = 128, tailroom = 128, mss_fix = 1400, max_fragment_size = 0, tun_mtu = 1500,
       tun_max_mtu = 0, extra_tun = 0\<rparr>,
     link_socket = None, to_link_addr = None, route_list = None, env_set = (\<lambda>_. None),
     aux_buf = \<lparr>b_capacity = 1400, b_offset = 0, b_len = 0, b_data = Some (replicate 1400 0)\<rparr>,
     to_tun = clear_buf, to_link = clear_buf\<rparr>"

definition ping6_buffer :: buffer where
  "ping6_buffer = \<lparr>b_capacity = 48, b_offset = 0, b_len = 48, b_data = Some ping6\<rparr>"

definition link_local_pton :: "string \<Rightarrow> bytes option" where
  "link_local_pton s = (if s = ''fe80::7'' then Some ([0xfe, 0x80] @ replicate 13 0 @ [7]) else None)"

lemma demo_facts:
  "buf_ok ping6_buffer" "buf_content ping6_buffer = ping6" "aux_room demo_context" "length ping6 = 48"
  "is_ipv4 (tunnel_type demo_context) ping6_buffer = None" "is_ipv6 (tunnel_type demo_context) ping6_buffer = Some ping6_buffer"
proof -
  show l: "length ping6 = 48" by (simp add: ping6_def)
  show b: "buf_ok ping6_buffer" "buf_content ping6_buffer = ping6" using l by (simp_all add: buf_ok_def ping6_buffer_def buf_content_def buf_load_def mem_read_def)
  show "aux_room demo_context" by (simp add: aux_room_def demo_context_def buf_ok_def)
  have v: "OPENVPN_IPH_GET_VER (ping6 ! 0) = 6" by code_simp
  show "is_ipv4 (tunnel_type demo_context) ping6_buffer = None" "is_ipv6 (tunnel_type demo_context) ping6_buffer = Some ping6_buffer"
    using l v buf_load_all [OF b(1)] b(2)
    by (simp_all add: is_ipv4_def is_ipv6_def is_ipv_X_def demo_context_def Let_def buf_advance_def buf_valid_def ping6_buffer_def)
qed

theorem icmp_unreachable_answers_witness:
  "\<exists>ctx' icmp. ipv6_send_icmp_unreachable link_local_pton demo_context ping6_buffer True = Some ctx' \<and>
     buf_content (to_tun ctx') = ([0x60, 0, 0, 0, 0, 56, 58, 64] @ ([0xfe, 0x80] @ replicate 13 0 @ [7]) @ (replicate 15 0xfd @ [2])) @ icmp \<and>
     length icmp = 56 \<and> drop 8 icmp = ping6"
proof -
  have pton: "inet_pton_ok link_local_pton" by (auto simp: inet_pton_ok_def link_local_pton_def split: if_splits)
  have n: "unreach_len demo_context ping6 = 48" using demo_facts(4) by (simp add: unreach_len_def demo_context_def)
  have e: "unreach_eth demo_context ping6 = []" by (simp add: unreach_eth_def demo_context_def DEV_TYPE_TUN_def DEV_TYPE_TAP_def)
  have s: "unreach_source link_local_pton demo_context ping6 = [0xfe, 0x80] @ replicate 13 0 @ [7]"
    by (simp add: unreach_source_def demo_context_def link_local_pton_def)
  have m: "mem_read ping6 8 16 = replicate 15 0xfd @ [2]" "take 4 ping6 = [0x60, 0, 0, 0]" "ping6 ! 7 = 64"
    by (simp_all add: ping6_def mem_read_def)
  have "40 \<le> length ping6" using demo_facts(4) by simp
  from icmp_unreachable_answers [where inet_pton = link_local_pton and client = True, OF demo_facts(1,3,6,2) this pton]
  obtain ctx' out icmp where r: "ipv6_send_icmp_unreachable link_local_pton demo_context ping6_buffer True = Some ctx'" "out = to_tun ctx'"
    "buf_content out = [] @ ([0x60, 0, 0, 0] @ be16 (of_nat (length icmp)) @ [58, 64] @ ([0xfe, 0x80] @ replicate 13 0 @ [7]) @ (replicate 15 0xfd @ [2])) @ icmp"
    "drop 4 icmp = [0, 0, 0, 0] @ take 48 ping6" "length icmp = 8 + 48"
    unfolding demo_facts(2) n e s m by auto
  have "drop 8 icmp = drop 4 (drop 4 icmp)" by simp
  also have "\<dots> = ping6" unfolding r(4) using demo_facts(4) by simp
  finally show ?thesis using r(1-3,5) by (intro exI [of _ ctx'] exI [of _ icmp]) (simp add: be16_def)
qed



text \<open>
  C34. Blocking of IPv6 packets from the device. When it is on together with one of the options \<open>mssfix\<close>, \<open>passtos\<close> and \<open>client-nat\<close>, every IPv6
  packet is dropped, the peer gets nothing, and the device gets an answer if the packet has a whole header. Without these three options
  it has no effect: the handler leaves every packet as it is, for all flags.
\<close>

theorem blocked_ipv6:
  assumes "buf_ok buf" "0 < b_len buf" "aux_room ctx" "inet_pton_ok inet_pton" "opt_block_ipv6 ctx" "is_ipv6 (tunnel_type ctx) buf = Some ip"
  shows "if opt_mssfix ctx \<noteq> 0 \<or> opt_passtos ctx \<or> opt_client_nat ctx \<noteq> None
    then \<exists>ctx' buf'. process_ip_header inet_pton ctx incoming_tun_flags buf = Some (ctx', buf') \<and> b_len buf' = 0 \<and>
        to_link ctx' = to_link ctx \<and> (if 40 \<le> length (buf_content ip) then 0 < b_len (to_tun ctx') else ctx' = ctx)
    else \<forall>flags. process_ip_header inet_pton ctx flags buf = Some (ctx, buf)"
proof (cases "opt_mssfix ctx \<noteq> 0 \<or> opt_passtos ctx \<or> opt_client_nat ctx \<noteq> None")
  case True
  then show ?thesis unfolding if_P [OF True] by (intro blocked_ipv6_effect(1) assms)
next
  case False
  then show ?thesis using blocked_ipv6_effect(2) by simp
qed

theorem blocked_ipv6_witness:
  "(\<exists>ctx' buf'. process_ip_header link_local_pton demo_context incoming_tun_flags ping6_buffer = Some (ctx', buf') \<and> b_len buf' = 0 \<and>
      to_link ctx' = clear_buf \<and> 0 < b_len (to_tun ctx')) \<and>
   opt_block_ipv6 (demo_context\<lparr>opt_mssfix := 0\<rparr>) \<and>
   process_ip_header link_local_pton (demo_context\<lparr>opt_mssfix := 0\<rparr>) incoming_tun_flags ping6_buffer =
     Some (demo_context\<lparr>opt_mssfix := 0\<rparr>, ping6_buffer)"
proof -
  have p: "inet_pton_ok link_local_pton" by (auto simp: inet_pton_ok_def link_local_pton_def split: if_splits)
  have o: "0 < b_len ping6_buffer" "opt_block_ipv6 demo_context" "to_link demo_context = clear_buf"
    "opt_mssfix demo_context \<noteq> 0 \<or> opt_passtos demo_context \<or> opt_client_nat demo_context \<noteq> None"
    by (simp_all add: ping6_buffer_def demo_context_def)
  have r: "aux_room (demo_context\<lparr>opt_mssfix := 0\<rparr>)" using demo_facts(3) by (simp add: aux_room_def)
  have t: "tunnel_type (demo_context\<lparr>opt_mssfix := 0\<rparr>) = tunnel_type demo_context" by simp
  have "process_ip_header link_local_pton (demo_context\<lparr>opt_mssfix := 0\<rparr>) incoming_tun_flags ping6_buffer =
      Some (demo_context\<lparr>opt_mssfix := 0\<rparr>, ping6_buffer)"
    using blocked_ipv6 [OF demo_facts(1) o(1) r p _ demo_facts(6) [folded t]] by (simp add: demo_context_def)
  then show ?thesis
    using blocked_ipv6 [OF demo_facts(1) o(1) demo_facts(3) p o(2) demo_facts(6)] demo_facts(2,4) o by simp
qed

end
