(* ===== verification/Stream_Buf.thy ===== *)
theory Stream_Buf
  imports Mtu "HOL-Library.Monad_Syntax" "HOL-Library.Sublist"
begin

text \<open>
  Packets on a TCP connection (\<open>socket.c\<close>): the sender puts the length in front of each packet; the receiver reads pieces of the
  stream into one buffer, takes the length off the front, and keeps bytes that belong to the next packet in a second buffer.

  The buffers \<open>buf_init\<close>, \<open>buf\<close> and \<open>next\<close> of the code share one block of memory. It is kept with \<open>buf\<close>; the other two hold the
  place only. The test for foreign protocols on a shared port is off in a client and left out.
\<close>

section \<open>The state\<close>

record stream_buf =
  sb_buf_init :: buffer
  sb_residual :: buffer
  sb_maxlen :: int
  sb_residual_fully_formed :: bool
  sb_buf :: buffer
  sb_next :: buffer
  sb_len :: int
  sb_error :: bool

record tcp_socket =
  ts_sd :: int
  ts_stream_buf :: stream_buf
  ts_stream_reset :: bool

definition SOCKET_UNDEFINED :: int where "SOCKET_UNDEFINED = - 1"

definition buf_reset :: "buffer \<Rightarrow> buffer" where
  "buf_reset b = \<lparr>b_capacity = 0, b_offset = 0, b_len = 0, b_data = None\<rparr>"

definition buf_defined :: "buffer \<Rightarrow> bool" where
  "buf_defined b \<longleftrightarrow> b_data b \<noteq> None"

definition buf_copy_excess :: "buffer \<Rightarrow> buffer \<Rightarrow> int \<Rightarrow> bool \<times> buffer \<times> buffer" where
  "buf_copy_excess dest src len =
     (if len < 0 then (False, dest, src)
      else if b_len src > len
      then let src' = src\<lparr>b_len := len\<rparr>
           in case buf_advance src len of
                None \<Rightarrow> (False, dest, src')
              | Some b \<Rightarrow> (case buf_copy dest b of None \<Rightarrow> (False, dest, src') | Some dest' \<Rightarrow> (True, dest', src'))
      else (True, dest, src))"

section \<open>The operations\<close>

definition stream_buf_reset :: "stream_buf \<Rightarrow> stream_buf" where
  "stream_buf_reset sb =
     sb\<lparr>sb_residual_fully_formed := False, sb_buf := (sb_buf_init sb)\<lparr>b_data := b_data (sb_buf sb)\<rparr>,
        sb_next := buf_reset (sb_next sb), sb_len := - 1\<rparr>"

definition stream_buf_init :: "buffer \<Rightarrow> stream_buf option" where
  "stream_buf_init buf =
     do {
       residual \<leftarrow> (if b_len buf < 0 then None else alloc_buf (nat (b_len buf)));
       Some (stream_buf_reset
         \<lparr>sb_buf_init = buf\<lparr>b_len := 0\<rparr>, sb_residual = residual, sb_maxlen = b_len buf, sb_residual_fully_formed = False,
          sb_buf = buf, sb_next = buf_reset buf, sb_len = - 1, sb_error = False\<rparr>)
     }"

definition stream_buf_set_next :: "stream_buf \<Rightarrow> stream_buf option" where
  "stream_buf_set_next sb =
     (let b = sb_buf sb; n = (if sb_len sb \<ge> 0 then sb_len sb else sb_maxlen sb) - b_len b;
          next = b\<lparr>b_offset := b_offset b + b_len b, b_len := n\<rparr>
      in if n > 0 \<and> buf_safe b (nat n) then Some (sb\<lparr>sb_next := next\<rparr>) else None)"

definition stream_buf_get_final :: "stream_buf \<Rightarrow> buffer option" where
  "stream_buf_get_final sb = (if buf_defined (sb_buf sb) then Some (sb_buf sb) else None)"

definition stream_buf_get_next :: "stream_buf \<Rightarrow> buffer option" where
  "stream_buf_get_next sb = (if buf_defined (sb_next sb) then Some (sb_next sb) else None)"

text \<open>The end of \<open>stream_buf_added\<close>: is the packet complete?\<close>

definition stream_buf_complete :: "stream_buf \<Rightarrow> (bool \<times> stream_buf) option" where
  "stream_buf_complete sb =
     (if sb_len sb > 0 \<and> b_len (sb_buf sb) \<ge> sb_len sb
      then do {
        residual \<leftarrow> buf_init (sb_residual sb) 0;
        (residual', buf') \<leftarrow>
          (if b_len (sb_buf sb) > sb_len sb
           then (case buf_copy_excess residual (sb_buf sb) (sb_len sb) of (ok, r, b) \<Rightarrow> if ok then Some (r, b) else None)
           else Some (residual, sb_buf sb));
        Some (True, sb\<lparr>sb_residual := residual', sb_buf := buf'\<rparr>)
      }
      else do { sb' \<leftarrow> stream_buf_set_next sb; Some (False, sb') })"

definition stream_buf_added :: "stream_buf \<Rightarrow> int \<Rightarrow> (bool \<times> stream_buf) option" where
  "stream_buf_added sb0 length_added =
     (let sb = (if length_added > 0 then sb0\<lparr>sb_buf := (sb_buf sb0)\<lparr>b_len := b_len (sb_buf sb0) + length_added\<rparr>\<rparr> else sb0)
      in if sb_len sb < 0 \<and> b_len (sb_buf sb) \<ge> 2
         then case buf_read (sb_buf sb) 2 of
                (None, _) \<Rightarrow> None
              | (Some net_size, b) \<Rightarrow>
                  let sb1 = sb\<lparr>sb_buf := b, sb_len := uint (of_be16 net_size)\<rparr>
                  in if sb_len sb1 < 1 \<or> sb_len sb1 > sb_maxlen sb1
                     then Some (False, (stream_buf_reset sb1)\<lparr>sb_error := True\<rparr>)
                     else stream_buf_complete sb1
         else stream_buf_complete sb)"

text \<open>The result is true when the socket has to be read.\<close>

definition stream_buf_read_setup_dowork :: "stream_buf \<Rightarrow> (bool \<times> stream_buf) option" where
  "stream_buf_read_setup_dowork sb =
     do {
       sb1 \<leftarrow> (if b_len (sb_residual sb) \<noteq> 0 \<and> \<not> sb_residual_fully_formed sb
              then do {
                b \<leftarrow> buf_copy (sb_buf sb) (sb_residual sb);
                r \<leftarrow> buf_init (sb_residual sb) 0;
                (full, sb2) \<leftarrow> stream_buf_added (sb\<lparr>sb_buf := b, sb_residual := r\<rparr>) 0;
                Some (sb2\<lparr>sb_residual_fully_formed := full\<rparr>)
              }
              else Some sb);
       sb3 \<leftarrow> (if \<not> sb_residual_fully_formed sb1 then stream_buf_set_next sb1 else Some sb1);
       Some (\<not> sb_residual_fully_formed sb3, sb3)
     }"

text \<open>
  \<open>rlen\<close> and \<open>rdata\<close> are what \<open>recv\<close> returns and stores at the place of \<open>next\<close>. The result is the value of the function and, for a
  complete packet, the buffer with it.
\<close>

definition link_socket_read_tcp :: "tcp_socket \<Rightarrow> int \<Rightarrow> bytes \<Rightarrow> (int \<times> buffer option \<times> tcp_socket) option" where
  "link_socket_read_tcp sock rlen rdata =
     (let sb = ts_stream_buf sock;
          finish = (\<lambda>sb len.
            do {
              (full, sb1) \<leftarrow> (if sb_residual_fully_formed sb then Some (True, sb) else stream_buf_added sb len);
              (if full
               then do {
                 buf \<leftarrow> stream_buf_get_final sb1;
                 Some (b_len buf, Some buf, sock\<lparr>ts_stream_buf := stream_buf_reset sb1\<rparr>)
               }
               else Some (0, None, sock\<lparr>ts_stream_buf := sb1\<rparr>))
            })
      in if \<not> sb_residual_fully_formed sb
         then if ts_sd sock = SOCKET_UNDEFINED then Some (0, None, sock\<lparr>ts_stream_reset := True\<rparr>)
              else do {
                frag \<leftarrow> stream_buf_get_next sb;
                (if rlen \<le> 0
                 then Some (rlen, None, if rlen = 0 then sock\<lparr>ts_stream_reset := True\<rparr> else sock)
                 else finish (sb\<lparr>sb_buf := buf_store (sb_buf sb) (b_offset frag) rdata\<rparr>) rlen)
              }
         else finish sb 0)"

definition link_socket_write_tcp :: "tcp_socket \<Rightarrow> buffer \<Rightarrow> buffer option" where
  "link_socket_write_tcp sock buf =
     (let len = (word_of_int (BLEN buf) :: u16)
      in if uint len \<le> sb_maxlen (ts_stream_buf sock) then buf_write_prepend buf (be16 len) else None)"

section \<open>The stream as the receiver should see it\<close>

definition frame_bytes :: "bytes \<Rightarrow> bytes" where
  "frame_bytes p = be16 (of_nat (length p)) @ p"

datatype parse = Wait | Bad | Packet bytes bytes

definition head_len :: "bytes \<Rightarrow> nat" where
  "head_len w = unat (of_be16 (take 2 w))"

definition parse_frame :: "nat \<Rightarrow> bytes \<Rightarrow> parse" where
  "parse_frame m w =
     (if length w < 2 then Wait
      else let n = head_len w
           in if n < 1 \<or> n > m then Bad
              else if length w < 2 + n then Wait
              else Packet (take n (drop 2 w)) (drop (2 + n) w))"

lemma head_frame: "length p < 65536 \<Longrightarrow> head_len (frame_bytes p @ w) = length p"
  by (simp add: head_len_def frame_bytes_def unsigned_of_nat take_bit_nat_eq_self)

lemma length_frame [simp]: "length (frame_bytes p) = 2 + length p"
  by (simp add: frame_bytes_def)

lemma parse_frame_bytes: "0 < length p \<Longrightarrow> length p \<le> m \<Longrightarrow> length p < 65536 \<Longrightarrow> parse_frame m (frame_bytes p @ w) = Packet p w"
  using head_frame [of p w] by (simp add: parse_frame_def Let_def) (simp add: frame_bytes_def)

section \<open>Invariant of the receiver\<close>

text \<open>
  The place of the buffers: \<open>m\<close> is the largest packet. Behind the start of the buffer there is room for a length and such a packet,
  and the second buffer holds what one read can leave.
\<close>

definition sb_wf :: "nat \<Rightarrow> stream_buf \<Rightarrow> bool" where
  "sb_wf m sb \<longleftrightarrow> sb_maxlen sb = int m \<and> 2 \<le> m \<and> m + 2 < BUF_SIZE_MAX \<and>
     buf_ok (sb_buf sb) \<and> b_len (sb_buf_init sb) = 0 \<and> 0 \<le> b_offset (sb_buf_init sb) \<and>
     b_capacity (sb_buf_init sb) = b_capacity (sb_buf sb) \<and> b_offset (sb_buf_init sb) + int m + 2 \<le> b_capacity (sb_buf sb) \<and>
     buf_ok (sb_residual sb) \<and> b_offset (sb_residual sb) = 0 \<and> b_capacity (sb_residual sb) = int m"

abbreviation sb_text :: "stream_buf \<Rightarrow> bytes" where "sb_text sb \<equiv> buf_content (sb_buf sb)"
abbreviation sb_rest :: "stream_buf \<Rightarrow> bytes" where "sb_rest sb \<equiv> buf_content (sb_residual sb)"

text \<open>
  The bytes that were received and not yet passed on, by the phase: no length known, length \<open>n\<close> known, and a whole packet in place
  with what follows it.
\<close>

definition sb_new :: "stream_buf \<Rightarrow> bool" where
  "sb_new sb \<longleftrightarrow> sb_len sb = - 1 \<and> b_offset (sb_buf sb) = b_offset (sb_buf_init sb)"

definition sb_known :: "nat \<Rightarrow> nat \<Rightarrow> stream_buf \<Rightarrow> bool" where
  "sb_known m n sb \<longleftrightarrow> sb_len sb = int n \<and> 1 \<le> n \<and> n \<le> m \<and> b_offset (sb_buf sb) = b_offset (sb_buf_init sb) + 2"

definition sb_rep :: "nat \<Rightarrow> stream_buf \<Rightarrow> bytes \<Rightarrow> bool" where
  "sb_rep m sb w \<longleftrightarrow> sb_wf m sb \<and> \<not> sb_error sb \<and>
     (if sb_residual_fully_formed sb
      then \<exists>n. sb_known m n sb \<and> n < 65536 \<and> length (sb_text sb) = n \<and> w = be16 (of_nat n) @ sb_text sb @ sb_rest sb
      else sb_new sb \<and> (sb_rest sb = [] \<and> length (sb_text sb) < 2 \<and> w = sb_text sb \<or> sb_text sb = [] \<and> w = sb_rest sb) \<or>
           (\<exists>n. sb_known m n sb \<and> n < 65536 \<and> length (sb_text sb) < n \<and> sb_rest sb = [] \<and> w = be16 (of_nat n) @ sb_text sb))"

lemma sb_len_text: "sb_wf m sb \<Longrightarrow> b_len (sb_buf sb) = int (length (sb_text sb))"
  using length_buf_content [of "sb_buf sb"] by (simp add: sb_wf_def)

lemma sb_len_rest: "sb_wf m sb \<Longrightarrow> b_len (sb_residual sb) = int (length (sb_rest sb))"
  using length_buf_content [of "sb_residual sb"] by (simp add: sb_wf_def)

lemma set_next_new:
  assumes "sb_wf m sb" "sb_new sb" "length (sb_text sb) < m"
  shows "stream_buf_set_next sb = Some (sb\<lparr>sb_next := (sb_buf sb)\<lparr>b_offset := b_offset (sb_buf sb) + int (length (sb_text sb)),
    b_len := int (m - length (sb_text sb))\<rparr>\<rparr>)"
  using assms sb_len_text [OF assms(1)] buf_ok_valid [of "sb_buf sb"]
  by (auto simp: stream_buf_set_next_def sb_wf_def sb_new_def Let_def buf_safe_def buf_size_valid_def of_nat_diff)

lemma set_next_known:
  assumes "sb_wf m sb" "sb_known m n sb" "length (sb_text sb) < n"
  shows "stream_buf_set_next sb = Some (sb\<lparr>sb_next := (sb_buf sb)\<lparr>b_offset := b_offset (sb_buf sb) + int (length (sb_text sb)),
    b_len := int (n - length (sb_text sb))\<rparr>\<rparr>)"
  using assms sb_len_text [OF assms(1)] buf_ok_valid [of "sb_buf sb"]
  by (auto simp: stream_buf_set_next_def sb_wf_def sb_known_def Let_def buf_safe_def buf_size_valid_def of_nat_diff)

text \<open>A packet of known length is complete: what is too much goes to the second buffer.\<close>

lemma copy_excess_content:
  assumes "buf_ok dst" "buf_content dst = []" "buf_ok src" "n < length (buf_content src)"
    and "length (buf_content src) - n < BUF_SIZE_MAX" "b_offset dst + int (length (buf_content src) - n) \<le> b_capacity dst"
  shows "\<exists>dst'. buf_copy_excess dst src (int n) = (True, dst', src\<lparr>b_len := int n\<rparr>) \<and> buf_ok dst' \<and>
    buf_content dst' = drop n (buf_content src) \<and> b_offset dst' = b_offset dst \<and> b_capacity dst' = b_capacity dst"
proof -
  obtain b where b: "buf_advance src (int n) = Some b" "buf_ok b" "buf_content b = drop n (buf_content src)"
    using buf_advance_content [OF assms(3), of n] assms(4) by auto
  obtain d where "buf_write dst (drop n (buf_content src)) = Some d" "buf_ok d" "buf_content d = drop n (buf_content src)"
    "b_capacity d = b_capacity dst" "b_offset d = b_offset dst"
    using buf_write_fits [OF assms(1), of "drop n (buf_content src)"] assms(2,5,6) by auto
  moreover have "b_len src > int n" using length_buf_content [OF assms(3)] assms(4) by simp
  ultimately show ?thesis using b buf_load_all [OF b(2)] by (simp add: buf_copy_excess_def Let_def buf_copy_def)
qed

lemma buf_truncate:
  assumes "buf_ok b" "n \<le> length (buf_content b)"
  shows "buf_content (b\<lparr>b_len := int n\<rparr>) = take n (buf_content b)"
proof -
  have "n \<le> nat (b_len b)" using length_buf_content [OF assms(1)] assms(2) by linarith
  then show ?thesis by (simp add: buf_content_def buf_load_def mem_read_def min_absorb1 split: option.splits)
qed

lemma complete_known:
  assumes "sb_wf m sb" "sb_known m n sb" "n \<le> length (sb_text sb)" "length (sb_text sb) \<le> n + m"
  shows "\<exists>sb'. stream_buf_complete sb = Some (True, sb') \<and> sb_wf m sb' \<and> sb_known m n sb' \<and> sb_text sb' = take n (sb_text sb) \<and>
    sb_rest sb' = drop n (sb_text sb) \<and> sb_error sb' = sb_error sb \<and> sb_residual_fully_formed sb' = sb_residual_fully_formed sb"
proof -
  note wf = assms(1) [unfolded sb_wf_def]
  have known: "sb_len sb = int n" "1 \<le> n" using assms(2) by (simp_all add: sb_known_def)
  obtain r where r: "buf_init (sb_residual sb) 0 = Some r" "buf_ok r" "buf_content r = []" "b_offset r = 0" "b_capacity r = int m"
    using buf_init_ok [of "sb_residual sb" 0] wf by auto
  show ?thesis
  proof (cases "length (sb_text sb) = n")
    case True
    then show ?thesis
      using known r wf assms(1,2) sb_len_text [OF assms(1)]
      by (intro exI [of _ "sb\<lparr>sb_residual := r\<rparr>"]) (simp add: stream_buf_complete_def sb_wf_def sb_known_def)
  next
    case False
    let ?x = "length (sb_text sb) - n"
    have "?x < BUF_SIZE_MAX" "b_offset r + int ?x \<le> b_capacity r" "n < length (sb_text sb)" using False assms(3,4) r wf by auto
    then obtain d where d: "buf_copy_excess r (sb_buf sb) (int n) = (True, d, (sb_buf sb)\<lparr>b_len := int n\<rparr>)" "buf_ok d"
      "buf_content d = drop n (sb_text sb)" "b_offset d = 0" "b_capacity d = int m"
      using copy_excess_content [OF r(2,3), of "sb_buf sb" n] wf r(4,5) by auto
    let ?b = "(sb_buf sb)\<lparr>b_len := int n\<rparr>"
    have b: "buf_ok ?b" using wf assms(3) sb_len_text [OF assms(1)] by (auto simp: buf_ok_def)
    have "buf_content ?b = take n (sb_text sb)" using buf_truncate [of "sb_buf sb" n] assms(3) wf by blast
    then show ?thesis
      using known d b wf assms(2,3) False r(1) sb_len_text [OF assms(1)]
      by (intro exI [of _ "sb\<lparr>sb_residual := d, sb_buf := ?b\<rparr>"]) (simp add: stream_buf_complete_def sb_wf_def sb_known_def)
  qed
qed

lemma complete_wait_known:
  assumes "sb_wf m sb" "sb_known m n sb" "length (sb_text sb) < n"
  shows "stream_buf_complete sb = map_option (Pair False) (stream_buf_set_next sb)"
  using assms sb_len_text [OF assms(1)] by (cases "stream_buf_set_next sb") (simp_all add: stream_buf_complete_def sb_known_def)

lemma complete_wait_new:
  assumes "sb_new sb"
  shows "stream_buf_complete sb = map_option (Pair False) (stream_buf_set_next sb)"
  using assms by (cases "stream_buf_set_next sb") (simp_all add: stream_buf_complete_def sb_new_def)

text \<open>What \<open>stream_buf_added\<close> does with the bytes \<open>c\<close> in the buffer, when no length is known and when it is.\<close>

definition added_ok :: "nat \<Rightarrow> stream_buf \<Rightarrow> bytes \<Rightarrow> bool \<Rightarrow> stream_buf \<Rightarrow> bool" where
  "added_ok m sb w r sb' \<longleftrightarrow>
     (case parse_frame m w of
        Wait \<Rightarrow> \<not> r \<and> sb_rep m sb' w \<and> sb_rest sb' = [] \<and> sb_residual_fully_formed sb' = False \<and> stream_buf_set_next sb' = Some sb'
      | Bad \<Rightarrow> \<not> r \<and> sb_error sb' \<and> sb_wf m sb' \<and> sb_new sb' \<and> sb_text sb' = [] \<and> \<not> sb_residual_fully_formed sb'
      | Packet p q \<Rightarrow> r \<and> sb_wf m sb' \<and> \<not> sb_error sb' \<and> sb_known m (length p) sb' \<and> length p < 65536 \<and> w = frame_bytes p @ q \<and>
          sb_text sb' = p \<and> sb_rest sb' = q)"

lemma frame_of_parse: "parse_frame m w = Packet p q \<Longrightarrow> w = frame_bytes p @ q \<and> 1 \<le> length p \<and> length p \<le> m \<and> length p < 65536"
proof -
  assume a: "parse_frame m w = Packet p q"
  then have l: "2 \<le> length w" "2 + head_len w \<le> length w" "1 \<le> head_len w" "head_len w \<le> m"
    "p = take (head_len w) (drop 2 w)" "q = drop (2 + head_len w) w"
    by (auto simp: parse_frame_def Let_def split: if_splits)
  have p: "length p = head_len w" using l by simp
  have h: "head_len w < 65536" unfolding head_len_def using unsigned_less [of "of_be16 (take 2 w)", where 'a = nat] by simp
  have "be16 (of_nat (length p)) = take 2 w"
  proof -
    have "(of_nat (length p) :: u16) = of_be16 (take 2 w)" by (simp add: p head_len_def)
    then show ?thesis using be16_of_be16 [of "take 2 w"] l(1) by simp
  qed
  moreover have "w = take 2 w @ take (head_len w) (drop 2 w) @ drop (2 + head_len w) w"
    by (metis add.commute append_take_drop_id drop_drop)
  ultimately show ?thesis using l p h by (simp add: frame_bytes_def)
qed

lemma set_next_idem: "stream_buf_set_next sb = Some sb' \<Longrightarrow> stream_buf_set_next sb' = Some sb'"
  by (auto simp: stream_buf_set_next_def Let_def split: if_splits)

lemma known_next: "sb_known m n (sb\<lparr>sb_next := x\<rparr>) = sb_known m n sb" "sb_wf m (sb\<lparr>sb_next := x\<rparr>) = sb_wf m sb" "sb_new (sb\<lparr>sb_next := x\<rparr>) = sb_new sb"
  by (simp_all add: sb_known_def sb_wf_def sb_new_def)

lemma added_known:
  assumes "sb_wf m sb" "sb_known m n sb" "\<not> sb_error sb" "\<not> sb_residual_fully_formed sb" "sb_rest sb = []" "n < 65536"
    and "length (sb_text sb) \<le> n + m" "stream_buf_complete sb = Some (r, sb')"
  shows "added_ok m sb (be16 (of_nat n) @ sb_text sb) r sb'"
proof -
  let ?w = "be16 (of_nat n) @ sb_text sb"
  have n: "1 \<le> n" "n \<le> m" using assms(2) by (simp_all add: sb_known_def)
  have h: "head_len ?w = n" using assms(6) by (simp add: head_len_def unsigned_of_nat take_bit_nat_eq_self)
  show ?thesis
  proof (cases "length (sb_text sb) < n")
    case True
    then have p: "parse_frame m ?w = Wait" using h n by (simp add: parse_frame_def Let_def)
    obtain x where x: "stream_buf_set_next sb = Some (sb\<lparr>sb_next := x\<rparr>)" using set_next_known [OF assms(1,2) True] by simp
    then have r: "\<not> r" "sb' = sb\<lparr>sb_next := x\<rparr>" using complete_wait_known [OF assms(1,2) True] assms(8) by auto
    then show ?thesis
      unfolding added_ok_def p using assms True x set_next_idem [OF x] by (auto simp: sb_rep_def known_next)
  next
    case False
    then have p: "parse_frame m ?w = Packet (take n (sb_text sb)) (drop n (sb_text sb))" using h n by (simp add: parse_frame_def Let_def)
    have f: "?w = frame_bytes (take n (sb_text sb)) @ drop n (sb_text sb)" using frame_of_parse [OF p] by simp
    obtain sb1 where "stream_buf_complete sb = Some (True, sb1)" "sb_wf m sb1" "sb_known m n sb1" "sb_text sb1 = take n (sb_text sb)"
      "sb_rest sb1 = drop n (sb_text sb)" "sb_error sb1 = sb_error sb"
      using complete_known [OF assms(1,2) _ assms(7)] False by auto
    then show ?thesis unfolding added_ok_def p using f assms(3,6,8) False by simp
  qed
qed

lemma complete_known_total:
  "sb_wf m sb \<Longrightarrow> sb_known m n sb \<Longrightarrow> length (sb_text sb) \<le> n + m \<Longrightarrow> \<exists>r sb'. stream_buf_complete sb = Some (r, sb')"
  using complete_known complete_wait_known set_next_known by (cases "length (sb_text sb) < n") (fastforce simp: not_less)+

lemma reset_new:
  assumes "sb_wf m sb"
  shows "sb_wf m (stream_buf_reset sb)" "sb_new (stream_buf_reset sb)" "sb_text (stream_buf_reset sb) = []"
    "sb_rest (stream_buf_reset sb) = sb_rest sb"
  using assms by (auto simp: sb_wf_def sb_new_def stream_buf_reset_def buf_ok_def buf_content_def buf_load_def)

lemma added_new:
  assumes "sb_wf m sb" "sb_new sb" "\<not> sb_error sb" "\<not> sb_residual_fully_formed sb" "sb_rest sb = []" "length (sb_text sb) \<le> m"
  shows "\<exists>r sb'. stream_buf_added sb 0 = Some (r, sb') \<and> added_ok m sb (sb_text sb) r sb'"
proof -
  let ?c = "sb_text sb"
  note wf = assms(1) [unfolded sb_wf_def]
  have neg: "sb_len sb = - 1" and len: "b_len (sb_buf sb) = int (length ?c)" using assms(2) sb_len_text [OF assms(1)] by (simp_all add: sb_new_def)
  show ?thesis
  proof (cases "length ?c < 2")
    case True
    then have p: "parse_frame m ?c = Wait" by (simp add: parse_frame_def)
    obtain x where x: "stream_buf_set_next sb = Some (sb\<lparr>sb_next := x\<rparr>)" using set_next_new [OF assms(1,2)] True wf by simp
    have "stream_buf_added sb 0 = Some (False, sb\<lparr>sb_next := x\<rparr>)"
      using True neg len complete_wait_new [OF assms(2)] x by (simp add: stream_buf_added_def Let_def)
    moreover have "added_ok m sb ?c False (sb\<lparr>sb_next := x\<rparr>)"
      unfolding added_ok_def p using assms True set_next_idem [OF x] by (simp add: sb_rep_def known_next)
    ultimately show ?thesis by blast
  next
    case False
    obtain b where b: "buf_read (sb_buf sb) 2 = (Some (take 2 ?c), b)" "buf_ok b" "buf_content b = drop 2 ?c"
      using buf_read_content [of "sb_buf sb" 2] wf False by auto
    define n where "n = head_len ?c"
    define sb1 where "sb1 = sb\<lparr>sb_buf := b, sb_len := int n\<rparr>"
    have u: "uint (of_be16 (take 2 ?c)) = int n" by (simp add: n_def head_len_def)
    have add: "stream_buf_added sb 0 = (if int n < 1 \<or> int n > int m then Some (False, (stream_buf_reset sb1)\<lparr>sb_error := True\<rparr>) else stream_buf_complete sb1)"
      using False neg len b(1) wf by (simp add: stream_buf_added_def Let_def u sb1_def)
    show ?thesis
    proof (cases "int n < 1 \<or> int n > int m")
      case True
      then have "parse_frame m ?c = Bad" using False by (auto simp: parse_frame_def Let_def n_def)
      moreover have "sb_wf m sb1" using wf b(2) buf_read_fields [OF b(1)] by (auto simp: sb_wf_def sb1_def)
      ultimately show ?thesis using add True reset_new [of m sb1]
        by (intro exI [of _ False] exI [of _ "(stream_buf_reset sb1)\<lparr>sb_error := True\<rparr>"])
          (simp add: added_ok_def sb_wf_def sb_new_def stream_buf_reset_def)
    next
      case ok: False
      have k: "sb_wf m sb1" "sb_known m n sb1" "sb_text sb1 = drop 2 ?c" "sb_rest sb1 = []"
        using wf b buf_read_fields [OF b(1)] assms(2,5) ok by (auto simp: sb_wf_def sb_known_def sb1_def sb_new_def)
      have n: "n < 65536" unfolding n_def head_len_def using unsigned_less [of "of_be16 (take 2 ?c)", where 'a = nat] by simp
      have "be16 (of_nat n) = take 2 ?c" using be16_of_be16 [of "take 2 ?c"] False by (simp add: n_def head_len_def)
      then have w: "be16 (of_nat n) @ sb_text sb1 = ?c" by (simp add: k(3))
      have l: "length (sb_text sb1) \<le> n + m" using k(3) assms(6) by simp
      obtain r sb' where "stream_buf_complete sb1 = Some (r, sb')" using complete_known_total [OF k(1,2) l] by blast
      moreover from added_known [OF k(1,2) _ _ k(4) n l this] have "added_ok m sb1 ?c r sb'"
        using assms(3,4) w by (simp add: sb1_def)
      ultimately show ?thesis using add ok by (simp add: added_ok_def)
    qed
  qed
qed

section \<open>One read\<close>

text \<open>A receiver that is ready to read: the second buffer is empty and \<open>next\<close> is set.\<close>

definition sb_reading :: "nat \<Rightarrow> stream_buf \<Rightarrow> bytes \<Rightarrow> bool" where
  "sb_reading m sb w \<longleftrightarrow> sb_rep m sb w \<and> \<not> sb_residual_fully_formed sb \<and> sb_rest sb = [] \<and> stream_buf_set_next sb = Some sb"

lemma reading_cases:
  assumes "sb_reading m sb w"
  obtains "sb_wf m sb" "\<not> sb_error sb" "sb_new sb" "w = sb_text sb" "length w < 2"
    | n where "sb_wf m sb" "\<not> sb_error sb" "sb_known m n sb" "n < 65536" "length (sb_text sb) < n" "w = be16 (of_nat n) @ sb_text sb"
  using assms by (force simp: sb_reading_def sb_rep_def)

lemma reading_next:
  assumes "sb_reading m sb w"
  shows "buf_defined (sb_next sb)" "b_offset (sb_next sb) = b_offset (sb_buf sb) + int (length (sb_text sb))"
    and "0 < b_len (sb_next sb)" "sb_new sb \<Longrightarrow> b_len (sb_next sb) = int (m - length (sb_text sb))"
    and "sb_known m n sb \<Longrightarrow> b_len (sb_next sb) = int n - int (length (sb_text sb))"
proof -
  have wf: "sb_wf m sb" using assms by (simp add: sb_reading_def sb_rep_def)
  note l = sb_len_text [OF wf]
  have e: "sb\<lparr>sb_next := (sb_buf sb)\<lparr>b_offset := b_offset (sb_buf sb) + b_len (sb_buf sb),
      b_len := (if sb_len sb \<ge> 0 then sb_len sb else sb_maxlen sb) - b_len (sb_buf sb)\<rparr>\<rparr> = sb"
    and g: "(if sb_len sb \<ge> 0 then sb_len sb else sb_maxlen sb) - b_len (sb_buf sb) > 0"
    using assms by (auto simp: sb_reading_def stream_buf_set_next_def Let_def split: if_splits)
  have nx: "sb_next sb = (sb_buf sb)\<lparr>b_offset := b_offset (sb_buf sb) + b_len (sb_buf sb),
      b_len := (if sb_len sb \<ge> 0 then sb_len sb else sb_maxlen sb) - b_len (sb_buf sb)\<rparr>"
    using arg_cong [OF e, of sb_next] by simp
  show "buf_defined (sb_next sb)" unfolding nx using wf by (auto simp: buf_defined_def sb_wf_def buf_ok_def)
  show "b_offset (sb_next sb) = b_offset (sb_buf sb) + int (length (sb_text sb))" unfolding nx l by simp
  show "0 < b_len (sb_next sb)" unfolding nx using g by simp
  show "sb_known m n sb \<Longrightarrow> b_len (sb_next sb) = int n - int (length (sb_text sb))" unfolding nx l by (simp add: sb_known_def)
  show "b_len (sb_next sb) = int (m - length (sb_text sb))" if "sb_new sb"
    using that wf g unfolding nx l by (simp add: sb_new_def sb_wf_def of_nat_diff)
qed

lemma recv_stored:
  assumes "sb_wf m sb" "xs \<noteq> []" "buf_write (sb_buf sb) xs = Some b"
  shows "stream_buf_added (sb\<lparr>sb_buf := buf_store (sb_buf sb) (b_offset (sb_buf sb) + int (length (sb_text sb))) xs\<rparr>) (int (length xs)) =
    stream_buf_added (sb\<lparr>sb_buf := b\<rparr>) 0"
proof -
  have "b = (buf_store (sb_buf sb) (b_offset (sb_buf sb) + int (length (sb_text sb))) xs)\<lparr>b_len := b_len (sb_buf sb) + int (length xs)\<rparr>"
    using assms(3) sb_len_text [OF assms(1)] by (auto simp: buf_write_def buf_write_alloc_def buf_store_def split: if_splits)
  then show ?thesis using assms(2) by (simp add: stream_buf_added_def Let_def buf_store_def)
qed

lemma recv_added:
  assumes "sb_reading m sb w" "xs \<noteq> []" "int (length xs) \<le> b_len (sb_next sb)"
  shows "\<exists>r sb'. stream_buf_added (sb\<lparr>sb_buf := buf_store (sb_buf sb) (b_offset (sb_next sb)) xs\<rparr>) (int (length xs)) = Some (r, sb') \<and>
    added_ok m sb (w @ xs) r sb'"
proof -
  note nx = reading_next [OF assms(1)]
  have st: "\<not> sb_residual_fully_formed sb" "sb_rest sb = []" using assms(1) by (simp_all add: sb_reading_def)
  have wf: "sb_wf m sb" using assms(1) by (simp add: sb_reading_def sb_rep_def)
  have bw: "\<exists>b. buf_write (sb_buf sb) xs = Some b \<and> buf_ok b \<and> buf_content b = sb_text sb @ xs \<and>
      b_capacity b = b_capacity (sb_buf sb) \<and> b_offset b = b_offset (sb_buf sb)"
    if "length (sb_text sb) + length xs \<le> m" "b_offset (sb_buf sb) \<le> b_offset (sb_buf_init sb) + 2"
    using that wf by (intro buf_write_fits) (simp_all add: sb_wf_def)
  note added_eq = recv_stored [OF wf assms(2)]
  from assms(1) show ?thesis
  proof (cases rule: reading_cases)
    case 1
    have l: "length (sb_text sb) + length xs \<le> m" using nx(4) [OF 1(3)] assms(3) nx(3) by simp
    then obtain b where b: "buf_write (sb_buf sb) xs = Some b" "buf_ok b" "buf_content b = sb_text sb @ xs"
      "b_capacity b = b_capacity (sb_buf sb)" "b_offset b = b_offset (sb_buf sb)" using bw 1(3) by (auto simp: sb_new_def)
    let ?s = "sb\<lparr>sb_buf := b\<rparr>"
    have "sb_wf m ?s" "sb_new ?s" "\<not> sb_error ?s" "\<not> sb_residual_fully_formed ?s" "sb_rest ?s = []" "length (sb_text ?s) \<le> m"
      using 1 b l st wf by (simp_all add: sb_wf_def sb_new_def)
    from added_new [OF this] show ?thesis using added_eq [OF b(1)] nx(2) 1(4) b(3) by (simp add: added_ok_def)
  next
    case (2 n)
    have n: "n \<le> m" "b_offset (sb_buf sb) = b_offset (sb_buf_init sb) + 2" using 2(3) by (simp_all add: sb_known_def)
    have l: "length (sb_text sb) + length xs \<le> n" using nx(5) [OF 2(3)] assms(3) by simp
    then obtain b where b: "buf_write (sb_buf sb) xs = Some b" "buf_ok b" "buf_content b = sb_text sb @ xs"
      "b_capacity b = b_capacity (sb_buf sb)" "b_offset b = b_offset (sb_buf sb)" using bw n by auto
    let ?s = "sb\<lparr>sb_buf := b\<rparr>"
    have s: "sb_wf m ?s" "sb_known m n ?s" "\<not> sb_error ?s" "\<not> sb_residual_fully_formed ?s" "sb_rest ?s = []"
      "length (sb_text ?s) \<le> n + m"
      using 2 b l st wf by (simp_all add: sb_wf_def sb_known_def)
    obtain r sb' where c: "stream_buf_complete ?s = Some (r, sb')" using complete_known_total [OF s(1,2,6)] by blast
    have "stream_buf_added ?s 0 = stream_buf_complete ?s" using s(2) by (simp add: stream_buf_added_def sb_known_def)
    then show ?thesis
      using added_eq [OF b(1)] nx(2) c added_known [OF s(1-5) 2(4) s(6) c] 2(6) b(3) by (simp add: added_ok_def)
  qed
qed

definition setup_ok :: "nat \<Rightarrow> bytes \<Rightarrow> bool \<Rightarrow> stream_buf \<Rightarrow> bool" where
  "setup_ok m w need sb \<longleftrightarrow>
     (case parse_frame m w of
        Wait \<Rightarrow> need \<and> sb_reading m sb w
      | Bad \<Rightarrow> need \<and> sb_error sb
      | Packet p q \<Rightarrow> \<not> need \<and> sb_residual_fully_formed sb \<and> sb_wf m sb \<and> \<not> sb_error sb \<and> sb_text sb = p \<and> sb_rest sb = q)"

lemma setup_residual:
  assumes "sb_wf m sb" "sb_new sb" "\<not> sb_error sb" "\<not> sb_residual_fully_formed sb" "sb_text sb = []" "sb_rest sb \<noteq> []"
  shows "\<exists>need sb'. stream_buf_read_setup_dowork sb = Some (need, sb') \<and> setup_ok m (sb_rest sb) need sb'"
proof -
  note wf = assms(1) [unfolded sb_wf_def]
  have ne: "b_len (sb_residual sb) \<noteq> 0" using sb_len_rest [OF assms(1)] assms(6) by simp
  have rl: "length (sb_rest sb) \<le> m" using wf sb_len_rest [OF assms(1)] by (auto simp: buf_ok_def)
  obtain b where b: "buf_copy (sb_buf sb) (sb_residual sb) = Some b" "buf_ok b" "buf_content b = sb_rest sb"
    "b_capacity b = b_capacity (sb_buf sb)" "b_offset b = b_offset (sb_buf sb)"
    using buf_write_fits [of "sb_buf sb" "sb_rest sb"] buf_load_all [of "sb_residual sb"] wf rl assms(2,5)
    by (auto simp: buf_copy_def sb_new_def)
  obtain r where r: "buf_init (sb_residual sb) 0 = Some r" "buf_ok r" "buf_content r = []" "b_offset r = 0" "b_capacity r = int m"
    using buf_init_ok [of "sb_residual sb" 0] wf by auto
  let ?s = "sb\<lparr>sb_buf := b, sb_residual := r\<rparr>"
  have "sb_wf m ?s" "sb_new ?s" "\<not> sb_error ?s" "\<not> sb_residual_fully_formed ?s" "sb_rest ?s = []" "length (sb_text ?s) \<le> m"
    using assms b r rl by (simp_all add: sb_wf_def sb_new_def)
  from added_new [OF this] obtain f s2 where a: "stream_buf_added ?s 0 = Some (f, s2)" "added_ok m ?s (sb_rest sb) f s2" using b(3) by auto
  let ?s3 = "s2\<lparr>sb_residual_fully_formed := f\<rparr>"
  have run: "stream_buf_read_setup_dowork sb = (if f then Some (False, ?s3) else map_option (Pair True) (stream_buf_set_next ?s3))"
    if "f \<or> (\<exists>s4. stream_buf_set_next ?s3 = Some s4 \<and> \<not> sb_residual_fully_formed s4)"
    using ne assms(4) b(1) r(1) a(1) that by (auto simp: stream_buf_read_setup_dowork_def)
  show ?thesis
  proof (cases "parse_frame m (sb_rest sb)")
    case Wait
    then have w: "\<not> f" "sb_reading m s2 (sb_rest sb)" using a(2) by (auto simp: added_ok_def sb_reading_def)
    then have "?s3 = s2" by (auto simp: sb_reading_def)
    then show ?thesis using run w Wait by (auto simp: setup_ok_def sb_reading_def)
  next
    case Bad
    then have w: "\<not> f" "sb_error s2" "sb_wf m ?s3" "sb_new ?s3" "sb_text ?s3 = []" using a(2) by (auto simp: added_ok_def sb_wf_def sb_new_def)
    obtain x where x: "stream_buf_set_next ?s3 = Some (?s3\<lparr>sb_next := x\<rparr>)" using set_next_new [OF w(3,4)] w(5) wf by auto
    then show ?thesis using run w(1,2) Bad by (auto simp: setup_ok_def)
  next
    case (Packet p q)
    then show ?thesis using run a(2) by (auto simp: setup_ok_def added_ok_def sb_wf_def)
  qed
qed

lemma setup_step:
  assumes "sb_rep m sb w"
  shows "\<exists>need sb'. stream_buf_read_setup_dowork sb = Some (need, sb') \<and> setup_ok m w need sb'"
proof -
  have wf: "sb_wf m sb" "\<not> sb_error sb" using assms by (auto simp: sb_rep_def)
  have idle: "\<exists>need sb'. stream_buf_read_setup_dowork sb = Some (need, sb') \<and> setup_ok m w need sb'"
    if "stream_buf_set_next sb = Some (sb\<lparr>sb_next := x\<rparr>)" "parse_frame m w = Wait" "sb_rest sb = []" "\<not> sb_residual_fully_formed sb" for x
  proof -
    have "sb_rep m (sb\<lparr>sb_next := x\<rparr>) w" using assms by (simp add: sb_rep_def known_next)
    then show ?thesis using that set_next_idem [OF that(1)] sb_len_rest [OF wf(1)]
      by (auto simp: stream_buf_read_setup_dowork_def setup_ok_def sb_reading_def)
  qed
  consider (full) n where "sb_residual_fully_formed sb" "sb_known m n sb" "n < 65536" "length (sb_text sb) = n" "w = be16 (of_nat n) @ sb_text sb @ sb_rest sb"
    | (rest) "\<not> sb_residual_fully_formed sb" "sb_new sb" "sb_text sb = []" "sb_rest sb \<noteq> []" "w = sb_rest sb"
    | (new) "\<not> sb_residual_fully_formed sb" "sb_new sb" "sb_rest sb = []" "w = sb_text sb" "length w < 2"
    | (known) n where "\<not> sb_residual_fully_formed sb" "sb_known m n sb" "n < 65536" "length (sb_text sb) < n" "sb_rest sb = []" "w = be16 (of_nat n) @ sb_text sb"
    using assms unfolding sb_rep_def by (cases "sb_residual_fully_formed sb"; cases "sb_rest sb = []") auto
  then show ?thesis
  proof cases
    case (full n)
    have "w = frame_bytes (sb_text sb) @ sb_rest sb" using full(4,5) by (simp add: frame_bytes_def)
    moreover have "1 \<le> n" "n \<le> m" using full(2) by (simp_all add: sb_known_def)
    ultimately have "parse_frame m w = Packet (sb_text sb) (sb_rest sb)" using parse_frame_bytes [of "sb_text sb" m "sb_rest sb"] full(3,4) by simp
    then show ?thesis using full(1) wf by (auto simp: stream_buf_read_setup_dowork_def setup_ok_def)
  next
    case rest
    then show ?thesis using setup_residual [OF wf(1) rest(2) wf(2) rest(1,3,4)] by simp
  next
    case new
    then show ?thesis using idle set_next_new [OF wf(1) new(2)] wf(1) by (auto simp: parse_frame_def sb_wf_def)
  next
    case (known n)
    have "head_len w = n" using known(3,6) by (simp add: head_len_def unsigned_of_nat take_bit_nat_eq_self)
    moreover have "1 \<le> n" "n \<le> m" using known(2) by (simp_all add: sb_known_def)
    ultimately have "parse_frame m w = Wait" using known(4,6) by (simp add: parse_frame_def Let_def)
    then show ?thesis using idle set_next_known [OF wf(1) known(2,4)] known(1,5) by simp
  qed
qed

text \<open>The packet, if the read completes one, and the bytes that are left.\<close>

definition read_ok :: "nat \<Rightarrow> bytes \<Rightarrow> int \<Rightarrow> buffer option \<Rightarrow> tcp_socket \<Rightarrow> bool" where
  "read_ok m w n pkt sock \<longleftrightarrow>
     (case parse_frame m w of
        Wait \<Rightarrow> n = 0 \<and> pkt = None \<and> sb_rep m (ts_stream_buf sock) w
      | Bad \<Rightarrow> n = 0 \<and> pkt = None \<and> sb_error (ts_stream_buf sock)
      | Packet p q \<Rightarrow> n = int (length p) \<and> (\<exists>b. pkt = Some b \<and> buf_ok b \<and> buf_content b = p) \<and> sb_rep m (ts_stream_buf sock) q)"

lemma final_packet:
  assumes "sb_wf m sb" "\<not> sb_error sb" "sb_text sb = p" "sb_rest sb = q"
  shows "stream_buf_get_final sb = Some (sb_buf sb)" "b_len (sb_buf sb) = int (length p)" "buf_ok (sb_buf sb)" "sb_rep m (stream_buf_reset sb) q"
proof -
  show "stream_buf_get_final sb = Some (sb_buf sb)" "buf_ok (sb_buf sb)"
    using assms(1) by (auto simp: stream_buf_get_final_def buf_defined_def sb_wf_def buf_ok_def)
  show "b_len (sb_buf sb) = int (length p)" using sb_len_text [OF assms(1)] assms(3) by simp
  have "\<not> sb_residual_fully_formed (stream_buf_reset sb)" "\<not> sb_error (stream_buf_reset sb)" using assms(2) by (simp_all add: stream_buf_reset_def)
  then show "sb_rep m (stream_buf_reset sb) q" using reset_new [OF assms(1)] assms(4) by (simp add: sb_rep_def)
qed

lemma read_full:
  assumes "sb_residual_fully_formed (ts_stream_buf s)" "setup_ok m w False (ts_stream_buf s)"
  shows "\<exists>n pkt s'. link_socket_read_tcp s 0 [] = Some (n, pkt, s') \<and> read_ok m w n pkt s' \<and> ts_sd s' = ts_sd s"
proof -
  obtain p q where pq: "parse_frame m w = Packet p q" "sb_wf m (ts_stream_buf s)" "\<not> sb_error (ts_stream_buf s)"
    "sb_text (ts_stream_buf s) = p" "sb_rest (ts_stream_buf s) = q"
    using assms(2) by (auto simp: setup_ok_def split: parse.splits)
  note f = final_packet [OF pq(2-5)]
  show ?thesis using assms(1) f pq(1,4) by (simp add: link_socket_read_tcp_def Let_def read_ok_def)
qed

lemma read_some:
  assumes "sb_reading m (ts_stream_buf s) w" "xs \<noteq> []" "int (length xs) \<le> b_len (sb_next (ts_stream_buf s))" "ts_sd s \<noteq> SOCKET_UNDEFINED"
  shows "\<exists>n pkt s'. link_socket_read_tcp s (int (length xs)) xs = Some (n, pkt, s') \<and> read_ok m (w @ xs) n pkt s' \<and> ts_sd s' = ts_sd s"
proof -
  let ?sb = "ts_stream_buf s"
  obtain r sb' where a: "stream_buf_added (?sb\<lparr>sb_buf := buf_store (sb_buf ?sb) (b_offset (sb_next ?sb)) xs\<rparr>) (int (length xs)) = Some (r, sb')"
    "added_ok m ?sb (w @ xs) r sb'" using recv_added [OF assms(1-3)] by blast
  have nf: "\<not> sb_residual_fully_formed ?sb" using assms(1) by (simp add: sb_reading_def)
  have run: "link_socket_read_tcp s (int (length xs)) xs =
      (if r then do { buf \<leftarrow> stream_buf_get_final sb'; Some (b_len buf, Some buf, s\<lparr>ts_stream_buf := stream_buf_reset sb'\<rparr>) }
       else Some (0, None, s\<lparr>ts_stream_buf := sb'\<rparr>))"
    using nf assms(2,4) a(1) reading_next(1) [OF assms(1)] by (simp add: link_socket_read_tcp_def Let_def stream_buf_get_next_def)
  show ?thesis
  proof (cases "parse_frame m (w @ xs)")
    case (Packet p q)
    then have w: "r" "sb_wf m sb'" "\<not> sb_error sb'" "sb_text sb' = p" "sb_rest sb' = q" using a(2) by (simp_all add: added_ok_def)
    show ?thesis using run w(1,4) final_packet [OF w(2-5)] Packet by (simp add: read_ok_def)
  qed (use run a(2) in \<open>auto simp: read_ok_def added_ok_def\<close>)
qed

section \<open>The event loop\<close>

text \<open>
  Each turn sets the read up and reads: \<open>recv\<close> delivers up to \<open>k + 1\<close> of the bytes \<open>st\<close> that are under way, as many as there is room
  for, or the turn passes if none are there. A connection with an error is closed before another packet is looked at.
\<close>

fun tcp_run :: "tcp_socket \<Rightarrow> bytes \<Rightarrow> nat list \<Rightarrow> (bytes list \<times> bytes \<times> tcp_socket) option" where
  "tcp_run s st [] = Some ([], st, s)"
| "tcp_run s st (k # ks) =
     (if sb_error (ts_stream_buf s) then Some ([], st, s)
      else do {
        (need, sb) \<leftarrow> stream_buf_read_setup_dowork (ts_stream_buf s);
        let s1 = s\<lparr>ts_stream_buf := sb\<rparr>;
        let xs = (if need then take (min (Suc k) (nat (b_len (sb_next sb)))) st else []);
        (if sb_error sb \<or> need \<and> xs = [] then tcp_run s1 st ks
         else do {
           (n, pkt, s2) \<leftarrow> link_socket_read_tcp s1 (int (length xs)) xs;
           (out, rest, s3) \<leftarrow> tcp_run s2 (drop (length xs) st) ks;
           Some ((case pkt of None \<Rightarrow> out | Some b \<Rightarrow> buf_content b # out), rest, s3)
         })
      })"

text \<open>One turn: it keeps the bytes in order, and makes progress unless it waits.\<close>

lemma tcp_run_error: "sb_error (ts_stream_buf s) \<Longrightarrow> tcp_run s st ks = Some ([], st, s)"
  by (cases ks) auto

lemma tcp_turn:
  assumes "sb_rep m (ts_stream_buf s) w" "ts_sd s \<noteq> SOCKET_UNDEFINED"
  obtains (bad) s1 where "parse_frame m w = Bad" "sb_error (ts_stream_buf s1)" "tcp_run s st (k # ks) = Some ([], st, s1)"
    | (wait) s1 where "st = []" "parse_frame m w = Wait" "sb_rep m (ts_stream_buf s1) w" "ts_sd s1 = ts_sd s" "tcp_run s st (k # ks) = tcp_run s1 st ks"
    | (go) n pkt s2 xs where "xs @ drop (length xs) st = st" "xs = [] \<longrightarrow> (\<exists>p q. parse_frame m w = Packet p q)"
        "read_ok m (w @ xs) n pkt s2" "ts_sd s2 = ts_sd s"
        "tcp_run s st (k # ks) = do { (out, rest, s3) \<leftarrow> tcp_run s2 (drop (length xs) st) ks;
           Some ((case pkt of None \<Rightarrow> out | Some b \<Rightarrow> buf_content b # out), rest, s3) }"
proof -
  have e: "\<not> sb_error (ts_stream_buf s)" using assms(1) by (simp add: sb_rep_def)
  obtain need sb where st: "stream_buf_read_setup_dowork (ts_stream_buf s) = Some (need, sb)" "setup_ok m w need sb" using setup_step [OF assms(1)] by blast
  let ?s1 = "s\<lparr>ts_stream_buf := sb\<rparr>"
  show thesis
  proof (cases "parse_frame m w")
    case Bad
    then have "sb_error sb" using st(2) by (simp add: setup_ok_def)
    then show thesis using bad [of ?s1] Bad e st(1) tcp_run_error [of ?s1] by simp
  next
    case (Packet p q)
    then have f: "\<not> need" "sb_residual_fully_formed sb" "\<not> sb_error sb" using st(2) by (simp_all add: setup_ok_def)
    have "sb_residual_fully_formed (ts_stream_buf ?s1)" "setup_ok m w False (ts_stream_buf ?s1)" using f st(2) by simp_all
    from read_full [OF this] obtain n pkt s2 where r: "link_socket_read_tcp ?s1 0 [] = Some (n, pkt, s2)" "read_ok m w n pkt s2" "ts_sd s2 = ts_sd s"
      by auto
    show thesis
      by (rule go [of "[]" n pkt s2]) (use r f e st(1) Packet in \<open>simp_all add: Let_def\<close>)
  next
    case Wait
    then have f: "need" "sb_reading m sb w" using st(2) by (simp_all add: setup_ok_def)
    then have ne: "\<not> sb_error sb" "sb_rep m sb w" by (auto simp: sb_reading_def sb_rep_def)
    have pos: "0 < b_len (sb_next sb)" using reading_next(3) [OF f(2)] .
    define xs where "xs = take (min (Suc k) (nat (b_len (sb_next sb)))) st"
    show thesis
    proof (cases "xs = []")
      case True
      then have "st = []" using pos by (auto simp: xs_def)
      then show thesis using wait [of ?s1] Wait ne f(1) e st(1) by (simp add: Let_def)
    next
      case False
      have l: "int (length xs) \<le> b_len (sb_next (ts_stream_buf ?s1))"
      proof -
        have "length xs \<le> nat (b_len (sb_next sb))" by (simp add: xs_def)
        then show ?thesis using pos by simp
      qed
      have "sb_reading m (ts_stream_buf ?s1) w" "ts_sd ?s1 \<noteq> SOCKET_UNDEFINED" using f assms(2) by simp_all
      from read_some [OF this(1) False l this(2)]
      obtain n pkt s2 where r: "link_socket_read_tcp ?s1 (int (length xs)) xs = Some (n, pkt, s2)" "read_ok m (w @ xs) n pkt s2" "ts_sd s2 = ts_sd s"
        by auto
      have "xs @ drop (length xs) st = st" by (simp add: xs_def) (metis append_take_drop_id min.commute take_all_iff nat_le_linear min_def)
      moreover have "0 < nat (b_len (sb_next sb))" "min (Suc k) (nat (b_len (sb_next sb))) \<noteq> 0" "st \<noteq> []" using False by (auto simp: xs_def)
      ultimately show thesis
        by (intro go [of xs n pkt s2]) (use r f(1) ne(1) e st(1) False in \<open>simp_all add: Let_def xs_def [symmetric] del: take_eq_Nil take_eq_Nil2\<close>)
    qed
  qed
qed

definition packets_ok :: "nat \<Rightarrow> bytes list \<Rightarrow> bool" where
  "packets_ok m ps \<longleftrightarrow> (\<forall>p \<in> set ps. 1 \<le> length p \<and> length p \<le> m \<and> length p < 65536)"

lemma packets_ok_simps [simp]:
  "packets_ok m []" "packets_ok m (p # ps) = (1 \<le> length p \<and> length p \<le> m \<and> length p < 65536 \<and> packets_ok m ps)"
  by (auto simp: packets_ok_def)

lemma tcp_run_refines:
  assumes "sb_rep m (ts_stream_buf s) w" "ts_sd s \<noteq> SOCKET_UNDEFINED"
  shows "\<exists>out rest s' w'. tcp_run s st ks = Some (out, rest, s') \<and> packets_ok m out \<and> w @ st = concat (map frame_bytes out) @ w' @ rest \<and>
    (if sb_error (ts_stream_buf s') then parse_frame m w' = Bad else sb_rep m (ts_stream_buf s') w')"
  using assms
proof (induction ks arbitrary: s st w)
  case Nil
  then show ?case by (auto simp: sb_rep_def)
next
  case (Cons k ks)
  from Cons.prems show ?case
  proof (cases rule: tcp_turn [where st = st and k = k and ks = ks])
    case (bad s1)
    then show ?thesis by (intro exI [of _ "[]"] exI [of _ st] exI [of _ s1] exI [of _ w]) simp
  next
    case (wait s1)
    then show ?thesis using Cons.IH [of s1 w st] Cons.prems(2) by simp
  next
    case (go n pkt s2 xs)
    have sd: "ts_sd s2 \<noteq> SOCKET_UNDEFINED" using go(4) Cons.prems(2) by simp
    show ?thesis
    proof (cases "parse_frame m (w @ xs)")
      case Wait
      then have r: "pkt = None" "sb_rep m (ts_stream_buf s2) (w @ xs)" using go(3) by (simp_all add: read_ok_def)
      obtain out rest s' w' where "tcp_run s2 (drop (length xs) st) ks = Some (out, rest, s')" "packets_ok m out"
        "(w @ xs) @ drop (length xs) st = concat (map frame_bytes out) @ w' @ rest"
        "if sb_error (ts_stream_buf s') then parse_frame m w' = Bad else sb_rep m (ts_stream_buf s') w'"
        using Cons.IH [OF r(2) sd, of "drop (length xs) st"] by blast
      then show ?thesis using go(1,5) r(1)
        by (intro exI [of _ out] exI [of _ rest] exI [of _ s'] exI [of _ w']) simp
    next
      case Bad
      then have r: "pkt = None" "sb_error (ts_stream_buf s2)" using go(3) by (simp_all add: read_ok_def)
      then show ?thesis using go(1,5) Bad tcp_run_error [OF r(2), of "drop (length xs) st" ks]
        by (intro exI [of _ "[]"] exI [of _ "drop (length xs) st"] exI [of _ s2] exI [of _ "w @ xs"]) simp
    next
      case (Packet p q)
      then obtain b where r: "pkt = Some b" "buf_content b = p" "sb_rep m (ts_stream_buf s2) q" using go(3) by (auto simp: read_ok_def)
      obtain out rest s' w' where i: "tcp_run s2 (drop (length xs) st) ks = Some (out, rest, s')" "packets_ok m out"
        "q @ drop (length xs) st = concat (map frame_bytes out) @ w' @ rest"
        "if sb_error (ts_stream_buf s') then parse_frame m w' = Bad else sb_rep m (ts_stream_buf s') w'"
        using Cons.IH [OF r(3) sd, of "drop (length xs) st"] by blast
      have f: "w @ xs = frame_bytes p @ q" "packets_ok m (p # out)" using frame_of_parse [OF Packet] i(2) by simp_all
      have "w @ st = (w @ xs) @ drop (length xs) st" using go(1) by simp
      also have "\<dots> = concat (map frame_bytes (p # out)) @ w' @ rest" unfolding f(1) using i(3) by simp
      finally show ?thesis using go(5) i(1,4) r(1,2) f(2)
        by (intro exI [of _ "p # out"] exI [of _ rest] exI [of _ s'] exI [of _ w']) simp
    qed
  qed
qed

text \<open>The prefix of a well-formed stream.\<close>

lemma parse_prefix:
  assumes "w @ st = frame_bytes p @ z" "1 \<le> length p" "length p \<le> m" "length p < 65536"
  shows "parse_frame m w = Wait \<and> length w < 2 + length p \<or> (\<exists>q. parse_frame m w = Packet p q \<and> q @ st = z)"
proof (cases "length w < 2 + length p")
  case True
  show ?thesis
  proof (cases "length w < 2")
    case False
    then have "head_len w = head_len (w @ st)" by (simp add: head_len_def)
    then have "head_len w = length p" using assms(1,4) head_frame by metis
    then show ?thesis using True False assms(2,3) by (auto simp: parse_frame_def Let_def)
  qed (auto simp: parse_frame_def)
next
  case False
  then have "length (frame_bytes p) \<le> length w" by simp
  then obtain q where q: "w = frame_bytes p @ q" "q @ st = z" using assms(1) by (metis append_eq_append_conv_if append_take_drop_id)
  moreover have "parse_frame m (frame_bytes p @ q) = Packet p q" using assms(2-4) by (intro parse_frame_bytes) auto
  ultimately show ?thesis by simp
qed

lemma parse_prefix_stream:
  assumes "w @ st = concat (map frame_bytes ps)" "packets_ok m ps"
  shows "parse_frame m w = Wait \<and> (st = [] \<longrightarrow> ps = []) \<or>
    (\<exists>p q ps'. ps = p # ps' \<and> parse_frame m w = Packet p q \<and> q @ st = concat (map frame_bytes ps') \<and> packets_ok m ps')"
proof (cases ps)
  case Nil
  then show ?thesis using assms(1) by (simp add: parse_frame_def)
next
  case (Cons p ps')
  have "length w + length st = 2 + length p + length (concat (map frame_bytes ps'))"
    using arg_cong [OF assms(1), of length] Cons by simp
  then show ?thesis
    using parse_prefix [of w st p "concat (map frame_bytes ps')" m] assms Cons by auto
qed

lemma tcp_run_all:
  assumes "sb_rep m (ts_stream_buf s) w" "ts_sd s \<noteq> SOCKET_UNDEFINED" "w @ st = concat (map frame_bytes ps)" "packets_ok m ps"
    and "length st + length ps \<le> length ks"
  shows "\<exists>s'. tcp_run s st ks = Some (ps, [], s') \<and> \<not> sb_error (ts_stream_buf s')"
  using assms
proof (induction ks arbitrary: s st w ps)
  case Nil
  then show ?case by (simp add: sb_rep_def)
next
  case (Cons k ks)
  note pp = parse_prefix_stream [OF Cons.prems(3,4)]
  from Cons.prems(1,2) show ?case
  proof (cases rule: tcp_turn [where st = st and k = k and ks = ks])
    case (bad s1)
    then show ?thesis using pp by auto
  next
    case (wait s1)
    then have "ps = []" using pp by auto
    then show ?thesis using wait Cons.IH [of s1 w st ps] Cons.prems by simp
  next
    case (go n pkt s2 xs)
    have sd: "ts_sd s2 \<noteq> SOCKET_UNDEFINED" using go(4) Cons.prems(2) by simp
    have eq: "(w @ xs) @ drop (length xs) st = concat (map frame_bytes ps)" using go(1) Cons.prems(3) by simp
    have len: "length st = length xs + length (drop (length xs) st)" using arg_cong [OF go(1), of length] by simp
    from parse_prefix_stream [OF eq Cons.prems(4)] show ?thesis
    proof (elim disjE exE conjE)
      assume p: "parse_frame m (w @ xs) = Wait"
      then have r: "pkt = None" "sb_rep m (ts_stream_buf s2) (w @ xs)" "xs \<noteq> []" using go(2,3) by (auto simp: read_ok_def)
      then have "1 \<le> length xs" by (simp add: Suc_le_eq)
      then have "length (drop (length xs) st) + length ps \<le> length ks" using Cons.prems(5) [unfolded list.size(4)] len by linarith
      from Cons.IH [OF r(2) sd eq Cons.prems(4) this]
      obtain s' where "tcp_run s2 (drop (length xs) st) ks = Some (ps, [], s')" "\<not> sb_error (ts_stream_buf s')" by blast
      then show ?thesis using go(5) r(1) by simp
    next
      fix p q ps' assume a: "ps = p # ps'" "parse_frame m (w @ xs) = Packet p q" "q @ drop (length xs) st = concat (map frame_bytes ps')" "packets_ok m ps'"
      then obtain b where r: "pkt = Some b" "buf_content b = p" "sb_rep m (ts_stream_buf s2) q" using go(3) by (auto simp: read_ok_def)
      have "length (drop (length xs) st) + length ps' \<le> length ks" using Cons.prems(5) [unfolded a(1) list.size(4)] len by linarith
      from Cons.IH [OF r(3) sd a(3,4) this]
      obtain s' where "tcp_run s2 (drop (length xs) st) ks = Some (ps', [], s')" "\<not> sb_error (ts_stream_buf s')" by blast
      then show ?thesis using go(5) r(1,2) a(1) by simp
    qed
  qed
qed

section \<open>Both ends\<close>

lemma stream_buf_init_rep:
  assumes "alloc_buf_sock_tun fr = Some buf" "0 \<le> headroom fr" "2 \<le> tailroom fr" "2 \<le> payload_size fr" "BUF_SIZE fr < int BUF_SIZE_MAX"
  shows "\<exists>sb. stream_buf_init buf = Some sb \<and> sb_rep (nat (payload_size fr)) sb []"
proof -
  let ?m = "nat (payload_size fr)"
  have b: "buf_ok buf" "b_offset buf = headroom fr" "b_len buf = payload_size fr" "b_capacity buf = BUF_SIZE fr"
    using alloc_buf_sock_tun_ok [of fr] assms by auto
  have m: "?m + 2 < BUF_SIZE_MAX" using assms by (simp add: BUF_SIZE_def)
  then obtain r where r: "alloc_buf ?m = Some r" by (simp add: alloc_buf_def buf_size_valid_def)
  then have ro: "buf_ok r" "buf_content r = []" "b_offset r = 0" "b_capacity r = int ?m"
    using alloc_buf_ok [OF r] by (auto simp: alloc_buf_def split: if_splits)
  let ?sb = "\<lparr>sb_buf_init = buf\<lparr>b_len := 0\<rparr>, sb_residual = r, sb_maxlen = b_len buf, sb_residual_fully_formed = False,
          sb_buf = buf, sb_next = buf_reset buf, sb_len = - 1, sb_error = False\<rparr>"
  have "sb_wf ?m ?sb" using b ro m assms by (simp add: sb_wf_def BUF_SIZE_def)
  from reset_new [OF this] ro have "sb_rep ?m (stream_buf_reset ?sb) []" by (simp add: sb_rep_def stream_buf_reset_def)
  then show ?thesis using r b(3) assms(4) by (simp add: stream_buf_init_def)
qed

lemma write_tcp_frame:
  assumes "buf_ok b" "2 \<le> b_offset b" "int (length (buf_content b)) \<le> sb_maxlen (ts_stream_buf s)" "length (buf_content b) < 65536"
  shows "\<exists>b'. link_socket_write_tcp s b = Some b' \<and> buf_ok b' \<and> buf_content b' = frame_bytes (buf_content b)"
proof -
  let ?n = "length (buf_content b)"
  have l: "BLEN b = int ?n" using length_buf_content [OF assms(1)] buf_ok_valid [OF assms(1)] by (simp add: BLEN_def)
  have u: "uint (of_nat ?n :: u16) = int ?n" using assms(4) by (simp add: unsigned_of_nat take_bit_nat_eq_self)
  obtain b' where "buf_write_prepend b (be16 (of_nat ?n)) = Some b'" using buf_prepend_succeeds [OF assms(1), of "be16 (of_nat ?n)"] assms(2) by auto
  then show ?thesis using assms(3) u buf_prepend_content [OF assms(1)] by (simp add: link_socket_write_tcp_def l frame_bytes_def)
qed

text \<open>A small connection: packets of up to eight bytes.\<close>

definition demo_frame :: frame where
  "demo_frame = \<lparr>payload_size = 8, headroom = 4, tailroom = 2, mss_fix = 0, max_fragment_size = 0, tun_mtu = 0, tun_max_mtu = 0, extra_tun = 0\<rparr>"

definition demo_buffer :: buffer where
  "demo_buffer = \<lparr>b_capacity = 14, b_offset = 4, b_len = 8, b_data = Some (replicate 14 0)\<rparr>"

definition demo_peer :: tcp_socket where
  "demo_peer = \<lparr>ts_sd = 1, ts_stream_buf = \<lparr>sb_buf_init = demo_buffer, sb_residual = demo_buffer, sb_maxlen = 8, sb_residual_fully_formed = False,
     sb_buf = demo_buffer, sb_next = demo_buffer, sb_len = - 1, sb_error = False\<rparr>, ts_stream_reset = False\<rparr>"

definition demo_packets :: "buffer list" where
  "demo_packets = [\<lparr>b_capacity = 5, b_offset = 2, b_len = 3, b_data = Some [0, 0, 1, 2, 3]\<rparr>,
     \<lparr>b_capacity = 5, b_offset = 2, b_len = 1, b_data = Some [0, 0, 4, 5, 6]\<rparr>]"

lemma demo_frame_facts:
  "alloc_buf_sock_tun demo_frame = Some demo_buffer" "0 \<le> headroom demo_frame" "2 \<le> tailroom demo_frame" "2 \<le> payload_size demo_frame"
  "BUF_SIZE demo_frame < int BUF_SIZE_MAX"
  by (simp_all add: demo_frame_def demo_buffer_def alloc_buf_sock_tun_def BUF_SIZE_def alloc_buf_def buf_size_valid_def BUF_SIZE_MAX_def
      buf_init_def buf_safe_def buf_valid_def Let_def)

text \<open>
  C15. Packets over TCP: the receiver that is set up with a frame as large as the sender's gets, from what \<open>link_socket_write_tcp\<close> makes of any packets,
  exactly these packets in their order, however the connection cuts the stream, as soon as the event loop has had a turn for each byte and
  each packet; no assertion fails and no error is raised.
\<close>

theorem tcp_stream_roundtrip:
  assumes "alloc_buf_sock_tun fr = Some buf" "0 \<le> headroom fr" "2 \<le> tailroom fr" "2 \<le> payload_size fr" "BUF_SIZE fr < int BUF_SIZE_MAX"
    and "sd \<noteq> SOCKET_UNDEFINED" "sb_maxlen (ts_stream_buf peer) \<le> payload_size fr"
    and "\<forall>b \<in> set bs. buf_ok b \<and> 2 \<le> b_offset b \<and> buf_content b \<noteq> [] \<and> length (buf_content b) < 65536 \<and>
           int (length (buf_content b)) \<le> sb_maxlen (ts_stream_buf peer)"
    and "length (concat (map (\<lambda>b. buf_content (the (link_socket_write_tcp peer b))) bs)) + length bs \<le> length ks"
  shows "\<exists>sb s'. stream_buf_init buf = Some sb \<and>
    tcp_run \<lparr>ts_sd = sd, ts_stream_buf = sb, ts_stream_reset = False\<rparr> (concat (map (\<lambda>b. buf_content (the (link_socket_write_tcp peer b))) bs)) ks =
      Some (map buf_content bs, [], s') \<and> \<not> sb_error (ts_stream_buf s')"
proof -
  let ?m = "nat (payload_size fr)" and ?ps = "map buf_content bs"
  have f: "buf_content (the (link_socket_write_tcp peer b)) = frame_bytes (buf_content b)" if "b \<in> set bs" for b
    using write_tcp_frame [of b peer] assms(8) that by auto
  then have st: "map (\<lambda>b. buf_content (the (link_socket_write_tcp peer b))) bs = map frame_bytes ?ps" by simp
  have ok: "packets_ok ?m ?ps" using assms(7,8) by (auto simp: packets_ok_def Suc_le_eq)
  obtain sb where sb: "stream_buf_init buf = Some sb" "sb_rep ?m sb []" using stream_buf_init_rep [OF assms(1-5)] by blast
  let ?s = "\<lparr>ts_sd = sd, ts_stream_buf = sb, ts_stream_reset = False\<rparr>"
  have r: "sb_rep ?m (ts_stream_buf ?s) []" "ts_sd ?s \<noteq> SOCKET_UNDEFINED" using sb(2) assms(6) by simp_all
  have "length (concat (map frame_bytes ?ps)) + length ?ps \<le> length ks" using assms(9) unfolding st by simp
  from tcp_run_all [OF r _ ok this] show ?thesis using sb(1) unfolding st by simp
qed

theorem tcp_stream_roundtrip_witness:
  "\<exists>sb s'. stream_buf_init demo_buffer = Some sb \<and>
     tcp_run \<lparr>ts_sd = 3, ts_stream_buf = sb, ts_stream_reset = False\<rparr> [0, 3, 1, 2, 3, 0, 1, 4] (replicate 10 0) = Some ([[1, 2, 3], [4]], [], s') \<and>
     \<not> sb_error (ts_stream_buf s')"
proof -
  have st: "concat (map (\<lambda>b. buf_content (the (link_socket_write_tcp demo_peer b))) demo_packets) = [0, 3, 1, 2, 3, 0, 1, 4]" by code_simp
  have c: "map buf_content demo_packets = [[1, 2, 3], [4]]" by code_simp
  have d: "(3 :: int) \<noteq> SOCKET_UNDEFINED" "sb_maxlen (ts_stream_buf demo_peer) \<le> payload_size demo_frame"
    by (simp_all add: SOCKET_UNDEFINED_def demo_peer_def demo_frame_def)
  have b: "\<forall>b \<in> set demo_packets. buf_ok b \<and> 2 \<le> b_offset b \<and> buf_content b \<noteq> [] \<and> length (buf_content b) < 65536 \<and>
      int (length (buf_content b)) \<le> sb_maxlen (ts_stream_buf demo_peer)"
    by (simp add: demo_packets_def demo_peer_def buf_ok_def buf_content_def buf_load_def mem_read_def)
  have l: "length (concat (map (\<lambda>b. buf_content (the (link_socket_write_tcp demo_peer b))) demo_packets)) + length demo_packets \<le> length (replicate 10 (0 :: nat))"
    unfolding st by (simp add: demo_packets_def)
  show ?thesis using tcp_stream_roundtrip [OF demo_frame_facts d b l] unfolding st c .
qed

text \<open>
  C24. Whatever bytes arrive, in whatever pieces: no assertion of the receiver fails, the packets that it passes on are the frames at the front of
  the stream, none longer than the buffer, and it reports an error exactly when the bytes after these frames start with a
  length that is zero or too large.
\<close>

theorem tcp_stream_safe:
  assumes "alloc_buf_sock_tun fr = Some buf" "0 \<le> headroom fr" "2 \<le> tailroom fr" "2 \<le> payload_size fr" "BUF_SIZE fr < int BUF_SIZE_MAX"
    and "sd \<noteq> SOCKET_UNDEFINED"
  shows "\<exists>sb out w rest s'. stream_buf_init buf = Some sb \<and>
    tcp_run \<lparr>ts_sd = sd, ts_stream_buf = sb, ts_stream_reset = False\<rparr> st ks = Some (out, rest, s') \<and>
    st = concat (map frame_bytes out) @ w @ rest \<and> packets_ok (nat (payload_size fr)) out \<and>
    (if sb_error (ts_stream_buf s') then parse_frame (nat (payload_size fr)) w = Bad else sb_rep (nat (payload_size fr)) (ts_stream_buf s') w)"
proof -
  obtain sb where sb: "stream_buf_init buf = Some sb" "sb_rep (nat (payload_size fr)) sb []" using stream_buf_init_rep [OF assms(1-5)] by blast
  let ?s = "\<lparr>ts_sd = sd, ts_stream_buf = sb, ts_stream_reset = False\<rparr>"
  have "sb_rep (nat (payload_size fr)) (ts_stream_buf ?s) []" "ts_sd ?s \<noteq> SOCKET_UNDEFINED" using sb(2) assms(6) by simp_all
  from tcp_run_refines [OF this, of st ks] show ?thesis using sb(1) unfolding append_Nil by blast
qed

theorem tcp_stream_safe_witness:
  "\<exists>sb out w rest s'. stream_buf_init demo_buffer = Some sb \<and>
     tcp_run \<lparr>ts_sd = 3, ts_stream_buf = sb, ts_stream_reset = False\<rparr> [0, 1, 7, 0, 0, 9] [5, 5, 5] = Some (out, rest, s') \<and>
     [0, 1, 7, 0, 0, 9] = concat (map frame_bytes out) @ w @ rest"
proof -
  have "(3 :: int) \<noteq> SOCKET_UNDEFINED" by (simp add: SOCKET_UNDEFINED_def)
  from tcp_stream_safe [OF demo_frame_facts this, of "[0, 1, 7, 0, 0, 9]" "[5, 5, 5]"] show ?thesis by blast
qed

end
