(* ===== verification/Spec2Isabelle.thy ===== *)
theory Spec2Isabelle
  imports Data_Keys Data_Channel_V1 Packet_Proto Chunk_Buffer Tcp_Relay Socks_Udpgw Fragment Ip_Header Stream_Buf
begin

text \<open>
  Verification of the native part of SmartTunnel, an Android VPN client (paths below \<open>src/app/src/main/cpp\<close>).

  \<^bold>\<open>The program.\<close> The application starts two native programs. \<open>tun2socks\<close> (directory \<open>badvpn\<close>) reads the IP packets of
  the TUN device, ends TCP connections in an embedded TCP stack (lwIP) and relays each of them through a SOCKS5 server; UDP
  packets are multiplexed by the udpgw protocol over one connection through the same server, DNS queries may bypass it.
  \<open>openvpn\<close> (directory \<open>openvpn/src/openvpn\<close>) carries the packets of the device over UDP or TCP: a reliable control channel
  for TLS, and a data channel of encrypted packets with replay protection, optional fragmentation, and corrections to
  the IP headers. Both are single threaded and driven by events.

  \<^bold>\<open>Conventions.\<close> Machine integers whose wrap-around matters are words; \<open>int\<close> values that the code keeps far from its bounds
  are \<open>int\<close>. A struct is a record, a block of memory a list of bytes with indices as addresses, an object of a heap an entry
  of a finite map. Functions of OpenVPN return \<open>None\<close> where an \<open>ASSERT\<close> of the code fails or it ends with a fatal error; a theorem that a run
  is \<open>Some\<close> hence says that this does not happen. BadVPN is built with its assertions off: they are proved as invariants. Handlers of
  BadVPN return the list of the calls that they make on other objects (actions). What the environment decides (bytes
  of a socket, failures of system calls, time, memory, timers, order of callbacks) are arguments of the operations, and events
  of the step relations and runs. Logging and statistics are left out.

  \<^bold>\<open>The theories of OpenVPN.\<close>
  \<^item> \<open>Ovpn_Buffer\<close>: \<open>struct buffer\<close> of \<open>buffer.h\<close> with bounds checked operations, and \<open>integer.h\<close>. \<open>buf_ok\<close> is the invariant and
    \<open>buf_content\<close> the bytes between offset and end; the locale \<open>byte_buffer\<close> states what a client may use, and \<open>ob\<close> interprets it.
  \<^item> \<open>Circ_List\<close>: the macros of \<open>circ_list.h\<close>, seen as a bounded list with the newest item first (locale \<open>window_list\<close>, interpretation \<open>cw\<close>).
  \<^item> \<open>Replay_Filter\<close>: the contract of a replay check (locale \<open>replay_filter\<close>) and of a check that also passes on a payload
    (locale \<open>packet_filter\<close>, which is a \<open>replay_filter\<close> by a sublocale), with the lemmas on runs.
  \<^item> \<open>Packet_Id\<close>: \<open>packet_id.c\<close> and \<open>crypto_check_replay\<close>: receiver window, reaping by age, sender counter with long and short form, persistence.
    A set of seen keys is the abstraction; \<open>rf\<close> interprets \<open>replay_filter\<close>.
  \<^item> \<open>Data_Crypto\<close>: the encryption and decryption functions of \<open>crypto.c\<close>, with the cipher library as a record of functions.
  \<^item> \<open>Data_Channel\<close>: sender and receiver over a network that loses, repeats, reorders and forges; \<open>dc\<close> interprets \<open>packet_filter\<close>.
    \<open>Data_Channel_V1\<close>: the older format with HMAC.
  \<^item> \<open>Reliable\<close>: \<open>reliable.c\<close>, \<open>session_id.h\<close>: acknowledgements, the store of packets, window tests, selection for sending.
  \<^item> \<open>Control_Channel\<close>: the functions of \<open>ssl.c\<close> that drive it; a sender and a receiver as a step relation, refining a prefix of a byte stream.
  \<^item> \<open>Key_State\<close>: the keys and sessions of \<open>ssl.c\<close> with their life cycle, from \<open>key_state_init\<close> over negotiation, authentication (\<open>ssl_verify.c\<close>), key expansion and
    renegotiation to retirement; the routing of control packets to sessions. \<open>multi_ok\<close> is the invariant that every operation keeps.
  \<^item> \<open>Data_Keys\<close>: the choice of the key of a data packet, opcodes, \<open>encrypt_sign\<close> and the data path of \<open>process_incoming_link_part1\<close> (\<open>forward.c\<close>), above \<open>Key_State\<close>
    and \<open>Data_Channel\<close>; life cycle and packets together are the step relation \<open>key_reach\<close>.
  \<^item> \<open>Mtu\<close>: \<open>struct frame\<close> and the allocation of packet buffers. \<open>Fragment\<close>: \<open>fragment.c\<close>, \<open>fragment.h\<close>.
  \<^item> \<open>Stream_Buf\<close>: the framing of packets on a TCP connection in \<open>socket.c\<close>, refining a parser of frames.
  \<^item> \<open>Ip_Rewrite\<close>: \<open>mss.c\<close>, \<open>clinat.c\<close> and the checksum macros of \<open>proto.h\<close>. \<open>Ip_Header\<close>: \<open>proto.c\<close>, \<open>dhcp.c\<close> and \<open>process_ip_header\<close> of \<open>forward.c\<close>
    with what it calls, applied to buffers of the data path.

  \<^bold>\<open>The theories of tun2socks.\<close>
  \<^item> \<open>Packet_Proto\<close>: \<open>PacketProtoEncoder.c\<close>, \<open>PacketProtoDecoder.c\<close>, \<open>PacketStreamSender.c\<close>, \<open>BufferWriter.c\<close>, refining a parser of frames.
  \<^item> \<open>Chunk_Buffer\<close>: \<open>ChunkBuffer2.h\<close> and \<open>PacketBuffer.c\<close>; the locale \<open>packet_queue\<close> with its lemmas on queues is interpreted as \<open>cq\<close>.
  \<^item> \<open>Socks_Client\<close>: \<open>BSocksClient.c\<close> with the messages of \<open>socks_proto.h\<close>, addresses and sizes; a reference handshake that it refines.
  \<^item> \<open>Tcp_Relay\<close>: the TCP part of \<open>tun2socks.c\<close>, from \<open>listener_accept_func\<close> to \<open>client_sent_func\<close>.
  \<^item> \<open>Inet_Checksum\<close>: the Internet checksum and its reference, used by \<open>Udp_Packet\<close> and \<open>Ip_Header\<close>.
  \<^item> \<open>Udp_Packet\<close>: headers, checksums and the UDP functions of \<open>tun2socks.c\<close>. \<open>Udpgw_Client\<close>: \<open>UdpGwClient.c\<close>, refining a list of
    addresses in the order of last use. \<open>Socks_Udpgw\<close>: \<open>SocksUdpGwClient.c\<close> above the SOCKS client and the udpgw client.

  \<open>Tunnel_Prelude\<close> holds the types, byte orders, memory writes and rule collections that all share. This theory
  holds the property that spans the UDP path.

  \<^bold>\<open>What is shown.\<close> (1) Safety of data: no data packet is accepted twice, a network that forges gets nothing through, the control
  channel delivers a prefix of the bytes sent, relays and queues neither lose, repeat nor reorder bytes. (2) Round trips: packets of both data formats, frames of
  both stream formats cut in any way, fragments in any order, data packets from the choice of the key to the peer, UDP packets through parser and builder. (3) Freedom from failed
  assertions and from accesses outside buffers, on arbitrary input, for buffers, replay window, reliability layer, keys and sessions, fragments, TCP stream, IP headers,
  SOCKS handshake. (4) Life cycles: a renegotiation never leaves the tunnel without a key, resources are released once, connections are reused in the order of last use, searches and loops end. (5) Functional behaviour of
  header rewriting against the checksum of RFC 1071. (6) Deviations of the code from its intention, proved on concrete packets or for all states.

  \<^bold>\<open>Bounds and hypotheses.\<close> A control channel session has fewer than \<open>2 ^ 31\<close> packets and a data channel key fewer than \<open>2 ^ 32\<close> (the code renegotiates
  earlier). Buffer sizes are below \<open>BUF_SIZE_MAX\<close>, which every allocation of the code checks. After the first fragment the
  fragment sender gets 31 further calls, as 32 is the largest number of fragments. Loops are recursive functions with a measure, or partial functions
  (\<open>outgoing_loop\<close>, \<open>find_unused_conid\<close>) for which a result is proved; no loop of the code is cut off by fuel. A run of the
  TCP receiver gets a turn for each byte and packet, the least that can be needed when the network delivers single
  bytes. The overhead of a cipher is at most \<open>crypto_max_overhead\<close>. Of the cipher library the theorems assume that the peer's functions invert sealing (\<open>aead_pair\<close>,
  \<open>key_pair\<close>) and that the output of decryption fits the input and a block (\<open>aead_bounded\<close>): the documented behaviour of the libraries. That forged
  bytes are not opened is a hypothesis on the datagrams that arrive. lwIP respects the
  receive window it was told.

  \<^bold>\<open>Not modelled.\<close> The vendored libraries (OpenSSL, mbed TLS, LZO, LZ4, lwIP, asio, openvpn3, libancillary), which the programs call;
  BadVPN's other programs and OpenVPN's server, Windows and kernel offload code, which the application does not run; the epoll loop, sockets,
  device, routes, signals, printing, which are input and output; option parsing, management interface and proxy text protocols; certificates and the contents of
  the key exchange, whose success and resulting contexts are arguments of the key life cycle, as are the wake-up times of the event loop; BadVPN's trees and lists, which are represented by maps and lists; the fair queue, the connector and the inactivity
  monitor between udpgw connections and their server, which are environment events of the udpgw client.
\<close>

section \<open>Properties across components\<close>

lemma addr_type_of_abs: "addr_ok a \<Longrightarrow> addr_ok b \<Longrightarrow> baddr_abs a = baddr_abs b \<Longrightarrow> addr_type a = addr_type b"
  by (auto simp: addr_ok_def baddr_abs_def socks_consts split: if_splits)



end
